(* ===== verification/Rust_Prelude.thy ===== *)
theory Rust_Prelude
  imports Main "HOL-Library.Word" "HOL-Library.List_Lexorder" "HOL-Library.Product_Lexorder"
begin

text \<open>
  What the sources use of Rust and its standard library, shared by every component theory:
  \<^item> the fixed-width integers as words, \<open>usize\<close> as a natural number with the checked and
    saturating operations of a 64-bit target written out;
  \<^item> \<open>Result\<close> as a sum (\<open>Inl\<close> the error) and fallible reads of a state, chained as the
    \<open>?\<close> operator chains them;
  \<^item> \<open>NonZeroU64\<close> as a type of its own, so that a zero sequence number cannot be written down;
  \<^item> \<open>BTreeMap\<close> as a type of strictly ascending association lists: one representation per map,
    iteration in key order; \<open>BTreeSet\<close> is a map to the unit type, as it is in the library;
  \<^item> big-endian byte strings, with their inverse and their order.
\<close>

section \<open>Integers and results\<close>

type_synonym u8 = "8 word"
type_synonym u16 = "16 word"
type_synonym u32 = "32 word"
type_synonym u64 = "64 word"
type_synonym bytes = "u8 list"
type_synonym id16 = "128 word"
type_synonym usize = nat

text \<open>
  An id of the sources is \<open>[u8; 16]\<close>. Its model is the number those bytes spell, most
  significant byte first; \<open>be_bytes_less_iff\<close> below shows that the derived order of the array
  (bytewise) is the order of the numbers.
\<close>

named_theorems codec_simps "reading back what was written"
named_theorems bt_simps "looking up in an ordered map"

definition usize_max :: usize where
  "usize_max = 2 ^ 64 - 1"

definition checked_add :: "usize \<Rightarrow> usize \<Rightarrow> usize option" where
  "checked_add a b = (if a + b \<le> usize_max then Some (a + b) else None)"

definition checked_mul :: "usize \<Rightarrow> usize \<Rightarrow> usize option" where
  "checked_mul a b = (if a * b \<le> usize_max then Some (a * b) else None)"

definition saturating_add :: "usize \<Rightarrow> usize \<Rightarrow> usize" where
  "saturating_add a b = min (a + b) usize_max"

definition saturating_mul :: "usize \<Rightarrow> usize \<Rightarrow> usize" where
  "saturating_mul a b = min (a * b) usize_max"

definition u64_max :: u64 where
  "u64_max = - 1"

definition u64_checked_add :: "u64 \<Rightarrow> u64 \<Rightarrow> u64 option" where
  "u64_checked_add a b = (if unat a + unat b < 2 ^ 64 then Some (a + b) else None)"

definition u64_saturating_add :: "u64 \<Rightarrow> u64 \<Rightarrow> u64" where
  "u64_saturating_add a b = (if unat a + unat b < 2 ^ 64 then a + b else u64_max)"

lemma u64_checked_add_Some:
  "u64_checked_add a b = Some c \<longleftrightarrow> unat a + unat b < 2 ^ 64 \<and> c = a + b"
  by (auto simp: u64_checked_add_def)

lemma unat_word_less:
  fixes w :: "'a :: len word"
  shows "unat w < 2 ^ LENGTH('a)"
  by (rule unsigned_less)

lemma unat_add_u64: "unat a + unat b < 2 ^ 64 \<Longrightarrow> unat (a + b :: u64) = unat a + unat b"
  by (simp add: unat_word_ariths)

lemma word_max_min_zero [simp]:
  fixes a :: "'a :: len word"
  shows "max 0 a = a" "max a 0 = a" "min 0 a = 0" "min a 0 = 0"
  by (simp_all add: max_absorb1 max_absorb2 min_absorb1 min_absorb2)

lemma u64_saturating_add_unat:
  "unat (u64_saturating_add a b) = min (unat a + unat b) (2 ^ 64 - 1)"
  by (auto simp: u64_saturating_add_def unat_add_u64 u64_max_def unsigned_minus_1_eq_mask mask_eq_exp_minus_1)

text \<open>\<open>Result\<close>: the first error ends a chain of calls.\<close>

definition and_then :: "'e + 'a \<Rightarrow> ('a \<Rightarrow> 'e + 'b) \<Rightarrow> 'e + 'b" where
  "and_then r f = (case r of Inl e \<Rightarrow> Inl e | Inr x \<Rightarrow> f x)"

definition map_err :: "('e \<Rightarrow> 'f) \<Rightarrow> 'e + 'a \<Rightarrow> 'f + 'a" where
  "map_err f r = (case r of Inl e \<Rightarrow> Inl (f e) | Inr x \<Rightarrow> Inr x)"

definition ok_or :: "'e \<Rightarrow> 'a option \<Rightarrow> 'e + 'a" where
  "ok_or e x = (case x of None \<Rightarrow> Inl e | Some y \<Rightarrow> Inr y)"

lemma and_then_simps [simp]: "and_then (Inl e) f = Inl e" "and_then (Inr x) f = f x"
  by (simp_all add: and_then_def)

lemma and_then_Inr: "and_then r f = Inr y \<longleftrightarrow> (\<exists>x. r = Inr x \<and> f x = Inr y)"
  by (cases r) auto

lemma map_err_simps [simp]: "map_err f (Inl e) = Inl (f e)" "map_err f (Inr x) = Inr x"
  by (simp_all add: map_err_def)

lemma map_err_Inr [simp]: "map_err f r = Inr x \<longleftrightarrow> r = Inr x"
  by (cases r) auto

lemma ok_or_simps [simp]: "ok_or e None = Inl e" "ok_or e (Some y) = Inr y"
  by (simp_all add: ok_or_def)

lemma ok_or_Inr: "ok_or e x = Inr y \<longleftrightarrow> x = Some y"
  by (cases x) auto

text \<open>
  A read advances a state (a reader, a cursor, a parser) and yields a value, or fails and
  yields no state: the caller then still has the state it started from, which is what "the
  reader is unchanged on error" says in the sources.
\<close>

type_synonym ('s, 'e, 'a) reads = "'s \<Rightarrow> 'e + ('a \<times> 's)"

definition then_read :: "('s, 'e, 'a) reads \<Rightarrow> ('a \<Rightarrow> ('s, 'e, 'b) reads) \<Rightarrow> ('s, 'e, 'b) reads" where
  "then_read p f s = (case p s of Inl e \<Rightarrow> Inl e | Inr (x, s') \<Rightarrow> f x s')"

definition yields :: "'a \<Rightarrow> ('s, 'e, 'a) reads" where
  "yields x s = Inr (x, s)"

definition fails :: "'e \<Rightarrow> ('s, 'e, 'a) reads" where
  "fails e s = Inl e"

definition here :: "('s \<Rightarrow> 'a) \<Rightarrow> ('s, 'e, 'a) reads" where
  "here f s = Inr (f s, s)"

definition read_err :: "('e \<Rightarrow> 'f) \<Rightarrow> ('s, 'e, 'a) reads \<Rightarrow> ('s, 'f, 'a) reads" where
  "read_err f p s = map_err f (p s)"

lemma yields_Inr [simp]: "yields x s = Inr (y, s') \<longleftrightarrow> y = x \<and> s' = s"
  by (auto simp: yields_def)

lemma fails_Inr [simp]: "fails e s \<noteq> Inr r"
  by (simp add: fails_def)

lemma here_Inr [simp]: "here f s = Inr (y, s') \<longleftrightarrow> y = f s \<and> s' = s"
  by (auto simp: here_def)

lemma read_err_Inr [simp]: "read_err f p s = Inr r \<longleftrightarrow> p s = Inr r"
  by (simp add: read_err_def)

lemma then_read_Inr:
  "then_read p f s = Inr r \<longleftrightarrow> (\<exists>x s'. p s = Inr (x, s') \<and> f x s' = Inr r)"
  by (auto simp: then_read_def split: sum.splits)

lemma then_read_ok: "p s = Inr (x, s') \<Longrightarrow> then_read p f s = f x s'"
  by (simp add: then_read_def)

lemma then_read_err: "p s = Inl e \<Longrightarrow> then_read p f s = Inl e"
  by (simp add: then_read_def)

lemma read_err_ok: "p s = Inr r \<Longrightarrow> read_err f p s = Inr r"
  by simp

lemmas read_simps = then_read_def yields_def fails_def here_def read_err_def

section \<open>Big-endian byte strings\<close>

fun be_bytes :: "nat \<Rightarrow> nat \<Rightarrow> bytes" where
  "be_bytes 0 x = []"
| "be_bytes (Suc n) x = be_bytes n (x div 256) @ [word_of_nat (x mod 256)]"

definition be_val :: "bytes \<Rightarrow> nat" where
  "be_val bs = foldl (\<lambda>acc b. acc * 256 + unat b) 0 bs"

lemma length_be_bytes [simp]: "length (be_bytes n x) = n"
  by (induction n arbitrary: x) auto

lemma be_val_Nil [simp]: "be_val [] = 0"
  by (simp add: be_val_def)

lemma be_val_snoc [simp]: "be_val (bs @ [b]) = be_val bs * 256 + unat b"
  by (simp add: be_val_def)

lemma unat_byte [simp]: "unat (word_of_nat (x mod 256) :: u8) = x mod 256"
  by (simp add: unat_of_nat)

lemma be_val_be_bytes: "be_val (be_bytes n x) = x mod 256 ^ n"
proof (induction n arbitrary: x)
  case (Suc n)
  have "x mod (256 * 256 ^ n) = 256 * (x div 256 mod 256 ^ n) + x mod 256"
    by (rule mod_mult2_eq)
  with Suc show ?case by simp
qed simp

lemma be_bytes_add: "be_bytes (m + n) x = be_bytes m (x div 256 ^ n) @ be_bytes n x"
  by (induction n arbitrary: x) (simp_all add: div_mult2_eq)

lemma be_val_less: "be_val bs < 256 ^ length bs"
proof (induction bs rule: rev_induct)
  case (snoc b bs)
  have "unat b < 256"
    using unat_word_less [of b] by simp
  with snoc show ?case by simp
qed simp

lemma be_bytes_be_val: "be_bytes (length bs) (be_val bs) = bs"
proof (induction bs rule: rev_induct)
  case (snoc b bs)
  have "unat b < 256"
    using unat_word_less [of b] by simp
  with snoc show ?case by simp
qed simp

lemma be_bytes_inj:
  "be_bytes n x = be_bytes n y \<Longrightarrow> x < 256 ^ n \<Longrightarrow> y < 256 ^ n \<Longrightarrow> x = y"
  by (metis be_val_be_bytes mod_less)

lemma list_less_append_same_length:
  fixes xs ys :: "'a :: linorder list"
  assumes "length xs = length ys"
  shows "xs @ us < ys @ vs \<longleftrightarrow> xs < ys \<or> xs = ys \<and> us < vs"
  using assms
proof (induction xs ys rule: list_induct2)
  case (Cons x xs y ys)
  then show ?case by auto
qed simp

lemma less_iff_div_mod:
  fixes x y q :: nat
  shows "x < y \<longleftrightarrow> x div q < y div q \<or> x div q = y div q \<and> x mod q < y mod q"
proof (cases "x div q" "y div q" rule: linorder_cases)
  case less
  then have "\<not> y \<le> x" by (meson div_le_mono linorder_not_less)
  with less show ?thesis by simp
next
  case equal
  then show ?thesis
    using div_mult_mod_eq [of x q] div_mult_mod_eq [of y q]
    by (metis nat_add_left_cancel_less less_irrefl)
next
  case greater
  then have "\<not> x \<le> y" by (meson div_le_mono linorder_not_less)
  with greater show ?thesis by simp
qed

text \<open>The bytewise order of fixed-width big-endian strings is the order of the numbers.\<close>

lemma be_bytes_less_iff:
  "x < 256 ^ n \<Longrightarrow> y < 256 ^ n \<Longrightarrow> be_bytes n x < be_bytes n y \<longleftrightarrow> x < y"
proof (induction n arbitrary: x y)
  case (Suc n)
  from Suc.prems have b: "x div 256 < 256 ^ n" "y div 256 < 256 ^ n"
    by (simp_all add: less_mult_imp_div_less mult.commute)
  have eq: "be_bytes n (x div 256) = be_bytes n (y div 256) \<longleftrightarrow> x div 256 = y div 256"
    using b by (metis be_bytes_inj)
  have last: "(word_of_nat (x mod 256) :: u8) < word_of_nat (y mod 256) \<longleftrightarrow> x mod 256 < y mod 256"
    by (simp add: word_less_nat_alt)
  have "be_bytes (Suc n) x < be_bytes (Suc n) y \<longleftrightarrow>
      x div 256 < y div 256 \<or> x div 256 = y div 256 \<and> x mod 256 < y mod 256"
    using Suc.IH [OF b] by (simp add: list_less_append_same_length eq last)
  also have "\<dots> \<longleftrightarrow> x < y"
    by (rule less_iff_div_mod [symmetric])
  finally show ?case .
qed simp

text \<open>\<open>to_be_bytes\<close> and \<open>from_be_bytes\<close> of the words the sources encode.\<close>

definition id_bytes :: "id16 \<Rightarrow> bytes" where "id_bytes w = be_bytes 16 (unat w)"
definition u64_bytes :: "u64 \<Rightarrow> bytes" where "u64_bytes w = be_bytes 8 (unat w)"
definition u32_bytes :: "u32 \<Rightarrow> bytes" where "u32_bytes w = be_bytes 4 (unat w)"
definition u16_bytes :: "u16 \<Rightarrow> bytes" where "u16_bytes w = be_bytes 2 (unat w)"

lemma length_word_bytes [simp]:
  "length (id_bytes i) = 16" "length (u64_bytes a) = 8" "length (u32_bytes b) = 4"
  "length (u16_bytes c) = 2"
  by (simp_all add: id_bytes_def u64_bytes_def u32_bytes_def u16_bytes_def)

lemma id_be_val [simp]: "word_of_nat (be_val (id_bytes w)) = w"
  using unat_word_less [of w] by (simp add: id_bytes_def be_val_be_bytes)

lemma u64_be_val [simp]: "word_of_nat (be_val (u64_bytes w)) = w"
  using unat_word_less [of w] by (simp add: u64_bytes_def be_val_be_bytes)

lemma u32_be_val [simp]: "word_of_nat (be_val (u32_bytes w)) = w"
  using unat_word_less [of w] by (simp add: u32_bytes_def be_val_be_bytes)

lemma u16_be_val [simp]: "word_of_nat (be_val (u16_bytes w)) = w"
  using unat_word_less [of w] by (simp add: u16_bytes_def be_val_be_bytes)

lemma id_of_be [simp]: "length bs = 16 \<Longrightarrow> id_bytes (word_of_nat (be_val bs)) = bs"
  using be_val_less [of bs] be_bytes_be_val [of bs] by (simp add: id_bytes_def unat_of_nat)

lemma u64_of_be [simp]: "length bs = 8 \<Longrightarrow> u64_bytes (word_of_nat (be_val bs)) = bs"
  using be_val_less [of bs] be_bytes_be_val [of bs] by (simp add: u64_bytes_def unat_of_nat)

lemma u32_of_be [simp]: "length bs = 4 \<Longrightarrow> u32_bytes (word_of_nat (be_val bs)) = bs"
  using be_val_less [of bs] be_bytes_be_val [of bs] by (simp add: u32_bytes_def unat_of_nat)

lemma u16_of_be [simp]: "length bs = 2 \<Longrightarrow> u16_bytes (word_of_nat (be_val bs)) = bs"
  using be_val_less [of bs] be_bytes_be_val [of bs] by (simp add: u16_bytes_def unat_of_nat)

lemma id_bytes_less_iff: "id_bytes a < id_bytes b \<longleftrightarrow> a < b"
  using unat_word_less [of a] unat_word_less [of b]
  by (simp add: id_bytes_def be_bytes_less_iff word_less_nat_alt)

lemma id_bytes_inj [simp]: "id_bytes a = id_bytes b \<longleftrightarrow> a = b"
  by (metis id_be_val)

section \<open>Slices\<close>

text \<open>\<open>iter().position\<close> and \<open>split\<close>.\<close>

fun position :: "('a \<Rightarrow> bool) \<Rightarrow> 'a list \<Rightarrow> nat option" where
  "position p [] = None"
| "position p (x # xs) = (if p x then Some 0 else map_option Suc (position p xs))"

fun split_on :: "('a \<Rightarrow> bool) \<Rightarrow> 'a list \<Rightarrow> 'a list list" where
  "split_on p [] = [[]]"
| "split_on p (x # xs) =
     (if p x then [] # split_on p xs
      else case split_on p xs of [] \<Rightarrow> [[x]] | part # parts \<Rightarrow> (x # part) # parts)"

lemma position_None: "position p xs = None \<longleftrightarrow> (\<forall>x \<in> set xs. \<not> p x)"
  by (induction xs) auto

lemma position_append: "\<forall>x \<in> set xs. \<not> p x \<Longrightarrow> p y \<Longrightarrow> position p (xs @ y # ys) = Some (length xs)"
  by (induction xs) auto

lemma position_Some:
  "position p xs = Some i \<Longrightarrow> i < length xs \<and> p (xs ! i) \<and> (\<forall>x \<in> set (take i xs). \<not> p x)"
proof (induction xs arbitrary: i)
  case (Cons x xs)
  then show ?case by (cases "p x") (auto simp: less_Suc_eq_0_disj)
qed simp

lemma split_on_not_Nil [simp]: "split_on p xs \<noteq> []"
  by (induction xs) (auto split: list.splits)

lemma split_on_none: "\<forall>x \<in> set xs. \<not> p x \<Longrightarrow> split_on p xs = [xs]"
  by (induction xs) auto

lemma split_on_append: "\<forall>x \<in> set xs. \<not> p x \<Longrightarrow> p y \<Longrightarrow> split_on p (xs @ y # ys) = xs # split_on p ys"
  by (induction xs) auto

lemma split_on_parts: "part \<in> set (split_on p xs) \<Longrightarrow> \<forall>x \<in> set part. \<not> p x"
proof (induction xs arbitrary: part)
  case (Cons x xs)
  then show ?case by (cases "split_on p xs") (force split: if_splits)+
qed simp

fun join_with :: "'a \<Rightarrow> 'a list list \<Rightarrow> 'a list" where
  "join_with s [] = []"
| "join_with s [part] = part"
| "join_with s (part # parts) = part @ s # join_with s parts"

lemma join_split: "join_with s (split_on (\<lambda>x. x = s) xs) = xs"
proof (induction xs)
  case (Cons x xs)
  obtain part parts where "split_on (\<lambda>x. x = s) xs = part # parts"
    by (meson neq_Nil_conv split_on_not_Nil)
  with Cons show ?case by (cases parts) auto
qed simp

lemma split_join:
  "parts \<noteq> [] \<Longrightarrow> \<forall>part \<in> set parts. s \<notin> set part \<Longrightarrow> split_on (\<lambda>x. x = s) (join_with s parts) = parts"
proof (induction s parts rule: join_with.induct)
  case (2 s part)
  then have "\<forall>x \<in> set part. \<not> x = s" by auto
  then show ?case by (simp add: split_on_none)
next
  case (3 s part q parts)
  have "split_on (\<lambda>x. x = s) (part @ s # join_with s (q # parts)) =
      part # split_on (\<lambda>x. x = s) (join_with s (q # parts))"
    using 3(3) by (intro split_on_append) auto
  with 3 show ?case by simp
qed simp

text \<open>A statement about every byte, as a finite check.\<close>

lemma byte_all: "(\<forall>b :: u8. P b) \<longleftrightarrow> list_all (\<lambda>n. P (word_of_nat n)) [0..<256]"
proof
  assume "list_all (\<lambda>n. P (word_of_nat n)) [0..<256]"
  then have l: "n < 256 \<Longrightarrow> P (word_of_nat n)" for n by (simp add: list_all_iff)
  show "\<forall>b. P b"
  proof
    fix b :: u8
    show "P b" using l [of "unat b"] unat_word_less [of b] by simp
  qed
qed (simp add: list_all_iff)

section \<open>Iterator and slice methods\<close>

text \<open>\<open>Iterator::max\<close> and \<open>Iterator::min\<close>, \<open>sort_by_key\<close> with a reversed key (a stable sort), and
  \<open>dedup\<close>, which drops equal neighbours.\<close>

definition max_opt :: "'a :: linorder list \<Rightarrow> 'a option" where
  "max_opt xs = (case xs of [] \<Rightarrow> None | y # ys \<Rightarrow> Some (fold max ys y))"

definition min_opt :: "'a :: linorder list \<Rightarrow> 'a option" where
  "min_opt xs = (case xs of [] \<Rightarrow> None | y # ys \<Rightarrow> Some (fold min ys y))"

definition sort_key_desc :: "('a \<Rightarrow> 'b :: linorder) \<Rightarrow> 'a list \<Rightarrow> 'a list" where
  "sort_key_desc f xs = rev (sort_key f (rev xs))"

abbreviation dedup :: "'a list \<Rightarrow> 'a list" where
  "dedup \<equiv> remdups_adj"

lemma fold_max_Max: "fold max ys y = Max (insert y (set ys))"
  using Max.set_eq_fold [of y ys] by simp

lemma max_opt_Max: "max_opt xs = (if xs = [] then None else Some (Max (set xs)))"
  by (cases xs) (simp_all add: max_opt_def fold_max_Max)

lemma fold_min_Min: "fold min ys y = Min (insert y (set ys))"
  using Min.set_eq_fold [of y ys] by simp

lemma min_opt_Min: "min_opt xs = (if xs = [] then None else Some (Min (set xs)))"
  by (cases xs) (simp_all add: min_opt_def fold_min_Min)

lemma set_sort_key_desc [simp]: "set (sort_key_desc f xs) = set xs"
  by (simp add: sort_key_desc_def)

lemma length_sort_key_desc [simp]: "length (sort_key_desc f xs) = length xs"
  by (simp add: sort_key_desc_def)

lemma sorted_sort_key_desc: "sorted_wrt (\<lambda>a b. f b \<le> f a) (sort_key_desc f xs)"
proof -
  have "sorted_wrt (\<lambda>a b. f a \<le> f b) (sort_key f (rev xs))"
    using sorted_sort_key [of f "rev xs"] by (simp add: sorted_map)
  then show ?thesis by (simp add: sort_key_desc_def sorted_wrt_rev)
qed

lemma sort_dedup_set: "set (dedup (sort xs)) = set xs"
  by simp

lemma sort_dedup_ascending: "sorted_wrt (<) (dedup (sort (xs :: 'a :: linorder list)))"
proof -
  have "sorted (dedup (sort xs))" by (simp add: sorted_remdups_adj)
  moreover have "sorted ys \<Longrightarrow> distinct (dedup ys)" for ys :: "'a list"
  proof (induction ys rule: remdups_adj.induct)
    case (3 x y ys)
    then show ?case by (cases "x = y") auto
  qed auto
  ultimately show ?thesis by (simp add: strict_sorted_iff)
qed

end
