(* ===== verification/Ordered_Maps.thy ===== *)
theory Ordered_Maps
  imports Rust_Prelude
begin

text \<open>
  \<open>BTreeMap\<close>, \<open>BTreeSet\<close> and \<open>NonZeroU64\<close> of the Rust standard library, as types whose
  values are exactly the states the Rust types can be in. A map is its list of entries in
  strictly ascending key order; the locale \<open>ordered_map\<close> states what the clients rely on
  (lookup after insert, remove and retain, iteration order, extensionality), and its
  interpretation on \<open>btree_map\<close> discharges it.
\<close>

section \<open>NonZeroU64\<close>

typedef nonzero_u64 = "{x :: u64. x \<noteq> 0}"
  morphisms nz_get nz_of
  by (rule exI [of _ 1]) simp

setup_lifting type_definition_nonzero_u64

instantiation nonzero_u64 :: linorder
begin

lift_definition less_eq_nonzero_u64 :: "nonzero_u64 \<Rightarrow> nonzero_u64 \<Rightarrow> bool" is "(\<le>)" .
lift_definition less_nonzero_u64 :: "nonzero_u64 \<Rightarrow> nonzero_u64 \<Rightarrow> bool" is "(<)" .

instance
  by (standard; transfer; auto)

end

instantiation nonzero_u64 :: equal
begin

lift_definition equal_nonzero_u64 :: "nonzero_u64 \<Rightarrow> nonzero_u64 \<Rightarrow> bool" is "(=)" .

instance
  by (standard; transfer; simp)

end

definition nz_new :: "u64 \<Rightarrow> nonzero_u64 option" where
  "nz_new x = (if x = 0 then None else Some (nz_of x))"

lemma nz_get_nonzero [simp]: "nz_get n \<noteq> 0"
  using nz_get [of n] by simp

lemma nz_get_pos [simp]: "0 < nz_get n"
  by (simp add: word_neq_0_conv [symmetric])

lemma nz_get_of [simp]: "x \<noteq> 0 \<Longrightarrow> nz_get (nz_of x) = x"
  by (simp add: nz_of_inverse)

lemma nz_of_get [simp]: "nz_of (nz_get n) = n"
  by (rule nz_get_inverse)

lemma nz_eq_iff: "a = b \<longleftrightarrow> nz_get a = nz_get b"
  by (simp add: nz_get_inject)

lemma nz_le_iff: "a \<le> b \<longleftrightarrow> nz_get a \<le> nz_get b"
  by transfer simp

lemma nz_less_iff: "a < b \<longleftrightarrow> nz_get a < nz_get b"
  by transfer simp

lemma nz_get_max [simp]: "nz_get (max a b) = max (nz_get a) (nz_get b)"
  by (simp add: max_def nz_le_iff)

lemma nz_get_min [simp]: "nz_get (min a b) = min (nz_get a) (nz_get b)"
  by (simp add: min_def nz_le_iff)

lemma nz_new_Some: "nz_new x = Some n \<longleftrightarrow> x = nz_get n"
  by (auto simp: nz_new_def)

lemma nz_new_None: "nz_new x = None \<longleftrightarrow> x = 0"
  by (simp add: nz_new_def)

lemma nz_new_get [simp]: "nz_new (nz_get n) = Some n"
  by (simp add: nz_new_Some)

section \<open>Strictly ascending association lists\<close>

abbreviation ascending :: "('k :: linorder \<times> 'v) list \<Rightarrow> bool" where
  "ascending xs \<equiv> sorted_wrt (<) (map fst xs)"

fun asc_insert :: "'k :: linorder \<Rightarrow> 'v \<Rightarrow> ('k \<times> 'v) list \<Rightarrow> ('k \<times> 'v) list" where
  "asc_insert k v [] = [(k, v)]"
| "asc_insert k v (e # es) =
     (if fst e < k then e # asc_insert k v es
      else if fst e = k then (k, v) # es
      else (k, v) # e # es)"

definition asc_filter_map :: "('k \<Rightarrow> 'v \<Rightarrow> 'w option) \<Rightarrow> ('k \<times> 'v) list \<Rightarrow> ('k \<times> 'w) list" where
  "asc_filter_map f es = List.map_filter (\<lambda>(k, v). map_option (Pair k) (f k v)) es"

lemma asc_filter_map_simps [simp]:
  "asc_filter_map f [] = []"
  "asc_filter_map f ((k, v) # es) =
     (case f k v of None \<Rightarrow> asc_filter_map f es | Some w \<Rightarrow> (k, w) # asc_filter_map f es)"
  by (auto simp: asc_filter_map_def List.map_filter_simps split: option.splits)

lemma set_asc_insert: "fst ` set (asc_insert k v es) = insert k (fst ` set es)"
  by (induction es) (auto simp: image_iff)

lemma asc_insert_above:
  "(\<forall>e \<in> set (asc_insert k v es). a < fst e) \<longleftrightarrow> a < k \<and> (\<forall>e \<in> set es. a < fst e)"
proof -
  have "(\<forall>e \<in> set (asc_insert k v es). a < fst e) \<longleftrightarrow> (\<forall>x \<in> fst ` set (asc_insert k v es). a < x)"
    by simp
  then show ?thesis by (simp add: set_asc_insert)
qed

lemma ascending_insert: "ascending es \<Longrightarrow> ascending (asc_insert k v es)"
  by (induction es) (auto simp: asc_insert_above)

lemma asc_filter_map_keys: "fst ` set (asc_filter_map f es) \<subseteq> fst ` set es"
  by (induction es) (force split: option.splits)+

lemma ascending_filter_map: "ascending es \<Longrightarrow> ascending (asc_filter_map f es)"
proof (induction es)
  case (Cons e es)
  then show ?case
    using asc_filter_map_keys [of f es] by (cases e) (fastforce split: option.splits)
qed simp

lemma map_of_asc_insert: "map_of (asc_insert k v es) k' = (if k' = k then Some v else map_of es k')"
  by (induction es) auto

lemma map_of_notin: "k \<notin> fst ` set es \<Longrightarrow> map_of es k = None"
  by (simp add: map_of_eq_None_iff)

lemma map_of_asc_filter_map:
  "ascending es \<Longrightarrow> map_of (asc_filter_map f es) k = Option.bind (map_of es k) (f k)"
proof (induction es)
  case (Cons e es)
  obtain k' v where e: "e = (k', v)" by (cases e)
  have "k' \<notin> fst ` set (asc_filter_map f es)"
    using Cons.prems asc_filter_map_keys [of f es] by (force simp: e)
  then have "map_of (asc_filter_map f es) k' = None"
    by (rule map_of_notin)
  with Cons show ?case by (auto simp: e split: option.splits)
qed simp

lemma ascending_distinct: "ascending es \<Longrightarrow> distinct (map fst es)"
  by (simp add: strict_sorted_iff)

lemma ascending_ext:
  assumes "ascending xs" "ascending ys" "map_of xs = map_of ys"
  shows "xs = ys"
proof -
  have "set xs = set ys"
    using assms by (metis ascending_distinct map_of_inject_set)
  then have "set (map fst xs) = set (map fst ys)" by simp
  then have keys: "map fst xs = map fst ys"
    using assms strict_sorted_equal by blast
  have "map snd xs = map snd ys"
  proof (rule nth_equalityI)
    show "length (map snd xs) = length (map snd ys)" using keys by (metis length_map)
    fix i assume i: "i < length (map snd xs)"
    then have "map_of xs (fst (xs ! i)) = Some (snd (xs ! i))"
      using assms(1) by (simp add: ascending_distinct)
    moreover have j: "i < length ys" using i keys by (metis length_map)
    then have "map_of ys (fst (ys ! i)) = Some (snd (ys ! i))"
      using assms(2) by (simp add: ascending_distinct)
    moreover have "fst (xs ! i) = fst (ys ! i)"
      using keys i j by (metis length_map nth_map)
    ultimately show "map snd xs ! i = map snd ys ! i"
      using assms(3) i j by simp
  qed
  with keys show ?thesis by (metis zip_map_fst_snd)
qed

section \<open>BTreeMap\<close>

typedef (overloaded) ('k, 'v) btree_map = "{es :: ('k :: linorder \<times> 'v) list. ascending es}"
  morphisms bt_entries bt_of
  by (rule exI [of _ "[]"]) simp

setup_lifting type_definition_btree_map

lift_definition bt_empty :: "('k :: linorder, 'v) btree_map" is "[]" by simp

lift_definition bt_get :: "('k :: linorder, 'v) btree_map \<Rightarrow> 'k \<Rightarrow> 'v option" is map_of .

lift_definition bt_insert :: "'k :: linorder \<Rightarrow> 'v \<Rightarrow> ('k, 'v) btree_map \<Rightarrow> ('k, 'v) btree_map"
  is asc_insert by (rule ascending_insert)

text \<open>\<open>retain\<close> with a closure that may also rewrite the value it keeps.\<close>

lift_definition bt_retain_map ::
  "('k :: linorder \<Rightarrow> 'v \<Rightarrow> 'w option) \<Rightarrow> ('k, 'v) btree_map \<Rightarrow> ('k, 'w) btree_map"
  is asc_filter_map by (rule ascending_filter_map)

instantiation btree_map :: (linorder, equal) equal
begin

definition equal_btree_map :: "('a, 'b) btree_map \<Rightarrow> ('a, 'b) btree_map \<Rightarrow> bool" where
  "equal_btree_map a b \<longleftrightarrow> bt_entries a = bt_entries b"

instance
  by standard (simp add: equal_btree_map_def bt_entries_inject)

end

definition bt_retain :: "('k :: linorder \<Rightarrow> 'v \<Rightarrow> bool) \<Rightarrow> ('k, 'v) btree_map \<Rightarrow> ('k, 'v) btree_map" where
  "bt_retain p = bt_retain_map (\<lambda>k v. if p k v then Some v else None)"

definition bt_remove :: "'k :: linorder \<Rightarrow> ('k, 'v) btree_map \<Rightarrow> ('k, 'v) btree_map" where
  "bt_remove k = bt_retain (\<lambda>k' _. k' \<noteq> k)"

definition bt_keys :: "('k :: linorder, 'v) btree_map \<Rightarrow> 'k list" where
  "bt_keys m = map fst (bt_entries m)"

definition bt_values :: "('k :: linorder, 'v) btree_map \<Rightarrow> 'v list" where
  "bt_values m = map snd (bt_entries m)"

definition bt_len :: "('k :: linorder, 'v) btree_map \<Rightarrow> usize" where
  "bt_len m = length (bt_entries m)"

definition bt_is_empty :: "('k :: linorder, 'v) btree_map \<Rightarrow> bool" where
  "bt_is_empty m \<longleftrightarrow> bt_entries m = []"

definition bt_contains_key :: "('k :: linorder, 'v) btree_map \<Rightarrow> 'k \<Rightarrow> bool" where
  "bt_contains_key m k \<longleftrightarrow> bt_get m k \<noteq> None"

text \<open>\<open>collect\<close>: a later pair replaces an earlier one of the same key.\<close>

definition bt_collect :: "('k :: linorder \<times> 'v) list \<Rightarrow> ('k, 'v) btree_map" where
  "bt_collect es = fold (\<lambda>(k, v). bt_insert k v) es bt_empty"

lemma bt_get_empty [simp, bt_simps]: "bt_get bt_empty k = None"
  by transfer simp

lemma bt_get_insert [simp, bt_simps]:
  "bt_get (bt_insert k v m) k' = (if k' = k then Some v else bt_get m k')"
  by transfer (rule map_of_asc_insert)

lemma bt_get_retain_map [simp, bt_simps]:
  "bt_get (bt_retain_map f m) k = Option.bind (bt_get m k) (f k)"
  by transfer (rule map_of_asc_filter_map)

lemma bt_get_retain [simp, bt_simps]:
  "bt_get (bt_retain p m) k =
     (case bt_get m k of None \<Rightarrow> None | Some v \<Rightarrow> if p k v then Some v else None)"
  by (simp add: bt_retain_def split: option.splits)

lemma bt_get_remove [simp, bt_simps]:
  "bt_get (bt_remove k m) k' = (if k' = k then None else bt_get m k')"
  by (simp add: bt_remove_def split: option.splits)

lemma bt_ext: "(\<And>k. bt_get a k = bt_get b k) \<Longrightarrow> a = b"
  by transfer (rule ascending_ext, auto)

lemma bt_eq_iff: "a = b \<longleftrightarrow> (\<forall>k. bt_get a k = bt_get b k)"
  using bt_ext by blast

lemma bt_entries_ascending [simp]: "ascending (bt_entries m)"
  using bt_entries [of m] by simp

lemma bt_keys_sorted [simp]: "sorted_wrt (<) (bt_keys m)"
  by (simp add: bt_keys_def)

lemma bt_keys_distinct [simp]: "distinct (bt_keys m)"
  by (simp add: bt_keys_def ascending_distinct)

lemma bt_get_map_of: "bt_get m = map_of (bt_entries m)"
  by transfer simp

lemma bt_entries_iff: "(k, v) \<in> set (bt_entries m) \<longleftrightarrow> bt_get m k = Some v"
  by (simp add: bt_get_map_of ascending_distinct)

lemma bt_keys_iff [simp]: "k \<in> set (bt_keys m) \<longleftrightarrow> bt_get m k \<noteq> None"
  by (simp add: bt_keys_def bt_get_map_of map_of_eq_None_iff)

lemma bt_values_iff: "v \<in> set (bt_values m) \<longleftrightarrow> (\<exists>k. bt_get m k = Some v)"
  by (simp add: bt_values_def image_iff Bex_def split_paired_Ex bt_entries_iff)

lemma bt_contains_key_iff [simp]: "bt_contains_key m k \<longleftrightarrow> bt_get m k \<noteq> None"
  by (simp add: bt_contains_key_def)

lemma bt_is_empty_iff: "bt_is_empty m \<longleftrightarrow> m = bt_empty"
  by (metis bt_empty.rep_eq bt_entries_inject bt_is_empty_def)

lemma bt_nonempty_get: "\<not> bt_is_empty m \<longleftrightarrow> (\<exists>k v. bt_get m k = Some v)"
  by (auto simp: bt_is_empty_iff bt_eq_iff)

lemma bt_len_keys [simp]: "length (bt_keys m) = bt_len m"
  by (simp add: bt_keys_def bt_len_def)

lemma bt_len_card: "bt_len m = card {k. bt_get m k \<noteq> None}"
proof -
  have "{k. bt_get m k \<noteq> None} = set (bt_keys m)" by auto
  then show ?thesis by (simp only: distinct_card [OF bt_keys_distinct] bt_len_keys)
qed

lemma bt_dom_finite [simp]: "finite {k. bt_get m k \<noteq> None}" "finite {k. \<exists>v. bt_get m k = Some v}"
  by (simp_all add: bt_get_map_of finite_dom_map_of [unfolded dom_def] flip: not_None_eq)

lemma bt_get_collect:
  "bt_get (bt_collect es) k = map_of (rev es) k"
proof -
  have "bt_get (fold (\<lambda>(k, v). bt_insert k v) es m) k =
      (case map_of (rev es) k of None \<Rightarrow> bt_get m k | Some v \<Rightarrow> Some v)" for m
    by (induction es arbitrary: m) (auto simp: map_add_def split: option.splits)
  then show ?thesis by (simp add: bt_collect_def split: option.splits)
qed

lemma map_of_rev_distinct: "distinct (map fst es) \<Longrightarrow> map_of (rev es) = map_of es"
  by (rule map_of_eqI) (auto simp: map_of_eq_Some_iff rev_map [symmetric])

lemma bt_get_collect_distinct:
  "distinct (map fst es) \<Longrightarrow> bt_get (bt_collect es) k = map_of es k"
  by (simp add: bt_get_collect map_of_rev_distinct)

lemma bt_collect_entries [simp]: "bt_collect (bt_entries m) = m"
proof (rule bt_ext)
  fix k
  have "bt_get (bt_collect (bt_entries m)) k = map_of (bt_entries m) k"
    by (rule bt_get_collect_distinct) (simp add: ascending_distinct)
  then show "bt_get (bt_collect (bt_entries m)) k = bt_get m k"
    by (simp add: bt_get_map_of)
qed

lemma bt_entries_collect:
  assumes "ascending es"
  shows "bt_entries (bt_collect es) = es"
  by (rule ascending_ext)
    (use assms in \<open>auto simp: bt_get_map_of [symmetric] bt_get_collect_distinct ascending_distinct\<close>)

text \<open>Evaluation on concrete maps.\<close>

lemmas bt_eval = bt_get_map_of bt_insert.rep_eq bt_empty.rep_eq bt_retain_map.rep_eq
  bt_retain_def bt_remove_def bt_keys_def bt_values_def bt_len_def bt_is_empty_def bt_collect_def

subsection \<open>The interface the clients rely on\<close>

locale ordered_map =
  fixes get :: "'m \<Rightarrow> 'k :: linorder \<Rightarrow> 'v option"
    and ins :: "'k \<Rightarrow> 'v \<Rightarrow> 'm \<Rightarrow> 'm"
    and del :: "'k \<Rightarrow> 'm \<Rightarrow> 'm"
    and mt :: 'm
    and ents :: "'m \<Rightarrow> ('k \<times> 'v) list"
  assumes get_mt: "get mt k = None"
    and get_ins: "get (ins k v m) k' = (if k' = k then Some v else get m k')"
    and get_del: "get (del k m) k' = (if k' = k then None else get m k')"
    and extensional: "(\<And>k. get a k = get b k) \<Longrightarrow> a = b"
    and ents_ascending: "ascending (ents m)"
    and ents_get: "(k, v) \<in> set (ents m) \<longleftrightarrow> get m k = Some v"
begin

lemma ins_ins: "ins k v (ins k w m) = ins k v m"
  by (rule extensional) (simp add: get_ins)

lemma ins_commute: "k \<noteq> k' \<Longrightarrow> ins k v (ins k' w m) = ins k' w (ins k v m)"
  by (rule extensional) (simp add: get_ins)

lemma ins_same: "get m k = Some v \<Longrightarrow> ins k v m = m"
  by (rule extensional) (simp add: get_ins)

lemma del_ins: "get m k = None \<Longrightarrow> del k (ins k v m) = m"
  by (rule extensional) (simp add: get_ins get_del)

lemma ents_eqI: "ents a = ents b \<Longrightarrow> a = b"
  by (rule extensional) (metis ents_get not_None_eq)

end

interpretation bt: ordered_map bt_get bt_insert bt_remove bt_empty bt_entries
  by unfold_locales (auto simp: bt_entries_iff intro: bt_ext)

section \<open>BTreeSet\<close>

type_synonym 'a btree_set = "('a, unit) btree_map"

definition bs_insert :: "'a :: linorder \<Rightarrow> 'a btree_set \<Rightarrow> 'a btree_set" where
  "bs_insert x = bt_insert x ()"

definition bs_contains :: "'a :: linorder btree_set \<Rightarrow> 'a \<Rightarrow> bool" where
  "bs_contains s x = bt_contains_key s x"

definition bs_extend :: "'a :: linorder list \<Rightarrow> 'a btree_set \<Rightarrow> 'a btree_set" where
  "bs_extend xs s = fold bs_insert xs s"

definition bs_collect :: "'a :: linorder list \<Rightarrow> 'a btree_set" where
  "bs_collect xs = bs_extend xs bt_empty"

lemma bs_contains_empty [simp]: "\<not> bs_contains bt_empty x"
  by (simp add: bs_contains_def)

lemma bs_contains_insert [simp]: "bs_contains (bs_insert x s) y \<longleftrightarrow> y = x \<or> bs_contains s y"
  by (simp add: bs_contains_def bs_insert_def)

lemma bs_contains_extend [simp]: "bs_contains (bs_extend xs s) y \<longleftrightarrow> y \<in> set xs \<or> bs_contains s y"
  by (induction xs arbitrary: s) (auto simp: bs_extend_def)

lemma bs_contains_collect [simp]: "bs_contains (bs_collect xs) y \<longleftrightarrow> y \<in> set xs"
  by (simp add: bs_collect_def)

lemma bs_keys_iff: "x \<in> set (bt_keys s) \<longleftrightarrow> bs_contains s x"
  by (simp add: bs_contains_def)

lemma bs_contains_iff: "bs_contains s x \<longleftrightarrow> bt_get s x = Some ()"
  by (simp add: bs_contains_def)

lemma bs_ext: "(\<And>x. bs_contains a x \<longleftrightarrow> bs_contains b x) \<Longrightarrow> a = b"
proof (rule bt_ext)
  fix k
  assume "\<And>x. bs_contains a x \<longleftrightarrow> bs_contains b x"
  then have "bt_get a k = Some () \<longleftrightarrow> bt_get b k = Some ()"
    by (simp only: bs_contains_iff)
  then show "bt_get a k = bt_get b k"
    by (cases "bt_get a k"; cases "bt_get b k") auto
qed

lemma bs_len_card: "bt_len s = card {x. bs_contains s x}"
  by (simp only: bt_len_card bs_contains_def bt_contains_key_iff)

lemma bs_keys_collect: "set (bt_keys (bs_collect xs)) = set xs"
  by (rule set_eqI) (simp only: bs_keys_iff bs_contains_collect)

end
