(* ===== verification/Encoding.thy ===== *)
theory Encoding
  imports Rust_Prelude
begin

text \<open>
  The canonical binary encoding of \<open>crates/rizzy-core/src/encoding.rs\<close>: the writers
  \<open>put_*\<close>, the bounded \<open>Reader\<close> over untrusted bytes and the base64url length rules. The
  base64url transcoding itself is the crate \<open>base64ct\<close> and is not modelled.

  The locale \<open>codec\<close> states the contract between a writer and a reader of one value: reading
  back what was written gives the value and the bytes after it, and whatever a read accepts is
  exactly what the writer would have written. Injectivity and unambiguous concatenation
  follow from it, once, for every field the formats are made of.
\<close>

datatype parse_error = PTruncated | PTrailingBytes | PInvalidLength | PTooLong | PInvalidValue
  | PInvalidUtf8 | PInvalidEncoding | PNonZeroPadding

datatype core_encode_error = TooLong | InvalidField

section \<open>Writers\<close>

definition put_u8 :: "bytes \<Rightarrow> u8 \<Rightarrow> bytes" where
  "put_u8 out v = out @ [v]"

definition put_u16 :: "bytes \<Rightarrow> u16 \<Rightarrow> bytes" where
  "put_u16 out v = out @ u16_bytes v"

definition put_u32 :: "bytes \<Rightarrow> u32 \<Rightarrow> bytes" where
  "put_u32 out v = out @ u32_bytes v"

definition put_u64 :: "bytes \<Rightarrow> u64 \<Rightarrow> bytes" where
  "put_u64 out v = out @ u64_bytes v"

definition u32_try_from :: "usize \<Rightarrow> u32 option" where
  "u32_try_from n = (if n < 2 ^ 32 then Some (word_of_nat n) else None)"

definition u16_try_from :: "usize \<Rightarrow> u16 option" where
  "u16_try_from n = (if n < 2 ^ 16 then Some (word_of_nat n) else None)"

definition put_bytes :: "bytes \<Rightarrow> bytes \<Rightarrow> core_encode_error + bytes" where
  "put_bytes out x =
     (case u32_try_from (length x) of
        None \<Rightarrow> Inl TooLong
      | Some len \<Rightarrow> Inr (put_u32 out len @ x))"

definition put_str :: "bytes \<Rightarrow> bytes \<Rightarrow> core_encode_error + bytes" where
  "put_str out s = put_bytes out s"

definition bytes_encoded_len :: "usize \<Rightarrow> core_encode_error + usize" where
  "bytes_encoded_len len =
     (case u32_try_from len of
        None \<Rightarrow> Inl TooLong
      | Some _ \<Rightarrow> ok_or TooLong (checked_add len 4))"

lemmas put_defs = put_u8_def put_u16_def put_u32_def put_u64_def

lemma u32_try_from_Some [simp]:
  "u32_try_from n = Some w \<longleftrightarrow> n = unat w"
proof
  assume "u32_try_from n = Some w"
  then show "n = unat w" by (auto simp: u32_try_from_def unat_of_nat split: if_splits)
next
  assume "n = unat w"
  then show "u32_try_from n = Some w" using unat_word_less [of w] by (simp add: u32_try_from_def)
qed

lemma u16_try_from_Some [simp]:
  "u16_try_from n = Some w \<longleftrightarrow> n = unat w"
proof
  assume "u16_try_from n = Some w"
  then show "n = unat w" by (auto simp: u16_try_from_def unat_of_nat split: if_splits)
next
  assume "n = unat w"
  then show "u16_try_from n = Some w" using unat_word_less [of w] by (simp add: u16_try_from_def)
qed

section \<open>The bounded reader\<close>

record reader =
  rd_input :: bytes
  rd_len :: usize

definition reader_new :: "bytes \<Rightarrow> reader" where
  "reader_new input = \<lparr>rd_input = input, rd_len = length input\<rparr>"

definition reader_remaining :: "reader \<Rightarrow> usize" where
  "reader_remaining r = length (rd_input r)"

definition reader_is_empty :: "reader \<Rightarrow> bool" where
  "reader_is_empty r \<longleftrightarrow> rd_input r = []"

text \<open>\<open>split_at_checked\<close> and \<open>split_first_chunk\<close>: nothing is read unless everything is there.\<close>

definition reader_take :: "usize \<Rightarrow> (reader, parse_error, bytes) reads" where
  "reader_take n r =
     (if n \<le> length (rd_input r)
      then Inr (take n (rd_input r), r\<lparr>rd_input := drop n (rd_input r)\<rparr>)
      else Inl PTruncated)"

definition reader_array :: "usize \<Rightarrow> (reader, parse_error, bytes) reads" where
  "reader_array n r =
     (if n \<le> length (rd_input r)
      then Inr (take n (rd_input r), r\<lparr>rd_input := drop n (rd_input r)\<rparr>)
      else Inl PTruncated)"

definition reader_u8 :: "(reader, parse_error, u8) reads" where
  "reader_u8 = then_read (reader_array 1) (\<lambda>bs. yields (word_of_nat (be_val bs)))"

definition reader_u16 :: "(reader, parse_error, u16) reads" where
  "reader_u16 = then_read (reader_array 2) (\<lambda>bs. yields (word_of_nat (be_val bs)))"

definition reader_u32 :: "(reader, parse_error, u32) reads" where
  "reader_u32 = then_read (reader_array 4) (\<lambda>bs. yields (word_of_nat (be_val bs)))"

definition reader_u64 :: "(reader, parse_error, u64) reads" where
  "reader_u64 = then_read (reader_array 8) (\<lambda>bs. yields (word_of_nat (be_val bs)))"

definition reader_id :: "(reader, parse_error, id16) reads" where
  "reader_id = then_read (reader_array 16) (\<lambda>bs. yields (word_of_nat (be_val bs)))"

definition reader_bytes_max :: "usize \<Rightarrow> (reader, parse_error, bytes) reads" where
  "reader_bytes_max mx =
     then_read reader_u32 (\<lambda>len.
       if unat len > mx then fails PTooLong else reader_take (unat len))"

definition reader_bytes :: "(reader, parse_error, bytes) reads" where
  "reader_bytes = reader_bytes_max usize_max"

definition reader_rest :: "reader \<Rightarrow> bytes \<times> reader" where
  "reader_rest r = (rd_input r, r\<lparr>rd_input := []\<rparr>)"

definition reader_finish :: "reader \<Rightarrow> parse_error + unit" where
  "reader_finish r = (if rd_input r = [] then Inr () else Inl PTrailingBytes)"

subsection \<open>\<open>core::str::from_utf8\<close>\<close>

text \<open>The well-formed UTF-8 sequences: no overlong form, no surrogate, at most U+10FFFF.\<close>

definition utf8_cont :: "u8 \<Rightarrow> bool" where
  "utf8_cont b \<longleftrightarrow> 0x80 \<le> b \<and> b \<le> 0xBF"

fun is_utf8 :: "bytes \<Rightarrow> bool" where
  "is_utf8 [] = True"
| "is_utf8 (a # bs) =
     (if a < 0x80 then is_utf8 bs
      else if 0xC2 \<le> a \<and> a \<le> 0xDF then
        (case bs of b # cs \<Rightarrow> utf8_cont b \<and> is_utf8 cs | [] \<Rightarrow> False)
      else if 0xE0 \<le> a \<and> a \<le> 0xEF then
        (case bs of b # c # ds \<Rightarrow>
           utf8_cont b \<and> utf8_cont c \<and> (a = 0xE0 \<longrightarrow> 0xA0 \<le> b) \<and> (a = 0xED \<longrightarrow> b \<le> 0x9F) \<and> is_utf8 ds
         | _ \<Rightarrow> False)
      else if 0xF0 \<le> a \<and> a \<le> 0xF4 then
        (case bs of b # c # d # es \<Rightarrow>
           utf8_cont b \<and> utf8_cont c \<and> utf8_cont d \<and> (a = 0xF0 \<longrightarrow> 0x90 \<le> b) \<and> (a = 0xF4 \<longrightarrow> b \<le> 0x8F)
           \<and> is_utf8 es
         | _ \<Rightarrow> False)
      else False)"

lemma is_utf8_ascii: "(\<forall>b \<in> set bs. b < 0x80) \<Longrightarrow> is_utf8 bs"
  by (induction bs) auto

definition reader_str :: "(reader, parse_error, bytes) reads" where
  "reader_str = then_read reader_bytes (\<lambda>bs. if is_utf8 bs then yields bs else fails PInvalidUtf8)"

section \<open>The codec contract\<close>

locale codec =
  fixes inp :: "'s \<Rightarrow> bytes"
    and with_inp :: "bytes \<Rightarrow> 's \<Rightarrow> 's"
    and ok :: "'a \<Rightarrow> bool"
    and enc :: "'a \<Rightarrow> bytes"
    and dec :: "('s, 'e, 'a) reads"
  assumes inp_with: "inp (with_inp bs s) = bs"
    and dec_enc: "ok x \<Longrightarrow> inp s = enc x @ rest \<Longrightarrow> dec s = Inr (x, with_inp rest s)"
    and enc_dec: "dec s = Inr (x, s') \<Longrightarrow> ok x \<and> inp s = enc x @ inp s' \<and> s' = with_inp (inp s') s"
begin

text \<open>Encodings concatenate without ambiguity.\<close>

lemma enc_prefix_free:
  assumes "ok x" "ok y" "enc x @ u = enc y @ v"
  shows "x = y \<and> u = v"
proof -
  let ?s = "with_inp (enc x @ u) undefined"
  have "dec ?s = Inr (x, with_inp u ?s)"
    using assms(1) by (rule dec_enc) (rule inp_with)
  moreover have "dec ?s = Inr (y, with_inp v ?s)"
    using assms(2) by (rule dec_enc) (simp add: inp_with assms(3))
  ultimately have "x = y" and "with_inp u ?s = with_inp v ?s" by simp_all
  then show ?thesis by (metis inp_with)
qed

lemma enc_inj: "ok x \<Longrightarrow> ok y \<Longrightarrow> enc x = enc y \<Longrightarrow> x = y"
  using enc_prefix_free [of x y "[]" "[]"] by simp

lemma dec_iff: "dec s = Inr (x, s') \<longleftrightarrow> ok x \<and> (\<exists>rest. inp s = enc x @ rest \<and> s' = with_inp rest s)"
  by (metis dec_enc enc_dec)

lemma then_dec_iff:
  "then_read dec f s = Inr r \<longleftrightarrow>
     (\<exists>x rest. ok x \<and> inp s = enc x @ rest \<and> f x (with_inp rest s) = Inr r)"
  by (auto simp: then_read_Inr dec_iff)

text \<open>Reporting another error changes nothing of the contract.\<close>

lemma read_err_codec: "codec inp with_inp ok enc (read_err f dec)"
proof (unfold_locales, rule inp_with)
  fix x s rest
  assume "ok x" "inp s = enc x @ rest"
  then show "read_err f dec s = Inr (x, with_inp rest s)"
    by (intro read_err_ok dec_enc)
next
  fix s x s'
  assume "read_err f dec s = Inr (x, s')"
  then have "dec s = Inr (x, s')" by simp
  then show "ok x \<and> inp s = enc x @ inp s' \<and> s' = with_inp (inp s') s" by (rule enc_dec)
qed

lemma dec_shrinks: "dec s = Inr (x, s') \<Longrightarrow> length (inp s) = length (enc x) + length (inp s')"
  using enc_dec by fastforce

end

abbreviation set_input :: "bytes \<Rightarrow> reader \<Rightarrow> reader" where
  "set_input bs r \<equiv> r\<lparr>rd_input := bs\<rparr>"

lemma reader_array_Inr:
  "reader_array n r = Inr (bs, r') \<longleftrightarrow> length bs = n \<and> rd_input r = bs @ rd_input r' \<and> r' = set_input (rd_input r') r"
proof
  assume "reader_array n r = Inr (bs, r')"
  then show "length bs = n \<and> rd_input r = bs @ rd_input r' \<and> r' = set_input (rd_input r') r"
    by (auto simp: reader_array_def split: if_splits)
next
  assume a: "length bs = n \<and> rd_input r = bs @ rd_input r' \<and> r' = set_input (rd_input r') r"
  then show "reader_array n r = Inr (bs, r')"
    by (auto simp: reader_array_def)
qed

lemma reader_take_eq_array: "reader_take = reader_array"
  by (simp add: fun_eq_iff reader_take_def reader_array_def)

text \<open>A fixed-width word field, given the inverse pair of its byte form.\<close>

lemma word_codec:
  assumes len: "\<And>w. length (wb w) = n"
    and unval: "\<And>w. of_val (be_val (wb w)) = w"
    and reval: "\<And>bs. length bs = n \<Longrightarrow> wb (of_val (be_val bs)) = bs"
  shows "codec rd_input set_input (\<lambda>_. True) wb
           (then_read (reader_array n) (\<lambda>bs. yields (of_val (be_val bs))))"
proof
  fix bs :: bytes and s :: reader
  show "rd_input (set_input bs s) = bs" by simp
next
  fix x and s :: reader and rest
  assume "rd_input s = wb x @ rest"
  then have "reader_array n s = Inr (wb x, set_input rest s)"
    by (simp add: reader_array_Inr len)
  then show "then_read (reader_array n) (\<lambda>bs. yields (of_val (be_val bs))) s = Inr (x, set_input rest s)"
    by (simp add: then_read_ok unval)
next
  fix s :: reader and x s'
  assume "then_read (reader_array n) (\<lambda>bs. yields (of_val (be_val bs))) s = Inr (x, s')"
  then show "True \<and> rd_input s = wb x @ rd_input s' \<and> s' = set_input (rd_input s') s"
    by (auto simp: then_read_Inr reader_array_Inr reval)
qed

lemma u8_be_val [simp]: "word_of_nat (be_val [b]) = (b :: u8)"
  using be_val_snoc [of "[]" b] by simp

interpretation u8_codec: codec rd_input set_input "\<lambda>_. True" "\<lambda>b. [b]" reader_u8
  unfolding reader_u8_def by (rule word_codec) (auto simp: length_Suc_conv)

interpretation u16_codec: codec rd_input set_input "\<lambda>_. True" u16_bytes reader_u16
  unfolding reader_u16_def by (rule word_codec) simp_all

interpretation u32_codec: codec rd_input set_input "\<lambda>_. True" u32_bytes reader_u32
  unfolding reader_u32_def by (rule word_codec) simp_all

interpretation u64_codec: codec rd_input set_input "\<lambda>_. True" u64_bytes reader_u64
  unfolding reader_u64_def by (rule word_codec) simp_all

interpretation id_codec: codec rd_input set_input "\<lambda>_. True" id_bytes reader_id
  unfolding reader_id_def by (rule word_codec) simp_all

text \<open>Length-prefixed bytes: \<open>bytes(x) = u32(len(x)) x\<close>.\<close>

definition bytes_enc :: "bytes \<Rightarrow> bytes" where
  "bytes_enc x = u32_bytes (word_of_nat (length x)) @ x"

lemma put_bytes_Inr: "put_bytes out x = Inr out' \<longleftrightarrow> length x < 2 ^ 32 \<and> out' = out @ bytes_enc x"
  by (auto simp: put_bytes_def u32_try_from_def put_u32_def bytes_enc_def)

interpretation bytes_codec: codec rd_input set_input "\<lambda>x. length x < 2 ^ 32" bytes_enc reader_bytes
proof
  fix bs :: bytes and s :: reader
  show "rd_input (set_input bs s) = bs" by simp
next
  fix x and s :: reader and rest
  assume x: "length (x :: bytes) < 2 ^ 32" and s: "rd_input s = bytes_enc x @ rest"
  let ?w = "word_of_nat (length x) :: u32"
  have w: "unat ?w = length x" using x by (simp add: unat_of_nat)
  have "reader_u32 s = Inr (?w, set_input (x @ rest) s)"
    by (rule u32_codec.dec_enc) (simp_all add: s bytes_enc_def)
  then show "reader_bytes s = Inr (x, set_input rest s)"
    using x by (simp add: reader_bytes_def reader_bytes_max_def then_read_ok w usize_max_def
        reader_take_def)
next
  fix s :: reader and x s'
  assume "reader_bytes s = Inr (x, s')"
  then obtain w s1 where w: "reader_u32 s = Inr (w, s1)" and t: "reader_take (unat w) s1 = Inr (x, s')"
    by (auto simp: reader_bytes_def reader_bytes_max_def then_read_Inr split: if_splits)
  from t have t': "length x = unat w" "rd_input s1 = x @ rd_input s'" "s' = set_input (rd_input s') s1"
    by (auto simp: reader_take_eq_array reader_array_Inr)
  with u32_codec.enc_dec [OF w] unat_word_less [of w]
  show "length x < 2 ^ 32 \<and> rd_input s = bytes_enc x @ rd_input s' \<and> s' = set_input (rd_input s') s"
    by (auto simp: bytes_enc_def)
qed

section \<open>base64url lengths\<close>

definition b64url_encoded_len :: "usize \<Rightarrow> usize" where
  "b64url_encoded_len n = (saturating_mul n 4 + 2) div 3"

definition b64url_decoded_len :: "usize \<Rightarrow> usize option" where
  "b64url_decoded_len text_len =
     (let whole = (text_len div 4) * 3; r = text_len mod 4
      in if r = 0 then Some whole else if r = 2 then Some (whole + 1)
         else if r = 3 then Some (whole + 2) else None)"

end
