(* ===== verification/Sync_Error.thy ===== *)
theory Sync_Error
  imports Encoding
begin

text \<open>
  The errors of the core encodings, \<open>crates/rizzy-sync/src/error.rs\<close>: a kind and the byte
  offset of the field that failed, which a caller shifts by the position of its own read.
\<close>

datatype decode_error_kind = Truncated | TrailingBytes | ZeroSeq | NotAscending

record decode_error =
  de_kind :: decode_error_kind
  de_offset :: usize

definition decode_error_new :: "decode_error_kind \<Rightarrow> usize \<Rightarrow> decode_error" where
  "decode_error_new k at = \<lparr>de_kind = k, de_offset = at\<rparr>"

definition decode_error_shifted :: "usize \<Rightarrow> decode_error \<Rightarrow> decode_error" where
  "decode_error_shifted base e = e\<lparr>de_offset := saturating_add (de_offset e) base\<rparr>"

datatype encode_error = TooManyEntries

end
