(* ===== verification/Hlc.thy ===== *)
theory Hlc
  imports Sync_Error
begin

text \<open>
  The hybrid logical clock, \<open>crates/rizzy-sync/src/hlc.rs\<close>: a 64-bit word whose top 48 bits
  are Unix milliseconds and whose low 16 bits count events within one. The wall clock is
  an argument, as in the source. Shown: both update rules strictly advance the clock or fail,
  they are the textbook rules on (milliseconds, counter) while the counter does not overflow,
  the skew guard fires exactly past 24 hours, and receipts at one wall-clock reading cannot
  ratchet the clock.
\<close>

unbundle bit_operations_syntax

type_synonym hlc = u64

definition COUNTER_BITS :: nat where
  "COUNTER_BITS = 16"

definition MAX_MILLIS :: u64 where
  "MAX_MILLIS = drop_bit COUNTER_BITS u64_max"

definition SKEW_GUARD_MS :: u64 where
  "SKEW_GUARD_MS = 24 * 60 * 60 * 1000"

record receipt =
  clock :: hlc
  remote_ahead :: bool

datatype hlc_error = WallClockOutOfRange | Exhausted

definition hlc_zero :: hlc where
  "hlc_zero = 0"

definition hlc_from_parts :: "u64 \<Rightarrow> u16 \<Rightarrow> hlc option" where
  "hlc_from_parts ms counter =
     (if ms \<le> MAX_MILLIS then Some (push_bit COUNTER_BITS ms OR ucast counter) else None)"

definition hlc_millis :: "hlc \<Rightarrow> u64" where
  "hlc_millis h = drop_bit COUNTER_BITS h"

definition hlc_counter :: "hlc \<Rightarrow> u16" where
  "hlc_counter h = word_of_nat (be_val (drop 6 (u64_bytes h)))"

definition hlc_to_bytes :: "hlc \<Rightarrow> bytes" where
  "hlc_to_bytes h = u64_bytes h"

definition hlc_from_bytes :: "bytes \<Rightarrow> hlc" where
  "hlc_from_bytes bs = word_of_nat (be_val bs)"

definition hlc_encode :: "hlc \<Rightarrow> bytes \<Rightarrow> bytes" where
  "hlc_encode h out = put_u64 out h"

definition hlc_read :: "(reader, decode_error, hlc) reads" where
  "hlc_read = read_err (\<lambda>_. decode_error_new Truncated 0) reader_u64"

definition physical :: "u64 \<Rightarrow> hlc_error + u64" where
  "physical now_ms =
     (if now_ms > MAX_MILLIS then Inl WallClockOutOfRange else Inr (push_bit COUNTER_BITS now_ms))"

definition hlc_tick :: "hlc \<Rightarrow> u64 \<Rightarrow> hlc_error + hlc" where
  "hlc_tick self now_ms =
     and_then (physical now_ms) (\<lambda>p.
     and_then (ok_or Exhausted (u64_checked_add self 1)) (\<lambda>n.
     Inr (max n p)))"

definition hlc_receive :: "hlc \<Rightarrow> hlc \<Rightarrow> u64 \<Rightarrow> hlc_error + receipt" where
  "hlc_receive self remote now_ms =
     and_then (physical now_ms) (\<lambda>p.
     if hlc_millis remote > u64_saturating_add now_ms SKEW_GUARD_MS
     then Inr \<lparr>clock = self, remote_ahead = True\<rparr>
     else and_then (ok_or Exhausted (u64_checked_add (max self remote) 1)) (\<lambda>n.
     Inr \<lparr>clock = max n p, remote_ahead = False\<rparr>))"

text \<open>A run of receipts at one wall-clock reading, as a host performs them while it applies
  the ops of a response.\<close>

fun receive_all :: "u64 \<Rightarrow> hlc \<Rightarrow> hlc list \<Rightarrow> hlc_error + hlc" where
  "receive_all now_ms h [] = Inr h"
| "receive_all now_ms h (r # rs) =
     and_then (hlc_receive h r now_ms) (\<lambda>rc. receive_all now_ms (clock rc) rs)"

section \<open>Arithmetic of the packed word\<close>

lemma unat_max_millis: "unat MAX_MILLIS = 2 ^ 48 - 1"
  by (simp add: MAX_MILLIS_def COUNTER_BITS_def u64_max_def unat_drop_bit_eq drop_bit_eq_div
      unsigned_minus_1_eq_mask mask_eq_exp_minus_1)

lemma unat_skew: "unat SKEW_GUARD_MS = 86400000"
  by (simp add: SKEW_GUARD_MS_def)

lemma unat_millis: "unat (hlc_millis h) = unat h div 2 ^ 16"
  by (simp add: hlc_millis_def COUNTER_BITS_def drop_bit_eq_div unat_div)

lemma unat_physical:
  fixes now_ms :: u64
  assumes "unat now_ms \<le> unat MAX_MILLIS"
  shows "unat (push_bit COUNTER_BITS now_ms) = unat now_ms * 2 ^ 16"
proof -
  have "unat now_ms * 2 ^ 16 < 2 ^ 64" using assms by (simp add: unat_max_millis)
  then show ?thesis
    by (simp add: COUNTER_BITS_def push_bit_eq_mult unat_word_ariths)
qed

lemma unat_counter: "unat (hlc_counter h) = unat h mod 2 ^ 16"
proof -
  have "be_bytes 8 x = be_bytes 6 (x div 256 ^ 2) @ be_bytes 2 x" for x
    using be_bytes_add [of 6 2 x] by simp
  then have "drop 6 (u64_bytes h) = be_bytes 2 (unat h)"
    by (simp add: u64_bytes_def)
  then show ?thesis
    by (simp add: hlc_counter_def be_val_be_bytes unat_of_nat)
qed

lemma unat_parts:
  assumes "hlc_from_parts ms c = Some h"
  shows "unat h = unat ms * 2 ^ 16 + unat c"
proof -
  from assms have ms: "unat ms \<le> unat MAX_MILLIS"
    and h: "h = push_bit COUNTER_BITS ms OR ucast c"
    by (auto simp: hlc_from_parts_def word_le_nat_alt split: if_splits)
  have c: "unat c < 2 ^ 16" using unat_word_less [of c] by simp
  have "unat (ucast c :: u64) = unat c"
    using c by (simp add: unsigned_ucast_eq take_bit_nat_eq_self)
  moreover have "push_bit COUNTER_BITS ms AND ucast c = 0"
    using c by (auto simp: COUNTER_BITS_def bit_eq_iff bit_simps dest: bit_imp_le_length)
  moreover have "unat ms * 2 ^ 16 + unat c < 2 ^ 64"
    using ms c by (simp add: unat_max_millis)
  ultimately show ?thesis
    by (simp add: h disjunctive_add_eq_or [symmetric] unat_physical [OF ms] unat_add_u64)
qed


lemma physical_Inr:
  "physical now_ms = Inr p \<longleftrightarrow> unat now_ms < 2 ^ 48 \<and> p = push_bit COUNTER_BITS now_ms"
  by (auto simp: physical_def unat_max_millis word_le_nat_alt word_less_nat_alt)

lemma physical_value: "physical now_ms = Inr p \<Longrightarrow> unat p = unat now_ms * 2 ^ 16"
  using unat_physical [of now_ms] by (simp add: physical_Inr unat_max_millis)

lemma unat_max_u64: "unat (max a b) = max (unat a) (unat (b :: u64))"
  by (simp add: max_def word_le_nat_alt)

lemma tick_Inr:
  "hlc_tick h now_ms = Inr h' \<longleftrightarrow>
     unat now_ms < 2 ^ 48 \<and> unat h < 2 ^ 64 - 1 \<and> unat h' = max (unat h + 1) (unat now_ms * 2 ^ 16)"
proof -
  have "hlc_tick h now_ms = Inr h' \<longleftrightarrow>
      unat now_ms < 2 ^ 48 \<and> unat h + 1 < 2 ^ 64 \<and> h' = max (h + 1) (push_bit COUNTER_BITS now_ms)"
    by (auto simp: hlc_tick_def and_then_Inr ok_or_Inr u64_checked_add_Some physical_Inr)
  also have "\<dots> \<longleftrightarrow> unat now_ms < 2 ^ 48 \<and> unat h + 1 < 2 ^ 64 \<and>
      unat h' = max (unat h + 1) (unat now_ms * 2 ^ 16)"
    using unat_add_u64 [of h 1]
    by (auto simp: unat_max_u64 unat_physical unat_max_millis word_unat_eq_iff)
  finally show ?thesis by auto
qed

lemma receive_guard:
  "hlc_millis remote > u64_saturating_add now_ms SKEW_GUARD_MS \<longleftrightarrow>
     unat (hlc_millis remote) > unat now_ms + 86400000"
proof -
  have "unat (hlc_millis remote) < 2 ^ 48"
    using unat_word_less [of remote] by (simp add: unat_millis)
  then show ?thesis
    by (auto simp: word_less_nat_alt u64_saturating_add_unat unat_skew)
qed

lemma receive_Inr:
  "hlc_receive h r now_ms = Inr rc \<longleftrightarrow>
     unat now_ms < 2 ^ 48 \<and>
     (if unat (hlc_millis r) > unat now_ms + 86400000 then rc = \<lparr>clock = h, remote_ahead = True\<rparr>
      else max (unat h) (unat r) < 2 ^ 64 - 1 \<and> \<not> remote_ahead rc \<and>
           unat (clock rc) = max (max (unat h) (unat r) + 1) (unat now_ms * 2 ^ 16))"
proof (cases "unat now_ms < 2 ^ 48 \<and> \<not> unat (hlc_millis r) > unat now_ms + 86400000")
  case True
  then have p: "unat (push_bit COUNTER_BITS now_ms) = unat now_ms * 2 ^ 16"
    by (simp add: unat_physical unat_max_millis)
  have "hlc_receive h r now_ms = Inr rc \<longleftrightarrow>
      max (unat h) (unat r) + 1 < 2 ^ 64 \<and>
      rc = \<lparr>clock = max (max h r + 1) (push_bit COUNTER_BITS now_ms), remote_ahead = False\<rparr>"
    using True by (auto simp: hlc_receive_def receive_guard and_then_Inr ok_or_Inr
        u64_checked_add_Some physical_Inr unat_max_u64)
  also have "\<dots> \<longleftrightarrow> max (unat h) (unat r) + 1 < 2 ^ 64 \<and> \<not> remote_ahead rc \<and>
      unat (clock rc) = max (max (unat h) (unat r) + 1) (unat now_ms * 2 ^ 16)"
    using unat_add_u64 [of "max h r" 1]
    by (cases rc) (auto simp: unat_max_u64 p word_unat_eq_iff)
  finally show ?thesis using True by auto
next
  case False
  then show ?thesis
    by (auto simp: hlc_receive_def receive_guard and_then_Inr physical_Inr)
qed

section \<open>Properties\<close>

text \<open>A local event either fails, because the wall clock does not fit 48 bits or the clock is at
  its end, or yields a clock strictly above the old one that is not behind the wall clock.\<close>

theorem tick_advances:
  "case hlc_tick h now_ms of
     Inl WallClockOutOfRange \<Rightarrow> now_ms > MAX_MILLIS
   | Inl Exhausted \<Rightarrow> now_ms \<le> MAX_MILLIS \<and> h = u64_max
   | Inr h' \<Rightarrow> h < h' \<and> now_ms \<le> hlc_millis h'"
proof (cases "hlc_tick h now_ms")
  case (Inl e)
  have "unat h + 1 \<ge> 2 ^ 64 \<Longrightarrow> h = u64_max"
    using unat_word_less [of h]
    by (simp add: u64_max_def word_unat_eq_iff unsigned_minus_1_eq_mask mask_eq_exp_minus_1)
  with Inl show ?thesis
    by (cases e) (auto simp: hlc_tick_def physical_def u64_checked_add_def ok_or_def split: if_splits)
next
  case (Inr h')
  then have "unat h' = max (unat h + 1) (unat now_ms * 2 ^ 16)" by (simp add: tick_Inr)
  with Inr show ?thesis
    by (auto simp: word_less_nat_alt word_le_nat_alt unat_millis max_def div_le_mono
        less_eq_div_iff_mult_less_eq)
qed

text \<open>A receipt leaves the clock unchanged and flags the author exactly when the received time is
  more than 24 hours ahead of the wall clock, whatever the local clock reads; otherwise the
  new clock is strictly above both clocks and not behind the wall clock.\<close>

theorem receive_skew_guard:
  assumes "hlc_receive h r now_ms = Inr rc"
  shows "if unat (hlc_millis r) > unat now_ms + 24 * 60 * 60 * 1000
         then remote_ahead rc \<and> clock rc = h
         else \<not> remote_ahead rc \<and> h < clock rc \<and> r < clock rc \<and> now_ms \<le> hlc_millis (clock rc)"
  using assms
  by (auto simp: receive_Inr word_less_nat_alt word_le_nat_alt unat_millis
      less_eq_div_iff_mult_less_eq split: if_splits)

theorem receive_skew_guard_witness:
  "hlc_receive 0 (push_bit 16 86400001) 0 = Inr \<lparr>clock = 0, remote_ahead = True\<rparr> \<and>
   hlc_receive 5 7 0 = Inr \<lparr>clock = 8, remote_ahead = False\<rparr> \<and> (7 :: u64) < 8"
proof -
  have a: "hlc_receive 0 (push_bit 16 86400001) 0 = Inr \<lparr>clock = 0, remote_ahead = True\<rparr>"
    by (simp add: receive_Inr unat_millis)
  have b: "hlc_receive 5 7 0 = Inr \<lparr>clock = 8, remote_ahead = False\<rparr>"
    by (simp add: receive_Inr unat_millis)
  show ?thesis using a b receive_skew_guard [OF b] by simp
qed

lemma receive_all_bound:
  assumes "receive_all now_ms h rs = Inr h'"
    and "unat h \<le> (unat now_ms + 86400001) * 2 ^ 16 - 1"
  shows "unat h' \<le> (unat now_ms + 86400001) * 2 ^ 16 - 1 + length rs"
proof -
  have step: "unat (clock rc) \<le> max (unat g) ((unat now_ms + 86400001) * 2 ^ 16 - 1) + 1"
    if "hlc_receive g r now_ms = Inr rc" for g r rc
  proof (cases "unat (hlc_millis r) > unat now_ms + 86400000")
    case True
    with that show ?thesis by (simp add: receive_Inr)
  next
    case False
    then have "unat r \<le> (unat now_ms + 86400001) * 2 ^ 16 - 1"
      by (simp add: unat_millis not_less)
    with that False show ?thesis by (auto simp: receive_Inr max_def split: if_splits)
  qed
  have "unat h' \<le> max (unat h) ((unat now_ms + 86400001) * 2 ^ 16 - 1) + length rs"
    using assms(1)
  proof (induction rs arbitrary: h)
    case (Cons r rs)
    then obtain rc where rc: "hlc_receive h r now_ms = Inr rc"
      and rest: "receive_all now_ms (clock rc) rs = Inr h'"
      by (auto simp: and_then_Inr)
    from Cons.IH [OF rest] step [OF rc] show ?case by simp
  qed simp
  with assms(2) show ?thesis by simp
qed



section \<open>The textbook rules\<close>

text \<open>The send and receive rules on the pair (milliseconds, counter), as published; the module's
  documentation and tests take them as the reference.\<close>

definition textbook_send :: "nat \<times> nat \<Rightarrow> nat \<Rightarrow> nat \<times> nat" where
  "textbook_send lc pt = (let l2 = max (fst lc) pt in
     if l2 = fst lc then (l2, snd lc + 1) else (l2, 0))"

definition textbook_receive :: "nat \<times> nat \<Rightarrow> nat \<times> nat \<Rightarrow> nat \<Rightarrow> nat \<times> nat" where
  "textbook_receive lc m pt = (let l2 = max (max (fst lc) (fst m)) pt in
     if l2 = fst lc \<and> l2 = fst m then (l2, max (snd lc) (snd m) + 1)
     else if l2 = fst lc then (l2, snd lc + 1)
     else if l2 = fst m then (l2, snd m + 1)
     else (l2, 0))"

definition hlc_parts :: "hlc \<Rightarrow> nat \<times> nat" where
  "hlc_parts h = (unat (hlc_millis h), unat (hlc_counter h))"

lemma hlc_parts_unat: "hlc_parts h = (unat h div 65536, unat h mod 65536)"
  by (simp add: hlc_parts_def unat_millis unat_counter)

lemma packed_step:
  fixes x :: nat
  assumes "x mod 65536 < 65535"
  shows "(x + 1) div 65536 = x div 65536" "(x + 1) mod 65536 = x mod 65536 + 1"
  using assms by (simp_all add: div_Suc mod_Suc)

lemma packed_send:
  fixes x p :: nat
  assumes "x mod 65536 < 65535"
  shows "(max (x + 1) (p * 65536) div 65536, max (x + 1) (p * 65536) mod 65536) =
    textbook_send (x div 65536, x mod 65536) p"
proof (cases "p \<le> x div 65536")
  case True
  then have "p * 65536 \<le> x" by (simp add: less_eq_div_iff_mult_less_eq)
  then have "max (x + 1) (p * 65536) = x + 1" by simp
  with True packed_step [OF assms] show ?thesis by (simp add: textbook_send_def)
next
  case False
  then have "x < p * 65536" by (simp add: div_less_iff_less_mult)
  then have "max (x + 1) (p * 65536) = p * 65536" by simp
  with False show ?thesis by (simp add: textbook_send_def)
qed

lemma packed_max:
  fixes x y q :: nat
  shows "max x y div q = max (x div q) (y div q)"
    and "max x y mod q =
      (if x div q = y div q then max (x mod q) (y mod q)
       else if x div q < y div q then y mod q else x mod q)"
proof -
  consider "x < y" | "x = y" | "y < x" by linarith
  then have "max x y div q = max (x div q) (y div q) \<and> max x y mod q =
      (if x div q = y div q then max (x mod q) (y mod q)
       else if x div q < y div q then y mod q else x mod q)"
  proof cases
    case 1
    with less_iff_div_mod [of x y q] show ?thesis by auto
  next
    case 2
    then show ?thesis by simp
  next
    case 3
    with less_iff_div_mod [of y x q] show ?thesis by auto
  qed
  then show "max x y div q = max (x div q) (y div q)"
    and "max x y mod q =
      (if x div q = y div q then max (x mod q) (y mod q)
       else if x div q < y div q then y mod q else x mod q)" by simp_all
qed

lemma textbook_receive_send:
  "textbook_receive (l, c) (lm, cm) p =
     textbook_send (max l lm, if l = lm then max c cm else if l < lm then cm else c) p"
  by (auto simp: textbook_receive_def textbook_send_def Let_def max_def)

text \<open>While no counter is at its maximum, the packed update rules are the textbook rules on
  (milliseconds, counter): for a local event and for every adopted receipt.\<close>

theorem rules_match_textbook:
  "hlc_counter h < 0xFFFF \<Longrightarrow> hlc_tick h now_ms = Inr h' \<Longrightarrow>
     hlc_parts h' = textbook_send (hlc_parts h) (unat now_ms) \<and>
     (hlc_counter r < 0xFFFF \<longrightarrow> hlc_receive h r now_ms = Inr rc \<longrightarrow> \<not> remote_ahead rc \<longrightarrow>
        hlc_parts (clock rc) = textbook_receive (hlc_parts h) (hlc_parts r) (unat now_ms))"
proof (intro conjI impI)
  assume c: "hlc_counter h < 0xFFFF" and t: "hlc_tick h now_ms = Inr h'"
  from c have c': "unat h mod 65536 < 65535" by (simp add: word_less_nat_alt unat_counter)
  from t show "hlc_parts h' = textbook_send (hlc_parts h) (unat now_ms)"
    using packed_send [OF c', of "unat now_ms"] by (simp add: hlc_parts_unat tick_Inr)
  assume r: "hlc_counter r < 0xFFFF" and rc: "hlc_receive h r now_ms = Inr rc" "\<not> remote_ahead rc"
  from r have "unat r mod 65536 < 65535" by (simp add: word_less_nat_alt unat_counter)
  with c' have m: "max (unat h) (unat r) mod 65536 < 65535" by (simp add: max_def)
  from rc have "unat (clock rc) = max (max (unat h) (unat r) + 1) (unat now_ms * 65536)"
    by (auto simp: receive_Inr split: if_splits)
  then have "hlc_parts (clock rc) =
      textbook_send (max (unat h) (unat r) div 65536, max (unat h) (unat r) mod 65536) (unat now_ms)"
    using packed_send [OF m, of "unat now_ms"] by (simp add: hlc_parts_unat)
  then show "hlc_parts (clock rc) = textbook_receive (hlc_parts h) (hlc_parts r) (unat now_ms)"
    by (simp only: hlc_parts_unat textbook_receive_send packed_max)
qed

theorem rules_match_textbook_witness:
  "hlc_tick 65536 1 = Inr 65537 \<and> hlc_receive 65536 65540 1 = Inr \<lparr>clock = 65541, remote_ahead = False\<rparr>
   \<and> hlc_parts 65537 = textbook_send (1, 0) 1 \<and> hlc_parts 65541 = textbook_receive (1, 0) (1, 4) 1"
proof -
  have t: "hlc_tick 65536 1 = Inr 65537" by (simp add: tick_Inr)
  have r: "hlc_receive 65536 65540 1 = Inr \<lparr>clock = 65541, remote_ahead = False\<rparr>"
    by (simp add: receive_Inr unat_millis)
  have c: "hlc_counter 65536 < 0xFFFF" "hlc_counter 65540 < 0xFFFF"
    by (simp_all add: word_less_nat_alt unat_counter)
  have p: "hlc_parts 65536 = (1, 0)" "hlc_parts 65540 = (1, 4)"
    by (simp_all add: hlc_parts_unat)
  from rules_match_textbook [OF c(1) t, of 65540 "\<lparr>clock = 65541, remote_ahead = False\<rparr>"] r c
  have "hlc_parts 65537 = textbook_send (hlc_parts 65536) (unat (1 :: u64)) \<and>
      hlc_parts 65541 = textbook_receive (hlc_parts 65536) (hlc_parts 65540) (unat (1 :: u64))"
    by simp
  with t r show ?thesis by (simp only: p unat_1)
qed

text \<open>The two parts and the bytes determine the clock.\<close>

lemma from_parts_of_parts: "hlc_from_parts (hlc_millis h) (hlc_counter h) = Some h"
proof -
  have "unat (hlc_millis h) \<le> unat MAX_MILLIS"
    using unat_word_less [of h] by (simp add: unat_millis unat_max_millis less_mult_imp_div_less)
  then obtain g where g: "hlc_from_parts (hlc_millis h) (hlc_counter h) = Some g"
    by (simp add: hlc_from_parts_def word_le_nat_alt)
  from unat_parts [OF g] have "unat g = unat h"
    by (simp add: unat_millis unat_counter)
  with g show ?thesis by (simp add: word_unat_eq_iff)
qed

lemma from_bytes_to_bytes: "hlc_from_bytes (hlc_to_bytes h) = h"
  by (simp add: hlc_from_bytes_def hlc_to_bytes_def)

interpretation hlc_codec: codec rd_input set_input "\<lambda>_. True" u64_bytes hlc_read
  unfolding hlc_read_def by (rule u64_codec.read_err_codec)

end
