(* ===== verification/Version_Vectors.thy ===== *)
theory Version_Vectors
  imports Ordered_Maps Hlc
begin

text \<open>
  Dots, version vectors and the offset-keeping cursor: \<open>crates/rizzy-sync/src/dot.rs\<close>,
  \<open>vv.rs\<close> and \<open>cursor.rs\<close>. A version vector is an ordered map from device ids to non-zero
  sequence numbers, so it has one representation; the locale \<open>entrywise\<close> gives the lattice
  laws of join and meet from their entrywise readings, and the \<open>codec\<close> interpretations say
  that every dot and every vector has exactly one accepted encoding.
\<close>

section \<open>Dots\<close>

type_synonym device_id = id16

datatype dot = Dot (dot_device: device_id) (dot_seq_nz: nonzero_u64)

definition DOT_ENCODED_LEN :: usize where
  "DOT_ENCODED_LEN = 16 + 8"

definition dot_new :: "device_id \<Rightarrow> u64 \<Rightarrow> dot option" where
  "dot_new device sq = (case nz_new sq of Some n \<Rightarrow> Some (Dot device n) | None \<Rightarrow> None)"

definition dot_seq :: "dot \<Rightarrow> u64" where
  "dot_seq d = nz_get (dot_seq_nz d)"

definition dot_encode :: "dot \<Rightarrow> bytes \<Rightarrow> bytes" where
  "dot_encode d out = put_u64 (out @ id_bytes (dot_device d)) (dot_seq d)"

definition dot_read :: "(reader, decode_error, dot) reads" where
  "dot_read =
     then_read (read_err (\<lambda>_. decode_error_new Truncated 0) reader_id) (\<lambda>device.
     then_read (read_err (\<lambda>_. decode_error_new Truncated 16) reader_u64) (\<lambda>sq.
     case nz_new sq of
       None \<Rightarrow> fails (decode_error_new ZeroSeq 16)
     | Some n \<Rightarrow> yields (Dot device n)))"

instantiation dot :: linorder
begin

definition less_eq_dot :: "dot \<Rightarrow> dot \<Rightarrow> bool" where
  "less_eq_dot a b \<longleftrightarrow> (dot_device a, dot_seq_nz a) \<le> (dot_device b, dot_seq_nz b)"

definition less_dot :: "dot \<Rightarrow> dot \<Rightarrow> bool" where
  "less_dot a b \<longleftrightarrow> (dot_device a, dot_seq_nz a) < (dot_device b, dot_seq_nz b)"

instance
  by standard (auto simp: less_eq_dot_def less_dot_def dot.expand)

end

definition dot_bytes :: "dot \<Rightarrow> bytes" where
  "dot_bytes d = id_bytes (dot_device d) @ u64_bytes (dot_seq d)"

lemma dot_encode_bytes: "dot_encode d out = out @ dot_bytes d"
  by (simp add: dot_encode_def dot_bytes_def put_u64_def)

lemma length_dot_bytes [simp]: "length (dot_bytes d) = 24"
  by (simp add: dot_bytes_def)

lemma dot_eq_iff: "a = b \<longleftrightarrow> dot_device a = dot_device b \<and> dot_seq a = dot_seq b"
  by (cases a; cases b) (simp add: dot_seq_def nz_eq_iff)

lemma dot_seq_pos [simp]: "0 < dot_seq d"
  by (simp add: dot_seq_def)

lemma dot_new_Some: "dot_new device sq = Some d \<longleftrightarrow> sq \<noteq> 0 \<and> dot_device d = device \<and> dot_seq d = sq"
  by (auto simp: dot_new_def dot_seq_def nz_new_def split: option.splits if_splits)

lemma less_dot_iff:
  "a < b \<longleftrightarrow> dot_device a < dot_device b \<or> dot_device a = dot_device b \<and> dot_seq a < dot_seq b"
  by (auto simp: less_dot_def dot_seq_def nz_less_iff)

interpretation dot_codec: codec rd_input set_input "\<lambda>_. True" dot_bytes dot_read
proof
  fix bs :: bytes and s :: reader
  show "rd_input (set_input bs s) = bs" by simp
next
  fix x :: dot and s :: reader and rest
  assume s: "rd_input s = dot_bytes x @ rest"
  have "reader_id s = Inr (dot_device x, set_input (u64_bytes (dot_seq x) @ rest) s)"
    by (rule id_codec.dec_enc) (simp_all add: s dot_bytes_def)
  moreover have "reader_u64 (set_input (u64_bytes (dot_seq x) @ rest) s) = Inr (dot_seq x, set_input rest s)"
    using u64_codec.dec_enc [where x = "dot_seq x" and s = "set_input (u64_bytes (dot_seq x) @ rest) s"]
    by simp
  moreover have "nz_new (dot_seq x) = Some (dot_seq_nz x)" by (simp add: dot_seq_def)
  ultimately show "dot_read s = Inr (x, set_input rest s)"
    by (simp add: dot_read_def then_read_ok read_err_ok yields_def)
next
  fix s :: reader and x :: dot and s'
  assume "dot_read s = Inr (x, s')"
  then obtain sq s1 where d: "reader_id s = Inr (dot_device x, s1)" and q: "reader_u64 s1 = Inr (sq, s')"
    and n: "nz_new sq = Some (dot_seq_nz x)"
    by (auto simp: dot_read_def then_read_Inr split: option.splits)
  from n have "sq = dot_seq x" by (simp add: dot_seq_def nz_new_Some)
  with id_codec.enc_dec [OF d] u64_codec.enc_dec [OF q]
  show "True \<and> rd_input s = dot_bytes x @ rd_input s' \<and> s' = set_input (rd_input s') s"
    by (auto simp: dot_bytes_def)
qed

section \<open>Version vectors\<close>

type_synonym version_vector = "(device_id, nonzero_u64) btree_map"
type_synonym causal_context = version_vector

datatype vv_ordering = VvLess | VvEqual | VvGreater | VvConcurrent

definition VV_ENTRY_LEN :: usize where
  "VV_ENTRY_LEN = DOT_ENCODED_LEN"

definition VV_MAX_ENTRIES :: usize where
  "VV_MAX_ENTRIES = 65535"

definition vv_new :: version_vector where
  "vv_new = bt_empty"

definition vv_get :: "version_vector \<Rightarrow> device_id \<Rightarrow> u64" where
  "vv_get v device = (case bt_get v device of None \<Rightarrow> 0 | Some sq \<Rightarrow> nz_get sq)"

definition vv_covers :: "version_vector \<Rightarrow> dot \<Rightarrow> bool" where
  "vv_covers v d \<longleftrightarrow> vv_get v (dot_device d) \<ge> dot_seq d"

definition vv_len :: "version_vector \<Rightarrow> usize" where
  "vv_len v = bt_len v"

definition vv_is_empty :: "version_vector \<Rightarrow> bool" where
  "vv_is_empty v = bt_is_empty v"

definition vv_entries :: "version_vector \<Rightarrow> dot list" where
  "vv_entries v = map (\<lambda>(device, sq). Dot device sq) (bt_entries v)"

definition vv_add :: "dot \<Rightarrow> version_vector \<Rightarrow> version_vector" where
  "vv_add d v =
     (case bt_get v (dot_device d) of
        Some sq \<Rightarrow> bt_insert (dot_device d) (max sq (dot_seq_nz d)) v
      | None \<Rightarrow> bt_insert (dot_device d) (dot_seq_nz d) v)"

definition vv_join :: "version_vector \<Rightarrow> version_vector \<Rightarrow> version_vector" where
  "vv_join v other = fold vv_add (vv_entries other) v"

definition vv_meet :: "version_vector \<Rightarrow> version_vector \<Rightarrow> version_vector" where
  "vv_meet v other =
     bt_retain_map (\<lambda>device sq.
       case bt_get other device of Some bound \<Rightarrow> Some (min sq bound) | None \<Rightarrow> None) v"

definition vv_compare :: "version_vector \<Rightarrow> version_vector \<Rightarrow> vv_ordering" where
  "vv_compare v other =
     (let self_higher = list_ex (\<lambda>d. \<not> vv_covers other d) (vv_entries v);
          other_higher = list_ex (\<lambda>d. \<not> vv_covers v d) (vv_entries other)
      in case (self_higher, other_higher) of
           (False, False) \<Rightarrow> VvEqual
         | (False, True) \<Rightarrow> VvLess
         | (True, False) \<Rightarrow> VvGreater
         | (True, True) \<Rightarrow> VvConcurrent)"

definition vv_encoded_len :: "version_vector \<Rightarrow> usize" where
  "vv_encoded_len v = saturating_add (saturating_mul (vv_len v) VV_ENTRY_LEN) 2"

definition vv_encode :: "version_vector \<Rightarrow> bytes \<Rightarrow> encode_error + bytes" where
  "vv_encode v out =
     (case u16_try_from (vv_len v) of
        None \<Rightarrow> Inl TooManyEntries
      | Some n \<Rightarrow> Inr (fold dot_encode (vv_entries v) (put_u16 out n)))"

definition vv_to_vec :: "version_vector \<Rightarrow> encode_error + bytes" where
  "vv_to_vec v = vv_encode v []"

fun vv_read_entries ::
  "nat \<Rightarrow> usize \<Rightarrow> device_id option \<Rightarrow> version_vector \<Rightarrow> (reader, decode_error, version_vector) reads" where
  "vv_read_entries 0 start previous entries = yields entries"
| "vv_read_entries (Suc n) start previous entries =
     then_read (here (\<lambda>probe. start - reader_remaining probe)) (\<lambda>offset.
     then_read (read_err (decode_error_shifted offset) dot_read) (\<lambda>d.
     if (case previous of Some p \<Rightarrow> dot_device d \<le> p | None \<Rightarrow> False)
     then fails (decode_error_new NotAscending offset)
     else vv_read_entries n start (Some (dot_device d))
            (bt_insert (dot_device d) (dot_seq_nz d) entries)))"

definition vv_read :: "(reader, decode_error, version_vector) reads" where
  "vv_read =
     then_read (here reader_remaining) (\<lambda>start.
     then_read (read_err (\<lambda>_. decode_error_new Truncated 0) reader_u16) (\<lambda>n.
     then_read (here reader_remaining) (\<lambda>left.
     if (case checked_mul (unat n) VV_ENTRY_LEN of None \<Rightarrow> True | Some needed \<Rightarrow> needed > left)
     then fails (decode_error_new Truncated 0)
     else vv_read_entries (unat n) start None bt_empty)))"

definition vv_parse :: "bytes \<Rightarrow> decode_error + version_vector" where
  "vv_parse bs =
     and_then (vv_read (reader_new bs)) (\<lambda>(v, r).
     if reader_is_empty r then Inr v
     else Inl (decode_error_new TrailingBytes (length bs - reader_remaining r)))"

definition vv_partial_cmp :: "version_vector \<Rightarrow> version_vector \<Rightarrow> vv_ordering option" where
  "vv_partial_cmp v other =
     (case vv_compare v other of VvConcurrent \<Rightarrow> None | o' \<Rightarrow> Some o')"

definition vv_from_iter :: "dot list \<Rightarrow> version_vector" where
  "vv_from_iter dots = fold vv_add dots vv_new"

subsection \<open>Entries\<close>

lemma vv_ext: "(\<And>d. vv_get a d = vv_get b d) \<Longrightarrow> a = b"
proof (rule bt_ext)
  fix k
  assume "\<And>d. vv_get a d = vv_get b d"
  from this [of k] show "bt_get a k = bt_get b k"
    by (auto simp: vv_get_def nz_eq_iff split: option.splits)
qed

lemma vv_get_new [simp]: "vv_get vv_new d = 0"
  by (simp add: vv_get_def vv_new_def)

lemma vv_get_add:
  "vv_get (vv_add d v) x = (if x = dot_device d then max (vv_get v x) (dot_seq d) else vv_get v x)"
  by (auto simp: vv_get_def vv_add_def dot_seq_def max_def nz_le_iff split: option.splits)

lemma vv_get_fold_add:
  "vv_get (fold vv_add ds v) x = fold max (map dot_seq (filter (\<lambda>d. dot_device d = x) ds)) (vv_get v x)"
  by (induction ds arbitrary: v) (auto simp: vv_get_add max.commute)

lemma vv_entries_device:
  "map dot_seq (filter (\<lambda>d. dot_device d = x) (vv_entries v)) =
     (case bt_get v x of None \<Rightarrow> [] | Some sq \<Rightarrow> [nz_get sq])"
proof -
  have "ascending es \<Longrightarrow> map dot_seq (filter (\<lambda>d. dot_device d = x) (map (\<lambda>(device, sq). Dot device sq) es)) =
      (case map_of es x of None \<Rightarrow> [] | Some sq \<Rightarrow> [nz_get sq])" for es
  proof (induction es)
    case (Cons e es)
    obtain k sq where e: "e = (k, sq)" by (cases e)
    have "k \<notin> fst ` set es" using Cons.prems by (auto simp: e)
    then have "map_of es k = None" by (rule map_of_notin)
    with Cons show ?case by (auto simp: e dot_seq_def split: option.splits)
  qed simp
  then show ?thesis by (simp add: vv_entries_def bt_get_map_of)
qed

lemma vv_get_join: "vv_get (vv_join a b) x = max (vv_get a x) (vv_get b x)"
proof -
  have "vv_get (vv_join a b) x =
      fold max (case bt_get b x of None \<Rightarrow> [] | Some sq \<Rightarrow> [nz_get sq]) (vv_get a x)"
    by (simp add: vv_join_def vv_get_fold_add vv_entries_device)
  then show ?thesis by (simp add: vv_get_def max.commute split: option.splits)
qed

lemma vv_get_meet: "vv_get (vv_meet a b) x = min (vv_get a x) (vv_get b x)"
  by (auto simp: vv_meet_def vv_get_def min_def nz_le_iff split: option.splits)

lemma vv_get_from_iter_le: "d \<in> set ds \<Longrightarrow> dot_seq d \<le> vv_get (vv_from_iter ds) (dot_device d)"
proof -
  have "d \<in> set ds \<Longrightarrow> dot_seq d \<le> vv_get (fold vv_add ds v) (dot_device d)" for v
  proof (induction ds arbitrary: v)
    case (Cons e ds)
    have mono: "vv_get w x \<le> vv_get (fold vv_add ds w) x" for w x
    proof (induction ds arbitrary: w)
      case (Cons a ds)
      have "vv_get w x \<le> vv_get (vv_add a w) x" by (simp add: vv_get_add)
      also have "\<dots> \<le> vv_get (fold vv_add (a # ds) w) x" using Cons by simp
      finally show ?case .
    qed simp
    show ?case
    proof (cases "d = e")
      case True
      then show ?thesis using mono [of "vv_add e v" "dot_device d"] by (simp add: vv_get_add)
    next
      case False
      with Cons show ?thesis by simp
    qed
  qed simp
  then show "d \<in> set ds \<Longrightarrow> dot_seq d \<le> vv_get (vv_from_iter ds) (dot_device d)"
    by (simp add: vv_from_iter_def)
qed

lemma vv_entries_iff: "d \<in> set (vv_entries v) \<longleftrightarrow> vv_get v (dot_device d) = dot_seq d"
proof -
  have "d \<in> set (vv_entries v) \<longleftrightarrow> bt_get v (dot_device d) = Some (dot_seq_nz d)"
    by (cases d) (auto simp: vv_entries_def bt_entries_iff [symmetric] image_iff split: prod.splits)
  then show ?thesis
    by (auto simp: vv_get_def dot_seq_def nz_eq_iff split: option.splits)
qed

lemma vv_entries_higher:
  "list_ex (\<lambda>d. \<not> vv_covers other d) (vv_entries v) \<longleftrightarrow> (\<exists>x. vv_get v x > vv_get other x)"
proof
  assume "list_ex (\<lambda>d. \<not> vv_covers other d) (vv_entries v)"
  then obtain d where "d \<in> set (vv_entries v)" "\<not> vv_covers other d" by (auto simp: list_ex_iff)
  then show "\<exists>x. vv_get v x > vv_get other x"
    by (auto simp: vv_entries_iff vv_covers_def not_le intro!: exI [of _ "dot_device d"])
next
  assume "\<exists>x. vv_get v x > vv_get other x"
  then obtain x where x: "vv_get v x > vv_get other x" by blast
  then have "vv_get v x \<noteq> 0" by auto
  then obtain n where n: "nz_get n = vv_get v x" by (metis nz_get_of)
  with x have "Dot x n \<in> set (vv_entries v)" "\<not> vv_covers other (Dot x n)"
    by (simp_all add: vv_entries_iff vv_covers_def dot_seq_def not_le)
  then show "list_ex (\<lambda>d. \<not> vv_covers other d) (vv_entries v)" by (auto simp: list_ex_iff)
qed

text \<open>The entrywise order the comparison decides.\<close>

definition vv_le :: "version_vector \<Rightarrow> version_vector \<Rightarrow> bool" where
  "vv_le a b \<longleftrightarrow> (\<forall>x. vv_get a x \<le> vv_get b x)"

lemma vv_compare_le:
  "vv_compare a b = VvLess \<or> vv_compare a b = VvEqual \<longleftrightarrow> vv_le a b"
  by (auto simp: vv_compare_def vv_entries_higher vv_le_def Let_def not_less [symmetric]
      split: bool.splits)

lemma vv_le_covers: "vv_le a b \<Longrightarrow> vv_covers a d \<Longrightarrow> vv_covers b d"
  unfolding vv_le_def vv_covers_def by (meson order_trans)

lemma vv_covers_join [simp]: "vv_covers (vv_join a b) d \<longleftrightarrow> vv_covers a d \<or> vv_covers b d"
  by (simp add: vv_covers_def vv_get_join le_max_iff_disj)

lemma vv_covers_meet [simp]: "vv_covers (vv_meet a b) d \<longleftrightarrow> vv_covers a d \<and> vv_covers b d"
  by (simp add: vv_covers_def vv_get_meet)

lemma vv_covers_new [simp]: "\<not> vv_covers vv_new d"
  by (simp add: vv_covers_def dot_seq_def)

lemma vv_covers_add: "vv_covers (vv_add d v) e \<longleftrightarrow> vv_covers v e \<or> dot_device e = dot_device d \<and> dot_seq e \<le> dot_seq d"
  by (auto simp: vv_covers_def vv_get_add le_max_iff_disj)

section \<open>The lattice laws\<close>

locale entrywise =
  fixes get :: "'v \<Rightarrow> 'k \<Rightarrow> 'n :: linorder"
    and join :: "'v \<Rightarrow> 'v \<Rightarrow> 'v"
    and meet :: "'v \<Rightarrow> 'v \<Rightarrow> 'v"
  assumes entry_join: "get (join a b) k = max (get a k) (get b k)"
    and entry_meet: "get (meet a b) k = min (get a k) (get b k)"
    and entry_ext: "(\<And>k. get a k = get b k) \<Longrightarrow> a = b"
begin

lemma join_commute: "join a b = join b a"
  by (rule entry_ext) (simp add: entry_join max.commute)

lemma join_assoc: "join (join a b) c = join a (join b c)"
  by (rule entry_ext) (simp add: entry_join max.assoc)

lemma join_idem: "join a a = a"
  by (rule entry_ext) (simp add: entry_join)

lemma meet_commute: "meet a b = meet b a"
  by (rule entry_ext) (simp add: entry_meet min.commute)

lemma meet_assoc: "meet (meet a b) c = meet a (meet b c)"
  by (rule entry_ext) (simp add: entry_meet min.assoc)

lemma meet_idem: "meet a a = a"
  by (rule entry_ext) (simp add: entry_meet)

lemma absorb: "join a (meet a b) = a" "meet a (join a b) = a"
  by (rule entry_ext, simp add: entry_join entry_meet)+

lemma join_least:
  "(\<forall>k. get a k \<le> get c k) \<Longrightarrow> (\<forall>k. get b k \<le> get c k) \<Longrightarrow> (\<forall>k. get (join a b) k \<le> get c k)"
  by (simp add: entry_join)

lemma meet_greatest:
  "(\<forall>k. get c k \<le> get a k) \<Longrightarrow> (\<forall>k. get c k \<le> get b k) \<Longrightarrow> (\<forall>k. get c k \<le> get (meet a b) k)"
  by (simp add: entry_meet)

lemma join_eq_upper: "(\<forall>k. get b k \<le> get a k) \<Longrightarrow> join a b = a"
  by (rule entry_ext) (simp add: entry_join max_absorb1)

end

interpretation vv: entrywise vv_get vv_join vv_meet
  by unfold_locales (simp_all add: vv_get_join vv_get_meet vv_ext)

text \<open>Join and meet of version vectors are commutative, associative and idempotent and absorb each
  other; the join is the least vector above both and the meet the greatest below both.\<close>

theorem vv_lattice:
  "vv_join a b = vv_join b a \<and> vv_join (vv_join a b) c = vv_join a (vv_join b c) \<and> vv_join a a = a \<and>
   vv_meet a b = vv_meet b a \<and> vv_meet (vv_meet a b) c = vv_meet a (vv_meet b c) \<and> vv_meet a a = a \<and>
   vv_join a (vv_meet a b) = a \<and> vv_meet a (vv_join a b) = a \<and>
   (vv_le (vv_join a b) c \<longleftrightarrow> vv_le a c \<and> vv_le b c) \<and>
   (vv_le c (vv_meet a b) \<longleftrightarrow> vv_le c a \<and> vv_le c b)"
  by (auto simp: vv.join_idem vv.meet_idem vv.absorb vv_le_def vv_get_join vv_get_meet
      intro: vv.join_commute vv.meet_commute vv.join_assoc vv.meet_assoc)

text \<open>The comparison decides the entrywise order: equal exactly for the same vector, less and
  greater exactly for a strict entrywise order, concurrent exactly when each vector has a
  higher entry.\<close>

theorem vv_compare_entrywise:
  "vv_compare a b =
     (if a = b then VvEqual
      else if vv_le a b then VvLess
      else if vv_le b a then VvGreater
      else VvConcurrent)"
proof -
  have "vv_le a b \<Longrightarrow> vv_le b a \<Longrightarrow> a = b"
    by (auto simp: vv_le_def intro: vv_ext order_antisym)
  then show ?thesis
    by (auto simp: vv_compare_def vv_entries_higher vv_le_def Let_def not_less [symmetric]
        split: bool.splits)
qed

lemma vv_join_covered: "vv_le b a \<Longrightarrow> vv_join a b = a"
  unfolding vv_le_def by (rule vv.join_eq_upper)

lemma vv_le_refl [simp]: "vv_le a a"
  by (simp add: vv_le_def)

lemma vv_le_trans: "vv_le a b \<Longrightarrow> vv_le b c \<Longrightarrow> vv_le a c"
  unfolding vv_le_def by (meson order_trans)

lemma vv_le_join [simp]: "vv_le a (vv_join a b)" "vv_le b (vv_join a b)"
  by (simp_all add: vv_le_def vv_get_join)

lemma vv_join_new [simp]: "vv_join vv_new a = a" "vv_join a vv_new = a"
  by (rule vv_ext, simp add: vv_get_join)+

lemma vv_add_join: "vv_add d v = vv_join v (vv_add d vv_new)"
  by (rule vv_ext) (simp add: vv_get_add vv_get_join)

lemma vv_le_covers_iff: "vv_le a b \<longleftrightarrow> (\<forall>d. vv_covers a d \<longrightarrow> vv_covers b d)"
proof
  assume r: "\<forall>d. vv_covers a d \<longrightarrow> vv_covers b d"
  show "vv_le a b"
    unfolding vv_le_def
  proof
    fix x
    show "vv_get a x \<le> vv_get b x"
    proof (cases "vv_get a x = 0")
      case False
      then obtain n where "nz_get n = vv_get a x" by (metis nz_get_of)
      with r [rule_format, of "Dot x n"] show ?thesis
        by (simp add: vv_covers_def dot_seq_def)
    qed simp
  qed
qed (use vv_le_covers in blast)

section \<open>The canonical encoding\<close>

definition vv_bytes :: "version_vector \<Rightarrow> bytes" where
  "vv_bytes v = u16_bytes (word_of_nat (vv_len v)) @ concat (map dot_bytes (vv_entries v))"

lemma fold_dot_encode: "fold dot_encode ds out = out @ concat (map dot_bytes ds)"
  by (induction ds arbitrary: out) (simp_all add: dot_encode_bytes)

lemma vv_encode_bytes:
  "vv_encode v out = (if vv_len v \<le> VV_MAX_ENTRIES then Inr (out @ vv_bytes v) else Inl TooManyEntries)"
  by (auto simp: vv_encode_def u16_try_from_def VV_MAX_ENTRIES_def fold_dot_encode vv_bytes_def put_u16_def)

lemma length_concat_dots: "length (concat (map dot_bytes ds)) = 24 * length ds"
  by (induction ds) simp_all

lemma length_vv_entries [simp]: "length (vv_entries v) = vv_len v"
  by (simp add: vv_entries_def vv_len_def bt_len_def)

lemma length_vv_bytes: "length (vv_bytes v) = 2 + 24 * vv_len v"
  by (simp add: vv_bytes_def length_concat_dots)

abbreviation entry_dots :: "(device_id \<times> nonzero_u64) list \<Rightarrow> dot list" where
  "entry_dots es \<equiv> map (\<lambda>(device, sq). Dot device sq) es"

abbreviation last_key :: "(device_id \<times> nonzero_u64) list \<Rightarrow> device_id option" where
  "last_key es \<equiv> (if es = [] then None else Some (fst (last es)))"

lemma bt_collect_snoc: "bt_collect (es @ [(k, v)]) = bt_insert k v (bt_collect es)"
  by (simp add: bt_collect_def)

lemma ascending_snoc:
  "sorted_wrt (<) (map fst es @ [k]) \<longleftrightarrow> ascending es \<and> (es = [] \<or> fst (last es) < k)"
proof (induction es)
  case (Cons e es)
  show ?case
  proof (cases "es = []")
    case False
    then have "last es \<in> set es" by simp
    with Cons False show ?thesis by (auto intro: less_trans)
  qed simp
qed simp

lemma read_entries_enc:
  assumes "ascending (pre @ es)" "rd_input r = concat (map dot_bytes (entry_dots es)) @ rest"
  shows "vv_read_entries (length es) start (last_key pre) (bt_collect pre) r =
    Inr (bt_collect (pre @ es), set_input rest r)"
  using assms
proof (induction es arbitrary: pre r)
  case Nil
  then have "set_input rest r = r" by simp
  then show ?case by (simp add: yields_def)
next
  case (Cons e es)
  obtain k n where e: "e = (k, n)" by (cases e)
  let ?r = "set_input (concat (map dot_bytes (entry_dots es)) @ rest) r"
  have rd: "dot_read r = Inr (Dot k n, ?r)"
    using Cons.prems(2) dot_codec.dec_enc [where x = "Dot k n" and s = r] by (simp add: e)
  have "ascending (pre @ [e])"
    using Cons.prems(1) by (simp add: sorted_wrt_append)
  then have lt: "pre = [] \<or> fst (last pre) < k" by (simp add: ascending_snoc e)
  have "vv_read_entries (length es) start (last_key (pre @ [e])) (bt_collect (pre @ [e])) ?r =
      Inr (bt_collect ((pre @ [e]) @ es), set_input rest ?r)"
    by (rule Cons.IH) (use Cons.prems in \<open>simp_all\<close>)
  with lt rd show ?case
    by (auto simp: then_read_ok read_err_ok here_def then_read_def read_err_def e bt_collect_snoc not_le)
qed

lemma read_entries_dec:
  assumes "vv_read_entries n start (last_key pre) (bt_collect pre) r = Inr (v, r')" "ascending pre"
  shows "\<exists>es. length es = n \<and> ascending (pre @ es) \<and> v = bt_collect (pre @ es) \<and>
    rd_input r = concat (map dot_bytes (entry_dots es)) @ rd_input r' \<and> r' = set_input (rd_input r') r"
  using assms
proof (induction n arbitrary: pre r)
  case (Suc n)
  then obtain d r1 where d: "dot_read r = Inr (d, r1)"
    and lt: "pre = [] \<or> fst (last pre) < dot_device d"
    and rest: "vv_read_entries n start (Some (dot_device d))
      (bt_insert (dot_device d) (dot_seq_nz d) (bt_collect pre)) r1 = Inr (v, r')"
    by (auto simp: then_read_Inr split: if_splits)
  let ?e = "(dot_device d, dot_seq_nz d)"
  have "vv_read_entries n start (last_key (pre @ [?e])) (bt_collect (pre @ [?e])) r1 = Inr (v, r')"
    using rest by (simp add: bt_collect_snoc)
  moreover have "ascending (pre @ [?e])" using lt Suc.prems(2) by (simp add: ascending_snoc)
  ultimately obtain es where es: "length es = n" "ascending ((pre @ [?e]) @ es)"
    "v = bt_collect ((pre @ [?e]) @ es)"
    "rd_input r1 = concat (map dot_bytes (entry_dots es)) @ rd_input r'"
    "r' = set_input (rd_input r') r1"
    using Suc.IH by blast
  with dot_codec.enc_dec [OF d] show ?case
    by (intro exI [of _ "?e # es"]) auto
qed simp

interpretation vv_codec: codec rd_input set_input "\<lambda>v. vv_len v \<le> VV_MAX_ENTRIES" vv_bytes vv_read
proof
  fix bs :: bytes and s :: reader
  show "rd_input (set_input bs s) = bs" by simp
next
  fix x :: version_vector and s :: reader and rest
  assume ok: "vv_len x \<le> VV_MAX_ENTRIES" and s: "rd_input s = vv_bytes x @ rest"
  let ?n = "word_of_nat (vv_len x) :: u16"
  let ?s = "set_input (concat (map dot_bytes (vv_entries x)) @ rest) s"
  have n: "unat ?n = length (bt_entries x)"
    using ok by (simp add: VV_MAX_ENTRIES_def unat_of_nat vv_len_def bt_len_def)
  have "reader_u16 s = Inr (?n, ?s)"
    using u16_codec.dec_enc [where x = ?n and s = s] s by (simp add: vv_bytes_def)
  moreover have "checked_mul (unat ?n) VV_ENTRY_LEN = Some (24 * vv_len x)"
    unfolding n using ok by (simp add: checked_mul_def VV_ENTRY_LEN_def DOT_ENCODED_LEN_def
        VV_MAX_ENTRIES_def usize_max_def vv_len_def bt_len_def)
  moreover have "24 * vv_len x \<le> reader_remaining ?s"
    by (simp add: reader_remaining_def length_concat_dots)
  moreover have "vv_read_entries (unat ?n) start None bt_empty ?s = Inr (x, set_input rest s)" for start
    using read_entries_enc [of "[]" "bt_entries x" ?s rest start]
    by (simp add: n vv_entries_def) (simp add: bt_collect_def)
  ultimately show "vv_read s = Inr (x, set_input rest s)"
    by (simp add: vv_read_def then_read_ok read_err_ok here_def then_read_def read_err_def)
next
  fix s :: reader and x :: version_vector and s'
  assume "vv_read s = Inr (x, s')"
  then obtain n s1 start where n: "reader_u16 s = Inr (n, s1)"
    and es: "vv_read_entries (unat n) start None bt_empty s1 = Inr (x, s')"
    by (auto simp: vv_read_def then_read_Inr split: if_splits)
  from es have "vv_read_entries (unat n) start (last_key []) (bt_collect []) s1 = Inr (x, s')"
    by (simp add: bt_collect_def)
  from read_entries_dec [OF this] obtain es where
    es: "length es = unat n" "ascending es" "x = bt_collect es"
      "rd_input s1 = concat (map dot_bytes (entry_dots es)) @ rd_input s'"
      "s' = set_input (rd_input s') s1" by auto
  from es have x: "bt_entries x = es" by (simp add: bt_entries_collect)
  have len: "vv_len x = unat n" by (simp add: vv_len_def bt_len_def x es(1))
  with es x u16_codec.enc_dec [OF n] unat_word_less [of n]
  show "vv_len x \<le> VV_MAX_ENTRIES \<and> rd_input s = vv_bytes x @ rd_input s' \<and> s' = set_input (rd_input s') s"
    by (auto simp: vv_bytes_def vv_entries_def VV_MAX_ENTRIES_def)
qed

lemma vv_parse_iff: "vv_parse bs = Inr v \<longleftrightarrow> vv_to_vec v = Inr bs"
proof -
  have "vv_parse bs = Inr v \<longleftrightarrow> (\<exists>r. vv_read (reader_new bs) = Inr (v, r) \<and> rd_input r = [])"
    by (auto simp: vv_parse_def and_then_Inr reader_is_empty_def split: if_splits)
  also have "\<dots> \<longleftrightarrow> vv_len v \<le> VV_MAX_ENTRIES \<and> bs = vv_bytes v"
    by (auto simp: vv_codec.dec_iff reader_new_def)
  finally show ?thesis by (auto simp: vv_to_vec_def vv_encode_bytes)
qed

text \<open>A version vector has exactly one encoding: the parser accepts a byte string and yields a
  vector if and only if the writer writes those bytes for that vector.\<close>

theorem vv_one_encoding: "(vv_parse bs = Inr v) = (vv_to_vec v = Inr bs)"
  by (rule vv_parse_iff)

end
