(* ===== verification/Compaction.thy ===== *)
theory Compaction
  imports Version_Vectors "HOL-Library.Multiset" "HOL-Library.Sublist"
begin

text \<open>
  The server's compaction rules and its snapshot-acceptance checks,
  \<open>crates/rizzy-sync/src/compaction.rs\<close>: pure functions over one item of one vault. The
  abstract specification is the text of rules R1 and R3: \<open>r1_rule\<close> says when a body may go, and
  \<open>r3_literal\<close> is the restart-from-the-oldest loop the one-pass \<open>r3_drops\<close> refines.
\<close>

section \<open>Data\<close>

record retained_snapshot =
  store_seq :: u64
  clamped :: version_vector
  author :: device_id

definition snap_covers :: "retained_snapshot \<Rightarrow> dot \<Rightarrow> bool" where
  "snap_covers s d = vv_covers (clamped s) d"

datatype body = Held | Absent

record op_dot =
  op_dot_dot :: dot
  op_dot_body :: body

record worker_plan =
  delete_bodies :: "dot list"
  drop_snapshots :: "u64 list"

definition plan_is_empty :: "worker_plan \<Rightarrow> bool" where
  "plan_is_empty p \<longleftrightarrow> delete_bodies p = [] \<and> drop_snapshots p = []"

record cover_selection =
  covers :: "u64 list"
  uncovered :: "dot list"

datatype input_error = DuplicateStoreSeq u64 | DuplicateOp dot

datatype certificate_expiry = Unexpired | Expired

record vault_chains =
  heads :: version_vector
  cutoffs :: "(device_id, u64) btree_map"

datatype snapshot_refusal =
    AuthorRevoked
  | AuthorExpired
  | AuthorEntryAboveHead
  | ClaimsUnheldDots device_id

datatype uncovered_header = UncoveredHeader dot

section \<open>Operations\<close>

definition clamp :: "version_vector \<Rightarrow> version_vector \<Rightarrow> version_vector" where
  "clamp covered heads' = vv_meet covered heads'"

fun repeated_store_seq :: "retained_snapshot list \<Rightarrow> u64 option" where
  "repeated_store_seq (a # b # rest) =
     (if store_seq a = store_seq b then Some (store_seq a) else repeated_store_seq (b # rest))"
| "repeated_store_seq _ = None"

definition by_store_seq :: "retained_snapshot list \<Rightarrow> input_error + retained_snapshot list" where
  "by_store_seq snapshots =
     (let ordered = sort_key store_seq snapshots
      in case repeated_store_seq ordered of
           Some sq \<Rightarrow> Inl (DuplicateStoreSeq sq)
         | None \<Rightarrow> Inr ordered)"

fun index_ops_into ::
  "op_dot list \<Rightarrow> (dot, body) btree_map \<Rightarrow> input_error + (dot, body) btree_map" where
  "index_ops_into [] indexed = Inr indexed"
| "index_ops_into (op # ops) indexed =
     (if bt_contains_key indexed (op_dot_dot op) then Inl (DuplicateOp (op_dot_dot op))
      else index_ops_into ops (bt_insert (op_dot_dot op) (op_dot_body op) indexed))"

definition index_ops :: "op_dot list \<Rightarrow> input_error + (dot, body) btree_map" where
  "index_ops ops = index_ops_into ops bt_empty"

definition cover_authors :: "retained_snapshot list \<Rightarrow> dot \<Rightarrow> device_id btree_set" where
  "cover_authors ordered d = bs_collect (map author (filter (\<lambda>s. snap_covers s d) ordered))"

definition r1_deletions :: "retained_snapshot list \<Rightarrow> (dot, body) btree_map \<Rightarrow> dot list" where
  "r1_deletions ordered ops =
     (case rev ordered of
        newest # older # _ \<Rightarrow>
          map fst (filter (\<lambda>(d, b). b = Held \<and> snap_covers older d \<and> bt_len (cover_authors ordered d) \<ge> 2)
            (bt_entries ops))
      | _ \<Rightarrow> [])"

type_synonym cover_counts = "(dot, (device_id, usize) btree_map) btree_map"

definition count_cover :: "device_id \<Rightarrow> (device_id, usize) btree_map \<Rightarrow> (device_id, usize) btree_map" where
  "count_cover a by_author =
     bt_insert a (saturating_add (case bt_get by_author a of None \<Rightarrow> 0 | Some n \<Rightarrow> n) 1) by_author"

definition count_covers_of :: "retained_snapshot list \<Rightarrow> dot \<Rightarrow> cover_counts \<Rightarrow> cover_counts" where
  "count_covers_of ordered d =
     fold (\<lambda>s counts.
         bt_insert d (count_cover (author s)
           (case bt_get counts d of None \<Rightarrow> bt_empty | Some by_author \<Rightarrow> by_author)) counts)
       (filter (\<lambda>s. snap_covers s d) ordered)"

definition lowers_below_two :: "(device_id, usize) btree_map \<Rightarrow> device_id \<Rightarrow> bool" where
  "lowers_below_two by_author a =
     (let with_it = bt_len by_author;
          without = (if bt_get by_author a = Some 1 then with_it - 1 else with_it)
      in without < 2 \<and> without < with_it)"

definition uncount_cover :: "device_id \<Rightarrow> (device_id, usize) btree_map \<Rightarrow> (device_id, usize) btree_map" where
  "uncount_cover a by_author =
     (case bt_get by_author a of
        None \<Rightarrow> by_author
      | Some n \<Rightarrow> if n - 1 = 0 then bt_remove a by_author else bt_insert a (n - 1) by_author)"

definition uncount_covers :: "retained_snapshot \<Rightarrow> cover_counts \<Rightarrow> cover_counts" where
  "uncount_covers s =
     bt_retain_map (\<lambda>d by_author.
       Some (if snap_covers s d then uncount_cover (author s) by_author else by_author))"

fun r3_pass :: "retained_snapshot list \<Rightarrow> cover_counts \<Rightarrow> u64 list" where
  "r3_pass [] counts = []"
| "r3_pass (s # older) counts =
     (if list_ex (\<lambda>(d, by_author). snap_covers s d \<and> lowers_below_two by_author (author s))
           (bt_entries counts)
      then r3_pass older counts
      else store_seq s # r3_pass older (uncount_covers s counts))"

definition r3_drops :: "retained_snapshot list \<Rightarrow> dot btree_set \<Rightarrow> u64 list" where
  "r3_drops ordered bodiless =
     (if length ordered < 2 then []
      else r3_pass (take (length ordered - 2) ordered)
             (fold (count_covers_of ordered) (bt_keys bodiless) bt_empty))"

definition plan_worker :: "retained_snapshot list \<Rightarrow> op_dot list \<Rightarrow> input_error + worker_plan" where
  "plan_worker snapshots ops =
     and_then (by_store_seq snapshots) (\<lambda>ordered.
     and_then (index_ops ops) (\<lambda>indexed.
     let deleted = r1_deletions ordered indexed;
         bodiless = bs_extend deleted
           (bs_collect (map fst (filter (\<lambda>(_, b). b = Absent) (bt_entries indexed))))
     in Inr \<lparr> delete_bodies = deleted, drop_snapshots = r3_drops ordered bodiless \<rparr>))"

fun select_from ::
  "dot list \<Rightarrow> retained_snapshot list \<Rightarrow> (dot, device_id btree_set) btree_map \<Rightarrow>
   u64 list \<times> (dot, device_id btree_set) btree_map" where
  "select_from headers [] authors = ([], authors)"
| "select_from headers (s # rest) authors =
     (if list_ex (\<lambda>d. snap_covers s d \<and>
           (case bt_get authors d of
              None \<Rightarrow> True
            | Some by \<Rightarrow> bt_len by = 1 \<and> \<not> bs_contains by (author s))) headers
      then
        let authors' = fold (\<lambda>d m. bt_insert d
                (bs_insert (author s) (case bt_get m d of None \<Rightarrow> bt_empty | Some by \<Rightarrow> by)) m)
              (filter (snap_covers s) headers) authors;
            (chosen, final) = select_from headers rest authors'
        in (store_seq s # chosen, final)
      else select_from headers rest authors)"

definition select_covers :: "retained_snapshot list \<Rightarrow> dot list \<Rightarrow> input_error + cover_selection" where
  "select_covers snapshots bodiless =
     and_then (by_store_seq snapshots) (\<lambda>ordered.
     let headers = bt_keys (bs_collect bodiless);
         (chosen, authors) = select_from headers (rev ordered) bt_empty
     in Inr \<lparr> covers = chosen,
              uncovered = filter (\<lambda>d. \<not> bt_contains_key authors d) headers \<rparr>)"

fun first_unheld :: "vault_chains \<Rightarrow> dot list \<Rightarrow> device_id option" where
  "first_unheld vc [] = None"
| "first_unheld vc (e # es) =
     (let counted = (case bt_get (cutoffs vc) (dot_device e) of
                       None \<Rightarrow> dot_seq e
                     | Some cutoff \<Rightarrow> min (dot_seq e) cutoff)
      in if counted > vv_get (heads vc) (dot_device e) then Some (dot_device e)
         else first_unheld vc es)"

definition check_snapshot ::
  "device_id \<Rightarrow> version_vector \<Rightarrow> vault_chains \<Rightarrow> certificate_expiry \<Rightarrow> snapshot_refusal + unit" where
  "check_snapshot a covered vc expiry =
     (if bt_contains_key (cutoffs vc) a then Inl AuthorRevoked
      else if expiry = Expired then Inl AuthorExpired
      else if vv_get covered a > vv_get (heads vc) a then Inl AuthorEntryAboveHead
      else case first_unheld vc (vv_entries covered) of
             Some device \<Rightarrow> Inl (ClaimsUnheldDots device)
           | None \<Rightarrow> Inr ())"

fun iter_min :: "'a :: linorder list \<Rightarrow> 'a option" where
  "iter_min [] = None"
| "iter_min (x # xs) = Some (fold min xs x)"

definition check_healing_request :: "retained_snapshot list \<Rightarrow> dot list \<Rightarrow> uncovered_header + unit" where
  "check_healing_request snapshots stored_bodiless =
     (case iter_min (filter (\<lambda>d. \<not> list_ex (\<lambda>s. snap_covers s d) snapshots) stored_bodiless) of
        Some d \<Rightarrow> Inl (UncoveredHeader d)
      | None \<Rightarrow> Inr ())"


section \<open>The rules as written\<close>

definition authors_of :: "retained_snapshot list \<Rightarrow> dot \<Rightarrow> device_id set" where
  "authors_of K d = author ` {s \<in> set K. snap_covers s d}"

text \<open>An older snapshot stays while dropping it would lower the number of authors that cover
  some bodiless header to fewer than two.\<close>

definition r3_needed :: "dot set \<Rightarrow> retained_snapshot list \<Rightarrow> retained_snapshot \<Rightarrow> bool" where
  "r3_needed B K s \<longleftrightarrow>
     (\<exists>d \<in> B. snap_covers s d \<and> card (authors_of (remove1 s K) d) < 2 \<and>
        card (authors_of (remove1 s K) d) < card (authors_of K d))"

text \<open>The rule's loop: find the oldest droppable snapshot outside the two newest, drop it, and
  start again from the oldest.\<close>

function r3_literal :: "dot set \<Rightarrow> retained_snapshot list \<Rightarrow> retained_snapshot list" where
  "r3_literal B K =
     (case find (\<lambda>s. \<not> r3_needed B K s) (take (length K - 2) K) of
        None \<Rightarrow> K
      | Some s \<Rightarrow> r3_literal B (remove1 s K))"
  by pat_completeness auto
termination
  by (relation "measure (\<lambda>(B, K). length K)")
    (auto simp: find_Some_iff length_remove1 intro!: nth_mem)

declare r3_literal.simps [simp del]

subsection \<open>Counting covers\<close>

definition cnt :: "retained_snapshot list \<Rightarrow> dot \<Rightarrow> device_id \<Rightarrow> nat" where
  "cnt K d a = length (filter (\<lambda>s. snap_covers s d \<and> author s = a) K)"

lemma authors_of_cnt: "authors_of K d = {a. 0 < cnt K d a}"
  by (auto simp: authors_of_def cnt_def filter_empty_conv)

lemma authors_of_finite [simp]: "finite (authors_of K d)"
  by (simp add: authors_of_def)

lemma cnt_remove1:
  "s \<in> set K \<Longrightarrow>
   cnt K d a = cnt (remove1 s K) d a + (if snap_covers s d \<and> author s = a then 1 else 0)"
  by (induction K) (auto simp: cnt_def)

lemma cover_authors_len: "bt_len (cover_authors K d) = card (authors_of K d)"
proof -
  have "{x. bs_contains (cover_authors K d) x} = authors_of K d"
    by (auto simp: cover_authors_def authors_of_def)
  then show ?thesis by (simp add: bs_len_card)
qed

lemma authors_of_remove1:
  assumes "s \<in> set K"
  shows "authors_of (remove1 s K) d =
    (if snap_covers s d \<and> cnt K d (author s) = 1 then authors_of K d - {author s} else authors_of K d)"
proof -
  have "0 < cnt (remove1 s K) d a \<longleftrightarrow>
      0 < cnt K d a \<and> \<not> (snap_covers s d \<and> author s = a \<and> cnt K d a = 1)" for a
    using cnt_remove1 [OF assms, of d a] by (auto split: if_splits)
  then show ?thesis by (auto simp: authors_of_cnt)
qed

definition tallies :: "dot set \<Rightarrow> retained_snapshot list \<Rightarrow> cover_counts \<Rightarrow> bool" where
  "tallies B K counts \<longleftrightarrow>
     (\<forall>d m. bt_get counts d = Some m \<longrightarrow>
        d \<in> B \<and> (\<forall>a. bt_get m a = (if cnt K d a = 0 then None else Some (cnt K d a)))) \<and>
     (\<forall>d \<in> B. authors_of K d \<noteq> {} \<longrightarrow> bt_get counts d \<noteq> None)"

lemma tally_len:
  assumes "tallies B K counts" "bt_get counts d = Some m"
  shows "bt_len m = card (authors_of K d)" "bt_get m a = Some 1 \<longleftrightarrow> cnt K d a = 1"
proof -
  have "\<And>a. bt_get m a = (if cnt K d a = 0 then None else Some (cnt K d a))"
    using assms by (auto simp: tallies_def)
  then show "bt_len m = card (authors_of K d)" "bt_get m a = Some 1 \<longleftrightarrow> cnt K d a = 1"
    by (auto simp: bt_len_card authors_of_cnt intro: arg_cong [where f = card])
qed

lemma lowers_below_two_iff:
  assumes "tallies B K counts" "bt_get counts d = Some m" "s \<in> set K" "snap_covers s d"
  shows "lowers_below_two m (author s) \<longleftrightarrow>
    card (authors_of (remove1 s K) d) < 2 \<and> card (authors_of (remove1 s K) d) < card (authors_of K d)"
proof -
  have "cnt K d (author s) = 1 \<Longrightarrow> author s \<in> authors_of K d"
    by (simp add: authors_of_cnt)
  then show ?thesis
    using tally_len [OF assms(1,2)] assms(3,4)
    by (auto simp: lowers_below_two_def Let_def authors_of_remove1 card_Diff_singleton)
qed

lemma needed_by_counts:
  assumes "tallies B K counts" "s \<in> set K"
  shows "list_ex (\<lambda>(d, m). snap_covers s d \<and> lowers_below_two m (author s)) (bt_entries counts) \<longleftrightarrow>
    r3_needed B K s"
proof -
  have covered: "authors_of K d \<noteq> {}" if "snap_covers s d" for d
    using that assms(2) by (auto simp: authors_of_def)
  have "(\<exists>d m. bt_get counts d = Some m \<and> snap_covers s d \<and> lowers_below_two m (author s)) \<longleftrightarrow>
      r3_needed B K s" (is "?L \<longleftrightarrow> _")
  proof
    assume ?L
    then show "r3_needed B K s"
      using lowers_below_two_iff [OF assms(1) _ assms(2)] assms(1)
      unfolding r3_needed_def tallies_def by blast
  next
    assume "r3_needed B K s"
    then obtain d where d: "d \<in> B" "snap_covers s d"
      "card (authors_of (remove1 s K) d) < 2 \<and> card (authors_of (remove1 s K) d) < card (authors_of K d)"
      by (auto simp: r3_needed_def)
    then obtain m where "bt_get counts d = Some m"
      using assms(1) covered unfolding tallies_def by blast
    with d show ?L using lowers_below_two_iff [OF assms(1) _ assms(2)] by blast
  qed
  then show ?thesis by (force simp: list_ex_iff bt_entries_iff)
qed

lemma uncount_tallies:
  assumes t: "tallies B K counts" and s: "s \<in> set K"
  shows "tallies B (remove1 s K) (uncount_covers s counts)"
proof -
  have "authors_of (remove1 s K) d \<noteq> {} \<Longrightarrow> authors_of K d \<noteq> {}" for d
    by (auto simp: authors_of_remove1 [OF s] split: if_splits)
  moreover have "bt_get (uncount_covers s counts) d =
      map_option (\<lambda>m. if snap_covers s d then uncount_cover (author s) m else m) (bt_get counts d)" for d
    by (cases "bt_get counts d") (simp_all add: uncount_covers_def)
  moreover have "bt_get (if snap_covers s d then uncount_cover (author s) m else m) a =
      (if cnt (remove1 s K) d a = 0 then None else Some (cnt (remove1 s K) d a))"
    if "bt_get counts d = Some m" for d m a
  proof -
    have "\<And>a. bt_get m a = (if cnt K d a = 0 then None else Some (cnt K d a))"
      using t that by (auto simp: tallies_def)
    then show ?thesis
      using cnt_remove1 [OF s, of d a] by (auto simp: uncount_cover_def split: if_splits)
  qed
  ultimately show ?thesis
    using t unfolding tallies_def by (simp only: map_option_eq_Some option.map_disc_iff) blast
qed


subsection \<open>The counts R3 starts from\<close>

lemma count_covers_get:
  assumes "\<And>a. (case bt_get m a of None \<Rightarrow> 0 | Some n \<Rightarrow> n) + length xs \<le> usize_max"
  shows "bt_get (fold (\<lambda>s. count_cover (author s)) (xs :: retained_snapshot list) m) a =
    (if a \<in> author ` set xs
     then Some ((case bt_get m a of None \<Rightarrow> 0 | Some n \<Rightarrow> n) + length (filter (\<lambda>s. author s = a) xs))
     else bt_get m a)"
  using assms
proof (induction xs arbitrary: m)
  case (Cons s xs)
  have sat: "saturating_add (case bt_get m (author s) of None \<Rightarrow> 0 | Some n \<Rightarrow> n) 1 =
      (case bt_get m (author s) of None \<Rightarrow> 0 | Some n \<Rightarrow> n) + 1"
    using Cons.prems [of "author s"] by (simp add: saturating_add_def)
  have get: "bt_get (count_cover (author s) m) b =
      (if b = author s then Some ((case bt_get m (author s) of None \<Rightarrow> 0 | Some n \<Rightarrow> n) + 1)
       else bt_get m b)" for b
    by (simp only: count_cover_def sat bt_get_insert)
  have "(case bt_get (count_cover (author s) m) b of None \<Rightarrow> 0 | Some n \<Rightarrow> n) + length xs \<le> usize_max" for b
    using Cons.prems [of b] by (auto simp: get)
  from Cons.IH [OF this] show ?case
    by (auto simp: get filter_empty_conv image_iff)
qed simp

lemma count_covers_of_get:
  "bt_get (count_covers_of K d counts) d' =
     (if d' = d \<and> authors_of K d \<noteq> {}
      then Some (fold (\<lambda>s. count_cover (author s)) (filter (\<lambda>s. snap_covers s d) K)
        (case bt_get counts d of None \<Rightarrow> bt_empty | Some m \<Rightarrow> m))
      else bt_get counts d')"
proof -
  have "bt_get (fold (\<lambda>s counts. bt_insert d (count_cover (author s)
            (case bt_get counts d of None \<Rightarrow> bt_empty | Some m \<Rightarrow> m)) counts) xs counts) d' =
      (if d' = d \<and> xs \<noteq> []
       then Some (fold (\<lambda>s. count_cover (author s)) xs
         (case bt_get counts d of None \<Rightarrow> bt_empty | Some m \<Rightarrow> m))
       else bt_get counts d')" for xs :: "retained_snapshot list"
    by (induction xs arbitrary: counts) auto
  moreover have "filter (\<lambda>s. snap_covers s d) K \<noteq> [] \<longleftrightarrow> authors_of K d \<noteq> {}"
    by (auto simp: authors_of_def filter_empty_conv)
  ultimately show ?thesis by (simp only: count_covers_of_def)
qed

lemma count_all_get:
  assumes "distinct ds" "\<And>d. d \<in> set ds \<Longrightarrow> bt_get counts d = None"
  shows "bt_get (fold (count_covers_of K) ds counts) d =
    (if d \<in> set ds \<and> authors_of K d \<noteq> {}
     then Some (fold (\<lambda>s. count_cover (author s)) (filter (\<lambda>s. snap_covers s d) K) bt_empty)
     else bt_get counts d)"
  using assms
proof (induction ds arbitrary: counts)
  case (Cons e ds)
  have "bt_get (count_covers_of K e counts) d' = None" if "d' \<in> set ds" for d'
    using that Cons.prems by (auto simp: count_covers_of_get)
  from Cons.IH [OF _ this] Cons.prems show ?case
    by (auto simp: count_covers_of_get)
qed simp

lemma initial_tallies:
  assumes "length K \<le> usize_max"
  shows "tallies {d. bs_contains B d} K (fold (count_covers_of K) (bt_keys B) bt_empty)"
proof -
  have keys: "d \<in> set (bt_keys B) \<longleftrightarrow> bs_contains B d" for d
    by (rule bs_keys_iff)
  have "length (filter (\<lambda>s. snap_covers s d) K) \<le> usize_max" for d
    using assms by (meson length_filter_le order_trans)
  then have "bt_get (fold (\<lambda>s. count_cover (author s)) (filter (\<lambda>s. snap_covers s d) K) bt_empty) a =
      (if cnt K d a = 0 then None else Some (cnt K d a))" for d a
    by (subst count_covers_get) (auto simp: cnt_def filter_empty_conv conj_commute)
  then show ?thesis
    unfolding tallies_def
    by (simp add: count_all_get [OF bt_keys_distinct] keys del: bt_keys_iff)
qed

subsection \<open>One pass equals the re-tested rule\<close>

lemma find_append: "find P (xs @ ys) = (case find P xs of None \<Rightarrow> find P ys | Some x \<Rightarrow> Some x)"
  by (induction xs) auto

lemma needed_mono:
  assumes "t \<noteq> s" "s \<in> set K" "t \<in> set K" "distinct K" "r3_needed B K s"
  shows "r3_needed B (remove1 t K) s"
proof -
  from assms(5) obtain d where d: "d \<in> B" "snap_covers s d"
    "card (authors_of (remove1 s K) d) < 2" "card (authors_of (remove1 s K) d) < card (authors_of K d)"
    by (auto simp: r3_needed_def)
  have one: "cnt K d (author s) = 1"
    using d(4) assms(2) by (auto simp: authors_of_remove1 split: if_splits)
  have in': "s \<in> set (remove1 t K)" using assms(1,2) by simp
  have "0 < cnt (remove1 t K) d (author s)"
    using in' d(2) by (auto simp: cnt_def filter_empty_conv)
  with one have one': "cnt (remove1 t K) d (author s) = 1"
    using cnt_remove1 [OF assms(3), of d "author s"] by (auto split: if_splits)
  have sub: "authors_of (remove1 t K) d \<subseteq> authors_of K d"
    by (auto simp: authors_of_remove1 [OF assms(3)])
  have "author s \<in> authors_of (remove1 t K) d"
    using one' by (simp add: authors_of_cnt)
  moreover have "authors_of (remove1 s (remove1 t K)) d = authors_of (remove1 t K) d - {author s}"
    using one' d(2) by (simp add: authors_of_remove1 [OF in'])
  moreover have "card (authors_of (remove1 t K) d - {author s}) \<le> card (authors_of (remove1 s K) d)"
    using sub one d(2) by (intro card_mono) (auto simp: authors_of_remove1 [OF assms(2)])
  ultimately have "card (authors_of (remove1 s (remove1 t K)) d) < 2"
    "card (authors_of (remove1 s (remove1 t K)) d) < card (authors_of (remove1 t K) d)"
    using d(3) by (simp, simp only: card_Diff1_less authors_of_finite)
  with d(1,2) show ?thesis unfolding r3_needed_def by blast
qed

lemma r3_pass_literal:
  assumes "tallies B (kept @ older @ newest) counts"
    and "distinct (map store_seq (kept @ older @ newest))"
    and "length newest = 2"
    and "\<And>s. s \<in> set kept \<Longrightarrow> r3_needed B (kept @ older @ newest) s"
  shows "r3_literal B (kept @ older @ newest) =
      kept @ filter (\<lambda>s. store_seq s \<notin> set (r3_pass older counts)) older @ newest \<and>
    set (r3_pass older counts) \<subseteq> store_seq ` set older"
  using assms
proof (induction older arbitrary: kept counts)
  case Nil
  then have "find (\<lambda>s. \<not> r3_needed B (kept @ newest) s) kept = None"
    by (simp add: find_None_iff)
  then show ?case using Nil.prems(3) by (simp add: r3_literal.simps [of B "kept @ newest"])
next
  case (Cons s older)
  let ?K = "kept @ (s # older) @ newest"
  have s: "s \<in> set ?K" by simp
  have dist: "distinct ?K" using Cons.prems(2) by (simp only: distinct_map)
  note needed = needed_by_counts [OF Cons.prems(1) s]
  have fresh: "store_seq s \<notin> store_seq ` set older" using Cons.prems(2) by auto
  show ?case
  proof (cases "r3_needed B ?K s")
    case True
    have "tallies B ((kept @ [s]) @ older @ newest) counts"
      "distinct (map store_seq ((kept @ [s]) @ older @ newest))"
      "\<And>t. t \<in> set (kept @ [s]) \<Longrightarrow> r3_needed B ((kept @ [s]) @ older @ newest) t"
      using Cons.prems True by auto
    from Cons.IH [OF this(1,2) Cons.prems(3) this(3)] True needed fresh
    show ?thesis by auto
  next
    case False
    have rem: "remove1 s ?K = kept @ older @ newest"
      using dist by (simp add: remove1_append)
    have "find (\<lambda>t. \<not> r3_needed B ?K t) (take (length ?K - 2) ?K) = Some s"
    proof -
      have "find (\<lambda>t. \<not> r3_needed B ?K t) kept = None"
        using Cons.prems(4) by (auto simp: find_None_iff)
      moreover have "take (length ?K - 2) ?K = kept @ s # older" using Cons.prems(3) by simp
      ultimately show ?thesis using False by (simp add: find_append)
    qed
    then have lit: "r3_literal B ?K = r3_literal B (kept @ older @ newest)"
      by (subst r3_literal.simps) (simp add: rem [simplified])
    have "tallies B (kept @ older @ newest) (uncount_covers s counts)"
      using uncount_tallies [OF Cons.prems(1) s] by (simp only: rem)
    moreover have "r3_needed B (kept @ older @ newest) t" if "t \<in> set kept" for t
    proof -
      have "s \<noteq> t" using that dist by auto
      from needed_mono [OF this _ s dist Cons.prems(4) [OF that]] that rem show ?thesis by simp
    qed
    ultimately have "r3_literal B (kept @ older @ newest) =
        kept @ filter (\<lambda>t. store_seq t \<notin> set (r3_pass older (uncount_covers s counts))) older @ newest \<and>
      set (r3_pass older (uncount_covers s counts)) \<subseteq> store_seq ` set older"
      using Cons.prems(2,3) by (intro Cons.IH) auto
    moreover have "filter (\<lambda>t. store_seq t \<noteq> store_seq s \<and> store_seq t \<notin> X) older =
        filter (\<lambda>t. store_seq t \<notin> X) older" for X
      using fresh by (intro filter_cong) (auto simp: image_iff)
    ultimately show ?thesis using False needed lit by auto
  qed
qed


lemma r3_drops_literal:
  assumes "distinct (map store_seq K)" "length K \<le> usize_max"
  shows "filter (\<lambda>s. store_seq s \<notin> set (r3_drops K B)) K = r3_literal {d. bs_contains B d} K"
    and "set (r3_drops K B) \<subseteq> store_seq ` set (take (length K - 2) K)"
proof -
  let ?B = "{d. bs_contains B d}" and ?older = "take (length K - 2) K" and ?new = "drop (length K - 2) K"
  have "filter (\<lambda>s. store_seq s \<notin> set (r3_drops K B)) K = r3_literal ?B K \<and>
    set (r3_drops K B) \<subseteq> store_seq ` set ?older"
  proof (cases "length K < 2")
    case True
    then show ?thesis by (simp add: r3_drops_def r3_literal.simps [of ?B K])
  next
    case False
    let ?counts = "fold (count_covers_of K) (bt_keys B) bt_empty"
    have eq: "r3_drops K B = r3_pass ?older ?counts" using False by (simp add: r3_drops_def)
    have K: "[] @ ?older @ ?new = K" by simp
    have "distinct (map store_seq ([] @ ?older @ ?new))" using assms(1) by (simp only: K)
    moreover have "tallies ?B ([] @ ?older @ ?new) ?counts"
      using initial_tallies [OF assms(2)] by (simp only: K)
    ultimately have pass: "r3_literal ?B ([] @ ?older @ ?new) =
        [] @ filter (\<lambda>s. store_seq s \<notin> set (r3_pass ?older ?counts)) ?older @ ?new \<and>
      set (r3_pass ?older ?counts) \<subseteq> store_seq ` set ?older"
      using False by (intro r3_pass_literal) auto
    have "store_seq ` set ?older \<inter> store_seq ` set ?new = {}"
      using assms(1) by (metis append_take_drop_id distinct_append map_append set_map)
    then have "filter (\<lambda>s. store_seq s \<notin> set (r3_pass ?older ?counts)) ?new = ?new"
      using pass by (intro filter_True) auto
    then have "filter (\<lambda>s. store_seq s \<notin> set (r3_pass ?older ?counts)) (?older @ ?new) =
        r3_literal ?B ([] @ ?older @ ?new)"
      using pass by (simp only: filter_append append_Nil)
    then show ?thesis using pass by (simp only: eq append_take_drop_id append_Nil)
  qed
  then show "filter (\<lambda>s. store_seq s \<notin> set (r3_drops K B)) K = r3_literal ?B K"
    "set (r3_drops K B) \<subseteq> store_seq ` set ?older" by auto
qed

lemma r3_literal_authors:
  "d \<in> B \<Longrightarrow> min 2 (card (authors_of (r3_literal B K) d)) = min 2 (card (authors_of K d))"
proof (induction B K rule: r3_literal.induct)
  case (1 B K)
  show ?case
  proof (cases "find (\<lambda>s. \<not> r3_needed B K s) (take (length K - 2) K)")
    case None
    then show ?thesis by (simp add: r3_literal.simps [of B K])
  next
    case (Some s)
    then have s: "s \<in> set K" and free: "\<not> r3_needed B K s"
      by (auto simp: find_Some_iff intro: nth_mem)
    have "authors_of (remove1 s K) d \<subseteq> authors_of K d"
      by (simp add: authors_of_remove1 [OF s] Diff_subset)
    then have "card (authors_of (remove1 s K) d) \<le> card (authors_of K d)"
      by (simp add: card_mono)
    moreover have "snap_covers s d \<Longrightarrow>
        \<not> (card (authors_of (remove1 s K) d) < 2 \<and> card (authors_of (remove1 s K) d) < card (authors_of K d))"
      using free 1(2) by (auto simp: r3_needed_def)
    moreover have "\<not> snap_covers s d \<Longrightarrow> authors_of (remove1 s K) d = authors_of K d"
      by (simp add: authors_of_remove1 [OF s])
    ultimately have "min 2 (card (authors_of (remove1 s K) d)) = min 2 (card (authors_of K d))"
      by (cases "snap_covers s d") auto
    then show ?thesis
      using 1(1) [OF Some 1(2)] Some by (simp add: r3_literal.simps [of B K])
  qed
qed

lemma r3_literal_fixpoint: "r3_literal B (r3_literal B K) = r3_literal B K"
proof (induction B K rule: r3_literal.induct)
  case (1 B K)
  then show ?case
    by (cases "find (\<lambda>s. \<not> r3_needed B K s) (take (length K - 2) K)")
      (simp_all add: r3_literal.simps [of B K])
qed

lemma r3_literal_newest: "drop (length (r3_literal B K) - 2) (r3_literal B K) = drop (length K - 2) K"
proof (induction B K rule: r3_literal.induct)
  case (1 B K)
  show ?case
  proof (cases "find (\<lambda>s. \<not> r3_needed B K s) (take (length K - 2) K)")
    case None
    then show ?thesis by (simp add: r3_literal.simps [of B K])
  next
    case (Some s)
    let ?o = "take (length K - 2) K" and ?n = "drop (length K - 2) K"
    from Some have s: "s \<in> set ?o" by (auto simp: find_Some_iff in_set_conv_nth)
    then have rem: "remove1 s K = remove1 s ?o @ ?n"
      by (metis append_take_drop_id remove1_append)
    from s have "2 < length K" by (cases "length K \<le> 2") auto
    then have "drop (length (remove1 s ?o @ ?n) - 2) (remove1 s ?o @ ?n) = ?n" by simp
    with 1 [OF Some] Some rem show ?thesis by (simp add: r3_literal.simps [of B K])
  qed
qed


subsection \<open>Reading the rows\<close>

lemma repeated_store_seq_None:
  "sorted (map store_seq K) \<Longrightarrow> repeated_store_seq K = None \<longleftrightarrow> distinct (map store_seq K)"
proof (induction K rule: repeated_store_seq.induct)
  case (1 a b rest)
  then show ?case by (force simp: image_iff)
qed auto

lemma repeated_store_seq_Some:
  "sorted (map store_seq K) \<Longrightarrow> repeated_store_seq K = Some q \<Longrightarrow>
   \<exists>a b. mset [a, b] \<subseteq># mset K \<and> store_seq a = q \<and> store_seq b = q"
proof (induction K rule: repeated_store_seq.induct)
  case (1 a b rest)
  show ?case
  proof (cases "store_seq a = store_seq b")
    case True
    with 1 show ?thesis by (intro exI [of _ a] exI [of _ b]) auto
  next
    case False
    with 1 obtain x y where "mset [x, y] \<subseteq># mset (b # rest)" "store_seq x = q" "store_seq y = q"
      by auto
    then show ?thesis
      by (intro exI [of _ x] exI [of _ y]) (auto intro: subset_mset.order_trans)
  qed
qed auto

lemma by_store_seq_Inr:
  "by_store_seq snaps = Inr K \<longleftrightarrow> K = sort_key store_seq snaps \<and> distinct (map store_seq snaps)"
proof -
  have "distinct (map store_seq (sort_key store_seq snaps)) \<longleftrightarrow> distinct (map store_seq snaps)"
    by (metis distinct_sort mset_eq_imp_distinct_iff mset_map mset_sort)
  then show ?thesis
    using repeated_store_seq_None [OF sorted_sort_key, of snaps]
    by (auto simp: by_store_seq_def Let_def split: option.splits)
qed

lemma authors_of_sort [simp]: "authors_of (sort_key store_seq K) d = authors_of K d"
  by (simp add: authors_of_def)

lemma index_ops_into_Inr:
  "index_ops_into ops m = Inr m' \<longleftrightarrow>
     distinct (map op_dot_dot ops) \<and> (\<forall>op \<in> set ops. bt_get m (op_dot_dot op) = None) \<and>
     m' = fold (\<lambda>op. bt_insert (op_dot_dot op) (op_dot_body op)) ops m"
proof (induction ops arbitrary: m)
  case (Cons op ops)
  show ?case by (auto simp: Cons.IH image_iff split: if_splits)
qed auto

lemma index_ops_Inr:
  "index_ops ops = Inr m \<longleftrightarrow>
     distinct (map op_dot_dot ops) \<and> m = bt_collect (map (\<lambda>op. (op_dot_dot op, op_dot_body op)) ops)"
  by (simp add: index_ops_def index_ops_into_Inr bt_collect_def fold_map comp_def)

lemma op_dot_mem: "\<lparr> op_dot_dot = d, op_dot_body = b \<rparr> \<in> S \<longleftrightarrow> (\<exists>op \<in> S. op_dot_dot op = d \<and> op_dot_body op = b)"
proof -
  have "\<lparr> op_dot_dot = op_dot_dot op, op_dot_body = op_dot_body op \<rparr> = op" for op :: op_dot by simp
  then show ?thesis by (metis op_dot.select_convs)
qed

lemma index_ops_get:
  "distinct (map op_dot_dot ops) \<Longrightarrow>
   bt_get (bt_collect (map (\<lambda>op. (op_dot_dot op, op_dot_body op)) ops)) d = Some b \<longleftrightarrow>
   \<lparr> op_dot_dot = d, op_dot_body = b \<rparr> \<in> set ops"
  by (subst bt_get_collect_distinct) (auto simp: comp_def map_of_eq_Some_iff image_iff op_dot_mem)

definition second_newest :: "retained_snapshot list \<Rightarrow> retained_snapshot option" where
  "second_newest snaps =
     (case rev (sort_key store_seq snaps) of _ # older # _ \<Rightarrow> Some older | _ \<Rightarrow> None)"

definition r1_rule :: "retained_snapshot list \<Rightarrow> dot \<Rightarrow> bool" where
  "r1_rule snaps d \<longleftrightarrow>
     (\<exists>older. second_newest snaps = Some older \<and> snap_covers older d) \<and> 2 \<le> card (authors_of snaps d)"

lemma r1_deletions_set:
  "set (r1_deletions (sort_key store_seq snaps) ops) = {d. bt_get ops d = Some Held \<and> r1_rule snaps d}"
  by (auto simp: r1_deletions_def r1_rule_def second_newest_def cover_authors_len bt_entries_iff image_iff
      Bex_def split: list.splits)

text \<open>The bodiless headers of the item once the plan's deletions are applied.\<close>

definition bodiless_after :: "op_dot list \<Rightarrow> worker_plan \<Rightarrow> dot set" where
  "bodiless_after ops p =
     {op_dot_dot op | op. op \<in> set ops \<and> op_dot_body op = Absent} \<union> set (delete_bodies p)"

definition kept_snapshots :: "retained_snapshot list \<Rightarrow> worker_plan \<Rightarrow> retained_snapshot list" where
  "kept_snapshots snaps p = filter (\<lambda>s. store_seq s \<notin> set (drop_snapshots p)) snaps"

definition apply_deletions :: "op_dot list \<Rightarrow> worker_plan \<Rightarrow> op_dot list" where
  "apply_deletions ops p =
     map (\<lambda>op. if op_dot_dot op \<in> set (delete_bodies p) then op\<lparr>op_dot_body := Absent\<rparr> else op) ops"

lemma bodiless_after_apply:
  assumes "set (delete_bodies p) \<subseteq> op_dot_dot ` set ops" "delete_bodies p' = []"
  shows "bodiless_after (apply_deletions ops p) p' = bodiless_after ops p"
proof -
  let ?f = "\<lambda>op. if op_dot_dot op \<in> set (delete_bodies p) then op\<lparr>op_dot_body := Absent\<rparr> else op"
  have f: "op_dot_dot (?f op) = op_dot_dot op"
    "op_dot_body (?f op) = Absent \<longleftrightarrow> op_dot_body op = Absent \<or> op_dot_dot op \<in> set (delete_bodies p)"
    for op :: op_dot by simp_all
  have "{op_dot_dot op | op. op \<in> ?f ` set ops \<and> op_dot_body op = Absent} =
      {op_dot_dot (?f op) | op. op \<in> set ops \<and> op_dot_body (?f op) = Absent}"
    by blast
  then have "bodiless_after (apply_deletions ops p) p' =
      {op_dot_dot op | op. op \<in> set ops \<and> (op_dot_body op = Absent \<or> op_dot_dot op \<in> set (delete_bodies p))}"
    unfolding bodiless_after_def apply_deletions_def assms(2) set_map f by simp
  also have "\<dots> = bodiless_after ops p"
    using assms(1) by (auto simp: bodiless_after_def)
  finally show ?thesis .
qed

lemma plan_worker_Inr:
  assumes "plan_worker snaps ops = Inr p" "length snaps \<le> usize_max"
  shows "distinct (map store_seq snaps)" "distinct (map op_dot_dot ops)"
    and "set (delete_bodies p) = {d. \<lparr> op_dot_dot = d, op_dot_body = Held \<rparr> \<in> set ops \<and> r1_rule snaps d}"
    and "sort_key store_seq (kept_snapshots snaps p) =
      r3_literal (bodiless_after ops p) (sort_key store_seq snaps)"
    and "set (drop_snapshots p) \<subseteq> store_seq ` set snaps"
proof -
  let ?K = "sort_key store_seq snaps" and ?ops = "map (\<lambda>op. (op_dot_dot op, op_dot_body op)) ops"
  let ?m = "bt_collect ?ops"
  let ?B = "bs_extend (r1_deletions ?K ?m) (bs_collect (map fst (filter (\<lambda>(_, b). b = Absent) (bt_entries ?m))))"
  from assms(1) show d: "distinct (map store_seq snaps)" and o: "distinct (map op_dot_dot ops)"
    by (auto simp: plan_worker_def and_then_def by_store_seq_Inr index_ops_Inr Let_def split: sum.splits)
  have p: "p = \<lparr> delete_bodies = r1_deletions ?K ?m, drop_snapshots = r3_drops ?K ?B \<rparr>"
    using assms(1)
    by (auto simp: plan_worker_def and_then_def by_store_seq_Inr index_ops_Inr Let_def split: sum.splits)
  show "set (delete_bodies p) = {d. \<lparr> op_dot_dot = d, op_dot_body = Held \<rparr> \<in> set ops \<and> r1_rule snaps d}"
    by (simp add: p r1_deletions_set index_ops_get [OF o])
  have "{d. bs_contains ?B d} = bodiless_after ops p"
    by (auto simp: bodiless_after_def p bt_entries_iff index_ops_get [OF o] op_dot_mem image_iff Bex_def)
  moreover have "distinct (map store_seq ?K)" "length ?K \<le> usize_max"
    using assms(2) d by_store_seq_Inr [of snaps ?K] repeated_store_seq_None [OF sorted_sort_key, of snaps]
    by (auto simp: by_store_seq_def Let_def split: option.splits)
  moreover have dp: "drop_snapshots p = r3_drops ?K ?B" by (simp only: p worker_plan.select_convs)
  ultimately show "sort_key store_seq (kept_snapshots snaps p) = r3_literal (bodiless_after ops p) ?K"
    using r3_drops_literal(1) [of ?K ?B] by (simp only: dp kept_snapshots_def filter_sort)
  have "set (r3_drops ?K ?B) \<subseteq> store_seq ` set (take (length ?K - 2) ?K)"
    by (rule r3_drops_literal) fact+
  also have "\<dots> \<subseteq> store_seq ` set snaps"
    using set_take_subset [of "length ?K - 2" ?K] by auto
  finally show "set (drop_snapshots p) \<subseteq> store_seq ` set snaps" by (simp only: dp)
qed

lemma r1_deletions_sorted: "sorted_wrt (<) (r1_deletions K ops)"
  by (auto simp: r1_deletions_def sorted_wrt_map sorted_wrt_filter [OF bt_entries_ascending [unfolded sorted_wrt_map]]
      split: list.splits)

lemma second_newest_kept:
  assumes "plan_worker snaps ops = Inr p" "length snaps \<le> usize_max"
  shows "second_newest (kept_snapshots snaps p) = second_newest snaps"
proof -
  have second: "second_newest K = (case drop (length K - 2) (sort_key store_seq K) of [a, b] \<Rightarrow> Some a | _ \<Rightarrow> None)" for K
  proof -
    obtain X where X: "sort_key store_seq K = rev X" by (metis rev_rev_ident)
    then have "length K = length X" by (metis length_rev length_sort)
    then show ?thesis
      by (cases X; cases "tl X") (auto simp: second_newest_def X)
  qed
  let ?L = "r3_literal (bodiless_after ops p) (sort_key store_seq snaps)"
  have L: "sort_key store_seq (kept_snapshots snaps p) = ?L" by (rule plan_worker_Inr) fact+
  then have "length (kept_snapshots snaps p) = length ?L" by (metis length_sort)
  then show ?thesis
    using r3_literal_newest [of "bodiless_after ops p" "sort_key store_seq snaps"]
    by (simp add: second L)
qed


lemma kept_authors_sub: "authors_of (kept_snapshots snaps p) d \<subseteq> authors_of snaps d"
  by (auto simp: authors_of_def kept_snapshots_def)

lemma kept_authors_card:
  assumes "plan_worker snaps ops = Inr p" "length snaps \<le> usize_max" "d \<in> bodiless_after ops p"
  shows "min 2 (card (authors_of (kept_snapshots snaps p) d)) = min 2 (card (authors_of snaps d))"
proof -
  have "authors_of (kept_snapshots snaps p) d = authors_of (sort_key store_seq (kept_snapshots snaps p)) d"
    by simp
  also have "\<dots> = authors_of (r3_literal (bodiless_after ops p) (sort_key store_seq snaps)) d"
    by (simp only: plan_worker_Inr(4) [OF assms(1,2)])
  finally show ?thesis using r3_literal_authors [OF assms(3), of "sort_key store_seq snaps"] by simp
qed

subsection \<open>Choosing covers\<close>

definition cover_map_of ::
  "dot list \<Rightarrow> retained_snapshot list \<Rightarrow> (dot, device_id btree_set) btree_map \<Rightarrow> bool" where
  "cover_map_of headers S m \<longleftrightarrow>
     (\<forall>d. (bt_get m d \<noteq> None \<longleftrightarrow> d \<in> set headers \<and> authors_of S d \<noteq> {}) \<and>
        (\<forall>by. bt_get m d = Some by \<longrightarrow> {a. bs_contains by a} = authors_of S d))"

lemma authors_of_append: "authors_of (xs @ ys) d = authors_of xs d \<union> authors_of ys d"
  by (auto simp: authors_of_def)

lemma authors_of_snoc:
  "authors_of (xs @ [s]) d = (if snap_covers s d then insert (author s) (authors_of xs d) else authors_of xs d)"
  by (auto simp: authors_of_def)

lemma authors_of_mono: "set S \<subseteq> set P \<Longrightarrow> authors_of S d \<subseteq> authors_of P d"
  by (auto simp: authors_of_def)

lemma record_author_get:
  assumes "distinct ds"
  shows "bt_get (fold (\<lambda>d m. bt_insert d
      (bs_insert a (case bt_get m d of None \<Rightarrow> bt_empty | Some by \<Rightarrow> by)) m) ds m) d =
    (if d \<in> set ds then Some (bs_insert a (case bt_get m d of None \<Rightarrow> bt_empty | Some by \<Rightarrow> by))
     else bt_get m d)"
  using assms by (induction ds arbitrary: m) auto

lemma record_author_map:
  assumes m: "cover_map_of headers S m" and "distinct headers"
  shows "cover_map_of headers (S @ [s]) (fold (\<lambda>d m. bt_insert d
      (bs_insert (author s) (case bt_get m d of None \<Rightarrow> bt_empty | Some by \<Rightarrow> by)) m)
      (filter (snap_covers s) headers) m)" (is "cover_map_of _ _ ?m")
  unfolding cover_map_of_def
proof (intro allI conjI impI)
  fix d au
  have get: "bt_get ?m d =
      (if d \<in> set headers \<and> snap_covers s d
       then Some (bs_insert (author s) (case bt_get m d of None \<Rightarrow> bt_empty | Some by \<Rightarrow> by))
       else bt_get m d)"
    using assms(2) by (simp add: record_author_get conj_commute)
  have here: "bt_get m d \<noteq> None \<longleftrightarrow> d \<in> set headers \<and> authors_of S d \<noteq> {}"
    "\<And>by. bt_get m d = Some by \<Longrightarrow> {a. bs_contains by a} = authors_of S d"
    using m by (auto simp: cover_map_of_def)
  show "bt_get ?m d \<noteq> None \<longleftrightarrow> d \<in> set headers \<and> authors_of (S @ [s]) d \<noteq> {}"
    using here(1) by (auto simp: get authors_of_snoc)
  show "{a. bs_contains au a} = authors_of (S @ [s]) d" if "bt_get ?m d = Some au"
    using that here by (cases "bt_get m d") (auto simp: get authors_of_snoc split: if_splits)
qed

lemma sorted_wrt_subseq: "subseq xs ys \<Longrightarrow> sorted_wrt R ys \<Longrightarrow> sorted_wrt R xs"
  by (induction rule: list_emb.induct) (auto dest: list_emb_set)

lemma two_authors_step:
  assumes "set S \<subseteq> set P" "min 2 (card (authors_of S d)) = min 2 (card (authors_of P d))"
    and "set T \<subseteq> {s}" "T = [] \<Longrightarrow> snap_covers s d \<Longrightarrow> 2 \<le> card (authors_of S d) \<or> author s \<in> authors_of S d"
    and "T = [] \<or> T = [s]"
  shows "min 2 (card (authors_of (S @ T) d)) = min 2 (card (authors_of (P @ [s]) d))"
proof -
  have sub: "authors_of S d \<subseteq> authors_of P d" by (rule authors_of_mono) fact
  have S: "authors_of S d \<subseteq> authors_of (S @ T) d" and P: "authors_of P d \<subseteq> authors_of (P @ [s]) d"
    by (auto simp: authors_of_append)
  note le = card_mono [OF authors_of_finite S] card_mono [OF authors_of_finite P]
  show ?thesis
  proof (cases "2 \<le> card (authors_of S d)")
    case True
    with le assms(2) show ?thesis by simp
  next
    case False
    with assms(2) sub have "authors_of S d = authors_of P d"
      by (intro card_subset_eq) auto
    with assms(4,5) False have "authors_of (S @ T) d = authors_of (P @ [s]) d"
      by (auto simp: authors_of_append authors_of_snoc authors_of_def)
    then show ?thesis by simp
  qed
qed

lemma select_from_spec:
  assumes "select_from headers rest m = (chosen, final)" "distinct headers"
    and "cover_map_of headers S m" "set S \<subseteq> set P"
    and "\<And>d. d \<in> set headers \<Longrightarrow> min 2 (card (authors_of S d)) = min 2 (card (authors_of P d))"
  shows "\<exists>S'. chosen = map store_seq S' \<and> subseq S' rest \<and> cover_map_of headers (S @ S') final \<and>
    (\<forall>d \<in> set headers. min 2 (card (authors_of (S @ S') d)) = min 2 (card (authors_of (P @ rest) d)))"
  using assms
proof (induction rest arbitrary: m S P chosen)
  case Nil
  then show ?case by (intro exI [of _ "[]"]) simp
next
  case (Cons s rest)
  let ?adds = "list_ex (\<lambda>d. snap_covers s d \<and>
    (case bt_get m d of None \<Rightarrow> True | Some by \<Rightarrow> bt_len by = 1 \<and> \<not> bs_contains by (author s))) headers"
  show ?case
  proof (cases ?adds)
    case True
    then obtain m' chosen' where m': "m' = fold (\<lambda>d m. bt_insert d
        (bs_insert (author s) (case bt_get m d of None \<Rightarrow> bt_empty | Some by \<Rightarrow> by)) m)
        (filter (snap_covers s) headers) m"
      and rec: "select_from headers rest m' = (chosen', final)" "chosen = store_seq s # chosen'"
      using Cons.prems(1) by (auto simp: Let_def split: prod.splits)
    have "min 2 (card (authors_of (S @ [s]) d)) = min 2 (card (authors_of (P @ [s]) d))"
      if "d \<in> set headers" for d
      using Cons.prems(4,5) that by (intro two_authors_step) auto
    from Cons.IH [OF rec(1) Cons.prems(2) record_author_map [OF Cons.prems(3,2), of s, folded m'] _ this]
    obtain S' where "chosen' = map store_seq S' \<and> subseq S' rest \<and> cover_map_of headers ((S @ [s]) @ S') final \<and>
      (\<forall>d \<in> set headers. min 2 (card (authors_of ((S @ [s]) @ S') d)) = min 2 (card (authors_of ((P @ [s]) @ rest) d)))"
      using Cons.prems(4) by auto
    with rec(2) show ?thesis by (intro exI [of _ "s # S'"]) simp
  next
    case False
    then have rec: "select_from headers rest m = (chosen, final)" using Cons.prems(1) by simp
    have "2 \<le> card (authors_of S d) \<or> author s \<in> authors_of S d" if d: "d \<in> set headers" "snap_covers s d" for d
    proof -
      obtain au where au: "bt_get m d = Some au" "bt_len au = 1 \<Longrightarrow> bs_contains au (author s)"
        using False d by (auto simp: list_ex_iff split: option.splits)
      then have A: "{a. bs_contains au a} = authors_of S d" "authors_of S d \<noteq> {}"
        using Cons.prems(3) by (auto simp: cover_map_of_def)
      then have "0 < bt_len au" by (simp add: bs_len_card card_gt_0_iff)
      then have "2 \<le> bt_len au \<or> bt_len au = 1" by linarith
      then show ?thesis using A(1) au(2) by (auto simp: bs_len_card)
    qed
    then have "min 2 (card (authors_of (S @ []) d)) = min 2 (card (authors_of (P @ [s]) d))"
      if "d \<in> set headers" for d
      using Cons.prems(4,5) that by (intro two_authors_step) auto
    then have "min 2 (card (authors_of S d)) = min 2 (card (authors_of (P @ [s]) d))"
      if "d \<in> set headers" for d using that by simp
    from Cons.IH [OF rec Cons.prems(2,3) _ this] Cons.prems(4) obtain S' where
      "chosen = map store_seq S' \<and> subseq S' rest \<and> cover_map_of headers (S @ S') final \<and>
      (\<forall>d \<in> set headers. min 2 (card (authors_of (S @ S') d)) = min 2 (card (authors_of ((P @ [s]) @ rest) d)))"
      by auto
    then show ?thesis by (intro exI [of _ S']) (auto intro: list_emb_Cons)
  qed
qed

section \<open>An item with three snapshots\<close>

definition sample_snapshots :: "retained_snapshot list" where
  "sample_snapshots =
     [\<lparr> store_seq = 6, clamped = bt_collect [(7, nz_of 3)], author = 9 \<rparr>,
      \<lparr> store_seq = 4, clamped = bt_collect [(7, nz_of 2)], author = 7 \<rparr>,
      \<lparr> store_seq = 5, clamped = bt_collect [(7, nz_of 2)], author = 7 \<rparr>]"

definition sample_ops :: "op_dot list" where
  "sample_ops =
     [\<lparr> op_dot_dot = Dot 7 (nz_of 3), op_dot_body = Held \<rparr>,
      \<lparr> op_dot_dot = Dot 7 (nz_of 2), op_dot_body = Held \<rparr>]"

definition sample_plan :: worker_plan where
  "sample_plan = \<lparr> delete_bodies = [Dot 7 (nz_of 2)], drop_snapshots = [4] \<rparr>"

lemmas snap_eval = snap_covers_def vv_covers_def vv_get_def dot_seq_def less_dot_iff
  nz_eq_iff dot_eq_iff

lemma sample_sort:
  "sort_key store_seq sample_snapshots =
     [\<lparr> store_seq = 4, clamped = bt_collect [(7, nz_of 2)], author = 7 \<rparr>,
      \<lparr> store_seq = 5, clamped = bt_collect [(7, nz_of 2)], author = 7 \<rparr>,
      \<lparr> store_seq = 6, clamped = bt_collect [(7, nz_of 3)], author = 9 \<rparr>]"
  by (simp add: sample_snapshots_def sort_key_def)

lemma sample_by_store_seq:
  "by_store_seq sample_snapshots = Inr (sort_key store_seq sample_snapshots)"
  by (simp add: by_store_seq_def sample_sort)

lemma sample_index:
  "index_ops sample_ops = Inr (bt_collect [(Dot 7 (nz_of 2), Held), (Dot 7 (nz_of 3), Held)])"
  by (simp add: index_ops_def sample_ops_def nz_eq_iff bt_collect_def) (simp add: bt.ins_commute nz_eq_iff)

lemma sample_entries:
  "bt_entries (bt_collect [(Dot 7 (nz_of 2), Held), (Dot 7 (nz_of 3), Held)]) =
     [(Dot 7 (nz_of 2), Held), (Dot 7 (nz_of 3), Held)]"
  by (rule bt_entries_collect) (simp add: less_dot_iff dot_seq_def)

lemma sample_r1:
  "r1_deletions (sort_key store_seq sample_snapshots)
     (bt_collect [(Dot 7 (nz_of 2), Held), (Dot 7 (nz_of 3), Held)]) = [Dot 7 (nz_of 2)]"
  by (simp add: sample_sort r1_deletions_def sample_entries snap_eval cover_authors_def
      bs_collect_def bs_extend_def bs_insert_def bt_eval)


lemma sample_r3:
  assumes "\<And>d. bs_contains B d \<longleftrightarrow> d = Dot 7 (nz_of 2)"
  shows "r3_drops (sort_key store_seq sample_snapshots) B = [4]"
proof -
  have "B = bs_insert (Dot 7 (nz_of 2)) bt_empty" by (rule bs_ext) (simp add: assms)
  then have "bt_keys B = [Dot 7 (nz_of 2)]" by (simp add: bs_insert_def bt_eval)
  then show ?thesis
    by (simp add: r3_drops_def sample_sort count_covers_of_def snap_eval bt_eval count_cover_def
        saturating_add_def usize_max_def lowers_below_two_def uncount_covers_def uncount_cover_def)
qed

lemma sample_plan_eq: "plan_worker sample_snapshots sample_ops = Inr sample_plan"
proof -
  have "r3_drops (sort_key store_seq sample_snapshots)
      (bs_extend [Dot 7 (nz_of 2)] (bs_collect (map fst (filter (\<lambda>(_, b). b = Absent)
        [(Dot 7 (nz_of 2), Held), (Dot 7 (nz_of 3), Held)])))) = [4]"
    by (rule sample_r3) simp
  then show ?thesis
    by (simp add: plan_worker_def and_then_def sample_by_store_seq sample_index sample_entries sample_r1
        sample_plan_def)
qed

lemma sample_len: "length sample_snapshots \<le> usize_max"
  by (simp add: sample_snapshots_def usize_max_def)


section \<open>What the worker promises\<close>

text \<open>R1 deletes an op's body when, and only when, the older of the two newest retained
  snapshots covers it and snapshots by two different authors cover it; the dots come out
  strictly ascending.\<close>
theorem worker_deletes_exactly_r1:
  assumes "plan_worker snaps ops = Inr p"
  shows "(\<forall>d. d \<in> set (delete_bodies p) \<longleftrightarrow>
      \<lparr> op_dot_dot = d, op_dot_body = Held \<rparr> \<in> set ops \<and> r1_rule snaps d) \<and>
    sorted_wrt (<) (delete_bodies p)"
proof -
  let ?m = "bt_collect (map (\<lambda>op. (op_dot_dot op, op_dot_body op)) ops)"
  have o: "distinct (map op_dot_dot ops)"
    and p: "delete_bodies p = r1_deletions (sort_key store_seq snaps) ?m"
    using assms
    by (auto simp: plan_worker_def and_then_def by_store_seq_Inr index_ops_Inr Let_def split: sum.splits)
  show ?thesis
    by (simp add: p r1_deletions_set index_ops_get [OF o] r1_deletions_sorted)
qed

theorem worker_deletes_exactly_r1_witness:
  "plan_worker sample_snapshots sample_ops = Inr sample_plan \<and>
   (Dot 7 (nz_of 2) \<in> set (delete_bodies sample_plan) \<longleftrightarrow>
     \<lparr> op_dot_dot = Dot 7 (nz_of 2), op_dot_body = Held \<rparr> \<in> set sample_ops \<and>
     r1_rule sample_snapshots (Dot 7 (nz_of 2)))"
  using worker_deletes_exactly_r1 [OF sample_plan_eq] sample_plan_eq by blast

text \<open>C35: applying a plan never costs a bodiless header its covers. Every header without a body
  after the run keeps covers by as many authors as before, counted up to two; a body the run
  deletes keeps covers by two authors.\<close>
theorem worker_keeps_two_authors:
  assumes "plan_worker snaps ops = Inr p" and "length snaps \<le> usize_max"
    and "d \<in> bodiless_after ops p"
  shows "min 2 (card (authors_of (kept_snapshots snaps p) d)) = min 2 (card (authors_of snaps d)) \<and>
    (d \<in> set (delete_bodies p) \<longrightarrow> 2 \<le> card (authors_of (kept_snapshots snaps p) d))"
proof -
  have "d \<in> set (delete_bodies p) \<Longrightarrow> 2 \<le> card (authors_of snaps d)"
    using plan_worker_Inr(3) [OF assms(1,2)] by (simp add: r1_rule_def)
  then show ?thesis using kept_authors_card [OF assms] by auto
qed

theorem worker_keeps_two_authors_witness:
  "Dot 7 (nz_of 2) \<in> bodiless_after sample_ops sample_plan \<and>
   2 \<le> card (authors_of (kept_snapshots sample_snapshots sample_plan) (Dot 7 (nz_of 2)))"
proof -
  have "Dot 7 (nz_of 2) \<in> bodiless_after sample_ops sample_plan" "Dot 7 (nz_of 2) \<in> set (delete_bodies sample_plan)"
    by (simp_all add: bodiless_after_def sample_plan_def)
  with worker_keeps_two_authors [OF sample_plan_eq sample_len] show ?thesis by blast
qed

text \<open>C36: the single pass of R3 drops exactly the snapshots the rule's loop drops, which
  restarts from the oldest snapshot after each drop and never looks at the two newest.\<close>
theorem worker_r3_refines_rule:
  assumes "plan_worker snaps ops = Inr p" and "length snaps \<le> usize_max"
  shows "sort_key store_seq (kept_snapshots snaps p) =
    r3_literal (bodiless_after ops p) (sort_key store_seq snaps)"
  by (rule plan_worker_Inr(4) [OF assms])

theorem worker_r3_refines_rule_witness:
  "sort_key store_seq (kept_snapshots sample_snapshots sample_plan) =
     r3_literal (bodiless_after sample_ops sample_plan) (sort_key store_seq sample_snapshots)"
  by (rule worker_r3_refines_rule [OF sample_plan_eq sample_len])

text \<open>the result of a run is a fixed point: running the worker again on the kept snapshots
  and the ops with the deleted bodies marked absent plans nothing.\<close>
theorem worker_idempotent:
  assumes "plan_worker snaps ops = Inr p" and "length snaps \<le> usize_max"
  shows "\<exists>p'. plan_worker (kept_snapshots snaps p) (apply_deletions ops p) = Inr p' \<and> plan_is_empty p'"
proof -
  let ?K = "kept_snapshots snaps p" and ?ops = "apply_deletions ops p"
  note first = plan_worker_Inr [OF assms]
  have dots: "map op_dot_dot ?ops = map op_dot_dot ops"
    by (simp add: apply_deletions_def comp_def)
  have "distinct (map store_seq ?K)"
    using first(1) by (simp add: kept_snapshots_def distinct_map_filter)
  then obtain p' where p': "plan_worker ?K ?ops = Inr p'"
    using first(2) dots
    by (auto simp: plan_worker_def and_then_def Let_def by_store_seq_Inr [THEN iffD2] index_ops_Inr [THEN iffD2])
  have len: "length ?K \<le> usize_max"
    using assms(2) by (auto simp: kept_snapshots_def intro: order_trans [OF length_filter_le])
  note again = plan_worker_Inr [OF p' len]
  have weaker: "r1_rule ?K d \<Longrightarrow> r1_rule snaps d" for d
    using second_newest_kept [OF assms] card_mono [OF _ kept_authors_sub, of snaps d p]
    by (auto simp: r1_rule_def)
  have still: "\<lparr> op_dot_dot = d, op_dot_body = Held \<rparr> \<in> set ?ops \<longleftrightarrow>
      \<lparr> op_dot_dot = d, op_dot_body = Held \<rparr> \<in> set ops \<and> d \<notin> set (delete_bodies p)" for d
    by (auto simp: apply_deletions_def op_dot_mem split: if_splits)
  have "set (delete_bodies p') = {}"
    using again(3) first(3) weaker still by auto
  then have del: "delete_bodies p' = []" by simp
  have "bodiless_after ?ops p' = bodiless_after ops p"
    by (rule bodiless_after_apply) (auto simp: del first(3) op_dot_mem)
  then have "sort_key store_seq (kept_snapshots ?K p') = sort_key store_seq ?K"
    by (simp add: again(4) first(4) r3_literal_fixpoint)
  then have "length (kept_snapshots ?K p') = length ?K" by (metis length_sort)
  then have "\<forall>s \<in> set ?K. store_seq s \<notin> set (drop_snapshots p')"
    by (metis filter_id_conv kept_snapshots_def length_filter_less not_less_iff_gr_or_eq)
  with again(5) have "q \<notin> set (drop_snapshots p')" for q by (auto simp: subset_iff image_iff)
  then have "drop_snapshots p' = []" by (cases "drop_snapshots p'") auto
  with del p' show ?thesis by (auto simp: plan_is_empty_def)
qed

theorem worker_idempotent_witness:
  "\<exists>p'. plan_worker (kept_snapshots sample_snapshots sample_plan) (apply_deletions sample_ops sample_plan) =
     Inr p' \<and> plan_is_empty p'"
  by (rule worker_idempotent [OF sample_plan_eq sample_len])


text \<open>a response's covers. Each bodiless header gets, from the selected snapshots alone,
  covers by as many authors as the retained snapshots have, counted up to two; the headers
  reported uncovered are exactly those no retained snapshot covers; the selection is newest
  first.\<close>
theorem select_covers_two_authors:
  assumes "select_covers snaps bodiless = Inr sel"
  shows "(\<forall>d. d \<in> set bodiless \<longrightarrow>
      min 2 (card (authors_of (filter (\<lambda>s. store_seq s \<in> set (covers sel)) snaps) d)) =
      min 2 (card (authors_of snaps d))) \<and>
    set (uncovered sel) = {d \<in> set bodiless. authors_of snaps d = {}} \<and>
    sorted_wrt (<) (uncovered sel) \<and> sorted_wrt (>) (covers sel)"
proof -
  let ?K = "sort_key store_seq snaps" and ?H = "bt_keys (bs_collect bodiless)"
  obtain chosen final where sel: "select_from ?H (rev ?K) bt_empty = (chosen, final)"
    by (cases "select_from ?H (rev ?K) bt_empty")
  have dist: "distinct (map store_seq snaps)"
    and out: "covers sel = chosen" "uncovered sel = filter (\<lambda>d. \<not> bt_contains_key final d) ?H"
    using assms sel
    by (auto simp: select_covers_def and_then_def by_store_seq_Inr Let_def split: sum.splits prod.splits)
  have H: "set ?H = set bodiless" by (rule bs_keys_collect)
  have "cover_map_of ?H [] bt_empty" by (simp add: cover_map_of_def authors_of_def)
  from select_from_spec [OF sel bt_keys_distinct this, of "[]"] obtain S where
    S: "chosen = map store_seq S" "subseq S (rev ?K)" "cover_map_of ?H S final"
    "\<forall>d \<in> set ?H. min 2 (card (authors_of S d)) = min 2 (card (authors_of (rev ?K) d))"
    by auto
  have revK: "authors_of (rev ?K) d = authors_of snaps d" for d by (simp add: authors_of_def)
  have "x \<in> set (rev ?K)" if "x \<in> set S" for x
    using list_emb_set [OF S(2) that] by blast
  then have "set S \<subseteq> set snaps" by auto
  then have "set (filter (\<lambda>s. store_seq s \<in> store_seq ` set S) snaps) = set S"
    using dist unfolding distinct_map by (auto dest: inj_onD)
  then have same: "authors_of (filter (\<lambda>s. store_seq s \<in> set (covers sel)) snaps) d = authors_of S d" for d
    by (simp add: authors_of_def out S(1))
  have none: "authors_of S d = {} \<longleftrightarrow> authors_of snaps d = {}" if "d \<in> set ?H" for d
  proof -
    have "min 2 (card (authors_of X d)) = 0 \<longleftrightarrow> authors_of X d = {}" for X
      by (auto simp: min_def)
    then show ?thesis using S(4) that revK by metis
  qed
  have "sorted_wrt (<) (map store_seq ?K)"
    using dist by (metis distinct_sort mset_eq_imp_distinct_iff mset_map mset_sort sorted_sort_key strict_sorted_iff)
  then have "sorted_wrt (>) (map store_seq (rev ?K))" by (simp add: sorted_wrt_rev rev_map [symmetric])
  then have "sorted_wrt (>) (covers sel)"
    using S(1,2) by (metis out(1) sorted_wrt_subseq subseq_map)
  moreover have "set (uncovered sel) = {d \<in> set bodiless. authors_of snaps d = {}}"
    using S(3) none by (auto simp: out H cover_map_of_def simp del: bt_keys_iff)
  moreover have "sorted_wrt (<) (uncovered sel)"
    by (simp add: out sorted_wrt_filter)
  ultimately show ?thesis
    using S(4) revK same by (auto simp del: bt_keys_iff simp: H)
qed


theorem select_covers_two_authors_witness:
  "(let sel = \<lparr> covers = [6, 5], uncovered = [Dot 8 (nz_of 2)] \<rparr>;
        bodiless = [Dot 8 (nz_of 2), Dot 7 (nz_of 2)] in
    select_covers sample_snapshots bodiless = Inr sel \<and>
    set (uncovered sel) = {d \<in> set bodiless. authors_of sample_snapshots d = {}})"
proof -
  have keys: "bt_keys (bs_collect [Dot 8 (nz_of 2), Dot 7 (nz_of 2)]) = [Dot 7 (nz_of 2), Dot 8 (nz_of 2)]"
    by (simp add: bs_collect_def bs_extend_def bs_insert_def bt_eval less_dot_iff nz_eq_iff)
  have "select_covers sample_snapshots [Dot 8 (nz_of 2), Dot 7 (nz_of 2)] =
      Inr \<lparr> covers = [6, 5], uncovered = [Dot 8 (nz_of 2)] \<rparr>"
    by (simp add: select_covers_def and_then_def sample_by_store_seq sample_sort keys Let_def snap_eval
        bt_eval bs_insert_def bs_contains_def del: bt_keys_def)
  from this select_covers_two_authors [OF this] show ?thesis by (simp add: Let_def)
qed

lemma first_unheld_None:
  "first_unheld vc es = None \<longleftrightarrow>
     (\<forall>e \<in> set es. (case bt_get (cutoffs vc) (dot_device e) of
        None \<Rightarrow> dot_seq e | Some cutoff \<Rightarrow> min (dot_seq e) cutoff) \<le> vv_get (heads vc) (dot_device e))"
  by (induction es) (auto simp: Let_def not_less)

lemma entries_all: "(\<forall>e \<in> set (vv_entries v). P (dot_device e) (dot_seq e)) \<longleftrightarrow>
    (\<forall>d. vv_get v d \<noteq> 0 \<longrightarrow> P d (vv_get v d))"
proof -
  have "\<exists>e. dot_device e = d \<and> dot_seq e = q" if "q \<noteq> 0" for d q
    using that by (metis dot.sel(1,2) dot_seq_def nz_get_of)
  moreover have "dot_seq e \<noteq> 0" for e using dot_seq_pos [of e] by (simp del: dot_seq_pos)
  ultimately show ?thesis by (metis vv_entries_iff)
qed

lemma clamp_get: "vv_get (clamp covered hs) d = min (vv_get covered d) (vv_get hs d)"
  by (simp add: clamp_def vv_get_meet)

text \<open>C37: the server accepts a snapshot exactly when its author is neither revoked nor expired
  and the clamp takes nothing from it that counts: entries of devices in good standing survive
  the clamp unchanged, and those of revoked devices at least up to their cut-off.\<close>
theorem check_snapshot_accepts_iff:
  "check_snapshot a covered vc expiry = Inr () \<longleftrightarrow>
     bt_get (cutoffs vc) a = None \<and> expiry = Unexpired \<and>
     (\<forall>d. case bt_get (cutoffs vc) d of
         None \<Rightarrow> vv_get (clamp covered (heads vc)) d = vv_get covered d
       | Some cutoff \<Rightarrow> min (vv_get covered d) cutoff \<le> vv_get (clamp covered (heads vc)) d)"
proof -
  have "first_unheld vc (vv_entries covered) = None \<longleftrightarrow>
      (\<forall>d. (case bt_get (cutoffs vc) d of None \<Rightarrow> vv_get covered d
         | Some cutoff \<Rightarrow> min (vv_get covered d) cutoff) \<le> vv_get (heads vc) d)"
  proof -
    have zero: "(case c of None \<Rightarrow> 0 | Some cutoff \<Rightarrow> min 0 cutoff) \<le> h" for c :: "u64 option" and h :: u64
      by (cases c) simp_all
    show ?thesis
      unfolding first_unheld_None
      by (subst entries_all [where P = "\<lambda>d q. (case bt_get (cutoffs vc) d of
           None \<Rightarrow> q | Some cutoff \<Rightarrow> min q cutoff) \<le> vv_get (heads vc) d"])
        (metis zero)
  qed
  moreover have "(case c of None \<Rightarrow> x | Some cutoff \<Rightarrow> min x cutoff) \<le> h \<longleftrightarrow>
      (case c of None \<Rightarrow> min x h = x | Some cutoff \<Rightarrow> min x cutoff \<le> min x h)" for c :: "u64 option" and x h :: u64
    by (auto simp: min_def split: option.splits)
  ultimately have "first_unheld vc (vv_entries covered) = None \<longleftrightarrow>
      (\<forall>d. case bt_get (cutoffs vc) d of
         None \<Rightarrow> vv_get (clamp covered (heads vc)) d = vv_get covered d
       | Some cutoff \<Rightarrow> min (vv_get covered d) cutoff \<le> vv_get (clamp covered (heads vc)) d)" (is "_ \<longleftrightarrow> ?all")
    unfolding clamp_get by simp
  moreover have "bt_get (cutoffs vc) a = None \<Longrightarrow> ?all \<Longrightarrow> vv_get covered a \<le> vv_get (heads vc) a"
    by (drule spec [of _ a]) (simp add: clamp_get min_def split: if_splits)
  moreover have "check_snapshot a covered vc expiry = Inr () \<longleftrightarrow>
      bt_get (cutoffs vc) a = None \<and> expiry = Unexpired \<and> vv_get covered a \<le> vv_get (heads vc) a \<and>
      first_unheld vc (vv_entries covered) = None"
    by (cases expiry) (auto simp: check_snapshot_def not_less split: option.splits)
  ultimately show ?thesis by argo
qed

text \<open>a stored snapshot never covers an op the server does not hold at that moment,
  whatever its covered vector claims.\<close>
theorem clamp_covers_only_held:
  "snap_covers \<lparr> store_seq = q, clamped = clamp covered hs, author = a \<rparr> d \<longleftrightarrow>
     vv_covers covered d \<and> vv_covers hs d"
  by (simp add: snap_covers_def clamp_def)

lemma iter_min_None [simp]: "iter_min xs = None \<longleftrightarrow> xs = []"
  by (cases xs) auto

lemma iter_min_Some: "xs \<noteq> [] \<Longrightarrow> iter_min xs = Some (Min (set xs))"
  by (cases xs) (auto simp: Min.set_eq_fold [symmetric])

text \<open>a healing request is refused exactly when one of the headers it stores without a body
  has no cover among the item's snapshots, and the refusal names the lowest such header.\<close>
theorem healing_request_refusal:
  "check_healing_request snaps ds =
     (if {d \<in> set ds. authors_of snaps d = {}} = {} then Inr ()
      else Inl (UncoveredHeader (Min {d \<in> set ds. authors_of snaps d = {}})))"
proof -
  have "\<not> list_ex (\<lambda>s. snap_covers s d) snaps \<longleftrightarrow> authors_of snaps d = {}" for d
    by (auto simp: list_ex_iff authors_of_def)
  then have set: "set (filter (\<lambda>d. \<not> list_ex (\<lambda>s. snap_covers s d) snaps) ds) = {d \<in> set ds. authors_of snaps d = {}}"
    by auto
  show ?thesis
  proof (cases "filter (\<lambda>d. \<not> list_ex (\<lambda>s. snap_covers s d) snaps) ds = []")
    case True
    with set show ?thesis by (simp add: check_healing_request_def)
  next
    case False
    then have "{d \<in> set ds. authors_of snaps d = {}} \<noteq> {}" using set by (metis set_empty)
    then show ?thesis
      by (simp only: check_healing_request_def iter_min_Some [OF False] set option.case if_False)
  qed
qed

text \<open>the worker refuses its input exactly when two snapshots share a store sequence or a
  dot is given twice.\<close>
theorem worker_accepts_iff_distinct:
  "(\<exists>p. plan_worker snaps ops = Inr p) \<longleftrightarrow>
     distinct (map store_seq snaps) \<and> distinct (map op_dot_dot ops)"
proof -
  have "(\<exists>p. plan_worker snaps ops = Inr p) \<longleftrightarrow>
      (\<exists>K. by_store_seq snaps = Inr K) \<and> (\<exists>m. index_ops ops = Inr m)"
    by (auto simp: plan_worker_def and_then_def Let_def split: sum.splits)
  then show ?thesis by (simp add: by_store_seq_Inr index_ops_Inr)
qed

end
