(* ===== verification/Cursor.thy ===== *)
theory Cursor
  imports Version_Vectors
begin

text \<open>
  The bounded reader that knows its byte offset, \<open>crates/rizzy-sync/src/cursor.rs\<close>, shared by
  the header parser and the record parser. Every codec of a reader is a codec of the cursor
  (\<open>cur_lift_codec\<close>), so the fields of the parsers inherit their round trips from the readers.
\<close>

record cursor =
  cur_reader :: reader
  cur_len :: usize

definition cursor_new :: "bytes \<Rightarrow> cursor" where
  "cursor_new input = \<lparr> cur_reader = reader_new input, cur_len = length input \<rparr>"

definition cursor_offset :: "cursor \<Rightarrow> usize" where
  "cursor_offset c = cur_len c - reader_remaining (cur_reader c)"

definition cursor_remaining :: "cursor \<Rightarrow> usize" where
  "cursor_remaining c = reader_remaining (cur_reader c)"

definition cursor_truncated :: "cursor \<Rightarrow> decode_error" where
  "cursor_truncated c = decode_error_new Truncated (cursor_offset c)"

text \<open>A read of the inner reader, with the error computed from the cursor before it.\<close>

definition cur_lift ::
  "(cursor \<Rightarrow> 'e \<Rightarrow> decode_error) \<Rightarrow> (reader, 'e, 'a) reads \<Rightarrow> (cursor, decode_error, 'a) reads" where
  "cur_lift err p c =
     (case p (cur_reader c) of
        Inl e \<Rightarrow> Inl (err c e)
      | Inr (x, r) \<Rightarrow> Inr (x, c\<lparr>cur_reader := r\<rparr>))"

definition cursor_u8 :: "(cursor, decode_error, u8) reads" where
  "cursor_u8 = cur_lift (\<lambda>c _. cursor_truncated c) reader_u8"

definition cursor_u16 :: "(cursor, decode_error, u16) reads" where
  "cursor_u16 = cur_lift (\<lambda>c _. cursor_truncated c) reader_u16"

definition cursor_u32 :: "(cursor, decode_error, u32) reads" where
  "cursor_u32 = cur_lift (\<lambda>c _. cursor_truncated c) reader_u32"

definition cursor_u64 :: "(cursor, decode_error, u64) reads" where
  "cursor_u64 = cur_lift (\<lambda>c _. cursor_truncated c) reader_u64"

definition cursor_array :: "usize \<Rightarrow> (cursor, decode_error, bytes) reads" where
  "cursor_array n = cur_lift (\<lambda>c _. cursor_truncated c) (reader_array n)"

definition cursor_take :: "usize \<Rightarrow> (cursor, decode_error, bytes) reads" where
  "cursor_take n = cur_lift (\<lambda>c _. cursor_truncated c) (reader_take n)"

definition cursor_dot :: "(cursor, decode_error, dot) reads" where
  "cursor_dot = cur_lift (\<lambda>c e. decode_error_shifted (cursor_offset c) e) dot_read"

definition cursor_hlc :: "(cursor, decode_error, hlc) reads" where
  "cursor_hlc = cur_lift (\<lambda>c e. decode_error_shifted (cursor_offset c) e) hlc_read"

definition cursor_vv :: "(cursor, decode_error, version_vector) reads" where
  "cursor_vv = cur_lift (\<lambda>c e. decode_error_shifted (cursor_offset c) e) vv_read"

definition cursor_finish :: "(cursor, decode_error, unit) reads" where
  "cursor_finish c =
     (if reader_is_empty (cur_reader c) then Inr ((), c)
      else Inl (decode_error_new TrailingBytes (cursor_offset c)))"

section \<open>Cursor codecs\<close>

abbreviation cur_input :: "cursor \<Rightarrow> bytes" where
  "cur_input c \<equiv> rd_input (cur_reader c)"

definition cur_set :: "bytes \<Rightarrow> cursor \<Rightarrow> cursor" where
  "cur_set bs c = c\<lparr>cur_reader := set_input bs (cur_reader c)\<rparr>"

lemma cur_input_set [simp]: "cur_input (cur_set bs c) = bs"
  by (simp add: cur_set_def)

lemma cur_set_set [simp]: "cur_set bs (cur_set bs' c) = cur_set bs c"
  by (simp add: cur_set_def)

lemma cur_set_input [simp]: "cur_set (cur_input c) c = c"
  by (simp add: cur_set_def)

lemma cur_lift_codec:
  assumes "codec rd_input set_input ok enc p"
  shows "codec cur_input cur_set ok enc (cur_lift err p)"
proof -
  note c = codec.dec_enc [OF assms] codec.enc_dec [OF assms]
  show ?thesis
  proof (unfold_locales, simp)
    fix x s rest
    assume "ok x" "cur_input s = enc x @ rest"
    then show "cur_lift err p s = Inr (x, cur_set rest s)"
      by (simp add: cur_lift_def c(1) cur_set_def)
  next
    fix s x s'
    assume "cur_lift err p s = Inr (x, s')"
    then obtain r where "p (cur_reader s) = Inr (x, r)" "s' = s\<lparr>cur_reader := r\<rparr>"
      by (auto simp: cur_lift_def split: sum.splits)
    with c(2) show "ok x \<and> cur_input s = enc x @ cur_input s' \<and> s' = cur_set (cur_input s') s"
      by (force simp: cur_set_def)
  qed
qed

lemma array_codec: "codec rd_input set_input (\<lambda>bs. length bs = n) (\<lambda>bs. bs) (reader_array n)"
  by unfold_locales (auto simp: reader_array_Inr)

interpretation cur_u8: codec cur_input cur_set "\<lambda>_. True" "\<lambda>b. [b]" cursor_u8
  unfolding cursor_u8_def by (rule cur_lift_codec) (rule u8_codec.codec_axioms)

interpretation cur_u16: codec cur_input cur_set "\<lambda>_. True" u16_bytes cursor_u16
  unfolding cursor_u16_def by (rule cur_lift_codec) (rule u16_codec.codec_axioms)

interpretation cur_u32: codec cur_input cur_set "\<lambda>_. True" u32_bytes cursor_u32
  unfolding cursor_u32_def by (rule cur_lift_codec) (rule u32_codec.codec_axioms)

interpretation cur_u64: codec cur_input cur_set "\<lambda>_. True" u64_bytes cursor_u64
  unfolding cursor_u64_def by (rule cur_lift_codec) (rule u64_codec.codec_axioms)

interpretation cur_array: codec cur_input cur_set "\<lambda>bs. length bs = n" "\<lambda>bs. bs" "cursor_array n" for n
  unfolding cursor_array_def by (rule cur_lift_codec) (rule array_codec)

interpretation cur_take: codec cur_input cur_set "\<lambda>bs. length bs = n" "\<lambda>bs. bs" "cursor_take n" for n
  unfolding cursor_take_def reader_take_eq_array by (rule cur_lift_codec) (rule array_codec)

interpretation cur_dot: codec cur_input cur_set "\<lambda>_. True" dot_bytes cursor_dot
  unfolding cursor_dot_def by (rule cur_lift_codec) (rule dot_codec.codec_axioms)

interpretation cur_hlc: codec cur_input cur_set "\<lambda>_. True" u64_bytes cursor_hlc
  unfolding cursor_hlc_def by (rule cur_lift_codec) (rule hlc_codec.codec_axioms)

interpretation cur_vv: codec cur_input cur_set "\<lambda>v. vv_len v \<le> VV_MAX_ENTRIES" vv_bytes cursor_vv
  unfolding cursor_vv_def by (rule cur_lift_codec) (rule vv_codec.codec_axioms)

end
