(* ===== verification/Field_Keys.thy ===== *)
theory Field_Keys
  imports Encoding
begin

text \<open>
  Field keys, \<open>crates/rizzy-core/src/item/key.rs\<close>: the key grammar, its parser, the part
  accessors and the element-key builder with its branch-free hex arithmetic. \<open>fixed_grammar\<close> and
  \<open>element_grammar\<close> transcribe the productions of the module's grammar; the parser accepts
  exactly them within the length limit.
\<close>

unbundle bit_operations_syntax

definition MAX_KEY_LEN :: usize where "MAX_KEY_LEN = 160"
definition MAX_NAME_LEN :: usize where "MAX_NAME_LEN = 32"
definition MAX_ELEMENT_LEN :: usize where "MAX_ELEMENT_LEN = 64"

datatype key_error = KeyErrLength | KeyErrName | KeyErrElement | KeyErrShape

datatype key_kind = FixedKey | ElementKey

datatype layout = FixedLayout | ElementLayout (list_end: usize) (element_end: usize)

record field_key_ref =
  fk_text :: bytes
  fk_layout :: layout

section \<open>Branch-free hex\<close>

text \<open>\<open>i32\<close> is a 32-bit word; \<open>>>\<close> on it is the signed shift.\<close>

definition in_range :: "u8 \<Rightarrow> u8 \<Rightarrow> u8 \<Rightarrow> u32" where
  "in_range b lo hi =
     (let below = (ucast b :: u32) - ucast lo;
          above = (ucast hi :: u32) - ucast b
      in 1 XOR drop_bit 31 (below OR above))"

definition is_lower_hex :: "u8 \<Rightarrow> u32" where
  "is_lower_hex b = in_range b 0x30 0x39 OR in_range b 0x61 0x66"

definition hex_digit :: "u8 \<Rightarrow> u8" where
  "hex_digit nibble =
     (let n = (ucast (nibble AND 0x0F) :: u32);
          letter = signed_drop_bit 31 (9 - n)
      in ucast (0x30 + n + (letter AND 0x27)))"

definition hex_value :: "u8 \<Rightarrow> u8" where
  "hex_value digit =
     (let d = (ucast digit :: u32);
          letter = signed_drop_bit 31 (0x39 - d)
      in ucast (d - 0x30 - (letter AND 0x27)) AND 0x0F)"

section \<open>The parser\<close>

definition is_ascii_lowercase :: "u8 \<Rightarrow> bool" where
  "is_ascii_lowercase b \<longleftrightarrow> 0x61 \<le> b \<and> b \<le> 0x7A"

definition is_ascii_digit :: "u8 \<Rightarrow> bool" where
  "is_ascii_digit b \<longleftrightarrow> 0x30 \<le> b \<and> b \<le> 0x39"

definition is_name :: "bytes \<Rightarrow> bool" where
  "is_name part =
     (case part of
        [] \<Rightarrow> False
      | first # rest \<Rightarrow>
          length part \<le> MAX_NAME_LEN \<and> is_ascii_lowercase first \<and>
          list_all (\<lambda>b. is_ascii_lowercase b \<or> is_ascii_digit b \<or> b = 0x5F) rest)"

definition is_element :: "bytes \<Rightarrow> bool" where
  "is_element part =
     (if part = [] \<or> length part > 2 * MAX_ELEMENT_LEN \<or> odd (length part) then False
      else fold (\<lambda>b acc. acc OR (1 XOR is_lower_hex b)) part 0 = 0)"

definition parse_fixed :: "bytes \<Rightarrow> key_error + layout" where
  "parse_fixed bs =
     (let parts = split_on (\<lambda>b. b = 0x2E) bs
      in if \<not> list_all is_name parts then Inl KeyErrName
         else if length parts < 2 then Inl KeyErrShape
         else Inr FixedLayout)"

definition parse_element :: "bytes \<Rightarrow> usize \<Rightarrow> key_error + layout" where
  "parse_element bs list_end' =
     (let list = take list_end' bs;
          after = drop (list_end' + 1) bs;
          (elem, attribute) = (case position (\<lambda>b. b = 0x2F) after of
              Some i \<Rightarrow> (take i after, Some (drop (i + 1) after))
            | None \<Rightarrow> (after, None));
          found = Inr (ElementLayout list_end' (list_end' + 1 + length elem))
      in if \<not> is_name list then Inl KeyErrName
         else if \<not> is_element elem then Inl KeyErrElement
         else case attribute of
                None \<Rightarrow> found
              | Some a \<Rightarrow>
                  if 0x2F \<in> set a then Inl KeyErrShape
                  else if \<not> is_name a then Inl KeyErrName
                  else found)"

definition field_key_parse :: "bytes \<Rightarrow> key_error + field_key_ref" where
  "field_key_parse bs =
     (if bs = [] \<or> length bs > MAX_KEY_LEN then Inl KeyErrLength
      else
        and_then (case position (\<lambda>b. b = 0x2F) bs of
            Some i \<Rightarrow> parse_element bs i
          | None \<Rightarrow> parse_fixed bs) (\<lambda>layout.
        if is_utf8 bs then Inr \<lparr> fk_text = bs, fk_layout = layout \<rparr> else Inl KeyErrName))"

section \<open>The parts of a key\<close>

definition fk_kind :: "field_key_ref \<Rightarrow> key_kind" where
  "fk_kind k = (case fk_layout k of FixedLayout \<Rightarrow> FixedKey | ElementLayout _ _ \<Rightarrow> ElementKey)"

definition fk_namespace :: "field_key_ref \<Rightarrow> bytes" where
  "fk_namespace k =
     (case fk_layout k of
        FixedLayout \<Rightarrow> hd (split_on (\<lambda>b. b = 0x2E) (fk_text k))
      | ElementLayout le _ \<Rightarrow> take le (fk_text k))"

definition fk_fixed_names :: "field_key_ref \<Rightarrow> bytes list option" where
  "fk_fixed_names k =
     (case fk_layout k of
        FixedLayout \<Rightarrow> Some (split_on (\<lambda>b. b = 0x2E) (fk_text k))
      | ElementLayout _ _ \<Rightarrow> None)"

definition fk_list :: "field_key_ref \<Rightarrow> bytes option" where
  "fk_list k =
     (case fk_layout k of
        FixedLayout \<Rightarrow> None
      | ElementLayout le _ \<Rightarrow> Some (take le (fk_text k)))"

definition fk_element :: "field_key_ref \<Rightarrow> bytes option" where
  "fk_element k =
     (case fk_layout k of
        FixedLayout \<Rightarrow> None
      | ElementLayout le ee \<Rightarrow> Some (take (ee - (le + 1)) (drop (le + 1) (fk_text k))))"

fun unhex :: "bytes \<Rightarrow> bytes" where
  "unhex (high # low # rest) = (push_bit 4 (hex_value high) OR hex_value low) # unhex rest"
| "unhex _ = []"

definition fk_element_bytes :: "field_key_ref \<Rightarrow> bytes option" where
  "fk_element_bytes k = map_option unhex (fk_element k)"

definition fk_attribute :: "field_key_ref \<Rightarrow> bytes option" where
  "fk_attribute k =
     (case fk_layout k of
        FixedLayout \<Rightarrow> None
      | ElementLayout _ ee \<Rightarrow>
          (case drop ee (fk_text k) of [] \<Rightarrow> None | _ # rest \<Rightarrow> Some rest))"

section \<open>Building an element key\<close>

definition to_hex :: "bytes \<Rightarrow> bytes" where
  "to_hex = concat \<circ> map (\<lambda>b. [hex_digit (drop_bit 4 b), hex_digit (b AND 0x0F)])"

definition field_key_element :: "bytes \<Rightarrow> bytes \<Rightarrow> bytes option \<Rightarrow> key_error + field_key_ref" where
  "field_key_element list element attribute =
     and_then
       (ok_or KeyErrLength
         (Option.bind (checked_mul (length element) 2) (\<lambda>hex.
          Option.bind (checked_add hex (length list)) (\<lambda>n.
          Option.bind (checked_add n 1) (\<lambda>n.
          checked_add n (case attribute of None \<Rightarrow> 0 | Some a \<Rightarrow> saturating_add (length a) 1))))))
       (\<lambda>len.
        if len > MAX_KEY_LEN then Inl KeyErrLength
        else
          let text = list @ [0x2F] @ to_hex element @
                (case attribute of None \<Rightarrow> [] | Some a \<Rightarrow> 0x2F # a)
          in and_then (field_key_parse text) (\<lambda>k. Inr \<lparr> fk_text = text, fk_layout = fk_layout k \<rparr>))"


section \<open>The branch-free routines\<close>

definition hexlc :: "u8 \<Rightarrow> bool" where
  "hexlc b \<longleftrightarrow> is_ascii_digit b \<or> 0x61 \<le> b \<and> b \<le> 0x66"

lemma is_lower_hex_eq: "is_lower_hex b = of_bool (hexlc b)"
proof -
  have "\<forall>b. is_lower_hex b = of_bool (hexlc b)"
    unfolding byte_all by code_simp
  then show ?thesis ..
qed

lemma hex_pair: "push_bit 4 (hex_value (hex_digit (drop_bit 4 b))) OR hex_value (hex_digit (b AND 0x0F)) = b"
proof -
  have "\<forall>b. push_bit 4 (hex_value (hex_digit (drop_bit 4 b))) OR hex_value (hex_digit (b AND 0x0F)) = b"
    unfolding byte_all by code_simp
  then show ?thesis ..
qed

lemma hexlc_digit: "hexlc (hex_digit b)"
proof -
  have "\<forall>b. hexlc (hex_digit b)"
    unfolding byte_all by code_simp
  then show ?thesis ..
qed

lemma fold_or_zero: "fold (\<lambda>b acc. acc OR f b) xs (a :: u32) = 0 \<longleftrightarrow> a = 0 \<and> (\<forall>b \<in> set xs. f b = 0)"
  by (induction xs arbitrary: a) (auto simp: or_eq_0_iff)

lemma is_element_iff:
  "is_element part \<longleftrightarrow> part \<noteq> [] \<and> length part \<le> 2 * MAX_ELEMENT_LEN \<and> even (length part) \<and> (\<forall>b \<in> set part. hexlc b)"
  by (auto simp: is_element_def fold_or_zero is_lower_hex_eq split: if_splits)

lemma to_hex_simps [simp]:
  "to_hex [] = []"
  "to_hex (b # bs) = hex_digit (drop_bit 4 b) # hex_digit (b AND 0x0F) # to_hex bs"
  by (simp_all add: to_hex_def)

lemma unhex_to_hex [simp]: "unhex (to_hex bs) = bs"
  by (induction bs) (simp_all add: hex_pair)

lemma length_to_hex [simp]: "length (to_hex bs) = 2 * length bs"
  by (induction bs) simp_all

lemma to_hex_hexlc: "b \<in> set (to_hex bs) \<Longrightarrow> hexlc b"
  by (induction bs) (auto simp: hexlc_digit)

section \<open>The grammar\<close>

definition fixed_grammar :: "bytes \<Rightarrow> bool" where
  "fixed_grammar bs \<longleftrightarrow>
     (\<exists>names. 2 \<le> length names \<and> (\<forall>n \<in> set names. is_name n) \<and> bs = join_with 0x2E names)"

definition element_text :: "bytes \<Rightarrow> bytes \<Rightarrow> bytes option \<Rightarrow> bytes" where
  "element_text l e a = l @ [0x2F] @ e @ (case a of None \<Rightarrow> [] | Some n \<Rightarrow> 0x2F # n)"

definition element_grammar :: "bytes \<Rightarrow> bool" where
  "element_grammar bs \<longleftrightarrow>
     (\<exists>l e a. is_name l \<and> is_element e \<and> pred_option is_name a \<and> bs = element_text l e a)"

definition name_byte :: "u8 \<Rightarrow> bool" where
  "name_byte b \<longleftrightarrow> is_ascii_lowercase b \<or> is_ascii_digit b \<or> b = 0x5F"

lemma name_byte_plain: "name_byte b \<Longrightarrow> b < 0x80 \<and> b \<noteq> 0x2E \<and> b \<noteq> 0x2F"
proof -
  have "\<forall>b. name_byte b \<longrightarrow> b < 0x80 \<and> b \<noteq> 0x2E \<and> b \<noteq> 0x2F"
    unfolding byte_all by code_simp
  then show "name_byte b \<Longrightarrow> b < 0x80 \<and> b \<noteq> 0x2E \<and> b \<noteq> 0x2F" by blast
qed

lemma hexlc_name_byte: "hexlc b \<Longrightarrow> name_byte b"
proof -
  have "\<forall>b. hexlc b \<longrightarrow> name_byte b"
    unfolding byte_all by code_simp
  then show "hexlc b \<Longrightarrow> name_byte b" by blast
qed

lemma is_name_bytes: "is_name n \<Longrightarrow> b \<in> set n \<Longrightarrow> name_byte b"
  by (auto simp: is_name_def name_byte_def list_all_iff split: list.splits)

lemma is_element_bytes: "is_element e \<Longrightarrow> b \<in> set e \<Longrightarrow> name_byte b"
  by (auto simp: is_element_iff intro: hexlc_name_byte)

lemma no_slash: "is_name n \<Longrightarrow> 0x2F \<notin> set n" "is_element e \<Longrightarrow> 0x2F \<notin> set e"
  using is_name_bytes is_element_bytes name_byte_plain by blast+

lemma parse_fixed_Inr:
  "parse_fixed bs = Inr lay \<longleftrightarrow> lay = FixedLayout \<and> fixed_grammar bs"
proof -
  have "fixed_grammar bs \<longleftrightarrow>
      list_all is_name (split_on (\<lambda>b. b = 0x2E) bs) \<and> 2 \<le> length (split_on (\<lambda>b. b = 0x2E) bs)"
  proof
    assume "fixed_grammar bs"
    then obtain names where n: "2 \<le> length names" "\<forall>n \<in> set names. is_name n" "bs = join_with 0x2E names"
      by (auto simp: fixed_grammar_def)
    then have "split_on (\<lambda>b. b = 0x2E) bs = names"
      using is_name_bytes name_byte_plain by (auto intro!: split_join)
    with n show "list_all is_name (split_on (\<lambda>b. b = 0x2E) bs) \<and> 2 \<le> length (split_on (\<lambda>b. b = 0x2E) bs)"
      by (simp add: list_all_iff)
  next
    assume "list_all is_name (split_on (\<lambda>b. b = 0x2E) bs) \<and> 2 \<le> length (split_on (\<lambda>b. b = 0x2E) bs)"
    then show "fixed_grammar bs"
      unfolding fixed_grammar_def
      by (intro exI [of _ "split_on (\<lambda>b. b = 0x2E) bs"]) (simp add: list_all_iff join_split)
  qed
  then show ?thesis by (auto simp: parse_fixed_def Let_def)
qed

lemma parse_element_text:
  assumes "0x2F \<notin> set l" "0x2F \<notin> set e"
  shows "parse_element (element_text l e a) (length l) =
    (if \<not> is_name l then Inl KeyErrName
     else if \<not> is_element e then Inl KeyErrElement
     else case a of
            None \<Rightarrow> Inr (ElementLayout (length l) (length l + 1 + length e))
          | Some n \<Rightarrow>
              if 0x2F \<in> set n then Inl KeyErrShape
              else if \<not> is_name n then Inl KeyErrName
              else Inr (ElementLayout (length l) (length l + 1 + length e)))"
proof (cases a)
  case None
  have "position (\<lambda>b. b = 0x2F) e = None" using assms(2) by (auto simp: position_None)
  with None show ?thesis by (simp add: parse_element_def element_text_def Let_def)
next
  case (Some n)
  have "position (\<lambda>b. b = 0x2F) (e @ 0x2F # n) = Some (length e)"
    using assms(2) by (intro position_append) auto
  with Some show ?thesis by (simp add: parse_element_def element_text_def Let_def)
qed

lemma split_at_position:
  "position (\<lambda>b. b = x) bs = Some i \<Longrightarrow> bs = take i bs @ x # drop (i + 1) bs \<and> x \<notin> set (take i bs) \<and> length (take i bs) = i"
  by (drule position_Some) (auto simp: id_take_nth_drop [symmetric])

lemma element_textE:
  assumes "position (\<lambda>b. b = 0x2F) bs = Some i"
  obtains l e a where "bs = element_text l e a" "0x2F \<notin> set l" "0x2F \<notin> set e" "i = length l"
proof -
  let ?l = "take i bs" and ?r = "drop (i + 1) bs"
  note l = split_at_position [OF assms]
  show ?thesis
  proof (cases "position (\<lambda>b. b = 0x2F) ?r")
    case None
    then have "0x2F \<notin> set ?r" by (auto simp: position_None)
    then show ?thesis using l by (intro that [of ?l ?r None]) (auto simp: element_text_def)
  next
    case (Some j)
    note r = split_at_position [OF Some]
    then have "bs = element_text ?l (take j ?r) (Some (drop (j + 1) ?r))"
      using l by (simp add: element_text_def)
    then show ?thesis using l r by (intro that [of ?l "take j ?r" "Some (drop (j + 1) ?r)"]) auto
  qed
qed


definition key_grammar :: "bytes \<Rightarrow> bool" where
  "key_grammar bs \<longleftrightarrow> bs \<noteq> [] \<and> length bs \<le> MAX_KEY_LEN \<and> (fixed_grammar bs \<or> element_grammar bs)"

lemma slash_free_join: "\<forall>n \<in> set names. is_name n \<Longrightarrow> 0x2F \<notin> set (join_with 0x2E names)"
  by (induction "0x2E :: u8" names rule: join_with.induct) (auto simp: no_slash)

lemma ascii_join: "\<forall>n \<in> set names. is_name n \<Longrightarrow> b \<in> set (join_with 0x2E names) \<Longrightarrow> b < 0x80"
  by (induction "0x2E :: u8" names rule: join_with.induct)
    (auto dest!: is_name_bytes name_byte_plain)

lemma fixed_no_slash: "fixed_grammar bs \<Longrightarrow> position (\<lambda>b. b = 0x2F) bs = None"
  using slash_free_join by (fastforce simp: fixed_grammar_def position_None)

lemma element_text_position: "0x2F \<notin> set l \<Longrightarrow> position (\<lambda>b. b = 0x2F) (element_text l e a) = Some (length l)"
  unfolding element_text_def append_Cons append_Nil by (rule position_append) auto

lemma grammar_utf8: "fixed_grammar bs \<or> element_grammar bs \<Longrightarrow> is_utf8 bs"
proof (rule is_utf8_ascii, elim disjE)
  assume "fixed_grammar bs"
  then show "\<forall>b \<in> set bs. b < 0x80" by (auto simp: fixed_grammar_def dest: ascii_join)
next
  assume "element_grammar bs"
  then show "\<forall>b \<in> set bs. b < 0x80"
    by (auto simp: element_grammar_def element_text_def split: option.splits
        dest!: is_name_bytes is_element_bytes name_byte_plain)
qed

lemma field_key_parse_element:
  assumes "is_name l" "is_element e" "pred_option is_name a" "length (element_text l e a) \<le> MAX_KEY_LEN"
  shows "field_key_parse (element_text l e a) =
    Inr \<lparr> fk_text = element_text l e a, fk_layout = ElementLayout (length l) (length l + 1 + length e) \<rparr>"
proof -
  have "element_grammar (element_text l e a)" using assms(1-3) by (auto simp: element_grammar_def)
  then have "is_utf8 (element_text l e a)" using grammar_utf8 by blast
  moreover have "element_text l e a \<noteq> []" by (simp add: element_text_def)
  ultimately show ?thesis
    using assms no_slash
    by (cases a) (simp_all add: field_key_parse_def element_text_position parse_element_text and_then_def)
qed

lemma field_key_parse_fixed:
  assumes "fixed_grammar bs" "bs \<noteq> []" "length bs \<le> MAX_KEY_LEN"
  shows "field_key_parse bs = Inr \<lparr> fk_text = bs, fk_layout = FixedLayout \<rparr>"
proof -
  have "parse_fixed bs = Inr FixedLayout" using assms(1) by (simp add: parse_fixed_Inr)
  with assms grammar_utf8 show ?thesis by (simp add: field_key_parse_def fixed_no_slash and_then_def)
qed

lemma field_key_parse_Inr:
  assumes "field_key_parse bs = Inr k"
  shows "fk_text k = bs" "key_grammar bs"
proof -
  from assms have len: "bs \<noteq> []" "length bs \<le> MAX_KEY_LEN" and whole: "fk_text k = bs"
    by (auto simp: field_key_parse_def and_then_Inr split: if_splits)
  from assms obtain lay where lay:
    "(case position (\<lambda>b. b = 0x2F) bs of Some i \<Rightarrow> parse_element bs i | None \<Rightarrow> parse_fixed bs) = Inr lay"
    by (auto simp: field_key_parse_def and_then_Inr split: if_splits)
  have "fixed_grammar bs \<or> element_grammar bs"
  proof (cases "position (\<lambda>b. b = 0x2F) bs")
    case None
    with lay show ?thesis by (simp add: parse_fixed_Inr)
  next
    case (Some i)
    then obtain l e a where "bs = element_text l e a" "0x2F \<notin> set l" "0x2F \<notin> set e" "i = length l"
      by (rule element_textE)
    with lay Some show ?thesis
      by (auto simp: parse_element_text element_grammar_def split: if_splits option.splits)
        (metis option.pred_inject)+
  qed
  with len whole show "fk_text k = bs" "key_grammar bs" by (auto simp: key_grammar_def)
qed

lemma key_grammar_iff: "(\<exists>k. field_key_parse bs = Inr k) \<longleftrightarrow> key_grammar bs"
  using field_key_parse_Inr(2) field_key_parse_fixed field_key_parse_element
  unfolding key_grammar_def element_grammar_def by metis


text \<open>A key built from a list name, element bytes and an optional attribute gives its parts
  back: the element id decodes to the bytes it was built from.\<close>
theorem built_key_parts:
  assumes "field_key_element l el a = Inr k" and "is_name l"
  shows "fk_list k = Some l \<and> fk_element_bytes k = Some el \<and> fk_attribute k = a \<and>
    fk_text k = element_text l (to_hex el) a"
proof -
  let ?t = "element_text l (to_hex el) a"
  have slash: "0x2F \<notin> set l" "0x2F \<notin> set (to_hex el)"
    using no_slash(1) [OF assms(2)] to_hex_hexlc hexlc_name_byte name_byte_plain by blast+
  from assms(1) obtain k' where k': "field_key_parse ?t = Inr k'"
    and k: "k = \<lparr> fk_text = ?t, fk_layout = fk_layout k' \<rparr>"
    by (auto simp: field_key_element_def and_then_Inr element_text_def Let_def split: if_splits)
  from k' have "parse_element ?t (length l) = Inr (fk_layout k')"
    by (auto simp: field_key_parse_def and_then_Inr element_text_position [OF slash(1)] split: if_splits)
  then have "fk_layout k' = ElementLayout (length l) (length l + 1 + length (to_hex el))"
    using slash by (auto simp: parse_element_text split: if_splits option.splits)
  then show ?thesis
    by (cases a) (auto simp: k fk_list_def fk_element_bytes_def fk_element_def fk_attribute_def element_text_def)
qed


lemma field_key_element_parses:
  assumes "length (element_text l (to_hex el) a) \<le> MAX_KEY_LEN"
  shows "field_key_element l el a =
    and_then (field_key_parse (element_text l (to_hex el) a))
      (\<lambda>k. Inr \<lparr> fk_text = element_text l (to_hex el) a, fk_layout = fk_layout k \<rparr>)"
proof -
  have "2 * length el + length l + 1 + (case a of None \<Rightarrow> 0 | Some n \<Rightarrow> length n + 1) \<le> 160"
    using assms by (cases a) (simp_all add: element_text_def MAX_KEY_LEN_def)
  then show ?thesis
    by (cases a)
      (simp_all add: field_key_element_def and_then_def ok_or_def checked_mul_def checked_add_def
        saturating_add_def usize_max_def MAX_KEY_LEN_def element_text_def Let_def)
qed

lemma sample_key:
  "field_key_element [0x75, 0x72, 0x69] [0xA0, 0x1F] (Some [0x76]) =
     Inr \<lparr> fk_text = [0x75, 0x72, 0x69, 0x2F, 0x61, 0x30, 0x31, 0x66, 0x2F, 0x76],
           fk_layout = ElementLayout 3 8 \<rparr>"
proof -
  have hex: "to_hex [0xA0, 0x1F] = [0x61, 0x30, 0x31, 0x66]" by code_simp
  have "is_name [0x75, 0x72, 0x69]" "is_name [0x76]" "is_element [0x61, 0x30, 0x31, 0x66]" by code_simp+
  then have "field_key_parse (element_text [0x75, 0x72, 0x69] [0x61, 0x30, 0x31, 0x66] (Some [0x76])) =
      Inr \<lparr> fk_text = element_text [0x75, 0x72, 0x69] [0x61, 0x30, 0x31, 0x66] (Some [0x76]),
            fk_layout = ElementLayout 3 8 \<rparr>"
    by (subst field_key_parse_element) (simp_all add: MAX_KEY_LEN_def element_text_def)
  then show ?thesis
    using field_key_element_parses [of "[0x75, 0x72, 0x69]" "[0xA0, 0x1F]" "Some [0x76]", unfolded hex]
    by (simp add: element_text_def MAX_KEY_LEN_def and_then_def)
qed

theorem built_key_parts_witness:
  "let k = \<lparr> fk_text = [0x75, 0x72, 0x69, 0x2F, 0x61, 0x30, 0x31, 0x66, 0x2F, 0x76],
             fk_layout = ElementLayout 3 8 \<rparr> in
   field_key_element [0x75, 0x72, 0x69] [0xA0, 0x1F] (Some [0x76]) = Inr k \<and>
   fk_list k = Some [0x75, 0x72, 0x69] \<and> fk_element_bytes k = Some [0xA0, 0x1F] \<and> fk_attribute k = Some [0x76]"
proof -
  have "is_name [0x75, 0x72, 0x69]" by code_simp
  from built_key_parts [OF sample_key this] sample_key show ?thesis by (simp only: Let_def)
qed

text \<open>The builder checks the finished text, not its parts: a list argument that itself holds a
  slash (here \<open>tag/aa\<close> with element \<open>CC\<close>) is accepted, and the key's parts are then others than
  those given.\<close>

lemma builder_accepts_slash_in_list:
  "\<exists>k. field_key_element [0x74, 0x61, 0x67, 0x2F, 0x61, 0x61] [0xCC] None = Inr k \<and>
     \<not> is_name [0x74, 0x61, 0x67, 0x2F, 0x61, 0x61] \<and>
     fk_list k = Some [0x74, 0x61, 0x67] \<and> fk_element k = Some [0x61, 0x61] \<and> fk_attribute k = Some [0x63, 0x63]"
proof -
  have hex: "to_hex [0xCC] = [0x63, 0x63]" by code_simp
  have names: "is_name [0x74, 0x61, 0x67]" "is_name [0x63, 0x63]" "is_element [0x61, 0x61]" by code_simp+
  have same: "element_text [0x74, 0x61, 0x67, 0x2F, 0x61, 0x61] [0x63, 0x63] None =
      element_text [0x74, 0x61, 0x67] [0x61, 0x61] (Some [0x63, 0x63])"
    by (simp add: element_text_def)
  have "field_key_parse (element_text [0x74, 0x61, 0x67] [0x61, 0x61] (Some [0x63, 0x63])) =
      Inr \<lparr> fk_text = element_text [0x74, 0x61, 0x67] [0x61, 0x61] (Some [0x63, 0x63]),
            fk_layout = ElementLayout 3 6 \<rparr>"
    using names by (subst field_key_parse_element) (simp_all add: MAX_KEY_LEN_def element_text_def)
  then have "field_key_element [0x74, 0x61, 0x67, 0x2F, 0x61, 0x61] [0xCC] None =
      Inr \<lparr> fk_text = element_text [0x74, 0x61, 0x67] [0x61, 0x61] (Some [0x63, 0x63]),
            fk_layout = ElementLayout 3 6 \<rparr>"
    using field_key_element_parses [of "[0x74, 0x61, 0x67, 0x2F, 0x61, 0x61]" "[0xCC]" None, unfolded hex same]
    by (simp add: element_text_def MAX_KEY_LEN_def and_then_def)
  moreover have "\<not> is_name [0x74, 0x61, 0x67, 0x2F, 0x61, 0x61]" by code_simp
  ultimately show ?thesis
    by (simp add: fk_list_def fk_element_def fk_attribute_def element_text_def)
qed

end
