(* ===== verification/Headers.thy ===== *)
theory Headers
  imports Cursor
begin

text \<open>
  The canonical op and snapshot headers, \<open>crates/rizzy-sync/src/header.rs\<close>: the fixed-layout
  encodings the server keeps, signs over and hashes. \<open>ItemSchemaVersion\<close> is a type whose values
  are exactly the accepted versions. SHA-256 is a parameter (\<open>sha256\<close>) of the envelope contexts.
\<close>

definition HEADER_VERSION :: u8 where
  "HEADER_VERSION = 1"

definition OP_HEADER_FIXED_LEN :: usize where
  "OP_HEADER_FIXED_LEN = 1 + 4 * 16 + 8 + 8 + 8 + 2 + 4 + 2"

definition SNAPSHOT_HEADER_FIXED_LEN :: usize where
  "SNAPSHOT_HEADER_FIXED_LEN = 1 + 4 * 16 + 2 + 4 + 2"

section \<open>Schema versions\<close>

typedef item_schema_version = "{v :: u16. v \<noteq> 0 \<and> v \<noteq> 0xFFFF}"
  morphisms isv_get isv_of
  by (rule exI [of _ 1]) simp

definition isv_v1 :: item_schema_version where
  "isv_v1 = isv_of 1"

definition isv_new :: "u16 \<Rightarrow> item_schema_version option" where
  "isv_new v = (if v = 0 \<or> v = 0xFFFF then None else Some (isv_of v))"

definition isv_is_known :: "item_schema_version \<Rightarrow> bool" where
  "isv_is_known v \<longleftrightarrow> isv_get v = isv_get isv_v1"

lemma isv_new_get [simp]: "isv_new (isv_get v) = Some v"
  using isv_get [of v] by (simp add: isv_new_def isv_get_inverse)

lemma isv_new_Some: "isv_new w = Some v \<longleftrightarrow> w = isv_get v"
  by (auto simp: isv_new_def isv_of_inverse isv_get_inverse split: if_splits)
    (use isv_get in force)+

lemma isv_is_known_iff: "isv_is_known v \<longleftrightarrow> v = isv_v1"
  by (simp add: isv_is_known_def isv_get_inject)

section \<open>Errors\<close>

datatype header_error_kind =
    HdrTruncated
  | HdrTrailingBytes
  | UnknownHeaderVersion
  | HdrZeroSeq
  | HdrNotAscending
  | InvalidSchemaVersion

record header_error =
  he_kind :: header_error_kind
  he_offset :: usize

definition header_error_new :: "header_error_kind \<Rightarrow> usize \<Rightarrow> header_error" where
  "header_error_new kind offset = \<lparr> he_kind = kind, he_offset = offset \<rparr>"

definition header_error_from :: "decode_error \<Rightarrow> header_error" where
  "header_error_from e =
     header_error_new
       (case de_kind e of
          Truncated \<Rightarrow> HdrTruncated
        | TrailingBytes \<Rightarrow> HdrTrailingBytes
        | ZeroSeq \<Rightarrow> HdrZeroSeq
        | NotAscending \<Rightarrow> HdrNotAscending)
       (de_offset e)"

section \<open>Shared field readers\<close>

definition read_version :: "(cursor, header_error, unit) reads" where
  "read_version =
     then_read (read_err header_error_from cursor_u8) (\<lambda>v.
     if v = HEADER_VERSION then yields () else fails (header_error_new UnknownHeaderVersion 0))"

definition read_id :: "(cursor, header_error, id16) reads" where
  "read_id =
     then_read (read_err header_error_from (cursor_array 16)) (\<lambda>bs. yields (word_of_nat (be_val bs)))"

definition read_schema :: "(cursor, header_error, item_schema_version) reads" where
  "read_schema =
     then_read (here cursor_offset) (\<lambda>at'.
     then_read (read_err header_error_from cursor_u16) (\<lambda>v.
     case isv_new v of
       None \<Rightarrow> fails (header_error_new InvalidSchemaVersion at')
     | Some version \<Rightarrow> yields version))"

section \<open>Op headers\<close>

record op_header =
  oh_vault_id :: id16
  oh_item_id :: id16
  oh_op_id :: id16
  oh_dot :: dot
  oh_vault_prev_seq :: u64
  oh_hlc :: hlc
  oh_item_schema_version :: item_schema_version
  oh_vault_key_epoch :: u32
  oh_causal_context :: causal_context

definition op_header_encoded_len :: "op_header \<Rightarrow> usize" where
  "op_header_encoded_len h =
     saturating_add OP_HEADER_FIXED_LEN (saturating_mul (vv_len (oh_causal_context h)) VV_ENTRY_LEN)"

definition op_header_encode :: "op_header \<Rightarrow> bytes \<Rightarrow> encode_error + bytes" where
  "op_header_encode h out =
     (if vv_len (oh_causal_context h) > VV_MAX_ENTRIES then Inl TooManyEntries
      else
        let out = put_u8 out HEADER_VERSION;
            out = out @ id_bytes (oh_vault_id h);
            out = out @ id_bytes (oh_item_id h);
            out = out @ id_bytes (oh_op_id h);
            out = dot_encode (oh_dot h) out;
            out = put_u64 out (oh_vault_prev_seq h);
            out = hlc_encode (oh_hlc h) out;
            out = put_u16 out (isv_get (oh_item_schema_version h));
            out = put_u32 out (oh_vault_key_epoch h)
        in vv_encode (oh_causal_context h) out)"

definition op_header_to_vec :: "op_header \<Rightarrow> encode_error + bytes" where
  "op_header_to_vec h = op_header_encode h []"

definition op_header_read :: "(cursor, header_error, op_header) reads" where
  "op_header_read =
     then_read read_version (\<lambda>_.
     then_read read_id (\<lambda>vault_id.
     then_read read_id (\<lambda>item_id.
     then_read read_id (\<lambda>op_id.
     then_read (read_err header_error_from cursor_dot) (\<lambda>d.
     then_read (read_err header_error_from cursor_u64) (\<lambda>vault_prev_seq.
     then_read (read_err header_error_from cursor_hlc) (\<lambda>h.
     then_read read_schema (\<lambda>schema.
     then_read (read_err header_error_from cursor_u32) (\<lambda>epoch.
     then_read (read_err header_error_from cursor_vv) (\<lambda>context.
     then_read (read_err header_error_from cursor_finish) (\<lambda>_.
     yields \<lparr> oh_vault_id = vault_id, oh_item_id = item_id, oh_op_id = op_id, oh_dot = d,
       oh_vault_prev_seq = vault_prev_seq, oh_hlc = h, oh_item_schema_version = schema,
       oh_vault_key_epoch = epoch, oh_causal_context = context \<rparr>)))))))))))"

definition op_header_parse :: "bytes \<Rightarrow> header_error + op_header" where
  "op_header_parse bs = and_then (op_header_read (cursor_new bs)) (\<lambda>(h, _). Inr h)"

record item_op_ctx =
  oc_vault_id :: id16
  oc_item_id :: id16
  oc_item_schema_version :: u16
  oc_op_id :: id16
  oc_device_id :: id16
  oc_device_seq :: u64
  oc_hlc :: u64
  oc_op_header_hash :: bytes

definition op_envelope_context :: "(bytes \<Rightarrow> bytes) \<Rightarrow> op_header \<Rightarrow> encode_error + item_op_ctx" where
  "op_envelope_context sha256 h =
     and_then (op_header_to_vec h) (\<lambda>canonical.
     Inr \<lparr> oc_vault_id = oh_vault_id h, oc_item_id = oh_item_id h,
       oc_item_schema_version = isv_get (oh_item_schema_version h), oc_op_id = oh_op_id h,
       oc_device_id = dot_device (oh_dot h), oc_device_seq = dot_seq (oh_dot h),
       oc_hlc = oh_hlc h, oc_op_header_hash = sha256 canonical \<rparr>)"

section \<open>Snapshot headers\<close>

record snapshot_header =
  sh_vault_id :: id16
  sh_item_id :: id16
  sh_snapshot_id :: id16
  sh_author :: id16
  sh_item_schema_version :: item_schema_version
  sh_vault_key_epoch :: u32
  sh_covered :: version_vector

definition snapshot_header_encoded_len :: "snapshot_header \<Rightarrow> usize" where
  "snapshot_header_encoded_len h =
     saturating_add SNAPSHOT_HEADER_FIXED_LEN (saturating_mul (vv_len (sh_covered h)) VV_ENTRY_LEN)"

definition snapshot_header_encode :: "snapshot_header \<Rightarrow> bytes \<Rightarrow> encode_error + bytes" where
  "snapshot_header_encode h out =
     (if vv_len (sh_covered h) > VV_MAX_ENTRIES then Inl TooManyEntries
      else
        let out = put_u8 out HEADER_VERSION;
            out = out @ id_bytes (sh_vault_id h);
            out = out @ id_bytes (sh_item_id h);
            out = out @ id_bytes (sh_snapshot_id h);
            out = out @ id_bytes (sh_author h);
            out = put_u16 out (isv_get (sh_item_schema_version h));
            out = put_u32 out (sh_vault_key_epoch h)
        in vv_encode (sh_covered h) out)"

definition snapshot_header_to_vec :: "snapshot_header \<Rightarrow> encode_error + bytes" where
  "snapshot_header_to_vec h = snapshot_header_encode h []"

definition snapshot_header_read :: "(cursor, header_error, snapshot_header) reads" where
  "snapshot_header_read =
     then_read read_version (\<lambda>_.
     then_read read_id (\<lambda>vault_id.
     then_read read_id (\<lambda>item_id.
     then_read read_id (\<lambda>snapshot_id.
     then_read read_id (\<lambda>author.
     then_read read_schema (\<lambda>schema.
     then_read (read_err header_error_from cursor_u32) (\<lambda>epoch.
     then_read (read_err header_error_from cursor_vv) (\<lambda>covered.
     then_read (read_err header_error_from cursor_finish) (\<lambda>_.
     yields \<lparr> sh_vault_id = vault_id, sh_item_id = item_id, sh_snapshot_id = snapshot_id,
       sh_author = author, sh_item_schema_version = schema, sh_vault_key_epoch = epoch,
       sh_covered = covered \<rparr>)))))))))"

definition snapshot_header_parse :: "bytes \<Rightarrow> header_error + snapshot_header" where
  "snapshot_header_parse bs = and_then (snapshot_header_read (cursor_new bs)) (\<lambda>(h, _). Inr h)"

record item_snapshot_ctx =
  sc_vault_id :: id16
  sc_item_id :: id16
  sc_item_schema_version :: u16
  sc_snapshot_id :: id16
  sc_snapshot_header_hash :: bytes

definition snapshot_envelope_context ::
  "(bytes \<Rightarrow> bytes) \<Rightarrow> snapshot_header \<Rightarrow> encode_error + item_snapshot_ctx" where
  "snapshot_envelope_context sha256 h =
     and_then (snapshot_header_to_vec h) (\<lambda>canonical.
     Inr \<lparr> sc_vault_id = sh_vault_id h, sc_item_id = sh_item_id h,
       sc_item_schema_version = isv_get (sh_item_schema_version h), sc_snapshot_id = sh_snapshot_id h,
       sc_snapshot_header_hash = sha256 canonical \<rparr>)"


section \<open>Field codecs\<close>

interpretation hdr_u8: codec cur_input cur_set "\<lambda>_. True" "\<lambda>b. [b]" "read_err header_error_from cursor_u8"
  by (rule cur_u8.read_err_codec)

interpretation hdr_u16: codec cur_input cur_set "\<lambda>_. True" u16_bytes "read_err header_error_from cursor_u16"
  by (rule cur_u16.read_err_codec)

interpretation hdr_u32: codec cur_input cur_set "\<lambda>_. True" u32_bytes "read_err header_error_from cursor_u32"
  by (rule cur_u32.read_err_codec)

interpretation hdr_u64: codec cur_input cur_set "\<lambda>_. True" u64_bytes "read_err header_error_from cursor_u64"
  by (rule cur_u64.read_err_codec)

interpretation hdr_array: codec cur_input cur_set "\<lambda>bs. length bs = n" "\<lambda>bs. bs"
    "read_err header_error_from (cursor_array n)" for n
  by (rule cur_array.read_err_codec)

interpretation hdr_dot: codec cur_input cur_set "\<lambda>_. True" dot_bytes "read_err header_error_from cursor_dot"
  by (rule cur_dot.read_err_codec)

interpretation hdr_hlc: codec cur_input cur_set "\<lambda>_. True" u64_bytes "read_err header_error_from cursor_hlc"
  by (rule cur_hlc.read_err_codec)

interpretation hdr_vv: codec cur_input cur_set "\<lambda>v. vv_len v \<le> VV_MAX_ENTRIES" vv_bytes
    "read_err header_error_from cursor_vv"
  by (rule cur_vv.read_err_codec)

lemma cur_codecI:
  assumes "\<And>s x s'. dec s = Inr (x, s') \<longleftrightarrow> ok x \<and> (\<exists>rest. cur_input s = enc x @ rest \<and> s' = cur_set rest s)"
  shows "codec cur_input cur_set ok enc dec"
  by unfold_locales (auto simp: assms)

interpretation hdr_version: codec cur_input cur_set "\<lambda>_. True" "\<lambda>_. [HEADER_VERSION]" read_version
  by (rule cur_codecI) (auto simp: read_version_def hdr_u8.then_dec_iff split: if_splits)

interpretation hdr_id: codec cur_input cur_set "\<lambda>_. True" id_bytes read_id
proof (rule cur_codecI)
  fix s x s'
  show "read_id s = Inr (x, s') \<longleftrightarrow> True \<and> (\<exists>rest. cur_input s = id_bytes x @ rest \<and> s' = cur_set rest s)"
    unfolding read_id_def hdr_array.then_dec_iff
  proof (intro iffI; elim exE conjE)
    fix rest
    assume "cur_input s = id_bytes x @ rest" "s' = cur_set rest s"
    then show "\<exists>bs rest. length bs = 16 \<and> cur_input s = bs @ rest \<and>
        yields (word_of_nat (be_val bs)) (cur_set rest s) = Inr (x, s')"
      by (intro exI [of _ "id_bytes x"] exI [of _ rest]) simp
  qed auto
qed

interpretation hdr_schema: codec cur_input cur_set "\<lambda>_. True" "\<lambda>v. u16_bytes (isv_get v)" read_schema
proof (rule cur_codecI)
  fix s x s'
  show "read_schema s = Inr (x, s') \<longleftrightarrow>
      True \<and> (\<exists>rest. cur_input s = u16_bytes (isv_get x) @ rest \<and> s' = cur_set rest s)"
    by (auto simp: read_schema_def then_read_Inr [where p = "here _"] hdr_u16.then_dec_iff isv_new_Some
        isv_get_inject split: option.splits intro!: exI [of _ "isv_get x"])
qed

lemma hdr_finish_Inr:
  "then_read (read_err header_error_from cursor_finish) f s = Inr r \<longleftrightarrow> cur_input s = [] \<and> f () s = Inr r"
  by (auto simp: then_read_Inr cursor_finish_def reader_is_empty_def split: if_splits)

lemmas header_fields = hdr_version.then_dec_iff hdr_id.then_dec_iff hdr_schema.then_dec_iff
  hdr_dot.then_dec_iff hdr_u64.then_dec_iff hdr_hlc.then_dec_iff hdr_u32.then_dec_iff
  hdr_vv.then_dec_iff hdr_finish_Inr

definition op_header_bytes :: "op_header \<Rightarrow> bytes" where
  "op_header_bytes h =
     [HEADER_VERSION] @ id_bytes (oh_vault_id h) @ id_bytes (oh_item_id h) @ id_bytes (oh_op_id h) @
     dot_bytes (oh_dot h) @ u64_bytes (oh_vault_prev_seq h) @ u64_bytes (oh_hlc h) @
     u16_bytes (isv_get (oh_item_schema_version h)) @ u32_bytes (oh_vault_key_epoch h) @
     vv_bytes (oh_causal_context h)"

definition snapshot_header_bytes :: "snapshot_header \<Rightarrow> bytes" where
  "snapshot_header_bytes h =
     [HEADER_VERSION] @ id_bytes (sh_vault_id h) @ id_bytes (sh_item_id h) @ id_bytes (sh_snapshot_id h) @
     id_bytes (sh_author h) @ u16_bytes (isv_get (sh_item_schema_version h)) @
     u32_bytes (sh_vault_key_epoch h) @ vv_bytes (sh_covered h)"

lemma op_header_encode_bytes:
  "op_header_encode h out =
     (if vv_len (oh_causal_context h) \<le> VV_MAX_ENTRIES then Inr (out @ op_header_bytes h)
      else Inl TooManyEntries)"
  by (simp add: op_header_encode_def op_header_bytes_def put_u8_def put_u16_def put_u32_def put_u64_def
      hlc_encode_def dot_encode_bytes vv_encode_bytes Let_def)

lemma snapshot_header_encode_bytes:
  "snapshot_header_encode h out =
     (if vv_len (sh_covered h) \<le> VV_MAX_ENTRIES then Inr (out @ snapshot_header_bytes h)
      else Inl TooManyEntries)"
  by (simp add: snapshot_header_encode_def snapshot_header_bytes_def put_u8_def put_u16_def put_u32_def
      vv_encode_bytes Let_def)

lemma op_header_read_Inr:
  "op_header_read s = Inr (h, s') \<longleftrightarrow>
     vv_len (oh_causal_context h) \<le> VV_MAX_ENTRIES \<and> cur_input s = op_header_bytes h \<and> s' = cur_set [] s"
  unfolding op_header_read_def header_fields
  by (cases h) (auto simp: op_header_bytes_def yields_def)

lemma snapshot_header_read_Inr:
  "snapshot_header_read s = Inr (h, s') \<longleftrightarrow>
     vv_len (sh_covered h) \<le> VV_MAX_ENTRIES \<and> cur_input s = snapshot_header_bytes h \<and> s' = cur_set [] s"
  unfolding snapshot_header_read_def header_fields
  by (cases h) (auto simp: snapshot_header_bytes_def yields_def)

lemma cur_input_new [simp]: "cur_input (cursor_new bs) = bs"
  by (simp add: cursor_new_def reader_new_def)

text \<open>an op header has exactly one encoding: the parser accepts a byte string and yields a
  header if and only if the writer writes those bytes for it.\<close>
theorem op_header_one_encoding: "(op_header_parse bs = Inr h) = (op_header_to_vec h = Inr bs)"
  by (auto simp: op_header_parse_def and_then_Inr op_header_read_Inr op_header_to_vec_def
      op_header_encode_bytes)

text \<open>likewise a snapshot header.\<close>
theorem snapshot_header_one_encoding:
  "(snapshot_header_parse bs = Inr h) = (snapshot_header_to_vec h = Inr bs)"
  by (auto simp: snapshot_header_parse_def and_then_Inr snapshot_header_read_Inr snapshot_header_to_vec_def
      snapshot_header_encode_bytes)

end
