(* ===== verification/Item_Records.thy ===== *)
theory Item_Records
  imports Cursor Field_Keys Headers
begin

text \<open>
  The item-record encoding, \<open>crates/rizzy-sync/src/record.rs\<close>, \<open>record/parse.rs\<close> and
  \<open>record/encode.rs\<close>: op data, live snapshots and tombstones, the strict parser with the error of
  every rule, the sizing pass and the writers. A field key is a type whose values are the reserved
  lifecycle key and the keys of the grammar, as in the code. A parser is a cursor together with
  the limits in force, which never change during a parse and are an argument here.
\<close>

section \<open>Limits\<close>

definition MAX_VALUE_LEN :: usize where "MAX_VALUE_LEN = 65536"
definition MAX_WRITES :: usize where "MAX_WRITES = 1024"
definition MAX_OP_DATA_LEN :: usize where "MAX_OP_DATA_LEN = 2 ^ 20"
definition MAX_GROUPS :: usize where "MAX_GROUPS = 4096"
definition MAX_VALUES :: usize where "MAX_VALUES = 256"
definition MAX_SNAPSHOT_DATA_LEN :: usize where "MAX_SNAPSHOT_DATA_LEN = 12 * 2 ^ 20"

record limits =
  lim_op_data :: usize
  lim_snapshot_data :: usize
  lim_value :: usize
  lim_writes :: usize
  lim_groups :: usize
  lim_values :: usize

definition limits_v1 :: limits where
  "limits_v1 = \<lparr> lim_op_data = MAX_OP_DATA_LEN, lim_snapshot_data = MAX_SNAPSHOT_DATA_LEN,
     lim_value = MAX_VALUE_LEN, lim_writes = MAX_WRITES, lim_groups = MAX_GROUPS, lim_values = MAX_VALUES \<rparr>"

definition limits_unbounded :: limits where
  "limits_unbounded = \<lparr> lim_op_data = usize_max, lim_snapshot_data = usize_max,
     lim_value = 2 ^ 32 - 1, lim_writes = 65535, lim_groups = 65535, lim_values = 65535 \<rparr>"

section \<open>Kinds, lifecycle and keys\<close>

datatype record_kind = KindOp | KindLiveSnapshot | KindTombstone

fun record_kind_to_u8 :: "record_kind \<Rightarrow> u8" where
  "record_kind_to_u8 KindOp = 0x01"
| "record_kind_to_u8 KindLiveSnapshot = 0x02"
| "record_kind_to_u8 KindTombstone = 0x03"

type_synonym field_value = bytes

datatype lifecycle = Active | Trashed | Purge

fun lifecycle_to_u8 :: "lifecycle \<Rightarrow> u8" where
  "lifecycle_to_u8 Active = 0x01"
| "lifecycle_to_u8 Trashed = 0x02"
| "lifecycle_to_u8 Purge = 0x03"

definition lifecycle_from_u8 :: "u8 \<Rightarrow> lifecycle option" where
  "lifecycle_from_u8 b =
     (if b = 0x01 then Some Active else if b = 0x02 then Some Trashed else if b = 0x03 then Some Purge
      else None)"

fun lifecycle_register_value :: "lifecycle \<Rightarrow> field_value option" where
  "lifecycle_register_value Active = Some [0x01]"
| "lifecycle_register_value Trashed = Some [0x02]"
| "lifecycle_register_value Purge = None"

definition lifecycle_from_register_value :: "field_value \<Rightarrow> lifecycle option" where
  "lifecycle_from_register_value v =
     (if v = [0x01] then Some Active else if v = [0x02] then Some Trashed else None)"

definition LIFECYCLE_KEY :: bytes where
  "LIFECYCLE_KEY = [0x40, 0x6C, 0x69, 0x66, 0x65, 0x63, 0x79, 0x63, 0x6C, 0x65]"

typedef field_key = "{bs. bs = LIFECYCLE_KEY \<or> key_grammar bs}"
  morphisms key_bytes key_of
  by (rule exI [of _ LIFECYCLE_KEY]) simp

instantiation field_key :: linorder
begin

definition less_eq_field_key :: "field_key \<Rightarrow> field_key \<Rightarrow> bool" where
  "less_eq_field_key a b \<longleftrightarrow> key_bytes a \<le> key_bytes b"

definition less_field_key :: "field_key \<Rightarrow> field_key \<Rightarrow> bool" where
  "less_field_key a b \<longleftrightarrow> key_bytes a < key_bytes b"

instance
  by standard (auto simp: less_eq_field_key_def less_field_key_def key_bytes_inject less_le)

end

definition key_lifecycle :: field_key where
  "key_lifecycle = key_of LIFECYCLE_KEY"

definition key_is_lifecycle :: "field_key \<Rightarrow> bool" where
  "key_is_lifecycle k \<longleftrightarrow> key_bytes k = LIFECYCLE_KEY"

definition key_len :: "field_key \<Rightarrow> usize" where
  "key_len k = length (key_bytes k)"

section \<open>Records\<close>

record field_write =
  wr_key :: field_key
  wr_value :: field_value

record op_data =
  op_lifecycle :: lifecycle
  op_writes :: "field_write list"

record entry =
  en_dot :: dot
  en_hlc :: hlc
  en_value :: field_value

record register =
  rg_key :: field_key
  rg_entries :: "entry list"

record live_snapshot =
  ls_registers :: "register list"
  ls_history :: "register list"

record tombstone =
  ts_purge_dot :: dot
  ts_purge_hlc :: hlc
  ts_context :: version_vector
  ts_item_key_id :: id16
  ts_late :: "register list"

datatype snapshot_data = SnapLive live_snapshot | SnapTombstone tombstone

fun snapshot_kind :: "snapshot_data \<Rightarrow> record_kind" where
  "snapshot_kind (SnapLive _) = KindLiveSnapshot"
| "snapshot_kind (SnapTombstone _) = KindTombstone"

section \<open>Errors\<close>

datatype record_error_kind =
    WrongKind | DataTooLong | RecTruncated | RecTrailingBytes | CountTooLarge | NoRegister
  | ValueTooLong | KeyLength | KeyGrammar | RecNotAscending | DuplicateDot | InvalidLifecycle
  | WritesWithoutActive | MissingLifecycle | InvalidLifecycleValue | MisplacedLifecycle
  | EmptyRegister | RecZeroSeq | NotCovered | OrphanHistory | LateValueCovered

fun record_rule :: "record_error_kind \<Rightarrow> u8" where
  "record_rule WrongKind = 1"
| "record_rule DataTooLong = 2"
| "record_rule RecTruncated = 2"
| "record_rule RecTrailingBytes = 2"
| "record_rule CountTooLarge = 2"
| "record_rule NoRegister = 2"
| "record_rule ValueTooLong = 2"
| "record_rule KeyLength = 2"
| "record_rule KeyGrammar = 3"
| "record_rule RecNotAscending = 3"
| "record_rule DuplicateDot = 3"
| "record_rule InvalidLifecycle = 4"
| "record_rule WritesWithoutActive = 4"
| "record_rule MissingLifecycle = 5"
| "record_rule InvalidLifecycleValue = 5"
| "record_rule MisplacedLifecycle = 5"
| "record_rule EmptyRegister = 5"
| "record_rule RecZeroSeq = 6"
| "record_rule NotCovered = 6"
| "record_rule OrphanHistory = 7"
| "record_rule LateValueCovered = 8"

record record_error =
  re_kind :: record_error_kind
  re_offset :: usize

definition record_error_new :: "record_error_kind \<Rightarrow> usize \<Rightarrow> record_error" where
  "record_error_new kind offset = \<lparr> re_kind = kind, re_offset = offset \<rparr>"

definition record_error_from :: "decode_error \<Rightarrow> record_error" where
  "record_error_from e =
     record_error_new
       (case de_kind e of
          Truncated \<Rightarrow> RecTruncated
        | TrailingBytes \<Rightarrow> RecTrailingBytes
        | ZeroSeq \<Rightarrow> RecZeroSeq
        | NotAscending \<Rightarrow> RecNotAscending)
       (de_offset e)"

definition grammar_key :: "bytes \<Rightarrow> record_error_kind + field_key" where
  "grammar_key bs =
     (case field_key_parse bs of
        Inr k \<Rightarrow> Inr (key_of (fk_text k))
      | Inl KeyErrLength \<Rightarrow> Inl KeyLength
      | Inl _ \<Rightarrow> Inl KeyGrammar)"

definition field_key_new :: "bytes \<Rightarrow> record_error + field_key" where
  "field_key_new key = map_err (\<lambda>kind. record_error_new kind 0) (grammar_key key)"

section \<open>The parser\<close>

definition MIN_WRITE_LEN :: usize where "MIN_WRITE_LEN = 4 + 4"
definition MIN_ENTRY_LEN :: usize where "MIN_ENTRY_LEN = DOT_ENCODED_LEN + 8 + 4"
definition MIN_REGISTER_LEN :: usize where "MIN_REGISTER_LEN = 4 + 2"

datatype group = Current | History | Late

type_synonym 'a rec_reads = "(cursor, record_error, 'a) reads"

definition parser_count :: "usize \<Rightarrow> usize \<Rightarrow> usize rec_reads" where
  "parser_count mx min_len =
     then_read (here cursor_offset) (\<lambda>at'.
     then_read (read_err record_error_from cursor_u16) (\<lambda>w.
     then_read (here cursor_remaining) (\<lambda>left.
     let n = unat w
     in if n > mx then fails (record_error_new CountTooLarge at')
        else if (case checked_mul n min_len of None \<Rightarrow> True | Some needed \<Rightarrow> needed > left)
        then fails (record_error_new RecTruncated at')
        else yields n)))"

definition parser_key :: "field_key rec_reads" where
  "parser_key =
     then_read (here cursor_offset) (\<lambda>at'.
     then_read (read_err record_error_from cursor_u32) (\<lambda>w.
     if unat w = 0 \<or> unat w > MAX_KEY_LEN then fails (record_error_new KeyLength at')
     else
       then_read (read_err (\<lambda>_. record_error_new RecTruncated at') (cursor_take (unat w))) (\<lambda>bs.
       if bs = LIFECYCLE_KEY then yields key_lifecycle
       else case grammar_key bs of
              Inl kind \<Rightarrow> fails (record_error_new kind at')
            | Inr k \<Rightarrow> yields k)))"

definition parser_ordered_key :: "field_key option \<Rightarrow> bool \<Rightarrow> field_key rec_reads" where
  "parser_ordered_key previous lifecycle_allowed =
     then_read (here cursor_offset) (\<lambda>at'.
     then_read parser_key (\<lambda>key.
     if key_is_lifecycle key \<and> \<not> lifecycle_allowed then fails (record_error_new MisplacedLifecycle at')
     else if (case previous of Some p \<Rightarrow> p \<ge> key | None \<Rightarrow> False)
     then fails (record_error_new RecNotAscending at')
     else yields key))"

definition parser_value :: "limits \<Rightarrow> field_value rec_reads" where
  "parser_value lim =
     then_read (here cursor_offset) (\<lambda>at'.
     then_read (read_err record_error_from cursor_u32) (\<lambda>w.
     if unat w > lim_value lim then fails (record_error_new ValueTooLong at')
     else read_err (\<lambda>_. record_error_new RecTruncated at') (cursor_take (unat w))))"

text \<open>\<open>for _ in 0..n { ... vec.push(x) }\<close>: each element may depend on those read before it.\<close>

fun read_list :: "nat \<Rightarrow> ('a list \<Rightarrow> ('s, 'e, 'a) reads) \<Rightarrow> 'a list \<Rightarrow> ('s, 'e, 'a list) reads" where
  "read_list 0 p acc = yields acc"
| "read_list (Suc n) p acc = then_read (p acc) (\<lambda>x. read_list n p (acc @ [x]))"

definition last_opt :: "'a list \<Rightarrow> 'a option" where
  "last_opt xs = (if xs = [] then None else Some (last xs))"

definition parser_entry ::
  "limits \<Rightarrow> field_key \<Rightarrow> version_vector \<Rightarrow> version_vector option \<Rightarrow> entry list \<Rightarrow> entry rec_reads" where
  "parser_entry lim key covered context entries =
     then_read (here cursor_offset) (\<lambda>at'.
     then_read (read_err record_error_from cursor_dot) (\<lambda>d.
     if (case last_opt entries of Some e \<Rightarrow> en_dot e \<ge> d | None \<Rightarrow> False)
     then fails (record_error_new RecNotAscending at')
     else if \<not> vv_covers covered d then fails (record_error_new NotCovered at')
     else if (case context of Some c \<Rightarrow> vv_covers c d | None \<Rightarrow> False)
     then fails (record_error_new LateValueCovered at')
     else
       then_read (read_err record_error_from cursor_hlc) (\<lambda>h.
       then_read (here cursor_offset) (\<lambda>value_at.
       then_read (parser_value lim) (\<lambda>v.
       if key_is_lifecycle key \<and> lifecycle_from_register_value v = None
       then fails (record_error_new InvalidLifecycleValue value_at)
       else yields \<lparr> en_dot = d, en_hlc = h, en_value = v \<rparr>)))))"

definition parser_register ::
  "limits \<Rightarrow> group \<Rightarrow> field_key option \<Rightarrow> version_vector \<Rightarrow> version_vector option \<Rightarrow> register rec_reads" where
  "parser_register lim grp previous covered context =
     then_read (parser_ordered_key previous (grp \<noteq> Late)) (\<lambda>key.
     then_read (here cursor_offset) (\<lambda>at'.
     then_read (parser_count (lim_values lim) MIN_ENTRY_LEN) (\<lambda>m.
     if m = 0 then fails (record_error_new EmptyRegister at')
     else
       then_read (read_list m (parser_entry lim key covered context) []) (\<lambda>entries.
       yields \<lparr> rg_key = key, rg_entries = entries \<rparr>))))"

definition parser_write :: "limits \<Rightarrow> field_write list \<Rightarrow> field_write rec_reads" where
  "parser_write lim writes =
     then_read (parser_ordered_key (map_option wr_key (last_opt writes)) False) (\<lambda>key.
     then_read (parser_value lim) (\<lambda>v.
     yields \<lparr> wr_key = key, wr_value = v \<rparr>))"

definition parser_op :: "limits \<Rightarrow> op_data rec_reads" where
  "parser_op lim =
     then_read (here cursor_offset) (\<lambda>at'.
     then_read (read_err record_error_from cursor_u8) (\<lambda>b.
     case lifecycle_from_u8 b of
       None \<Rightarrow> fails (record_error_new InvalidLifecycle at')
     | Some l \<Rightarrow>
         then_read (here cursor_offset) (\<lambda>at'.
         then_read (parser_count (lim_writes lim) MIN_WRITE_LEN) (\<lambda>n.
         if n > 0 \<and> l \<noteq> Active then fails (record_error_new WritesWithoutActive at')
         else
           then_read (read_list n (parser_write lim) []) (\<lambda>writes.
           then_read (read_err record_error_from cursor_finish) (\<lambda>_.
           yields \<lparr> op_lifecycle = l, op_writes = writes \<rparr>))))))"

fun shares_a_dot :: "entry list \<Rightarrow> entry list \<Rightarrow> bool" where
  "shares_a_dot (x # xs) (y # ys) =
     (if en_dot x < en_dot y then shares_a_dot xs (y # ys)
      else if en_dot x > en_dot y then shares_a_dot (x # xs) ys
      else True)"
| "shares_a_dot _ _ = False"

definition parser_current :: "limits \<Rightarrow> version_vector \<Rightarrow> register list \<Rightarrow> register rec_reads" where
  "parser_current lim covered registers =
     then_read (here cursor_offset) (\<lambda>at'.
     then_read (parser_register lim Current (map_option rg_key (last_opt registers)) covered None) (\<lambda>reg.
     if registers = [] \<and> \<not> key_is_lifecycle (rg_key reg)
     then fails (record_error_new MissingLifecycle at')
     else yields reg))"

text \<open>\<open>binary_search_by\<close> on the registers, which are strictly ascending by key here, finds the one
  register of that key.\<close>

definition parser_history ::
  "limits \<Rightarrow> version_vector \<Rightarrow> register list \<Rightarrow> register list \<Rightarrow> register rec_reads" where
  "parser_history lim covered registers history =
     then_read (here cursor_offset) (\<lambda>at'.
     then_read (parser_register lim History (map_option rg_key (last_opt history)) covered None) (\<lambda>grp.
     case find (\<lambda>g. rg_key g = rg_key grp) registers of
       None \<Rightarrow> fails (record_error_new OrphanHistory at')
     | Some current \<Rightarrow>
         if shares_a_dot (rg_entries current) (rg_entries grp)
         then fails (record_error_new DuplicateDot at')
         else yields grp))"

definition parser_live :: "limits \<Rightarrow> version_vector \<Rightarrow> live_snapshot rec_reads" where
  "parser_live lim covered =
     then_read (here cursor_offset) (\<lambda>at'.
     then_read (parser_count (lim_groups lim) MIN_REGISTER_LEN) (\<lambda>r.
     if r = 0 then fails (record_error_new NoRegister at')
     else
       then_read (read_list r (parser_current lim covered) []) (\<lambda>registers.
       then_read (parser_count (lim_groups lim) MIN_REGISTER_LEN) (\<lambda>h.
       then_read (read_list h (parser_history lim covered registers) []) (\<lambda>history.
       then_read (read_err record_error_from cursor_finish) (\<lambda>_.
       yields \<lparr> ls_registers = registers, ls_history = history \<rparr>))))))"

definition parser_late ::
  "limits \<Rightarrow> version_vector \<Rightarrow> version_vector \<Rightarrow> register list \<Rightarrow> register rec_reads" where
  "parser_late lim covered context late =
     parser_register lim Late (map_option rg_key (last_opt late)) covered (Some context)"

definition parser_key_id :: "id16 rec_reads" where
  "parser_key_id =
     then_read (read_err record_error_from (cursor_array 16)) (\<lambda>bs. yields (word_of_nat (be_val bs)))"

definition parser_tombstone :: "limits \<Rightarrow> version_vector \<Rightarrow> tombstone rec_reads" where
  "parser_tombstone lim covered =
     then_read (here cursor_offset) (\<lambda>at'.
     then_read (read_err record_error_from cursor_dot) (\<lambda>purge_dot.
     if \<not> vv_covers covered purge_dot then fails (record_error_new NotCovered at')
     else
       then_read (read_err record_error_from cursor_hlc) (\<lambda>purge_hlc.
       then_read (here cursor_offset) (\<lambda>at'.
       then_read (read_err record_error_from cursor_vv) (\<lambda>context.
       case position (\<lambda>d. \<not> vv_covers covered d) (vv_entries context) of
         Some i \<Rightarrow> fails (record_error_new NotCovered (at' + 2 + i * VV_ENTRY_LEN))
       | None \<Rightarrow>
           then_read parser_key_id (\<lambda>key_id.
           then_read (parser_count (lim_groups lim) MIN_REGISTER_LEN) (\<lambda>l.
           then_read (read_list l (parser_late lim covered context) []) (\<lambda>late.
           then_read (read_err record_error_from cursor_finish) (\<lambda>_.
           yields \<lparr> ts_purge_dot = purge_dot, ts_purge_hlc = purge_hlc, ts_context = context,
             ts_item_key_id = key_id, ts_late = late \<rparr>)))))))))"

definition op_with :: "bytes \<Rightarrow> limits \<Rightarrow> record_error + op_data" where
  "op_with data lim =
     (if length data > lim_op_data lim then Inl (record_error_new DataTooLong 0)
      else
        and_then
          (then_read (read_err record_error_from cursor_u8) (\<lambda>b.
             if b \<noteq> record_kind_to_u8 KindOp then fails (record_error_new WrongKind 0) else parser_op lim)
           (cursor_new data))
          (\<lambda>(op, _). Inr op))"

definition snapshot_with :: "version_vector \<Rightarrow> bytes \<Rightarrow> limits \<Rightarrow> record_error + snapshot_data" where
  "snapshot_with covered data lim =
     (if length data > lim_snapshot_data lim then Inl (record_error_new DataTooLong 0)
      else
        and_then
          (then_read (read_err record_error_from cursor_u8) (\<lambda>kind.
             if kind = record_kind_to_u8 KindLiveSnapshot
             then then_read (parser_live lim covered) (\<lambda>live. yields (SnapLive live))
             else if kind = record_kind_to_u8 KindTombstone
             then then_read (parser_tombstone lim covered) (\<lambda>t. yields (SnapTombstone t))
             else fails (record_error_new WrongKind 0))
           (cursor_new data))
          (\<lambda>(snapshot, _). Inr snapshot))"

definition parse_op :: "bytes \<Rightarrow> record_error + op_data" where
  "parse_op data = op_with data limits_v1"

definition parse_snapshot :: "version_vector \<Rightarrow> bytes \<Rightarrow> record_error + snapshot_data" where
  "parse_snapshot covered data = snapshot_with covered data limits_v1"

section \<open>The sizing pass\<close>

text \<open>The sizer's running length is passed along; its limits are an argument.\<close>

definition sizer_add :: "usize \<Rightarrow> usize \<Rightarrow> record_error + usize" where
  "sizer_add n len = ok_or (record_error_new DataTooLong 0) (checked_add len n)"

definition sizer_count :: "usize \<Rightarrow> usize \<Rightarrow> usize \<Rightarrow> record_error + usize" where
  "sizer_count n mx len = (if n > mx then Inl (record_error_new CountTooLarge len) else sizer_add 2 len)"

definition sizer_key :: "field_key \<Rightarrow> usize \<Rightarrow> record_error + usize" where
  "sizer_key key len = and_then (sizer_add 4 len) (sizer_add (key_len key))"

definition sizer_value :: "limits \<Rightarrow> field_value \<Rightarrow> usize \<Rightarrow> record_error + usize" where
  "sizer_value lim v len =
     (if length v > lim_value lim then Inl (record_error_new ValueTooLong len)
      else and_then (sizer_add 4 len) (sizer_add (length v)))"

fun sizer_each :: "('a \<Rightarrow> usize \<Rightarrow> record_error + usize) \<Rightarrow> 'a list \<Rightarrow> usize \<Rightarrow> record_error + usize" where
  "sizer_each f [] len = Inr len"
| "sizer_each f (x # xs) len = and_then (f x len) (sizer_each f xs)"

definition sizer_entry :: "limits \<Rightarrow> entry \<Rightarrow> usize \<Rightarrow> record_error + usize" where
  "sizer_entry lim e len = and_then (sizer_add (DOT_ENCODED_LEN + 8) len) (sizer_value lim (en_value e))"

definition sizer_register :: "limits \<Rightarrow> register \<Rightarrow> usize \<Rightarrow> record_error + usize" where
  "sizer_register lim reg len =
     and_then (sizer_key (rg_key reg) len) (\<lambda>len.
     and_then (sizer_count (length (rg_entries reg)) (lim_values lim) len)
       (sizer_each (sizer_entry lim) (rg_entries reg)))"

definition sizer_registers :: "limits \<Rightarrow> register list \<Rightarrow> usize \<Rightarrow> record_error + usize" where
  "sizer_registers lim regs len =
     and_then (sizer_count (length regs) (lim_groups lim) len) (sizer_each (sizer_register lim) regs)"

definition sizer_vv :: "version_vector \<Rightarrow> usize \<Rightarrow> record_error + usize" where
  "sizer_vv v len =
     (if vv_len v > VV_MAX_ENTRIES then Inl (record_error_new CountTooLarge len)
      else sizer_add (vv_encoded_len v) len)"

definition sizer_write :: "limits \<Rightarrow> field_write \<Rightarrow> usize \<Rightarrow> record_error + usize" where
  "sizer_write lim w len = and_then (sizer_key (wr_key w) len) (sizer_value lim (wr_value w))"

definition op_len :: "op_data \<Rightarrow> limits \<Rightarrow> record_error + usize" where
  "op_len op lim =
     and_then (sizer_count (length (op_writes op)) (lim_writes lim) 2) (\<lambda>len.
     and_then (sizer_each (sizer_write lim) (op_writes op) len) (\<lambda>len.
     if len > lim_op_data lim then Inl (record_error_new DataTooLong 0) else Inr len))"

definition snapshot_len :: "snapshot_data \<Rightarrow> limits \<Rightarrow> record_error + usize" where
  "snapshot_len snapshot lim =
     and_then
       (case snapshot of
          SnapLive live \<Rightarrow>
            and_then (sizer_registers lim (ls_registers live) 1) (sizer_registers lim (ls_history live))
        | SnapTombstone t \<Rightarrow>
            and_then (sizer_add (DOT_ENCODED_LEN + 8) 1) (\<lambda>len.
            and_then (sizer_vv (ts_context t) len) (\<lambda>len.
            and_then (sizer_add 16 len) (sizer_registers lim (ts_late t)))))
       (\<lambda>len. if len > lim_snapshot_data lim then Inl (record_error_new DataTooLong 0) else Inr len)"

section \<open>The writers\<close>

definition put_count :: "bytes \<Rightarrow> usize \<Rightarrow> bytes" where
  "put_count out n = put_u16 out (case u16_try_from n of Some w \<Rightarrow> w | None \<Rightarrow> 0xFFFF)"

definition rec_put_bytes :: "bytes \<Rightarrow> bytes \<Rightarrow> bytes" where
  "rec_put_bytes out x =
     put_u32 out (case u32_try_from (length x) of Some w \<Rightarrow> w | None \<Rightarrow> 0xFFFFFFFF) @ x"

definition put_vv :: "bytes \<Rightarrow> version_vector \<Rightarrow> bytes" where
  "put_vv out v = fold dot_encode (vv_entries v) (put_count out (vv_len v))"

definition put_entry :: "entry \<Rightarrow> bytes \<Rightarrow> bytes" where
  "put_entry e out = rec_put_bytes (put_u64 (dot_encode (en_dot e) out) (en_hlc e)) (en_value e)"

definition put_register :: "register \<Rightarrow> bytes \<Rightarrow> bytes" where
  "put_register reg out =
     fold put_entry (rg_entries reg)
       (put_count (rec_put_bytes out (key_bytes (rg_key reg))) (length (rg_entries reg)))"

definition put_registers :: "bytes \<Rightarrow> register list \<Rightarrow> bytes" where
  "put_registers out regs = fold put_register regs (put_count out (length regs))"

definition put_op :: "bytes \<Rightarrow> op_data \<Rightarrow> bytes" where
  "put_op out op =
     fold (\<lambda>w out. rec_put_bytes (rec_put_bytes out (key_bytes (wr_key w))) (wr_value w)) (op_writes op)
       (put_count (put_u8 (put_u8 out (record_kind_to_u8 KindOp)) (lifecycle_to_u8 (op_lifecycle op)))
         (length (op_writes op)))"

definition put_snapshot :: "bytes \<Rightarrow> snapshot_data \<Rightarrow> bytes" where
  "put_snapshot out snapshot =
     (let out = put_u8 out (record_kind_to_u8 (snapshot_kind snapshot))
      in case snapshot of
           SnapLive live \<Rightarrow> put_registers (put_registers out (ls_registers live)) (ls_history live)
         | SnapTombstone t \<Rightarrow>
             put_registers
               (put_vv (put_u64 (dot_encode (ts_purge_dot t) out) (ts_purge_hlc t)) (ts_context t) @
                id_bytes (ts_item_key_id t))
               (ts_late t))"

definition encode_op :: "op_data \<Rightarrow> record_error + bytes" where
  "encode_op op =
     and_then (op_len op limits_v1) (\<lambda>_.
     let out = put_op [] op
     in and_then (op_with out limits_v1) (\<lambda>_. Inr out))"

definition encode_snapshot :: "version_vector \<Rightarrow> snapshot_data \<Rightarrow> record_error + bytes" where
  "encode_snapshot covered snapshot =
     and_then (snapshot_len snapshot limits_v1) (\<lambda>_.
     let out = put_snapshot [] snapshot
     in and_then (snapshot_with covered out limits_v1) (\<lambda>_. Inr out))"

definition canonical_state :: "version_vector \<Rightarrow> snapshot_data \<Rightarrow> record_error + bytes" where
  "canonical_state covered snapshot =
     and_then (snapshot_len snapshot limits_unbounded) (\<lambda>data_len.
     and_then (sizer_vv covered 2) (\<lambda>prefix.
     and_then (ok_or (record_error_new DataTooLong 0) (checked_add prefix data_len)) (\<lambda>_.
     and_then (map_err (\<lambda>_. record_error_new CountTooLarge 2)
         (vv_encode covered (put_u16 [] (isv_get isv_v1)))) (\<lambda>out.
     let out = put_snapshot out snapshot
     in and_then (snapshot_with covered (drop prefix out) limits_unbounded) (\<lambda>_. Inr out)))))"

end
