(* ===== verification/Item_Values.thy ===== *)
theory Item_Values
  imports Item_Records
begin

text \<open>
  Field values (\<open>rizzy-core/src/item/value.rs\<close>): the typed value encoding, its decoder and
  encoder, sort-key payloads, and what a key expects of its value (\<open>Expected\<close> and \<open>read_value\<close>
  of \<open>schema.rs\<close>). A \<open>Value\<close> is its encoded bytes; the zeroizing buffer has no counterpart, and a
  \<open>&str\<close> is the UTF-8 bytes it points to.
\<close>

section \<open>Types\<close>

definition VALUE_MAX_LEN :: usize where "VALUE_MAX_LEN = 65536"
definition MAX_SORT_KEY_LEN :: usize where "MAX_SORT_KEY_LEN = 64"

datatype value_type = TyText | TyBytes | TyBool | TyU64 | TyEnum | TySortKey

fun value_type_id :: "value_type \<Rightarrow> u8" where
  "value_type_id TyText = 0x01"
| "value_type_id TyBytes = 0x02"
| "value_type_id TyBool = 0x03"
| "value_type_id TyU64 = 0x04"
| "value_type_id TyEnum = 0x05"
| "value_type_id TySortKey = 0x06"

definition value_type_from_id :: "u8 \<Rightarrow> value_type option" where
  "value_type_from_id b =
     (if b = 0x01 then Some TyText else if b = 0x02 then Some TyBytes else if b = 0x03 then Some TyBool
      else if b = 0x04 then Some TyU64 else if b = 0x05 then Some TyEnum else if b = 0x06 then Some TySortKey
      else None)"

datatype value_error = ValTooLong | ValUnknownType | ValMalformed

datatype value_ref =
    VCleared | VText bytes | VBytes bytes | VBool bool | VU64 u64 | VEnum u16 | VSortKey bytes

section \<open>Codec\<close>

definition is_sort_key :: "bytes \<Rightarrow> bool" where
  "is_sort_key payload \<longleftrightarrow>
     length payload \<le> MAX_SORT_KEY_LEN \<and> (case last_opt payload of None \<Rightarrow> False | Some b \<Rightarrow> b \<noteq> 0x00)"

definition value_decode :: "bytes \<Rightarrow> value_error + value_ref" where
  "value_decode encoded =
     (if length encoded > VALUE_MAX_LEN then Inl ValTooLong
      else case encoded of
        [] \<Rightarrow> Inr VCleared
      | type_id # payload \<Rightarrow>
          (case value_type_from_id type_id of
             None \<Rightarrow> Inl ValUnknownType
           | Some TyText \<Rightarrow> if is_utf8 payload then Inr (VText payload) else Inl ValMalformed
           | Some TyBytes \<Rightarrow> Inr (VBytes payload)
           | Some TyBool \<Rightarrow>
               if payload = [0x00] then Inr (VBool False)
               else if payload = [0x01] then Inr (VBool True)
               else Inl ValMalformed
           | Some TyU64 \<Rightarrow>
               if length payload = 8 then Inr (VU64 (word_of_nat (be_val payload))) else Inl ValMalformed
           | Some TyEnum \<Rightarrow>
               if length payload = 2 then Inr (VEnum (word_of_nat (be_val payload))) else Inl ValMalformed
           | Some TySortKey \<Rightarrow>
               if is_sort_key payload then Inr (VSortKey payload) else Inl ValMalformed))"

fun value_type_of :: "value_ref \<Rightarrow> value_type option" where
  "value_type_of VCleared = None"
| "value_type_of (VText _) = Some TyText"
| "value_type_of (VBytes _) = Some TyBytes"
| "value_type_of (VBool _) = Some TyBool"
| "value_type_of (VU64 _) = Some TyU64"
| "value_type_of (VEnum _) = Some TyEnum"
| "value_type_of (VSortKey _) = Some TySortKey"

definition value_is_cleared :: "value_ref \<Rightarrow> bool" where
  "value_is_cleared v \<longleftrightarrow> v = VCleared"

definition value_typed :: "value_type \<Rightarrow> bytes \<Rightarrow> value_error + bytes" where
  "value_typed ty payload =
     (case checked_add (length payload) 1 of
        None \<Rightarrow> Inl ValTooLong
      | Some len \<Rightarrow> if len \<le> VALUE_MAX_LEN then Inr (value_type_id ty # payload) else Inl ValTooLong)"

definition value_fixed :: "value_type \<Rightarrow> bytes \<Rightarrow> bytes" where
  "value_fixed ty payload = value_type_id ty # payload"

definition value_text :: "bytes \<Rightarrow> value_error + bytes" where
  "value_text text' = value_typed TyText text'"

definition value_bytes :: "bytes \<Rightarrow> value_error + bytes" where
  "value_bytes bs = value_typed TyBytes bs"

definition value_bool :: "bool \<Rightarrow> bytes" where
  "value_bool b = value_fixed TyBool [if b then 0x01 else 0x00]"

definition value_u64 :: "u64 \<Rightarrow> bytes" where
  "value_u64 v = value_fixed TyU64 (u64_bytes v)"

definition value_enumeration :: "u16 \<Rightarrow> bytes" where
  "value_enumeration v = value_fixed TyEnum (u16_bytes v)"

fun value_encode :: "value_ref \<Rightarrow> value_error + bytes" where
  "value_encode VCleared = Inr []"
| "value_encode (VText t) = value_text t"
| "value_encode (VBytes bs) = value_bytes bs"
| "value_encode (VBool b) = Inr (value_bool b)"
| "value_encode (VU64 v) = Inr (value_u64 v)"
| "value_encode (VEnum v) = Inr (value_enumeration v)"
| "value_encode (VSortKey payload) =
     (if is_sort_key payload then value_typed TySortKey payload else Inl ValMalformed)"

definition value_copy_from_encoded :: "bytes \<Rightarrow> value_error + bytes" where
  "value_copy_from_encoded encoded =
     (if length encoded > VALUE_MAX_LEN then Inl ValTooLong else Inr encoded)"

definition sort_key_from_slice :: "bytes \<Rightarrow> value_error + bytes" where
  "sort_key_from_slice payload = (if is_sort_key payload then Inr payload else Inl ValMalformed)"

section \<open>What a key expects\<close>

datatype expected =
    ExText | ExBool | ExU64 | ExEnum | ExSortKey | ExBytes usize | ExBytesMax usize
  | ExCustomFieldValue | ExTagMarker

fun expected_accepts :: "expected \<Rightarrow> value_ref \<Rightarrow> bool" where
  "expected_accepts _ VCleared = True"
| "expected_accepts ExText (VText _) = True"
| "expected_accepts ExCustomFieldValue (VText _) = True"
| "expected_accepts ExBool (VBool _) = True"
| "expected_accepts ExCustomFieldValue (VBool _) = True"
| "expected_accepts ExU64 (VU64 _) = True"
| "expected_accepts ExEnum (VEnum _) = True"
| "expected_accepts ExSortKey (VSortKey _) = True"
| "expected_accepts ExTagMarker (VBool b) = b"
| "expected_accepts (ExBytes n) (VBytes bs) = (length bs = n)"
| "expected_accepts (ExBytesMax n) (VBytes bs) = (length bs \<le> n)"
| "expected_accepts _ _ = False"

definition read_value :: "expected \<Rightarrow> bytes \<Rightarrow> value_ref option" where
  "read_value ex encoded =
     (case value_decode encoded of
        Inl _ \<Rightarrow> None
      | Inr v \<Rightarrow> if expected_accepts ex v then Some v else None)"

section \<open>One encoding per value\<close>

text \<open>A \<open>&str\<close> holds valid UTF-8.\<close>

fun value_wf :: "value_ref \<Rightarrow> bool" where
  "value_wf (VText t) = is_utf8 t"
| "value_wf _ = True"

lemma value_type_from_id_Some: "value_type_from_id b = Some ty \<longleftrightarrow> b = value_type_id ty"
  by (cases ty) (auto simp: value_type_from_id_def)

lemma value_typed_Inr: "value_typed ty p = Inr bs \<longleftrightarrow> length p < VALUE_MAX_LEN \<and> bs = value_type_id ty # p"
  by (auto simp: value_typed_def checked_add_def VALUE_MAX_LEN_def usize_max_def)

lemma sort_key_short: "is_sort_key p \<Longrightarrow> length p < VALUE_MAX_LEN"
  by (simp add: is_sort_key_def MAX_SORT_KEY_LEN_def VALUE_MAX_LEN_def)

lemma word_bytes_iff:
  "length p = 8 \<and> word_of_nat (be_val p) = v \<longleftrightarrow> p = u64_bytes v"
  "length q = 2 \<and> word_of_nat (be_val q) = w \<longleftrightarrow> q = u16_bytes w"
  by (auto simp: length_word_bytes)

definition value_form :: "value_ref \<Rightarrow> bytes \<Rightarrow> bool" where
  "value_form v bs =
     (case v of
        VCleared \<Rightarrow> bs = []
      | VText t \<Rightarrow> is_utf8 t \<and> length t < VALUE_MAX_LEN \<and> bs = 0x01 # t
      | VBytes t \<Rightarrow> length t < VALUE_MAX_LEN \<and> bs = 0x02 # t
      | VBool b \<Rightarrow> bs = [0x03, if b then 0x01 else 0x00]
      | VU64 x \<Rightarrow> bs = 0x04 # u64_bytes x
      | VEnum x \<Rightarrow> bs = 0x05 # u16_bytes x
      | VSortKey p \<Rightarrow> is_sort_key p \<and> bs = 0x06 # p)"

lemma value_encode_form: "value_wf v \<and> value_encode v = Inr bs \<longleftrightarrow> value_form v bs"
  using sort_key_short
  by (cases v) (auto simp: value_form_def value_text_def value_bytes_def value_bool_def value_u64_def
      value_enumeration_def value_fixed_def value_typed_Inr)

lemma if_Inr: "(if P then Inr a else Inl e) = Inr b \<longleftrightarrow> P \<and> a = b"
  by simp

lemma value_form_len: "value_form v bs \<Longrightarrow> length bs \<le> VALUE_MAX_LEN"
  by (cases v) (auto simp: value_form_def length_word_bytes VALUE_MAX_LEN_def is_sort_key_def MAX_SORT_KEY_LEN_def)

lemma value_decode_form: "value_decode bs = Inr v \<longleftrightarrow> value_form v bs"
proof (cases "length bs \<le> VALUE_MAX_LEN")
  case True
  show ?thesis
  proof (cases bs)
    case Nil
    then show ?thesis by (cases v) (auto simp: value_decode_def value_form_def)
  next
    case (Cons b p)
    show ?thesis
    proof (cases "value_type_from_id b")
      case None
      with True show ?thesis
        by (cases v) (auto simp: value_decode_def value_form_def Cons value_type_from_id_def split: if_splits)
    next
      case (Some ty)
      then have b: "b = value_type_id ty" by (simp add: value_type_from_id_Some)
      with Some have ty: "value_type_from_id (value_type_id ty) = Some ty" by simp
      show ?thesis
        using True ty word_bytes_iff(1) [of p] word_bytes_iff(2) [of p]
        by (cases ty) (cases v; auto simp: value_decode_def value_form_def Cons b if_Inr)+
    qed
  qed
next
  case False
  then show ?thesis using value_form_len [of v bs] by (auto simp: value_decode_def)
qed

text \<open>A value has exactly one encoding: the decoder reads a value from a byte string if and only
  if the value is well formed and the encoder writes those bytes for it. Unknown types and
  malformed payloads are refused by both.\<close>
theorem value_one_encoding: "(value_decode bs = Inr v) = (value_wf v \<and> value_encode v = Inr bs)"
  by (simp only: value_decode_form value_encode_form)

end
