(* ===== verification/Item_Order.thy ===== *)
theory Item_Order
  imports Item_Values
begin

text \<open>
  List elements and their order (\<open>rizzy-core/src/item/order.rs\<close>): which elements exist, how a list
  sorts, and the sort keys a writer makes. A \<open>&str\<close> is its UTF-8 bytes. Sort keys compare bytewise,
  which is the lexicographic order of lists. Shown: a key made between two neighbours lies strictly
  between them, evenly spaced keys ascend and are valid, and the list order is a total order of
  (sort key, element id) pairs.
\<close>

section \<open>Elements\<close>

datatype attribute_role = Content | Layout

definition ATTR_ORDER :: bytes where "ATTR_ORDER = map of_char ''order''"
definition ATTR_MATCH :: bytes where "ATTR_MATCH = map of_char ''match''"
definition ATTR_KIND :: bytes where "ATTR_KIND = map of_char ''kind''"

definition attribute_role_of :: "bytes option \<Rightarrow> attribute_role" where
  "attribute_role_of attr =
     (case attr of
        Some a \<Rightarrow> if a = ATTR_ORDER \<or> a = ATTR_MATCH \<or> a = ATTR_KIND then Layout else Content
      | None \<Rightarrow> Content)"

definition element_exists :: "(bytes option \<times> bytes) list \<Rightarrow> bool" where
  "element_exists attributes =
     list_ex (\<lambda>(attr, displayed). attribute_role_of attr = Content \<and> displayed \<noteq> []) attributes"

record list_entry =
  le_order :: "bytes option"
  le_element :: bytes

definition entry_sort_key :: "list_entry \<Rightarrow> bytes option" where
  "entry_sort_key e =
     (case le_order e of
        None \<Rightarrow> None
      | Some v \<Rightarrow> (case value_decode v of Inr (VSortKey payload) \<Rightarrow> Some payload | _ \<Rightarrow> None))"

datatype ordering = OrdLess | OrdEqual | OrdGreater

definition bytes_cmp :: "bytes \<Rightarrow> bytes \<Rightarrow> ordering" where
  "bytes_cmp x y = (if x < y then OrdLess else if x = y then OrdEqual else OrdGreater)"

definition compare_list_entries :: "list_entry \<Rightarrow> list_entry \<Rightarrow> ordering" where
  "compare_list_entries a b =
     (let by_order = (case (entry_sort_key a, entry_sort_key b) of
            (Some x, Some y) \<Rightarrow> bytes_cmp x y
          | (Some _, None) \<Rightarrow> OrdLess
          | (None, Some _) \<Rightarrow> OrdGreater
          | (None, None) \<Rightarrow> OrdEqual)
      in if by_order = OrdEqual then bytes_cmp (le_element a) (le_element b) else by_order)"

section \<open>New sort keys\<close>

datatype order_error = InvalidNeighbour | NotOrdered | NoRoom | TooMany

text \<open>The loop over the digit positions: \<open>bounded\<close> is the upper bound while the digits written so
  far are its prefix.\<close>

fun between_digits :: "bytes \<Rightarrow> bytes option \<Rightarrow> bytes \<Rightarrow> nat list \<Rightarrow> order_error + bytes" where
  "between_digits lower bounded written [] = Inl NoRoom"
| "between_digits lower bounded written (i # positions) =
     (let lo = (if i < length lower then unat (lower ! i) else 0);
          hi = (case bounded of None \<Rightarrow> 256 | Some u \<Rightarrow> if i < length u then unat (u ! i) else 0);
          digit = (if lo + 2 \<le> hi then (lo + hi) div 2 else lo);
          written = written @ [word_of_nat digit]
      in if lo + 2 \<le> hi then map_err (\<lambda>_. NoRoom) (sort_key_from_slice written)
         else between_digits lower (if lo < hi then None else bounded) written positions)"

definition sort_key_between :: "bytes option \<Rightarrow> bytes option \<Rightarrow> order_error + bytes" where
  "sort_key_between lower upper =
     (if (case lower of None \<Rightarrow> False | Some k \<Rightarrow> \<not> is_sort_key k) \<or> (case upper of None \<Rightarrow> False | Some k \<Rightarrow> \<not> is_sort_key k)
      then Inl InvalidNeighbour
      else
        let search = between_digits (case lower of None \<Rightarrow> [] | Some k \<Rightarrow> k) upper [] [0..<MAX_SORT_KEY_LEN] in
        case (lower, upper) of
          (Some lo, Some hi) \<Rightarrow> if hi < lo then Inl NotOrdered else if lo = hi then Inl NoRoom else search
        | _ \<Rightarrow> search)"

text \<open>The fewest bytes that number more than \<open>count\<close> keys.\<close>

function key_width :: "nat \<Rightarrow> nat \<Rightarrow> nat" where
  "key_width count k = (if count div 2 ^ (8 * k) \<noteq> 0 then key_width count (k + 1) else k)"
  by pat_completeness auto
termination
proof (relation "measure (\<lambda>(count, k). count - k)", goal_cases)
  case (2 count k)
  have "k < 2 ^ (8 * k)" by (rule less_le_trans [OF less_exp]) (simp add: power_increasing)
  moreover have "2 ^ (8 * k) \<le> count" using 2 by (simp add: div_eq_0_iff not_less)
  ultimately show ?case by simp
qed simp

declare key_width.simps [simp del]

text \<open>A point of the key space as a key: its last \<open>k\<close> big-endian bytes up to the last that is not
  zero.\<close>

definition spaced_key :: "nat \<Rightarrow> nat \<Rightarrow> order_error + bytes" where
  "spaced_key k point =
     (let digits = drop (16 - k) (be_bytes 16 point)
      in case last_opt (filter (\<lambda>j. digits ! j \<noteq> 0) [0..<length digits]) of
           None \<Rightarrow> Inl TooMany
         | Some e \<Rightarrow> map_err (\<lambda>_. TooMany) (sort_key_from_slice (take (Suc e) digits)))"

fun spaced_keys :: "nat \<Rightarrow> nat \<Rightarrow> nat \<Rightarrow> nat list \<Rightarrow> order_error + bytes list" where
  "spaced_keys count k space [] = Inr []"
| "spaced_keys count k space (i # is) =
     and_then (spaced_key k ((i + 1) * space div (count + 1))) (\<lambda>key.
     and_then (spaced_keys count k space is) (\<lambda>keys. Inr (key # keys)))"

definition evenly_spaced :: "usize \<Rightarrow> order_error + bytes list" where
  "evenly_spaced n =
     (if 2 ^ 64 \<le> n then Inl TooMany
      else if 2 ^ 32 \<le> n then Inl TooMany
      else let k = key_width n 1 in spaced_keys n k (2 ^ (8 * k)) [0..<n])"

section \<open>Bytewise order\<close>

lemma is_sort_key_iff: "is_sort_key k \<longleftrightarrow> k \<noteq> [] \<and> length k \<le> MAX_SORT_KEY_LEN \<and> last k \<noteq> 0"
  by (cases k rule: rev_cases) (auto simp: is_sort_key_def last_opt_def)

lemma sort_key_above_nil: "is_sort_key k \<Longrightarrow> [] < k"
  by (cases k) (auto simp: is_sort_key_iff)

lemma less_append_iff [simp]: "(p @ xs :: bytes) < p @ ys \<longleftrightarrow> xs < ys"
  by (induction p) auto

lemma sort_key_slice [simp]: "sort_key_from_slice k = Inr x \<longleftrightarrow> is_sort_key k \<and> x = k"
  by (auto simp: sort_key_from_slice_def)

section \<open>List order\<close>

text \<open>\<open>compare_list_entries\<close> is a total order of (sort key, element id) pairs.\<close>

lemma compare_equal:
  "compare_list_entries a b = OrdEqual \<longleftrightarrow> entry_sort_key a = entry_sort_key b \<and> le_element a = le_element b"
  by (auto simp: compare_list_entries_def bytes_cmp_def Let_def split: option.splits if_splits)

lemma compare_flip: "compare_list_entries a b = OrdLess \<longleftrightarrow> compare_list_entries b a = OrdGreater"
  by (auto simp: compare_list_entries_def bytes_cmp_def Let_def split: option.splits if_splits)

lemma compare_trans:
  assumes "compare_list_entries a b = OrdLess" "compare_list_entries b c = OrdLess"
  shows "compare_list_entries a c = OrdLess"
  using assms
  by (cases "entry_sort_key a"; cases "entry_sort_key b"; cases "entry_sort_key c")
    (auto simp: compare_list_entries_def bytes_cmp_def Let_def split: if_splits)

section \<open>Between two neighbours\<close>

lemma digit_bounds:
  fixes lo hi :: nat
  assumes "lo + 2 \<le> hi" "hi \<le> 256"
  shows "lo < (lo + hi) div 2" "(lo + hi) div 2 < hi" "unat (word_of_nat ((lo + hi) div 2) :: u8) = (lo + hi) div 2"
  using assms by (auto simp: unat_of_nat)

definition digit_at :: "bytes \<Rightarrow> nat \<Rightarrow> nat" where
  "digit_at xs i = (if i < length xs then unat (xs ! i) else 0)"

definition upper_at :: "bytes option \<Rightarrow> nat \<Rightarrow> nat" where
  "upper_at b i = (case b of None \<Rightarrow> 256 | Some u \<Rightarrow> digit_at u i)"

lemma between_digits_Cons:
  "between_digits l b written (i # is) =
     (if digit_at l i + 2 \<le> upper_at b i
      then map_err (\<lambda>_. NoRoom) (sort_key_from_slice (written @ [word_of_nat ((digit_at l i + upper_at b i) div 2)]))
      else between_digits l (if digit_at l i < upper_at b i then None else b) (written @ [word_of_nat (digit_at l i)]) is)"
  unfolding digit_at_def upper_at_def by (simp only: between_digits.simps(2) Let_def if_True if_False cong: if_cong)

declare between_digits.simps(2) [simp del]

lemma byte_le: "unat (b :: u8) < 256" "unat (b :: u8) \<le> 256"
  using unat_word_less [of b] by simp_all

lemma digit_less: "digit_at xs i < 256" "upper_at b i \<le> 256"
  using byte_le by (auto simp: digit_at_def upper_at_def split: option.splits)

lemma drop_digit:
  "drop i xs = word_of_nat (digit_at xs i) # drop (Suc i) xs \<or> drop i xs = [] \<and> digit_at xs i = 0 \<and> drop (Suc i) xs = []"
  by (auto simp: digit_at_def Cons_nth_drop_Suc)

lemma drop_upper: "drop i l < drop i u \<Longrightarrow> drop i u = word_of_nat (digit_at u i) # drop (Suc i) u"
  using drop_digit [of i u] by (cases "drop i u") auto

text \<open>A digit that leaves no room and does not fall below the bound's keeps the suffixes in order.\<close>

lemma bounds_step:
  assumes "drop i l < drop i u" "last u \<noteq> 0" "digit_at u i \<le> digit_at l i"
  shows "digit_at u i = digit_at l i \<and> drop (Suc i) l < drop (Suc i) u"
  using drop_digit [of i l]
proof
  assume "drop i l = word_of_nat (digit_at l i) # drop (Suc i) l"
  then have "word_of_nat (digit_at l i) # drop (Suc i) l < word_of_nat (digit_at u i) # drop (Suc i) u"
    using assms(1) drop_upper [OF assms(1)] by simp
  moreover have "unat (word_of_nat (digit_at xs i) :: u8) = digit_at xs i" for xs
    using digit_less(1) [of xs i] by (simp add: unat_of_nat)
  ultimately show ?thesis using assms(3) by (metis Cons_less_Cons not_less word_less_nat_alt)
next
  assume d: "drop i l = [] \<and> digit_at l i = 0 \<and> drop (Suc i) l = []"
  have "drop (Suc i) u \<noteq> []"
  proof
    assume "drop (Suc i) u = []"
    with drop_upper [OF assms(1)] have "drop i u = [word_of_nat (digit_at u i)]" by simp
    then have "last u = word_of_nat (digit_at u i)"
      by (metis last_ConsL last_drop length_drop length_greater_0_conv list.distinct(1) zero_less_diff)
    then show False using assms(2,3) d by simp
  qed
  then show ?thesis using d assms(3) by (cases "drop (Suc i) u") auto
qed

text \<open>What the loop finds, over the suffixes of the bounds.\<close>

lemma between_digits_ok:
  assumes "between_digits l b written [i..<n] = Inr k" "length written = i"
    "\<And>u. b = Some u \<Longrightarrow> drop i l < drop i u \<and> last u \<noteq> 0"
  shows "\<exists>ks. k = written @ ks \<and> drop i l < ks \<and> is_sort_key k \<and> (\<forall>u. b = Some u \<longrightarrow> ks < drop i u)"
  using assms
proof (induction "n - i" arbitrary: i b written)
  case (Suc m)
  then have i: "[i..<n] = i # [Suc i..<n]" by (simp add: upt_conv_Cons)
  define lo hi where lh: "lo = digit_at l i" "hi = upper_at b i"
  have lo: "lo < 256" and hi: "hi \<le> 256" using digit_less by (simp_all add: lh)
  have dl: "drop i l = word_of_nat lo # drop (Suc i) l \<or> drop i l = [] \<and> lo = 0 \<and> drop (Suc i) l = []"
    using drop_digit [of i l] by (simp only: lh)
  have du: "drop i u = word_of_nat hi # drop (Suc i) u \<and> hi = digit_at u i" if "b = Some u" for u
    using drop_upper [of i l u] Suc.prems(3) [OF that] that by (simp add: lh upper_at_def)
  show ?case
  proof (cases "lo + 2 \<le> hi")
    case True
    let ?d = "word_of_nat ((lo + hi) div 2) :: u8"
    have k: "k = written @ [?d]" "is_sort_key k"
      using Suc.prems(1) True unfolding i between_digits_Cons lh [symmetric] by auto
    note d = digit_bounds [OF True hi]
    have "word_of_nat lo < ?d" using d lo by (simp add: word_less_nat_alt unat_of_nat)
    then have "drop i l < [?d]" using dl by auto
    moreover have "[?d] < drop i u" if "b = Some u" for u
    proof -
      have "hi < 256" using du [OF that] digit_less(1) by metis
      then have "?d < word_of_nat hi" using d by (simp add: word_less_nat_alt unat_of_nat)
      then show ?thesis using du [OF that] by simp
    qed
    ultimately show ?thesis using k by auto
  next
    case False
    let ?b = "if lo < hi then None else b" and ?w = "written @ [word_of_nat lo]"
    have r: "between_digits l ?b ?w [Suc i..<n] = Inr k"
      using Suc.prems(1) False unfolding i between_digits_Cons lh [symmetric] by auto
    have up: "drop (Suc i) l < drop (Suc i) u \<and> last u \<noteq> 0" if "?b = Some u" for u
    proof -
      have b: "b = Some u" "hi \<le> lo" using that by (auto split: if_splits)
      then show ?thesis using bounds_step Suc.prems(3) [OF b(1)] du [OF b(1)] lh(1) by metis
    qed
    obtain ks where ks: "k = ?w @ ks" "drop (Suc i) l < ks" "is_sort_key k" "\<forall>u. ?b = Some u \<longrightarrow> ks < drop (Suc i) u"
    proof -
      have "m = n - Suc i" "length ?w = Suc i" using Suc.hyps(2) Suc.prems(2) by simp_all
      then show ?thesis using Suc.hyps(1) [OF _ r _ up] that by blast
    qed
    have "drop i l < word_of_nat lo # ks" using dl ks(2) by auto
    moreover have "word_of_nat lo # ks < drop i u" if b: "b = Some u" for u
    proof (cases "lo < hi")
      case True
      moreover have "hi < 256" using du [OF b] digit_less(1) by metis
      ultimately show ?thesis using du [OF b] lo by (simp add: word_less_nat_alt unat_of_nat)
    next
      case False
      then have "hi = lo" using bounds_step Suc.prems(3) [OF b] du [OF b] lh(1) by (metis not_less)
      then show ?thesis using du [OF b] ks(4) b False by simp
    qed
    ultimately show ?thesis using ks(1,3) by auto
  qed
qed simp

lemma between_digits_NoRoom: "between_digits l b written is = Inl e \<Longrightarrow> e = NoRoom"
  by (induction "is" arbitrary: b written) (auto simp: between_digits_Cons map_err_def split: if_splits sum.splits)

text \<open>Neighbours shorter than the limit always leave room.\<close>

lemma between_digits_room:
  assumes "length l < n" "i < n" "n \<le> MAX_SORT_KEY_LEN" "length written = i"
    "\<And>u. b = Some u \<Longrightarrow> drop i l < drop i u \<and> last u \<noteq> 0 \<and> length u < n"
  shows "between_digits l b written [i..<n] \<noteq> Inl e"
  using assms
proof (induction "n - i" arbitrary: i b written)
  case (Suc m)
  then have i: "[i..<n] = i # [Suc i..<n]" by (simp add: upt_conv_Cons)
  show ?case
  proof (cases "digit_at l i + 2 \<le> upper_at b i")
    case True
    note d = digit_bounds [OF this digit_less(2)]
    have "is_sort_key (written @ [word_of_nat ((digit_at l i + upper_at b i) div 2)])"
      using d Suc.prems(2-4) by (auto simp: is_sort_key_iff dest!: arg_cong [of _ "0 :: u8" unat])
    then show ?thesis using True unfolding i between_digits_Cons by (simp add: sort_key_from_slice_def)
  next
    case False
    let ?b = "if digit_at l i < upper_at b i then None else b"
    have up: "drop (Suc i) l < drop (Suc i) u \<and> last u \<noteq> 0 \<and> length u < n" if "?b = Some u" for u
    proof -
      have b: "b = Some u" "digit_at u i \<le> digit_at l i" using that by (auto simp: upper_at_def split: if_splits)
      then show ?thesis using bounds_step Suc.prems(5) [OF b(1)] by metis
    qed
    have "Suc i < n"
    proof (rule ccontr)
      assume "\<not> Suc i < n"
      then have l: "length l \<le> i" "digit_at l i = 0" using Suc.prems(1) by (auto simp: digit_at_def)
      then obtain u where "b = Some u" using False by (cases b) (auto simp: upper_at_def)
      moreover from this have "drop i u = []" using Suc.prems(5) \<open>\<not> Suc i < n\<close> by fastforce
      ultimately show False using Suc.prems(5) by fastforce
    qed
    then have "between_digits l ?b (written @ [word_of_nat (digit_at l i)]) [Suc i..<n] \<noteq> Inl e"
      using Suc.hyps(2) Suc.prems(1,3,4) by (intro Suc.hyps(1) up) auto
    then show ?thesis using False unfolding i between_digits_Cons by simp
  qed
qed simp

text \<open>C99: a made sort key lies strictly between its neighbours. Whatever the neighbours, a key
  that \<open>sort_key_between\<close> answers is a valid sort key above the lower neighbour and below the upper
  one. It is refused only for a neighbour that is no sort key, for neighbours out of order, for
  equal neighbours, or beside a neighbour of the full 64 bytes.\<close>
theorem sort_key_strictly_between:
  "case sort_key_between lower upper of
     Inr k \<Rightarrow> is_sort_key k \<and> (case lower of None \<Rightarrow> True | Some l \<Rightarrow> l < k) \<and> (case upper of None \<Rightarrow> True | Some u \<Rightarrow> k < u)
   | Inl InvalidNeighbour \<Rightarrow> \<exists>k. k \<in> set_option lower \<union> set_option upper \<and> \<not> is_sort_key k
   | Inl NotOrdered \<Rightarrow> \<exists>l u. lower = Some l \<and> upper = Some u \<and> u < l
   | Inl NoRoom \<Rightarrow> lower = upper \<and> lower \<noteq> None \<or>
       (\<exists>k. k \<in> set_option lower \<union> set_option upper \<and> length k = MAX_SORT_KEY_LEN)
   | Inl TooMany \<Rightarrow> False"
proof -
  define l where "l = (case lower of None \<Rightarrow> [] | Some k \<Rightarrow> k)"
  define search where "search = between_digits l upper [] [0..<MAX_SORT_KEY_LEN]"
  let ?bad = "\<exists>k. k \<in> set_option lower \<union> set_option upper \<and> \<not> is_sort_key k"
  have split: "sort_key_between lower upper =
    (if ?bad then Inl InvalidNeighbour
     else if \<exists>l u. lower = Some l \<and> upper = Some u \<and> u < l then Inl NotOrdered
     else if lower = upper \<and> lower \<noteq> None then Inl NoRoom else search)"
    unfolding sort_key_between_def search_def l_def by (cases lower; cases upper) auto
  have above: "l < u" if "\<not> ?bad" "\<nexists>l u. lower = Some l \<and> upper = Some u \<and> u < l" "\<not> (lower = upper \<and> lower \<noteq> None)" "upper = Some u" for u
    using that by (cases lower) (auto simp: l_def sort_key_above_nil not_less)
  consider (invalid) "sort_key_between lower upper = Inl InvalidNeighbour" ?bad
    | (order) "sort_key_between lower upper = Inl NotOrdered" "\<exists>l u. lower = Some l \<and> upper = Some u \<and> u < l"
    | (equal) "sort_key_between lower upper = Inl NoRoom" "lower = upper" "lower \<noteq> None"
    | (search) "sort_key_between lower upper = search" "\<forall>k \<in> set_option lower \<union> set_option upper. is_sort_key k"
        "\<forall>u. upper = Some u \<longrightarrow> l < u"
    using split above by (metis (no_types, lifting))
  then show ?thesis
  proof cases
    case search
    have u: "drop 0 l < drop 0 u \<and> last u \<noteq> 0" if "upper = Some u" for u
      using search(2,3) that by (auto simp: is_sort_key_iff)
    show ?thesis
    proof (cases search)
      case (Inr k)
      then show ?thesis
        using between_digits_ok [of l upper "[]" 0 MAX_SORT_KEY_LEN k, OF _ _ u] search(1)
        by (auto simp: search_def l_def split: option.splits)
    next
      case (Inl e)
      then have e: "e = NoRoom" using between_digits_NoRoom by (simp add: search_def)
      have "\<exists>k. k \<in> set_option lower \<union> set_option upper \<and> length k = MAX_SORT_KEY_LEN"
      proof (rule ccontr)
        assume n: "\<not> ?thesis"
        then have "length l < MAX_SORT_KEY_LEN" "\<And>u. upper = Some u \<Longrightarrow> length u < MAX_SORT_KEY_LEN"
          using search(2) by (fastforce simp: l_def is_sort_key_iff MAX_SORT_KEY_LEN_def split: option.splits)+
        then have "search \<noteq> Inl e"
          unfolding search_def using u by (intro between_digits_room) (auto simp: MAX_SORT_KEY_LEN_def)
        then show False using Inl by simp
      qed
      then show ?thesis using search(1) Inl e by simp
    qed
  qed auto
qed

text \<open>A key may fit although none is found: the digit that copies the lower bound stays, even
  where one more would still be below the upper bound.\<close>

theorem sort_key_between_misses_room:
  "sort_key_between (Some (1 # replicate 63 255)) (Some [2, 5]) = Inl NoRoom \<and>
   is_sort_key [2, 1] \<and> 1 # replicate 63 255 < [2, 1 :: u8] \<and> [2, 1 :: u8] < [2, 5]"
  by code_simp

section \<open>Evenly spaced keys\<close>

text \<open>A byte string without its trailing zeros; as fractions, nothing changes.\<close>

fun strip :: "bytes \<Rightarrow> bytes" where
  "strip [] = []"
| "strip (b # bs) = (if strip bs = [] \<and> b = 0 then [] else b # strip bs)"

lemma strip_less: "length xs = length ys \<Longrightarrow> xs < ys \<Longrightarrow> strip xs < strip ys"
proof (induction xs ys rule: list_induct2)
  case (Cons x xs y ys)
  from Cons.prems consider (head) "x < y" | (tail) "x = y" "strip xs < strip ys" using Cons.IH by auto
  then show ?case
  proof cases
    case head
    then show ?thesis using word_zero_le [of x] by auto
  next
    case tail
    then show ?thesis by (cases "strip ys") auto
  qed
qed simp

lemma strip_form: "\<exists>n. bs = strip bs @ replicate n 0"
proof (induction bs)
  case (Cons b bs)
  then obtain n where n: "bs = strip bs @ replicate n 0" by blast
  show ?case
  proof (cases "strip bs = [] \<and> b = 0")
    case True
    then have "b # bs = strip (b # bs) @ replicate (Suc n) 0" using n by simp
    then show ?thesis by blast
  next
    case False
    then have "strip (b # bs) = b # strip bs" by simp
    then show ?thesis using n by (metis append_Cons)
  qed
qed simp

lemma strip_last: "strip bs \<noteq> [] \<Longrightarrow> last (strip bs) \<noteq> 0"
  by (induction bs) auto

lemma spaced_key_strip:
  assumes "drop (16 - k) (be_bytes 16 point) = digits" "strip digits \<noteq> []" "length digits \<le> MAX_SORT_KEY_LEN"
  shows "spaced_key k point = Inr (strip digits) \<and> is_sort_key (strip digits)"
proof -
  let ?m = "length (strip digits)"
  obtain n where n: "digits = strip digits @ replicate n 0" using strip_form by blast
  then have len: "length digits = ?m + n" by (metis length_append length_replicate)
  have z: "digits ! j = 0" if "?m \<le> j" "j < length digits" for j
    using that len by (subst n) (simp add: nth_append)
  obtain e where e: "?m = Suc e" using assms(2) by (cases "strip digits") auto
  have "digits ! e = last (strip digits)" using e assms(2) by (subst n) (simp add: nth_append last_conv_nth)
  then have nz: "digits ! e \<noteq> 0" using strip_last [OF assms(2)] by simp
  have "[0..<length digits] = [0..<e] @ [e] @ [Suc e..<length digits]"
    using upt_add_eq_append [of 0 "Suc e" n] e len by simp
  then have "filter (\<lambda>j. digits ! j \<noteq> 0) [0..<length digits] = filter (\<lambda>j. digits ! j \<noteq> 0) [0..<e] @ [e]"
    using nz z e by (auto simp: filter_empty_conv)
  then have lo: "last_opt (filter (\<lambda>j. digits ! j \<noteq> 0) [0..<length digits]) = Some e" by (simp add: last_opt_def)
  have t: "take (Suc e) digits = strip digits" using e by (subst n) simp
  have ok: "is_sort_key (strip digits)" using assms(2,3) len strip_last by (simp add: is_sort_key_iff)
  then show ?thesis using lo t assms(1) by (simp add: spaced_key_def Let_def sort_key_from_slice_def)
qed

lemma key_width_bounds:
  "count < 2 ^ (8 * key_width count k) \<and> k \<le> key_width count k \<and>
   (k < key_width count k \<longrightarrow> 2 ^ (8 * (key_width count k - 1)) \<le> count)"
proof (induction count k rule: key_width.induct)
  case (1 count k)
  show ?case
  proof (cases "count div 2 ^ (8 * k) \<noteq> 0")
    case True
    then have "2 ^ (8 * k) \<le> count" by (simp add: div_eq_0_iff not_less)
    moreover have "key_width count k = key_width count (k + 1)" using True by (subst key_width.simps) simp
    ultimately show ?thesis using "1.IH" [OF True]
      by (cases "k + 1 < key_width count (k + 1)") auto
  next
    case False
    then show ?thesis by (subst (1 2 3 4) key_width.simps) (simp add: div_eq_0_iff)
  qed
qed

lemma key_width_least: "0 < w \<Longrightarrow> count < 256 ^ w \<Longrightarrow> key_width count 1 \<le> w"
proof (rule ccontr)
  assume a: "0 < w" "count < 256 ^ w" "\<not> key_width count 1 \<le> w"
  then have "2 ^ (8 * (key_width count 1 - 1)) \<le> count" using key_width_bounds [of count 1] by auto
  moreover have "(2 :: nat) ^ (8 * w) \<le> 2 ^ (8 * (key_width count 1 - 1))" using a(3) by (intro power_increasing) auto
  moreover have "(256 :: nat) ^ w = 2 ^ (8 * w)" by (simp add: power_mult)
  ultimately show False using a(2) by linarith
qed

lemma be_val_zeros [simp]: "be_val (replicate n 0) = 0"
  by (induction n rule: nat_induct) (simp_all add: be_val_snoc replicate_append_same [symmetric] del: replicate_append_same)

lemma be_bytes_strip: "0 < p \<Longrightarrow> p < 256 ^ k \<Longrightarrow> strip (be_bytes k p) \<noteq> []"
proof
  assume p: "0 < p" "p < 256 ^ k" "strip (be_bytes k p) = []"
  then obtain n where "be_bytes k p = replicate n 0" using strip_form by (metis append_Nil)
  then have "be_val (be_bytes k p) = 0" by simp
  then show False using p by (simp add: be_val_be_bytes)
qed

lemma point_bounds:
  fixes n space i i' :: nat
  assumes "n < space" "i < n"
  shows "0 < (i + 1) * space div (n + 1)" "(i + 1) * space div (n + 1) < space"
    "i' < i \<Longrightarrow> (i' + 1) * space div (n + 1) < (i + 1) * space div (n + 1)"
proof -
  have "(i' + 1) * space + (n + 1) \<le> (i + 1) * space" if "i' < i" for i'
  proof -
    have "(i' + 1) * space + (n + 1) \<le> (i' + 1) * space + space" using assms(1) by linarith
    also have "\<dots> = (i' + 2) * space" by (simp add: algebra_simps)
    also have "\<dots> \<le> (i + 1) * space" using that by (intro mult_le_mono1) simp
    finally show ?thesis .
  qed
  then show "i' < i \<Longrightarrow> (i' + 1) * space div (n + 1) < (i + 1) * space div (n + 1)"
    by (metis Suc_eq_plus1 Suc_le_lessD div_add_self2 div_le_mono nat.simps(3))
  have "n + 1 \<le> (i + 1) * space" using assms(1) by (metis Suc_eq_plus1 Suc_leI mult_le_mono1 le_add2 le_trans mult_1)
  then show "0 < (i + 1) * space div (n + 1)" by (simp add: div_greater_zero_iff)
  show "(i + 1) * space div (n + 1) < space"
    using assms by (intro less_mult_imp_div_less) (simp add: mult.commute)
qed

definition nth_key :: "nat \<Rightarrow> nat \<Rightarrow> nat \<Rightarrow> bytes" where
  "nth_key n k i = strip (be_bytes k ((i + 1) * 2 ^ (8 * k) div (n + 1)))"

lemma spaced_keys_map:
  assumes "n < 2 ^ (8 * k)" "k \<le> 16" "\<forall>i \<in> set is. i < n"
  shows "spaced_keys n k (2 ^ (8 * k)) is = Inr (map (nth_key n k) is) \<and> (\<forall>i \<in> set is. is_sort_key (nth_key n k i))"
  using assms(3)
proof (induction "is")
  case (Cons i "is")
  let ?p = "(i + 1) * 2 ^ (8 * k) div (n + 1)"
  have p: "0 < ?p" "?p < 256 ^ k"
    using point_bounds(1,2) [OF assms(1), of i] Cons.prems by (simp_all add: power_mult)
  have "drop (16 - k) (be_bytes 16 ?p) = be_bytes k ?p"
    using be_bytes_add [of "16 - k" k ?p] assms(2) by simp
  then have "spaced_key k ?p = Inr (nth_key n k i) \<and> is_sort_key (nth_key n k i)"
    using spaced_key_strip [OF _ be_bytes_strip [OF p]] assms(2) by (simp add: nth_key_def MAX_SORT_KEY_LEN_def)
  then show ?case using Cons by simp
qed simp

lemma nth_key_less:
  assumes "n < 2 ^ (8 * k)" "i' < i" "i < n"
  shows "nth_key n k i' < nth_key n k i"
proof -
  have "i' < n" using assms(2,3) by simp
  then show ?thesis
    unfolding nth_key_def using point_bounds [OF assms(1), of i] point_bounds [OF assms(1), of i'] assms(2,3)
    by (intro strip_less) (simp_all add: be_bytes_less_iff power_mult)
qed

text \<open>C99: evenly spaced keys. For every list length below \<open>2 ^ 32\<close>, \<open>evenly_spaced\<close> answers that many
  valid sort keys in strictly ascending order, none longer than the fewest bytes that number so
  many keys: up to 255 keys have one byte, up to 65535 two.\<close>
theorem evenly_spaced_ascends:
  assumes "n < 2 ^ 32"
  shows "\<exists>keys. evenly_spaced n = Inr keys \<and> length keys = n \<and> sorted_wrt (<) keys \<and>
    (\<forall>key \<in> set keys. is_sort_key key \<and> (\<forall>w > 0. n < 256 ^ w \<longrightarrow> length key \<le> w))"
proof -
  let ?k = "key_width n 1"
  have k: "n < 2 ^ (8 * ?k)" "?k \<le> 16" using key_width_bounds key_width_least [of 4 n] assms by auto
  have e: "evenly_spaced n = Inr (map (nth_key n ?k) [0..<n])" "\<forall>i < n. is_sort_key (nth_key n ?k i)"
    using spaced_keys_map [OF k, of "[0..<n]"] assms by (auto simp: evenly_spaced_def Let_def)
  have "length (strip bs) \<le> length bs" for bs by (induction bs) auto
  then have "length (nth_key n ?k i) \<le> ?k" for i unfolding nth_key_def by (metis length_be_bytes)
  moreover have "sorted_wrt (<) (map (nth_key n ?k) [0..<n])"
    using nth_key_less [OF k(1)] by (auto simp: sorted_wrt_iff_nth_less)
  ultimately show ?thesis using e key_width_least [of _ n] by (intro exI [of _ "map (nth_key n ?k) [0..<n]"]) (auto intro: le_trans)
qed

theorem evenly_spaced_ascends_witness:
  "\<exists>keys. evenly_spaced 1000 = Inr keys \<and> length keys = 1000 \<and> sorted_wrt (<) keys"
  using evenly_spaced_ascends [of 1000] by auto

end
