(* ===== verification/Record_Codec.thy ===== *)
theory Record_Codec
  imports Item_Records
begin

text \<open>
  The item-record encoding is one-to-one: what the parser accepts is exactly what the writers
  write, and every parsed record satisfies the rules. Each production of the layout is shown to be
  a \<open>codec\<close> under the conditions its reader checks; \<open>prefix_free\<close> gives unique decodability of
  the raw layout, which ties the writers' re-parse to the record that was written.
\<close>

section \<open>Keys\<close>

lemma key_valid: "key_bytes k = LIFECYCLE_KEY \<or> key_grammar (key_bytes k)"
  using key_bytes [of k] by simp

lemma length_key: "0 < length (key_bytes k)" "length (key_bytes k) \<le> 160"
  using key_valid [of k] by (auto simp: LIFECYCLE_KEY_def key_grammar_def MAX_KEY_LEN_def)

lemma key_bytes_of: "bs = LIFECYCLE_KEY \<or> key_grammar bs \<Longrightarrow> key_bytes (key_of bs) = bs"
  by (rule key_of_inverse) simp

lemma key_is_lifecycle_iff: "key_is_lifecycle k \<longleftrightarrow> k = key_lifecycle"
  by (metis key_bytes_inverse key_bytes_of key_is_lifecycle_def key_lifecycle_def)

lemma grammar_key_Inr: "grammar_key bs = Inr k \<longleftrightarrow> key_grammar bs \<and> key_bytes k = bs"
proof (cases "field_key_parse bs")
  case (Inl e)
  then have "\<not> key_grammar bs" by (simp add: key_grammar_iff [symmetric])
  with Inl show ?thesis by (cases e) (simp_all add: grammar_key_def)
next
  case (Inr r)
  note field_key_parse_Inr [OF Inr]
  with Inr show ?thesis
    by (auto simp: grammar_key_def key_bytes_of) (metis key_bytes_inverse)
qed

section \<open>Field readers\<close>

lemmas rec_then = codec.then_dec_iff [OF cur_u8.read_err_codec]
  codec.then_dec_iff [OF cur_u16.read_err_codec] codec.then_dec_iff [OF cur_u32.read_err_codec]
  codec.then_dec_iff [OF cur_dot.read_err_codec] codec.then_dec_iff [OF cur_hlc.read_err_codec]
  codec.then_dec_iff [OF cur_vv.read_err_codec] codec.then_dec_iff [OF cur_array.read_err_codec]
  codec.then_dec_iff [OF cur_take.read_err_codec]

lemma here_then [simp]: "then_read (here f) g s = g (f s) s"
  by (simp add: then_read_def here_def)

lemma guard_Inr [simp]: "(if b then fails e else p) s = Inr r \<longleftrightarrow> \<not> b \<and> p s = Inr r"
  by simp

lemma rec_finish_then:
  "then_read (read_err f cursor_finish) g s = Inr r \<longleftrightarrow> cur_input s = [] \<and> g () s = Inr r"
  by (auto simp: then_read_Inr cursor_finish_def reader_is_empty_def split: if_splits)

lemma u32_word_of_nat: "n < 2 ^ 32 \<Longrightarrow> unat (word_of_nat n :: u32) = n"
  by (simp add: unat_of_nat)

lemma u16_word_of_nat: "n < 2 ^ 16 \<Longrightarrow> unat (word_of_nat n :: u16) = n"
  by (simp add: unat_of_nat)

lemma bytes_enc_unat: "length bs = unat (w :: u32) \<Longrightarrow> bytes_enc bs = u32_bytes w @ bs"
  by (simp add: bytes_enc_def)

interpretation rec_key: codec cur_input cur_set "\<lambda>_. True" "\<lambda>k. bytes_enc (key_bytes k)" parser_key
proof (rule cur_codecI)
  fix s s' :: cursor and k
  have tail: "(if bs = LIFECYCLE_KEY then yields key_lifecycle
       else case grammar_key bs of Inl kind \<Rightarrow> fails (e kind) | Inr k \<Rightarrow> yields k) s1 = Inr (k, s') \<longleftrightarrow>
      key_bytes k = bs \<and> s' = s1" for bs s1 and e :: "record_error_kind \<Rightarrow> record_error"
  proof (cases "bs = LIFECYCLE_KEY")
    case True
    then have "key_bytes k = bs \<longleftrightarrow> k = key_lifecycle"
      using key_is_lifecycle_iff [of k] by (simp add: key_is_lifecycle_def)
    with True show ?thesis by auto
  next
    case False
    then have "grammar_key bs = Inr k \<longleftrightarrow> key_bytes k = bs"
      using key_valid [of k] by (auto simp: grammar_key_Inr)
    with False show ?thesis by (cases "grammar_key bs") auto
  qed
  have "parser_key s = Inr (k, s') \<longleftrightarrow>
      (\<exists>w rest. cur_input s = u32_bytes w @ key_bytes k @ rest \<and> length (key_bytes k) = unat w \<and> s' = cur_set rest s)"
    unfolding parser_key_def here_then rec_then guard_Inr tail
    using length_key [of k] by (auto simp: MAX_KEY_LEN_def) (metis length_greater_0_conv not_less)
  also have "\<dots> \<longleftrightarrow> (\<exists>rest. cur_input s = bytes_enc (key_bytes k) @ rest \<and> s' = cur_set rest s)"
  proof -
    have "unat (word_of_nat (length (key_bytes k)) :: u32) = length (key_bytes k)"
      using length_key [of k] by (simp add: u32_word_of_nat)
    then show ?thesis by (metis append_assoc bytes_enc_def bytes_enc_unat)
  qed
  finally show "parser_key s = Inr (k, s') \<longleftrightarrow>
      True \<and> (\<exists>rest. cur_input s = bytes_enc (key_bytes k) @ rest \<and> s' = cur_set rest s)" by simp
qed

definition key_ok :: "field_key option \<Rightarrow> bool \<Rightarrow> field_key \<Rightarrow> bool" where
  "key_ok previous allowed k \<longleftrightarrow> (key_is_lifecycle k \<longrightarrow> allowed) \<and> pred_option (\<lambda>p. p < k) previous"

interpretation rec_ordered_key: codec cur_input cur_set "key_ok previous allowed"
    "\<lambda>k. bytes_enc (key_bytes k)" "parser_ordered_key previous allowed" for previous allowed
proof (rule cur_codecI)
  fix s k s'
  have "\<not> (case previous of Some p \<Rightarrow> k' \<le> p | None \<Rightarrow> False) \<longleftrightarrow> pred_option (\<lambda>p. p < k') previous" for k'
    by (cases previous) auto
  then show "parser_ordered_key previous allowed s = Inr (k, s') \<longleftrightarrow>
      key_ok previous allowed k \<and> (\<exists>rest. cur_input s = bytes_enc (key_bytes k) @ rest \<and> s' = cur_set rest s)"
    unfolding parser_ordered_key_def here_then rec_key.then_dec_iff guard_Inr key_ok_def by auto
qed

definition value_ok :: "limits \<Rightarrow> field_value \<Rightarrow> bool" where
  "value_ok lim v \<longleftrightarrow> length v \<le> lim_value lim \<and> length v < 2 ^ 32"

interpretation rec_value: codec cur_input cur_set "value_ok lim" bytes_enc "parser_value lim" for lim
proof (rule cur_codecI)
  fix s v s'
  show "parser_value lim s = Inr (v, s') \<longleftrightarrow>
      value_ok lim v \<and> (\<exists>rest. cur_input s = bytes_enc v @ rest \<and> s' = cur_set rest s)" (is "?L \<longleftrightarrow> ?R")
  proof
    assume ?L
    then obtain w rest rest' where "cur_input s = u32_bytes w @ rest" "unat w \<le> lim_value lim"
      "length v = unat w" "rest = v @ rest'" "s' = cur_set rest' s"
      by (auto simp: parser_value_def rec_then cur_take.dec_iff not_less split: if_splits)
    then show ?R using unat_word_less [of w] by (auto simp: value_ok_def bytes_enc_unat)
  next
    assume ?R
    then obtain rest where r: "value_ok lim v" "cur_input s = bytes_enc v @ rest" "s' = cur_set rest s" by blast
    let ?w = "word_of_nat (length v) :: u32"
    have w: "unat ?w = length v" using r(1) by (simp add: value_ok_def u32_word_of_nat)
    show ?L
      unfolding parser_value_def here_then rec_then
      using r by (intro exI [of _ ?w] exI [of _ "v @ rest"])
        (simp add: w value_ok_def bytes_enc_def cur_take.dec_iff)
  qed
qed


section \<open>Counted lists\<close>

fun each_ok :: "('a list \<Rightarrow> 'a \<Rightarrow> bool) \<Rightarrow> 'a list \<Rightarrow> 'a list \<Rightarrow> bool" where
  "each_ok ok acc [] = True"
| "each_ok ok acc (x # xs) \<longleftrightarrow> ok acc x \<and> each_ok ok (acc @ [x]) xs"

lemma each_ok_mem: "each_ok ok acc xs \<Longrightarrow> x \<in> set xs \<Longrightarrow> \<exists>acc'. ok acc' x"
  by (induction xs arbitrary: acc) auto

lemma read_list_Inr:
  assumes "\<And>acc. codec cur_input cur_set (ok acc) enc (p acc)"
  shows "read_list n p acc s = Inr (xs, s') \<longleftrightarrow>
    (\<exists>ys rest. length ys = n \<and> xs = acc @ ys \<and> each_ok ok acc ys \<and>
       cur_input s = concat (map enc ys) @ rest \<and> s' = cur_set rest s)"
proof (induction n arbitrary: acc s)
  case 0
  then show ?case by (auto simp: yields_def intro: exI [of _ "cur_input s"])
next
  case (Suc n)
  show ?case
    unfolding read_list.simps codec.then_dec_iff [OF assms] Suc.IH
  proof (intro iffI; elim exE conjE)
    fix x rest ys rest'
    assume "ok acc x" "cur_input s = enc x @ rest" "length ys = n" "xs = (acc @ [x]) @ ys"
      "each_ok ok (acc @ [x]) ys" "cur_input (cur_set rest s) = concat (map enc ys) @ rest'"
      "s' = cur_set rest' (cur_set rest s)"
    then show "\<exists>ys rest. length ys = Suc n \<and> xs = acc @ ys \<and> each_ok ok acc ys \<and>
        cur_input s = concat (map enc ys) @ rest \<and> s' = cur_set rest s"
      by (intro exI [of _ "x # ys"] exI [of _ rest']) simp
  next
    fix ys rest
    assume a: "length ys = Suc n" "xs = acc @ ys" "each_ok ok acc ys"
      "cur_input s = concat (map enc ys) @ rest" "s' = cur_set rest s"
    then obtain x zs where "ys = x # zs" by (cases ys) auto
    with a show "\<exists>x rest. ok acc x \<and> cur_input s = enc x @ rest \<and>
        (\<exists>ys rest'. length ys = n \<and> xs = (acc @ [x]) @ ys \<and> each_ok ok (acc @ [x]) ys \<and>
          cur_input (cur_set rest s) = concat (map enc ys) @ rest' \<and> s' = cur_set rest' (cur_set rest s))"
      by (intro exI [of _ x] exI [of _ "concat (map enc zs) @ rest"] conjI exI [of _ zs] exI [of _ rest]) auto
  qed
qed

definition list_enc :: "('a \<Rightarrow> bytes) \<Rightarrow> 'a list \<Rightarrow> bytes" where
  "list_enc enc xs = u16_bytes (word_of_nat (length xs)) @ concat (map enc xs)"

lemma count_Inr:
  assumes "min_len \<le> 100"
  shows "parser_count mx min_len s = Inr (n, s') \<longleftrightarrow>
    n \<le> mx \<and> n < 2 ^ 16 \<and>
    (\<exists>rest. n * min_len \<le> length rest \<and> cur_input s = u16_bytes (word_of_nat n) @ rest \<and> s' = cur_set rest s)"
proof -
  have small: "unat (w :: u16) * min_len \<le> usize_max" for w
  proof -
    have "unat w * min_len \<le> 65536 * 100"
      using unat_word_less [of w] assms by (intro mult_le_mono) auto
    then show ?thesis by (simp add: usize_max_def)
  qed
  have "parser_count mx min_len s = Inr (n, s') \<longleftrightarrow>
      (\<exists>w rest. cur_input s = u16_bytes w @ rest \<and> unat w \<le> mx \<and> unat w * min_len \<le> length rest \<and>
        n = unat w \<and> s' = cur_set rest s)"
    unfolding parser_count_def here_then rec_then Let_def guard_Inr
    by (auto simp: checked_mul_def small cursor_remaining_def reader_remaining_def not_less)
  also have "\<dots> \<longleftrightarrow> n \<le> mx \<and> n < 2 ^ 16 \<and>
      (\<exists>rest. n * min_len \<le> length rest \<and> cur_input s = u16_bytes (word_of_nat n) @ rest \<and> s' = cur_set rest s)"
  proof (intro iffI; elim exE conjE)
    fix w rest
    assume "cur_input s = u16_bytes w @ rest" "unat w \<le> mx" "unat w * min_len \<le> length rest"
      "n = unat w" "s' = cur_set rest s"
    then show "n \<le> mx \<and> n < 2 ^ 16 \<and>
        (\<exists>rest. n * min_len \<le> length rest \<and> cur_input s = u16_bytes (word_of_nat n) @ rest \<and> s' = cur_set rest s)"
      using unat_word_less [of w] by auto
  next
    fix rest
    assume "n \<le> mx" "n < 2 ^ 16" "n * min_len \<le> length rest" "cur_input s = u16_bytes (word_of_nat n) @ rest"
      "s' = cur_set rest s"
    then show "\<exists>w rest. cur_input s = u16_bytes w @ rest \<and> unat w \<le> mx \<and> unat w * min_len \<le> length rest \<and>
        n = unat w \<and> s' = cur_set rest s"
      by (intro exI [of _ "word_of_nat n"] exI [of _ rest]) (simp add: u16_word_of_nat)
  qed
  finally show ?thesis .
qed

text \<open>A count checked against the remaining input, then that many elements: the check never
  refuses what the elements' encodings fill.\<close>

lemma counted_then:
  assumes c: "\<And>acc. codec cur_input cur_set (ok acc) enc (p acc)"
    and short: "\<And>x. min_len \<le> length (enc x)" and "min_len \<le> 100"
  shows "then_read (parser_count mx min_len) (\<lambda>n. then_read (read_list n p []) f) s = Inr r \<longleftrightarrow>
    (\<exists>xs rest. length xs \<le> mx \<and> length xs < 2 ^ 16 \<and> each_ok ok [] xs \<and>
       cur_input s = list_enc enc xs @ rest \<and> f xs (cur_set rest s) = Inr r)"
proof -
  have fill: "length xs * min_len \<le> length (concat (map enc xs) @ rest)" for xs rest
  proof (induction xs)
    case (Cons x xs)
    with short [of x] show ?case by simp
  qed simp
  show ?thesis
    unfolding then_read_Inr count_Inr [OF assms(3)] read_list_Inr [of ok enc p, OF c]
  proof (intro iffI; elim exE conjE)
    fix xs rest
    assume "length xs \<le> mx" "length xs < 2 ^ 16" "each_ok ok [] xs" "cur_input s = list_enc enc xs @ rest"
      "f xs (cur_set rest s) = Inr r"
    then show "\<exists>n s1. (n \<le> mx \<and> n < 2 ^ 16 \<and> (\<exists>rest. n * min_len \<le> length rest \<and>
          cur_input s = u16_bytes (word_of_nat n) @ rest \<and> s1 = cur_set rest s)) \<and>
        (\<exists>xs s'. (\<exists>ys rest. length ys = n \<and> xs = [] @ ys \<and> each_ok ok [] ys \<and>
          cur_input s1 = concat (map enc ys) @ rest \<and> s' = cur_set rest s1) \<and> f xs s' = Inr r)"
      using fill [of xs rest]
      by (intro exI [of _ "length xs"] exI [of _ "cur_set (concat (map enc xs) @ rest) s"] conjI
          exI [of _ "concat (map enc xs) @ rest"] exI [of _ xs] exI [of _ "cur_set rest s"] exI [of _ rest])
        (simp_all add: list_enc_def)
  qed (auto simp: list_enc_def)
qed


section \<open>Entries, registers and writes\<close>

lemma field_bytes_inj [simp]:
  "dot_bytes a = dot_bytes b \<longleftrightarrow> a = b" "u64_bytes c = u64_bytes d \<longleftrightarrow> c = d"
  "u16_bytes e = u16_bytes f \<longleftrightarrow> e = f"
  using dot_codec.enc_inj u64_codec.enc_inj u16_codec.enc_inj by blast+

lemma value_then [simp]:
  "value_ok lim v \<Longrightarrow>
   (\<exists>x. value_ok lim x \<and> (\<exists>r. bytes_enc v @ rest = bytes_enc x @ r \<and> P x r)) \<longleftrightarrow> P v rest"
  using rec_value.enc_prefix_free [of lim v] by blast

lemma bytes_enc_key_inj [simp]:
  "bytes_enc (key_bytes k) @ u = bytes_enc (key_bytes k') @ v \<longleftrightarrow> k = k' \<and> u = v"
  using rec_key.enc_prefix_free by blast

definition entry_enc :: "entry \<Rightarrow> bytes" where
  "entry_enc e = dot_bytes (en_dot e) @ u64_bytes (en_hlc e) @ bytes_enc (en_value e)"

definition entry_ok ::
  "limits \<Rightarrow> field_key \<Rightarrow> version_vector \<Rightarrow> version_vector option \<Rightarrow> entry list \<Rightarrow> entry \<Rightarrow> bool" where
  "entry_ok lim key covered ctx acc e \<longleftrightarrow>
     pred_option (\<lambda>l. en_dot l < en_dot e) (last_opt acc) \<and> vv_covers covered (en_dot e) \<and>
     pred_option (\<lambda>c. \<not> vv_covers c (en_dot e)) ctx \<and> value_ok lim (en_value e) \<and>
     (key_is_lifecycle key \<longrightarrow> lifecycle_from_register_value (en_value e) \<noteq> None)"

lemma min_lens: "MIN_ENTRY_LEN \<le> 100" "MIN_REGISTER_LEN \<le> 100" "MIN_WRITE_LEN \<le> 100"
  by (simp_all add: MIN_ENTRY_LEN_def MIN_REGISTER_LEN_def MIN_WRITE_LEN_def DOT_ENCODED_LEN_def)

lemma length_entry_enc: "MIN_ENTRY_LEN \<le> length (entry_enc e)"
  by (simp add: entry_enc_def MIN_ENTRY_LEN_def DOT_ENCODED_LEN_def bytes_enc_def)

interpretation rec_entry: codec cur_input cur_set "entry_ok lim key covered ctx acc" entry_enc
    "parser_entry lim key covered ctx acc" for lim key covered ctx acc
proof (rule cur_codecI)
  fix s s' :: cursor and e
  have last: "\<not> (case last_opt acc of Some l \<Rightarrow> d \<le> en_dot l | None \<Rightarrow> False) \<longleftrightarrow>
      pred_option (\<lambda>l. en_dot l < d) (last_opt acc)" for d
    by (cases "last_opt acc") auto
  have late: "\<not> (case ctx of Some c \<Rightarrow> vv_covers c d | None \<Rightarrow> False) \<longleftrightarrow>
      pred_option (\<lambda>c. \<not> vv_covers c d) ctx" for d
    by (cases ctx) auto
  show "parser_entry lim key covered ctx acc s = Inr (e, s') \<longleftrightarrow>
      entry_ok lim key covered ctx acc e \<and> (\<exists>rest. cur_input s = entry_enc e @ rest \<and> s' = cur_set rest s)"
    unfolding parser_entry_def here_then rec_then guard_Inr rec_value.then_dec_iff last late entry_ok_def
    by (cases e) (auto simp: entry_enc_def)
qed

definition register_enc :: "register \<Rightarrow> bytes" where
  "register_enc r = bytes_enc (key_bytes (rg_key r)) @ list_enc entry_enc (rg_entries r)"

definition register_ok ::
  "limits \<Rightarrow> group \<Rightarrow> version_vector \<Rightarrow> version_vector option \<Rightarrow> register list \<Rightarrow> register \<Rightarrow> bool" where
  "register_ok lim grp covered ctx acc r \<longleftrightarrow>
     key_ok (map_option rg_key (last_opt acc)) (grp \<noteq> Late) (rg_key r) \<and>
     rg_entries r \<noteq> [] \<and> length (rg_entries r) \<le> lim_values lim \<and> length (rg_entries r) < 2 ^ 16 \<and>
     each_ok (entry_ok lim (rg_key r) covered ctx) [] (rg_entries r)"

lemma length_register_enc: "MIN_REGISTER_LEN \<le> length (register_enc r)"
  by (simp add: register_enc_def MIN_REGISTER_LEN_def bytes_enc_def list_enc_def)

lemma guarded_counted:
  "then_read (parser_count mx ml) (\<lambda>n. if b n then fails e else then_read (read_list n p []) f) s = Inr r \<longleftrightarrow>
   then_read (parser_count mx ml) (\<lambda>n. then_read (read_list n p []) (\<lambda>xs. if b (length xs) then fails e else f xs)) s = Inr r"
proof -
  have len: "read_list n p acc s1 = Inr (xs, s2) \<Longrightarrow> length xs = length acc + n" for n acc s1 xs s2
    by (induction n arbitrary: acc s1) (auto simp: then_read_Inr)
  show ?thesis
    unfolding then_read_Inr guard_Inr using len [of _ "[]"] by fastforce
qed

interpretation rec_register: codec cur_input cur_set "register_ok lim grp covered ctx acc" register_enc
    "parser_register lim grp (map_option rg_key (last_opt acc)) covered ctx" for lim grp covered ctx acc
proof (rule cur_codecI)
  fix s s' :: cursor and r
  show "parser_register lim grp (map_option rg_key (last_opt acc)) covered ctx s = Inr (r, s') \<longleftrightarrow>
      register_ok lim grp covered ctx acc r \<and> (\<exists>rest. cur_input s = register_enc r @ rest \<and> s' = cur_set rest s)"
    unfolding parser_register_def rec_ordered_key.then_dec_iff here_then guarded_counted
      counted_then [OF rec_entry.codec_axioms length_entry_enc min_lens(1)] guard_Inr register_ok_def
    by (cases r) (auto simp: register_enc_def)
qed


definition write_enc :: "field_write \<Rightarrow> bytes" where
  "write_enc w = bytes_enc (key_bytes (wr_key w)) @ bytes_enc (wr_value w)"

definition write_ok :: "limits \<Rightarrow> field_write list \<Rightarrow> field_write \<Rightarrow> bool" where
  "write_ok lim acc w \<longleftrightarrow> key_ok (map_option wr_key (last_opt acc)) False (wr_key w) \<and> value_ok lim (wr_value w)"

lemma length_write_enc: "MIN_WRITE_LEN \<le> length (write_enc w)"
  by (simp add: write_enc_def MIN_WRITE_LEN_def bytes_enc_def)

interpretation rec_write: codec cur_input cur_set "write_ok lim acc" write_enc "parser_write lim acc" for lim acc
proof (rule cur_codecI)
  fix s s' :: cursor and w
  show "parser_write lim acc s = Inr (w, s') \<longleftrightarrow>
      write_ok lim acc w \<and> (\<exists>rest. cur_input s = write_enc w @ rest \<and> s' = cur_set rest s)"
    unfolding parser_write_def rec_ordered_key.then_dec_iff rec_value.then_dec_iff write_ok_def
    by (cases w) (auto simp: write_enc_def)
qed

section \<open>Op data\<close>

definition op_ok :: "limits \<Rightarrow> op_data \<Rightarrow> bool" where
  "op_ok lim op \<longleftrightarrow>
     length (op_writes op) \<le> lim_writes lim \<and> length (op_writes op) < 2 ^ 16 \<and>
     (op_writes op \<noteq> [] \<longrightarrow> op_lifecycle op = Active) \<and> each_ok (write_ok lim) [] (op_writes op)"

definition op_bytes :: "op_data \<Rightarrow> bytes" where
  "op_bytes op =
     [record_kind_to_u8 KindOp, lifecycle_to_u8 (op_lifecycle op)] @ list_enc write_enc (op_writes op)"

lemma lifecycle_from_u8_Some: "lifecycle_from_u8 b = Some l \<longleftrightarrow> b = lifecycle_to_u8 l"
  by (cases l) (auto simp: lifecycle_from_u8_def)

lemma lifecycle_then:
  "(case lifecycle_from_u8 b of None \<Rightarrow> fails e | Some l \<Rightarrow> f l) s = Inr r \<longleftrightarrow>
   (\<exists>l. b = lifecycle_to_u8 l \<and> f l s = Inr r)"
  by (cases "lifecycle_from_u8 b") (auto simp: lifecycle_from_u8_Some [symmetric])

lemma parser_op_Inr:
  "parser_op lim s = Inr (op, s') \<longleftrightarrow>
     op_ok lim op \<and> record_kind_to_u8 KindOp # cur_input s = op_bytes op \<and> s' = cur_set [] s"
  unfolding parser_op_def here_then rec_then lifecycle_then guarded_counted
    counted_then [OF rec_write.codec_axioms length_write_enc min_lens(3)] guard_Inr rec_finish_then op_ok_def
  by (cases op) (auto simp: op_bytes_def)

lemma cur_u8_then_new:
  "then_read (read_err f cursor_u8) g (cursor_new data) = Inr r \<longleftrightarrow>
     (\<exists>b rest. data = b # rest \<and> g b (cur_set rest (cursor_new data)) = Inr r)"
  by (auto simp: rec_then)

lemma op_with_Inr:
  "op_with data lim = Inr op \<longleftrightarrow> length data \<le> lim_op_data lim \<and> op_ok lim op \<and> data = op_bytes op"
proof -
  have "op_with data lim = Inr op \<longleftrightarrow> length data \<le> lim_op_data lim \<and>
      (\<exists>b rest s'. data = b # rest \<and> b = record_kind_to_u8 KindOp \<and>
         parser_op lim (cur_set rest (cursor_new data)) = Inr (op, s'))"
    by (auto simp: op_with_def and_then_Inr cur_u8_then_new not_less)
  then show ?thesis by (auto simp: parser_op_Inr op_bytes_def)
qed

section \<open>Snapshots\<close>

definition current_ok :: "limits \<Rightarrow> version_vector \<Rightarrow> register list \<Rightarrow> register \<Rightarrow> bool" where
  "current_ok lim covered acc r \<longleftrightarrow>
     register_ok lim Current covered None acc r \<and> (acc = [] \<longrightarrow> key_is_lifecycle (rg_key r))"

interpretation rec_current: codec cur_input cur_set "current_ok lim covered acc" register_enc
    "parser_current lim covered acc" for lim covered acc
  by (rule cur_codecI)
    (unfold parser_current_def here_then rec_register.then_dec_iff guard_Inr current_ok_def, auto)

definition history_ok :: "limits \<Rightarrow> version_vector \<Rightarrow> register list \<Rightarrow> register list \<Rightarrow> register \<Rightarrow> bool" where
  "history_ok lim covered registers acc g \<longleftrightarrow>
     register_ok lim History covered None acc g \<and>
     (\<exists>current. find (\<lambda>r. rg_key r = rg_key g) registers = Some current \<and>
        \<not> shares_a_dot (rg_entries current) (rg_entries g))"

lemma find_then:
  "(case x of None \<Rightarrow> fails e | Some y \<Rightarrow> if b y then fails e' else p) s = Inr r \<longleftrightarrow>
   (\<exists>y. x = Some y \<and> \<not> b y) \<and> p s = Inr r"
  by (cases x) auto

interpretation rec_history: codec cur_input cur_set "history_ok lim covered registers acc" register_enc
    "parser_history lim covered registers acc" for lim covered registers acc
  by (rule cur_codecI)
    (unfold parser_history_def here_then rec_register.then_dec_iff find_then history_ok_def, auto)

interpretation rec_late: codec cur_input cur_set "register_ok lim Late covered (Some c) acc" register_enc
    "parser_late lim covered c acc" for lim covered c acc
  unfolding parser_late_def by (rule rec_register.codec_axioms)

definition live_ok :: "limits \<Rightarrow> version_vector \<Rightarrow> live_snapshot \<Rightarrow> bool" where
  "live_ok lim covered l \<longleftrightarrow>
     ls_registers l \<noteq> [] \<and> length (ls_registers l) \<le> lim_groups lim \<and> length (ls_registers l) < 2 ^ 16 \<and>
     each_ok (current_ok lim covered) [] (ls_registers l) \<and>
     length (ls_history l) \<le> lim_groups lim \<and> length (ls_history l) < 2 ^ 16 \<and>
     each_ok (history_ok lim covered (ls_registers l)) [] (ls_history l)"

definition tombstone_ok :: "limits \<Rightarrow> version_vector \<Rightarrow> tombstone \<Rightarrow> bool" where
  "tombstone_ok lim covered t \<longleftrightarrow>
     vv_covers covered (ts_purge_dot t) \<and> vv_len (ts_context t) \<le> VV_MAX_ENTRIES \<and>
     (\<forall>d \<in> set (vv_entries (ts_context t)). vv_covers covered d) \<and>
     length (ts_late t) \<le> lim_groups lim \<and> length (ts_late t) < 2 ^ 16 \<and>
     each_ok (register_ok lim Late covered (Some (ts_context t))) [] (ts_late t)"

fun snapshot_ok :: "limits \<Rightarrow> version_vector \<Rightarrow> snapshot_data \<Rightarrow> bool" where
  "snapshot_ok lim covered (SnapLive l) = live_ok lim covered l"
| "snapshot_ok lim covered (SnapTombstone t) = tombstone_ok lim covered t"

definition live_enc :: "live_snapshot \<Rightarrow> bytes" where
  "live_enc l = list_enc register_enc (ls_registers l) @ list_enc register_enc (ls_history l)"

definition tombstone_enc :: "tombstone \<Rightarrow> bytes" where
  "tombstone_enc t =
     dot_bytes (ts_purge_dot t) @ u64_bytes (ts_purge_hlc t) @ vv_bytes (ts_context t) @
     id_bytes (ts_item_key_id t) @ list_enc register_enc (ts_late t)"

fun snapshot_bytes :: "snapshot_data \<Rightarrow> bytes" where
  "snapshot_bytes (SnapLive l) = record_kind_to_u8 KindLiveSnapshot # live_enc l"
| "snapshot_bytes (SnapTombstone t) = record_kind_to_u8 KindTombstone # tombstone_enc t"

lemma parser_live_Inr:
  "parser_live lim covered s = Inr (l, s') \<longleftrightarrow>
     live_ok lim covered l \<and> cur_input s = live_enc l \<and> s' = cur_set [] s"
  unfolding parser_live_def here_then guarded_counted
    counted_then [OF rec_current.codec_axioms length_register_enc min_lens(2)] guard_Inr
    counted_then [OF rec_history.codec_axioms length_register_enc min_lens(2)] rec_finish_then live_ok_def
  by (cases l) (auto simp: live_enc_def)


lemma position_then:
  "(case position P xs of Some i \<Rightarrow> fails (e i) | None \<Rightarrow> p) s = Inr r \<longleftrightarrow> (\<forall>x \<in> set xs. \<not> P x) \<and> p s = Inr r"
  by (cases "position P xs") (auto simp: position_None [symmetric])

interpretation rec_key_id: codec cur_input cur_set "\<lambda>_. True" id_bytes parser_key_id
proof (rule cur_codecI)
  fix s s' :: cursor and i
  show "parser_key_id s = Inr (i, s') \<longleftrightarrow> True \<and> (\<exists>rest. cur_input s = id_bytes i @ rest \<and> s' = cur_set rest s)"
    unfolding parser_key_id_def rec_then
  proof (intro iffI; elim exE conjE)
    fix rest
    assume "cur_input s = id_bytes i @ rest" "s' = cur_set rest s"
    then show "\<exists>bs rest. length bs = 16 \<and> cur_input s = bs @ rest \<and>
        yields (word_of_nat (be_val bs)) (cur_set rest s) = Inr (i, s')"
      by (intro exI [of _ "id_bytes i"] exI [of _ rest]) simp
  qed auto
qed

lemma vv_then [simp]:
  "vv_len v \<le> VV_MAX_ENTRIES \<Longrightarrow>
   (\<exists>x. vv_len x \<le> VV_MAX_ENTRIES \<and> (\<exists>r. vv_bytes v @ rest = vv_bytes x @ r \<and> P x r)) \<longleftrightarrow> P v rest"
  using vv_codec.enc_prefix_free [of v] by blast

lemma kind_then:
  "(if b = record_kind_to_u8 KindLiveSnapshot then p else if b = record_kind_to_u8 KindTombstone then q else fails e) s = Inr r \<longleftrightarrow>
   b = record_kind_to_u8 KindLiveSnapshot \<and> p s = Inr r \<or> b = record_kind_to_u8 KindTombstone \<and> q s = Inr r"
  by auto

lemma parser_tombstone_Inr:
  "parser_tombstone lim covered s = Inr (t, s') \<longleftrightarrow>
     tombstone_ok lim covered t \<and> cur_input s = tombstone_enc t \<and> s' = cur_set [] s"
  unfolding parser_tombstone_def here_then rec_then guard_Inr position_then rec_key_id.then_dec_iff
    counted_then [OF rec_late.codec_axioms length_register_enc min_lens(2)] rec_finish_then tombstone_ok_def
  by (cases t) (auto simp: tombstone_enc_def)

lemma snapshot_with_Inr:
  "snapshot_with covered data lim = Inr sn \<longleftrightarrow>
     length data \<le> lim_snapshot_data lim \<and> snapshot_ok lim covered sn \<and> data = snapshot_bytes sn"
proof -
  let ?p = "then_read (read_err record_error_from cursor_u8) (\<lambda>kind.
      if kind = record_kind_to_u8 KindLiveSnapshot
      then then_read (parser_live lim covered) (\<lambda>live. yields (SnapLive live))
      else if kind = record_kind_to_u8 KindTombstone
      then then_read (parser_tombstone lim covered) (\<lambda>t. yields (SnapTombstone t))
      else fails (record_error_new WrongKind 0))"
  have "snapshot_with covered data lim = Inr sn \<longleftrightarrow>
      length data \<le> lim_snapshot_data lim \<and> (\<exists>s'. ?p (cursor_new data) = Inr (sn, s'))"
    by (auto simp: snapshot_with_def and_then_Inr not_less)
  also have "(\<exists>s'. ?p (cursor_new data) = Inr (sn, s')) \<longleftrightarrow>
      (\<exists>b rest. data = b # rest \<and>
        (b = record_kind_to_u8 KindLiveSnapshot \<and>
           (\<exists>l s'. parser_live lim covered (cur_set rest (cursor_new data)) = Inr (l, s') \<and> sn = SnapLive l) \<or>
         b = record_kind_to_u8 KindTombstone \<and>
           (\<exists>t s'. parser_tombstone lim covered (cur_set rest (cursor_new data)) = Inr (t, s') \<and> sn = SnapTombstone t)))"
    unfolding cur_u8_then_new kind_then
      then_read_Inr [where p = "parser_live _ _"] then_read_Inr [where p = "parser_tombstone _ _"] yields_Inr
    by blast
  finally show ?thesis
    by (cases sn) (auto simp: parser_live_Inr parser_tombstone_Inr)
qed


section \<open>Sizes\<close>

definition sizes ::
  "('a \<Rightarrow> usize \<Rightarrow> record_error + usize) \<Rightarrow> ('a \<Rightarrow> bool) \<Rightarrow> ('a \<Rightarrow> nat) \<Rightarrow> bool" where
  "sizes f fits size' \<longleftrightarrow>
     (\<forall>x len len'. len \<le> usize_max \<longrightarrow>
        (f x len = Inr len' \<longleftrightarrow> fits x \<and> len' = len + size' x \<and> len' \<le> usize_max))"

lemma sizesD: "sizes f fits sz \<Longrightarrow> len \<le> usize_max \<Longrightarrow>
    f x len = Inr len' \<longleftrightarrow> fits x \<and> len' = len + sz x \<and> len' \<le> usize_max"
  by (simp add: sizes_def)

lemma sizesI: "(\<And>x len len'. len \<le> usize_max \<Longrightarrow>
    f x len = Inr len' \<longleftrightarrow> fits x \<and> len' = len + sz x \<and> len' \<le> usize_max) \<Longrightarrow> sizes f fits sz"
  by (simp add: sizes_def)

lemma sizer_add_Inr: "sizer_add n len = Inr len' \<longleftrightarrow> len' = len + n \<and> len' \<le> usize_max"
  by (auto simp: sizer_add_def ok_or_def checked_add_def)

lemma and_then_sizes:
  assumes "sizes f F a" "sizes g G b" "len \<le> usize_max"
  shows "and_then (f x len) (g y) = Inr len' \<longleftrightarrow> F x \<and> G y \<and> len' = len + a x + b y \<and> len' \<le> usize_max"
  unfolding and_then_Inr sizesD [OF assms(1,3)]
  using sizesD [OF assms(2), of "len + a x" y len'] by auto

lemma sizes_seq:
  assumes "sizes f F a" "sizes g G b"
  shows "sizes (\<lambda>(x, y) len. and_then (f x len) (g y)) (\<lambda>(x, y). F x \<and> G y) (\<lambda>(x, y). a x + b y)"
  by (rule sizesI) (auto simp: and_then_sizes [OF assms])

lemma sizes_add: "sizes (\<lambda>_ :: unit. sizer_add n) (\<lambda>_. True) (\<lambda>_. n)"
  by (rule sizesI) (simp add: sizer_add_Inr)

lemma sizes_value: "sizes (sizer_value lim) (\<lambda>v. length v \<le> lim_value lim) (\<lambda>v. length (bytes_enc v))"
  by (rule sizesI) (auto simp: sizer_value_def and_then_Inr sizer_add_Inr bytes_enc_def)

lemma sizes_key: "sizes sizer_key (\<lambda>_. True) (\<lambda>k. length (bytes_enc (key_bytes k)))"
  by (rule sizesI) (auto simp: sizer_key_def and_then_Inr sizer_add_Inr bytes_enc_def key_len_def)

lemma sizes_each:
  assumes "sizes f fits sz"
  shows "sizes (sizer_each f) (\<lambda>xs. \<forall>x \<in> set xs. fits x) (\<lambda>xs. sum_list (map sz xs))"
proof (rule sizesI)
  fix xs len len'
  assume "len \<le> usize_max"
  then show "sizer_each f xs len = Inr len' \<longleftrightarrow>
      (\<forall>x \<in> set xs. fits x) \<and> len' = len + sum_list (map sz xs) \<and> len' \<le> usize_max"
  proof (induction xs arbitrary: len)
    case (Cons x xs)
    show ?case
      unfolding sizer_each.simps and_then_Inr sizesD [OF assms Cons.prems]
      using Cons.IH [of "len + sz x"] by (auto simp: add.assoc)
  qed auto
qed

lemma sizes_entry: "sizes (sizer_entry lim) (\<lambda>e. length (en_value e) \<le> lim_value lim) (\<lambda>e. length (entry_enc e))"
  by (rule sizesI)
    (auto simp: sizer_entry_def and_then_Inr sizer_add_Inr sizesD [OF sizes_value] entry_enc_def DOT_ENCODED_LEN_def)

lemma sizes_write: "sizes (sizer_write lim) (\<lambda>w. length (wr_value w) \<le> lim_value lim) (\<lambda>w. length (write_enc w))"
  by (rule sizesI)
    (auto simp: sizer_write_def and_then_Inr sizesD [OF sizes_key] sizesD [OF sizes_value] write_enc_def)

lemma length_list_enc: "length (list_enc enc xs) = 2 + sum_list (map (\<lambda>x. length (enc x)) xs)"
  by (simp add: list_enc_def length_concat comp_def)

definition register_fits :: "limits \<Rightarrow> register \<Rightarrow> bool" where
  "register_fits lim r \<longleftrightarrow>
     length (rg_entries r) \<le> lim_values lim \<and> (\<forall>e \<in> set (rg_entries r). length (en_value e) \<le> lim_value lim)"

definition registers_fit :: "limits \<Rightarrow> register list \<Rightarrow> bool" where
  "registers_fit lim rs \<longleftrightarrow> length rs \<le> lim_groups lim \<and> (\<forall>r \<in> set rs. register_fits lim r)"

lemma sizes_register: "sizes (sizer_register lim) (register_fits lim) (\<lambda>r. length (register_enc r))"
  by (rule sizesI)
    (auto simp: sizer_register_def and_then_Inr sizesD [OF sizes_key] sizer_count_def sizer_add_Inr
      sizesD [OF sizes_each [OF sizes_entry]] register_enc_def register_fits_def length_list_enc not_less)

lemma sizes_registers: "sizes (sizer_registers lim) (registers_fit lim) (\<lambda>rs. length (list_enc register_enc rs))"
  by (rule sizesI)
    (auto simp: sizer_registers_def and_then_Inr sizer_count_def sizer_add_Inr
      sizesD [OF sizes_each [OF sizes_register]] registers_fit_def length_list_enc not_less)

lemma sizes_vv: "sizes sizer_vv (\<lambda>v. vv_len v \<le> VV_MAX_ENTRIES) (\<lambda>v. length (vv_bytes v))"
proof (rule sizesI)
  fix v and len len' :: nat
  have "vv_len v \<le> VV_MAX_ENTRIES \<Longrightarrow> vv_encoded_len v = length (vv_bytes v)"
    by (simp add: vv_encoded_len_def saturating_add_def saturating_mul_def VV_ENTRY_LEN_def DOT_ENCODED_LEN_def
        usize_max_def VV_MAX_ENTRIES_def length_vv_bytes)
  then show "sizer_vv v len = Inr len' \<longleftrightarrow>
      vv_len v \<le> VV_MAX_ENTRIES \<and> len' = len + length (vv_bytes v) \<and> len' \<le> usize_max"
    by (auto simp: sizer_vv_def sizer_add_Inr not_less)
qed

definition op_fits :: "limits \<Rightarrow> op_data \<Rightarrow> bool" where
  "op_fits lim op \<longleftrightarrow>
     length (op_writes op) \<le> lim_writes lim \<and> (\<forall>w \<in> set (op_writes op). length (wr_value w) \<le> lim_value lim)"

fun snapshot_fits :: "limits \<Rightarrow> snapshot_data \<Rightarrow> bool" where
  "snapshot_fits lim (SnapLive l) \<longleftrightarrow> registers_fit lim (ls_registers l) \<and> registers_fit lim (ls_history l)"
| "snapshot_fits lim (SnapTombstone t) \<longleftrightarrow> vv_len (ts_context t) \<le> VV_MAX_ENTRIES \<and> registers_fit lim (ts_late t)"

lemma op_len_Inr:
  "op_len op lim = Inr n \<longleftrightarrow>
     op_fits lim op \<and> n = length (op_bytes op) \<and> n \<le> lim_op_data lim \<and> n \<le> usize_max"
proof -
  have "4 \<le> usize_max" by (simp add: usize_max_def)
  then show ?thesis
    by (auto simp: op_len_def and_then_Inr sizer_count_def sizer_add_Inr sizesD [OF sizes_each [OF sizes_write]]
        op_fits_def op_bytes_def length_list_enc not_less split: if_splits)
qed

lemma capped_Inr: "and_then r (\<lambda>len. if len > L then Inl e else Inr len) = Inr n \<longleftrightarrow> r = Inr n \<and> n \<le> (L :: usize)"
  by (cases r) (auto simp: and_then_def)

lemma snapshot_len_Inr:
  "snapshot_len sn lim = Inr n \<longleftrightarrow>
     snapshot_fits lim sn \<and> n = length (snapshot_bytes sn) \<and> n \<le> lim_snapshot_data lim \<and> n \<le> usize_max"
proof -
  have u: "1 \<le> usize_max" by (simp add: usize_max_def)
  show ?thesis
  proof (cases sn)
    case (SnapLive l)
    then show ?thesis
      unfolding snapshot_len_def capped_Inr
      using and_then_sizes [OF sizes_registers [of lim] sizes_registers [of lim] u, of "ls_registers l" "ls_history l" n]
      by (auto simp: live_enc_def)
  next
    case (SnapTombstone t)
    note tail = sizes_seq [OF sizes_vv sizes_seq [OF sizes_add [of 16] sizes_registers [of lim]]]
    have "and_then (sizer_add (DOT_ENCODED_LEN + 8) 1) (\<lambda>len. and_then (sizer_vv (ts_context t) len) (\<lambda>len.
          and_then (sizer_add 16 len) (sizer_registers lim (ts_late t)))) = Inr m \<longleftrightarrow>
        snapshot_fits lim sn \<and> m = length (snapshot_bytes sn) \<and> m \<le> usize_max" for m
      using and_then_sizes [OF sizes_add [of "DOT_ENCODED_LEN + 8"] tail u,
          where y = "(ts_context t, (), ts_late t)" and len' = m]
      by (auto simp: SnapTombstone tombstone_enc_def DOT_ENCODED_LEN_def)
    then show ?thesis
      unfolding snapshot_len_def capped_Inr by (auto simp: SnapTombstone)
  qed
qed

section \<open>Writers\<close>

definition sane :: "limits \<Rightarrow> bool" where
  "sane lim \<longleftrightarrow> lim_value lim < 2 ^ 32 \<and> lim_writes lim < 2 ^ 16 \<and> lim_groups lim < 2 ^ 16 \<and>
     lim_values lim < 2 ^ 16 \<and> lim_op_data lim \<le> usize_max \<and> lim_snapshot_data lim \<le> usize_max"

lemma sane_limits [simp]: "sane limits_v1" "sane limits_unbounded"
  by (simp_all add: sane_def limits_v1_def limits_unbounded_def MAX_OP_DATA_LEN_def MAX_SNAPSHOT_DATA_LEN_def
      MAX_VALUE_LEN_def MAX_WRITES_def MAX_GROUPS_def MAX_VALUES_def usize_max_def)

lemma put_count_enc: "n < 2 ^ 16 \<Longrightarrow> put_count out n = out @ u16_bytes (word_of_nat n)"
  by (simp add: put_count_def put_u16_def u16_try_from_def)

lemma rec_put_bytes_enc: "length x < 2 ^ 32 \<Longrightarrow> rec_put_bytes out x = out @ bytes_enc x"
  by (simp add: rec_put_bytes_def put_u32_def u32_try_from_def bytes_enc_def)

lemma key_bytes_short: "length (key_bytes k) < 2 ^ 32"
  using length_key [of k] by simp

lemma rec_put_key: "rec_put_bytes out (key_bytes k) = out @ bytes_enc (key_bytes k)"
  by (rule rec_put_bytes_enc) (rule key_bytes_short)

lemma fold_put:
  "(\<And>x out. x \<in> set xs \<Longrightarrow> f x out = out @ enc x) \<Longrightarrow> fold f xs out = out @ concat (map enc xs)"
  by (induction xs arbitrary: out) auto

lemma put_register_enc:
  assumes "sane lim" "register_fits lim r"
  shows "put_register r out = out @ register_enc r"
proof -
  have "fold put_entry (rg_entries r) out = out @ concat (map entry_enc (rg_entries r))" for out
    using assms by (intro fold_put)
      (auto simp: put_entry_def entry_enc_def put_u64_def dot_encode_bytes rec_put_bytes_enc sane_def register_fits_def)
  moreover have "length (rg_entries r) < 2 ^ 16" using assms by (auto simp: sane_def register_fits_def)
  ultimately show ?thesis
    by (simp add: put_register_def put_count_enc rec_put_key register_enc_def list_enc_def)
qed

lemma put_registers_enc:
  assumes "sane lim" "registers_fit lim rs"
  shows "put_registers out rs = out @ list_enc register_enc rs"
proof -
  have "fold put_register rs out = out @ concat (map register_enc rs)" for out
    using assms by (intro fold_put) (auto simp: put_register_enc registers_fit_def)
  moreover have "length rs < 2 ^ 16" using assms by (auto simp: sane_def registers_fit_def)
  ultimately show ?thesis by (simp add: put_registers_def put_count_enc list_enc_def)
qed

lemma put_op_enc:
  assumes "sane lim" "op_fits lim op"
  shows "put_op out op = out @ op_bytes op"
proof -
  have "fold (\<lambda>w out. rec_put_bytes (rec_put_bytes out (key_bytes (wr_key w))) (wr_value w)) (op_writes op) out =
      out @ concat (map write_enc (op_writes op))" for out
    using assms by (intro fold_put) (auto simp: rec_put_key rec_put_bytes_enc write_enc_def sane_def op_fits_def)
  moreover have "length (op_writes op) < 2 ^ 16" using assms by (auto simp: sane_def op_fits_def)
  ultimately show ?thesis by (simp add: put_op_def put_count_enc op_bytes_def list_enc_def put_u8_def)
qed

lemma put_vv_enc: "vv_len v \<le> VV_MAX_ENTRIES \<Longrightarrow> put_vv out v = out @ vv_bytes v"
  by (simp add: put_vv_def put_count_enc fold_dot_encode vv_bytes_def VV_MAX_ENTRIES_def)

lemma put_snapshot_enc:
  assumes "sane lim" "snapshot_fits lim sn"
  shows "put_snapshot out sn = out @ snapshot_bytes sn"
proof (cases sn)
  case (SnapLive l)
  with assms show ?thesis
    by (auto simp: put_snapshot_def put_registers_enc [OF assms(1)] live_enc_def put_u8_def)
next
  case (SnapTombstone t)
  with assms show ?thesis
    by (auto simp: put_snapshot_def put_registers_enc [OF assms(1)] tombstone_enc_def put_u8_def put_u64_def
        dot_encode_bytes put_vv_enc)
qed


section \<open>Unique decodability of the layout\<close>

definition prefix_free :: "('a \<Rightarrow> bool) \<Rightarrow> ('a \<Rightarrow> bytes) \<Rightarrow> bool" where
  "prefix_free wk enc \<longleftrightarrow> (\<forall>x y u v. wk x \<longrightarrow> wk y \<longrightarrow> enc x @ u = enc y @ v \<longrightarrow> x = y \<and> u = v)"

lemma prefix_freeD: "prefix_free wk enc \<Longrightarrow> wk x \<Longrightarrow> wk y \<Longrightarrow> enc x @ u = enc y @ v \<Longrightarrow> x = y \<and> u = v"
  unfolding prefix_free_def by blast

lemma codec_prefix_free: "codec inp with_inp ok enc dec \<Longrightarrow> prefix_free ok enc"
  unfolding prefix_free_def by (intro allI impI) (rule codec.enc_prefix_free)

lemma prefix_free_pair:
  assumes "prefix_free w1 e1" "prefix_free w2 e2"
    and "\<And>r. wk r \<Longrightarrow> w1 (f r) \<and> w2 (g r)" "\<And>r. enc r = e1 (f r) @ e2 (g r)"
    and "\<And>r r'. f r = f r' \<Longrightarrow> g r = g r' \<Longrightarrow> r = r'"
  shows "prefix_free wk enc"
  unfolding prefix_free_def
proof (intro allI impI)
  fix x y u v
  assume wk: "wk x" "wk y" and eq: "enc x @ u = enc y @ v"
  then have "f x = f y \<and> e2 (g x) @ u = e2 (g y) @ v"
    by (intro prefix_freeD [OF assms(1)]) (simp_all add: assms(3,4))
  moreover from this have "g x = g y \<and> u = v"
    using wk by (intro prefix_freeD [OF assms(2)]) (simp_all add: assms(3))
  ultimately show "x = y \<and> u = v" using assms(5) by blast
qed

lemma prefix_free_concat:
  assumes "prefix_free wk enc"
  shows "length xs = length ys \<Longrightarrow> \<forall>x \<in> set xs. wk x \<Longrightarrow> \<forall>y \<in> set ys. wk y \<Longrightarrow>
    concat (map enc xs) @ u = concat (map enc ys) @ v \<Longrightarrow> xs = ys \<and> u = v"
proof (induction xs ys rule: list_induct2)
  case (Cons x xs y ys)
  from Cons.prems have "x = y \<and> concat (map enc xs) @ u = concat (map enc ys) @ v"
    by (intro prefix_freeD [OF assms]) simp_all
  with Cons show ?case by simp
qed simp

lemma prefix_free_list:
  assumes "prefix_free wk enc"
  shows "prefix_free (\<lambda>xs. length xs < 2 ^ 16 \<and> (\<forall>x \<in> set xs. wk x)) (list_enc enc)"
  unfolding prefix_free_def
proof (intro allI impI)
  fix xs ys u v
  assume xs: "length xs < 2 ^ 16 \<and> (\<forall>x \<in> set xs. wk x)" and ys: "length ys < 2 ^ 16 \<and> (\<forall>x \<in> set ys. wk x)"
    and eq: "list_enc enc xs @ u = list_enc enc ys @ v"
  then have "(word_of_nat (length xs) :: u16) = word_of_nat (length ys)"
    and tail: "concat (map enc xs) @ u = concat (map enc ys) @ v"
    by (simp_all add: list_enc_def)
  then have "length xs = length ys" using xs ys u16_word_of_nat by metis
  with prefix_free_concat [OF assms this _ _ tail] xs ys show "xs = ys \<and> u = v" by blast
qed

lemma prefix_free_bytes: "prefix_free (\<lambda>v. length v < 2 ^ 32) bytes_enc"
  by (rule codec_prefix_free) (rule bytes_codec.codec_axioms)

lemma prefix_free_key: "prefix_free (\<lambda>_. True) (\<lambda>k. bytes_enc (key_bytes k))"
  by (rule codec_prefix_free) (rule rec_key.codec_axioms)

lemma prefix_free_dot: "prefix_free (\<lambda>_. True) dot_bytes"
  by (rule codec_prefix_free) (rule dot_codec.codec_axioms)

lemma prefix_free_u64: "prefix_free (\<lambda>_. True) u64_bytes"
  by (rule codec_prefix_free) (rule u64_codec.codec_axioms)

lemma prefix_free_id: "prefix_free (\<lambda>_. True) id_bytes"
  by (rule codec_prefix_free) (rule id_codec.codec_axioms)

lemma prefix_free_vv: "prefix_free (\<lambda>v. vv_len v \<le> VV_MAX_ENTRIES) vv_bytes"
  by (rule codec_prefix_free) (rule vv_codec.codec_axioms)

lemma prefix_free_seq:
  assumes "prefix_free w1 e1" "prefix_free w2 e2"
  shows "prefix_free (\<lambda>(x, y). w1 x \<and> w2 y) (\<lambda>(x, y). e1 x @ e2 y)"
  by (rule prefix_free_pair [OF assms, where f = fst and g = snd]) (auto simp: prod_eq_iff)

definition weak_register :: "register \<Rightarrow> bool" where
  "weak_register r \<longleftrightarrow> length (rg_entries r) < 2 ^ 16 \<and> (\<forall>e \<in> set (rg_entries r). length (en_value e) < 2 ^ 32)"

lemma prefix_free_entry: "prefix_free (\<lambda>e. length (en_value e) < 2 ^ 32) entry_enc"
  by (rule prefix_free_pair [OF prefix_free_dot prefix_free_seq [OF prefix_free_u64 prefix_free_bytes],
        where f = en_dot and g = "\<lambda>e. (en_hlc e, en_value e)"])
    (auto simp: entry_enc_def)

lemma prefix_free_register: "prefix_free weak_register register_enc"
  by (rule prefix_free_pair [OF prefix_free_key prefix_free_list [OF prefix_free_entry],
        where f = rg_key and g = rg_entries])
    (auto simp: register_enc_def weak_register_def)

lemma prefix_free_write: "prefix_free (\<lambda>w. length (wr_value w) < 2 ^ 32) write_enc"
  by (rule prefix_free_pair [OF prefix_free_key prefix_free_bytes, where f = wr_key and g = wr_value])
    (auto simp: write_enc_def)

definition weak_registers :: "register list \<Rightarrow> bool" where
  "weak_registers rs \<longleftrightarrow> length rs < 2 ^ 16 \<and> (\<forall>r \<in> set rs. weak_register r)"

lemma prefix_free_registers: "prefix_free weak_registers (list_enc register_enc)"
  using prefix_free_list [OF prefix_free_register] by (simp add: weak_registers_def [abs_def])

lemma prefix_free_live: "prefix_free (\<lambda>l. weak_registers (ls_registers l) \<and> weak_registers (ls_history l)) live_enc"
  by (rule prefix_free_pair [OF prefix_free_registers prefix_free_registers,
        where f = ls_registers and g = ls_history])
    (auto simp: live_enc_def)

lemma prefix_free_tombstone:
  "prefix_free (\<lambda>t. vv_len (ts_context t) \<le> VV_MAX_ENTRIES \<and> weak_registers (ts_late t)) tombstone_enc"
  by (rule prefix_free_pair [OF prefix_free_dot
        prefix_free_seq [OF prefix_free_u64 prefix_free_seq [OF prefix_free_vv
          prefix_free_seq [OF prefix_free_id prefix_free_registers]]],
        where f = ts_purge_dot and g = "\<lambda>t. (ts_purge_hlc t, ts_context t, ts_item_key_id t, ts_late t)"])
    (auto simp: tombstone_enc_def)

definition weak_op :: "op_data \<Rightarrow> bool" where
  "weak_op op \<longleftrightarrow> length (op_writes op) < 2 ^ 16 \<and> (\<forall>w \<in> set (op_writes op). length (wr_value w) < 2 ^ 32)"

fun weak_snapshot :: "snapshot_data \<Rightarrow> bool" where
  "weak_snapshot (SnapLive l) \<longleftrightarrow> weak_registers (ls_registers l) \<and> weak_registers (ls_history l)"
| "weak_snapshot (SnapTombstone t) \<longleftrightarrow> vv_len (ts_context t) \<le> VV_MAX_ENTRIES \<and> weak_registers (ts_late t)"

lemma lifecycle_to_u8_inj [simp]: "lifecycle_to_u8 a = lifecycle_to_u8 b \<longleftrightarrow> a = b"
  by (metis lifecycle_from_u8_Some option.inject)

lemma op_bytes_inj: "weak_op a \<Longrightarrow> weak_op b \<Longrightarrow> op_bytes a = op_bytes b \<Longrightarrow> a = b"
  using prefix_freeD [OF prefix_free_list [OF prefix_free_write], of "op_writes a" "op_writes b" "[]" "[]"]
  by (simp add: op_bytes_def weak_op_def)

lemma snapshot_bytes_inj:
  "weak_snapshot a \<Longrightarrow> weak_snapshot b \<Longrightarrow> snapshot_bytes a = snapshot_bytes b \<Longrightarrow> a = b"
proof (cases a; cases b)
  fix l l'
  assume "a = SnapLive l" "b = SnapLive l'" "weak_snapshot a" "weak_snapshot b" "snapshot_bytes a = snapshot_bytes b"
  then show "a = b" using prefix_freeD [OF prefix_free_live, of l l' "[]" "[]"] by simp
next
  fix t t'
  assume "a = SnapTombstone t" "b = SnapTombstone t'" "weak_snapshot a" "weak_snapshot b"
    "snapshot_bytes a = snapshot_bytes b"
  then show "a = b" using prefix_freeD [OF prefix_free_tombstone, of t t' "[]" "[]"] by simp
qed simp_all


lemma op_ok_fits: "op_ok lim op \<Longrightarrow> op_fits lim op"
  unfolding op_ok_def op_fits_def using each_ok_mem [of "write_ok lim" "[]"]
  by (auto simp: write_ok_def value_ok_def)

lemma op_fits_weak: "sane lim \<Longrightarrow> op_fits lim op \<Longrightarrow> weak_op op"
  by (auto simp: sane_def op_fits_def weak_op_def)

lemma register_ok_fits: "register_ok lim grp covered ctx acc r \<Longrightarrow> register_fits lim r"
  unfolding register_ok_def register_fits_def
  using each_ok_mem [of "entry_ok lim (rg_key r) covered ctx" "[]"]
  by (auto simp: entry_ok_def value_ok_def)

lemma register_fits_weak: "sane lim \<Longrightarrow> registers_fit lim rs \<Longrightarrow> weak_registers rs"
  by (fastforce simp: sane_def registers_fit_def register_fits_def weak_registers_def weak_register_def)

lemma snapshot_ok_fits: "snapshot_ok lim covered sn \<Longrightarrow> snapshot_fits lim sn"
proof (cases sn)
  case (SnapLive l)
  assume "snapshot_ok lim covered sn"
  then show ?thesis
    using each_ok_mem [of "current_ok lim covered" "[]" "ls_registers l"]
      each_ok_mem [of "history_ok lim covered (ls_registers l)" "[]" "ls_history l"] register_ok_fits
    unfolding SnapLive snapshot_ok.simps snapshot_fits.simps live_ok_def registers_fit_def current_ok_def history_ok_def
    by meson
next
  case (SnapTombstone t)
  assume "snapshot_ok lim covered sn"
  then show ?thesis
    using each_ok_mem [of "register_ok lim Late covered (Some (ts_context t))" "[]" "ts_late t"] register_ok_fits
    unfolding SnapTombstone snapshot_ok.simps snapshot_fits.simps tombstone_ok_def registers_fit_def by meson
qed

lemma snapshot_fits_weak: "sane lim \<Longrightarrow> snapshot_fits lim sn \<Longrightarrow> weak_snapshot sn"
  by (cases sn) (auto intro: register_fits_weak)

text \<open>Op data has exactly one encoding: the writer produces a byte string for an op if and only
  if the parser reads that op from it. So everything written parses back to itself, everything
  parsed re-encodes to the same bytes, and both refuse the same ops.\<close>
theorem op_record_one_encoding: "(encode_op op = Inr bs) = (parse_op bs = Inr op)"
proof
  assume "encode_op op = Inr bs"
  then obtain op' where fits: "op_fits limits_v1 op" and bs: "bs = op_bytes op" and op': "op_with bs limits_v1 = Inr op'"
    by (auto simp: encode_op_def and_then_Inr op_len_Inr put_op_enc [OF sane_limits(1)] Let_def)
  then have "op = op'"
    using op_bytes_inj op_fits_weak [OF sane_limits(1)] op_ok_fits by (auto simp: op_with_Inr)
  with op' show "parse_op bs = Inr op" by (simp add: parse_op_def)
next
  assume p: "parse_op bs = Inr op"
  then have op: "op_with bs limits_v1 = Inr op" "op_ok limits_v1 op" "bs = op_bytes op"
    "length bs \<le> lim_op_data limits_v1" by (auto simp: parse_op_def op_with_Inr)
  moreover have "lim_op_data limits_v1 \<le> usize_max" using sane_limits(1) by (simp add: sane_def)
  ultimately have "op_len op limits_v1 = Inr (length bs)"
    using op_ok_fits by (auto simp: op_len_Inr)
  with op show "encode_op op = Inr bs"
    using op_ok_fits by (simp add: encode_op_def and_then_def put_op_enc [OF sane_limits(1)])
qed

lemma snapshot_writer:
  assumes "sane lim"
  shows "snapshot_len sn lim = Inr n \<and> snapshot_with covered (snapshot_bytes sn) lim = Inr sn' \<longleftrightarrow>
    n = length (snapshot_bytes sn) \<and> sn' = sn \<and> n \<le> lim_snapshot_data lim \<and> snapshot_ok lim covered sn"
proof -
  have "snapshot_fits lim sn \<Longrightarrow> snapshot_ok lim covered sn' \<Longrightarrow> snapshot_bytes sn = snapshot_bytes sn' \<Longrightarrow> sn = sn'"
    using snapshot_bytes_inj snapshot_fits_weak [OF assms] snapshot_ok_fits by blast
  moreover have "lim_snapshot_data lim \<le> usize_max" using assms by (simp add: sane_def)
  ultimately show ?thesis
    using snapshot_ok_fits [of lim covered sn] by (auto simp: snapshot_len_Inr snapshot_with_Inr)
qed

lemma snapshot_codec:
  "(encode_snapshot covered sn = Inr bs) = (parse_snapshot covered bs = Inr sn)"
proof -
  note writer = snapshot_writer [OF sane_limits(1)]
  have "encode_snapshot covered sn = Inr bs \<longleftrightarrow>
      (\<exists>n sn'. snapshot_len sn limits_v1 = Inr n \<and> snapshot_with covered (put_snapshot [] sn) limits_v1 = Inr sn' \<and>
        bs = put_snapshot [] sn)"
    by (auto simp: encode_snapshot_def and_then_Inr Let_def)
  also have "\<dots> \<longleftrightarrow>
      (\<exists>n sn'. (snapshot_len sn limits_v1 = Inr n \<and> snapshot_with covered (snapshot_bytes sn) limits_v1 = Inr sn') \<and>
        bs = snapshot_bytes sn)"
    using put_snapshot_enc [OF sane_limits(1), of sn "[]"] by (auto simp: snapshot_len_Inr)
  also have "\<dots> \<longleftrightarrow> parse_snapshot covered bs = Inr sn"
    unfolding writer by (auto simp: parse_snapshot_def snapshot_with_Inr)
  finally show ?thesis .
qed

text \<open>C40: Likewise snapshot data, live or tombstone, against the covered vector of its header.\<close>
theorem snapshot_record_one_encoding:
  "(encode_snapshot covered sn = Inr bs) = (parse_snapshot covered bs = Inr sn)"
  by (rule snapshot_codec)

lemma canonical_state_Inr:
  "canonical_state covered sn = Inr bs \<longleftrightarrow>
     vv_len covered \<le> VV_MAX_ENTRIES \<and> snapshot_ok limits_unbounded covered sn \<and>
     bs = u16_bytes 1 @ vv_bytes covered @ snapshot_bytes sn \<and> length bs \<le> usize_max"
proof -
  note writer = snapshot_writer [OF sane_limits(2)]
  let ?pre = "u16_bytes 1 @ vv_bytes covered"
  have v1: "isv_get isv_v1 = 1" unfolding isv_v1_def by (rule isv_of_inverse) simp
  have u: "2 \<le> usize_max" "lim_snapshot_data limits_unbounded = usize_max"
    by (simp_all add: usize_max_def limits_unbounded_def)
  have "canonical_state covered sn = Inr bs \<longleftrightarrow>
      (\<exists>n sn'. (snapshot_len sn limits_unbounded = Inr n \<and>
          snapshot_with covered (snapshot_bytes sn) limits_unbounded = Inr sn') \<and>
        vv_len covered \<le> VV_MAX_ENTRIES \<and> length ?pre + n \<le> usize_max \<and> bs = ?pre @ snapshot_bytes sn)"
    using put_snapshot_enc [OF sane_limits(2), of sn ?pre]
    by (auto simp: canonical_state_def and_then_Inr Let_def sizesD [OF sizes_vv u(1)] ok_or_def checked_add_def
        vv_encode_bytes put_u16_def v1 snapshot_len_Inr split: if_splits)
  then show ?thesis unfolding writer by (auto simp: u)
qed


section \<open>The rules a parsed record satisfies\<close>

lemma last_opt_Some: "last_opt xs = Some y \<longleftrightarrow> xs \<noteq> [] \<and> y = last xs"
  by (auto simp: last_opt_def)

lemma each_ok_sorted:
  assumes "each_ok ok acc xs" "\<And>acc x. ok acc x \<Longrightarrow> pred_option (\<lambda>l. f l < f x) (last_opt acc)"
    and "sorted_wrt (<) (map f acc)"
  shows "sorted_wrt (<) (map (f :: 'a \<Rightarrow> 'b :: linorder) (acc @ xs))"
  using assms(1,3)
proof (induction xs arbitrary: acc)
  case (Cons x xs)
  have "pred_option (\<lambda>l. f l < f x) (last_opt acc)" using Cons.prems(1) assms(2) by auto
  then have "f y < f x" if "y \<in> set acc" for y
  proof -
    from that obtain zs z where acc: "acc = zs @ [z]" by (cases acc rule: rev_cases) auto
    have "f z < f x" using \<open>pred_option _ _\<close> by (simp add: acc last_opt_def)
    moreover have "f y \<le> f z" using that Cons.prems(2) by (auto simp: acc sorted_wrt_append)
    ultimately show ?thesis by simp
  qed
  then have "sorted_wrt (<) (map f (acc @ [x]))" using Cons.prems(2) by (auto simp: sorted_wrt_append)
  with Cons.IH [of "acc @ [x]"] Cons.prems(1) show ?case by simp
qed simp

lemma shares_a_dot_iff:
  "sorted_wrt (<) (map en_dot a) \<Longrightarrow> sorted_wrt (<) (map en_dot b) \<Longrightarrow>
   shares_a_dot a b \<longleftrightarrow> en_dot ` set a \<inter> en_dot ` set b \<noteq> {}"
proof (induction a b rule: shares_a_dot.induct)
  case (1 x xs y ys)
  then show ?case by (auto split: if_splits)
qed auto

definition register_rules :: "version_vector \<Rightarrow> register \<Rightarrow> bool" where
  "register_rules covered r \<longleftrightarrow>
     rg_entries r \<noteq> [] \<and> sorted_wrt (<) (map en_dot (rg_entries r)) \<and>
     (\<forall>e \<in> set (rg_entries r). vv_covers covered (en_dot e)) \<and>
     (rg_key r = key_lifecycle \<longrightarrow>
        (\<forall>e \<in> set (rg_entries r). lifecycle_from_register_value (en_value e) \<noteq> None))"

definition live_rules :: "version_vector \<Rightarrow> live_snapshot \<Rightarrow> bool" where
  "live_rules covered l \<longleftrightarrow>
     (\<exists>r rs. ls_registers l = r # rs \<and> rg_key r = key_lifecycle) \<and>
     sorted_wrt (<) (map rg_key (ls_registers l)) \<and> sorted_wrt (<) (map rg_key (ls_history l)) \<and>
     (\<forall>r \<in> set (ls_registers l) \<union> set (ls_history l). register_rules covered r) \<and>
     (\<forall>g \<in> set (ls_history l). \<exists>r \<in> set (ls_registers l).
        rg_key r = rg_key g \<and> en_dot ` set (rg_entries r) \<inter> en_dot ` set (rg_entries g) = {})"

definition tombstone_rules :: "version_vector \<Rightarrow> tombstone \<Rightarrow> bool" where
  "tombstone_rules covered t \<longleftrightarrow>
     vv_covers covered (ts_purge_dot t) \<and> vv_le (ts_context t) covered \<and>
     sorted_wrt (<) (map rg_key (ts_late t)) \<and>
     (\<forall>r \<in> set (ts_late t). register_rules covered r \<and> rg_key r \<noteq> key_lifecycle \<and>
        (\<forall>e \<in> set (rg_entries r). \<not> vv_covers (ts_context t) (en_dot e)))"

lemma register_ok_rules:
  assumes "register_ok lim grp covered ctx acc r"
  shows "register_rules covered r" "grp = Late \<Longrightarrow> rg_key r \<noteq> key_lifecycle"
    "ctx = Some c \<Longrightarrow> e \<in> set (rg_entries r) \<Longrightarrow> \<not> vv_covers c (en_dot e)"
proof -
  from assms have r: "rg_entries r \<noteq> []" "each_ok (entry_ok lim (rg_key r) covered ctx) [] (rg_entries r)"
    "key_ok (map_option rg_key (last_opt acc)) (grp \<noteq> Late) (rg_key r)"
    by (auto simp: register_ok_def)
  have "sorted_wrt (<) (map en_dot ([] @ rg_entries r))"
    by (rule each_ok_sorted [OF r(2)]) (auto simp: entry_ok_def)
  moreover have "\<exists>acc. entry_ok lim (rg_key r) covered ctx acc e" if "e \<in> set (rg_entries r)" for e
    using each_ok_mem [OF r(2) that] .
  ultimately show "register_rules covered r" "ctx = Some c \<Longrightarrow> e \<in> set (rg_entries r) \<Longrightarrow> \<not> vv_covers c (en_dot e)"
    using r(1) by (force simp: register_rules_def entry_ok_def key_is_lifecycle_iff)+
  show "grp = Late \<Longrightarrow> rg_key r \<noteq> key_lifecycle"
    using r(3) by (simp add: key_ok_def key_is_lifecycle_iff)
qed

lemma registers_ascending:
  assumes "each_ok ok [] rs" "\<And>acc r. ok acc r \<Longrightarrow> register_ok lim grp covered ctx acc r"
  shows "sorted_wrt (<) (map rg_key rs)"
proof -
  have "sorted_wrt (<) (map rg_key ([] @ rs))"
    by (rule each_ok_sorted [OF assms(1)]) (auto dest!: assms(2) simp: register_ok_def key_ok_def option.pred_map comp_def)
  then show ?thesis by simp
qed

lemma live_ok_rules:
  assumes "live_ok lim covered l"
  shows "live_rules covered l"
proof -
  from assms have ok: "ls_registers l \<noteq> []" "each_ok (current_ok lim covered) [] (ls_registers l)"
    "each_ok (history_ok lim covered (ls_registers l)) [] (ls_history l)"
    by (auto simp: live_ok_def)
  have cur: "\<exists>acc. current_ok lim covered acc r" if "r \<in> set (ls_registers l)" for r
    using each_ok_mem [OF ok(2) that] .
  have hist: "\<exists>acc. history_ok lim covered (ls_registers l) acc g" if "g \<in> set (ls_history l)" for g
    using each_ok_mem [OF ok(3) that] .
  have rules: "register_rules covered r" if "r \<in> set (ls_registers l) \<union> set (ls_history l)" for r
    using that cur hist register_ok_rules(1) unfolding current_ok_def history_ok_def by blast
  have "\<exists>r \<in> set (ls_registers l). rg_key r = rg_key g \<and>
      en_dot ` set (rg_entries r) \<inter> en_dot ` set (rg_entries g) = {}" if g: "g \<in> set (ls_history l)" for g
  proof -
    from hist [OF g] obtain r where r: "find (\<lambda>r. rg_key r = rg_key g) (ls_registers l) = Some r"
      "\<not> shares_a_dot (rg_entries r) (rg_entries g)"
      by (auto simp: history_ok_def)
    then have mem: "r \<in> set (ls_registers l)" "rg_key r = rg_key g"
      by (auto simp: find_Some_iff)
    with rules g have "sorted_wrt (<) (map en_dot (rg_entries r))" "sorted_wrt (<) (map en_dot (rg_entries g))"
      by (auto simp: register_rules_def)
    with r(2) mem show ?thesis by (auto simp: shares_a_dot_iff)
  qed
  moreover have "\<exists>r rs. ls_registers l = r # rs \<and> rg_key r = key_lifecycle"
    using ok(1,2) by (cases "ls_registers l") (auto simp: current_ok_def key_is_lifecycle_iff)
  moreover have "sorted_wrt (<) (map rg_key (ls_registers l))"
    by (rule registers_ascending [OF ok(2), of lim Current covered None])
      (simp add: current_ok_def)
  moreover have "sorted_wrt (<) (map rg_key (ls_history l))"
    by (rule registers_ascending [OF ok(3), of lim History covered None])
      (simp add: history_ok_def)
  ultimately show ?thesis using rules by (simp add: live_rules_def)
qed

lemma tombstone_ok_rules:
  assumes "tombstone_ok lim covered t"
  shows "tombstone_rules covered t"
proof -
  from assms have t: "vv_covers covered (ts_purge_dot t)" "\<forall>d \<in> set (vv_entries (ts_context t)). vv_covers covered d"
    "each_ok (register_ok lim Late covered (Some (ts_context t))) [] (ts_late t)"
    by (auto simp: tombstone_ok_def)
  have "register_rules covered r \<and> rg_key r \<noteq> key_lifecycle \<and>
      (\<forall>e \<in> set (rg_entries r). \<not> vv_covers (ts_context t) (en_dot e))" if "r \<in> set (ts_late t)" for r
  proof -
    obtain acc where "register_ok lim Late covered (Some (ts_context t)) acc r"
      using each_ok_mem [OF t(3) \<open>r \<in> set (ts_late t)\<close>] by blast
    from register_ok_rules [OF this] show ?thesis by simp
  qed
  moreover have "vv_le (ts_context t) covered"
    using t(2) vv_entries_higher [of covered "ts_context t"] by (auto simp: vv_le_def list_ex_iff not_less)
  ultimately show ?thesis
    using t(1) registers_ascending [OF t(3)] by (auto simp: tombstone_rules_def)
qed

definition sample_covered :: version_vector where
  "sample_covered = bt_collect [(7, nz_of 2)]"

definition sample_live :: live_snapshot where
  "sample_live = \<lparr> ls_registers = [\<lparr> rg_key = key_lifecycle,
       rg_entries = [\<lparr> en_dot = Dot 7 (nz_of 2), en_hlc = 5, en_value = [0x01] \<rparr>] \<rparr>], ls_history = [] \<rparr>"

lemma sample_live_ok:
  "sane lim \<Longrightarrow> lim_values lim \<ge> 1 \<Longrightarrow> lim_groups lim \<ge> 1 \<Longrightarrow> lim_value lim \<ge> 1 \<Longrightarrow>
   snapshot_ok lim sample_covered (SnapLive sample_live)"
  by (simp add: live_ok_def sample_live_def current_ok_def register_ok_def entry_ok_def
      last_opt_def key_ok_def value_ok_def key_is_lifecycle_iff lifecycle_from_register_value_def
      sample_covered_def bt_collect_def vv_covers_def vv_get_def dot_seq_def)

lemma sample_live_bytes: "length (snapshot_bytes (SnapLive sample_live)) \<le> 100"
  by (simp add: sample_live_def live_enc_def list_enc_def register_enc_def entry_enc_def bytes_enc_def key_lifecycle_def key_bytes_of LIFECYCLE_KEY_def)

text \<open>A parsed snapshot satisfies the record rules: keys and dots strictly ascending, every
  dot covered, the lifecycle register first in a live snapshot and absent from a tombstone, each
  history group beside a register of its key with no dot in both, every late value outside the
  purge context, which the covered vector covers.\<close>
theorem parsed_snapshot_rules:
  assumes "parse_snapshot covered bs = Inr sn"
  shows "case sn of SnapLive l \<Rightarrow> live_rules covered l | SnapTombstone t \<Rightarrow> tombstone_rules covered t"
  using assms by (cases sn) (auto simp: parse_snapshot_def snapshot_with_Inr intro: live_ok_rules tombstone_ok_rules)

theorem parsed_snapshot_rules_witness:
  "parse_snapshot sample_covered (snapshot_bytes (SnapLive sample_live)) = Inr (SnapLive sample_live) \<and>
   live_rules sample_covered sample_live"
proof -
  have "snapshot_ok limits_v1 sample_covered (SnapLive sample_live)"
    by (rule sample_live_ok [OF sane_limits(1)])
      (simp_all add: limits_v1_def MAX_VALUES_def MAX_GROUPS_def MAX_VALUE_LEN_def)
  moreover have "100 \<le> lim_snapshot_data limits_v1" by (simp add: limits_v1_def MAX_SNAPSHOT_DATA_LEN_def)
  ultimately have "parse_snapshot sample_covered (snapshot_bytes (SnapLive sample_live)) = Inr (SnapLive sample_live)"
    using sample_live_bytes by (simp add: parse_snapshot_def snapshot_with_Inr)
  from this parsed_snapshot_rules [OF this] show ?thesis by simp
qed

text \<open>Equal state-hash inputs mean equal states: the canonical encoding of a covered vector
  and a snapshot determines both.\<close>
theorem canonical_state_injective:
  assumes "canonical_state c sn = Inr bs" and "canonical_state c' sn' = Inr bs"
  shows "c = c' \<and> sn = sn'"
proof -
  from assms have ok: "vv_len c \<le> VV_MAX_ENTRIES" "vv_len c' \<le> VV_MAX_ENTRIES"
    "snapshot_ok limits_unbounded c sn" "snapshot_ok limits_unbounded c' sn'"
    and eq: "vv_bytes c @ snapshot_bytes sn = vv_bytes c' @ snapshot_bytes sn'"
    by (auto simp: canonical_state_Inr)
  have "c = c' \<and> snapshot_bytes sn = snapshot_bytes sn'"
    by (rule prefix_freeD [OF prefix_free_vv ok(1,2) eq])
  then show ?thesis
    using snapshot_bytes_inj snapshot_fits_weak [OF sane_limits(2)] snapshot_ok_fits ok(3,4) by blast
qed

lemma sample_canonical_state:
  "canonical_state sample_covered (SnapLive sample_live) =
     Inr (u16_bytes 1 @ vv_bytes sample_covered @ snapshot_bytes (SnapLive sample_live))"
proof -
  have "snapshot_ok limits_unbounded sample_covered (SnapLive sample_live)"
    by (rule sample_live_ok [OF sane_limits(2)]) (simp_all add: limits_unbounded_def)
  moreover have "vv_len sample_covered = 1"
    by (simp add: vv_len_def sample_covered_def bt_eval)
  ultimately show ?thesis
    using sample_live_bytes
    by (simp add: canonical_state_Inr VV_MAX_ENTRIES_def usize_max_def length_vv_bytes)
qed

theorem canonical_state_injective_witness:
  "canonical_state sample_covered (SnapLive sample_live) =
     canonical_state (bt_collect [(7, nz_of 1), (7, nz_of 2)]) (SnapLive sample_live) \<and>
   sample_covered = bt_collect [(7, nz_of 1), (7, nz_of 2)]"
proof -
  have "canonical_state (bt_collect [(7, nz_of 1), (7, nz_of 2)]) (SnapLive sample_live) =
      canonical_state sample_covered (SnapLive sample_live)"
    by (rule arg_cong [where f = "\<lambda>c. canonical_state c (SnapLive sample_live)"])
      (rule bt_ext, simp add: sample_covered_def bt_collect_def)
  with canonical_state_injective [OF sample_canonical_state trans [OF this sample_canonical_state]]
  show ?thesis by simp
qed
end
