(* ===== verification/Merge_State.thy ===== *)
theory Merge_State
  imports Headers Record_Codec
begin

text \<open>
  The item state the merge keeps (\<open>rizzy-sync/src/merge/state.rs\<close>): values with their dot and
  clock, registers keyed by the key's bytes, a live item or a tombstone beside the covered
  vector, the bodies held as evidence, and the conversions to and from the record layer.

  \<open>Bytes\<close>, a shared zeroizing buffer, is its byte string here: equality and order are those of
  the bytes. Sharing and wiping have no counterpart.
\<close>

section \<open>Errors\<close>

text \<open>\<open>MergeError\<close> (\<open>rizzy-sync/src/merge.rs\<close>), which the state's conversions already use.\<close>

datatype merge_error =
    WrongItem | UnsupportedSchema | HeaderConflict dot | NotReady dot | NotCurrent dot
  | WriterRule | UnknownOp dot | InvalidKey | RecordRefused record_error

section \<open>Bytes\<close>

definition bytes_is_lifecycle_key :: "bytes \<Rightarrow> bool" where
  "bytes_is_lifecycle_key key \<longleftrightarrow> key = LIFECYCLE_KEY"

definition bytes_ct_eq :: "bytes \<Rightarrow> bytes \<Rightarrow> bool" where
  "bytes_ct_eq a other =
     (if length a \<noteq> length other then False
      else fold (\<lambda>(x, y) acc. acc OR (x XOR y)) (zip a other) 0 = 0)"

lemma or_xor_fold:
  "length a = length b \<Longrightarrow>
   fold (\<lambda>(x, y) acc. acc OR (x XOR y)) (zip a b) acc = 0 \<longleftrightarrow> acc = (0 :: u8) \<and> a = b"
proof (induction a b arbitrary: acc rule: list_induct2)
  case (Cons x xs y ys)
  have "x XOR y = 0 \<longleftrightarrow> x = y" by (metis xor_self_eq xor.assoc xor.left_neutral xor.right_neutral)
  moreover have "acc OR (x XOR y) = 0 \<longleftrightarrow> acc = 0 \<and> x XOR y = 0" by (rule or_eq_0_iff)
  ultimately show ?case using Cons.IH [of "acc OR (x XOR y)"] by auto
qed simp

lemma bytes_ct_eq_iff [simp]: "bytes_ct_eq a b \<longleftrightarrow> a = b"
  by (auto simp: bytes_ct_eq_def or_xor_fold)

section \<open>Values and shapes\<close>

record val =
  vl_dot :: dot
  vl_hlc :: hlc
  vl_value :: bytes

definition val_rank :: "val \<Rightarrow> hlc \<times> dot" where
  "val_rank v = (vl_hlc v, vl_dot v)"

definition val_entry :: "val \<Rightarrow> entry" where
  "val_entry v = \<lparr> en_dot = vl_dot v, en_hlc = vl_hlc v, en_value = vl_value v \<rparr>"

type_synonym regs = "(bytes, val list) btree_map"

record live =
  lv_regs :: regs
  lv_hist :: regs

record purge_rec =
  pr_dot :: dot
  pr_hlc :: hlc
  pr_key_id :: id16

definition purge_rank :: "purge_rec \<Rightarrow> hlc \<times> dot" where
  "purge_rank p = (pr_hlc p, pr_dot p)"

record tomb =
  tb_purge :: purge_rec
  tb_c :: version_vector
  tb_late :: regs

datatype shape = ShLive live | ShTomb tomb

record item_state =
  st_vv :: version_vector
  st_shape :: shape

definition live_default :: live where
  "live_default = \<lparr> lv_regs = bt_empty, lv_hist = bt_empty \<rparr>"

definition state_default :: item_state where
  "state_default = \<lparr> st_vv = vv_new, st_shape = ShLive live_default \<rparr>"

section \<open>The record layer\<close>

definition entry_val :: "entry \<Rightarrow> val" where
  "entry_val e = \<lparr> vl_dot = en_dot e, vl_hlc = en_hlc e, vl_value = en_value e \<rparr>"

definition regs_from :: "register list \<Rightarrow> regs" where
  "regs_from rs = bt_collect (map (\<lambda>r. (key_bytes (rg_key r), map entry_val (rg_entries r))) rs)"

definition held_field_key :: "bytes \<Rightarrow> merge_error + field_key" where
  "held_field_key bs =
     (if \<not> is_utf8 bs then Inl InvalidKey
      else if bs = LIFECYCLE_KEY then Inr key_lifecycle
      else map_err (\<lambda>_. InvalidKey) (field_key_new bs))"

text \<open>\<open>collect\<close> into a \<open>Result\<close> stops at the first error.\<close>

fun collect_results :: "('a \<Rightarrow> 'e + 'b) \<Rightarrow> 'a list \<Rightarrow> 'e + 'b list" where
  "collect_results f [] = Inr []"
| "collect_results f (x # xs) = and_then (f x) (\<lambda>y. and_then (collect_results f xs) (\<lambda>ys. Inr (y # ys)))"

definition regs_to :: "regs \<Rightarrow> merge_error + register list" where
  "regs_to rs =
     collect_results (\<lambda>(key, values).
       and_then (held_field_key key) (\<lambda>k. Inr \<lparr> rg_key = k, rg_entries = map val_entry values \<rparr>))
     (bt_entries rs)"

definition state_from_snapshot :: "version_vector \<Rightarrow> snapshot_data \<Rightarrow> item_state" where
  "state_from_snapshot covered data =
     \<lparr> st_vv = covered,
       st_shape =
         (case data of
            SnapLive l \<Rightarrow> ShLive \<lparr> lv_regs = regs_from (ls_registers l), lv_hist = regs_from (ls_history l) \<rparr>
          | SnapTombstone t \<Rightarrow>
              ShTomb \<lparr> tb_purge = \<lparr> pr_dot = ts_purge_dot t, pr_hlc = ts_purge_hlc t, pr_key_id = ts_item_key_id t \<rparr>,
                       tb_c = ts_context t, tb_late = regs_from (ts_late t) \<rparr>) \<rparr>"

definition state_is_absent :: "item_state \<Rightarrow> bool" where
  "state_is_absent s =
     (case st_shape s of
        ShLive l \<Rightarrow> bt_is_empty (lv_regs l) \<and> bt_is_empty (lv_hist l)
      | ShTomb _ \<Rightarrow> False)"

definition state_is_tomb :: "item_state \<Rightarrow> bool" where
  "state_is_tomb s = (case st_shape s of ShLive _ \<Rightarrow> False | ShTomb _ \<Rightarrow> True)"

definition state_snapshot_data :: "item_state \<Rightarrow> merge_error + snapshot_data option" where
  "state_snapshot_data s =
     (if state_is_absent s then Inr None
      else case st_shape s of
        ShLive l \<Rightarrow>
          and_then (regs_to (lv_regs l)) (\<lambda>registers.
          and_then (regs_to (lv_hist l)) (\<lambda>history.
          Inr (Some (SnapLive \<lparr> ls_registers = registers, ls_history = history \<rparr>))))
      | ShTomb t \<Rightarrow>
          and_then (regs_to (tb_late t)) (\<lambda>late.
          Inr (Some (SnapTombstone
            \<lparr> ts_purge_dot = pr_dot (tb_purge t), ts_purge_hlc = pr_hlc (tb_purge t),
              ts_context = tb_c t, ts_item_key_id = pr_key_id (tb_purge t), ts_late = late \<rparr>))))"

definition regs_values :: "regs \<Rightarrow> (bytes \<times> val) list" where
  "regs_values rs = concat (map (\<lambda>(k, vs). map (Pair k) vs) (bt_entries rs))"

definition state_values :: "item_state \<Rightarrow> (bytes \<times> val) list" where
  "state_values s =
     (case st_shape s of
        ShLive l \<Rightarrow> regs_values (lv_regs l) @ regs_values (lv_hist l)
      | ShTomb t \<Rightarrow> regs_values (tb_late t))"

definition state_max_hlc :: "item_state \<Rightarrow> hlc option" where
  "state_max_hlc s =
     (let values = map (\<lambda>(_, v). vl_hlc v) (state_values s)
      in case st_shape s of
           ShLive _ \<Rightarrow> max_opt values
         | ShTomb t \<Rightarrow> max_opt (values @ [pr_hlc (tb_purge t)]))"

section \<open>Held bodies\<close>

datatype body_kind = BodyWrite | BodyPurge id16

record held_op =
  ho_dot :: dot
  ho_hlc :: hlc
  ho_context :: version_vector
  ho_key_id :: id16
  ho_lifecycle :: lifecycle
  ho_writes :: "(bytes \<times> bytes) list"

definition held_op_new :: "op_header \<Rightarrow> id16 \<Rightarrow> op_data \<Rightarrow> held_op" where
  "held_op_new header key_id data =
     \<lparr> ho_dot = oh_dot header, ho_hlc = oh_hlc header, ho_context = oh_causal_context header,
       ho_key_id = key_id, ho_lifecycle = op_lifecycle data,
       ho_writes = map (\<lambda>w. (key_bytes (wr_key w), wr_value w)) (op_writes data) \<rparr>"

definition held_op_kind :: "held_op \<Rightarrow> body_kind" where
  "held_op_kind op =
     (case ho_lifecycle op of Purge \<Rightarrow> BodyPurge (ho_key_id op) | Active \<Rightarrow> BodyWrite | Trashed \<Rightarrow> BodyWrite)"

definition writes_with_lifecycle :: "held_op \<Rightarrow> (bytes \<times> bytes) list" where
  "writes_with_lifecycle op =
     (case lifecycle_register_value (ho_lifecycle op) of
        Some v \<Rightarrow> (LIFECYCLE_KEY, v) # ho_writes op
      | None \<Rightarrow> ho_writes op)"

section \<open>Reading the state back\<close>

lemma regs_values_iff: "(k, v) \<in> set (regs_values rs) \<longleftrightarrow> (\<exists>vs. bt_get rs k = Some vs \<and> v \<in> set vs)"
  by (force simp: regs_values_def bt_entries_iff [symmetric])

lemma val_entry_inverse [simp]: "entry_val (val_entry v) = v" "val_entry (entry_val e) = e"
  by (simp_all add: entry_val_def val_entry_def)

lemma collect_results_Inr:
  "collect_results f xs = Inr ys \<longleftrightarrow> list_all2 (\<lambda>x y. f x = Inr y) xs ys"
  by (induction xs arbitrary: ys) (auto simp: and_then_Inr list_all2_Cons1)

lemma utf8_lifecycle [simp]: "is_utf8 LIFECYCLE_KEY"
  by (rule is_utf8_ascii) (simp add: LIFECYCLE_KEY_def)

lemma held_field_key_Inr: "held_field_key bs = Inr k \<longleftrightarrow> key_bytes k = bs"
proof -
  have "key_bytes k = LIFECYCLE_KEY \<longleftrightarrow> k = key_lifecycle"
    using key_is_lifecycle_iff by (simp add: key_is_lifecycle_def)
  moreover have "key_grammar bs \<Longrightarrow> is_utf8 bs" by (rule grammar_utf8) (auto simp: key_grammar_def)
  ultimately show ?thesis
    using key_bytes [of k] by (auto simp: held_field_key_def field_key_new_def grammar_key_Inr)
qed

text \<open>What a state writes into a record reads back as the state.\<close>

lemma regs_round_trip:
  assumes "regs_to rs = Inr registers"
  shows "regs_from registers = rs"
proof -
  have "list_all2 (\<lambda>(k, vs) r. key_bytes (rg_key r) = k \<and> rg_entries r = map val_entry vs) (bt_entries rs) registers"
    using assms unfolding regs_to_def collect_results_Inr
    by (rule list_all2_mono) (auto simp: and_then_Inr held_field_key_Inr)
  then have "map (\<lambda>r. (key_bytes (rg_key r), map entry_val (rg_entries r))) registers = bt_entries rs"
    by (induction rule: list_all2_induct) (auto simp: comp_def)
  then show ?thesis by (simp add: regs_from_def)
qed

lemma state_round_trip:
  assumes "state_snapshot_data s = Inr (Some data)"
  shows "state_from_snapshot (st_vv s) data = s"
  using assms regs_round_trip
  by (auto simp: state_snapshot_data_def state_from_snapshot_def and_then_Inr split: if_splits shape.splits)

end
