(* ===== verification/Merge_Join.thy ===== *)
theory Merge_Join
  imports Merge_State
begin

text \<open>
  The evidence join (\<open>rizzy-sync/src/merge/join.rs\<close>): the one function behind applying an op and
  absorbing a snapshot. The definitions come first, in the order of the source; the lemmas then
  describe each by sets of values: the supersession index decides the pairwise definition,
  \<open>maximal\<close> splits the values of a key, \<open>prune\<close> keeps the newest.
\<close>

section \<open>Evidence\<close>

definition HISTORY_LIMIT :: usize where "HISTORY_LIMIT = 50"

record header_facts =
  hf_hlc :: hlc
  hf_context :: version_vector

record evidence =
  ev_headers :: "(dot, header_facts) btree_map"
  ev_wrap_keys :: "bytes btree_set"

definition ev_context :: "evidence \<Rightarrow> dot \<Rightarrow> version_vector option" where
  "ev_context ev d = map_option hf_context (bt_get (ev_headers ev) d)"

definition ev_hlc :: "evidence \<Rightarrow> dot \<Rightarrow> hlc option" where
  "ev_hlc ev d = map_option hf_hlc (bt_get (ev_headers ev) d)"

section \<open>Supersession\<close>

type_synonym supersession = "(device_id, u64 \<times> dot \<times> u64) btree_map"

definition supersession_entry :: "dot \<Rightarrow> dot \<Rightarrow> supersession \<Rightarrow> supersession" where
  "supersession_entry u entry tops =
     (let sq = dot_seq entry in
      case bt_get tops (dot_device entry) of
        None \<Rightarrow> bt_insert (dot_device entry) (sq, u, 0) tops
      | Some (best, best_dot, second) \<Rightarrow>
          bt_insert (dot_device entry)
            (if sq > best then (sq, u, best) else (best, best_dot, max second sq)) tops)"

definition supersession_add :: "evidence \<Rightarrow> dot \<Rightarrow> supersession \<Rightarrow> supersession" where
  "supersession_add ev u tops =
     (case ev_context ev u of
        None \<Rightarrow> tops
      | Some ctx \<Rightarrow> fold (supersession_entry u) (vv_entries ctx) tops)"

definition supersession_new :: "val list \<Rightarrow> evidence \<Rightarrow> supersession" where
  "supersession_new values ev =
     (let dots = bs_collect (map vl_dot values)
      in fold (supersession_add ev) (bt_keys dots) bt_empty)"

definition supersession_covers :: "supersession \<Rightarrow> val \<Rightarrow> bool" where
  "supersession_covers tops v =
     (case bt_get tops (dot_device (vl_dot v)) of
        None \<Rightarrow> False
      | Some (best, best_dot, second) \<Rightarrow>
          let bound = if best_dot = vl_dot v then second else best
          in bound \<ge> dot_seq (vl_dot v))"

section \<open>One key\<close>

definition preferred :: "val \<Rightarrow> val \<Rightarrow> evidence \<Rightarrow> bool" where
  "preferred candidate held ev =
     (let header = ev_hlc ev (vl_dot candidate);
          key = (\<lambda>v. (Some (vl_hlc v) \<noteq> header, vl_hlc v))
      in if key candidate < key held then True
         else if key candidate > key held then False
         else vl_value candidate < vl_value held)"

definition keep_version :: "evidence \<Rightarrow> val \<Rightarrow> (dot, val) btree_map \<Rightarrow> (dot, val) btree_map" where
  "keep_version ev v by_dot =
     (case bt_get by_dot (vl_dot v) of
        None \<Rightarrow> bt_insert (vl_dot v) v by_dot
      | Some held \<Rightarrow> if preferred v held ev then bt_insert (vl_dot v) v by_dot else by_dot)"

definition maximal :: "val list \<Rightarrow> evidence \<Rightarrow> val list \<times> val list" where
  "maximal candidates ev =
     (let by_dot = fold (keep_version ev) candidates bt_empty;
          index = supersession_new (bt_values by_dot) ev
      in (filter (\<lambda>v. \<not> supersession_covers index v) (bt_values by_dot),
          filter (supersession_covers index) (bt_values by_dot)))"

definition prune :: "val list \<Rightarrow> val list" where
  "prune history =
     sort_key vl_dot
       (if length history > HISTORY_LIMIT then take HISTORY_LIMIT (sort_key_desc val_rank history)
        else history)"

definition values_of :: "bytes \<Rightarrow> regs list \<Rightarrow> val list" where
  "values_of key rs = concat (List.map_filter (\<lambda>r. bt_get r key) rs)"

section \<open>Live items\<close>

definition set_live_key :: "live \<Rightarrow> bytes \<Rightarrow> val list \<Rightarrow> evidence \<Rightarrow> live" where
  "set_live_key out key values ev =
     (let (current, rest) = maximal values ev;
          history = prune rest
      in \<lparr> lv_regs = (if current = [] then bt_remove key (lv_regs out)
                      else bt_insert key current (lv_regs out)),
           lv_hist = (if history = [] then bt_remove key (lv_hist out)
                      else bt_insert key history (lv_hist out)) \<rparr>)"

definition live_keys :: "live \<Rightarrow> bytes list" where
  "live_keys l = bt_keys (bs_collect (bt_keys (lv_regs l) @ bt_keys (lv_hist l)))"

definition join_live_into :: "live \<Rightarrow> live \<Rightarrow> evidence \<Rightarrow> live" where
  "join_live_into x y ev =
     fold (\<lambda>key x. set_live_key x key (values_of key [lv_regs x, lv_hist x, lv_regs y, lv_hist y]) ev)
       (live_keys y) x"

section \<open>Tombstones\<close>

definition purge_order :: "purge_rec \<Rightarrow> evidence \<Rightarrow> (hlc \<times> dot) \<times> bool \<times> bytes" where
  "purge_order p ev =
     (let key = id_bytes (pr_key_id p) in (purge_rank p, bs_contains (ev_wrap_keys ev) key, key))"

definition set_late_key :: "tomb \<Rightarrow> bytes \<Rightarrow> val list \<Rightarrow> evidence \<Rightarrow> tomb" where
  "set_late_key t key values ev =
     (if bytes_is_lifecycle_key key then t
      else
        let current = filter (\<lambda>v. \<not> vv_covers (tb_c t) (vl_dot v)) (fst (maximal values ev))
        in if current = [] then t\<lparr> tb_late := bt_remove key (tb_late t) \<rparr>
           else t\<lparr> tb_late := bt_insert key current (tb_late t) \<rparr>)"

definition drop_covered :: "version_vector \<Rightarrow> regs \<Rightarrow> regs" where
  "drop_covered c rs =
     bt_retain (\<lambda>_ values. values \<noteq> [])
       (bt_retain_map (\<lambda>_ values. Some (filter (\<lambda>v. \<not> vv_covers c (vl_dot v)) values)) rs)"

definition join_tomb_into :: "tomb \<Rightarrow> shape \<Rightarrow> evidence \<Rightarrow> tomb" where
  "join_tomb_into t other ev =
     (let (t, sources) =
        (case other of
           ShLive l \<Rightarrow> (t, [lv_regs l, lv_hist l])
         | ShTomb u \<Rightarrow>
             (t\<lparr> tb_purge := (if purge_order (tb_purge u) ev > purge_order (tb_purge t) ev
                              then tb_purge u else tb_purge t),
                 tb_c := vv_join (tb_c t) (tb_c u) \<rparr>, [tb_late u]));
          keys = bt_keys (bs_collect (concat (map bt_keys sources)));
          t = fold (\<lambda>key t. set_late_key t key
                (concat (case bt_get (tb_late t) key of None \<Rightarrow> [] | Some vs \<Rightarrow> [vs]) @ values_of key sources) ev)
              keys t
      in t\<lparr> tb_late := drop_covered (tb_c t) (tb_late t) \<rparr>)"

section \<open>States\<close>

definition join_into :: "item_state \<Rightarrow> item_state \<Rightarrow> evidence \<Rightarrow> item_state" where
  "join_into a b ev =
     \<lparr> st_vv = vv_join (st_vv a) (st_vv b),
       st_shape =
         (case (st_shape a, st_shape b) of
            (ShLive mine, ShLive theirs) \<Rightarrow> ShLive (join_live_into mine theirs ev)
          | (ShTomb tomb, other) \<Rightarrow> ShTomb (join_tomb_into tomb other ev)
          | (ShLive mine, ShTomb theirs) \<Rightarrow> ShTomb (join_tomb_into theirs (ShLive mine) ev)) \<rparr>"

definition normalize :: "item_state \<Rightarrow> evidence \<Rightarrow> item_state" where
  "normalize s ev =
     \<lparr> st_vv = st_vv s,
       st_shape =
         (case st_shape s of
            ShLive l \<Rightarrow>
              ShLive (fold (\<lambda>key out. set_live_key out key (values_of key [lv_regs l, lv_hist l]) ev)
                (live_keys l) live_default)
          | ShTomb t \<Rightarrow>
              ShTomb (fold (\<lambda>(key, values) out. set_late_key out key values ev) (bt_entries (tb_late t))
                \<lparr> tb_purge = tb_purge t, tb_c = tb_c t, tb_late = bt_empty \<rparr>)) \<rparr>"

definition singleton :: "held_op \<Rightarrow> item_state" where
  "singleton op =
     \<lparr> st_vv = vv_add (ho_dot op) vv_new,
       st_shape =
         (case ho_lifecycle op of
            Purge \<Rightarrow>
              ShTomb \<lparr> tb_purge = \<lparr> pr_dot = ho_dot op, pr_hlc = ho_hlc op, pr_key_id = ho_key_id op \<rparr>,
                       tb_c = ho_context op, tb_late = bt_empty \<rparr>
          | _ \<Rightarrow>
              ShLive \<lparr> lv_regs = bt_collect (map (\<lambda>(key, v).
                  (key, [\<lparr> vl_dot = ho_dot op, vl_hlc = ho_hlc op, vl_value = v \<rparr>])) (writes_with_lifecycle op)),
                lv_hist = bt_empty \<rparr>) \<rparr>"

section \<open>The supersession index decides the pairwise definition\<close>

definition superseded_by :: "evidence \<Rightarrow> dot set \<Rightarrow> dot \<Rightarrow> bool" where
  "superseded_by ev D d \<longleftrightarrow> (\<exists>u \<in> D. u \<noteq> d \<and> (\<exists>c. ev_context ev u = Some c \<and> vv_covers c d))"

text \<open>What \<open>covers\<close> compares with: the highest entry for a device among the dots other than \<open>d\<close>.\<close>

definition bound_for :: "supersession \<Rightarrow> device_id \<Rightarrow> dot \<Rightarrow> u64" where
  "bound_for tops x d =
     (case bt_get tops x of
        None \<Rightarrow> 0
      | Some (best, best_dot, second) \<Rightarrow> if best_dot = d then second else best)"

definition index_ok :: "dot set \<Rightarrow> supersession \<Rightarrow> bool" where
  "index_ok D tops \<longleftrightarrow>
     (\<forall>x best d second. bt_get tops x = Some (best, d, second) \<longrightarrow> d \<in> D \<and> second \<le> best)"

fun index_step :: "dot \<Rightarrow> u64 \<Rightarrow> (u64 \<times> dot \<times> u64) option \<Rightarrow> u64 \<times> dot \<times> u64" where
  "index_step u sq None = (sq, u, 0)"
| "index_step u sq (Some (best, best_dot, second)) =
     (if sq > best then (sq, u, best) else (best, best_dot, max second sq))"

lemma dot_seq_nonzero [simp]: "dot_seq d \<noteq> 0"
  by (simp add: dot_seq_def)

lemma supersession_entry_step:
  "supersession_entry u e tops =
     bt_insert (dot_device e) (index_step u (dot_seq e) (bt_get tops (dot_device e))) tops"
  by (auto simp: supersession_entry_def Let_def split: option.splits)

lemma supersession_entries_get:
  "distinct (map dot_device es) \<Longrightarrow>
   bt_get (fold (supersession_entry u) es tops) x =
     (case find (\<lambda>e. dot_device e = x) es of
        None \<Rightarrow> bt_get tops x
      | Some e \<Rightarrow> Some (index_step u (dot_seq e) (bt_get tops x)))"
proof (induction es arbitrary: tops)
  case (Cons e es)
  have "find (\<lambda>e'. dot_device e' = x) es = None" if "dot_device e = x"
    using Cons.prems that by (simp add: find_None_iff) (metis image_eqI)
  with Cons show ?case by (auto simp: supersession_entry_step split: option.splits)
qed simp

lemma vv_entries_devices: "map dot_device (vv_entries v) = bt_keys v"
  by (simp add: vv_entries_def bt_keys_def case_prod_beta)

lemma supersession_add_get:
  assumes "ev_context ev u = Some c"
  shows "bt_get (supersession_add ev u tops) x =
    (if vv_get c x = 0 then bt_get tops x else Some (index_step u (vv_get c x) (bt_get tops x)))"
proof (cases "find (\<lambda>e. dot_device e = x) (vv_entries c)")
  case None
  then have "x \<notin> set (map dot_device (vv_entries c))" by (auto simp: find_None_iff)
  then have "vv_get c x = 0" by (auto simp: vv_entries_devices vv_get_def)
  with None assms show ?thesis
    by (simp add: supersession_add_def supersession_entries_get vv_entries_devices)
next
  case (Some e)
  then have "e \<in> set (vv_entries c)" "dot_device e = x" by (auto simp: find_Some_iff)
  then have "vv_get c x = dot_seq e" by (auto simp: vv_entries_iff)
  then show ?thesis
    using Some assms by (simp add: supersession_add_def supersession_entries_get vv_entries_devices)
qed

lemma supersession_add_ok:
  assumes ok: "index_ok D tops" and new: "u \<notin> D"
  shows "index_ok (insert u D) (supersession_add ev u tops)"
    and "bound_for (supersession_add ev u tops) x d =
      (if d = u then bound_for tops x d
       else max (bound_for tops x d) (case ev_context ev u of None \<Rightarrow> 0 | Some c \<Rightarrow> vv_get c x))"
proof -
  have tops: "fst (snd t) \<in> D" "snd (snd t) \<le> fst t" if "bt_get tops y = Some t" for y t
    using ok that by (cases t; force simp: index_ok_def)+
  show "index_ok (insert u D) (supersession_add ev u tops)"
  proof (cases "ev_context ev u")
    case None
    with ok show ?thesis by (auto simp: supersession_add_def index_ok_def)
  next
    case (Some c)
    have "fst (snd t) \<in> insert u D \<and> snd (snd t) \<le> fst t"
      if t: "bt_get (supersession_add ev u tops) y = Some t" for y t
    proof (cases "bt_get tops y")
      case None
      then show ?thesis using t by (auto simp: supersession_add_get [OF Some] split: if_splits)
    next
      case (Some old)
      then show ?thesis
        using t tops [OF Some] \<open>ev_context ev u = Some c\<close>
        by (cases old) (auto simp: supersession_add_get split: if_splits)
    qed
    then show ?thesis by (force simp: index_ok_def)
  qed
  show "bound_for (supersession_add ev u tops) x d =
      (if d = u then bound_for tops x d
       else max (bound_for tops x d) (case ev_context ev u of None \<Rightarrow> 0 | Some c \<Rightarrow> vv_get c x))"
  proof (cases "ev_context ev u")
    case None
    then show ?thesis by (simp add: supersession_add_def)
  next
    case (Some c)
    show ?thesis
    proof (cases "bt_get tops x")
      case None
      then show ?thesis by (simp add: bound_for_def supersession_add_get [OF Some] Some)
    next
      case (Some t)
      obtain best bd second where t: "t = (best, bd, second)" by (cases t)
      have "bd \<noteq> u" "second \<le> best" using tops [OF Some] new by (auto simp: t)
      then show ?thesis
        using Some \<open>ev_context ev u = Some c\<close>
        by (auto simp: bound_for_def supersession_add_get t max_def)
    qed
  qed
qed

lemma supersession_fold:
  assumes "distinct ds" "index_ok D tops" "D \<inter> set ds = {}" "0 < s"
  shows "s \<le> bound_for (fold (supersession_add ev) ds tops) x d \<longleftrightarrow>
    s \<le> bound_for tops x d \<or>
    (\<exists>u \<in> set ds. u \<noteq> d \<and> (\<exists>c. ev_context ev u = Some c \<and> s \<le> vv_get c x))"
  using assms
proof (induction ds arbitrary: D tops)
  case (Cons u ds)
  from Cons.prems have u: "u \<notin> D" by simp
  note step = supersession_add_ok [OF Cons.prems(2) u]
  have "s \<le> bound_for (supersession_add ev u tops) x d \<longleftrightarrow>
      s \<le> bound_for tops x d \<or> u \<noteq> d \<and> (\<exists>c. ev_context ev u = Some c \<and> s \<le> vv_get c x)"
    using \<open>0 < s\<close> by (auto simp: step(2) le_max_iff_disj split: option.splits)
  moreover have "insert u D \<inter> set ds = {}" "distinct ds" using Cons.prems by auto
  ultimately show ?case using Cons.IH [OF _ step(1)] \<open>0 < s\<close> by auto
qed simp

lemma index_pairwise:
  "supersession_covers (supersession_new values ev) v \<longleftrightarrow> superseded_by ev (vl_dot ` set values) (vl_dot v)"
proof -
  let ?ds = "bt_keys (bs_collect (map vl_dot values))"
  have ds: "set ?ds = vl_dot ` set values" by (simp only: bs_keys_collect list.set_map)
  have "supersession_covers (supersession_new values ev) v \<longleftrightarrow>
      dot_seq (vl_dot v) \<le> bound_for (fold (supersession_add ev) ?ds bt_empty) (dot_device (vl_dot v)) (vl_dot v)"
    by (auto simp: supersession_covers_def supersession_new_def bound_for_def Let_def split: option.splits)
  also have "\<dots> \<longleftrightarrow> superseded_by ev (vl_dot ` set values) (vl_dot v)"
    using supersession_fold [of ?ds "{}" bt_empty "dot_seq (vl_dot v)" ev "dot_device (vl_dot v)" "vl_dot v"]
    by (simp only: ds) (simp add: index_ok_def bound_for_def superseded_by_def vv_covers_def)
  finally show ?thesis .
qed

section \<open>One version per dot\<close>

definition version_key :: "evidence \<Rightarrow> val \<Rightarrow> bool \<times> hlc \<times> bytes" where
  "version_key ev v = (Some (vl_hlc v) \<noteq> ev_hlc ev (vl_dot v), vl_hlc v, vl_value v)"

lemma preferred_iff:
  "vl_dot v = vl_dot w \<Longrightarrow> preferred v w ev \<longleftrightarrow> version_key ev v < version_key ev w"
  by (auto simp: preferred_def version_key_def Let_def less_prod_def')

lemma version_key_inj: "vl_dot v = vl_dot w \<Longrightarrow> version_key ev v = version_key ev w \<Longrightarrow> v = w"
  by (simp add: version_key_def)

definition chosen :: "evidence \<Rightarrow> val set \<Rightarrow> val set" where
  "chosen ev V = {v \<in> V. \<forall>w \<in> V. vl_dot w = vl_dot v \<longrightarrow> version_key ev v \<le> version_key ev w}"

lemma chosen_subset: "chosen ev V \<subseteq> V"
  by (auto simp: chosen_def)

lemma chosen_unique: "v \<in> chosen ev V \<Longrightarrow> w \<in> chosen ev V \<Longrightarrow> vl_dot v = vl_dot w \<Longrightarrow> v = w"
  by (rule version_key_inj) (auto simp: chosen_def intro: antisym)

lemma chosen_exists:
  assumes "finite V" "v \<in> V"
  shows "\<exists>w \<in> chosen ev V. vl_dot w = vl_dot v \<and> version_key ev w \<le> version_key ev v"
proof -
  let ?S = "{w \<in> V. vl_dot w = vl_dot v}"
  have S: "finite ?S" "v \<in> ?S" using assms by auto
  then have "Min (version_key ev ` ?S) \<in> version_key ev ` ?S" by (intro Min_in) auto
  then obtain w where w: "w \<in> ?S" "version_key ev w = Min (version_key ev ` ?S)" by force
  with S have le: "version_key ev w \<le> version_key ev u" if "u \<in> ?S" for u
    using that by (metis (no_types, lifting) Min_le finite_imageI imageI)
  with w(1) have "w \<in> chosen ev V" by (simp add: chosen_def)
  with w(1) le [OF S(2)] show ?thesis by blast
qed

lemma chosen_dots:
  assumes "finite V"
  shows "vl_dot ` chosen ev V = vl_dot ` V"
proof (rule equalityI)
  show "vl_dot ` chosen ev V \<subseteq> vl_dot ` V" using chosen_subset by (rule image_mono)
  show "vl_dot ` V \<subseteq> vl_dot ` chosen ev V"
  proof (rule image_subsetI)
    fix v assume "v \<in> V"
    then obtain w where "w \<in> chosen ev V" "vl_dot w = vl_dot v" using chosen_exists [OF assms] by blast
    then show "vl_dot v \<in> vl_dot ` chosen ev V" by (metis imageI)
  qed
qed

lemma chosen_insert:
  "v \<in> chosen ev (insert x V) \<longleftrightarrow>
     v = x \<and> (\<forall>w \<in> V. vl_dot w = vl_dot x \<longrightarrow> version_key ev x \<le> version_key ev w) \<or>
     v \<in> chosen ev V \<and> (vl_dot x = vl_dot v \<longrightarrow> version_key ev v \<le> version_key ev x)"
  unfolding chosen_def by blast

lemma keyed_insert:
  assumes "\<And>d v. bt_get m d = Some v \<longleftrightarrow> v \<in> C \<and> vl_dot v = d"
  shows "bt_get (bt_insert (vl_dot x) x m) d = Some v \<longleftrightarrow>
    (v = x \<or> v \<in> C \<and> vl_dot v \<noteq> vl_dot x) \<and> vl_dot v = d"
  using assms by auto

lemma keep_versions:
  "bt_get (fold (keep_version ev) vs bt_empty) d = Some v \<longleftrightarrow> v \<in> chosen ev (set vs) \<and> vl_dot v = d"
proof (induction vs arbitrary: v d rule: rev_induct)
  case (snoc x vs)
  let ?m = "fold (keep_version ev) vs bt_empty" and ?V = "set vs"
  note ins = keyed_insert [OF snoc.IH, of x]
  have unfold_step: "fold (keep_version ev) (vs @ [x]) bt_empty = keep_version ev x ?m" by simp
  show ?case
  proof (cases "bt_get ?m (vl_dot x) = None \<or> (\<exists>h. bt_get ?m (vl_dot x) = Some h \<and> version_key ev x < version_key ev h)")
    case True
    have "preferred x h ev \<longleftrightarrow> version_key ev x < version_key ev h" if "bt_get ?m (vl_dot x) = Some h" for h
      using that by (intro preferred_iff) (simp add: snoc.IH)
    with True have "keep_version ev x ?m = bt_insert (vl_dot x) x ?m"
      unfolding keep_version_def by (auto split: option.splits)
    moreover have below: "version_key ev x < version_key ev w" if w: "w \<in> ?V" "vl_dot w = vl_dot x" for w
    proof -
      obtain h where h: "h \<in> chosen ev ?V" "vl_dot h = vl_dot x" "version_key ev h \<le> version_key ev w"
        using chosen_exists [OF _ w(1)] w(2) by auto
      then have "bt_get ?m (vl_dot x) = Some h" by (simp add: snoc.IH)
      with True h(3) show ?thesis by auto
    qed
    then have "v \<in> chosen ev (insert x ?V) \<longleftrightarrow> v = x \<or> v \<in> chosen ev ?V \<and> vl_dot v \<noteq> vl_dot x" for v
      unfolding chosen_insert using chosen_subset by (metis less_imp_le not_less subsetD)
    ultimately show ?thesis by (simp only: unfold_step ins set_append list.set Un_insert_right sup_bot_right)
  next
    case False
    then obtain h where h: "bt_get ?m (vl_dot x) = Some h" "version_key ev h \<le> version_key ev x" by auto
    then have hc: "h \<in> chosen ev ?V" "vl_dot h = vl_dot x" by (auto simp: snoc.IH)
    have "keep_version ev x ?m = ?m"
      using h hc by (simp add: keep_version_def preferred_iff leD)
    moreover have "x = h" if "\<forall>w \<in> ?V. vl_dot w = vl_dot x \<longrightarrow> version_key ev x \<le> version_key ev w"
    proof (rule version_key_inj)
      show "vl_dot x = vl_dot h" using hc(2) by simp
      have "version_key ev x \<le> version_key ev h" using that hc chosen_subset by blast
      with h(2) show "version_key ev x = version_key ev h" by simp
    qed
    then have "v \<in> chosen ev (insert x ?V) \<longleftrightarrow> v \<in> chosen ev ?V" for v
      unfolding chosen_insert using hc h(2) chosen_unique by metis
    ultimately show ?thesis by (simp only: unfold_step snoc.IH set_append list.set Un_insert_right sup_bot_right)
  qed
qed (simp add: chosen_def)

section \<open>Current values and history\<close>

definition cur :: "evidence \<Rightarrow> val set \<Rightarrow> val set" where
  "cur ev V = {v \<in> chosen ev V. \<not> superseded_by ev (vl_dot ` V) (vl_dot v)}"

definition old :: "evidence \<Rightarrow> val set \<Rightarrow> val set" where
  "old ev V = {v \<in> chosen ev V. superseded_by ev (vl_dot ` V) (vl_dot v)}"

abbreviation dot_sorted :: "val list \<Rightarrow> bool" where
  "dot_sorted vs \<equiv> sorted_wrt (<) (map vl_dot vs)"

lemma maximal_sets:
  "set (fst (maximal vs ev)) = cur ev (set vs)" "set (snd (maximal vs ev)) = old ev (set vs)"
  "dot_sorted (fst (maximal vs ev))" "dot_sorted (snd (maximal vs ev))"
proof -
  let ?m = "fold (keep_version ev) vs bt_empty"
  have vals: "set (bt_values ?m) = chosen ev (set vs)"
    by (auto simp: bt_values_iff keep_versions)
  have sup: "supersession_covers (supersession_new (bt_values ?m) ev) v \<longleftrightarrow>
      superseded_by ev (vl_dot ` set vs) (vl_dot v)" for v
    by (simp add: index_pairwise vals chosen_dots)
  show "set (fst (maximal vs ev)) = cur ev (set vs)" "set (snd (maximal vs ev)) = old ev (set vs)"
    by (auto simp: maximal_def Let_def sup vals cur_def old_def)
  have "vl_dot v = d" if "(d, v) \<in> set (bt_entries ?m)" for d v
    using that by (auto simp: bt_entries_iff keep_versions)
  then have "map vl_dot (bt_values ?m) = bt_keys ?m"
    by (auto simp: bt_values_def bt_keys_def)
  then have sorted: "dot_sorted (bt_values ?m)" by simp
  have "dot_sorted (filter P (bt_values ?m))" for P
    using sorted by (simp add: sorted_wrt_map sorted_wrt_filter)
  then show "dot_sorted (fst (maximal vs ev))" "dot_sorted (snd (maximal vs ev))"
    by (simp_all add: maximal_def Let_def)
qed

definition newest :: "nat \<Rightarrow> val set \<Rightarrow> val set" where
  "newest n S = {v \<in> S. card {w \<in> S. val_rank v < val_rank w} < n}"

lemma descending_prefix:
  assumes "sorted_wrt (\<lambda>a b. f b < f a) xs"
  shows "set (take n xs) = {v \<in> set xs. card {w \<in> set xs. f v < (f w :: 'b :: linorder)} < n}"
proof -
  have nth: "f (xs ! j) < f (xs ! i) \<longleftrightarrow> i < j" if "i < length xs" "j < length xs" for i j
    using sorted_wrt_nth_less [OF assms, of i j] sorted_wrt_nth_less [OF assms, of j i] that
    by (metis less_asym linorder_cases order_less_irrefl)
  have dist: "distinct xs" using assms by (induction xs) auto
  have card: "card {w \<in> set xs. f (xs ! i) < f w} = i" if i: "i < length xs" for i
  proof -
    have "{w \<in> set xs. f (xs ! i) < f w} = set (take i xs)"
    proof -
      have "{w \<in> set xs. f (xs ! i) < f w} = (!) xs ` {j \<in> {0..<length xs}. f (xs ! i) < f (xs ! j)}"
        by (auto simp: set_conv_nth)
      also have "{j \<in> {0..<length xs}. f (xs ! i) < f (xs ! j)} = {0..<i}" using i nth by auto
      finally show ?thesis using i by (simp add: nth_image)
    qed
    then show ?thesis using i dist by (simp add: distinct_card)
  qed
  have "set (take n xs) = {xs ! i | i. i < length xs \<and> i < n}"
    unfolding set_conv_nth by (rule Collect_cong) (auto, metis nth_take)
  also have "\<dots> = {v \<in> set xs. card {w \<in> set xs. f v < f w} < n}"
    using card by (fastforce simp: in_set_conv_nth)
  finally show ?thesis .
qed

lemma dot_sorted_sort_key:
  assumes "distinct (map vl_dot vs)"
  shows "dot_sorted (sort_key vl_dot vs)"
proof -
  have "distinct (map vl_dot (sort_key vl_dot vs))"
    using assms by (metis distinct_map distinct_sort set_sort)
  then show ?thesis by (simp add: strict_sorted_iff)
qed

lemma dot_sorted_distinct: "dot_sorted vs \<Longrightarrow> distinct (map vl_dot vs)"
  by (simp add: strict_sorted_iff)

lemma descending_strict:
  "sorted_wrt (\<lambda>a b. f b \<le> f a) xs \<Longrightarrow> distinct (map f xs) \<Longrightarrow>
   sorted_wrt (\<lambda>a b. f b < (f a :: 'b :: linorder)) xs"
  by (induction xs) (auto simp: less_le image_iff)

lemma distinct_rank: "distinct (map vl_dot vs) \<Longrightarrow> distinct (map val_rank vs)"
  by (auto simp: distinct_map inj_on_def val_rank_def)

lemma newest_all: "finite S \<Longrightarrow> card S \<le> n \<Longrightarrow> newest n S = S"
proof -
  assume S: "finite S" "card S \<le> n"
  have "card {w \<in> S. val_rank v < val_rank w} < n" if "v \<in> S" for v
  proof -
    have "card {w \<in> S. val_rank v < val_rank w} < card S"
      by (rule psubset_card_mono [OF S(1)]) (use that in auto)
    with S(2) show ?thesis by simp
  qed
  then show "newest n S = S" by (auto simp: newest_def)
qed

lemma prune_sets:
  assumes "dot_sorted vs"
  shows "set (prune vs) = newest HISTORY_LIMIT (set vs)" "dot_sorted (prune vs)"
proof -
  have dist: "distinct (map vl_dot vs)" using assms by (rule dot_sorted_distinct)
  let ?xs = "sort_key_desc val_rank vs"
  have dx: "distinct (map vl_dot ?xs)" using dist by (simp add: sort_key_desc_def distinct_map)
  have "sorted_wrt (\<lambda>a b. val_rank b < val_rank a) ?xs"
    by (rule descending_strict [OF sorted_sort_key_desc distinct_rank [OF dx]])
  then have top: "set (take n ?xs) = newest n (set vs)" for n
    by (simp add: descending_prefix newest_def)
  have "card (set vs) = length vs" using dist by (simp add: distinct_card distinct_map)
  then show "set (prune vs) = newest HISTORY_LIMIT (set vs)"
    by (simp add: prune_def top newest_all)
  have "distinct (map vl_dot (take n ?xs))" for n using dx by (simp flip: take_map)
  then show "dot_sorted (prune vs)"
    using dist by (simp add: prune_def dot_sorted_sort_key)
qed

text \<open>C32: The supersession index, built in one pass over the contexts with the two highest entries
  per device, decides the pairwise definition: it covers a value exactly when another value of
  the set, at another dot, has a verified context that covers the value's dot.\<close>
theorem supersession_index_correct:
  "supersession_covers (supersession_new values ev) v =
     (\<exists>u. u \<in> set values \<and> vl_dot u \<noteq> vl_dot v \<and>
        (\<exists>c. ev_context ev (vl_dot u) = Some c \<and> vv_covers c (vl_dot v)))"
  unfolding index_pairwise superseded_by_def by auto

end
