(* ===== verification/Merge_Algebra.thy ===== *)
theory Merge_Algebra
  imports Merge_Join
begin

text \<open>
  The algebra of one key's values. \<open>cur\<close> are the values no other value supersedes, \<open>hist\<close> the
  newest of the rest. Under verified contexts that are causal (a context covers the contexts of
  the ops it covers, and never its own op), both are functions of the union of what two sides
  hold, although each side keeps only its current values and its pruned history, or, in a
  tombstone, only its late values.
\<close>

section \<open>Causal evidence\<close>

definition causal_headers :: "evidence \<Rightarrow> bool" where
  "causal_headers ev \<longleftrightarrow>
     (\<forall>u c. ev_context ev u = Some c \<longrightarrow> \<not> vv_covers c u) \<and>
     (\<forall>u c w c'. ev_context ev u = Some c \<longrightarrow> ev_context ev w = Some c' \<longrightarrow> vv_covers c w \<longrightarrow> vv_le c' c)"

text \<open>Every value carries the clock of its verified header.\<close>

definition vouched :: "evidence \<Rightarrow> val set \<Rightarrow> bool" where
  "vouched ev V \<longleftrightarrow> (\<forall>v \<in> V. ev_hlc ev (vl_dot v) = Some (vl_hlc v))"

definition hist :: "evidence \<Rightarrow> val set \<Rightarrow> val set" where
  "hist ev V = newest HISTORY_LIMIT (old ev V)"

lemma superseded_mono: "D \<subseteq> E \<Longrightarrow> superseded_by ev D d \<Longrightarrow> superseded_by ev E d"
  by (auto simp: superseded_by_def)

lemma cur_or_old: "chosen ev V = cur ev V \<union> old ev V" "cur ev V \<inter> old ev V = {}"
  by (auto simp: cur_def old_def)

lemma cur_subset: "cur ev V \<subseteq> V" "old ev V \<subseteq> V" "hist ev V \<subseteq> old ev V"
  using chosen_subset by (auto simp: cur_def old_def hist_def newest_def)

lemma cur_empty [simp]: "cur ev {} = {}" "old ev {} = {}" "hist ev {} = {}"
  using cur_subset [of ev "{}"] by auto

lemma chosen_Un: "v \<in> chosen ev (A \<union> B) \<Longrightarrow> v \<in> A \<Longrightarrow> v \<in> chosen ev A"
  by (auto simp: chosen_def)

lemma chosen_restrict: "v \<in> chosen ev V \<Longrightarrow> W \<subseteq> V \<Longrightarrow> v \<in> W \<Longrightarrow> v \<in> chosen ev W"
  by (auto simp: chosen_def)

text \<open>A superseded dot is superseded by a current value: follow the contexts upwards.\<close>

lemma superseded_by_current:
  assumes ev: "causal_headers ev" and fin: "finite V" and sup: "superseded_by ev (vl_dot ` V) d"
  shows "superseded_by ev (vl_dot ` cur ev V) d"
proof -
  let ?D = "vl_dot ` V"
  let ?S = "{u \<in> ?D. u \<noteq> d \<and> (\<exists>c. ev_context ev u = Some c \<and> vv_covers c d)}"
  let ?below = "\<lambda>u. {x \<in> ?D. \<exists>c. ev_context ev u = Some c \<and> vv_covers c x}"
  have S: "finite ?S" "?S \<noteq> {}" using fin sup by (auto simp: superseded_by_def)
  then have "Max ((\<lambda>u. card (?below u)) ` ?S) \<in> (\<lambda>u. card (?below u)) ` ?S" by (intro Max_in) auto
  then obtain u where u: "u \<in> ?S" "card (?below u) = Max ((\<lambda>u. card (?below u)) ` ?S)" by force
  then obtain c where c: "ev_context ev u = Some c" "vv_covers c d" by auto
  have "\<not> superseded_by ev ?D u"
  proof
    assume "superseded_by ev ?D u"
    then obtain w cw where w: "w \<in> ?D" "w \<noteq> u" "ev_context ev w = Some cw" "vv_covers cw u"
      by (auto simp: superseded_by_def)
    with ev c(1) have le: "vv_le c cw" by (auto simp: causal_headers_def)
    then have "vv_covers cw d" using c(2) by (rule vv_le_covers)
    with ev w(3) have "w \<noteq> d" by (auto simp: causal_headers_def)
    with w \<open>vv_covers cw d\<close> have "w \<in> ?S" by auto
    have "?below u \<subseteq> ?below w" using c(1) w(3) vv_le_covers [OF le] by auto
    moreover have "u \<in> ?below w" "u \<notin> ?below u"
      using u(1) w c(1) ev by (auto simp: causal_headers_def)
    ultimately have "?below u \<subset> ?below w" by blast
    then have "card (?below u) < card (?below w)" using fin by (intro psubset_card_mono) auto
    moreover have "card (?below w) \<le> Max ((\<lambda>u. card (?below u)) ` ?S)"
      using S(1) \<open>w \<in> ?S\<close> by (intro Max_ge) auto
    ultimately show False using u(2) by simp
  qed
  moreover obtain v where "v \<in> chosen ev V" "vl_dot v = u"
    using u(1) chosen_dots [OF fin, of ev] by force
  ultimately have "u \<in> vl_dot ` cur ev V" by (auto simp: cur_def)
  with u(1) c show ?thesis by (auto simp: superseded_by_def)
qed

lemma superseded_within:
  assumes "causal_headers ev" "finite V" "cur ev V \<subseteq> W" "W \<subseteq> V"
  shows "superseded_by ev (vl_dot ` W) d \<longleftrightarrow> superseded_by ev (vl_dot ` V) d"
  using superseded_by_current [OF assms(1,2), of d] superseded_mono assms(3,4)
  by (meson image_mono)

lemma cur_nonempty:
  assumes "causal_headers ev" "finite V" "V \<noteq> {}"
  shows "cur ev V \<noteq> {}"
proof -
  obtain v where "v \<in> V" using assms(3) by auto
  then obtain w where w: "w \<in> chosen ev V" using chosen_exists [OF assms(2)] by blast
  show ?thesis
  proof (cases "superseded_by ev (vl_dot ` V) (vl_dot w)")
    case True
    from superseded_by_current [OF assms(1,2) this] show ?thesis by (auto simp: superseded_by_def)
  next
    case False
    with w show ?thesis by (auto simp: cur_def)
  qed
qed

section \<open>Current values of a union\<close>

lemma cur_restrict: "v \<in> cur ev V \<Longrightarrow> W \<subseteq> V \<Longrightarrow> v \<in> W \<Longrightarrow> v \<in> cur ev W"
  using superseded_mono [of "vl_dot ` W" "vl_dot ` V" ev "vl_dot v"]
  by (auto simp: cur_def image_mono intro: chosen_restrict)

lemma cur_Un_subset: "cur ev (A \<union> B) \<subseteq> cur ev A \<union> cur ev B"
  using cur_restrict [of _ ev "A \<union> B"] cur_subset(1) [of ev "A \<union> B"] by blast

lemma cur_within:
  assumes ev: "causal_headers ev" and fin: "finite V" and W: "cur ev V \<subseteq> W" "W \<subseteq> V"
  shows "cur ev W = cur ev V"
proof (rule equalityI)
  note sup = superseded_within [OF assms]
  show "cur ev V \<subseteq> cur ev W"
  proof
    fix v assume "v \<in> cur ev V"
    with W show "v \<in> cur ev W" by (auto simp: cur_def sup intro: chosen_restrict)
  qed
  show "cur ev W \<subseteq> cur ev V"
  proof
    fix v assume v: "v \<in> cur ev W"
    then have "v \<in> V" using cur_subset W by blast
    then obtain w where w: "w \<in> chosen ev V" "vl_dot w = vl_dot v" using chosen_exists [OF fin] by blast
    with v have "w \<in> cur ev V" by (auto simp: cur_def sup)
    then have "w \<in> chosen ev W" using W w(1) by (auto intro: chosen_restrict)
    with v w(2) have "w = v" by (auto simp: cur_def intro: chosen_unique)
    with \<open>w \<in> cur ev V\<close> show "v \<in> cur ev V" by simp
  qed
qed

section \<open>The newest of a set\<close>

definition among_top :: "nat \<Rightarrow> 'r :: linorder set \<Rightarrow> 'r \<Rightarrow> bool" where
  "among_top n R r \<longleftrightarrow> card {e \<in> R. r < e} < n"

lemma among_top_subset:
  assumes "finite R" "Q \<subseteq> R" "\<And>r. r \<in> R - Q \<Longrightarrow> n \<le> card {e \<in> Q. r < e}"
  shows "among_top n R r \<longleftrightarrow> among_top n Q r"
proof
  have fin: "finite {e \<in> R. r < e}" "finite {e \<in> Q. r < e}" for r
    using assms(1,2) by (auto intro: finite_subset)
  have "card {e \<in> Q. r < e} \<le> card {e \<in> R. r < e}"
    using fin assms(2) by (intro card_mono) auto
  then show "among_top n R r \<Longrightarrow> among_top n Q r" by (simp add: among_top_def)
  assume top: "among_top n Q r"
  have "e \<in> Q" if "e \<in> R" "r < e" for e
  proof (rule ccontr)
    assume "e \<notin> Q"
    with that have "n \<le> card {x \<in> Q. e < x}" using assms(3) by blast
    also have "\<dots> \<le> card {x \<in> Q. r < x}" using that(2) fin by (intro card_mono) auto
    finally show False using top by (simp add: among_top_def)
  qed
  then have "{e \<in> R. r < e} = {e \<in> Q. r < e}" using assms(2) by auto
  with top show "among_top n R r" by (simp add: among_top_def)
qed

lemma newest_ranks:
  assumes "inj_on val_rank S"
  shows "newest n S = {v \<in> S. among_top n (val_rank ` S) (val_rank v)}"
proof -
  have "card {e \<in> val_rank ` S. val_rank v < e} = card {w \<in> S. val_rank v < val_rank w}" for v
  proof -
    have "{e \<in> val_rank ` S. val_rank v < e} = val_rank ` {w \<in> S. val_rank v < val_rank w}" by auto
    then show ?thesis using assms by (simp add: card_image inj_on_subset)
  qed
  then show ?thesis by (simp add: newest_def among_top_def)
qed

lemma card_newest:
  assumes "finite S" "inj_on val_rank S"
  shows "card (newest n S) = min n (card S)"
proof -
  obtain xs where xs: "set xs = S" "distinct xs" using finite_distinct_list [OF assms(1)] by blast
  let ?ys = "sort_key_desc val_rank xs"
  have ys: "distinct ?ys" "distinct (map val_rank ?ys)" "set ?ys = S" "length ?ys = card S"
    using xs assms(2) by (auto simp: sort_key_desc_def distinct_map distinct_card)
  have "sorted_wrt (\<lambda>a b. val_rank b < val_rank a) ?ys"
    by (rule descending_strict [OF sorted_sort_key_desc ys(2)])
  then have "newest n S = set (take n ?ys)" by (simp add: descending_prefix newest_def xs(1))
  then show ?thesis using ys by (simp add: distinct_card)
qed

lemma pruned_below:
  assumes "finite S" "inj_on val_rank S" "v \<in> S" "v \<notin> newest n S"
  shows "newest n S \<subseteq> {w. val_rank v < val_rank w}" "card (newest n S) = n"
proof -
  have n: "n \<le> card {w \<in> S. val_rank v < val_rank w}" using assms(3,4) by (simp add: newest_def)
  show "newest n S \<subseteq> {w. val_rank v < val_rank w}"
  proof
    fix w assume w: "w \<in> newest n S"
    show "w \<in> {w. val_rank v < val_rank w}"
    proof (rule ccontr)
      assume "w \<notin> {w. val_rank v < val_rank w}"
      then have "{x \<in> S. val_rank v < val_rank x} \<subseteq> {x \<in> S. val_rank w < val_rank x}" by auto
      then have "card {x \<in> S. val_rank v < val_rank x} \<le> card {x \<in> S. val_rank w < val_rank x}"
        using assms(1) by (intro card_mono) auto
      with n w show False by (simp add: newest_def)
    qed
  qed
  have "card {w \<in> S. val_rank v < val_rank w} \<le> card S" using assms(1) by (intro card_mono) auto
  with n show "card (newest n S) = n" by (simp add: card_newest assms(1,2))
qed

section \<open>History of a union\<close>

lemma rank_vouched:
  "vouched ev V \<Longrightarrow> v \<in> V \<Longrightarrow> w \<in> V \<Longrightarrow> vl_dot v = vl_dot w \<Longrightarrow> val_rank v = val_rank w"
  by (metis option.inject val_rank_def vouched_def)

lemma chosen_inj_rank: "inj_on val_rank (chosen ev V)" "inj_on val_rank (old ev V)"
  using chosen_unique by (auto simp: inj_on_def val_rank_def old_def)

lemma old_mono_ranks:
  assumes "vouched ev V" "finite V" "A \<subseteq> V"
  shows "val_rank ` old ev A \<subseteq> val_rank ` old ev V"
proof
  fix r assume "r \<in> val_rank ` old ev A"
  then obtain v where v: "v \<in> chosen ev A" "superseded_by ev (vl_dot ` A) (vl_dot v)" "r = val_rank v"
    by (auto simp: old_def)
  with assms(3) chosen_subset have "v \<in> V" by blast
  then obtain w where w: "w \<in> chosen ev V" "vl_dot w = vl_dot v" using chosen_exists [OF assms(2)] by blast
  then have "w \<in> old ev V" using v(2) superseded_mono [OF image_mono [OF assms(3)]] by (auto simp: old_def)
  moreover have "val_rank w = r"
    using rank_vouched [OF assms(1)] w v(3) \<open>v \<in> V\<close> chosen_subset by blast
  ultimately show "r \<in> val_rank ` old ev V" by blast
qed

text \<open>What a live item keeps of a key.\<close>

definition kept :: "evidence \<Rightarrow> val set \<Rightarrow> val set" where
  "kept ev V = cur ev V \<union> hist ev V"

lemma kept_subset: "kept ev V \<subseteq> V"
  using cur_subset [of ev V] unfolding kept_def by blast

lemma kept_Un:
  "kept ev A \<union> kept ev B \<subseteq> A \<union> B" "cur ev (A \<union> B) \<subseteq> kept ev A \<union> kept ev B"
  using kept_subset [of ev A] kept_subset [of ev B] cur_Un_subset [of ev A B] unfolding kept_def by blast+

lemma chosen_kept:
  "v \<in> chosen ev (A \<union> B) \<Longrightarrow> v \<in> kept ev A \<or> v \<in> kept ev B \<Longrightarrow> v \<in> chosen ev (kept ev A \<union> kept ev B)"
  by (rule chosen_restrict [OF _ kept_Un(1)]) auto

lemma hist_rank_old:
  assumes ev: "causal_headers ev" and fin: "finite V" and vouch: "vouched ev V"
    and W: "cur ev V \<subseteq> W" "W \<subseteq> V" and X: "X \<subseteq> V" "hist ev X \<subseteq> W"
  shows "val_rank ` hist ev X \<subseteq> val_rank ` old ev W"
proof
  fix r assume "r \<in> val_rank ` hist ev X"
  then obtain w where w: "w \<in> hist ev X" "r = val_rank w" by blast
  then have wW: "w \<in> W" and wX: "superseded_by ev (vl_dot ` X) (vl_dot w)"
    using X cur_subset(3) [of ev X] by (auto simp: old_def)
  have finW: "finite W" using fin W by (auto intro: finite_subset)
  have "superseded_by ev (vl_dot ` W) (vl_dot w)"
    using wX superseded_within [OF ev fin W] superseded_mono [OF image_mono [OF X(1)]] by blast
  moreover obtain u where u: "u \<in> chosen ev W" "vl_dot u = vl_dot w" using chosen_exists [OF finW wW] by blast
  ultimately have "u \<in> old ev W" by (simp add: old_def)
  moreover have "val_rank u = val_rank w"
    using rank_vouched [OF vouch _ _ u(2)] u(1) wW W chosen_subset by blast
  ultimately show "r \<in> val_rank ` old ev W" using w(2) by (metis imageI)
qed

lemma pruned_has_newer:
  assumes "causal_headers ev" "finite V" "vouched ev V" "cur ev V \<subseteq> W" "W \<subseteq> V" "X \<subseteq> V" "hist ev X \<subseteq> W"
    and v: "v \<in> old ev X" "v \<notin> hist ev X"
  shows "HISTORY_LIMIT \<le> card {e \<in> val_rank ` old ev W. val_rank v < e}"
proof -
  have fin: "finite (old ev X)" "finite (old ev W)"
    using assms(2,5,6) cur_subset(2) by (meson finite_subset)+
  note pruned = pruned_below [OF fin(1) chosen_inj_rank(2) v(1) v(2) [unfolded hist_def]]
  have "val_rank ` hist ev X \<subseteq> {e \<in> val_rank ` old ev W. val_rank v < e}"
    using pruned(1) hist_rank_old [OF assms(1-7)] by (auto simp: hist_def)
  then have "card (val_rank ` hist ev X) \<le> card {e \<in> val_rank ` old ev W. val_rank v < e}"
    using fin(2) by (intro card_mono) auto
  then show ?thesis
    using pruned(2) inj_on_subset [OF chosen_inj_rank(2) cur_subset(3)] by (simp add: card_image hist_def)
qed

text \<open>A value chosen from both sides is kept by one of them, or enough newer ones are.\<close>

lemma chosen_kept_or_pruned:
  assumes ev: "causal_headers ev" and fin: "finite A" "finite B" and vouch: "vouched ev (A \<union> B)"
    and v: "v \<in> chosen ev (A \<union> B)"
  shows "v \<in> kept ev A \<union> kept ev B \<or>
    HISTORY_LIMIT \<le> card {e \<in> val_rank ` old ev (kept ev A \<union> kept ev B). val_rank v < e}"
proof -
  have "v \<in> A \<union> B" using v chosen_subset by blast
  then obtain X where X: "X = A \<or> X = B" "v \<in> X" by blast
  then have "v \<in> chosen ev X" using chosen_restrict [OF v, of X] by auto
  then consider "v \<in> kept ev X" | "v \<in> old ev X" "v \<notin> hist ev X"
    using cur_or_old(1) by (auto simp: kept_def)
  then show ?thesis
  proof cases
    case 1
    with X show ?thesis by blast
  next
    case 2
    have "X \<subseteq> A \<union> B" "hist ev X \<subseteq> kept ev A \<union> kept ev B" using X(1) by (auto simp: kept_def)
    from pruned_has_newer [OF ev _ vouch kept_Un(2,1) this 2] fin show ?thesis by simp
  qed
qed

lemma kept_top_ranks:
  assumes ev: "causal_headers ev" and fin: "finite A" "finite B" and vouch: "vouched ev (A \<union> B)"
  shows "among_top HISTORY_LIMIT (val_rank ` old ev (A \<union> B)) r \<longleftrightarrow>
    among_top HISTORY_LIMIT (val_rank ` old ev (kept ev A \<union> kept ev B)) r"
proof (rule among_top_subset)
  let ?V = "A \<union> B" and ?W = "kept ev A \<union> kept ev B"
  have finV: "finite ?V" using fin by simp
  show "finite (val_rank ` old ev ?V)" using finite_subset [OF cur_subset(2) finV] by simp
  show "val_rank ` old ev ?W \<subseteq> val_rank ` old ev ?V" by (rule old_mono_ranks [OF vouch finV kept_Un(1)])
  fix r assume "r \<in> val_rank ` old ev ?V - val_rank ` old ev ?W"
  then obtain v where v: "v \<in> old ev ?V" "v \<notin> old ev ?W" "r = val_rank v" by auto
  then have "v \<notin> ?W"
    using superseded_within [OF ev finV kept_Un(2,1)] chosen_kept by (auto simp: old_def)
  with chosen_kept_or_pruned [OF assms] v show "HISTORY_LIMIT \<le> card {e \<in> val_rank ` old ev ?W. r < e}"
    by (auto simp: old_def)
qed

lemma hist_Un:
  assumes ev: "causal_headers ev" and fin: "finite A" "finite B" and vouch: "vouched ev (A \<union> B)"
  shows "hist ev (kept ev A \<union> kept ev B) = hist ev (A \<union> B)"
proof -
  let ?V = "A \<union> B" and ?W = "kept ev A \<union> kept ev B" and ?n = HISTORY_LIMIT
  have finV: "finite ?V" using fin by simp
  note sup = superseded_within [OF ev finV kept_Un(2,1)]
  note inside = chosen_kept_or_pruned [OF assms]
  have "v \<in> old ev ?W" if "v \<in> old ev ?V" "among_top ?n (val_rank ` old ev ?W) (val_rank v)" for v
    using that inside [of v] by (auto simp: old_def sup among_top_def intro: chosen_kept)
  moreover have "v \<in> old ev ?V" if v: "v \<in> old ev ?W" "among_top ?n (val_rank ` old ev ?W) (val_rank v)" for v
  proof -
    have "v \<in> ?V" using v(1) cur_subset(2) kept_Un(1) by blast
    then obtain w where w: "w \<in> chosen ev ?V" "vl_dot w = vl_dot v" using chosen_exists [OF finV] by blast
    then have "val_rank w = val_rank v" using rank_vouched [OF vouch _ \<open>v \<in> ?V\<close>] chosen_subset by blast
    with v(2) inside [OF w(1)] have "w \<in> ?W" by (auto simp: among_top_def)
    then have "w \<in> chosen ev ?W" using chosen_restrict [OF w(1) kept_Un(1)] by blast
    with v(1) w(2) have "w = v" by (auto simp: old_def intro: chosen_unique)
    with w(1) v(1) show ?thesis by (simp add: old_def sup)
  qed
  ultimately show ?thesis
    unfolding hist_def newest_ranks [OF chosen_inj_rank(2)] kept_top_ranks [OF assms] by blast
qed

lemma cur_Un:
  assumes "causal_headers ev" "finite A" "finite B"
  shows "cur ev (kept ev A \<union> kept ev B) = cur ev (A \<union> B)"
  by (rule cur_within [OF assms(1) _ kept_Un(2,1)]) (simp add: assms)

section \<open>Late values of a union\<close>

definition late :: "evidence \<Rightarrow> version_vector \<Rightarrow> val set \<Rightarrow> val set" where
  "late ev c V = {v \<in> cur ev V. \<not> vv_covers c (vl_dot v)}"

text \<open>A purge context covers the contexts of the ops it covers.\<close>

definition closed_context :: "evidence \<Rightarrow> version_vector \<Rightarrow> bool" where
  "closed_context ev c \<longleftrightarrow> (\<forall>d c'. vv_covers c d \<longrightarrow> ev_context ev d = Some c' \<longrightarrow> vv_le c' c)"

lemma late_within:
  assumes ev: "causal_headers ev" and fin: "finite V" and c: "closed_context ev c"
    and W: "late ev c V \<subseteq> W" "W \<subseteq> V"
  shows "late ev c W = late ev c V"
proof (rule equalityI)
  show "late ev c V \<subseteq> late ev c W"
    using W by (auto simp: late_def intro: cur_restrict)
  show "late ev c W \<subseteq> late ev c V"
  proof
    fix v assume "v \<in> late ev c W"
    then have v: "v \<in> cur ev W" "\<not> vv_covers c (vl_dot v)" by (auto simp: late_def)
    have "\<not> superseded_by ev (vl_dot ` V) (vl_dot v)"
    proof
      assume "superseded_by ev (vl_dot ` V) (vl_dot v)"
      from superseded_by_current [OF ev fin this] obtain u cu where
        u: "u \<in> cur ev V" "vl_dot u \<noteq> vl_dot v" "ev_context ev (vl_dot u) = Some cu" "vv_covers cu (vl_dot v)"
        by (auto simp: superseded_by_def)
      have "\<not> vv_covers c (vl_dot u)"
        using c u(3,4) v(2) vv_le_covers by (auto simp: closed_context_def)
      with u(1) have "u \<in> W" using W by (auto simp: late_def)
      with u v(1) show False by (auto simp: cur_def superseded_by_def)
    qed
    moreover have "v \<in> V" using v(1) cur_subset(1) W by blast
    then obtain w where w: "w \<in> chosen ev V" "vl_dot w = vl_dot v" using chosen_exists [OF fin] by blast
    ultimately have "w \<in> late ev c V" using v(2) by (auto simp: late_def cur_def)
    moreover from this have "w \<in> chosen ev W" using W chosen_restrict [OF w(1)] by blast
    with v(1) w(2) have "w = v" by (auto simp: cur_def intro: chosen_unique)
    ultimately show "v \<in> late ev c V" by simp
  qed
qed

lemma cur_of_subset_cur: "S \<subseteq> cur ev V \<Longrightarrow> cur ev S = S"
  using cur_restrict [of _ ev V S] cur_subset(1) [of ev V] cur_subset(1) [of ev S] by blast

lemma late_late: "late ev c (late ev c V) = late ev c V"
proof -
  have "cur ev (late ev c V) = late ev c V" by (rule cur_of_subset_cur [of _ ev V]) (auto simp: late_def)
  then show ?thesis by (auto simp: late_def [of ev c "late ev c V"]) (simp add: late_def)
qed

end
