(* ===== verification/Merge_Convergence.thy ===== *)
theory Merge_Convergence
  imports Merge_Algebra
begin

text \<open>
  What a state stands for: a set of facts, each a covered dot, a value of a key, or a purge with
  its context. A state represents a set of facts when it is the normal form of their union; the
  evidence join of two states then represents the union of their facts. From this the join is
  commutative, associative and idempotent, and the order in which facts arrive does not matter.
\<close>

section \<open>Joining what two states represent\<close>

locale represented_join =
  fixes rep :: "'f set \<Rightarrow> 's \<Rightarrow> bool"
    and join :: "'s \<Rightarrow> 's \<Rightarrow> 's"
  assumes rep_join: "rep A s \<Longrightarrow> rep B t \<Longrightarrow> rep (A \<union> B) (join s t)"
    and rep_unique: "rep A s \<Longrightarrow> rep A t \<Longrightarrow> s = t"
begin

lemma commute: "rep A s \<Longrightarrow> rep B t \<Longrightarrow> join s t = join t s"
  using rep_unique [OF rep_join [of A s B t]] rep_join [of B t A s] by (simp add: Un_commute)

lemma assoc: "rep A s \<Longrightarrow> rep B t \<Longrightarrow> rep C u \<Longrightarrow> join (join s t) u = join s (join t u)"
  using rep_unique [OF rep_join [OF rep_join [of A s B t], of C u]] rep_join [OF _ rep_join [of B t C u], of A s]
  by (simp add: Un_assoc)

lemma idem: "rep A s \<Longrightarrow> join s s = s"
  by (rule rep_unique [of A]) (metis rep_join Un_absorb)

lemma absorb: "rep A s \<Longrightarrow> rep B t \<Longrightarrow> B \<subseteq> A \<Longrightarrow> join s t = s"
  by (rule rep_unique [of A]) (metis rep_join Un_absorb2)

lemma rep_fold:
  "rep A s \<Longrightarrow> (\<And>x. x \<in> set xs \<Longrightarrow> rep (F x) (g x)) \<Longrightarrow>
   rep (A \<union> \<Union> (F ` set xs)) (fold (\<lambda>x s. join s (g x)) xs s)"
proof (induction xs arbitrary: A s)
  case (Cons x xs)
  have "rep (A \<union> F x) (join s (g x))" using Cons.prems by (simp add: rep_join)
  from Cons.IH [OF this] Cons.prems(2) show ?case by (simp add: Un_assoc)
qed simp

lemma order_irrelevant:
  assumes "rep A s" "\<And>x. x \<in> set xs \<Longrightarrow> rep (F x) (g x)" "set xs = set ys"
  shows "fold (\<lambda>x s. join s (g x)) xs s = fold (\<lambda>x s. join s (g x)) ys s"
proof (rule rep_unique)
  show "rep (A \<union> \<Union> (F ` set xs)) (fold (\<lambda>x s. join s (g x)) xs s)" using rep_fold assms(1,2) .
  show "rep (A \<union> \<Union> (F ` set xs)) (fold (\<lambda>x s. join s (g x)) ys s)"
    unfolding assms(3) by (rule rep_fold) (use assms in auto)
qed

end

section \<open>Facts\<close>

datatype fact = FDot dot | FVal bytes val | FPurge purge_rec version_vector

definition fact_vals :: "fact set \<Rightarrow> bytes \<Rightarrow> val set" where
  "fact_vals A k = {v. FVal k v \<in> A}"

definition fact_purges :: "fact set \<Rightarrow> purge_rec set" where
  "fact_purges A = {p. \<exists>c. FPurge p c \<in> A}"

definition covered_dots :: "fact set \<Rightarrow> dot set" where
  "covered_dots A = {d. \<exists>e. FDot e \<in> A \<and> dot_device d = dot_device e \<and> dot_seq d \<le> dot_seq e}"

definition purged_dots :: "fact set \<Rightarrow> dot set" where
  "purged_dots A = {d. \<exists>p c. FPurge p c \<in> A \<and> vv_covers c d}"

lemma facts_Un [simp]:
  "fact_vals (A \<union> B) k = fact_vals A k \<union> fact_vals B k"
  "fact_purges (A \<union> B) = fact_purges A \<union> fact_purges B"
  "covered_dots (A \<union> B) = covered_dots A \<union> covered_dots B"
  "purged_dots (A \<union> B) = purged_dots A \<union> purged_dots B"
  by (auto simp: fact_vals_def fact_purges_def covered_dots_def purged_dots_def)

lemma finite_fact_vals: "finite A \<Longrightarrow> finite (fact_vals A k)"
proof -
  assume "finite A"
  moreover have "inj_on (FVal k) (fact_vals A k)" by (simp add: inj_on_def)
  moreover have "FVal k ` fact_vals A k \<subseteq> A" by (auto simp: fact_vals_def)
  ultimately show ?thesis by (metis finite_imageD finite_subset)
qed

definition sound_facts :: "evidence \<Rightarrow> fact set \<Rightarrow> bool" where
  "sound_facts ev A \<longleftrightarrow>
     finite A \<and> (\<forall>k. vouched ev (fact_vals A k)) \<and>
     (\<forall>p c. FPurge p c \<in> A \<longrightarrow> closed_context ev c)"

lemma sound_facts_Un: "sound_facts ev (A \<union> B) \<longleftrightarrow> sound_facts ev A \<and> sound_facts ev B"
  by (auto simp: sound_facts_def vouched_def)

section \<open>Representation\<close>

text \<open>A map of registers holds the set \<open>S\<close> at key \<open>k\<close>, in dot order; an empty set has no entry.\<close>

definition holds :: "regs \<Rightarrow> bytes \<Rightarrow> val set \<Rightarrow> bool" where
  "holds rs k S \<longleftrightarrow>
     (case bt_get rs k of None \<Rightarrow> S = {} | Some vs \<Rightarrow> vs \<noteq> [] \<and> set vs = S \<and> dot_sorted vs)"

definition late_facts :: "evidence \<Rightarrow> version_vector \<Rightarrow> fact set \<Rightarrow> bytes \<Rightarrow> val set" where
  "late_facts ev c A k = (if k = LIFECYCLE_KEY then {} else late ev c (fact_vals A k))"

definition rep_shape :: "evidence \<Rightarrow> fact set \<Rightarrow> shape \<Rightarrow> bool" where
  "rep_shape ev A sh =
     (case sh of
        ShLive l \<Rightarrow>
          fact_purges A = {} \<and>
          (\<forall>k. holds (lv_regs l) k (cur ev (fact_vals A k))) \<and>
          (\<forall>k. holds (lv_hist l) k (hist ev (fact_vals A k)))
      | ShTomb t \<Rightarrow>
          tb_purge t \<in> fact_purges A \<and>
          (\<forall>p \<in> fact_purges A. purge_order p ev \<le> purge_order (tb_purge t) ev) \<and>
          (\<forall>d. vv_covers (tb_c t) d \<longleftrightarrow> d \<in> purged_dots A) \<and>
          (\<forall>k. holds (tb_late t) k (late_facts ev (tb_c t) A k)))"

definition represents :: "evidence \<Rightarrow> fact set \<Rightarrow> item_state \<Rightarrow> bool" where
  "represents ev A s \<longleftrightarrow>
     sound_facts ev A \<and> (\<forall>d. vv_covers (st_vv s) d \<longleftrightarrow> d \<in> covered_dots A) \<and> rep_shape ev A (st_shape s)"

lemma dot_sorted_unique: "dot_sorted vs \<Longrightarrow> dot_sorted ws \<Longrightarrow> set vs = set ws \<Longrightarrow> vs = ws"
proof (induction vs arbitrary: ws)
  case (Cons v vs)
  then obtain w ws' where ws: "ws = w # ws'" by (cases ws) auto
  have "v = w"
  proof (rule ccontr)
    assume "v \<noteq> w"
    with Cons.prems ws have "v \<in> set ws'" "w \<in> set vs" by auto
    with Cons.prems ws show False by (auto dest: less_asym)
  qed
  moreover have "v \<notin> set vs" "w \<notin> set ws'" using Cons.prems ws by auto
  ultimately have "set vs = set ws'" using Cons.prems(3) ws by auto
  with Cons ws \<open>v = w\<close> show ?case by simp
qed simp

lemma holds_unique: "holds rs k S \<Longrightarrow> holds rs' k S \<Longrightarrow> bt_get rs k = bt_get rs' k"
  by (auto simp: holds_def dot_sorted_unique split: option.splits)

lemma holds_ext: "(\<And>k. holds rs k (S k)) \<Longrightarrow> (\<And>k. holds rs' k (S k)) \<Longrightarrow> rs = rs'"
  by (rule bt_ext) (rule holds_unique)

lemma vv_covers_ext: "(\<And>d. vv_covers a d = vv_covers b d) \<Longrightarrow> a = b"
  using vv_le_covers_iff [of a b] vv_le_covers_iff [of b a]
  by (intro vv_ext) (simp add: vv_le_def antisym)

lemma purge_order_inj: "purge_order p ev = purge_order q ev \<Longrightarrow> p = q"
  by (simp add: purge_order_def Let_def purge_rank_def)

lemma rep_shape_unique:
  assumes "rep_shape ev A s" "rep_shape ev A t"
  shows "s = t"
proof (cases s; cases t)
  fix l m assume st: "s = ShLive l" "t = ShLive m"
  with assms have "lv_regs l = lv_regs m" "lv_hist l = lv_hist m"
    by (auto simp: rep_shape_def intro: holds_ext)
  with st show ?thesis by simp
next
  fix a b assume st: "s = ShTomb a" "t = ShTomb b"
  with assms have "purge_order (tb_purge a) ev = purge_order (tb_purge b) ev"
    by (auto simp: rep_shape_def intro: antisym)
  then have "tb_purge a = tb_purge b" by (rule purge_order_inj)
  moreover have c: "tb_c a = tb_c b" using assms st by (intro vv_covers_ext) (simp add: rep_shape_def)
  moreover have "tb_late a = tb_late b"
    using assms st unfolding rep_shape_def by (intro holds_ext) (auto simp: c)
  ultimately show ?thesis using st by simp
qed (use assms in \<open>auto simp: rep_shape_def\<close>)

lemma represents_unique: "represents ev A s \<Longrightarrow> represents ev A t \<Longrightarrow> s = t"
  by (auto simp: represents_def intro!: item_state.equality vv_covers_ext rep_shape_unique)

section \<open>Recomputing keys\<close>

lemma fold_pointwise:
  assumes other: "\<And>key x k. k \<noteq> key \<Longrightarrow> L (upd key x) k = L x k"
    and dep: "\<And>k x x'. L x k = L x' k \<Longrightarrow> L (upd k x) k = L (upd k x') k"
    and ks: "distinct ks"
  shows "L (fold upd ks x) k = (if k \<in> set ks then L (upd k x) k else L x k)"
  using ks
proof (induction ks arbitrary: x)
  case (Cons key ks)
  show ?case
  proof (cases "k = key")
    case True
    with Cons show ?thesis by simp
  next
    case False
    then have "L (upd k (upd key x)) k = L (upd k x) k" by (intro dep) (simp add: other)
    with Cons False show ?thesis by (simp add: other)
  qed
qed simp

definition vals_at :: "regs \<Rightarrow> bytes \<Rightarrow> val list" where
  "vals_at rs k = (case bt_get rs k of None \<Rightarrow> [] | Some vs \<Rightarrow> vs)"

lemma holds_vals: "holds rs k S \<Longrightarrow> set (vals_at rs k) = S"
  by (auto simp: holds_def vals_at_def split: option.splits)

lemma values_of_sets: "set (values_of k rs) = (\<Union>r \<in> set rs. set (vals_at r k))"
  by (induction rs) (auto simp: values_of_def vals_at_def List.map_filter_simps split: option.splits)

lemma concat_vals_at: "concat (case bt_get rs k of None \<Rightarrow> [] | Some vs \<Rightarrow> [vs]) = vals_at rs k"
  by (cases "bt_get rs k") (simp_all add: vals_at_def)

lemma holds_get: "bt_get rs k = bt_get rs' k \<Longrightarrow> holds rs k S \<longleftrightarrow> holds rs' k S"
  by (simp add: holds_def)

lemma holds_none: "bt_get rs k = None \<Longrightarrow> holds rs k S \<longleftrightarrow> S = {}"
  by (simp add: holds_def)

lemma holds_Some_nonempty: "holds rs k S \<Longrightarrow> bt_get rs k \<noteq> None \<longleftrightarrow> S \<noteq> {}"
  by (auto simp: holds_def split: option.splits)

lemma set_live_key_holds:
  "holds (lv_regs (set_live_key x k vs ev)) k (cur ev (set vs))"
  "holds (lv_hist (set_live_key x k vs ev)) k (hist ev (set vs))"
proof -
  have *: "set (prune (snd (maximal vs ev))) = hist ev (set vs)" "dot_sorted (prune (snd (maximal vs ev)))"
    using prune_sets [OF maximal_sets(4)] by (simp_all add: maximal_sets hist_def)
  show "holds (lv_regs (set_live_key x k vs ev)) k (cur ev (set vs))"
    using maximal_sets(1,3) [of vs ev]
    by (auto simp: set_live_key_def holds_def Let_def case_prod_beta split: option.splits if_splits)
  show "holds (lv_hist (set_live_key x k vs ev)) k (hist ev (set vs))"
    using * by (auto simp: set_live_key_def holds_def Let_def case_prod_beta split: option.splits if_splits)
qed

lemma set_live_key_other:
  "k \<noteq> key \<Longrightarrow> bt_get (lv_regs (set_live_key x key vs ev)) k = bt_get (lv_regs x) k"
  "k \<noteq> key \<Longrightarrow> bt_get (lv_hist (set_live_key x key vs ev)) k = bt_get (lv_hist x) k"
  by (simp_all add: set_live_key_def Let_def case_prod_beta)

lemma live_keys_iff: "k \<in> set (live_keys l) \<longleftrightarrow> bt_get (lv_regs l) k \<noteq> None \<or> bt_get (lv_hist l) k \<noteq> None"
  by (simp only: live_keys_def bs_keys_collect set_append) (simp add: bt_keys_iff)

lemma join_live_key:
  fixes x y :: live and ev :: evidence
  defines "upd \<equiv> \<lambda>key x. set_live_key x key (values_of key [lv_regs x, lv_hist x, lv_regs y, lv_hist y]) ev"
  shows "(bt_get (lv_regs (join_live_into x y ev)) k, bt_get (lv_hist (join_live_into x y ev)) k) =
    (if k \<in> set (live_keys y) then (bt_get (lv_regs (upd k x)) k, bt_get (lv_hist (upd k x)) k)
     else (bt_get (lv_regs x) k, bt_get (lv_hist x) k))"
proof -
  let ?L = "\<lambda>(x :: live) k. (bt_get (lv_regs x) k, bt_get (lv_hist x) k)"
  have "?L (fold upd (live_keys y) x) k = (if k \<in> set (live_keys y) then ?L (upd k x) k else ?L x k)"
  proof (rule fold_pointwise)
    show "?L (upd key x) k = ?L x k" if "k \<noteq> key" for key k and x :: live
      using that by (simp add: upd_def set_live_key_other)
    show "?L (upd k x) k = ?L (upd k x') k" if "?L x k = ?L x' k" for k and x x' :: live
    proof -
      have "values_of k [lv_regs x, lv_hist x, lv_regs y, lv_hist y] =
          values_of k [lv_regs x', lv_hist x', lv_regs y, lv_hist y]"
        using that by (simp add: values_of_def map_filter_def)
      then show ?thesis by (simp add: upd_def set_live_key_def Let_def case_prod_beta)
    qed
    show "distinct (live_keys y)" by (simp add: live_keys_def)
  qed
  then show ?thesis by (simp add: join_live_into_def upd_def)
qed

lemma join_live_holds:
  assumes ev: "causal_headers ev" and fin: "finite A" "finite B" and vouch: "vouched ev (A \<union> B)"
    and x: "holds (lv_regs x) k (cur ev A)" "holds (lv_hist x) k (hist ev A)"
    and y: "holds (lv_regs y) k (cur ev B)" "holds (lv_hist y) k (hist ev B)"
  shows "holds (lv_regs (join_live_into x y ev)) k (cur ev (A \<union> B))"
    "holds (lv_hist (join_live_into x y ev)) k (hist ev (A \<union> B))"
proof -
  let ?vs = "values_of k [lv_regs x, lv_hist x, lv_regs y, lv_hist y]"
  have vs: "set ?vs = kept ev A \<union> kept ev B"
    using holds_vals [OF x(1)] holds_vals [OF x(2)] holds_vals [OF y(1)] holds_vals [OF y(2)]
    by (simp add: values_of_sets kept_def Un_assoc)
  have sets: "cur ev (set ?vs) = cur ev (A \<union> B)" "hist ev (set ?vs) = hist ev (A \<union> B)"
    by (simp_all add: vs cur_Un [OF ev fin] hist_Un [OF ev fin vouch])
  have gets: "bt_get (lv_regs (join_live_into x y ev)) k =
        (if k \<in> set (live_keys y) then bt_get (lv_regs (set_live_key x k ?vs ev)) k else bt_get (lv_regs x) k)"
      "bt_get (lv_hist (join_live_into x y ev)) k =
        (if k \<in> set (live_keys y) then bt_get (lv_hist (set_live_key x k ?vs ev)) k else bt_get (lv_hist x) k)"
    using join_live_key [of x y ev k] by (simp_all split: if_splits)
  have "holds (lv_regs (join_live_into x y ev)) k (cur ev (A \<union> B)) \<and>
      holds (lv_hist (join_live_into x y ev)) k (hist ev (A \<union> B))"
  proof (cases "k \<in> set (live_keys y)")
    case True
    then show ?thesis
      using set_live_key_holds [of x k ?vs ev] gets holds_get unfolding sets by presburger
  next
    case False
    then have "B = {}" using y(1) cur_nonempty [OF ev fin(2)] by (auto simp: live_keys_iff holds_none)
    then show ?thesis using False x by (simp add: gets holds_def)
  qed
  then show "holds (lv_regs (join_live_into x y ev)) k (cur ev (A \<union> B))"
    "holds (lv_hist (join_live_into x y ev)) k (hist ev (A \<union> B))" by simp_all
qed

lemma set_late_key_other:
  "k \<noteq> key \<Longrightarrow> bt_get (tb_late (set_late_key t key vs ev)) k = bt_get (tb_late t) k"
  "tb_c (set_late_key t key vs ev) = tb_c t" "tb_purge (set_late_key t key vs ev) = tb_purge t"
  by (simp_all add: set_late_key_def Let_def)

lemma set_late_key_holds:
  "k \<noteq> LIFECYCLE_KEY \<Longrightarrow> holds (tb_late (set_late_key t k vs ev)) k (late ev (tb_c t) (set vs))"
  using maximal_sets(1,3) [of vs ev]
  by (auto simp: set_late_key_def bytes_is_lifecycle_key_def holds_def Let_def late_def sorted_wrt_map
      sorted_wrt_filter filter_empty_conv split: option.splits if_splits)

definition late_pass :: "evidence \<Rightarrow> regs list \<Rightarrow> bytes \<Rightarrow> tomb \<Rightarrow> tomb" where
  "late_pass ev sources key t =
     set_late_key t key (vals_at (tb_late t) key @ values_of key sources) ev"

lemma late_pass_other:
  "k \<noteq> key \<Longrightarrow> bt_get (tb_late (late_pass ev srcs key t)) k = bt_get (tb_late t) k"
  "tb_c (late_pass ev srcs key t) = tb_c t" "tb_purge (late_pass ev srcs key t) = tb_purge t"
  by (simp_all add: late_pass_def set_late_key_other)

lemma late_pass_fold:
  assumes "distinct ks"
  shows "tb_purge (fold (late_pass ev srcs) ks t) = tb_purge t" "tb_c (fold (late_pass ev srcs) ks t) = tb_c t"
    "bt_get (tb_late (fold (late_pass ev srcs) ks t)) k =
      (if k \<in> set ks then bt_get (tb_late (late_pass ev srcs k t)) k else bt_get (tb_late t) k)"
proof -
  let ?L = "\<lambda>(t :: tomb) k. (tb_purge t, tb_c t, bt_get (tb_late t) k)"
  have "?L (fold (late_pass ev srcs) ks t) k = (if k \<in> set ks then ?L (late_pass ev srcs k t) k else ?L t k)"
  proof (rule fold_pointwise [OF _ _ assms])
    show "?L (late_pass ev srcs key t) k = ?L t k" if "k \<noteq> key" for key k and t :: tomb
      using that by (simp add: late_pass_other)
    show "?L (late_pass ev srcs k t) k = ?L (late_pass ev srcs k t') k" if "?L t k = ?L t' k" for k and t t' :: tomb
      using that by (simp add: late_pass_def set_late_key_def Let_def vals_at_def)
  qed
  then show "tb_purge (fold (late_pass ev srcs) ks t) = tb_purge t" "tb_c (fold (late_pass ev srcs) ks t) = tb_c t"
    "bt_get (tb_late (fold (late_pass ev srcs) ks t)) k =
      (if k \<in> set ks then bt_get (tb_late (late_pass ev srcs k t)) k else bt_get (tb_late t) k)"
    by (simp_all add: late_pass_other split: if_splits)
qed

lemma drop_covered_holds:
  "holds rs k S \<Longrightarrow> holds (drop_covered c rs) k {v \<in> S. \<not> vv_covers c (vl_dot v)}"
  by (auto simp: holds_def drop_covered_def sorted_wrt_map sorted_wrt_filter filter_empty_conv
      split: option.splits)

text \<open>The part of \<open>join_tomb_into\<close> before the loop: the recorded purge and the joined context.\<close>

fun tomb_start :: "tomb \<Rightarrow> shape \<Rightarrow> evidence \<Rightarrow> tomb" where
  "tomb_start t (ShLive l) ev = t"
| "tomb_start t (ShTomb u) ev =
     t\<lparr> tb_purge := (if purge_order (tb_purge u) ev > purge_order (tb_purge t) ev
                     then tb_purge u else tb_purge t),
        tb_c := vv_join (tb_c t) (tb_c u) \<rparr>"

fun shape_regs :: "shape \<Rightarrow> regs list" where
  "shape_regs (ShLive l) = [lv_regs l, lv_hist l]"
| "shape_regs (ShTomb u) = [tb_late u]"

lemma join_tomb_into_steps:
  "join_tomb_into t other ev =
     (let t = fold (late_pass ev (shape_regs other))
            (bt_keys (bs_collect (concat (map bt_keys (shape_regs other))))) (tomb_start t other ev)
      in t\<lparr> tb_late := drop_covered (tb_c t) (tb_late t) \<rparr>)"
  by (cases other) (simp_all add: join_tomb_into_def late_pass_def [abs_def] Let_def concat_vals_at)

lemma join_tomb_into_fields:
  "tb_purge (join_tomb_into t other ev) = tb_purge (tomb_start t other ev)"
  "tb_c (join_tomb_into t other ev) = tb_c (tomb_start t other ev)"
  by (simp_all add: join_tomb_into_steps Let_def late_pass_fold)

lemma join_tomb_late:
  assumes ev: "causal_headers ev" and fin: "finite V" and k: "k \<noteq> LIFECYCLE_KEY"
    and c: "c = tb_c (tomb_start t other ev)" "closed_context ev c"
    and t: "holds (tb_late t) k S" and S: "S \<subseteq> V" "cur ev S = S"
    and other: "(\<Union>r \<in> set (shape_regs other). set (vals_at r k)) = T" "T \<subseteq> V"
    and keeps: "late ev c V \<subseteq> S \<union> T"
  shows "holds (tb_late (join_tomb_into t other ev)) k (late ev c V)"
proof -
  let ?srcs = "shape_regs other" and ?t = "tomb_start t other ev"
  let ?ks = "bt_keys (bs_collect (concat (map bt_keys ?srcs)))"
  let ?f = "fold (late_pass ev ?srcs) ?ks ?t"
  have start: "tb_late ?t = tb_late t" by (cases other) simp_all
  have get: "bt_get (tb_late ?f) k =
      (if k \<in> set ?ks then bt_get (tb_late (late_pass ev ?srcs k ?t)) k else bt_get (tb_late t) k)"
    and cf: "tb_c ?f = c"
    by (simp_all only: late_pass_fold [OF bt_keys_distinct] start c(1))
  have in_ks: "k \<in> set ?ks \<longleftrightarrow> (\<exists>r \<in> set ?srcs. bt_get r k \<noteq> None)"
    by (simp only: bs_keys_collect) simp
  have late_eq: "late ev c (S \<union> T) = late ev c V"
    by (rule late_within [OF ev fin c(2) keeps]) (use S(1) other(2) in simp)
  have "\<exists>Q. holds (tb_late ?f) k Q \<and> {v \<in> Q. \<not> vv_covers c (vl_dot v)} = late ev c V"
  proof (cases "k \<in> set ?ks")
    case True
    have "set (vals_at (tb_late ?t) k @ values_of k ?srcs) = S \<union> T"
      by (simp only: start set_append values_of_sets holds_vals [OF t] other(1))
    then have "holds (tb_late (late_pass ev ?srcs k ?t)) k (late ev c (S \<union> T))"
      using set_late_key_holds [OF k, of ?t "vals_at (tb_late ?t) k @ values_of k ?srcs" ev]
      by (simp only: late_pass_def c(1))
    then have "holds (tb_late ?f) k (late ev c (S \<union> T))" using True get by (simp add: holds_def)
    moreover have "{v \<in> late ev c V. \<not> vv_covers c (vl_dot v)} = late ev c V" by (auto simp: late_def)
    ultimately show ?thesis unfolding late_eq by (intro exI conjI)
  next
    case False
    then have "\<forall>r \<in> set ?srcs. bt_get r k = None" unfolding in_ks by blast
    then have "T = {}" by (simp add: other(1) [symmetric] vals_at_def)
    then have "{v \<in> S. \<not> vv_covers c (vl_dot v)} = late ev c V"
      using late_eq S(2) by (simp add: late_def)
    moreover have "holds (tb_late ?f) k S" using False get t by (simp add: holds_def)
    ultimately show ?thesis by blast
  qed
  then obtain Q where "holds (tb_late ?f) k Q" "{v \<in> Q. \<not> vv_covers c (vl_dot v)} = late ev c V" by blast
  with drop_covered_holds [of "tb_late ?f" k Q c] show ?thesis
    by (simp add: join_tomb_into_steps Let_def cf)
qed

section \<open>The join represents the union\<close>

lemma closed_context_join:
  "closed_context ev a \<Longrightarrow> closed_context ev b \<Longrightarrow> closed_context ev (vv_join a b)"
  unfolding closed_context_def by (metis vv_covers_join vv_le_join(1,2) vv_le_trans)

lemma rep_tomb_closed:
  assumes "sound_facts ev A" "rep_shape ev A (ShTomb t)"
  shows "closed_context ev (tb_c t)"
  unfolding closed_context_def
proof (intro allI impI)
  fix d c' assume d: "vv_covers (tb_c t) d" "ev_context ev d = Some c'"
  have c: "\<forall>d. vv_covers (tb_c t) d \<longleftrightarrow> d \<in> purged_dots A" using assms(2) by (simp add: rep_shape_def)
  with d(1) obtain p c where p: "FPurge p c \<in> A" "vv_covers c d" by (auto simp: purged_dots_def)
  with assms(1) d(2) have "vv_le c' c" by (auto simp: sound_facts_def closed_context_def)
  moreover have "vv_le c (tb_c t)" using c p(1) by (auto simp: vv_le_covers_iff purged_dots_def)
  ultimately show "vv_le c' (tb_c t)" by (rule vv_le_trans)
qed

lemma rep_join_live:
  assumes ev: "causal_headers ev" and sound: "sound_facts ev A" "sound_facts ev B"
    and x: "rep_shape ev A (ShLive x)" and y: "rep_shape ev B (ShLive y)"
  shows "rep_shape ev (A \<union> B) (ShLive (join_live_into x y ev))"
proof -
  have "finite (fact_vals A k)" "finite (fact_vals B k)" "vouched ev (fact_vals A k \<union> fact_vals B k)" for k
    using sound by (auto simp: sound_facts_def vouched_def intro: finite_fact_vals)
  from join_live_holds [OF ev this] x y show ?thesis by (simp add: rep_shape_def)
qed

lemma late_antimono: "vv_le c c' \<Longrightarrow> late ev c' V \<subseteq> late ev c V"
  using vv_le_covers by (auto simp: late_def)

lemma late_Un_subset: "late ev c (A \<union> B) \<subseteq> late ev c A \<union> late ev c B"
  using cur_Un_subset by (auto simp: late_def)

lemma join_tomb_lifecycle:
  assumes "holds (tb_late t) LIFECYCLE_KEY {}"
  shows "holds (tb_late (join_tomb_into t other ev)) LIFECYCLE_KEY {}"
proof -
  let ?ks = "bt_keys (bs_collect (concat (map bt_keys (shape_regs other))))"
  let ?f = "fold (late_pass ev (shape_regs other)) ?ks (tomb_start t other ev)"
  have "tb_late (tomb_start t other ev) = tb_late t" by (cases other) simp_all
  moreover have "late_pass ev srcs LIFECYCLE_KEY s = s" for srcs s
    by (simp add: late_pass_def set_late_key_def bytes_is_lifecycle_key_def)
  ultimately have "bt_get (tb_late ?f) LIFECYCLE_KEY = bt_get (tb_late t) LIFECYCLE_KEY"
    by (simp only: late_pass_fold [OF bt_keys_distinct]) simp
  with assms have "holds (tb_late ?f) LIFECYCLE_KEY {}" by (simp add: holds_def)
  from drop_covered_holds [OF this, of "tb_c ?f"] show ?thesis by (simp add: join_tomb_into_steps Let_def)
qed

text \<open>The values the other side brings to a key: all it keeps if live, its late values if not.\<close>

lemma shape_values:
  assumes "rep_shape ev B other" "k \<noteq> LIFECYCLE_KEY"
  shows "(\<Union>r \<in> set (shape_regs other). set (vals_at r k)) =
    (case other of ShLive _ \<Rightarrow> kept ev (fact_vals B k) | ShTomb u \<Rightarrow> late ev (tb_c u) (fact_vals B k))"
proof (cases other)
  case (ShLive l)
  with assms have "set (vals_at (lv_regs l) k) = cur ev (fact_vals B k)" "set (vals_at (lv_hist l) k) = hist ev (fact_vals B k)"
    by (simp_all add: rep_shape_def holds_vals)
  with ShLive show ?thesis by (simp add: kept_def)
next
  case (ShTomb u)
  with assms have "set (vals_at (tb_late u) k) = late ev (tb_c u) (fact_vals B k)"
    by (auto simp: rep_shape_def late_facts_def dest!: spec [of _ k] holds_vals)
  with ShTomb show ?thesis by simp
qed

lemma rep_join_tomb_late:
  assumes ev: "causal_headers ev" and sound: "sound_facts ev A" "sound_facts ev B"
    and t: "rep_shape ev A (ShTomb t)" and other: "rep_shape ev B other"
    and c: "c = tb_c (tomb_start t other ev)"
  shows "holds (tb_late (join_tomb_into t other ev)) k (late_facts ev c (A \<union> B) k)"
proof (cases "k = LIFECYCLE_KEY")
  case True
  have "holds (tb_late t) LIFECYCLE_KEY (late_facts ev (tb_c t) A LIFECYCLE_KEY)"
    using t by (simp add: rep_shape_def)
  with True show ?thesis by (simp add: late_facts_def join_tomb_lifecycle)
next
  case False
  let ?A = "fact_vals A k" and ?B = "fact_vals B k"
  let ?S = "late ev (tb_c t) ?A" and ?T = "\<Union>r \<in> set (shape_regs other). set (vals_at r k)"
  have fin: "finite (?A \<union> ?B)" using sound by (simp add: sound_facts_def finite_fact_vals)
  have closed: "closed_context ev c"
    using rep_tomb_closed [OF sound(1) t] rep_tomb_closed [OF sound(2)] other
    by (cases other) (simp_all add: c closed_context_join)
  have "holds (tb_late t) k (late_facts ev (tb_c t) A k)" using t by (simp add: rep_shape_def)
  then have S: "holds (tb_late t) k ?S" using False by (simp add: late_facts_def)
  have "?S \<subseteq> cur ev ?A" by (auto simp: late_def)
  then have SA: "?S \<subseteq> ?A" "cur ev ?S = ?S" using cur_subset(1) [of ev ?A] cur_of_subset_cur by blast+
  have T: "?T \<subseteq> ?B" "late ev c ?B \<subseteq> ?T"
  proof -
    have "kept ev ?B \<subseteq> ?B" "late ev c ?B \<subseteq> kept ev ?B" "late ev c' ?B \<subseteq> ?B" for c'
      using kept_subset [of ev ?B] cur_subset(1) [of ev ?B] by (auto simp: late_def kept_def)
    moreover have "late ev c ?B \<subseteq> late ev (tb_c u) ?B" if "other = ShTomb u" for u
      using that by (intro late_antimono) (simp add: c)
    ultimately show "?T \<subseteq> ?B" "late ev c ?B \<subseteq> ?T"
      unfolding shape_values [OF other False] by (simp_all split: shape.split)
  qed
  have "vv_le (tb_c t) c" by (cases other) (simp_all add: c)
  then have "late ev c (?A \<union> ?B) \<subseteq> ?S \<union> ?T"
    using late_Un_subset [of ev c ?A ?B] late_antimono [of "tb_c t" c ev ?A] T(2) by blast
  from join_tomb_late [OF ev fin False c closed S _ SA(2) refl _ this] SA(1) T(1) show ?thesis
    by (auto simp: late_facts_def False)
qed

lemma rep_join_tomb:
  assumes ev: "causal_headers ev" and sound: "sound_facts ev A" "sound_facts ev B"
    and t: "rep_shape ev A (ShTomb t)" and other: "rep_shape ev B other"
  shows "rep_shape ev (A \<union> B) (ShTomb (join_tomb_into t other ev))"
proof -
  let ?s = "tomb_start t other ev"
  have purge: "tb_purge ?s \<in> fact_purges A \<union> fact_purges B"
    "\<forall>p \<in> fact_purges A \<union> fact_purges B. purge_order p ev \<le> purge_order (tb_purge ?s) ev"
    using t other by (cases other; force simp: rep_shape_def)+
  have "vv_covers (tb_c ?s) d \<longleftrightarrow> d \<in> purged_dots A \<union> purged_dots B" for d
  proof (cases other)
    case (ShLive l)
    with other have "purged_dots B = {}" by (auto simp: rep_shape_def purged_dots_def fact_purges_def)
    with t ShLive show ?thesis by (simp add: rep_shape_def)
  next
    case (ShTomb u)
    with t other show ?thesis by (simp add: rep_shape_def)
  qed
  with purge rep_join_tomb_late [OF assms refl] show ?thesis by (simp add: rep_shape_def join_tomb_into_fields)
qed

lemma represents_join:
  assumes "causal_headers ev" "represents ev A s" "represents ev B t"
  shows "represents ev (A \<union> B) (join_into s t ev)"
proof -
  from assms(2,3) have st: "sound_facts ev A" "sound_facts ev B" "rep_shape ev A (st_shape s)" "rep_shape ev B (st_shape t)"
    and vv: "\<And>d. vv_covers (st_vv s) d \<longleftrightarrow> d \<in> covered_dots A" "\<And>d. vv_covers (st_vv t) d \<longleftrightarrow> d \<in> covered_dots B"
    by (auto simp: represents_def)
  have "rep_shape ev (A \<union> B) (st_shape (join_into s t ev))"
  proof (cases "st_shape s"; cases "st_shape t")
    fix l u assume sh: "st_shape s = ShLive l" "st_shape t = ShTomb u"
    have "rep_shape ev (B \<union> A) (ShTomb (join_tomb_into u (ShLive l) ev))"
      using rep_join_tomb [OF assms(1) st(2,1), of u "ShLive l"] st sh by simp
    with sh show ?thesis by (simp add: join_into_def Un_commute)
  qed (use st rep_join_live [OF assms(1) st(1,2)] rep_join_tomb [OF assms(1) st(1,2)] in \<open>simp_all add: join_into_def\<close>)
  then show ?thesis using st vv by (simp add: represents_def sound_facts_Un) (simp add: join_into_def)
qed

interpretation item_join: represented_join
    "\<lambda>A s. causal_headers ev \<and> represents ev A s" "\<lambda>s t. join_into s t ev" for ev
  by unfold_locales (auto intro: represents_join represents_unique)

section \<open>The facts of a state and of an op\<close>

definition state_facts :: "item_state \<Rightarrow> fact set" where
  "state_facts s =
     FDot ` set (vv_entries (st_vv s)) \<union> (\<lambda>(k, v). FVal k v) ` set (state_values s) \<union>
     (case st_shape s of ShLive _ \<Rightarrow> {} | ShTomb t \<Rightarrow> {FPurge (tb_purge t) (tb_c t)})"

definition op_facts :: "held_op \<Rightarrow> fact set" where
  "op_facts op =
     insert (FDot (ho_dot op))
       (if ho_lifecycle op = Purge
        then {FPurge \<lparr> pr_dot = ho_dot op, pr_hlc = ho_hlc op, pr_key_id = ho_key_id op \<rparr> (ho_context op)}
        else (\<lambda>(k, v). FVal k \<lparr> vl_dot = ho_dot op, vl_hlc = ho_hlc op, vl_value = v \<rparr>) `
               set (writes_with_lifecycle op))"

text \<open>An op as its header vouches for it, with each key written once.\<close>

definition op_vouched :: "evidence \<Rightarrow> held_op \<Rightarrow> bool" where
  "op_vouched ev op \<longleftrightarrow>
     bt_get (ev_headers ev) (ho_dot op) = Some \<lparr> hf_hlc = ho_hlc op, hf_context = ho_context op \<rparr> \<and>
     distinct (map fst (writes_with_lifecycle op))"

lemma facts_empty [simp]: "fact_vals {} k = {}" "fact_purges {} = {}" "covered_dots {} = {}" "purged_dots {} = {}"
  by (auto simp: fact_vals_def fact_purges_def covered_dots_def purged_dots_def)

lemma represents_default: "represents ev {} state_default"
  by (simp add: represents_def state_default_def live_default_def rep_shape_def sound_facts_def holds_def vouched_def)

lemma covered_dots_insert:
  "d \<in> covered_dots (insert (FDot e) A) \<longleftrightarrow>
     d \<in> covered_dots A \<or> dot_device d = dot_device e \<and> dot_seq d \<le> dot_seq e"
  by (auto simp: covered_dots_def)

lemma causal_closed: "causal_headers ev \<Longrightarrow> ev_context ev d = Some c \<Longrightarrow> closed_context ev c"
  by (auto simp: causal_headers_def closed_context_def)

lemma cur_singleton: "cur ev {v} = {v}" "hist ev {v} = {}"
proof -
  have "chosen ev {v} = {v}" by (auto simp: chosen_def)
  moreover have "\<not> superseded_by ev (vl_dot ` {v}) (vl_dot v)" by (simp add: superseded_by_def)
  ultimately show "cur ev {v} = {v}" "hist ev {v} = {}" by (auto simp: cur_def hist_def old_def newest_def)
qed

lemma op_facts_vals:
  assumes "distinct (map fst (writes_with_lifecycle op))" "ho_lifecycle op \<noteq> Purge"
  shows "fact_vals (op_facts op) k =
    (case map_of (writes_with_lifecycle op) k of
       None \<Rightarrow> {}
     | Some v \<Rightarrow> {\<lparr> vl_dot = ho_dot op, vl_hlc = ho_hlc op, vl_value = v \<rparr>})"
proof -
  have "fact_vals (op_facts op) k =
      {\<lparr> vl_dot = ho_dot op, vl_hlc = ho_hlc op, vl_value = v \<rparr> | v. (k, v) \<in> set (writes_with_lifecycle op)}"
    using assms(2) by (auto simp: fact_vals_def op_facts_def)
  moreover have "(k, v) \<in> set (writes_with_lifecycle op) \<longleftrightarrow> map_of (writes_with_lifecycle op) k = Some v" for v
    using assms(1) by simp
  ultimately show ?thesis by (auto split: option.splits)
qed

lemma op_facts_sound:
  assumes "causal_headers ev" "op_vouched ev op"
  shows "sound_facts ev (op_facts op)"
proof -
  have ctx: "ev_context ev (ho_dot op) = Some (ho_context op)" "ev_hlc ev (ho_dot op) = Some (ho_hlc op)"
    using assms(2) by (auto simp: op_vouched_def ev_context_def ev_hlc_def)
  then have "closed_context ev (ho_context op)" using causal_closed [OF assms(1)] by blast
  with ctx show ?thesis
    by (auto simp: sound_facts_def op_facts_def vouched_def fact_vals_def split: if_splits)
qed

lemma writes_map: "map_of (map (\<lambda>(k, v). (k, f v)) ws) k = map_option f (map_of ws k)"
  by (induction ws) auto

lemma represents_singleton:
  assumes ev: "causal_headers ev" and op: "op_vouched ev op"
  shows "represents ev (op_facts op) (singleton op)"
proof -
  have vv: "vv_covers (vv_add (ho_dot op) vv_new) d \<longleftrightarrow> d \<in> covered_dots (op_facts op)" for d
    by (auto simp: vv_covers_add covered_dots_def op_facts_def)
  have "rep_shape ev (op_facts op) (st_shape (singleton op))"
  proof (cases "ho_lifecycle op = Purge")
    case True
    then show ?thesis
      by (auto simp: singleton_def rep_shape_def op_facts_def fact_purges_def purged_dots_def holds_def
          late_facts_def late_def fact_vals_def)
  next
    case False
    have dist: "distinct (map fst (writes_with_lifecycle op))" using op by (simp add: op_vouched_def)
    let ?val = "\<lambda>v. \<lparr> vl_dot = ho_dot op, vl_hlc = ho_hlc op, vl_value = v \<rparr>"
    have get: "bt_get (bt_collect (map (\<lambda>(key, v). (key, [?val v])) (writes_with_lifecycle op))) k =
        map_option (\<lambda>v. [?val v]) (map_of (writes_with_lifecycle op) k)" for k
    proof -
      have "map fst (map (\<lambda>(key, v). (key, [?val v])) (writes_with_lifecycle op)) = map fst (writes_with_lifecycle op)"
        by (simp add: case_prod_beta)
      with dist show ?thesis by (simp only: bt_get_collect_distinct writes_map)
    qed
    have "fact_purges (op_facts op) = {}" using False by (auto simp: fact_purges_def op_facts_def)
    moreover have "st_shape (singleton op) = ShLive \<lparr> lv_regs = bt_collect (map (\<lambda>(key, v). (key, [?val v]))
        (writes_with_lifecycle op)), lv_hist = bt_empty \<rparr>"
      using False by (cases "ho_lifecycle op") (simp_all add: singleton_def)
    ultimately show ?thesis
      by (simp add: rep_shape_def holds_def get op_facts_vals [OF dist False] cur_singleton split: option.splits)
  qed
  with vv op_facts_sound [OF ev op] show ?thesis by (simp add: represents_def) (simp add: singleton_def)
qed

section \<open>Normal form\<close>

lemma state_facts_vals: "FVal k v \<in> state_facts s \<longleftrightarrow> (k, v) \<in> set (state_values s)"
  by (auto simp: state_facts_def split: shape.splits)

lemma regs_values_at: "(k, v) \<in> set (regs_values rs) \<longleftrightarrow> v \<in> set (vals_at rs k)"
  by (cases "bt_get rs k") (auto simp: regs_values_iff vals_at_def)

lemma state_facts_Live:
  assumes "st_shape s = ShLive l"
  shows "fact_vals (state_facts s) k = set (vals_at (lv_regs l) k) \<union> set (vals_at (lv_hist l) k)"
    "fact_purges (state_facts s) = {}" "purged_dots (state_facts s) = {}"
  using assms
  by (auto simp: fact_vals_def fact_purges_def purged_dots_def state_facts_vals state_values_def regs_values_at)
    (auto simp: state_facts_def)

lemma state_facts_Tomb:
  assumes "st_shape s = ShTomb t"
  shows "fact_vals (state_facts s) k = set (vals_at (tb_late t) k)"
    "fact_purges (state_facts s) = {tb_purge t}" "purged_dots (state_facts s) = {d. vv_covers (tb_c t) d}"
  using assms
  by (auto simp: fact_vals_def fact_purges_def purged_dots_def state_facts_vals state_values_def regs_values_at)
    (auto simp: state_facts_def)

lemma state_facts_covered: "d \<in> covered_dots (state_facts s) \<longleftrightarrow> vv_covers (st_vv s) d"
proof -
  have "d \<in> covered_dots (state_facts s) \<longleftrightarrow>
      (\<exists>e \<in> set (vv_entries (st_vv s)). dot_device d = dot_device e \<and> dot_seq d \<le> dot_seq e)"
    by (auto simp: covered_dots_def state_facts_def split: shape.splits)
  also have "\<dots> \<longleftrightarrow> vv_covers (st_vv s) d"
  proof
    show "\<exists>e \<in> set (vv_entries (st_vv s)). dot_device d = dot_device e \<and> dot_seq d \<le> dot_seq e \<Longrightarrow> vv_covers (st_vv s) d"
      by (auto simp: vv_entries_iff vv_covers_def)
    assume d: "vv_covers (st_vv s) d"
    then have "vv_get (st_vv s) (dot_device d) \<noteq> 0" using dot_seq_pos [of d] by (auto simp: vv_covers_def)
    then obtain n where n: "nz_get n = vv_get (st_vv s) (dot_device d)" by (metis nz_get_of)
    then have "Dot (dot_device d) n \<in> set (vv_entries (st_vv s))" by (simp add: vv_entries_iff dot_seq_def)
    moreover have "dot_seq d \<le> dot_seq (Dot (dot_device d) n)" using d n by (simp add: vv_covers_def dot_seq_def)
    ultimately show "\<exists>e \<in> set (vv_entries (st_vv s)). dot_device d = dot_device e \<and> dot_seq d \<le> dot_seq e"
      by (metis dot.sel(1))
  qed
  finally show ?thesis .
qed

lemma normalize_live_holds:
  fixes l :: live and ev :: evidence
  defines "n \<equiv> fold (\<lambda>key out. set_live_key out key (values_of key [lv_regs l, lv_hist l]) ev) (live_keys l) live_default"
  shows "holds (lv_regs n) k (cur ev (set (vals_at (lv_regs l) k) \<union> set (vals_at (lv_hist l) k)))"
    "holds (lv_hist n) k (hist ev (set (vals_at (lv_regs l) k) \<union> set (vals_at (lv_hist l) k)))"
proof -
  let ?upd = "\<lambda>key out. set_live_key out key (values_of key [lv_regs l, lv_hist l]) ev"
  let ?L = "\<lambda>(x :: live) k. (bt_get (lv_regs x) k, bt_get (lv_hist x) k)"
  have "?L n k = (if k \<in> set (live_keys l) then ?L (?upd k live_default) k else ?L live_default k)"
    unfolding n_def
  proof (rule fold_pointwise)
    show "?L (?upd key x) k = ?L x k" if "k \<noteq> key" for key k and x :: live
      using that by (simp add: set_live_key_other)
    show "?L (?upd k x) k = ?L (?upd k x') k" if "?L x k = ?L x' k" for k and x x' :: live
      by (simp add: set_live_key_def Let_def case_prod_beta)
    show "distinct (live_keys l)" by (simp add: live_keys_def)
  qed
  moreover have "set (values_of k [lv_regs l, lv_hist l]) = set (vals_at (lv_regs l) k) \<union> set (vals_at (lv_hist l) k)"
    by (simp add: values_of_sets)
  moreover note set_live_key_holds [of live_default k "values_of k [lv_regs l, lv_hist l]" ev]
  moreover have "vals_at (lv_regs l) k = []" "vals_at (lv_hist l) k = []" if "k \<notin> set (live_keys l)"
    using that by (simp_all add: live_keys_iff vals_at_def)
  ultimately show "holds (lv_regs n) k (cur ev (set (vals_at (lv_regs l) k) \<union> set (vals_at (lv_hist l) k)))"
    "holds (lv_hist n) k (hist ev (set (vals_at (lv_regs l) k) \<union> set (vals_at (lv_hist l) k)))"
    by (auto simp: holds_def live_default_def split: if_splits)
qed

lemma fold_entries:
  "fold (\<lambda>(key, values) out. f key values out) (bt_entries rs) x = fold (\<lambda>key out. f key (vals_at rs key) out) (bt_keys rs) x"
proof -
  have "vals_at rs (fst e) = snd e" if "e \<in> set (bt_entries rs)" for e
    using that bt_entries_iff [of "fst e" "snd e" rs] by (simp add: vals_at_def)
  then show ?thesis
    unfolding bt_keys_def fold_map comp_def by (intro fold_cong) (auto simp: case_prod_beta)
qed

lemma normalize_late_holds:
  fixes t :: tomb and ev :: evidence
  defines "n \<equiv> fold (\<lambda>(key, values) out. set_late_key out key values ev) (bt_entries (tb_late t))
    \<lparr> tb_purge = tb_purge t, tb_c = tb_c t, tb_late = bt_empty \<rparr>"
  shows "tb_purge n = tb_purge t" "tb_c n = tb_c t"
    "holds (tb_late n) k (if k = LIFECYCLE_KEY then {} else late ev (tb_c t) (set (vals_at (tb_late t) k)))"
proof -
  let ?t0 = "\<lparr> tb_purge = tb_purge t, tb_c = tb_c t, tb_late = bt_empty :: regs \<rparr>"
  let ?upd = "\<lambda>key out. set_late_key out key (vals_at (tb_late t) key) ev"
  let ?L = "\<lambda>(t :: tomb) k. (tb_purge t, tb_c t, bt_get (tb_late t) k)"
  have n: "n = fold ?upd (bt_keys (tb_late t)) ?t0" unfolding n_def by (rule fold_entries)
  have L: "?L n k = (if k \<in> set (bt_keys (tb_late t)) then ?L (?upd k ?t0) k else ?L ?t0 k)" for k
    unfolding n
  proof (rule fold_pointwise)
    show "?L (?upd key x) k = ?L x k" if "k \<noteq> key" for key k and x :: tomb
      using that by (simp add: set_late_key_other)
    show "?L (?upd k x) k = ?L (?upd k x') k" if "?L x k = ?L x' k" for k and x x' :: tomb
      using that by (simp add: set_late_key_def Let_def)
  qed simp
  from L [of k] show "tb_purge n = tb_purge t" "tb_c n = tb_c t"
    by (auto simp: set_late_key_other split: if_splits)
  have none: "vals_at (tb_late t) k = []" if "k \<notin> set (bt_keys (tb_late t))"
    using that by (simp add: vals_at_def)
  show "holds (tb_late n) k (if k = LIFECYCLE_KEY then {} else late ev (tb_c t) (set (vals_at (tb_late t) k)))"
  proof (cases "k = LIFECYCLE_KEY")
    case True
    then have "bt_get (tb_late (?upd k ?t0)) k = None"
      by (simp add: set_late_key_def bytes_is_lifecycle_key_def)
    with L [of k] True show ?thesis by (simp add: holds_def split: if_splits)
  next
    case False
    from set_late_key_holds [OF this, of ?t0 "vals_at (tb_late t) k" ev] L [of k] none False
    show ?thesis by (auto simp: holds_def late_def split: if_splits)
  qed
qed

lemma represents_normalize:
  assumes "sound_facts ev (state_facts s)"
  shows "represents ev (state_facts s) (normalize s ev)"
proof (cases "st_shape s")
  case (ShLive l)
  with assms normalize_live_holds [of l ev] show ?thesis
    by (simp add: represents_def state_facts_covered) (simp add: normalize_def rep_shape_def state_facts_Live [OF ShLive])
next
  case (ShTomb t)
  note n = normalize_late_holds [of ev t, folded state_facts_Tomb(1) [OF ShTomb], folded late_facts_def]
  with ShTomb assms show ?thesis
    by (simp add: represents_def state_facts_covered) (simp add: normalize_def rep_shape_def state_facts_Tomb [OF ShTomb])
qed

definition normal_state :: "evidence \<Rightarrow> item_state \<Rightarrow> bool" where
  "normal_state ev s \<longleftrightarrow> represents ev (state_facts s) s"

lemma vouched_subset: "vouched ev V \<Longrightarrow> W \<subseteq> V \<Longrightarrow> vouched ev W"
  by (auto simp: vouched_def)

lemma kept_idem:
  assumes "causal_headers ev" "finite V" "vouched ev V"
  shows "cur ev (kept ev V) = cur ev V" "hist ev (kept ev V) = hist ev V"
  using cur_Un [OF assms(1,2,2)] hist_Un [OF assms(1,2,2)] assms(3) by simp_all

lemma represents_normal:
  assumes ev: "causal_headers ev" and rep: "represents ev A s"
  shows "normal_state ev s"
proof -
  have sound: "sound_facts ev A" and covered: "\<And>d. vv_covers (st_vv s) d \<longleftrightarrow> d \<in> covered_dots A"
    and shape: "rep_shape ev A (st_shape s)" using rep by (auto simp: represents_def)
  have V: "finite (fact_vals A k)" "vouched ev (fact_vals A k)" for k
    using sound by (auto simp: sound_facts_def finite_fact_vals)
  have fin: "finite (state_facts s)" by (simp add: state_facts_def split: shape.split)
  show ?thesis
  proof (cases "st_shape s")
    case (ShLive l)
    then have h: "holds (lv_regs l) k (cur ev (fact_vals A k))" "holds (lv_hist l) k (hist ev (fact_vals A k))" for k
      using shape by (simp_all add: rep_shape_def)
    have vals: "fact_vals (state_facts s) k = kept ev (fact_vals A k)" for k
      using holds_vals [OF h(1)] holds_vals [OF h(2)] by (simp add: state_facts_Live [OF ShLive] kept_def)
    have "FPurge p c \<notin> state_facts s" for p c
      using state_facts_Live(2) [OF ShLive] by (auto simp: fact_purges_def)
    then have "sound_facts ev (state_facts s)"
      using fin vouched_subset [OF V(2) kept_subset] by (simp add: sound_facts_def vals)
    moreover have "rep_shape ev (state_facts s) (ShLive l)"
      using h by (simp add: rep_shape_def vals kept_idem [OF ev V] state_facts_Live(2) [OF ShLive])
    ultimately show ?thesis by (simp add: normal_state_def represents_def state_facts_covered ShLive)
  next
    case (ShTomb t)
    then have h: "holds (tb_late t) k (late_facts ev (tb_c t) A k)" for k
      using shape by (simp add: rep_shape_def)
    have vals: "fact_vals (state_facts s) k = late_facts ev (tb_c t) A k" for k
      using holds_vals [OF h] by (simp add: state_facts_Tomb [OF ShTomb])
    have sub: "late_facts ev (tb_c t) A k \<subseteq> cur ev (fact_vals A k)" for k
      by (auto simp: late_facts_def late_def)
    then have "vouched ev (late_facts ev (tb_c t) A k)" for k
      by (rule vouched_subset [OF V(2) subset_trans [OF _ cur_subset(1)]])
    moreover have "closed_context ev (tb_c t)" using rep_tomb_closed [OF sound] shape ShTomb by simp
    moreover have "FPurge p c \<in> state_facts s \<longleftrightarrow> p = tb_purge t \<and> c = tb_c t" for p c
      by (auto simp: state_facts_def ShTomb)
    ultimately have "sound_facts ev (state_facts s)" using fin by (simp add: sound_facts_def vals)
    moreover have "late_facts ev (tb_c t) (state_facts s) k = late_facts ev (tb_c t) A k" for k
      by (simp add: late_facts_def vals late_late)
    then have "rep_shape ev (state_facts s) (ShTomb t)"
      using h by (simp add: rep_shape_def state_facts_Tomb(2,3) [OF ShTomb])
    ultimately show ?thesis by (simp add: normal_state_def represents_def state_facts_covered ShTomb)
  qed
qed

section \<open>More evidence\<close>

text \<open>Recording further headers does not change what a state represents: only the headers of the
  values it holds are read.\<close>

lemma cur_agree:
  assumes "\<And>v. v \<in> V \<Longrightarrow> bt_get (ev_headers ev') (vl_dot v) = bt_get (ev_headers ev) (vl_dot v)"
  shows "cur ev' V = cur ev V" "hist ev' V = hist ev V"
proof -
  have ctx: "ev_context ev' (vl_dot v) = ev_context ev (vl_dot v)" "ev_hlc ev' (vl_dot v) = ev_hlc ev (vl_dot v)"
    if "v \<in> V" for v using assms that by (simp_all add: ev_context_def ev_hlc_def)
  have "superseded_by ev' (vl_dot ` V) d \<longleftrightarrow> superseded_by ev (vl_dot ` V) d" for d
    using ctx by (auto simp: superseded_by_def)
  moreover have "chosen ev' V = chosen ev V"
    using ctx by (auto simp: chosen_def version_key_def)
  ultimately show "cur ev' V = cur ev V" "hist ev' V = hist ev V"
    by (simp_all add: cur_def hist_def old_def)
qed

lemma purge_order_rank:
  assumes "purge_rank p = purge_rank q \<Longrightarrow> p = q"
  shows "purge_order p ev \<le> purge_order q ev \<longleftrightarrow> purge_order p ev' \<le> purge_order q ev'"
proof (cases "purge_rank p = purge_rank q")
  case True
  with assms show ?thesis by simp
next
  case False
  then show ?thesis by (simp add: purge_order_def Let_def less_eq_prod_simp less_le) blast
qed

lemma represents_agree:
  assumes rep: "represents ev A s" and sound: "sound_facts ev' A"
    and heads: "\<And>k v. FVal k v \<in> A \<Longrightarrow> bt_get (ev_headers ev') (vl_dot v) = bt_get (ev_headers ev) (vl_dot v)"
    and purges: "\<And>p q. p \<in> fact_purges A \<Longrightarrow> q \<in> fact_purges A \<Longrightarrow> purge_rank p = purge_rank q \<Longrightarrow> p = q"
  shows "represents ev' A s"
proof -
  have cur: "cur ev' (fact_vals A k) = cur ev (fact_vals A k)" "hist ev' (fact_vals A k) = hist ev (fact_vals A k)" for k
    by (intro cur_agree; simp add: fact_vals_def heads)+
  have "rep_shape ev' A (st_shape s)"
  proof (cases "st_shape s")
    case (ShLive l)
    with rep show ?thesis by (simp add: represents_def rep_shape_def cur)
  next
    case (ShTomb t)
    then have t: "rep_shape ev A (ShTomb t)" using rep by (simp add: represents_def)
    then have "purge_order p ev' \<le> purge_order (tb_purge t) ev'" if "p \<in> fact_purges A" for p
      using that purge_order_rank [of p "tb_purge t" ev ev'] purges by (auto simp: rep_shape_def)
    moreover have "late_facts ev' (tb_c t) A k = late_facts ev (tb_c t) A k" for k
      by (simp add: late_facts_def late_def cur)
    ultimately show ?thesis using t by (simp add: rep_shape_def ShTomb)
  qed
  with rep sound show ?thesis by (simp add: represents_def)
qed

section \<open>The join laws\<close>

text \<open>C31: The evidence join is a semilattice on states in normal form: commutative, associative,
  idempotent, and its result is in normal form again, whoever wrote the states, under any
  verified headers that are causal. \<open>normalize\<close> leaves a normal state alone.\<close>
theorem join_semilattice:
  assumes "causal_headers ev" "normal_state ev a" "normal_state ev b" "normal_state ev c"
  shows "join_into a b ev = join_into b a ev \<and>
    join_into (join_into a b ev) c ev = join_into a (join_into b c ev) ev \<and>
    join_into a a ev = a \<and> normal_state ev (join_into a b ev) \<and> normalize a ev = a"
proof (intro conjI)
  have rep: "causal_headers ev \<and> represents ev (state_facts s) s" if "normal_state ev s" for s
    using assms(1) that by (simp add: normal_state_def)
  note A = rep [OF assms(2)] and B = rep [OF assms(3)] and C = rep [OF assms(4)]
  show "join_into a b ev = join_into b a ev" by (rule item_join.commute [OF A B])
  show "join_into (join_into a b ev) c ev = join_into a (join_into b c ev) ev" by (rule item_join.assoc [OF A B C])
  show "join_into a a ev = a" by (rule item_join.idem [OF A])
  have "represents ev (state_facts a \<union> state_facts b) (join_into a b ev)" using represents_join A B by blast
  then show "normal_state ev (join_into a b ev)" by (rule represents_normal [OF assms(1)])
  have "represents ev (state_facts a) (normalize a ev)" using A by (intro represents_normalize) (simp add: represents_def)
  with A show "normalize a ev = a" by (metis represents_unique)
qed

text \<open>Two concurrent writes, of a Trashed and a Purge op.\<close>

definition sample_held :: "device_id \<Rightarrow> lifecycle \<Rightarrow> held_op" where
  "sample_held device lc =
     \<lparr> ho_dot = Dot device (nz_of 1), ho_hlc = 5, ho_context = vv_new, ho_key_id = 3, ho_lifecycle = lc, ho_writes = [] \<rparr>"

definition sample_evidence :: evidence where
  "sample_evidence =
     \<lparr> ev_headers = bt_collect (map (\<lambda>device. (Dot device (nz_of 1), \<lparr> hf_hlc = 5, hf_context = vv_new \<rparr>)) [1, 2, 3]),
       ev_wrap_keys = bt_empty \<rparr>"

lemma sample_evidence_causal: "causal_headers sample_evidence"
  by (auto simp: causal_headers_def sample_evidence_def ev_context_def bt_collect_def split: if_splits)

lemma sample_held_normal: "device \<in> {1, 2, 3} \<Longrightarrow> normal_state sample_evidence (singleton (sample_held device lc))"
proof (rule represents_normal [OF sample_evidence_causal represents_singleton [OF sample_evidence_causal]])
  have "distinct (map fst (writes_with_lifecycle (sample_held device lc)))"
    by (simp add: sample_held_def writes_with_lifecycle_def split: option.splits)
  moreover assume "device \<in> {1, 2, 3}"
  ultimately show "op_vouched sample_evidence (sample_held device lc)"
    by (auto simp: op_vouched_def sample_held_def sample_evidence_def bt_collect_def)
qed

theorem join_semilattice_witness:
  "join_into (join_into (singleton (sample_held 1 Trashed)) (singleton (sample_held 2 Purge)) sample_evidence)
     (singleton (sample_held 3 Active)) sample_evidence =
   join_into (singleton (sample_held 1 Trashed))
     (join_into (singleton (sample_held 2 Purge)) (singleton (sample_held 3 Active)) sample_evidence) sample_evidence"
  by (rule join_semilattice [OF sample_evidence_causal, THEN conjunct2, THEN conjunct1]) (rule sample_held_normal, simp)+

end
