(* ===== verification/Merge_Evidence.thy ===== *)
theory Merge_Evidence
  imports Merge_Convergence
begin

text \<open>
  Snapshots are claims (\<open>rizzy-sync/src/merge/evidence.rs\<close>): the cut of a snapshot to the verified
  headers, the contradictions that refuse one, and the disagreements that are reported. The
  report types and refusals are those of \<open>rizzy-sync/src/merge.rs\<close>.
\<close>

section \<open>Reports and refusals\<close>

record claim_cut =
  cc_device_id :: device_id
  cc_verified_to :: u64
  cc_claimed_to :: u64
  cc_author :: device_id

datatype refusal =
    PurgeAboveCut | ValueNotInBody dot | ValueAtPurgeDot dot | WriteRecordedAsPurge dot
  | PurgeKeyContradicts dot | ContextNotFromPurges

fun refusal_dot :: "refusal \<Rightarrow> dot option" where
  "refusal_dot PurgeAboveCut = None"
| "refusal_dot ContextNotFromPurges = None"
| "refusal_dot (ValueNotInBody d) = Some d"
| "refusal_dot (ValueAtPurgeDot d) = Some d"
| "refusal_dot (WriteRecordedAsPurge d) = Some d"
| "refusal_dot (PurgeKeyContradicts d) = Some d"

section \<open>The cut\<close>

definition heads :: "evidence \<Rightarrow> version_vector" where
  "heads ev = vv_from_iter (bt_keys (ev_headers ev))"

definition claim_cuts :: "version_vector \<Rightarrow> version_vector \<Rightarrow> device_id \<Rightarrow> claim_cut list" where
  "claim_cuts covered hds author =
     map (\<lambda>claim. \<lparr> cc_device_id = dot_device claim, cc_verified_to = vv_get hds (dot_device claim),
                    cc_claimed_to = dot_seq claim, cc_author = author \<rparr>)
       (filter (\<lambda>claim. \<not> vv_covers hds claim) (vv_entries covered))"

record cut =
  cut_state :: item_state
  cut_ignored :: "dot list"

definition vouches :: "evidence \<Rightarrow> val \<Rightarrow> bool" where
  "vouches ev v \<longleftrightarrow> ev_hlc ev (vl_dot v) = Some (vl_hlc v)"

definition take_regs :: "version_vector \<Rightarrow> evidence \<Rightarrow> regs \<Rightarrow> regs" where
  "take_regs vv ev rs =
     bt_retain_map (\<lambda>_ values.
       let kept = filter (\<lambda>v. vv_covers vv (vl_dot v) \<and> vouches ev v) values
       in if kept = [] then None else Some kept) rs"

definition ignored_in :: "version_vector \<Rightarrow> evidence \<Rightarrow> regs \<Rightarrow> dot list" where
  "ignored_in vv ev rs =
     map (\<lambda>(_, v). vl_dot v)
       (filter (\<lambda>(_, v). vv_covers vv (vl_dot v) \<and> \<not> vouches ev v) (regs_values rs))"

definition cut_snapshot :: "item_state \<Rightarrow> version_vector \<Rightarrow> evidence \<Rightarrow> refusal + cut" where
  "cut_snapshot s hds ev =
     (let vv = vv_meet (st_vv s) hds
      in case st_shape s of
           ShLive l \<Rightarrow>
             Inr \<lparr> cut_state = \<lparr> st_vv = vv,
                     st_shape = ShLive \<lparr> lv_regs = take_regs vv ev (lv_regs l), lv_hist = take_regs vv ev (lv_hist l) \<rparr> \<rparr>,
                   cut_ignored = dedup (sort (ignored_in vv ev (lv_regs l) @ ignored_in vv ev (lv_hist l))) \<rparr>
         | ShTomb t \<Rightarrow>
             if \<not> vv_covers vv (pr_dot (tb_purge t)) \<or> ev_hlc ev (pr_dot (tb_purge t)) \<noteq> Some (pr_hlc (tb_purge t))
             then Inl PurgeAboveCut
             else
               let c = vv_meet (tb_c t) vv;
                   late = bt_retain_map (\<lambda>_ values. Some (filter (\<lambda>v.
                       \<not> vv_covers c (vl_dot v) \<and> vl_dot v \<noteq> pr_dot (tb_purge t)) values)) (take_regs vv ev (tb_late t))
               in Inr \<lparr> cut_state = \<lparr> st_vv = vv,
                          st_shape = ShTomb \<lparr> tb_purge = tb_purge t, tb_c = c,
                            tb_late = bt_retain (\<lambda>_ values. values \<noteq> []) late \<rparr> \<rparr>,
                        cut_ignored = dedup (sort (ignored_in vv ev (tb_late t))) \<rparr>)"

section \<open>Contradictions\<close>

definition wrote :: "held_op \<Rightarrow> bytes \<Rightarrow> bytes \<Rightarrow> bool" where
  "wrote op key v =
     (if bytes_is_lifecycle_key key then
        (case lifecycle_register_value (ho_lifecycle op) of
           None \<Rightarrow> False
         | Some marker \<Rightarrow> bytes_ct_eq v marker)
      else list_ex (\<lambda>(k, w). k = key \<and> bytes_ct_eq w v) (ho_writes op))"

definition known_write :: "(dot, held_op) btree_map \<Rightarrow> dot \<Rightarrow> bool" where
  "known_write bodies d \<longleftrightarrow> map_option held_op_kind (bt_get bodies d) = Some BodyWrite"

definition value_contradiction :: "(dot, held_op) btree_map \<Rightarrow> bytes \<times> val \<Rightarrow> refusal option" where
  "value_contradiction bodies kv =
     (case bt_get bodies (vl_dot (snd kv)) of
        None \<Rightarrow> None
      | Some op \<Rightarrow>
          (case held_op_kind op of
             BodyPurge _ \<Rightarrow> Some (ValueAtPurgeDot (vl_dot (snd kv)))
           | BodyWrite \<Rightarrow>
               if wrote op (fst kv) (vl_value (snd kv)) then None
               else Some (ValueNotInBody (vl_dot (snd kv)))))"

text \<open>\<open>for\<close> with an early \<open>return Some\<close>.\<close>

fun first_some :: "('a \<Rightarrow> 'b option) \<Rightarrow> 'a list \<Rightarrow> 'b option" where
  "first_some f [] = None"
| "first_some f (x # xs) = (case f x of Some y \<Rightarrow> Some y | None \<Rightarrow> first_some f xs)"

definition purge_bound :: "item_state \<Rightarrow> (dot, held_op) btree_map \<Rightarrow> evidence \<Rightarrow> version_vector" where
  "purge_bound taken bodies ev =
     fold (\<lambda>(d, header) bound.
         if vv_covers (st_vv taken) d \<and> \<not> known_write bodies d then vv_join bound (hf_context header) else bound)
       (bt_entries (ev_headers ev)) vv_new"

definition purge_contradiction :: "item_state \<Rightarrow> tomb \<Rightarrow> (dot, held_op) btree_map \<Rightarrow> evidence \<Rightarrow> refusal option" where
  "purge_contradiction taken t bodies ev =
     (let d = pr_dot (tb_purge t);
          context = (if vv_compare (tb_c t) (purge_bound taken bodies ev) \<in> {VvLess, VvEqual} then None
                     else Some ContextNotFromPurges)
      in case map_option held_op_kind (bt_get bodies d) of
           Some BodyWrite \<Rightarrow> Some (WriteRecordedAsPurge d)
         | Some (BodyPurge key_id) \<Rightarrow>
             if key_id \<noteq> pr_key_id (tb_purge t) then Some (PurgeKeyContradicts d) else context
         | None \<Rightarrow> context)"

definition contradiction :: "item_state \<Rightarrow> (dot, held_op) btree_map \<Rightarrow> evidence \<Rightarrow> refusal option" where
  "contradiction taken bodies ev =
     (case first_some (value_contradiction bodies) (state_values taken) of
        Some r \<Rightarrow> Some r
      | None \<Rightarrow>
          (case st_shape taken of
             ShLive _ \<Rightarrow> None
           | ShTomb t \<Rightarrow> purge_contradiction taken t bodies ev))"

section \<open>Disagreements\<close>

record key_index =
  ki_held :: "(dot, val list) btree_map"
  ki_current :: supersession
  ki_pruned_below :: "(hlc \<times> dot) option"

definition hold_version :: "val \<Rightarrow> (dot, val list) btree_map \<Rightarrow> (dot, val list) btree_map" where
  "hold_version v held =
     bt_insert (vl_dot v) ((case bt_get held (vl_dot v) of None \<Rightarrow> [] | Some vs \<Rightarrow> vs) @ [v]) held"

definition state_current :: "item_state \<Rightarrow> regs" where
  "state_current s = (case st_shape s of ShLive l \<Rightarrow> lv_regs l | ShTomb t \<Rightarrow> tb_late t)"

definition state_history :: "item_state \<Rightarrow> regs" where
  "state_history s = (case st_shape s of ShLive l \<Rightarrow> lv_hist l | ShTomb t \<Rightarrow> bt_empty)"

definition key_index_of :: "item_state \<Rightarrow> evidence \<Rightarrow> bytes \<Rightarrow> key_index" where
  "key_index_of s ev key =
     (let cur = vals_at (state_current s) key; hist = vals_at (state_history s) key
      in \<lparr> ki_held = fold hold_version (cur @ hist) bt_empty,
           ki_current = supersession_new cur ev,
           ki_pruned_below =
             (if length hist \<ge> HISTORY_LIMIT then min_opt (map val_rank hist) else None) \<rparr>)"

definition state_index :: "item_state \<Rightarrow> evidence \<Rightarrow> (bytes, key_index) btree_map" where
  "state_index s ev =
     bt_collect (map (\<lambda>key. (key, key_index_of s ev key))
       (bt_keys (bs_collect (bt_keys (state_current s) @ bt_keys (state_history s)))))"

definition accounts_for :: "item_state \<Rightarrow> (bytes, key_index) btree_map \<Rightarrow> bytes \<Rightarrow> val \<Rightarrow> bool" where
  "accounts_for s idx key v =
     (let entry = bt_get idx key;
          held = (case entry of
                    None \<Rightarrow> False
                  | Some e \<Rightarrow> bt_contains_key (ki_held e) (vl_dot v) \<or> supersession_covers (ki_current e) v)
      in case st_shape s of
           ShLive _ \<Rightarrow>
             held \<or> (case Option.bind entry ki_pruned_below of None \<Rightarrow> False | Some floor \<Rightarrow> floor > val_rank v)
         | ShTomb t \<Rightarrow>
             held \<or> bytes_is_lifecycle_key key \<or> vv_covers (tb_c t) (vl_dot v) \<or> vl_dot v = pr_dot (tb_purge t))"

definition other_version :: "(bytes, key_index) btree_map \<Rightarrow> bytes \<Rightarrow> val \<Rightarrow> bool" where
  "other_version idx key v =
     (case Option.bind (bt_get idx key) (\<lambda>e. bt_get (ki_held e) (vl_dot v)) of
        None \<Rightarrow> False
      | Some versions \<Rightarrow> list_ex (\<lambda>u. vl_hlc u \<noteq> vl_hlc v \<or> \<not> bytes_ct_eq (vl_value u) (vl_value v)) versions)"

definition purge_context :: "item_state \<Rightarrow> version_vector" where
  "purge_context s = (case st_shape s of ShTomb t \<Rightarrow> tb_c t | ShLive _ \<Rightarrow> vv_new)"

definition explain_purges ::
  "item_state \<Rightarrow> item_state \<Rightarrow> (dot, held_op) btree_map \<Rightarrow> evidence \<Rightarrow> version_vector" where
  "explain_purges x y bodies ev =
     fold (\<lambda>(d, header) explain.
         if vv_covers (st_vv x) d \<and> \<not> vv_covers (st_vv y) d \<and> \<not> known_write bodies d
         then vv_join explain (hf_context header) else explain)
       (bt_entries (ev_headers ev)) vv_new"

text \<open>One direction: the values of \<open>x\<close> against \<open>y\<close>, then the purge context of \<open>x\<close> against the values
  of \<open>y\<close>.\<close>

definition disagreements_of ::
  "item_state \<Rightarrow> item_state \<Rightarrow> (bytes, key_index) btree_map \<Rightarrow> (dot, held_op) btree_map \<Rightarrow> evidence \<Rightarrow> dot list" where
  "disagreements_of x y y_idx bodies ev =
     concat (map (\<lambda>(key, v).
         (if vv_covers (st_vv y) (vl_dot v) \<and> \<not> accounts_for y y_idx key v then [vl_dot v] else []) @
         (if other_version y_idx key v then [vl_dot v] else [])) (state_values x)) @
     (let cx = purge_context x; cy = purge_context y; explain = explain_purges x y bodies ev
      in map (\<lambda>(_, v). vl_dot v) (filter (\<lambda>(key, v).
           \<not> (bytes_is_lifecycle_key key \<or> \<not> vv_covers cx (vl_dot v) \<or> vv_covers cy (vl_dot v)) \<and>
           \<not> vv_covers explain (vl_dot v)) (state_values y)))"

definition shape_disagreements :: "item_state \<Rightarrow> item_state \<Rightarrow> dot list" where
  "shape_disagreements local taken =
     (case (st_shape local, st_shape taken) of
        (ShLive l, ShTomb t) \<Rightarrow>
          if vv_covers (st_vv local) (pr_dot (tb_purge t)) \<and> \<not> bt_is_empty (lv_regs l) then [pr_dot (tb_purge t)] else []
      | (ShTomb t, ShLive l) \<Rightarrow>
          if vv_covers (st_vv taken) (pr_dot (tb_purge t)) \<and> \<not> bt_is_empty (lv_regs l) then [pr_dot (tb_purge t)] else []
      | (ShTomb a, ShTomb b) \<Rightarrow>
          if pr_dot (tb_purge a) = pr_dot (tb_purge b) \<and> tb_purge a \<noteq> tb_purge b then [pr_dot (tb_purge a)] else []
      | (ShLive _, ShLive _) \<Rightarrow> [])"

definition disagreements ::
  "item_state \<Rightarrow> item_state \<Rightarrow> (dot, held_op) btree_map \<Rightarrow> evidence \<Rightarrow> dot list" where
  "disagreements local taken bodies ev =
     (let local_idx = state_index local ev; taken_idx = state_index taken ev
      in dedup (sort (disagreements_of local taken taken_idx bodies ev @
           disagreements_of taken local local_idx bodies ev @ shape_disagreements local taken)))"

end
