(* ===== verification/Item_Display.thy ===== *)
theory Item_Display
  imports Item_Values
begin

text \<open>
  What a register shows, and item times (\<open>rizzy-core/src/item/display.rs\<close>): the highest-ranked
  non-empty value displays, Active wins over a concurrent Trashed value, and every time comes
  from the clocks of the values.
\<close>

section \<open>Candidates\<close>

definition DEFAULT_TRASH_RETENTION_MS :: u64 where
  "DEFAULT_TRASH_RETENTION_MS = 30 * 24 * 60 * 60 * 1000"

record candidate =
  cd_hlc :: u64
  cd_device_id :: device_id
  cd_seq :: u64
  cd_value :: bytes

definition candidate_rank :: "candidate \<Rightarrow> u64 \<times> device_id \<times> u64" where
  "candidate_rank c = (cd_hlc c, cd_device_id c, cd_seq c)"

record field_display =
  fd_displayed :: usize
  fd_conflict :: bool
  fd_cleared_by :: "usize option"

text \<open>\<open>Iterator::max_by\<close>: of several equal maxima the last is returned.\<close>

definition max_by :: "('a \<Rightarrow> 'b :: linorder) \<Rightarrow> 'a list \<Rightarrow> 'a option" where
  "max_by f xs =
     fold (\<lambda>x best. case best of None \<Rightarrow> Some x | Some b \<Rightarrow> if f b \<le> f x then Some x else Some b) xs None"

definition highest :: "candidate list \<Rightarrow> (candidate \<Rightarrow> bool) \<Rightarrow> usize option" where
  "highest values keep =
     map_option fst (max_by (\<lambda>(_, c). candidate_rank c)
       (filter (\<lambda>(_, c). keep c) (zip [0..<length values] values)))"

definition resolve_field :: "candidate list \<Rightarrow> field_display option" where
  "resolve_field values =
     (let best_non_empty = highest values (\<lambda>c. cd_value c \<noteq> []);
          best_cleared = highest values (\<lambda>c. cd_value c = [])
      in case (case best_non_empty of Some i \<Rightarrow> Some i | None \<Rightarrow> best_cleared) of
           None \<Rightarrow> None
         | Some displayed \<Rightarrow>
             if displayed < length values then
               let shown = cd_value (values ! displayed)
               in Some \<lparr> fd_displayed = displayed,
                         fd_conflict = list_ex (\<lambda>c. cd_value c \<noteq> shown) values,
                         fd_cleared_by = (if shown = [] then None else best_cleared) \<rparr>
             else None)"

definition displayed_value :: "expected \<Rightarrow> candidate list \<Rightarrow> value_ref option" where
  "displayed_value ex values =
     (case resolve_field values of
        None \<Rightarrow> None
      | Some d \<Rightarrow>
          if fd_displayed d < length values then read_value ex (cd_value (values ! fd_displayed d)) else None)"

section \<open>Lifecycle\<close>

datatype shown_lifecycle = ShownActive | ShownTrashed

record lifecycle_display =
  ld_shown :: shown_lifecycle
  ld_displayed :: usize
  ld_trashed_by :: "usize option"

definition resolve_lifecycle :: "candidate list \<Rightarrow> lifecycle_display option" where
  "resolve_lifecycle values =
     (let active = highest values (\<lambda>c. cd_value c = [0x01]);
          trashed = highest values (\<lambda>c. cd_value c = [0x02])
      in case (active, trashed) of
           (Some displayed, trashed_by) \<Rightarrow>
             Some \<lparr> ld_shown = ShownActive, ld_displayed = displayed, ld_trashed_by = trashed_by \<rparr>
         | (None, Some displayed) \<Rightarrow>
             Some \<lparr> ld_shown = ShownTrashed, ld_displayed = displayed, ld_trashed_by = None \<rparr>
         | (None, None) \<Rightarrow> None)"

section \<open>Times\<close>

definition hlc_ms :: "u64 \<Rightarrow> u64" where
  "hlc_ms h = drop_bit 16 h"

definition created_ms :: "candidate list \<Rightarrow> candidate list \<Rightarrow> u64 option" where
  "created_ms item_type import_created =
     (case displayed_value ExU64 import_created of
        Some (VU64 ms) \<Rightarrow> Some ms
      | _ \<Rightarrow> map_option hlc_ms (min_opt (map cd_hlc item_type)))"

definition modified_ms :: "(bytes \<times> candidate list) list \<Rightarrow> u64 option" where
  "modified_ms registers =
     map_option hlc_ms
       (max_opt (concat (map (\<lambda>(_, values). map cd_hlc values)
         (filter (\<lambda>(key, _). key \<noteq> LIFECYCLE_KEY) registers))))"

definition trashed_at_ms :: "candidate list \<Rightarrow> u64 option" where
  "trashed_at_ms lifecycle =
     (case resolve_lifecycle lifecycle of
        None \<Rightarrow> None
      | Some shown \<Rightarrow>
          if ld_shown shown \<noteq> ShownTrashed then None
          else map_option hlc_ms (max_opt (map cd_hlc (filter (\<lambda>c. cd_value c = [0x02]) lifecycle))))"

definition purge_due_ms :: "u64 \<Rightarrow> u64 \<Rightarrow> u64" where
  "purge_due_ms trashed_at retention = u64_saturating_add trashed_at retention"

section \<open>The highest candidate\<close>

lemma max_by_aux:
  "fold (\<lambda>x best. case best of None \<Rightarrow> Some x | Some b \<Rightarrow> if f b \<le> f x then Some x else Some b) xs (Some b) =
     Some y \<Longrightarrow> y \<in> insert b (set xs) \<and> (f b :: 'b :: linorder) \<le> f y \<and> (\<forall>x \<in> set xs. f x \<le> f y)"
proof (induction xs arbitrary: b)
  case (Cons x xs)
  show ?case
  proof (cases "f b \<le> f x")
    case True
    with Cons.prems Cons.IH [of x] show ?thesis using order_trans [of "f b" "f x" "f y"] by auto
  next
    case False
    with Cons.prems Cons.IH [of b] show ?thesis by auto
  qed
qed simp

lemma max_by_aux_Some:
  "\<exists>y. fold (\<lambda>x best. case best of None \<Rightarrow> Some x | Some b \<Rightarrow> if f b \<le> f x then Some x else Some b) xs (Some b) = Some y"
  by (induction xs arbitrary: b) auto

lemma max_by_None: "max_by f xs = None \<longleftrightarrow> xs = []"
  using max_by_aux_Some [of f "tl xs" "hd xs"] by (cases xs) (auto simp: max_by_def)

lemma max_by_Some: "max_by f xs = Some y \<Longrightarrow> y \<in> set xs \<and> (\<forall>x \<in> set xs. f x \<le> f y)"
  using max_by_aux [of f "tl xs" "hd xs" y] by (cases xs) (auto simp: max_by_def)

lemma indexed_set: "(i, c) \<in> set (zip [0..<length xs] xs) \<longleftrightarrow> i < length xs \<and> xs ! i = c"
  by (force simp: set_zip)

lemma highest_None: "highest values keep = None \<longleftrightarrow> (\<forall>c \<in> set values. \<not> keep c)"
proof -
  have "highest values keep = None \<longleftrightarrow> (\<forall>i < length values. \<not> keep (values ! i))"
    by (auto simp: highest_def max_by_None filter_empty_conv set_zip)
  then show ?thesis by (simp add: all_set_conv_all_nth)
qed

lemma highest_Some:
  assumes "highest values keep = Some i"
  shows "i < length values" "keep (values ! i)"
    "c \<in> set values \<Longrightarrow> keep c \<Longrightarrow> candidate_rank c \<le> candidate_rank (values ! i)"
proof -
  obtain b where b: "max_by (\<lambda>(_, c). candidate_rank c) (filter (\<lambda>(_, c). keep c) (zip [0..<length values] values)) = Some (i, b)"
    using assms by (auto simp: highest_def)
  note m = max_by_Some [OF this]
  then show "i < length values" "keep (values ! i)" by (auto simp: indexed_set)
  assume c: "c \<in> set values" "keep c"
  then obtain j where "j < length values" "values ! j = c" by (auto simp: in_set_conv_nth)
  then have "(j, c) \<in> set (filter (\<lambda>(_, c). keep c) (zip [0..<length values] values))"
    using c(2) by (simp add: indexed_set)
  with m show "candidate_rank c \<le> candidate_rank (values ! i)" by (auto simp: indexed_set)
qed

text \<open>What a field displays. A register shows nothing only when it is empty; otherwise it shows a
  value at a valid index that is empty only if every value is, and outranks every value of the
  same kind; it is a conflict exactly when the values are not all the same, and a clear is
  reported exactly when a non-empty value shows over an empty one.\<close>
theorem resolve_field_rule:
  "case resolve_field values of
     None \<Rightarrow> values = []
   | Some d \<Rightarrow>
       let shown = values ! fd_displayed d; all = cd_value ` set values in
       fd_displayed d < length values \<and>
       (cd_value shown = []) = (all = {[]}) \<and>
       {c \<in> set values. (cd_value c = []) = (cd_value shown = [])} \<subseteq>
         {c. candidate_rank c \<le> candidate_rank shown} \<and>
       fd_conflict d = (all \<noteq> {cd_value shown}) \<and>
       (fd_cleared_by d \<noteq> None) = ([] \<in> all \<and> all \<noteq> {[]})"
proof (cases "resolve_field values")
  case None
  let ?full = "highest values (\<lambda>c. cd_value c \<noteq> [])" and ?mt = "highest values (\<lambda>c. cd_value c = [])"
  have "?full = None" "?mt = None"
    using None highest_Some(1) [of "values"] by (auto simp: resolve_field_def Let_def split: option.splits if_splits)
  then have "set values = {}" by (auto simp: highest_None)
  with None show ?thesis by simp
next
  case (Some d)
  let ?full = "highest values (\<lambda>c. cd_value c \<noteq> [])" and ?mt = "highest values (\<lambda>c. cd_value c = [])"
  let ?i = "fd_displayed d" and ?all = "cd_value ` set values"
  let ?shown = "values ! ?i"
  have d: "?full = Some ?i \<or> ?full = None \<and> ?mt = Some ?i" "?i < length values"
    "fd_conflict d \<longleftrightarrow> list_ex (\<lambda>c. cd_value c \<noteq> cd_value ?shown) values"
    "fd_cleared_by d = (if cd_value ?shown = [] then None else ?mt)"
    using Some by (auto simp: resolve_field_def Let_def split: option.splits if_splits)
  have mem: "?shown \<in> set values" using d(2) by simp
  have empty: "cd_value ?shown = [] \<longleftrightarrow> ?all = {[]}"
    using d(1) highest_Some(2) [of "values" _ ?i] mem by (auto simp: highest_None)
  have "{c \<in> set values. (cd_value c = []) = (cd_value ?shown = [])} \<subseteq> {c. candidate_rank c \<le> candidate_rank ?shown}"
    using d(1) highest_Some(2,3) [of "values" _ ?i] by (auto simp: highest_None)
  moreover have "fd_conflict d \<longleftrightarrow> ?all \<noteq> {cd_value ?shown}"
    using mem by (auto simp: d(3) list_ex_iff)
  moreover have "fd_cleared_by d \<noteq> None \<longleftrightarrow> [] \<in> ?all \<and> ?all \<noteq> {[]}"
  proof -
    have "?mt \<noteq> None \<longleftrightarrow> (\<exists>c \<in> set values. cd_value c = [])" unfolding highest_None by blast
    moreover have "(\<exists>c \<in> set values. cd_value c = []) \<longleftrightarrow> [] \<in> ?all" by force
    ultimately have "?mt \<noteq> None \<longleftrightarrow> [] \<in> ?all" by simp
    then show ?thesis using empty by (auto simp: d(4))
  qed
  ultimately show ?thesis using d(2) empty by (simp add: Some Let_def)
qed

text \<open>Active wins. The lifecycle register shows Active exactly when one of its values is Active,
  Trashed exactly when some value is Trashed and none Active; the value shown is the highest of
  its kind, and the Trashed value an Active one won over is reported.\<close>
theorem active_wins:
  "map_option ld_shown (resolve_lifecycle values) =
     (if [0x01] \<in> cd_value ` set values then Some ShownActive
      else if [0x02] \<in> cd_value ` set values then Some ShownTrashed else None) \<and>
   (case resolve_lifecycle values of
      None \<Rightarrow> True
    | Some d \<Rightarrow>
        ld_displayed d < length values \<and>
        (ld_trashed_by d \<noteq> None) = (ld_shown d = ShownActive \<and> [0x02] \<in> cd_value ` set values))"
proof -
  let ?on = "highest values (\<lambda>c. cd_value c = [0x01])" and ?off = "highest values (\<lambda>c. cd_value c = [0x02])"
  have "?on = None \<longleftrightarrow> [0x01] \<notin> cd_value ` set values" "?off = None \<longleftrightarrow> [0x02] \<notin> cd_value ` set values"
    by (auto simp: highest_None image_iff)
  then show ?thesis
    using highest_Some(1) [of "values"]
    by (cases ?on; cases ?off) (auto simp: resolve_lifecycle_def Let_def)
qed

end
