(* ===== verification/Item_Merge.thy ===== *)
theory Item_Merge
  imports Merge_Evidence Item_Display
begin

text \<open>
  The per-item merge (\<open>rizzy-sync/src/merge.rs\<close>): one item's state on one replica, with the
  headers, bodies, retained ops and newest-snapshot basis it keeps, and every operation on it.
  An operation returns the new merge beside its result; where the source returns an error after
  changing something (a recorded header), the changed merge is returned with the error.
\<close>

section \<open>Inputs and results\<close>

definition SNAPSHOT_AFTER_OPS :: u64 where "SNAPSHOT_AFTER_OPS = 32"

definition TRASH_RETENTION_MS :: u64 where "TRASH_RETENTION_MS = DEFAULT_TRASH_RETENTION_MS"

record op_input =
  oi_header :: op_header
  oi_key_id :: id16
  oi_data :: op_data

record snapshot_input =
  si_header :: snapshot_header
  si_data :: snapshot_data

record own_write =
  ow_fresh_item_key :: bool
  ow_holds_unapplied_record :: bool

datatype apply_kind = KApplied | KCoveredMerged | KDuplicate

datatype snapshot_trigger =
    OpCount | FreshItemKey | AfterPurge | MergedAfterConcurrentAbsorption | ReplacesDiscarded

record reissue =
  ri_fresh_item_key :: bool
  ri_discarded_unsent_snapshot :: bool

record applied =
  ap_kind :: apply_kind
  ap_receive_hlc :: "hlc option"
  ap_snapshot_due :: "snapshot_trigger option"

record absorbed =
  ab_relation :: vv_ordering
  ab_receive_hlc :: "hlc option"
  ab_disagreements :: "dot list"
  ab_ignored_values :: "dot list"

datatype absorb_outcome = Absorbed absorbed | Refused refusal

record absorption =
  an_outcome :: absorb_outcome
  an_claim_cuts :: "claim_cut list"

datatype no_snapshot = NoAbsent | NoUnresolved | NoOversize | NoUnencodable

record written_snapshot =
  ws_covered :: version_vector
  ws_data :: bytes

datatype item_lifecycle = LcAbsent | LcActive | LcTrashed | LcPurged

record item_times =
  it_created_ms :: "u64 option"
  it_modified_ms :: "u64 option"
  it_trashed_at_ms :: "u64 option"

record field_view =
  fv_key :: field_key
  fv_current :: "entry list"
  fv_history :: "entry list"
  fv_display :: "field_display option"

fun is_limit :: "record_error_kind \<Rightarrow> bool" where
  "is_limit DataTooLong = True"
| "is_limit CountTooLarge = True"
| "is_limit ValueTooLong = True"
| "is_limit KeyLength = True"
| "is_limit _ = False"

definition candidates :: "val list \<Rightarrow> candidate list" where
  "candidates vs =
     map (\<lambda>v. \<lparr> cd_hlc = vl_hlc v, cd_device_id = dot_device (vl_dot v), cd_seq = dot_seq (vl_dot v),
                cd_value = vl_value v \<rparr>) vs"

section \<open>The merge\<close>

record item_merge =
  im_item_id :: id16
  im_state :: item_state
  im_headers :: "(dot, header_facts) btree_map"
  im_bodies :: "(dot, held_op) btree_map"
  im_merged :: "dot btree_set"
  im_retained :: "(dot, held_op) btree_map"
  im_base :: item_state
  im_ops_since_snapshot :: u64
  im_merge_due :: bool
  im_unresolved :: "dot btree_set"
  im_surfaced :: "dot btree_set"
  im_wrap_keys :: "bytes btree_set"

definition item_merge_new :: "id16 \<Rightarrow> item_merge" where
  "item_merge_new item_id =
     \<lparr> im_item_id = item_id, im_state = state_default, im_headers = bt_empty, im_bodies = bt_empty,
       im_merged = bt_empty, im_retained = bt_empty, im_base = state_default, im_ops_since_snapshot = 0,
       im_merge_due = False, im_unresolved = bt_empty, im_surfaced = bt_empty, im_wrap_keys = bt_empty \<rparr>"

definition im_evidence :: "item_merge \<Rightarrow> evidence" where
  "im_evidence m = \<lparr> ev_headers = im_headers m, ev_wrap_keys = im_wrap_keys m \<rparr>"

definition check_record :: "item_merge \<Rightarrow> id16 \<Rightarrow> item_schema_version \<Rightarrow> merge_error + unit" where
  "check_record m item_id version =
     (if item_id \<noteq> im_item_id m then Inl WrongItem
      else if version \<noteq> isv_v1 then Inl UnsupportedSchema
      else Inr ())"

definition record_header :: "item_merge \<Rightarrow> op_header \<Rightarrow> merge_error + item_merge" where
  "record_header m header =
     and_then (check_record m (oh_item_id header) (oh_item_schema_version header)) (\<lambda>_.
     let facts = \<lparr> hf_hlc = oh_hlc header, hf_context = oh_causal_context header \<rparr>
     in case bt_get (im_headers m) (oh_dot header) of
          None \<Rightarrow> Inr (m\<lparr> im_headers := bt_insert (oh_dot header) facts (im_headers m) \<rparr>)
        | Some held \<Rightarrow> if held = facts then Inr m else Inl (HeaderConflict (oh_dot header)))"

definition add_item_key :: "item_merge \<Rightarrow> id16 \<Rightarrow> item_merge" where
  "add_item_key m key_id = m\<lparr> im_wrap_keys := bs_insert (id_bytes key_id) (im_wrap_keys m) \<rparr>"

definition is_ready :: "item_merge \<Rightarrow> op_header \<Rightarrow> bool" where
  "is_ready m header \<longleftrightarrow>
     vv_covers (st_vv (im_state m)) (oh_dot header) \<or>
     vv_compare (oh_causal_context header) (st_vv (im_state m)) \<in> {VvLess, VvEqual}"

definition merge_body :: "item_merge \<Rightarrow> op_input \<Rightarrow> (merge_error + apply_kind) \<times> item_merge" where
  "merge_body m op =
     (case record_header m (oi_header op) of
        Inl e \<Rightarrow> (Inl e, m)
      | Inr m \<Rightarrow>
          let d = oh_dot (oi_header op)
          in if bs_contains (im_merged m) d then (Inr KDuplicate, m)
             else if \<not> is_ready m (oi_header op) then (Inl (NotReady d), m)
             else
               let held = held_op_new (oi_header op) (oi_key_id op) (oi_data op);
                   fresh = \<not> vv_covers (st_vv (im_state m)) d;
                   m = m\<lparr> im_state := join_into (im_state m) (singleton held) (im_evidence m),
                          im_merged := bs_insert d (im_merged m),
                          im_bodies := bt_insert d held (im_bodies m),
                          im_retained := bt_insert d held (im_retained m) \<rparr>
               in if fresh
                  then (Inr KApplied, m\<lparr> im_ops_since_snapshot := u64_saturating_add (im_ops_since_snapshot m) 1 \<rparr>)
                  else (Inr KCoveredMerged, m))"

definition apply_op :: "item_merge \<Rightarrow> op_input \<Rightarrow> (merge_error + applied) \<times> item_merge" where
  "apply_op m op =
     (case merge_body m op of
        (Inl e, m) \<Rightarrow> (Inl e, m)
      | (Inr kind, m) \<Rightarrow>
          (Inr \<lparr> ap_kind = kind,
                 ap_receive_hlc = (if kind = KApplied then Some (oh_hlc (oi_header op)) else None),
                 ap_snapshot_due = None \<rparr>, m))"

definition lifecycle_values :: "item_merge \<Rightarrow> val list" where
  "lifecycle_values m =
     (case st_shape (im_state m) of
        ShLive l \<Rightarrow> vals_at (lv_regs l) LIFECYCLE_KEY
      | ShTomb _ \<Rightarrow> [])"

definition im_lifecycle_display :: "item_merge \<Rightarrow> lifecycle_display option" where
  "im_lifecycle_display m = resolve_lifecycle (candidates (lifecycle_values m))"

definition im_lifecycle :: "item_merge \<Rightarrow> item_lifecycle" where
  "im_lifecycle m =
     (if state_is_tomb (im_state m) then LcPurged
      else case map_option ld_shown (im_lifecycle_display m) of
             Some ShownActive \<Rightarrow> LcActive
           | Some ShownTrashed \<Rightarrow> LcTrashed
           | None \<Rightarrow> LcAbsent)"

definition may_purge :: "item_merge \<Rightarrow> bool \<Rightarrow> bool" where
  "may_purge m holds_unapplied_record \<longleftrightarrow> \<not> holds_unapplied_record \<and> im_lifecycle m = LcTrashed"

definition apply_own_op :: "item_merge \<Rightarrow> op_input \<Rightarrow> own_write \<Rightarrow> (merge_error + applied) \<times> item_merge" where
  "apply_own_op m op own =
     (case check_record m (oh_item_id (oi_header op)) (oh_item_schema_version (oi_header op)) of
        Inl e \<Rightarrow> (Inl e, m)
      | Inr _ \<Rightarrow>
          let d = oh_dot (oi_header op); purge = (op_lifecycle (oi_data op) = Purge)
          in if oh_causal_context (oi_header op) \<noteq> st_vv (im_state m) \<or> vv_covers (st_vv (im_state m)) d
             then (Inl (NotCurrent d), m)
             else if purge \<and> \<not> may_purge m (ow_holds_unapplied_record own) then (Inl WriterRule, m)
             else
               case merge_body m op of
                 (Inl e, m) \<Rightarrow> (Inl e, m)
               | (Inr kind, m) \<Rightarrow>
                   (Inr \<lparr> ap_kind = kind, ap_receive_hlc = None,
                          ap_snapshot_due =
                            (if ow_fresh_item_key own then Some FreshItemKey
                             else if purge then Some AfterPurge
                             else if im_ops_since_snapshot m > SNAPSHOT_AFTER_OPS then Some OpCount
                             else None) \<rparr>, m))"

fun learn_bodies :: "item_merge \<Rightarrow> op_input list \<Rightarrow> (merge_error + unit) \<times> item_merge" where
  "learn_bodies m [] = (Inr (), m)"
| "learn_bodies m (op # ops) =
     (case record_header m (oi_header op) of
        Inl e \<Rightarrow> (Inl e, m)
      | Inr m \<Rightarrow>
          let held = held_op_new (oi_header op) (oi_key_id op) (oi_data op)
          in learn_bodies (m\<lparr> im_bodies := bt_insert (ho_dot held) held (im_bodies m) \<rparr>) ops)"

definition fold_op :: "evidence \<Rightarrow> dot \<Rightarrow> item_merge \<Rightarrow> item_merge" where
  "fold_op ev d m =
     (case bt_get (im_retained m) d of
        None \<Rightarrow> m
      | Some op \<Rightarrow>
          m\<lparr> im_retained := bt_remove d (im_retained m),
             im_base := join_into (im_base m) (singleton op) ev \<rparr>)"

definition absorb_taken :: "item_merge \<Rightarrow> evidence \<Rightarrow> item_state \<Rightarrow> item_merge" where
  "absorb_taken m ev taken =
     (let m = m\<lparr> im_state := join_into (im_state m) taken ev, im_base := join_into (im_base m) taken ev \<rparr>;
          folded = filter (vv_covers (st_vv (im_base m))) (bt_keys (im_retained m))
      in fold (fold_op ev) folded m)"

definition absorb_snapshot ::
  "item_merge \<Rightarrow> snapshot_input \<Rightarrow> op_input list \<Rightarrow> (merge_error + absorption) \<times> item_merge" where
  "absorb_snapshot m snapshot with_ops =
     (let header = si_header snapshot in
      case check_record m (sh_item_id header) (sh_item_schema_version header) of
        Inl e \<Rightarrow> (Inl e, m)
      | Inr _ \<Rightarrow>
          (case learn_bodies m with_ops of
             (Inl e, m) \<Rightarrow> (Inl e, m)
           | (Inr _, m) \<Rightarrow>
               let ev = im_evidence m;
                   hds = heads ev;
                   cuts = claim_cuts (sh_covered header) hds (sh_author header);
                   offered = state_from_snapshot (sh_covered header) (si_data snapshot)
               in case cut_snapshot offered hds ev of
                    Inl r \<Rightarrow> (Inr \<lparr> an_outcome = Refused r, an_claim_cuts = cuts \<rparr>, m)
                  | Inr c \<Rightarrow>
                      (case contradiction (cut_state c) (im_bodies m) ev of
                         Some r \<Rightarrow> (Inr \<lparr> an_outcome = Refused r, an_claim_cuts = cuts \<rparr>, m)
                       | None \<Rightarrow>
                           let dis = disagreements (im_state m) (cut_state c) (im_bodies m) ev;
                               relation = vv_compare (st_vv (cut_state c)) (st_vv (im_state m));
                               receive = state_max_hlc (cut_state c);
                               taken = normalize (cut_state c) ev;
                               m = absorb_taken m ev taken;
                               m = m\<lparr> im_unresolved := bs_extend dis (im_unresolved m) \<rparr>;
                               m = (if relation = VvConcurrent then m\<lparr> im_merge_due := True \<rparr> else m)
                           in (Inr \<lparr> an_outcome = Absorbed \<lparr> ab_relation = relation, ab_receive_hlc = receive,
                                       ab_disagreements = dis, ab_ignored_values = cut_ignored c \<rparr>,
                                     an_claim_cuts = cuts \<rparr>, m))))"

definition end_fetch :: "item_merge \<Rightarrow> snapshot_trigger option \<times> item_merge" where
  "end_fetch m =
     ((if im_merge_due m then Some MergedAfterConcurrentAbsorption else None), m\<lparr> im_merge_due := False \<rparr>)"

definition im_encode :: "item_merge \<Rightarrow> no_snapshot + bytes" where
  "im_encode m =
     and_then (map_err (\<lambda>_. NoUnencodable) (state_snapshot_data (im_state m))) (\<lambda>data.
     and_then (ok_or NoAbsent data) (\<lambda>data.
     map_err (\<lambda>e. if is_limit (re_kind e) then NoOversize else NoUnencodable)
       (encode_snapshot (st_vv (im_state m)) data)))"

definition im_is_oversize :: "item_merge \<Rightarrow> bool" where
  "im_is_oversize m \<longleftrightarrow> im_encode m = Inl NoOversize"

definition write_snapshot :: "item_merge \<Rightarrow> (no_snapshot + written_snapshot) \<times> item_merge" where
  "write_snapshot m =
     (if state_is_absent (im_state m) then (Inl NoAbsent, m)
      else if \<not> bt_is_empty (im_unresolved m) then (Inl NoUnresolved, m)
      else case im_encode m of
        Inl e \<Rightarrow> (Inl e, m)
      | Inr data \<Rightarrow>
          (Inr \<lparr> ws_covered = st_vv (im_state m), ws_data = data \<rparr>,
           m\<lparr> im_base := im_state m, im_retained := bt_empty, im_ops_since_snapshot := 0 \<rparr>))"

definition set_purge_key :: "dot \<Rightarrow> id16 \<Rightarrow> item_state \<Rightarrow> item_state" where
  "set_purge_key d key_id s =
     (case st_shape s of
        ShTomb t \<Rightarrow>
          if pr_dot (tb_purge t) = d
          then s\<lparr> st_shape := ShTomb (t\<lparr> tb_purge := (tb_purge t)\<lparr> pr_key_id := key_id \<rparr> \<rparr>) \<rparr>
          else s
      | ShLive _ \<Rightarrow> s)"

definition set_op_key :: "dot \<Rightarrow> id16 \<Rightarrow> (dot, held_op) btree_map \<Rightarrow> (dot, held_op) btree_map" where
  "set_op_key d key_id ops =
     (case bt_get ops d of None \<Rightarrow> ops | Some op \<Rightarrow> bt_insert d (op\<lparr> ho_key_id := key_id \<rparr>) ops)"

definition reissue_own_op ::
  "item_merge \<Rightarrow> op_header \<Rightarrow> id16 \<Rightarrow> reissue \<Rightarrow> (merge_error + snapshot_trigger option) \<times> item_merge" where
  "reissue_own_op m header key_id ri =
     (case check_record m (oh_item_id header) (oh_item_schema_version header) of
        Inl e \<Rightarrow> (Inl e, m)
      | Inr _ \<Rightarrow>
          let d = oh_dot header;
              same = (case bt_get (im_headers m) d of
                        None \<Rightarrow> False
                      | Some h \<Rightarrow> hf_hlc h = oh_hlc header \<and> hf_context h = oh_causal_context header)
          in if \<not> same \<or> \<not> bs_contains (im_merged m) d then (Inl (UnknownOp d), m)
             else
               (Inr (if ri_fresh_item_key ri then Some FreshItemKey
                     else if ri_discarded_unsent_snapshot ri then Some ReplacesDiscarded
                     else None),
                m\<lparr> im_bodies := set_op_key d key_id (im_bodies m),
                   im_retained := set_op_key d key_id (im_retained m),
                   im_state := set_purge_key d key_id (im_state m),
                   im_base := set_purge_key d key_id (im_base m) \<rparr>))"

section \<open>Queries\<close>

definition im_canonical_state :: "item_merge \<Rightarrow> merge_error + bytes option" where
  "im_canonical_state m =
     and_then (state_snapshot_data (im_state m)) (\<lambda>data.
     case data of
       None \<Rightarrow> Inr None
     | Some data \<Rightarrow> map_err RecordRefused (map_sum id Some (canonical_state (st_vv (im_state m)) data)))"

definition im_snapshot_data :: "item_merge \<Rightarrow> merge_error + snapshot_data option" where
  "im_snapshot_data m = state_snapshot_data (im_state m)"

definition basis_covered :: "item_merge \<Rightarrow> version_vector" where
  "basis_covered m = st_vv (im_base m)"

definition basis_data :: "item_merge \<Rightarrow> merge_error + snapshot_data option" where
  "basis_data m = state_snapshot_data (im_base m)"

definition unresolved :: "item_merge \<Rightarrow> dot list" where
  "unresolved m = bt_keys (im_unresolved m)"

definition retained_ops :: "item_merge \<Rightarrow> dot list" where
  "retained_ops m = bt_keys (im_retained m)"

definition im_field :: "item_merge \<Rightarrow> bytes \<Rightarrow> field_view option" where
  "im_field m key =
     (let (rs, hs) = (case st_shape (im_state m) of ShLive l \<Rightarrow> (lv_regs l, lv_hist l) | ShTomb t \<Rightarrow> (tb_late t, bt_empty))
      in case bt_get rs key of
           None \<Rightarrow> None
         | Some current \<Rightarrow>
             (case held_field_key key of
                Inl _ \<Rightarrow> None
              | Inr k \<Rightarrow>
                  Some \<lparr> fv_key = k, fv_current = map val_entry current, fv_history = map val_entry (vals_at hs key),
                         fv_display = resolve_field (candidates current) \<rparr>))"

definition ITEM_TYPE :: bytes where
  "ITEM_TYPE = [0x69, 0x74, 0x65, 0x6D, 0x2E, 0x74, 0x79, 0x70, 0x65]"

definition IMPORT_CREATED_MS :: bytes where
  "IMPORT_CREATED_MS =
     [0x69, 0x6D, 0x70, 0x6F, 0x72, 0x74, 0x2E, 0x63, 0x72, 0x65, 0x61, 0x74, 0x65, 0x64, 0x5F, 0x6D, 0x73]"

definition im_times :: "item_merge \<Rightarrow> item_times" where
  "im_times m =
     (case st_shape (im_state m) of
        ShTomb _ \<Rightarrow> \<lparr> it_created_ms = None, it_modified_ms = None, it_trashed_at_ms = None \<rparr>
      | ShLive l \<Rightarrow>
          let reg = (\<lambda>key. candidates (vals_at (lv_regs l) key))
          in \<lparr> it_created_ms = created_ms (reg ITEM_TYPE) (reg IMPORT_CREATED_MS),
               it_modified_ms = modified_ms (map (\<lambda>(k, vs). (k, candidates vs)) (bt_entries (lv_regs l))),
               it_trashed_at_ms = trashed_at_ms (reg LIFECYCLE_KEY) \<rparr>)"

definition purge_due :: "item_merge \<Rightarrow> u64 \<Rightarrow> u64 \<Rightarrow> bool \<Rightarrow> bool" where
  "purge_due m now_ms retention_ms holds_unapplied_record \<longleftrightarrow>
     may_purge m holds_unapplied_record \<and>
     (case it_trashed_at_ms (im_times m) of None \<Rightarrow> False | Some at' \<Rightarrow> purge_due_ms at' retention_ms \<le> now_ms)"

definition late_values_to_surface :: "item_merge \<Rightarrow> dot list" where
  "late_values_to_surface m =
     (case st_shape (im_state m) of
        ShTomb t \<Rightarrow>
          dedup (sort (filter (\<lambda>d. \<not> bs_contains (im_surfaced m) d)
            (map vl_dot (concat (bt_values (tb_late t))))))
      | ShLive _ \<Rightarrow> [])"

definition mark_surfaced :: "item_merge \<Rightarrow> item_merge" where
  "mark_surfaced m = m\<lparr> im_surfaced := bs_extend (late_values_to_surface m) (im_surfaced m) \<rparr>"

end
