(* ===== verification/Item_Replicas.thy ===== *)
theory Item_Replicas
  imports Item_Merge
begin

text \<open>
  Replicas of one item that follow the protocol. The ops of the item's devices form a set in
  which a dot names one op and contexts are causal; a replica records headers, applies ops and
  absorbs the snapshots other such replicas write, in any order. The state of each is then a
  function of the ops it covers.
\<close>

section \<open>The ops of an item\<close>

definition held :: "op_input \<Rightarrow> held_op" where
  "held op = held_op_new (oi_header op) (oi_key_id op) (oi_data op)"

abbreviation op_dot :: "op_input \<Rightarrow> dot" where "op_dot op \<equiv> oh_dot (oi_header op)"
abbreviation op_ctx :: "op_input \<Rightarrow> version_vector" where "op_ctx op \<equiv> oh_causal_context (oi_header op)"

definition op_header_facts :: "op_input \<Rightarrow> header_facts" where
  "op_header_facts op = \<lparr> hf_hlc = oh_hlc (oi_header op), hf_context = op_ctx op \<rparr>"

text \<open>What signed headers and the writers' own check (\<open>apply_own_op\<close> wants the covered vector as
  the context) give: a dot names one op; a context covers the contexts of the ops it covers,
  the writer's own earlier ops and never its own op; the record parser takes each key once.\<close>

definition causal_ops :: "op_input set \<Rightarrow> bool" where
  "causal_ops U \<longleftrightarrow>
     (\<forall>a \<in> U. \<forall>b \<in> U. op_dot a = op_dot b \<longrightarrow> a = b) \<and>
     (\<forall>a \<in> U. \<not> vv_covers (op_ctx a) (op_dot a)) \<and>
     (\<forall>a \<in> U. \<forall>b \<in> U. vv_covers (op_ctx a) (op_dot b) \<longrightarrow> vv_le (op_ctx b) (op_ctx a)) \<and>
     (\<forall>a \<in> U. \<forall>b \<in> U. dot_device (op_dot a) = dot_device (op_dot b) \<longrightarrow>
        dot_seq (op_dot a) < dot_seq (op_dot b) \<longrightarrow> vv_covers (op_ctx b) (op_dot a)) \<and>
     (\<forall>a \<in> U. distinct (map fst (writes_with_lifecycle (held a))))"

lemma one_op_per_dot: "causal_ops U \<Longrightarrow> a \<in> U \<Longrightarrow> b \<in> U \<Longrightarrow> op_dot a = op_dot b \<Longrightarrow> a = b"
  by (simp add: causal_ops_def)

lemma device_chain:
  "causal_ops U \<Longrightarrow> a \<in> U \<Longrightarrow> b \<in> U \<Longrightarrow> dot_device (op_dot a) = dot_device (op_dot b) \<Longrightarrow>
   dot_seq (op_dot a) < dot_seq (op_dot b) \<Longrightarrow> vv_covers (op_ctx b) (op_dot a)"
  by (simp add: causal_ops_def)

definition ops_facts :: "op_input set \<Rightarrow> fact set" where
  "ops_facts S = (\<Union>op \<in> S. op_facts (held op))"

lemma held_simps [simp]:
  "ho_dot (held op) = op_dot op" "ho_hlc (held op) = oh_hlc (oi_header op)" "ho_context (held op) = op_ctx op"
  "ho_key_id (held op) = oi_key_id op" "ho_lifecycle (held op) = op_lifecycle (oi_data op)"
  by (simp_all add: held_def held_op_new_def)

lemma ops_facts_Un: "ops_facts (S \<union> T) = ops_facts S \<union> ops_facts T" "ops_facts {op} = op_facts (held op)"
  "ops_facts {} = {}" "ops_facts (insert op S) = ops_facts S \<union> op_facts (held op)"
  by (auto simp: ops_facts_def)

lemma covered_ops: "d \<in> covered_dots (ops_facts S) \<longleftrightarrow>
    (\<exists>op \<in> S. dot_device d = dot_device (op_dot op) \<and> dot_seq d \<le> dot_seq (op_dot op))"
  by (auto simp: covered_dots_def ops_facts_def op_facts_def split: if_splits)

lemma ops_val:
  assumes "FVal k v \<in> ops_facts S"
  obtains op where "op \<in> S" "op_lifecycle (oi_data op) \<noteq> Purge" "vl_dot v = op_dot op" "vl_hlc v = oh_hlc (oi_header op)"
    "(k, vl_value v) \<in> set (writes_with_lifecycle (held op))"
  using assms by (auto simp: ops_facts_def op_facts_def split: if_splits)

lemma ops_purge:
  assumes "FPurge p c \<in> ops_facts S"
  obtains op where "op \<in> S" "op_lifecycle (oi_data op) = Purge" "c = op_ctx op"
    "p = \<lparr> pr_dot = op_dot op, pr_hlc = oh_hlc (oi_header op), pr_key_id = oi_key_id op \<rparr>"
  using assms by (auto simp: ops_facts_def op_facts_def split: if_splits)

section \<open>Evidence taken from the ops\<close>

definition headers_of :: "op_input set \<Rightarrow> (dot, header_facts) btree_map \<Rightarrow> bool" where
  "headers_of U hs \<longleftrightarrow> (\<forall>d h. bt_get hs d = Some h \<longrightarrow> (\<exists>op \<in> U. op_dot op = d \<and> h = op_header_facts op))"

lemma headers_causal:
  assumes "causal_ops U" "headers_of U (ev_headers ev)"
  shows "causal_headers ev"
proof -
  have ctx: "\<exists>op \<in> U. op_dot op = d \<and> c = op_ctx op" if "ev_context ev d = Some c" for d c
    using that assms(2) by (fastforce simp: ev_context_def headers_of_def op_header_facts_def)
  have U: "\<not> vv_covers (op_ctx a) (op_dot a)" "vv_covers (op_ctx a) (op_dot b) \<Longrightarrow> vv_le (op_ctx b) (op_ctx a)"
    if "a \<in> U" "b \<in> U" for a b using assms(1) that by (simp_all add: causal_ops_def)
  show ?thesis
    unfolding causal_headers_def using ctx U by metis
qed

definition knows :: "(dot, header_facts) btree_map \<Rightarrow> op_input set \<Rightarrow> bool" where
  "knows hs S \<longleftrightarrow> (\<forall>op \<in> S. bt_get hs (op_dot op) = Some (op_header_facts op))"

lemma knows_vouched:
  "causal_ops U \<Longrightarrow> S \<subseteq> U \<Longrightarrow> knows (ev_headers ev) S \<Longrightarrow> op \<in> S \<Longrightarrow> op_vouched ev (held op)"
  by (auto simp: op_vouched_def knows_def causal_ops_def op_header_facts_def)

lemma represents_op:
  assumes "causal_ops U" "headers_of U (ev_headers ev)" "op \<in> U" "knows (ev_headers ev) {op}"
  shows "represents ev (op_facts (held op)) (singleton (held op))"
  using represents_singleton [OF headers_causal [OF assms(1,2)]] knows_vouched [OF assms(1) _ assms(4)] assms(3) by simp

text \<open>What a state represents does not depend on which replica's evidence reads it.\<close>

lemma represents_evidence:
  assumes U: "causal_ops U" and S: "S \<subseteq> U" and rep: "represents ev (ops_facts S) s"
    and hs: "headers_of U (ev_headers ev')" and known: "knows (ev_headers ev) S" "knows (ev_headers ev') S"
  shows "represents ev' (ops_facts S) s"
proof (rule represents_agree [OF rep])
  have causal: "causal_headers ev'" by (rule headers_causal [OF U hs])
  have fin: "finite (ops_facts S)" using rep by (simp add: represents_def sound_facts_def)
  have "sound_facts ev' (op_facts (held op))" if "op \<in> S" for op
    using op_facts_sound [OF causal] knows_vouched [OF U S known(2) that] .
  then show "sound_facts ev' (ops_facts S)"
    using fin by (auto simp: sound_facts_def ops_facts_def vouched_def fact_vals_def)
  show "bt_get (ev_headers ev') (vl_dot v) = bt_get (ev_headers ev) (vl_dot v)" if v: "FVal k v \<in> ops_facts S" for k v
  proof -
    from v obtain op where "op \<in> S" "vl_dot v = op_dot op" by (rule ops_val)
    with known show ?thesis by (simp add: knows_def)
  qed
  show "p = q" if pq: "p \<in> fact_purges (ops_facts S)" "q \<in> fact_purges (ops_facts S)" "purge_rank p = purge_rank q" for p q
  proof -
    obtain a b where ab: "a \<in> S" "b \<in> S"
      "p = \<lparr> pr_dot = op_dot a, pr_hlc = oh_hlc (oi_header a), pr_key_id = oi_key_id a \<rparr>"
      "q = \<lparr> pr_dot = op_dot b, pr_hlc = oh_hlc (oi_header b), pr_key_id = oi_key_id b \<rparr>"
      using pq(1,2) by (auto simp: fact_purges_def elim!: ops_purge)
    with pq(3) have "op_dot a = op_dot b" by (simp add: purge_rank_def)
    with ab S U show ?thesis unfolding causal_ops_def by (metis subsetD)
  qed
qed

section \<open>What a replica holds\<close>

text \<open>\<open>replica_ops U m S B\<close>: replica \<open>m\<close> covers exactly the ops \<open>S\<close>, its newest-snapshot basis \<open>B\<close> of
  them, and everything it holds comes from the ops \<open>U\<close>.\<close>

definition replica_ops :: "op_input set \<Rightarrow> item_merge \<Rightarrow> op_input set \<Rightarrow> op_input set \<Rightarrow> bool" where
  "replica_ops U m S B \<longleftrightarrow>
     B \<subseteq> S \<and> S \<subseteq> U \<and> headers_of U (im_headers m) \<and> knows (im_headers m) S \<and>
     (\<forall>d b. bt_get (im_bodies m) d = Some b \<longrightarrow> (\<exists>op \<in> U. op_dot op = d \<and> b = held op)) \<and>
     (\<forall>d. bs_contains (im_merged m) d \<longrightarrow> d \<in> op_dot ` S) \<and>
     (\<forall>d b. bt_get (im_retained m) d = Some b \<longrightarrow> (\<exists>op \<in> S. op_dot op = d \<and> b = held op)) \<and>
     (\<forall>op \<in> S - B. bt_get (im_retained m) (op_dot op) = Some (held op)) \<and>
     (\<forall>op \<in> S. vv_le (op_ctx op) (st_vv (im_state m))) \<and>
     (\<forall>op \<in> S. \<forall>b \<in> U. vv_covers (op_ctx op) (op_dot b) \<longrightarrow> b \<in> S) \<and>
     represents (im_evidence m) (ops_facts S) (im_state m) \<and>
     represents (im_evidence m) (ops_facts B) (im_base m)"

lemma replica_opsD:
  assumes "replica_ops U m S B"
  shows "B \<subseteq> S" "S \<subseteq> U" "headers_of U (im_headers m)" "knows (im_headers m) S"
    "\<And>d b. bt_get (im_bodies m) d = Some b \<Longrightarrow> \<exists>op \<in> U. op_dot op = d \<and> b = held op"
    "\<And>d. bs_contains (im_merged m) d \<Longrightarrow> d \<in> op_dot ` S"
    "\<And>d b. bt_get (im_retained m) d = Some b \<Longrightarrow> \<exists>op \<in> S. op_dot op = d \<and> b = held op"
    "\<And>op. op \<in> S \<Longrightarrow> op \<notin> B \<Longrightarrow> bt_get (im_retained m) (op_dot op) = Some (held op)"
    "\<And>op. op \<in> S \<Longrightarrow> vv_le (op_ctx op) (st_vv (im_state m))"
    "\<And>op b. op \<in> S \<Longrightarrow> b \<in> U \<Longrightarrow> vv_covers (op_ctx op) (op_dot b) \<Longrightarrow> b \<in> S"
    "represents (im_evidence m) (ops_facts S) (im_state m)"
    "represents (im_evidence m) (ops_facts B) (im_base m)"
  using assms by (simp_all add: replica_ops_def)

lemma replica_new: "replica_ops U (item_merge_new i) {} {}"
  by (simp add: replica_ops_def item_merge_new_def headers_of_def knows_def ops_facts_Un represents_default)

text \<open>A replica covers exactly the ops its covered vector covers.\<close>

lemma covered_iff:
  assumes "causal_ops U" "replica_ops U m S B"
  shows "op \<in> S \<longleftrightarrow> op \<in> U \<and> vv_covers (st_vv (im_state m)) (op_dot op)"
proof -
  note D = replica_opsD [OF assms(2)]
  have rep: "vv_covers (st_vv (im_state m)) d \<longleftrightarrow>
      (\<exists>a \<in> S. dot_device d = dot_device (op_dot a) \<and> dot_seq d \<le> dot_seq (op_dot a))" for d
    using D(11) by (simp add: represents_def covered_ops)
  have "op \<in> S" if op: "op \<in> U" and a: "a \<in> S" "dot_device (op_dot op) = dot_device (op_dot a)"
      "dot_seq (op_dot op) \<le> dot_seq (op_dot a)" for a
  proof (cases "dot_seq (op_dot op) = dot_seq (op_dot a)")
    case True
    with a(2) have "op_dot op = op_dot a" by (simp add: dot_eq_iff)
    then have "op = a" using one_op_per_dot [OF assms(1) op] a(1) D(2) by blast
    with a show ?thesis by simp
  next
    case False
    with a have "vv_covers (op_ctx a) (op_dot op)" using device_chain [OF assms(1) op] D(2) by fastforce
    with D(10) op a(1) show ?thesis by blast
  qed
  with rep D(2) show ?thesis by blast
qed

text \<open>Recording headers and wrap keys changes the evidence, not what the states represent.\<close>

lemma replica_evidence:
  assumes U: "causal_ops U" and m: "replica_ops U m S B"
    and hs: "headers_of U hs" "knows hs S"
  shows "replica_ops U (m\<lparr> im_headers := hs, im_wrap_keys := ks \<rparr>) S B"
proof -
  have BS: "B \<subseteq> S" "S \<subseteq> U" and k: "knows (im_headers m) S"
    and rep: "represents (im_evidence m) (ops_facts S) (im_state m)" "represents (im_evidence m) (ops_facts B) (im_base m)"
    using m by (auto simp: replica_ops_def)
  let ?ev = "\<lparr> ev_headers = hs, ev_wrap_keys = ks \<rparr>"
  have "knows (im_headers m) B" "knows hs B" using k hs(2) BS(1) by (auto simp: knows_def)
  then have "represents ?ev (ops_facts S) (im_state m)" "represents ?ev (ops_facts B) (im_base m)"
    using represents_evidence [OF U BS(2) rep(1), of ?ev] represents_evidence [OF U _ rep(2), of ?ev] BS hs k
    by (auto simp: im_evidence_def)
  with m hs show ?thesis by (simp add: replica_ops_def im_evidence_def)
qed

lemma record_header_Inr:
  "record_header m h = Inr m' \<longleftrightarrow>
     oh_item_id h = im_item_id m \<and> oh_item_schema_version h = isv_v1 \<and>
     bt_get (im_headers m) (oh_dot h) \<in> {None, Some \<lparr> hf_hlc = oh_hlc h, hf_context = oh_causal_context h \<rparr>} \<and>
     m' = m\<lparr> im_headers := bt_insert (oh_dot h) \<lparr> hf_hlc = oh_hlc h, hf_context = oh_causal_context h \<rparr> (im_headers m) \<rparr>"
proof -
  have same: "bt_insert (oh_dot h) x (im_headers m) = im_headers m" if "bt_get (im_headers m) (oh_dot h) = Some x" for x
    using that by (intro bt_ext) auto
  show ?thesis
    by (auto simp: record_header_def check_record_def and_then_Inr Let_def same split: option.splits if_splits)
qed

lemma replica_header:
  assumes U: "causal_ops U" and m: "replica_ops U m S B" and op: "op \<in> U" "record_header m (oi_header op) = Inr m'"
  shows "replica_ops U m' S B" "bt_get (im_headers m') (op_dot op) = Some (op_header_facts op)"
proof -
  let ?hs = "bt_insert (op_dot op) (op_header_facts op) (im_headers m)"
  have m': "m' = m\<lparr> im_headers := ?hs, im_wrap_keys := im_wrap_keys m \<rparr>"
    using op(2) by (simp add: record_header_Inr op_header_facts_def)
  have "a = op" if "a \<in> S" "op_dot a = op_dot op" for a
    using one_op_per_dot [OF U _ op(1)] replica_opsD(2) [OF m] that by blast
  then have "headers_of U ?hs" "knows ?hs S"
    using replica_opsD(3,4) [OF m] op(1) by (auto simp: headers_of_def knows_def)
  then show "replica_ops U m' S B" unfolding m' by (rule replica_evidence [OF U m])
  show "bt_get (im_headers m') (op_dot op) = Some (op_header_facts op)" by (simp add: m')
qed

section \<open>Applying an op\<close>

lemma vv_compare_ready: "vv_compare a b \<in> {VvLess, VvEqual} \<longleftrightarrow> vv_le a b"
  by (auto simp: vv_compare_le)

lemma replica_join_op:
  assumes U: "causal_ops U" and m: "replica_ops U m S B" and op: "op \<in> U" "knows (im_headers m) {op}"
    and ready: "is_ready m (oi_header op)"
    and m': "m' = m\<lparr> im_state := join_into (im_state m) (singleton (held op)) (im_evidence m),
                     im_merged := bs_insert (op_dot op) (im_merged m), im_bodies := bt_insert (op_dot op) (held op) (im_bodies m),
                     im_retained := bt_insert (op_dot op) (held op) (im_retained m), im_ops_since_snapshot := n \<rparr>"
  shows "replica_ops U m' (insert op S) B"
proof -
  note D = replica_opsD [OF m]
  have hs: "headers_of U (ev_headers (im_evidence m))" "knows (ev_headers (im_evidence m)) {op}"
    using D(3) op(2) by (simp_all add: im_evidence_def)
  have rep: "represents (im_evidence m) (ops_facts (insert op S)) (im_state m')"
    using represents_join [OF headers_causal [OF U hs(1)] D(11) represents_op [OF U hs(1) op(1) hs(2)]]
    by (simp add: m' ops_facts_Un)
  have vv: "vv_le (st_vv (im_state m)) (st_vv (im_state m'))" by (simp add: m' join_into_def)
  have ctx: "op \<in> S \<or> vv_le (op_ctx op) (st_vv (im_state m))"
    using ready covered_iff [OF U m, of op] op(1) vv_compare_ready unfolding is_ready_def by blast
  then have "vv_le (op_ctx op) (st_vv (im_state m))" using D(9) by blast
  then have le: "vv_le (op_ctx a) (st_vv (im_state m'))" if "a \<in> insert op S" for a
    using that D(9) vv vv_le_trans by blast
  have down: "b \<in> insert op S" if "a \<in> insert op S" "b \<in> U" "vv_covers (op_ctx a) (op_dot b)" for a b
  proof (cases "a \<in> S")
    case True
    with D(10) that show ?thesis by blast
  next
    case False
    with that(1) ctx have "vv_le (op_ctx op) (st_vv (im_state m))" "a = op" by auto
    with that(2,3) have "b \<in> S" using covered_iff [OF U m, of b] vv_le_covers by blast
    then show ?thesis by simp
  qed
  have one: "a = op" if "a \<in> S" "op_dot a = op_dot op" for a
    using one_op_per_dot [OF U _ op(1)] D(2) that by blast
  have "\<exists>a \<in> insert op S. op_dot a = d \<and> b = held a" if "bt_get (im_retained m') d = Some b" for d b
    using that D(7) by (auto simp: m' split: if_splits)
  moreover have "\<exists>a \<in> U. op_dot a = d \<and> b = held a" if "bt_get (im_bodies m') d = Some b" for d b
    using that D(5) op(1) by (auto simp: m' split: if_splits)
  moreover have "bt_get (im_retained m') (op_dot a) = Some (held a)" if "a \<in> insert op S - B" for a
    using that D(8) one by (auto simp: m')
  moreover have "d \<in> op_dot ` insert op S" if "bs_contains (im_merged m') d" for d
    using that D(6) by (auto simp: m')
  moreover have "knows (im_headers m') (insert op S)" "headers_of U (im_headers m')" "im_evidence m' = im_evidence m"
    "im_base m' = im_base m"
    using D(3,4) op(2) by (simp_all add: m' knows_def im_evidence_def)
  moreover have "B \<subseteq> insert op S" "insert op S \<subseteq> U" using D(1,2) op(1) by auto
  ultimately show ?thesis
    unfolding replica_ops_def using rep D(12) le down by simp
qed

lemma replica_merge_body:
  assumes U: "causal_ops U" and m: "replica_ops U m S B" and op: "op \<in> U" and r: "merge_body m op = (r, m')"
  shows "replica_ops U m' (case r of Inl _ \<Rightarrow> S | Inr _ \<Rightarrow> insert op S) B"
proof (cases "record_header m (oi_header op)")
  case (Inl e)
  with r m show ?thesis by (auto simp: merge_body_def)
next
  case (Inr h)
  note head = replica_header [OF U m op Inr]
  have known: "knows (im_headers h) {op}" using head(2) by (simp add: knows_def)
  consider "bs_contains (im_merged h) (op_dot op)" | "\<not> bs_contains (im_merged h) (op_dot op)" "\<not> is_ready h (oi_header op)"
    | "\<not> bs_contains (im_merged h) (op_dot op)" "is_ready h (oi_header op)" by blast
  then show ?thesis
  proof cases
    case 1
    from replica_opsD(6) [OF head(1) this] obtain a where a: "a \<in> S" "op_dot a = op_dot op" by auto
    then have "a = op" using one_op_per_dot [OF U _ op a(2)] replica_opsD(2) [OF m] by auto
    with a(1) have "insert op S = S" by auto
    moreover have "r = Inr KDuplicate" "m' = h" using 1 Inr r by (simp_all add: merge_body_def Let_def)
    ultimately show ?thesis using head(1) by simp
  next
    case 2
    then have "r = Inl (NotReady (op_dot op))" "m' = h" using Inr r by (simp_all add: merge_body_def Let_def)
    then show ?thesis using head(1) by simp
  next
    case 3
    note joined = replica_join_op [OF U head(1) op known 3(2)]
    obtain n where "m' = h\<lparr> im_state := join_into (im_state h) (singleton (held op)) (im_evidence h),
        im_merged := bs_insert (op_dot op) (im_merged h), im_bodies := bt_insert (op_dot op) (held op) (im_bodies h),
        im_retained := bt_insert (op_dot op) (held op) (im_retained h), im_ops_since_snapshot := n \<rparr>"
    proof (cases "vv_covers (st_vv (im_state h)) (op_dot op)")
      case True
      with 3 Inr r that [of "im_ops_since_snapshot h"] show ?thesis by (auto simp: merge_body_def Let_def held_def)
    next
      case False
      with 3 Inr r that [of "u64_saturating_add (im_ops_since_snapshot h) 1"] show ?thesis
        by (auto simp: merge_body_def Let_def held_def)
    qed
    then have "replica_ops U m' (insert op S) B" by (rule joined)
    moreover have "\<exists>k. r = Inr k" using 3 Inr r by (auto simp: merge_body_def Let_def split: if_splits)
    ultimately show ?thesis by auto
  qed
qed

lemma replica_apply:
  assumes "causal_ops U" "replica_ops U m S B" "op \<in> U" "apply_op m op = (r, m')"
  shows "\<exists>T. replica_ops U m' T B"
  using replica_merge_body [OF assms(1-3)] assms(4)
  by (auto simp: apply_op_def split: prod.splits sum.splits)

lemma replica_own:
  assumes "causal_ops U" "replica_ops U m S B" "op \<in> U" "apply_own_op m op own = (r, m')"
  shows "\<exists>T. replica_ops U m' T B"
  using replica_merge_body [OF assms(1-3)] assms(2,4)
  by (auto simp: apply_own_op_def Let_def split: prod.splits sum.splits if_splits)

section \<open>The snapshot of another replica\<close>

text \<open>A state that represents ops whose headers are held: the cut takes all of it, no body
  contradicts it, and it is in normal form.\<close>

definition complete_state :: "op_input set \<Rightarrow> evidence \<Rightarrow> op_input set \<Rightarrow> item_state \<Rightarrow> bool" where
  "complete_state U ev T s \<longleftrightarrow>
     T \<subseteq> U \<and> headers_of U (ev_headers ev) \<and> knows (ev_headers ev) T \<and>
     represents ev (ops_facts T) s \<and> (\<forall>op \<in> T. vv_le (op_ctx op) (st_vv s))"

lemma represented_value:
  assumes "represents ev A s" "(k, v) \<in> set (state_values s)"
  shows "FVal k v \<in> A"
proof (cases "st_shape s")
  case (ShLive l)
  with assms have h: "holds (lv_regs l) k (cur ev (fact_vals A k))" "holds (lv_hist l) k (hist ev (fact_vals A k))"
    by (simp_all add: represents_def rep_shape_def)
  have "v \<in> cur ev (fact_vals A k) \<union> hist ev (fact_vals A k)"
    using assms(2) ShLive holds_vals [OF h(1)] holds_vals [OF h(2)] by (auto simp: state_values_def regs_values_at)
  then have "v \<in> fact_vals A k" using cur_subset [of ev "fact_vals A k"] by blast
  then show ?thesis by (simp add: fact_vals_def)
next
  case (ShTomb t)
  with assms have h: "holds (tb_late t) k (late_facts ev (tb_c t) A k)" by (simp add: represents_def rep_shape_def)
  have "v \<in> late_facts ev (tb_c t) A k"
    using assms(2) ShTomb holds_vals [OF h] by (simp add: state_values_def regs_values_at)
  then have "v \<in> fact_vals A k"
    using cur_subset(1) [of ev "fact_vals A k"] by (auto simp: late_facts_def late_def split: if_splits)
  then show ?thesis by (simp add: fact_vals_def)
qed

lemma represented_purge:
  assumes "represents ev A s" "st_shape s = ShTomb t"
  shows "tb_purge t \<in> fact_purges A" "vv_covers (tb_c t) d \<longleftrightarrow> d \<in> purged_dots A"
    "(k, v) \<in> set (state_values s) \<Longrightarrow> \<not> vv_covers (tb_c t) (vl_dot v)"
proof -
  have t: "rep_shape ev A (ShTomb t)" using assms by (simp add: represents_def)
  then show "tb_purge t \<in> fact_purges A" "vv_covers (tb_c t) d \<longleftrightarrow> d \<in> purged_dots A"
    by (simp_all add: rep_shape_def)
  have h: "holds (tb_late t) k (late_facts ev (tb_c t) A k)" using t by (simp add: rep_shape_def)
  assume "(k, v) \<in> set (state_values s)"
  then have "v \<in> late_facts ev (tb_c t) A k"
    using assms(2) holds_vals [OF h] by (simp add: state_values_def regs_values_at)
  then show "\<not> vv_covers (tb_c t) (vl_dot v)" by (auto simp: late_facts_def late_def split: if_splits)
qed

lemma represented_nonempty:
  assumes "represents ev A s" "bt_get rs k = Some vs" "rs = state_current s \<or> rs = state_history s"
  shows "vs \<noteq> []"
proof (cases "st_shape s")
  case (ShLive l)
  with assms(1) have h: "holds (lv_regs l) k (cur ev (fact_vals A k))" "holds (lv_hist l) k (hist ev (fact_vals A k))"
    by (simp_all add: represents_def rep_shape_def)
  from assms(2,3) ShLive h show ?thesis by (auto simp: state_current_def state_history_def holds_def)
next
  case (ShTomb t)
  with assms(1) have h: "holds (tb_late t) k (late_facts ev (tb_c t) A k)" by (simp add: represents_def rep_shape_def)
  from assms(2,3) ShTomb h show ?thesis by (auto simp: state_current_def state_history_def holds_def)
qed

lemma heads_covers: "bt_get (ev_headers ev) d \<noteq> None \<Longrightarrow> vv_covers (heads ev) d"
  using vv_get_from_iter_le [of d "bt_keys (ev_headers ev)"] by (simp add: heads_def vv_covers_def)

lemma complete_value:
  assumes "complete_state U ev T s" "(k, v) \<in> set (state_values s)"
  obtains op where "op \<in> T" "op_lifecycle (oi_data op) \<noteq> Purge" "vl_dot v = op_dot op" "vl_hlc v = oh_hlc (oi_header op)"
    "(k, vl_value v) \<in> set (writes_with_lifecycle (held op))"
  using assms represented_value ops_val unfolding complete_state_def by metis

lemma complete_covers:
  assumes "complete_state U ev T s" "op \<in> T"
  shows "vv_covers (st_vv s) (op_dot op)" "vv_covers (heads ev) (op_dot op)"
    "ev_hlc ev (op_dot op) = Some (oh_hlc (oi_header op))"
  using assms heads_covers [of ev "op_dot op"]
  by (auto simp: complete_state_def represents_def covered_ops knows_def ev_hlc_def op_header_facts_def)

lemma complete_meet:
  assumes "complete_state U ev T s"
  shows "vv_meet (st_vv s) (heads ev) = st_vv s"
proof (rule vv_covers_ext)
  fix d
  have "vv_covers (heads ev) d" if "vv_covers (st_vv s) d"
  proof -
    have "d \<in> covered_dots (ops_facts T)" using that assms by (simp add: complete_state_def represents_def)
    then obtain op where op: "op \<in> T" "dot_device d = dot_device (op_dot op)" "dot_seq d \<le> dot_seq (op_dot op)"
      by (auto simp: covered_ops)
    with complete_covers(2) [OF assms op(1)] show ?thesis by (simp add: vv_covers_def)
  qed
  then show "vv_covers (vv_meet (st_vv s) (heads ev)) d \<longleftrightarrow> vv_covers (st_vv s) d" by auto
qed

lemma regs_values_in_state:
  "set (regs_values (state_current s)) \<subseteq> set (state_values s)"
  "set (regs_values (state_history s)) \<subseteq> set (state_values s)"
  by (auto simp: state_values_def state_current_def state_history_def regs_values_iff split: shape.splits)

lemma complete_take:
  assumes "complete_state U ev T s" "rs = state_current s \<or> rs = state_history s"
  shows "take_regs (st_vv s) ev rs = rs" "ignored_in (st_vv s) ev rs = []"
proof -
  have ok: "vv_covers (st_vv s) (vl_dot v) \<and> vouches ev v" if "(k, v) \<in> set (regs_values rs)" for k v
  proof -
    have "(k, v) \<in> set (state_values s)" using that assms(2) regs_values_in_state by blast
    from complete_value [OF assms(1) this] obtain op where "op \<in> T" "vl_dot v = op_dot op" "vl_hlc v = oh_hlc (oi_header op)" .
    with complete_covers [OF assms(1)] show ?thesis by (simp add: vouches_def)
  qed
  show "take_regs (st_vv s) ev rs = rs"
  proof (rule bt_ext)
    fix k
    show "bt_get (take_regs (st_vv s) ev rs) k = bt_get rs k"
    proof (cases "bt_get rs k")
      case (Some vs)
      have "filter (\<lambda>v. vv_covers (st_vv s) (vl_dot v) \<and> vouches ev v) vs = vs"
        using ok Some by (intro filter_True) (auto simp: regs_values_iff)
      moreover have "vs \<noteq> []" using represented_nonempty [OF _ Some assms(2)] assms(1) by (auto simp: complete_state_def)
      ultimately show ?thesis by (simp add: take_regs_def Some Let_def)
    qed (simp add: take_regs_def)
  qed
  have "filter (\<lambda>(_, v). vv_covers (st_vv s) (vl_dot v) \<and> \<not> vouches ev v) (regs_values rs) = []"
    using ok by (auto simp: filter_empty_conv)
  then show "ignored_in (st_vv s) ev rs = []" by (simp only: ignored_in_def list.map)
qed

lemma complete_purge:
  assumes "complete_state U ev T s" "st_shape s = ShTomb t"
  obtains op where "op \<in> T" "op_lifecycle (oi_data op) = Purge"
    "tb_purge t = \<lparr> pr_dot = op_dot op, pr_hlc = oh_hlc (oi_header op), pr_key_id = oi_key_id op \<rparr>"
proof -
  have "tb_purge t \<in> fact_purges (ops_facts T)"
    using assms represented_purge(1) by (auto simp: complete_state_def)
  then obtain c where "FPurge (tb_purge t) c \<in> ops_facts T" by (auto simp: fact_purges_def)
  then show ?thesis by (rule ops_purge) (rule that)
qed

lemma complete_context:
  assumes "complete_state U ev T s" "st_shape s = ShTomb t" "vv_covers (tb_c t) d"
  obtains op where "op \<in> T" "op_lifecycle (oi_data op) = Purge" "vv_covers (op_ctx op) d"
proof -
  have "d \<in> purged_dots (ops_facts T)"
    using assms represented_purge(2) [OF _ assms(2)] by (auto simp: complete_state_def)
  then obtain p c where "FPurge p c \<in> ops_facts T" "vv_covers c d" by (auto simp: purged_dots_def)
  then show ?thesis using that by (metis ops_purge)
qed

lemma cut_complete:
  assumes "causal_ops U" "complete_state U ev T s"
  shows "cut_snapshot s (heads ev) ev = Inr \<lparr> cut_state = s, cut_ignored = [] \<rparr>"
proof (cases "st_shape s")
  case (ShLive l)
  then have rs: "lv_regs l = state_current s" "lv_hist l = state_history s"
    by (simp_all add: state_current_def state_history_def)
  have "take_regs (st_vv s) ev (lv_regs l) = lv_regs l" "take_regs (st_vv s) ev (lv_hist l) = lv_hist l"
    "ignored_in (st_vv s) ev (lv_regs l) = []" "ignored_in (st_vv s) ev (lv_hist l) = []"
    unfolding rs using complete_take [OF assms(2)] by blast+
  moreover have "s = \<lparr> st_vv = st_vv s, st_shape = ShLive l \<rparr>" using ShLive by simp
  ultimately show ?thesis
    using ShLive by (simp add: cut_snapshot_def complete_meet [OF assms(2)] Let_def)
next
  case (ShTomb t)
  then have rs: "tb_late t = state_current s" by (simp add: state_current_def)
  obtain p where p: "p \<in> T" "op_lifecycle (oi_data p) = Purge"
    "tb_purge t = \<lparr> pr_dot = op_dot p, pr_hlc = oh_hlc (oi_header p), pr_key_id = oi_key_id p \<rparr>"
    using complete_purge [OF assms(2) ShTomb] .
  have vv: "vv_covers (st_vv s) (pr_dot (tb_purge t))" "ev_hlc ev (pr_dot (tb_purge t)) = Some (pr_hlc (tb_purge t))"
    using complete_covers [OF assms(2) p(1)] by (simp_all add: p(3))
  have "vv_covers (st_vv s) d" if d: "vv_covers (tb_c t) d" for d
  proof -
    from complete_context [OF assms(2) ShTomb d] obtain op where "op \<in> T" "vv_covers (op_ctx op) d" .
    with assms(2) show ?thesis using vv_le_covers by (auto simp: complete_state_def)
  qed
  then have c: "vv_meet (tb_c t) (st_vv s) = tb_c t" by (intro vv_covers_ext) auto
  have take: "take_regs (st_vv s) ev (tb_late t) = tb_late t" "ignored_in (st_vv s) ev (tb_late t) = []"
    unfolding rs using complete_take [OF assms(2)] by blast+
  have keep: "\<not> vv_covers (tb_c t) (vl_dot v) \<and> vl_dot v \<noteq> op_dot p" if v: "(k, v) \<in> set (regs_values (tb_late t))" for k v
  proof -
    have sv: "(k, v) \<in> set (state_values s)" using v ShTomb by (simp add: state_values_def)
    from complete_value [OF assms(2) sv] obtain op where op: "op \<in> T" "op_lifecycle (oi_data op) \<noteq> Purge" "vl_dot v = op_dot op" .
    have "op_dot op \<noteq> op_dot p"
      using one_op_per_dot [OF assms(1), of op p] op p assms(2) by (auto simp: complete_state_def)
    then show ?thesis using represented_purge(3) [OF _ ShTomb sv] assms(2) op(3) by (auto simp: complete_state_def)
  qed
  have "bt_retain (\<lambda>_ values. values \<noteq> []) (bt_retain_map (\<lambda>_ values. Some (filter (\<lambda>v.
      \<not> vv_covers (tb_c t) (vl_dot v) \<and> vl_dot v \<noteq> pr_dot (tb_purge t)) values)) (tb_late t)) = tb_late t"
  proof (rule bt_ext)
    fix k
    show "bt_get (bt_retain (\<lambda>_ values. values \<noteq> []) (bt_retain_map (\<lambda>_ values. Some (filter (\<lambda>v.
        \<not> vv_covers (tb_c t) (vl_dot v) \<and> vl_dot v \<noteq> pr_dot (tb_purge t)) values)) (tb_late t))) k = bt_get (tb_late t) k"
    proof (cases "bt_get (tb_late t) k")
      case (Some vs)
      have "filter (\<lambda>v. \<not> vv_covers (tb_c t) (vl_dot v) \<and> vl_dot v \<noteq> op_dot p) vs = vs"
        using keep Some by (intro filter_True) (auto simp: regs_values_iff)
      moreover have "vs \<noteq> []"
        using represented_nonempty [of ev "ops_facts T" s "tb_late t" k vs] Some assms(2) rs by (simp add: complete_state_def)
      ultimately show ?thesis by (simp add: Some p(3))
    qed simp
  qed
  moreover have "s = \<lparr> st_vv = st_vv s, st_shape = ShTomb \<lparr> tb_purge = tb_purge t, tb_c = tb_c t, tb_late = tb_late t \<rparr> \<rparr>"
    using ShTomb by simp
  ultimately show ?thesis
    using ShTomb vv by (simp add: cut_snapshot_def complete_meet [OF assms(2)] Let_def take c)
qed

definition bodies_of :: "op_input set \<Rightarrow> (dot, held_op) btree_map \<Rightarrow> bool" where
  "bodies_of U bodies \<longleftrightarrow> (\<forall>d b. bt_get bodies d = Some b \<longrightarrow> (\<exists>op \<in> U. op_dot op = d \<and> b = held op))"

lemma body_unique: "causal_ops U \<Longrightarrow> bodies_of U bodies \<Longrightarrow> op \<in> U \<Longrightarrow> bt_get bodies (op_dot op) = Some b \<Longrightarrow> b = held op"
  using one_op_per_dot unfolding bodies_of_def by metis

lemma first_some_None: "first_some f xs = None \<longleftrightarrow> (\<forall>x \<in> set xs. f x = None)"
  by (induction xs) (auto split: option.splits)

lemma wrote_own:
  assumes "distinct (map fst (writes_with_lifecycle op))" "(k, v) \<in> set (writes_with_lifecycle op)" "ho_lifecycle op \<noteq> Purge"
  shows "wrote op k v"
proof -
  have marker: "lifecycle_register_value (ho_lifecycle op) \<noteq> None"
    using assms(3) by (cases "ho_lifecycle op") auto
  show ?thesis
    using assms(1,2) marker
    by (auto simp: wrote_def writes_with_lifecycle_def bytes_is_lifecycle_key_def list_ex_iff image_iff split: option.splits)
qed

lemma fold_join_covers:
  "vv_covers (fold (\<lambda>(d, h) acc. if P d then vv_join acc (f h) else acc) es acc) x \<longleftrightarrow>
     vv_covers acc x \<or> (\<exists>(d, h) \<in> set es. P d \<and> vv_covers (f h) x)"
  by (induction es arbitrary: acc) (auto split: if_splits)

lemma contradiction_complete:
  assumes U: "causal_ops U" and s: "complete_state U ev T s" and bodies: "bodies_of U bodies"
  shows "contradiction s bodies ev = None"
proof -
  have T: "T \<subseteq> U" "knows (ev_headers ev) T" using s by (auto simp: complete_state_def)
  have kind: "held_op_kind b = (if op_lifecycle (oi_data op) = Purge then BodyPurge (oi_key_id op) else BodyWrite)"
    if "op \<in> T" "bt_get bodies (op_dot op) = Some b" for op b
    using body_unique [OF U bodies _ that(2)] that(1) T(1) by (auto simp: held_op_kind_def split: lifecycle.splits)
  have "value_contradiction bodies (k, v) = None" if v: "(k, v) \<in> set (state_values s)" for k v
  proof -
    from complete_value [OF s v] obtain op where op: "op \<in> T" "op_lifecycle (oi_data op) \<noteq> Purge" "vl_dot v = op_dot op"
      "(k, vl_value v) \<in> set (writes_with_lifecycle (held op))" .
    have "wrote (held op) k (vl_value v)"
      using U op T(1) by (intro wrote_own) (auto simp: causal_ops_def)
    moreover have "b = held op" if "bt_get bodies (op_dot op) = Some b" for b
      using body_unique [OF U bodies _ that] op(1) T(1) by blast
    ultimately show ?thesis
      using kind [OF op(1)] op(2,3) by (auto simp: value_contradiction_def split: option.splits)
  qed
  then have vals: "first_some (value_contradiction bodies) (state_values s) = None" by (auto simp: first_some_None)
  show ?thesis
  proof (cases "st_shape s")
    case (ShTomb t)
    obtain p where p: "p \<in> T" "op_lifecycle (oi_data p) = Purge"
      "tb_purge t = \<lparr> pr_dot = op_dot p, pr_hlc = oh_hlc (oi_header p), pr_key_id = oi_key_id p \<rparr>"
      using complete_purge [OF s ShTomb] .
    have "vv_covers (purge_bound s bodies ev) d" if d: "vv_covers (tb_c t) d" for d
    proof -
      from complete_context [OF s ShTomb d] obtain op where op: "op \<in> T" "op_lifecycle (oi_data op) = Purge" "vv_covers (op_ctx op) d" .
      have "(op_dot op, op_header_facts op) \<in> set (bt_entries (ev_headers ev))"
        using op(1) T(2) by (simp add: bt_entries_iff knows_def)
      moreover have "\<not> known_write bodies (op_dot op)"
        using kind [OF op(1)] op(2) by (auto simp: known_write_def)
      moreover have "vv_covers (st_vv s) (op_dot op)" using complete_covers(1) [OF s op(1)] .
      moreover have "vv_covers (hf_context (op_header_facts op)) d" using op(3) by (simp add: op_header_facts_def)
      ultimately show ?thesis
        unfolding purge_bound_def
        using fold_join_covers [of "\<lambda>d. vv_covers (st_vv s) d \<and> \<not> known_write bodies d" hf_context] by fastforce
    qed
    then have "vv_le (tb_c t) (purge_bound s bodies ev)" by (simp add: vv_le_covers_iff)
    moreover have "map_option held_op_kind (bt_get bodies (op_dot p)) \<in> {None, Some (BodyPurge (oi_key_id p))}"
      using kind [OF p(1)] p(2) by (cases "bt_get bodies (op_dot p)") auto
    ultimately have "purge_contradiction s t bodies ev = None"
      unfolding purge_contradiction_def vv_compare_ready by (auto simp: p(3) Let_def)
    with vals ShTomb show ?thesis by (simp add: contradiction_def)
  qed (simp add: contradiction_def vals)
qed

lemma normalize_represented:
  assumes "causal_headers ev" "represents ev A s"
  shows "normalize s ev = s"
proof -
  have "represents ev (state_facts s) s" using represents_normal [OF assms] by (simp add: normal_state_def)
  moreover from this have "represents ev (state_facts s) (normalize s ev)"
    by (intro represents_normalize) (simp add: represents_def)
  ultimately show ?thesis by (metis represents_unique)
qed

section \<open>Two replicas never disagree\<close>

text \<open>A complete state that includes every op its vector covers.\<close>

definition full_state :: "op_input set \<Rightarrow> evidence \<Rightarrow> op_input set \<Rightarrow> item_state \<Rightarrow> bool" where
  "full_state U ev T s \<longleftrightarrow>
     complete_state U ev T s \<and> (\<forall>op \<in> U. vv_covers (st_vv s) (op_dot op) \<longrightarrow> op \<in> T)"

lemma full_stateD:
  assumes "full_state U ev T s"
  shows "complete_state U ev T s" "op \<in> U \<Longrightarrow> vv_covers (st_vv s) (op_dot op) \<Longrightarrow> op \<in> T" "T \<subseteq> U"
    "represents ev (ops_facts T) s" "knows (ev_headers ev) T" "headers_of U (ev_headers ev)"
  using assms by (auto simp: full_state_def complete_state_def)

text \<open>One version of a value exists at a key and dot.\<close>

lemma value_versions:
  assumes U: "causal_ops U" "T \<subseteq> U" "S \<subseteq> U" and v: "FVal k v \<in> ops_facts S" "FVal k u \<in> ops_facts T" "vl_dot u = vl_dot v"
  shows "u = v"
proof -
  obtain a where a: "a \<in> S" "vl_dot v = op_dot a" "vl_hlc v = oh_hlc (oi_header a)" "(k, vl_value v) \<in> set (writes_with_lifecycle (held a))"
    using v(1) by (rule ops_val)
  obtain b where b: "b \<in> T" "vl_dot u = op_dot b" "vl_hlc u = oh_hlc (oi_header b)" "(k, vl_value u) \<in> set (writes_with_lifecycle (held b))"
    using v(2) by (rule ops_val)
  have "a = b" using one_op_per_dot [OF U(1)] a b v(3) U by auto
  moreover have "distinct (map fst (writes_with_lifecycle (held a)))" using U(1,3) a(1) by (auto simp: causal_ops_def)
  ultimately have "vl_value u = vl_value v" using a(4) b(4) by (metis eq_key_imp_eq_value)
  with a b v(3) \<open>a = b\<close> show ?thesis by simp
qed

lemma all_chosen:
  assumes "causal_ops U" "T \<subseteq> U"
  shows "chosen ev (fact_vals (ops_facts T) k) = fact_vals (ops_facts T) k"
proof -
  have "w = v" if "v \<in> fact_vals (ops_facts T) k" "w \<in> fact_vals (ops_facts T) k" "vl_dot w = vl_dot v" for v w
    using value_versions [OF assms(1,2,2)] that by (simp add: fact_vals_def)
  then show ?thesis by (auto simp: chosen_def)
qed

text \<open>The values of a key the index holds.\<close>

lemma held_versions: "bt_get (fold hold_version vs m) d =
    (case filter (\<lambda>v. vl_dot v = d) vs of [] \<Rightarrow> bt_get m d
     | ws \<Rightarrow> Some ((case bt_get m d of None \<Rightarrow> [] | Some us \<Rightarrow> us) @ ws))"
  by (induction vs arbitrary: m) (auto simp: hold_version_def split: list.splits option.splits)

lemma held_version_in:
  assumes "bt_get (ki_held (key_index_of y ev k)) d = Some us"
  shows "us = filter (\<lambda>v. vl_dot v = d) (vals_at (state_current y) k @ vals_at (state_history y) k)"
  using assms unfolding key_index_of_def Let_def
  by (auto simp: held_versions simp del: fold_append filter_append split: list.splits)

lemma state_index_get:
  "bt_get (state_index s ev) key =
     (if bt_get (state_current s) key \<noteq> None \<or> bt_get (state_history s) key \<noteq> None then Some (key_index_of s ev key) else None)"
proof -
  let ?ks = "bt_keys (bs_collect (bt_keys (state_current s) @ bt_keys (state_history s)))"
  have "map_of (map (\<lambda>key. (key, key_index_of s ev key)) ?ks) key = (if key \<in> set ?ks then Some (key_index_of s ev key) else None)"
    by (simp add: map_of_map_restrict restrict_map_def)
  moreover have "distinct (map fst (map (\<lambda>key. (key, key_index_of s ev key)) ?ks))" by (simp add: comp_def)
  ultimately have "bt_get (state_index s ev) key = (if key \<in> set ?ks then Some (key_index_of s ev key) else None)"
    unfolding state_index_def by (simp only: bt_get_collect_distinct)
  then show ?thesis by (simp only: bs_keys_collect set_append Un_iff bt_keys_iff)
qed

lemma current_vals:
  assumes "represents ev (ops_facts T) s" "\<And>t. st_shape s = ShTomb t \<Longrightarrow> k \<noteq> LIFECYCLE_KEY"
  shows "set (vals_at (state_current s) k) =
    {v \<in> cur ev (fact_vals (ops_facts T) k). \<not> vv_covers (purge_context s) (vl_dot v)}"
proof (cases "st_shape s")
  case (ShLive l)
  with assms(1) have "holds (lv_regs l) k (cur ev (fact_vals (ops_facts T) k))" by (simp add: represents_def rep_shape_def)
  from holds_vals [OF this] ShLive show ?thesis by (simp add: state_current_def purge_context_def)
next
  case (ShTomb t)
  with assms(1) have "holds (tb_late t) k (late_facts ev (tb_c t) (ops_facts T) k)" by (simp add: represents_def rep_shape_def)
  from holds_vals [OF this] ShTomb assms(2) show ?thesis
    by (simp add: state_current_def purge_context_def late_facts_def late_def)
qed

lemma held_or_superseded:
  assumes U: "causal_ops U" and y: "full_state U ev T y" and v: "FVal k v \<in> ops_facts T"
    and c: "\<not> vv_covers (purge_context y) (vl_dot v)" "\<And>t. st_shape y = ShTomb t \<Longrightarrow> k \<noteq> LIFECYCLE_KEY"
  shows "\<exists>e. bt_get (state_index y ev) k = Some e \<and> (bt_contains_key (ki_held e) (vl_dot v) \<or> supersession_covers (ki_current e) v)"
proof -
  note D = full_stateD [OF y]
  let ?V = "fact_vals (ops_facts T) k" and ?cur = "vals_at (state_current y) k"
  have fin: "finite ?V" using D(4) by (simp add: represents_def sound_facts_def finite_fact_vals)
  have causal: "causal_headers ev" by (rule headers_causal [OF U D(6)])
  have vV: "v \<in> chosen ev ?V" unfolding all_chosen [OF U D(3)] using v by (simp add: fact_vals_def)
  note cur = current_vals [OF D(4) c(2)]
  have late: "u \<in> set ?cur" if u: "u \<in> cur ev ?V" "ev_context ev (vl_dot u) = Some cu" "vv_covers cu (vl_dot v)" for u cu
  proof -
    have "\<not> vv_covers (purge_context y) (vl_dot u)"
    proof
      assume cov: "vv_covers (purge_context y) (vl_dot u)"
      then obtain t where t: "st_shape y = ShTomb t" by (auto simp: purge_context_def split: shape.splits)
      have "closed_context ev (tb_c t)"
        using rep_tomb_closed D(4) t by (fastforce simp: represents_def)
      then have "vv_le cu (tb_c t)" using cov u(2) t by (auto simp: closed_context_def purge_context_def)
      then show False using u(3) c(1) t vv_le_covers by (auto simp: purge_context_def)
    qed
    with u(1) show ?thesis by (simp add: cur)
  qed
  have held: "v \<in> set ?cur \<or> superseded_by ev (vl_dot ` set ?cur) (vl_dot v)"
  proof (cases "superseded_by ev (vl_dot ` ?V) (vl_dot v)")
    case False
    then have "v \<in> cur ev ?V" using vV by (simp add: cur_def)
    then show ?thesis using c(1) by (simp add: cur)
  next
    case True
    from superseded_by_current [OF causal fin this] obtain u cu where
      "u \<in> cur ev ?V" "vl_dot u \<noteq> vl_dot v" "ev_context ev (vl_dot u) = Some cu" "vv_covers cu (vl_dot v)"
      by (auto simp: superseded_by_def)
    with late have "superseded_by ev (vl_dot ` set ?cur) (vl_dot v)" unfolding superseded_by_def by blast
    then show ?thesis ..
  qed
  have "bt_contains_key (ki_held (key_index_of y ev k)) (vl_dot v)" if "v \<in> set ?cur"
  proof -
    have "filter (\<lambda>u. vl_dot u = vl_dot v) (?cur @ vals_at (state_history y) k) \<noteq> []" using that by (auto simp: filter_empty_conv)
    then show ?thesis by (auto simp: key_index_of_def Let_def held_versions split: list.splits)
  qed
  moreover have "supersession_covers (ki_current (key_index_of y ev k)) v \<longleftrightarrow> superseded_by ev (vl_dot ` set ?cur) (vl_dot v)"
    by (simp add: key_index_of_def Let_def index_pairwise)
  moreover have "?cur \<noteq> []" using held by (auto simp: superseded_by_def)
  then have "bt_get (state_current y) k \<noteq> None" by (auto simp: vals_at_def split: option.splits)
  then have "bt_get (state_index y ev) k = Some (key_index_of y ev k)" by (simp add: state_index_get)
  ultimately show ?thesis using held by blast
qed

lemma full_accounts:
  assumes U: "causal_ops U" and x: "full_state U ev S x" and y: "full_state U ev T y"
    and v: "(k, v) \<in> set (state_values x)" "vv_covers (st_vv y) (vl_dot v)"
  shows "accounts_for y (state_index y ev) k v"
proof -
  note X = full_stateD [OF x] and Y = full_stateD [OF y]
  have vS: "FVal k v \<in> ops_facts S" by (rule represented_value [OF X(4) v(1)])
  then obtain op where op: "op \<in> S" "op_dot op = vl_dot v" using ops_val by metis
  with X(3) Y(2) v(2) have "op \<in> T" by auto
  have "FVal k v \<in> op_facts (held op)"
  proof -
    from vS obtain a where a: "a \<in> S" "FVal k v \<in> op_facts (held a)" by (auto simp: ops_facts_def)
    then have "vl_dot v = op_dot a" by (auto simp: op_facts_def split: if_splits)
    with one_op_per_dot [OF U, of a op] a op X(3) show ?thesis by auto
  qed
  with \<open>op \<in> T\<close> have vT: "FVal k v \<in> ops_facts T" by (auto simp: ops_facts_def)
  show ?thesis
  proof (cases "vv_covers (purge_context y) (vl_dot v) \<or> (\<exists>t. st_shape y = ShTomb t) \<and> k = LIFECYCLE_KEY")
    case True
    then show ?thesis
      by (auto simp: accounts_for_def purge_context_def bytes_is_lifecycle_key_def Let_def split: shape.splits)
  next
    case False
    then have "\<exists>e. bt_get (state_index y ev) k = Some e \<and> (bt_contains_key (ki_held e) (vl_dot v) \<or> supersession_covers (ki_current e) v)"
      using held_or_superseded [OF U y vT] by blast
    then show ?thesis by (auto simp: accounts_for_def Let_def split: shape.splits)
  qed
qed

lemma full_one_version:
  assumes U: "causal_ops U" and x: "full_state U ev S x" and y: "full_state U ev T y" and v: "(k, v) \<in> set (state_values x)"
  shows "\<not> other_version (state_index y ev) k v"
proof -
  note X = full_stateD [OF x] and Y = full_stateD [OF y]
  have "u = v" if "u \<in> set (vals_at (state_current y) k @ vals_at (state_history y) k)" "vl_dot u = vl_dot v" for u
  proof -
    have "(k, u) \<in> set (state_values y)"
      using that(1) regs_values_in_state [of y] by (auto simp flip: regs_values_at)
    from value_versions [OF U Y(3) X(3) represented_value [OF X(4) v] represented_value [OF Y(4) this] that(2)]
    show ?thesis .
  qed
  then have "list_all (\<lambda>u. u = v) us"
    if "bt_get (ki_held (key_index_of y ev k)) (vl_dot v) = Some us" for us
    using held_version_in [OF that] by (auto simp: list_all_iff)
  then have "\<not> list_ex (\<lambda>u. vl_hlc u \<noteq> vl_hlc v \<or> \<not> bytes_ct_eq (vl_value u) (vl_value v)) us"
    if "bt_get (ki_held (key_index_of y ev k)) (vl_dot v) = Some us" for us
    using that by (fastforce simp: list_ex_iff list_all_iff)
  then show ?thesis by (simp add: other_version_def state_index_get split: option.splits)
qed

lemma full_purges_explained:
  assumes U: "causal_ops U" and x: "full_state U ev S x" and y: "full_state U ev T y" and bodies: "bodies_of U bodies"
    and v: "vv_covers (purge_context x) d" "\<not> vv_covers (purge_context y) d"
  shows "vv_covers (explain_purges x y bodies ev) d"
proof -
  note X = full_stateD [OF x] and Y = full_stateD [OF y]
  obtain t where t: "st_shape x = ShTomb t" "vv_covers (tb_c t) d" using v(1) by (auto simp: purge_context_def split: shape.splits)
  from complete_context [OF X(1) t] obtain op where op: "op \<in> S" "op_lifecycle (oi_data op) = Purge" "vv_covers (op_ctx op) d" .
  have "op \<notin> T"
  proof
    assume "op \<in> T"
    with op(2) have facts: "FPurge \<lparr> pr_dot = op_dot op, pr_hlc = oh_hlc (oi_header op), pr_key_id = oi_key_id op \<rparr> (op_ctx op) \<in> ops_facts T"
      by (force simp: ops_facts_def op_facts_def)
    show False
    proof (cases "st_shape y")
      case (ShLive l)
      with Y(4) facts show False by (auto simp: represents_def rep_shape_def fact_purges_def)
    next
      case (ShTomb u)
      have "d \<in> purged_dots (ops_facts T)" using facts op(3) by (auto simp: purged_dots_def)
      with represented_purge(2) [OF Y(4) ShTomb] v(2) ShTomb show False by (simp add: purge_context_def)
    qed
  qed
  then have "\<not> vv_covers (st_vv y) (op_dot op)" using Y(2) op(1) X(3) by blast
  moreover have "vv_covers (st_vv x) (op_dot op)" using complete_covers(1) [OF X(1) op(1)] .
  moreover have "\<not> known_write bodies (op_dot op)"
  proof
    assume "known_write bodies (op_dot op)"
    then obtain b where b: "bt_get bodies (op_dot op) = Some b" "held_op_kind b = BodyWrite" by (auto simp: known_write_def)
    with body_unique [OF U bodies _ b(1)] op(1,2) X(3) show False by (auto simp: held_op_kind_def)
  qed
  moreover have "(op_dot op, op_header_facts op) \<in> set (bt_entries (ev_headers ev))"
    using op(1) X(5) by (simp add: bt_entries_iff knows_def)
  moreover have "vv_covers (hf_context (op_header_facts op)) d" using op(3) by (simp add: op_header_facts_def)
  ultimately show ?thesis
    unfolding explain_purges_def
    using fold_join_covers [of "\<lambda>d. vv_covers (st_vv x) d \<and> \<not> vv_covers (st_vv y) d \<and> \<not> known_write bodies d" hf_context]
    by fastforce
qed

lemma full_shapes:
  assumes U: "causal_ops U" and x: "full_state U ev S x" and y: "full_state U ev T y"
  shows "shape_disagreements x y = []"
proof -
  note X = full_stateD [OF x] and Y = full_stateD [OF y]
  have live: "\<not> vv_covers (st_vv a) (pr_dot (tb_purge t))"
    if a: "full_state U ev A a" "st_shape a = ShLive l" and b: "full_state U ev B b" "st_shape b = ShTomb t" for A B a b l t
  proof
    assume cov: "vv_covers (st_vv a) (pr_dot (tb_purge t))"
    from complete_purge [OF full_stateD(1) [OF b(1)] b(2)] obtain op where op: "op \<in> B" "op_lifecycle (oi_data op) = Purge"
      "tb_purge t = \<lparr> pr_dot = op_dot op, pr_hlc = oh_hlc (oi_header op), pr_key_id = oi_key_id op \<rparr>" .
    then have "op \<in> A" using full_stateD(2) [OF a(1)] full_stateD(3) [OF b(1)] cov by auto
    with op(2) have "fact_purges (ops_facts A) \<noteq> {}" by (force simp: fact_purges_def ops_facts_def op_facts_def)
    with full_stateD(4) [OF a(1)] a(2) show False by (simp add: represents_def rep_shape_def)
  qed
  have "tb_purge t = tb_purge u"
    if "st_shape x = ShTomb t" "st_shape y = ShTomb u" "pr_dot (tb_purge t) = pr_dot (tb_purge u)" for t u
  proof -
    from complete_purge [OF X(1) that(1)] obtain p where p: "p \<in> S"
      "tb_purge t = \<lparr> pr_dot = op_dot p, pr_hlc = oh_hlc (oi_header p), pr_key_id = oi_key_id p \<rparr>" .
    from complete_purge [OF Y(1) that(2)] obtain q where q: "q \<in> T"
      "tb_purge u = \<lparr> pr_dot = op_dot q, pr_hlc = oh_hlc (oi_header q), pr_key_id = oi_key_id q \<rparr>" .
    have "p = q" using one_op_per_dot [OF U, of p q] p q X(3) Y(3) that(3) by auto
    with p q show ?thesis by simp
  qed
  then show ?thesis
    using live [OF x _ y] live [OF y _ x] by (auto simp: shape_disagreements_def split: shape.splits)
qed

lemma full_no_disagreements:
  assumes U: "causal_ops U" and x: "full_state U ev S x" and y: "full_state U ev T y" and bodies: "bodies_of U bodies"
  shows "disagreements x y bodies ev = []"
proof -
  have dir: "disagreements_of a b (state_index b ev) bodies ev = []"
    if "full_state U ev A a" "full_state U ev B b" for a b A B
    using full_accounts [OF U that] full_one_version [OF U that] full_purges_explained [OF U that bodies]
    by (auto simp: disagreements_of_def Let_def filter_empty_conv)
  show ?thesis
    using dir [OF x y] dir [OF y x] full_shapes [OF U x y] by (simp add: disagreements_def Let_def)
qed

section \<open>Absorbing\<close>

lemma replica_learn:
  assumes U: "causal_ops U"
  shows "replica_ops U m S B \<Longrightarrow> set ops \<subseteq> U \<Longrightarrow> learn_bodies m ops = (r, m') \<Longrightarrow>
    replica_ops U m' S B \<and> im_state m' = im_state m \<and>
    (\<forall>op \<in> U. op \<in> set ops \<and> r = Inr () \<or> knows (im_headers m) {op} \<longrightarrow> knows (im_headers m') {op})"
proof (induction ops arbitrary: m)
  case (Cons op ops)
  show ?case
  proof (cases "record_header m (oi_header op)")
    case (Inl e)
    with Cons.prems show ?thesis by auto
  next
    case (Inr h)
    let ?h = "h\<lparr> im_bodies := bt_insert (op_dot op) (held op) (im_bodies h) \<rparr>"
    have op: "op \<in> U" using Cons.prems by simp
    note head = replica_header [OF U Cons.prems(1) op Inr]
    have h: "replica_ops U ?h S B"
      using head(1) op unfolding replica_ops_def im_evidence_def by simp blast
    have "learn_bodies ?h ops = (r, m')"
      using Cons.prems(3) Inr by (simp add: Let_def held_def held_op_new_def)
    from Cons.IH [OF h _ this] Cons.prems(2)
    have IH: "replica_ops U m' S B" "im_state m' = im_state h"
      "\<And>a. a \<in> U \<Longrightarrow> a \<in> set ops \<and> r = Inr () \<or> knows (im_headers h) {a} \<Longrightarrow> knows (im_headers m') {a}" by auto
    moreover have "im_state h = im_state m" "im_headers h = bt_insert (op_dot op) (op_header_facts op) (im_headers m)"
      using Inr by (auto simp: record_header_Inr op_header_facts_def)
    moreover have "knows (im_headers h) {a}" if "a = op \<or> knows (im_headers m) {a}" "a \<in> U" for a
      using that one_op_per_dot [OF U that(2) op] calculation(5) by (auto simp: knows_def)
    ultimately show ?thesis by auto
  qed
qed simp

lemma replica_fold_op:
  assumes U: "causal_ops U" and m: "replica_ops U m S B"
  shows "\<exists>B'. replica_ops U (fold_op (im_evidence m) d m) S B'" "im_evidence (fold_op (im_evidence m) d m) = im_evidence m"
proof -
  note D = replica_opsD [OF m]
  show "\<exists>B'. replica_ops U (fold_op (im_evidence m) d m) S B'"
  proof (cases "bt_get (im_retained m) d")
    case None
    with m show ?thesis by (auto simp: fold_op_def)
  next
    case (Some b)
    with D(7) obtain op where op: "op \<in> S" "op_dot op = d" "b = held op" by blast
    have hs: "headers_of U (ev_headers (im_evidence m))" "knows (ev_headers (im_evidence m)) {op}"
      using D(3,4) op(1) by (auto simp: im_evidence_def knows_def)
    have "represents (im_evidence m) (ops_facts (insert op B)) (join_into (im_base m) (singleton (held op)) (im_evidence m))"
      using represents_join [OF headers_causal [OF U hs(1)] D(12) represents_op [OF U hs(1) _ hs(2)]] op(1) D(2)
      by (auto simp: ops_facts_Un)
    moreover have "a = op" if "a \<in> S" "op_dot a = op_dot op" for a
      using one_op_per_dot [OF U _ _ that(2)] that(1) op(1) D(2) by blast
    then have "bt_get (bt_remove d (im_retained m)) (op_dot a) = Some (held a)" if "a \<in> S - insert op B" for a
      using that D(8) op(2) by auto
    ultimately have "replica_ops U (fold_op (im_evidence m) d m) S (insert op B)"
      using m op Some unfolding replica_ops_def fold_op_def by (auto simp: im_evidence_def)
    then show ?thesis by blast
  qed
  show "im_evidence (fold_op (im_evidence m) d m) = im_evidence m"
    by (auto simp: fold_op_def im_evidence_def split: option.splits)
qed

lemma replica_folds:
  assumes U: "causal_ops U" and ev: "im_evidence m = ev" and m: "replica_ops U m S B"
  shows "\<exists>B'. replica_ops U (fold (fold_op ev) ds m) S B'"
  using ev m
proof (induction ds arbitrary: m B)
  case (Cons d ds)
  note step = replica_fold_op [OF U Cons.prems(2), of d, unfolded Cons.prems(1)]
  from Cons.IH [OF step(2)] step(1) show ?case by auto
qed auto

lemma replica_absorb_taken:
  assumes U: "causal_ops U" and m: "replica_ops U m S B" and ev: "ev = im_evidence m" and s: "complete_state U ev T s"
    and down: "\<And>op b. op \<in> T \<Longrightarrow> b \<in> U \<Longrightarrow> vv_covers (op_ctx op) (op_dot b) \<Longrightarrow> b \<in> T"
  shows "\<exists>B'. replica_ops U (absorb_taken m ev s) (S \<union> T) B'"
proof -
  note D = replica_opsD [OF m]
  let ?m = "m\<lparr> im_state := join_into (im_state m) s ev, im_base := join_into (im_base m) s ev \<rparr>"
  have sT: "T \<subseteq> U" "knows (im_headers m) T" "represents ev (ops_facts T) s" "\<And>op. op \<in> T \<Longrightarrow> vv_le (op_ctx op) (st_vv s)"
    using s by (auto simp: complete_state_def ev im_evidence_def)
  have causal: "causal_headers ev" using headers_causal [OF U] D(3) by (simp add: ev im_evidence_def)
  note D' = D(11,12) [folded ev]
  have "represents ev (ops_facts (S \<union> T)) (join_into (im_state m) s ev)" "represents ev (ops_facts (B \<union> T)) (join_into (im_base m) s ev)"
    using represents_join [OF causal D'(1) sT(3)] represents_join [OF causal D'(2) sT(3)] by (simp_all add: ops_facts_Un)
  moreover have "vv_le (op_ctx op) (vv_join (st_vv (im_state m)) (st_vv s))" if "op \<in> S \<union> T" for op
    using that D(9) sT(4) vv_le_trans vv_le_join by blast
  moreover have "b \<in> S \<union> T" if "op \<in> S \<union> T" "b \<in> U" "vv_covers (op_ctx op) (op_dot b)" for op b
    using that down D(10) by blast
  moreover have "knows (im_headers m) (S \<union> T)" "B \<union> T \<subseteq> S \<union> T" "S \<union> T \<subseteq> U"
    using D(1,2,4) sT(1,2) by (auto simp: knows_def)
  moreover have "im_evidence ?m = ev" by (simp add: ev im_evidence_def)
  moreover have "\<exists>op \<in> S \<union> T. op_dot op = d \<and> b = held op" if "bt_get (im_retained m) d = Some b" for d b
    using D(7) [OF that] by blast
  moreover have "d \<in> op_dot ` (S \<union> T)" if "bs_contains (im_merged m) d" for d using D(6) [OF that] by blast
  moreover have "\<forall>op \<in> S \<union> T - (B \<union> T). bt_get (im_retained m) (op_dot op) = Some (held op)"
    using D(8) by blast
  moreover have "st_vv (im_state ?m) = vv_join (st_vv (im_state m)) (st_vv s)" by (simp add: join_into_def)
  ultimately have "replica_ops U ?m (S \<union> T) (B \<union> T)"
    unfolding replica_ops_def using D(3,5) by simp
  from replica_folds [OF U _ this] \<open>im_evidence ?m = ev\<close> show ?thesis by (simp add: absorb_taken_def Let_def)
qed

lemma absorb_taken_state:
  "im_state (absorb_taken m ev s) = join_into (im_state m) s ev" "im_evidence (absorb_taken m ev s) = im_evidence m"
proof -
  have step: "im_state (fold_op ev d q) = im_state q \<and> im_evidence (fold_op ev d q) = im_evidence q" for d q
    by (auto simp: fold_op_def im_evidence_def split: option.splits)
  have "im_state (fold (fold_op ev) ds q) = im_state q \<and> im_evidence (fold (fold_op ev) ds q) = im_evidence q" for ds q
    by (induction ds arbitrary: q) (simp_all add: step)
  then show "im_state (absorb_taken m ev s) = join_into (im_state m) s ev" "im_evidence (absorb_taken m ev s) = im_evidence m"
    by (simp_all add: absorb_taken_def Let_def) (simp add: im_evidence_def)
qed

lemma absorb_complete:
  assumes U: "causal_ops U" and m: "replica_ops U m S B" and ev: "ev = im_evidence m" and s: "complete_state U ev T s"
  shows "cut_snapshot s (heads ev) ev = Inr \<lparr> cut_state = s, cut_ignored = [] \<rparr>"
    "contradiction s (im_bodies m) ev = None" "normalize s ev = s"
proof -
  note D = replica_opsD [OF m]
  show "cut_snapshot s (heads ev) ev = Inr \<lparr> cut_state = s, cut_ignored = [] \<rparr>" by (rule cut_complete [OF U s])
  show "contradiction s (im_bodies m) ev = None"
    by (rule contradiction_complete [OF U s]) (use D(5) in \<open>auto simp: bodies_of_def\<close>)
  have "causal_headers ev" using headers_causal [OF U] D(3) by (simp add: ev im_evidence_def)
  then show "normalize s ev = s" using s by (intro normalize_represented) (auto simp: complete_state_def)
qed

text \<open>A snapshot record of another replica, read back from its bytes. \<open>held_headers\<close> is what a fetch
  brings before the snapshot: a header for every op it covers.\<close>

definition held_headers :: "op_input set \<Rightarrow> item_merge \<Rightarrow> op_input list \<Rightarrow> version_vector \<Rightarrow> bool" where
  "held_headers U m ops covered \<longleftrightarrow>
     (\<forall>op \<in> U. vv_covers covered (op_dot op) \<longrightarrow> op \<in> set ops \<or> knows (im_headers m) {op})"

lemma written_state:
  assumes "write_snapshot peer = (Inr ws, peer')" "parse_snapshot (ws_covered ws) (ws_data ws) = Inr data"
  shows "ws_covered ws = st_vv (im_state peer)" "state_from_snapshot (ws_covered ws) data = im_state peer"
proof -
  have ws: "ws_covered ws = st_vv (im_state peer)" "im_encode peer = Inr (ws_data ws)"
    using assms(1) by (auto simp: write_snapshot_def split: if_splits sum.splits)
  show "ws_covered ws = st_vv (im_state peer)" by (rule ws(1))
  obtain d where d: "state_snapshot_data (im_state peer) = Inr (Some d)"
      "encode_snapshot (st_vv (im_state peer)) d = Inr (ws_data ws)"
    using ws(2) by (auto simp: im_encode_def and_then_Inr ok_or_def split: option.splits)
  have "d = data" using d(2) assms(2) by (simp add: snapshot_codec ws(1))
  with d(1) show "state_from_snapshot (ws_covered ws) data = im_state peer"
    using state_round_trip by (simp add: ws(1))
qed

lemma replica_full:
  assumes "causal_ops U" "replica_ops U m S B"
  shows "full_state U (im_evidence m) S (im_state m)"
  using replica_opsD [OF assms(2)] covered_iff [OF assms]
  by (simp add: full_state_def complete_state_def im_evidence_def)

lemma absorb_taken_unresolved: "im_unresolved (absorb_taken m ev s) = im_unresolved m"
proof -
  have "im_unresolved (fold (fold_op ev) ds q) = im_unresolved q" for ds q
    by (induction ds arbitrary: q) (auto simp: fold_op_def split: option.splits)
  then show ?thesis by (simp add: absorb_taken_def Let_def)
qed

lemma learn_unresolved: "learn_bodies m ops = (r, m') \<Longrightarrow> im_unresolved m' = im_unresolved m"
  by (induction ops arbitrary: m) (auto simp: record_header_Inr Let_def split: sum.splits)

lemma absorb_run:
  assumes "check_record m (sh_item_id h) (sh_item_schema_version h) = Inr ()" "learn_bodies m ops = (Inr (), q)"
    and "ev = im_evidence q" "state_from_snapshot (sh_covered h) data = s"
    and "cut_snapshot s (heads ev) ev = Inr \<lparr> cut_state = s, cut_ignored = [] \<rparr>"
    and "contradiction s (im_bodies q) ev = None" "normalize s ev = s" "disagreements (im_state q) s (im_bodies q) ev = []"
    and "claim_cuts (sh_covered h) (heads ev) (sh_author h) = []"
  shows "\<exists>due. absorb_snapshot m \<lparr> si_header = h, si_data = data \<rparr> ops =
    (Inr \<lparr> an_outcome = Absorbed \<lparr> ab_relation = vv_compare (st_vv s) (st_vv (im_state q)), ab_receive_hlc = state_max_hlc s,
              ab_disagreements = [], ab_ignored_values = [] \<rparr>, an_claim_cuts = [] \<rparr>,
     (absorb_taken q ev s)\<lparr> im_merge_due := due \<rparr>)"
proof -
  have none: "bs_extend [] u = u" for u :: "dot btree_set" by (rule bs_ext) simp
  have keep: "\<exists>due. y = y\<lparr> im_merge_due := due \<rparr>" for y :: item_merge
    by (rule exI [of _ "im_merge_due y"]) simp
  show ?thesis
    using assms
    by (cases "vv_compare (st_vv s) (st_vv (im_state q)) = VvConcurrent") (auto simp: absorb_snapshot_def Let_def none intro: keep)
qed

lemma replica_absorb:
  assumes U: "causal_ops U" and m: "replica_ops U m S B" and peer: "replica_ops U peer T C"
    and ws: "write_snapshot peer = (Inr ws, peer')" "parse_snapshot (ws_covered ws) (ws_data ws) = Inr data"
    and snap: "sh_covered h = ws_covered ws" and ops: "set ops \<subseteq> U" "held_headers U m ops (ws_covered ws)"
    and r: "absorb_snapshot m \<lparr> si_header = h, si_data = data \<rparr> ops = (r, m')"
  shows "if check_record m (sh_item_id h) (sh_item_schema_version h) = Inr () \<and> fst (learn_bodies m ops) = Inr ()
    then
      (\<exists>x. r = Inr \<lparr> an_outcome = Absorbed x, an_claim_cuts = [] \<rparr> \<and> ab_ignored_values x = [] \<and> ab_disagreements x = []) \<and>
      im_state m' = join_into (im_state m) (im_state peer) (im_evidence m') \<and>
      (\<exists>B'. replica_ops U m' (S \<union> T) B') \<and> im_unresolved m' = im_unresolved m
    else (\<exists>e. r = Inl e) \<and> replica_ops U m' S B \<and> im_unresolved m' = im_unresolved m"
proof -
  obtain l q where l: "learn_bodies m ops = (l, q)" by fastforce
  note learn = replica_learn [OF U m ops(1) l]
  consider e where "check_record m (sh_item_id h) (sh_item_schema_version h) = Inl e"
    | e where "check_record m (sh_item_id h) (sh_item_schema_version h) = Inr ()" "l = Inl e"
    | "check_record m (sh_item_id h) (sh_item_schema_version h) = Inr ()" "l = Inr ()"
    by (cases "check_record m (sh_item_id h) (sh_item_schema_version h)"; cases l) auto
  then show ?thesis
  proof cases
    case 1
    with r m show ?thesis by (auto simp: absorb_snapshot_def Let_def)
  next
    case 2
    with r l learn learn_unresolved [OF l] show ?thesis by (auto simp: absorb_snapshot_def Let_def)
  next
    case 3
    note P = replica_opsD [OF peer]
    let ?ev = "im_evidence q"
    have q: "replica_ops U q S B" "im_state q = im_state m" using learn by auto
    note Q = replica_opsD [OF q(1)]
    have known: "knows (im_headers q) T"
    proof -
      have "knows (im_headers q) {op}" if "op \<in> T" for op
        using that ops(2) covered_iff [OF U peer, of op] learn written_state(1) [OF ws] 3(2)
        unfolding held_headers_def by auto
      then show ?thesis by (simp add: knows_def)
    qed
    have "represents ?ev (ops_facts T) (im_state peer)"
      using represents_evidence [OF U P(2,11), of ?ev] P(4) known Q(3) by (simp add: im_evidence_def)
    then have full: "full_state U ?ev T (im_state peer)"
      using P(2,9) known Q(3) covered_iff [OF U peer] by (simp add: full_state_def complete_state_def im_evidence_def)
    note s = full_stateD(1) [OF full]
    note abs = absorb_complete [OF U q(1) refl s]
    have dis: "disagreements (im_state q) (im_state peer) (im_bodies q) ?ev = []"
      by (rule full_no_disagreements [OF U replica_full [OF U q(1)] full]) (use Q(5) in \<open>auto simp: bodies_of_def\<close>)
    have cuts: "claim_cuts (sh_covered h) (heads ?ev) (sh_author h) = []"
    proof -
      have "vv_covers (heads ?ev) d" if "d \<in> set (vv_entries (st_vv (im_state peer)))" for d
      proof -
        have "vv_covers (st_vv (im_state peer)) d" using that by (simp add: vv_entries_iff vv_covers_def)
        then show ?thesis using complete_meet [OF s] by (metis vv_covers_meet)
      qed
      then show ?thesis by (simp add: claim_cuts_def snap written_state(1) [OF ws] filter_empty_conv)
    qed
    have l': "learn_bodies m ops = (Inr (), q)" using l 3(2) by simp
    have "state_from_snapshot (sh_covered h) data = im_state peer" using written_state(2) [OF ws] snap by simp
    from absorb_run [OF 3(1) l' refl this abs dis cuts] r obtain due x where
      r': "r = Inr \<lparr> an_outcome = Absorbed x, an_claim_cuts = [] \<rparr>" "ab_ignored_values x = []" "ab_disagreements x = []"
        "m' = (absorb_taken q ?ev (im_state peer))\<lparr> im_merge_due := due \<rparr>" by fastforce
    obtain B' where "replica_ops U (absorb_taken q ?ev (im_state peer)) (S \<union> T) B'"
      using replica_absorb_taken [OF U q(1) refl s] P(10) by blast
    then have "replica_ops U m' (S \<union> T) B'" by (simp add: r'(4) replica_ops_def im_evidence_def)
    moreover have "im_state m' = join_into (im_state m) (im_state peer) (im_evidence m')"
      using absorb_taken_state [of q ?ev "im_state peer"] q(2) by (simp add: r'(4) im_evidence_def)
    moreover have "im_unresolved m' = im_unresolved m"
      using learn_unresolved [OF l] by (simp add: r'(4) absorb_taken_unresolved)
    ultimately show ?thesis using r' 3 l by auto
  qed
qed

section \<open>Reachable replicas\<close>

text \<open>Every step a client takes on an item: new headers and wrap keys, its own and others' ops,
  snapshots of other replicas, snapshots of its own, the end of a fetch, surfaced late values. A
  step may fail; the replica it leaves is reachable all the same.\<close>

inductive replica :: "id16 \<Rightarrow> op_input set \<Rightarrow> item_merge \<Rightarrow> bool" for i U where
  new: "replica i U (item_merge_new i)"
| header: "replica i U m \<Longrightarrow> op \<in> U \<Longrightarrow> record_header m (oi_header op) = Inr m' \<Longrightarrow> replica i U m'"
| wrap_key: "replica i U m \<Longrightarrow> replica i U (add_item_key m k)"
| applied: "replica i U m \<Longrightarrow> op \<in> U \<Longrightarrow> apply_op m op = (r, m') \<Longrightarrow> replica i U m'"
| own_op: "replica i U m \<Longrightarrow> op \<in> U \<Longrightarrow> apply_own_op m op own = (r', m') \<Longrightarrow> replica i U m'"
| absorbed:
    "replica i U m \<Longrightarrow> replica i U peer \<Longrightarrow> write_snapshot peer = (Inr ws, peer') \<Longrightarrow>
     parse_snapshot (ws_covered ws) (ws_data ws) = Inr data \<Longrightarrow> sh_covered h = ws_covered ws \<Longrightarrow>
     set ops \<subseteq> U \<Longrightarrow> held_headers U m ops (ws_covered ws) \<Longrightarrow>
     absorb_snapshot m \<lparr> si_header = h, si_data = data \<rparr> ops = (r'', m') \<Longrightarrow> replica i U m'"
| wrote: "replica i U m \<Longrightarrow> write_snapshot m = (w, m') \<Longrightarrow> replica i U m'"
| fetched: "replica i U m \<Longrightarrow> end_fetch m = (t, m') \<Longrightarrow> replica i U m'"
| surfaced: "replica i U m \<Longrightarrow> replica i U (mark_surfaced m)"

lemma replica_ops_same:
  assumes "replica_ops U m S B"
    and "im_headers m' = im_headers m" "im_wrap_keys m' = im_wrap_keys m" "im_bodies m' = im_bodies m"
    "im_merged m' = im_merged m" "im_retained m' = im_retained m" "im_state m' = im_state m" "im_base m' = im_base m"
  shows "replica_ops U m' S B"
  using assms by (simp add: replica_ops_def im_evidence_def)

lemma replica_wrote:
  assumes m: "replica_ops U m S B" and w: "write_snapshot m = (w, m')"
  shows "\<exists>B'. replica_ops U m' S B'"
proof (cases w)
  case (Inl e)
  with w m show ?thesis by (auto simp: write_snapshot_def split: if_splits sum.splits)
next
  case (Inr ws)
  with w have "m' = m\<lparr> im_base := im_state m, im_retained := bt_empty, im_ops_since_snapshot := 0 \<rparr>"
    by (auto simp: write_snapshot_def split: if_splits sum.splits)
  with m have "replica_ops U m' S S" by (simp add: replica_ops_def im_evidence_def)
  then show ?thesis by blast
qed

lemma replica_reached:
  assumes U: "causal_ops U" and m: "replica i U m"
  shows "\<exists>S B. replica_ops U m S B"
  using m
proof (induction rule: replica.induct)
  case new
  show ?case using replica_new by blast
next
  case (header m op m')
  with replica_header [OF U] show ?case by blast
next
  case (wrap_key m k)
  then obtain S B where m: "replica_ops U m S B" by blast
  with replica_evidence [OF U m replica_opsD(3,4) [OF m], of "bs_insert (id_bytes k) (im_wrap_keys m)"]
  show ?case by (auto simp: add_item_key_def)
next
  case (applied m op r m')
  with replica_apply [OF U] show ?case by blast
next
  case (own_op m op own r m')
  with replica_own [OF U] show ?case by blast
next
  case (absorbed m peer ws peer' data h ops r m')
  then obtain S B T C where "replica_ops U m S B" "replica_ops U peer T C" by blast
  from replica_absorb [OF U this absorbed.hyps(3-8)] show ?case by (metis (no_types, lifting))
next
  case (wrote m w m')
  with replica_wrote show ?case by blast
next
  case (fetched m t m')
  then obtain S B where "replica_ops U m S B" by blast
  then have "replica_ops U m' S B" by (rule replica_ops_same) (use fetched.hyps in \<open>auto simp: end_fetch_def\<close>)
  then show ?case by blast
next
  case (surfaced m)
  then obtain S B where "replica_ops U m S B" by blast
  then have "replica_ops U (mark_surfaced m) S B" by (rule replica_ops_same) (simp_all add: mark_surfaced_def)
  then show ?case by blast
qed

section \<open>What no step changes\<close>

text \<open>No step renames the item; no disagreement is ever recorded.\<close>

lemma merge_body_kept:
  "merge_body m op = (r, m') \<Longrightarrow> im_item_id m' = im_item_id m \<and> im_unresolved m' = im_unresolved m"
  by (auto simp: merge_body_def record_header_Inr Let_def split: sum.splits if_splits)

lemma learn_item: "learn_bodies m ops = (r, m') \<Longrightarrow> im_item_id m' = im_item_id m"
  by (induction ops arbitrary: m) (auto simp: record_header_Inr Let_def split: sum.splits)

lemma absorb_taken_item: "im_item_id (absorb_taken m ev s) = im_item_id m"
proof -
  have "im_item_id (fold (fold_op ev) ds q) = im_item_id q" for ds q
    by (induction ds arbitrary: q) (auto simp: fold_op_def split: option.splits)
  then show ?thesis by (simp add: absorb_taken_def Let_def)
qed

lemma absorb_item: "absorb_snapshot m sn ops = (r, m') \<Longrightarrow> im_item_id m' = im_item_id m"
  by (auto simp: absorb_snapshot_def Let_def absorb_taken_item
      split: sum.splits prod.splits option.splits if_splits dest!: learn_item)

lemma replica_kept:
  assumes U: "causal_ops U" and m: "replica i U m"
  shows "im_item_id m = i \<and> im_unresolved m = bt_empty"
  using m
proof (induction rule: replica.induct)
  case new
  show ?case by (simp add: item_merge_new_def)
next
  case (header m op m')
  then show ?case by (simp add: record_header_Inr)
next
  case (applied m op r m')
  then show ?case by (auto simp: apply_op_def split: sum.splits prod.splits dest!: merge_body_kept)
next
  case (own_op m op own r m')
  then show ?case
    by (auto simp: apply_own_op_def Let_def split: sum.splits prod.splits if_splits dest!: merge_body_kept)
next
  case (absorbed m peer ws peer' data h ops r m')
  obtain S B T C where "replica_ops U m S B" "replica_ops U peer T C"
    using replica_reached [OF U] absorbed.hyps(1,2) by blast
  from replica_absorb [OF U this absorbed.hyps(3-8)] have "im_unresolved m' = im_unresolved m" by (auto split: if_splits)
  with absorb_item [OF absorbed.hyps(8)] absorbed.IH(1) show ?case by simp
next
  case (wrote m w m')
  then show ?case by (auto simp: write_snapshot_def split: if_splits sum.splits)
qed (auto simp: add_item_key_def end_fetch_def mark_surfaced_def)

section \<open>What replicas guarantee\<close>

lemma vv_add_covered:
  assumes "vv_covers v d"
  shows "vv_add d v = v"
proof (rule vv_covers_ext)
  fix e
  have "vv_covers v e" if "dot_device e = dot_device d" "dot_seq e \<le> dot_seq d"
    using that assms by (simp add: vv_covers_def)
  then show "vv_covers (vv_add d v) e \<longleftrightarrow> vv_covers v e" by (auto simp: vv_covers_add)
qed

lemma apply_ready:
  assumes "causal_ops U" "replica i U m" "op \<in> U" "oh_item_id (oi_header op) = i"
    "oh_item_schema_version (oi_header op) = isv_v1" "vv_le (op_ctx op) (st_vv (im_state m))"
  shows "\<exists>a m'. apply_op m op = (Inr a, m') \<and> st_vv (im_state m') = vv_add (op_dot op) (st_vv (im_state m))"
proof -
  obtain S B where m: "replica_ops U m S B" using replica_reached [OF assms(1,2)] by blast
  note D = replica_opsD [OF m]
  have "bt_get (im_headers m) (op_dot op) \<in> {None, Some (op_header_facts op)}"
  proof (cases "bt_get (im_headers m) (op_dot op)")
    case (Some f)
    then obtain a where a: "a \<in> U" "op_dot a = op_dot op" "f = op_header_facts a" using D(3) by (auto simp: headers_of_def)
    then have "a = op" using one_op_per_dot [OF assms(1)] assms(3) by auto
    with a Some show ?thesis by simp
  qed simp
  then obtain h where h: "record_header m (oi_header op) = Inr h" "im_state h = im_state m" "im_merged h = im_merged m"
    using assms(4,5) replica_kept [OF assms(1,2)] by (simp add: record_header_Inr op_header_facts_def)
  have ready: "is_ready h (oi_header op)" using assms(6) unfolding is_ready_def h(2) vv_compare_ready by simp
  have vv: "vv_join (st_vv (im_state m)) (vv_add (op_dot op) vv_new) = vv_add (op_dot op) (st_vv (im_state m))"
    by (simp flip: vv_add_join)
  show ?thesis
  proof (cases "bs_contains (im_merged m) (op_dot op)")
    case True
    from D(6) [OF this] obtain a where "a \<in> S" "op_dot a = op_dot op" by auto
    then have "vv_covers (st_vv (im_state m)) (op_dot op)" using covered_iff [OF assms(1) m, of a] by simp
    then have "vv_add (op_dot op) (st_vv (im_state m)) = st_vv (im_state m)" by (rule vv_add_covered)
    with True h show ?thesis by (simp add: apply_op_def merge_body_def Let_def)
  next
    case False
    with h ready vv show ?thesis
      by (auto simp: apply_op_def merge_body_def Let_def join_into_def singleton_def held_op_new_def split: prod.splits)
  qed
qed

lemma join_default:
  assumes "causal_headers ev" "represents ev A s"
  shows "join_into state_default s ev = s"
proof -
  have "represents ev ({} \<union> A) (join_into state_default s ev)"
    by (rule represents_join [OF assms(1) represents_default assms(2)])
  with assms(2) show ?thesis by (metis represents_unique sup_bot_left)
qed

text \<open>Two concurrent ops of one item, by devices 7 and 8.\<close>

definition sample_op :: "id16 \<Rightarrow> u64 \<Rightarrow> u64 \<Rightarrow> lifecycle \<Rightarrow> op_input" where
  "sample_op device sq hlc lc =
     \<lparr> oi_header = \<lparr> oh_vault_id = 9, oh_item_id = 5, oh_op_id = device, oh_dot = Dot device (nz_of sq), oh_vault_prev_seq = sq - 1,
                     oh_hlc = hlc, oh_item_schema_version = isv_v1, oh_vault_key_epoch = 1, oh_causal_context = vv_new \<rparr>,
       oi_key_id = 3, oi_data = \<lparr> op_lifecycle = lc, op_writes = [] \<rparr> \<rparr>"

definition op_a :: op_input where "op_a = sample_op 7 2 5 Active"
definition op_b :: op_input where "op_b = sample_op 8 1 6 Trashed"

abbreviation sample_run :: "op_input list \<Rightarrow> item_merge" where
  "sample_run ops \<equiv> fold (\<lambda>op m. snd (apply_op m op)) ops (item_merge_new 5)"

lemma sample_simps [simp]:
  "op_dot op_a = Dot 7 (nz_of 2)" "op_dot op_b = Dot 8 (nz_of 1)" "op_ctx op_a = vv_new" "op_ctx op_b = vv_new"
  "oh_item_id (oi_header op_a) = 5" "oh_item_id (oi_header op_b) = 5"
  "oh_item_schema_version (oi_header op_a) = isv_v1" "oh_item_schema_version (oi_header op_b) = isv_v1"
  by (simp_all add: op_a_def op_b_def sample_op_def)

lemma sample_causal: "causal_ops {op_a, op_b}"
  by (simp add: causal_ops_def writes_with_lifecycle_def held_def held_op_new_def op_a_def op_b_def sample_op_def)

lemma sample_reached: "replica 5 {op_a, op_b} m \<Longrightarrow> set ops \<subseteq> {op_a, op_b} \<Longrightarrow>
    replica 5 {op_a, op_b} (fold (\<lambda>op m. snd (apply_op m op)) ops m)"
proof (induction ops arbitrary: m)
  case (Cons op ops)
  have "replica 5 {op_a, op_b} (snd (apply_op m op))"
    by (rule replica.applied [OF Cons.prems(1), of op "fst (apply_op m op)"]) (use Cons.prems(2) in auto)
  with Cons show ?case by simp
qed simp

lemmas sample_replica = sample_reached [OF replica.new]

lemma sample_step:
  assumes "replica 5 {op_a, op_b} m" "op \<in> {op_a, op_b}"
  shows "st_vv (im_state (snd (apply_op m op))) = vv_add (op_dot op) (st_vv (im_state m))"
  using apply_ready [OF sample_causal assms] assms(2) by (auto simp: vv_le_def)

lemma sample_covered_by:
  "set ops \<subseteq> {op_a, op_b} \<Longrightarrow> st_vv (im_state (sample_run ops)) = fold (\<lambda>op. vv_add (op_dot op)) ops vv_new"
proof (induction ops rule: rev_induct)
  case (snoc op ops)
  then have "st_vv (im_state (sample_run (ops @ [op]))) = vv_add (op_dot op) (st_vv (im_state (sample_run ops)))"
    using sample_step [OF sample_replica, of ops op] by simp
  with snoc show ?case by simp
qed (simp add: item_merge_new_def state_default_def)

lemma sample_vectors: "st_vv (im_state (sample_run [op_a, op_b])) = st_vv (im_state (sample_run [op_b, op_a]))"
proof -
  have "vv_add (Dot 8 (nz_of 1)) (vv_add (Dot 7 (nz_of 2)) vv_new) = vv_add (Dot 7 (nz_of 2)) (vv_add (Dot 8 (nz_of 1)) vv_new)"
    by (rule vv_covers_ext) (auto simp: vv_covers_add)
  then show ?thesis using sample_covered_by [of "[op_a, op_b]"] sample_covered_by [of "[op_b, op_a]"] by simp
qed

text \<open>The first replica writes the snapshot of the record layer's example.\<close>

lemma sample_state: "im_state (sample_run [op_a]) = singleton (held op_a)"
proof -
  obtain h where h: "record_header (item_merge_new 5) (oi_header op_a) = Inr h"
    by (simp add: record_header_Inr item_merge_new_def)
  note head = replica_header [OF sample_causal replica_new _ h]
  have "join_into state_default (singleton (held op_a)) (im_evidence h) = singleton (held op_a)"
  proof (rule join_default)
    have hs: "headers_of {op_a, op_b} (ev_headers (im_evidence h))" "knows (ev_headers (im_evidence h)) {op_a}"
      using replica_opsD(3) [OF head(1)] head(2) by (simp_all add: knows_def im_evidence_def)
    show "causal_headers (im_evidence h)" by (rule headers_causal [OF sample_causal hs(1)])
    show "represents (im_evidence h) (op_facts (held op_a)) (singleton (held op_a))"
      by (rule represents_op [OF sample_causal hs(1) _ hs(2)]) simp
  qed
  moreover have "im_state h = state_default" "im_merged h = bt_empty" using h by (auto simp: record_header_Inr item_merge_new_def)
  moreover have "is_ready h (oi_header op_a)" unfolding is_ready_def vv_compare_ready by (simp add: vv_le_def)
  ultimately show ?thesis
    by (simp add: apply_op_def merge_body_def h Let_def held_def split: prod.splits)
qed

lemma sample_snapshot: "state_snapshot_data (singleton (held op_a)) = Inr (Some (SnapLive sample_live))"
    "st_vv (singleton (held op_a)) = sample_covered"
proof -
  have key: "held_field_key LIFECYCLE_KEY = Inr key_lifecycle" by (simp add: held_field_key_def)
  have "bt_entries (bt_insert LIFECYCLE_KEY x bt_empty) = [(LIFECYCLE_KEY, x)]" for x :: "val list"
    by (simp add: bt_eval)
  then show "state_snapshot_data (singleton (held op_a)) = Inr (Some (SnapLive sample_live))"
    by (simp add: singleton_def op_a_def sample_op_def writes_with_lifecycle_def state_snapshot_data_def state_is_absent_def
        bt_is_empty_iff bt_collect_def regs_to_def key sample_live_def val_entry_def bt_eq_iff held_def held_op_new_def bt_eval)
  show "st_vv (singleton (held op_a)) = sample_covered"
    by (rule vv_ext) (simp add: singleton_def vv_get_add sample_covered_def bt_collect_def vv_get_def [of "bt_insert _ _ _"] dot_seq_def)
qed

lemma sample_written:
  "write_snapshot (sample_run [op_a]) =
     (Inr \<lparr> ws_covered = sample_covered, ws_data = snapshot_bytes (SnapLive sample_live) \<rparr>, snd (write_snapshot (sample_run [op_a])))"
  "parse_snapshot sample_covered (snapshot_bytes (SnapLive sample_live)) = Inr (SnapLive sample_live)"
proof -
  have "snapshot_ok limits_v1 sample_covered (SnapLive sample_live)"
    by (rule sample_live_ok [OF sane_limits(1)])
      (simp_all add: limits_v1_def MAX_VALUES_def MAX_GROUPS_def MAX_VALUE_LEN_def)
  moreover have "100 \<le> lim_snapshot_data limits_v1" by (simp add: limits_v1_def MAX_SNAPSHOT_DATA_LEN_def)
  ultimately show parsed: "parse_snapshot sample_covered (snapshot_bytes (SnapLive sample_live)) = Inr (SnapLive sample_live)"
    using sample_live_bytes by (simp add: parse_snapshot_def snapshot_with_Inr)
  then have "encode_snapshot sample_covered (SnapLive sample_live) = Inr (snapshot_bytes (SnapLive sample_live))"
    by (simp add: snapshot_codec)
  moreover have "\<not> state_is_absent (im_state (sample_run [op_a]))"
    using sample_snapshot(1) unfolding sample_state by (auto simp: state_snapshot_data_def)
  moreover have "im_unresolved (sample_run [op_a]) = bt_empty"
    using replica_kept [OF sample_causal sample_replica, of "[op_a]"] by simp
  ultimately show "write_snapshot (sample_run [op_a]) =
     (Inr \<lparr> ws_covered = sample_covered, ws_data = snapshot_bytes (SnapLive sample_live) \<rparr>, snd (write_snapshot (sample_run [op_a])))"
    using sample_snapshot sample_state
    by (simp add: write_snapshot_def im_encode_def bt_is_empty_iff ok_or_def)
qed

text \<open>C1: Strong eventual consistency. Two replicas of an item that cover the same ops hold the same
  state and give the same state-hash input, whatever order they received ops and snapshots in,
  whatever duplicates, failed steps and own snapshots lie between, provided the ops of the item
  are causal and every absorbed snapshot was written by such a replica.\<close>
theorem replicas_converge:
  assumes "causal_ops U" "replica i U a" "replica i U b" "st_vv (im_state a) = st_vv (im_state b)"
  shows "im_state a = im_state b \<and> im_canonical_state a = im_canonical_state b"
proof -
  obtain S B T C where ab: "replica_ops U a S B" "replica_ops U b T C"
    using replica_reached [OF assms(1)] assms(2,3) by blast
  have "S = T" using covered_iff [OF assms(1) ab(1)] covered_iff [OF assms(1) ab(2)] assms(4) by auto
  note A = replica_opsD [OF ab(1)] and B = replica_opsD [OF ab(2), folded \<open>S = T\<close>]
  have "represents (im_evidence b) (ops_facts S) (im_state a)"
    by (rule represents_evidence [OF assms(1) A(2,11)]) (use A(4) B(3,4) in \<open>simp_all add: im_evidence_def\<close>)
  with B(11) have same: "im_state a = im_state b" by (metis represents_unique)
  have "im_canonical_state a = im_canonical_state b" unfolding im_canonical_state_def same ..
  with same show ?thesis ..
qed

theorem replicas_converge_witness:
  "im_state (sample_run [op_a, op_b]) = im_state (sample_run [op_b, op_a])"
  by (rule replicas_converge [OF sample_causal sample_replica sample_replica sample_vectors, THEN conjunct1]) simp_all

text \<open>C2: The state is the join of its ops. Whatever a replica did, its state is what joining the
  singletons of the ops its vector covers gives, in any order, to an empty item.\<close>
theorem replica_state_of_ops:
  assumes "causal_ops U" "replica i U m" "set ops = {op \<in> U. vv_covers (st_vv (im_state m)) (op_dot op)}"
  shows "im_state m = fold (\<lambda>op s. join_into s (singleton (held op)) (im_evidence m)) ops state_default"
proof -
  obtain S B where m: "replica_ops U m S B" using replica_reached [OF assms(1,2)] by blast
  note D = replica_opsD [OF m]
  have S: "set ops = S" using assms(3) covered_iff [OF assms(1) m] by auto
  let ?ev = "im_evidence m"
  have hs: "headers_of U (ev_headers ?ev)" using D(3) by (simp add: im_evidence_def)
  note causal = headers_causal [OF assms(1) hs]
  have "represents ?ev (op_facts (held op)) (singleton (held op))" if "op \<in> set ops" for op
    using represents_op [OF assms(1) hs] that D(2,4) S by (auto simp: knows_def im_evidence_def)
  from item_join.rep_fold [where ev = ?ev, of "{}" state_default ops "\<lambda>op. op_facts (held op)" "\<lambda>op. singleton (held op)"] this
  have "represents ?ev ({} \<union> \<Union> ((\<lambda>op. op_facts (held op)) ` set ops))
      (fold (\<lambda>op s. join_into s (singleton (held op)) ?ev) ops state_default)"
    using represents_default causal by simp
  then have "represents ?ev (ops_facts S) (fold (\<lambda>op s. join_into s (singleton (held op)) ?ev) ops state_default)"
    by (simp add: ops_facts_def S)
  with D(11) show ?thesis by (metis represents_unique)
qed

lemma sample_all_covered: "{op \<in> {op_a, op_b}. vv_covers (st_vv (im_state (sample_run [op_a, op_b]))) (op_dot op)} = {op_a, op_b}"
  using sample_covered_by [of "[op_a, op_b]"] by (auto simp: vv_covers_add)

theorem replica_state_of_ops_witness:
  "im_state (sample_run [op_a, op_b]) =
     fold (\<lambda>op s. join_into s (singleton (held op)) (im_evidence (sample_run [op_a, op_b]))) [op_b, op_a] state_default"
  by (rule replica_state_of_ops [OF sample_causal sample_replica]) (simp, simp only: sample_all_covered, auto)

text \<open>C4: An op whose context is covered applies. On a reachable replica, an op of the item whose
  causal context the covered vector includes is accepted, and the vector then covers it and
  nothing else that is new.\<close>
theorem ready_op_applies:
  assumes "causal_ops U" "replica i U m" "op \<in> U" "oh_item_id (oi_header op) = i"
    "oh_item_schema_version (oi_header op) = isv_v1" "vv_le (op_ctx op) (st_vv (im_state m))"
  shows "\<exists>a m'. apply_op m op = (Inr a, m') \<and> st_vv (im_state m') = vv_add (op_dot op) (st_vv (im_state m))"
  using assms by (rule apply_ready)

theorem ready_op_applies_witness:
  "\<exists>a m'. apply_op (item_merge_new 5) op_a = (Inr a, m') \<and> st_vv (im_state m') = vv_add (Dot 7 (nz_of 2)) vv_new"
  using ready_op_applies [OF sample_causal replica.new, of op_a]
  by (simp add: item_merge_new_def state_default_def)

text \<open>C5: The newest-snapshot basis and the retained ops rebuild the state: joining the singletons of
  the retained ops to the basis gives the replica's state, so every op no longer retained may be
  dropped.\<close>
theorem basis_rebuilds_state:
  assumes "causal_ops U" "replica i U m"
  shows "fold (\<lambda>d s. join_into s (singleton (the (bt_get (im_retained m) d))) (im_evidence m)) (retained_ops m) (im_base m) =
    im_state m"
proof -
  obtain S B where m: "replica_ops U m S B" using replica_reached [OF assms(1,2)] by blast
  note D = replica_opsD [OF m]
  let ?ev = "im_evidence m" and ?R = "\<lambda>d. the (bt_get (im_retained m) d)"
  have hs: "headers_of U (ev_headers ?ev)" using D(3) by (simp add: im_evidence_def)
  have R: "\<exists>op \<in> S. op_dot op = d \<and> ?R d = held op" if "d \<in> set (retained_ops m)" for d
    using that D(7) by (force simp: retained_ops_def)
  have rep: "represents ?ev (op_facts (?R d)) (singleton (?R d))" if "d \<in> set (retained_ops m)" for d
    using R [OF that] represents_op [OF assms(1) hs] D(2,4) by (fastforce simp: knows_def im_evidence_def)
  have "represents ?ev (ops_facts B \<union> \<Union> ((\<lambda>d. op_facts (?R d)) ` set (retained_ops m)))
      (fold (\<lambda>d s. join_into s (singleton (?R d)) ?ev) (retained_ops m) (im_base m))"
    using item_join.rep_fold [where ev = ?ev, of "ops_facts B" "im_base m" "retained_ops m" "\<lambda>d. op_facts (?R d)" "\<lambda>d. singleton (?R d)"]
      rep D(12) headers_causal [OF assms(1) hs] by simp
  moreover have "ops_facts B \<union> \<Union> ((\<lambda>d. op_facts (?R d)) ` set (retained_ops m)) = ops_facts S"
  proof (rule equalityI)
    show "ops_facts B \<union> \<Union> ((\<lambda>d. op_facts (?R d)) ` set (retained_ops m)) \<subseteq> ops_facts S"
      using R D(1) unfolding ops_facts_def by fastforce
    have "op_facts (held op) \<subseteq> ops_facts B \<union> \<Union> ((\<lambda>d. op_facts (?R d)) ` set (retained_ops m))" if "op \<in> S" for op
    proof (cases "op \<in> B")
      case True
      then show ?thesis by (auto simp: ops_facts_def)
    next
      case False
      with D(8) that have "bt_get (im_retained m) (op_dot op) = Some (held op)" by blast
      then have "op_dot op \<in> set (retained_ops m)" "?R (op_dot op) = held op" by (auto simp: retained_ops_def)
      then show ?thesis using UN_upper [of "op_dot op" "set (retained_ops m)" "\<lambda>d. op_facts (?R d)"] by auto
    qed
    then show "ops_facts S \<subseteq> ops_facts B \<union> \<Union> ((\<lambda>d. op_facts (?R d)) ` set (retained_ops m))"
      unfolding ops_facts_def [of S] by blast
  qed
  ultimately show ?thesis using D(11) by (metis represents_unique)
qed

theorem basis_rebuilds_state_witness:
  "fold (\<lambda>d s. join_into s (singleton (the (bt_get (im_retained (sample_run [op_a, op_b])) d))) (im_evidence (sample_run [op_a, op_b])))
     (retained_ops (sample_run [op_a, op_b])) (im_base (sample_run [op_a, op_b])) = im_state (sample_run [op_a, op_b])"
  by (rule basis_rebuilds_state [OF sample_causal sample_replica]) simp

text \<open>C3: Honest replicas never disagree. A snapshot another replica wrote, read back from its bytes,
  is absorbed by any replica that holds the headers of the ops it covers: no claim is cut, no
  value ignored, no disagreement reported, and the state becomes the join of the two states.\<close>
theorem honest_snapshot_absorbed:
  assumes "causal_ops U" "replica i U m" "replica i U peer"
    and "write_snapshot peer = (Inr ws, peer')" "parse_snapshot (ws_covered ws) (ws_data ws) = Inr data"
    and "sh_covered h = ws_covered ws" "sh_item_id h = i" "sh_item_schema_version h = isv_v1"
    and "held_headers U m [] (ws_covered ws)"
  shows "case absorb_snapshot m \<lparr> si_header = h, si_data = data \<rparr> [] of
      (Inl e, m') \<Rightarrow> False
    | (Inr a, m') \<Rightarrow>
        an_claim_cuts a = [] \<and>
        (\<exists>x. an_outcome a = Absorbed x \<and> ab_disagreements x = [] \<and> ab_ignored_values x = []) \<and>
        im_state m' = join_into (im_state m) (im_state peer) (im_evidence m') \<and>
        unresolved m' = unresolved m"
proof -
  obtain S B T C where mp: "replica_ops U m S B" "replica_ops U peer T C"
    using replica_reached [OF assms(1)] assms(2,3) by blast
  obtain r m' where r: "absorb_snapshot m \<lparr> si_header = h, si_data = data \<rparr> [] = (r, m')" by fastforce
  have "check_record m (sh_item_id h) (sh_item_schema_version h) = Inr ()"
    using assms(7,8) replica_kept [OF assms(1,2)] by (simp add: check_record_def)
  with replica_absorb [OF assms(1) mp assms(4-6) _ assms(9) r] show ?thesis
    by (auto simp: r unresolved_def)
qed

definition sample_header :: snapshot_header where
  "sample_header = \<lparr> sh_vault_id = 9, sh_item_id = 5, sh_snapshot_id = 1, sh_author = 7,
     sh_item_schema_version = isv_v1, sh_vault_key_epoch = 1, sh_covered = sample_covered \<rparr>"

definition sample_reader :: item_merge where
  "sample_reader = (case record_header (sample_run [op_b]) (oi_header op_a) of Inl _ \<Rightarrow> item_merge_new 5 | Inr m \<Rightarrow> m)"

lemma sample_reader_ready:
  "replica 5 {op_a, op_b} sample_reader" "held_headers {op_a, op_b} sample_reader [] sample_covered"
proof -
  have b: "replica 5 {op_a, op_b} (sample_run [op_b])" by (rule sample_replica) simp
  then obtain S B where m: "replica_ops {op_a, op_b} (sample_run [op_b]) S B" using replica_reached [OF sample_causal] by blast
  note D = replica_opsD [OF m]
  have "bt_get (im_headers (sample_run [op_b])) (op_dot op_a) \<in> {None, Some (op_header_facts op_a)}"
    using D(3) by (cases "bt_get (im_headers (sample_run [op_b])) (op_dot op_a)") (fastforce simp: headers_of_def)+
  then obtain h where h: "record_header (sample_run [op_b]) (oi_header op_a) = Inr h"
    using replica_kept [OF sample_causal b] by (simp add: record_header_Inr op_header_facts_def)
  then have r: "sample_reader = h" by (simp add: sample_reader_def)
  show "replica 5 {op_a, op_b} sample_reader" unfolding r by (rule replica.header [OF b _ h]) simp
  have "knows (im_headers h) {op_a}" using replica_header(2) [OF sample_causal m _ h] by (simp add: knows_def)
  moreover have "\<not> vv_covers sample_covered (op_dot op_b)"
    by (simp add: sample_covered_def bt_collect_def vv_covers_def vv_get_def)
  ultimately show "held_headers {op_a, op_b} sample_reader [] sample_covered" by (simp add: held_headers_def r)
qed

theorem honest_snapshot_absorbed_witness:
  "case absorb_snapshot sample_reader \<lparr> si_header = sample_header, si_data = SnapLive sample_live \<rparr> [] of
     (Inl e, m') \<Rightarrow> False
   | (Inr a, m') \<Rightarrow>
       an_claim_cuts a = [] \<and>
       (\<exists>x. an_outcome a = Absorbed x \<and> ab_disagreements x = [] \<and> ab_ignored_values x = []) \<and>
       im_state m' = join_into (im_state sample_reader) (im_state (sample_run [op_a])) (im_evidence m') \<and>
       unresolved m' = unresolved sample_reader"
  by (rule honest_snapshot_absorbed [OF sample_causal sample_reader_ready(1) sample_replica sample_written(1)])
    (use sample_written(2) in \<open>simp_all add: sample_header_def sample_reader_ready(2)\<close>)

end
