(* ===== verification/Item_Safety.thy ===== *)
theory Item_Safety
  imports Item_Replicas
begin

text \<open>
  What holds of every replica, whatever records reach it: no operation shrinks the covered vector
  or brings a purged item back, a snapshot moves neither the vector nor a value past the verified
  headers, and an op that is refused or repeated changes no state.
\<close>

section \<open>Any operation\<close>

text \<open>One call of any operation of \<open>ItemMerge\<close> that changes it, with any input and any result.\<close>

inductive merge_step :: "item_merge \<Rightarrow> item_merge \<Rightarrow> bool" where
  header: "record_header m h = Inr m' \<Longrightarrow> merge_step m m'"
| wrap_key: "merge_step m (add_item_key m k)"
| applied: "apply_op m op = (r, m') \<Longrightarrow> merge_step m m'"
| own_op: "apply_own_op m op own = (r, m') \<Longrightarrow> merge_step m m'"
| absorbed: "absorb_snapshot m sn ops = (r', m') \<Longrightarrow> merge_step m m'"
| fetched: "end_fetch m = (t, m') \<Longrightarrow> merge_step m m'"
| wrote: "write_snapshot m = (w, m') \<Longrightarrow> merge_step m m'"
| reissued: "reissue_own_op m h k ri = (t', m') \<Longrightarrow> merge_step m m'"
| surfaced: "merge_step m (mark_surfaced m)"

text \<open>\<open>grows m m'\<close>: the covered vector and the headers only grow, a tombstone stays one.\<close>

definition grows :: "item_merge \<Rightarrow> item_merge \<Rightarrow> bool" where
  "grows m m' \<longleftrightarrow>
     vv_le (st_vv (im_state m)) (st_vv (im_state m')) \<and>
     (state_is_tomb (im_state m) \<longrightarrow> state_is_tomb (im_state m')) \<and>
     (\<forall>d h. bt_get (im_headers m) d = Some h \<longrightarrow> bt_get (im_headers m') d = Some h)"

lemma grows_refl: "grows m m"
  by (simp add: grows_def)

lemma grows_trans: "grows a b \<Longrightarrow> grows b c \<Longrightarrow> grows a c"
  unfolding grows_def using vv_le_trans by blast

lemma grows_same:
  "im_state m' = im_state m \<Longrightarrow> im_headers m' = im_headers m \<Longrightarrow> grows m m'"
  by (simp add: grows_def)

lemma grows_join:
  "im_state m' = join_into (im_state m) s ev \<Longrightarrow> im_headers m' = im_headers m \<Longrightarrow> grows m m'"
  by (auto simp: grows_def join_into_def state_is_tomb_def split: shape.splits)

lemma grows_header: "record_header m h = Inr m' \<Longrightarrow> grows m m'"
  by (auto simp: grows_def record_header_Inr)

lemma grows_merge_body:
  assumes "merge_body m op = (r, m')"
  shows "grows m m'"
proof (cases "record_header m (oi_header op)")
  case (Inl e)
  with assms show ?thesis by (auto simp: merge_body_def grows_refl)
next
  case (Inr h)
  have "grows h m'"
  proof (cases "bs_contains (im_merged h) (op_dot op) \<or> \<not> is_ready h (oi_header op)")
    case True
    with assms Inr have "m' = h" by (auto simp: merge_body_def Let_def split: if_splits)
    then show ?thesis by (simp add: grows_refl)
  next
    case False
    with assms Inr have "im_state m' = join_into (im_state h) (singleton (held op)) (im_evidence h)" "im_headers m' = im_headers h"
      by (auto simp: merge_body_def Let_def held_def split: if_splits)
    then show ?thesis by (rule grows_join)
  qed
  with grows_header [OF Inr] show ?thesis by (rule grows_trans)
qed

lemma grows_learn: "learn_bodies m ops = (r, m') \<Longrightarrow> grows m m'"
proof (induction ops arbitrary: m)
  case (Cons op ops)
  show ?case
  proof (cases "record_header m (oi_header op)")
    case (Inl e)
    with Cons.prems show ?thesis by (simp add: grows_refl)
  next
    case (Inr h)
    let ?h = "h\<lparr> im_bodies := bt_insert (op_dot op) (held op) (im_bodies h) \<rparr>"
    have "learn_bodies ?h ops = (r, m')" using Cons.prems Inr by (simp add: Let_def held_def held_op_new_def)
    then have "grows ?h m'" by (rule Cons.IH)
    moreover have "grows h ?h" by (rule grows_same) simp_all
    ultimately show ?thesis using grows_header [OF Inr] grows_trans by blast
  qed
qed (simp add: grows_refl)

lemma absorb_outcome_cases:
  assumes "absorb_snapshot m sn ops = (r, m')"
  obtains "m' = m"
    | q l where "learn_bodies m ops = (l, q)" "m' = q"
    | q c where "learn_bodies m ops = (Inr (), q)"
        "cut_snapshot (state_from_snapshot (sh_covered (si_header sn)) (si_data sn)) (heads (im_evidence q)) (im_evidence q) = Inr c"
        "im_state m' = join_into (im_state q) (normalize (cut_state c) (im_evidence q)) (im_evidence q)"
        "im_evidence m' = im_evidence q"
proof (cases "check_record m (sh_item_id (si_header sn)) (sh_item_schema_version (si_header sn))")
  case (Inl e)
  with assms that(1) show ?thesis by (simp add: absorb_snapshot_def Let_def)
next
  case ok: (Inr u)
  obtain l q where l: "learn_bodies m ops = (l, q)" by fastforce
  let ?ev = "im_evidence q" and ?s = "state_from_snapshot (sh_covered (si_header sn)) (si_data sn)"
  show ?thesis
  proof (cases "\<exists>c. l = Inr () \<and> cut_snapshot ?s (heads ?ev) ?ev = Inr c \<and> contradiction (cut_state c) (im_bodies q) ?ev = None")
    case False
    then have "m' = q"
      using assms ok l by (cases l; cases "cut_snapshot ?s (heads ?ev) ?ev") (auto simp: absorb_snapshot_def Let_def split: option.splits)
    with that(2) l show ?thesis by blast
  next
    case True
    then obtain c where c: "l = Inr ()" "cut_snapshot ?s (heads ?ev) ?ev = Inr c" "contradiction (cut_state c) (im_bodies q) ?ev = None"
      by blast
    let ?t = "absorb_taken q ?ev (normalize (cut_state c) ?ev)"
    have "im_state m' = im_state ?t \<and> im_evidence m' = im_evidence ?t"
      using assms ok l c by (auto simp: absorb_snapshot_def Let_def im_evidence_def split: if_splits)
    with that(3) [of q c] l c absorb_taken_state [of q ?ev] show ?thesis by auto
  qed
qed

lemma grows_absorb:
  assumes "absorb_snapshot m sn ops = (r, m')"
  shows "grows m m'"
  using assms
proof (cases rule: absorb_outcome_cases)
  case 1
  then show ?thesis by (simp add: grows_refl)
next
  case (2 q l)
  with grows_learn show ?thesis by blast
next
  case (3 q c)
  have "grows q m'" by (rule grows_join [OF 3(3)]) (use 3(4) in \<open>simp add: im_evidence_def\<close>)
  with grows_learn [OF 3(1)] show ?thesis by (rule grows_trans)
qed

lemma step_grows: "merge_step m m' \<Longrightarrow> grows m m'"
proof (induction rule: merge_step.induct)
  case (header m h m')
  then show ?case by (rule grows_header)
next
  case (wrap_key m k)
  show ?case by (rule grows_same) (simp_all add: add_item_key_def)
next
  case (applied m op r m')
  then show ?case using grows_merge_body by (auto simp: apply_op_def split: prod.splits sum.splits)
next
  case (own_op m op own r m')
  then show ?case
    using grows_merge_body grows_refl by (auto simp: apply_own_op_def Let_def split: prod.splits sum.splits if_splits)
next
  case (absorbed m sn ops r m')
  then show ?case by (rule grows_absorb)
next
  case (fetched m t m')
  then show ?case by (auto simp: end_fetch_def intro: grows_same)
next
  case (wrote m w m')
  then show ?case by (auto simp: write_snapshot_def intro: grows_same split: if_splits sum.splits)
next
  case (reissued m h k ri t m')
  have key: "st_vv (set_purge_key d k s) = st_vv s" "state_is_tomb (set_purge_key d k s) = state_is_tomb s" for d s
    by (auto simp: set_purge_key_def state_is_tomb_def split: shape.splits)
  from reissued show ?case
    by (auto simp: reissue_own_op_def Let_def grows_def key split: sum.splits if_splits)
next
  case (surfaced m)
  show ?case by (rule grows_same) (simp_all add: mark_surfaced_def)
qed

text \<open>C6: Purges are final and knowledge only grows. No run of operations, on any input, turns a
  purged item back into a live one, forgets a covered op or replaces a verified header.\<close>
theorem runs_only_grow:
  assumes "merge_step\<^sup>*\<^sup>* m m'"
  shows "vv_le (st_vv (im_state m)) (st_vv (im_state m')) \<and>
    (im_lifecycle m = LcPurged \<longrightarrow> im_lifecycle m' = LcPurged) \<and>
    (\<forall>d h. bt_get (im_headers m) d = Some h \<longrightarrow> bt_get (im_headers m') d = Some h)"
proof -
  from assms have "grows m m'"
    by (induction rule: rtranclp_induct) (auto intro: grows_refl grows_trans step_grows)
  moreover have "im_lifecycle q = LcPurged \<longleftrightarrow> state_is_tomb (im_state q)" for q
    by (auto simp: im_lifecycle_def split: option.splits shown_lifecycle.splits)
  ultimately show ?thesis by (simp add: grows_def)
qed

definition op_p :: op_input where "op_p = sample_op 7 2 5 Purge"

lemma sample_purged: "im_lifecycle (snd (apply_op (item_merge_new 5) op_p)) = LcPurged"
proof -
  obtain h where h: "record_header (item_merge_new 5) (oi_header op_p) = Inr h"
    by (simp add: record_header_Inr item_merge_new_def op_p_def sample_op_def)
  moreover have "im_state h = state_default" "im_merged h = bt_empty" using h by (auto simp: record_header_Inr item_merge_new_def)
  moreover have "is_ready h (oi_header op_p)" unfolding is_ready_def vv_compare_ready by (simp add: vv_le_def op_p_def sample_op_def)
  ultimately show ?thesis
    by (simp add: apply_op_def merge_body_def Let_def im_lifecycle_def state_is_tomb_def join_into_def
        state_default_def singleton_def held_op_new_def op_p_def sample_op_def split: prod.splits)
qed

theorem runs_only_grow_witness:
  "im_lifecycle (snd (apply_op (snd (apply_op (item_merge_new 5) op_p)) op_b)) = LcPurged"
proof -
  let ?m = "snd (apply_op (item_merge_new 5) op_p)"
  have "merge_step ?m (snd (apply_op ?m op_b))" by (rule merge_step.applied [of _ _ "fst (apply_op ?m op_b)"]) simp
  then have "merge_step\<^sup>*\<^sup>* ?m (snd (apply_op ?m op_b))" by (rule r_into_rtranclp)
  from runs_only_grow [OF this] sample_purged show ?thesis by blast
qed

section \<open>Snapshots are claims\<close>

text \<open>A join invents no value.\<close>

definition regs_within :: "(bytes \<times> val) set \<Rightarrow> regs \<Rightarrow> bool" where
  "regs_within V rs \<longleftrightarrow> set (regs_values rs) \<subseteq> V"

lemma regs_within_iff: "regs_within V rs \<longleftrightarrow> (\<forall>k v. v \<in> set (vals_at rs k) \<longrightarrow> (k, v) \<in> V)"
  by (auto simp: regs_within_def regs_values_at)

lemma maximal_within: "set (fst (maximal vs ev)) \<subseteq> set vs" "set (snd (maximal vs ev)) \<subseteq> set vs"
  using cur_subset [of ev "set vs"] by (simp_all add: maximal_sets)

lemma prune_within: "set (prune vs) \<subseteq> set vs"
  by (auto simp: prune_def sort_key_desc_def dest: in_set_takeD)

lemma within_insert:
  "regs_within V rs \<Longrightarrow> Pair k ` set vs \<subseteq> V \<Longrightarrow> regs_within V (bt_insert k vs rs)"
  "regs_within V rs \<Longrightarrow> regs_within V (bt_remove k rs)"
  by (auto simp: regs_within_iff vals_at_def split: if_splits option.splits)

lemma set_live_within:
  assumes "regs_within V (lv_regs l) \<and> regs_within V (lv_hist l)" "Pair k ` set vs \<subseteq> V"
  shows "regs_within V (lv_regs (set_live_key l k vs ev)) \<and> regs_within V (lv_hist (set_live_key l k vs ev))"
proof -
  have "Pair k ` set (fst (maximal vs ev)) \<subseteq> V" "Pair k ` set (prune (snd (maximal vs ev))) \<subseteq> V"
    using maximal_within [of vs ev] prune_within [of "snd (maximal vs ev)"] assms(2) by blast+
  with assms(1) show ?thesis by (auto simp: set_live_key_def Let_def case_prod_beta intro: within_insert)
qed

lemma values_of_within: "(\<And>r. r \<in> set rs \<Longrightarrow> regs_within V r) \<Longrightarrow> Pair k ` set (values_of k rs) \<subseteq> V"
  by (fastforce simp: values_of_sets regs_within_iff)

lemma join_live_within:
  assumes "regs_within V (lv_regs x) \<and> regs_within V (lv_hist x)" "regs_within V (lv_regs y) \<and> regs_within V (lv_hist y)"
  shows "regs_within V (lv_regs (join_live_into x y ev)) \<and> regs_within V (lv_hist (join_live_into x y ev))"
proof -
  have "regs_within V (lv_regs (fold (\<lambda>key x. set_live_key x key (values_of key [lv_regs x, lv_hist x, lv_regs y, lv_hist y]) ev) ks x)) \<and>
      regs_within V (lv_hist (fold (\<lambda>key x. set_live_key x key (values_of key [lv_regs x, lv_hist x, lv_regs y, lv_hist y]) ev) ks x))"
    if "regs_within V (lv_regs x) \<and> regs_within V (lv_hist x)" for ks and x :: live
    using that
  proof (induction ks arbitrary: x)
    case (Cons k ks)
    have "Pair k ` set (values_of k [lv_regs x, lv_hist x, lv_regs y, lv_hist y]) \<subseteq> V"
      by (rule values_of_within) (use Cons.prems assms(2) in auto)
    from Cons.IH [OF set_live_within [OF Cons.prems this]] show ?case by simp
  qed simp
  with assms(1) show ?thesis by (simp add: join_live_into_def)
qed

lemma set_late_within:
  "regs_within V (tb_late t) \<Longrightarrow> Pair k ` set vs \<subseteq> V \<Longrightarrow> regs_within V (tb_late (set_late_key t k vs ev))"
proof -
  assume *: "regs_within V (tb_late t)" "Pair k ` set vs \<subseteq> V"
  then have "Pair k ` set (filter (\<lambda>v. \<not> vv_covers (tb_c t) (vl_dot v)) (fst (maximal vs ev))) \<subseteq> V"
    using maximal_within(1) [of vs ev] by auto
  with * show ?thesis by (simp add: set_late_key_def Let_def within_insert)
qed

lemma drop_covered_within: "regs_within V rs \<Longrightarrow> regs_within V (drop_covered c rs)"
proof -
  have "set (vals_at (drop_covered c rs) k) \<subseteq> set (vals_at rs k)" for k
    by (cases "bt_get rs k") (auto simp: vals_at_def drop_covered_def)
  then show "regs_within V rs \<Longrightarrow> regs_within V (drop_covered c rs)" unfolding regs_within_iff by blast
qed

lemma late_pass_within:
  "regs_within V (tb_late t) \<Longrightarrow> (\<And>r. r \<in> set sources \<Longrightarrow> regs_within V r) \<Longrightarrow>
   regs_within V (tb_late (fold (late_pass ev sources) ks t))"
proof (induction ks arbitrary: t)
  case (Cons k ks)
  have "Pair k ` set (vals_at (tb_late t) k @ values_of k sources) \<subseteq> V"
    using Cons.prems values_of_within [of sources V k] by (auto simp: regs_within_iff)
  then have "regs_within V (tb_late (late_pass ev sources k t))"
    using set_late_within [OF Cons.prems(1)] by (simp add: late_pass_def concat_vals_at)
  from Cons.IH [OF this Cons.prems(2)] show ?case by simp
qed simp

lemma join_tomb_within:
  assumes "regs_within V (tb_late t)" "\<And>r. r \<in> set (shape_regs sh) \<Longrightarrow> regs_within V r"
  shows "regs_within V (tb_late (join_tomb_into t sh ev))"
proof -
  have "tb_late (tomb_start t sh ev) = tb_late t" by (cases sh) simp_all
  then have "regs_within V (tb_late (fold (late_pass ev (shape_regs sh)) ks (tomb_start t sh ev)))" for ks
    using late_pass_within [of V "tomb_start t sh ev" "shape_regs sh" ev ks] assms by simp
  then show ?thesis by (simp add: join_tomb_into_steps Let_def drop_covered_within)
qed

definition within :: "(bytes \<times> val) set \<Rightarrow> item_state \<Rightarrow> bool" where
  "within V s \<longleftrightarrow> set (state_values s) \<subseteq> V"

lemma within_shape: "within V s \<longleftrightarrow> (\<forall>r \<in> set (shape_regs (st_shape s)). regs_within V r)"
  by (cases "st_shape s") (auto simp: within_def state_values_def regs_within_def)

lemma join_within: "within V a \<Longrightarrow> within V b \<Longrightarrow> within V (join_into a b ev)"
  by (cases "st_shape a"; cases "st_shape b")
    (auto simp: within_shape join_into_def intro: join_tomb_within
      join_live_within [THEN conjunct1] join_live_within [THEN conjunct2])

lemma normalize_within:
  assumes "within V s"
  shows "within V (normalize s ev)"
proof (cases "st_shape s")
  case (ShLive l)
  with assms have l: "regs_within V (lv_regs l)" "regs_within V (lv_hist l)" by (simp_all add: within_shape)
  have "regs_within V (lv_regs (fold (\<lambda>key out. set_live_key out key (values_of key [lv_regs l, lv_hist l]) ev) ks x)) \<and>
      regs_within V (lv_hist (fold (\<lambda>key out. set_live_key out key (values_of key [lv_regs l, lv_hist l]) ev) ks x))"
    if "regs_within V (lv_regs x) \<and> regs_within V (lv_hist x)" for ks x
    using that
  proof (induction ks arbitrary: x)
    case (Cons k ks)
    have "Pair k ` set (values_of k [lv_regs l, lv_hist l]) \<subseteq> V" by (rule values_of_within) (use l in auto)
    from Cons.IH [OF set_live_within [OF Cons.prems this]] show ?case by simp
  qed simp
  from this [of live_default] ShLive show ?thesis
    by (simp add: within_shape normalize_def live_default_def regs_within_iff vals_at_def)
next
  case (ShTomb t)
  with assms have t: "regs_within V (tb_late t)" by (simp add: within_shape)
  have "regs_within V (tb_late (fold (\<lambda>key out. set_late_key out key (vals_at (tb_late t) key) ev) ks x))"
    if "regs_within V (tb_late x)" for ks x
    using that
  proof (induction ks arbitrary: x)
    case (Cons k ks)
    have "Pair k ` set (vals_at (tb_late t) k) \<subseteq> V" using t by (auto simp: regs_within_iff)
    from Cons.IH [OF set_late_within [OF Cons.prems this]] show ?case by simp
  qed simp
  then show ?thesis
    using ShTomb fold_entries [of "\<lambda>key values out. set_late_key out key values ev" "tb_late t"]
    by (simp add: within_shape normalize_def regs_within_iff [of V bt_empty] vals_at_def [of bt_empty])
qed

definition vouched_values :: "evidence \<Rightarrow> (bytes \<times> val) set" where
  "vouched_values ev = {(k, v). ev_hlc ev (vl_dot v) = Some (vl_hlc v)}"

lemma take_within: "regs_within (vouched_values ev) (take_regs vv ev rs)"
proof -
  have "set (vals_at (take_regs vv ev rs) k) \<subseteq> {v. vouches ev v}" for k
    by (cases "bt_get rs k") (auto simp: vals_at_def take_regs_def Let_def)
  then show ?thesis by (auto simp: regs_within_iff vouched_values_def vouches_def)
qed

lemma cut_within:
  assumes "cut_snapshot s hds ev = Inr c"
  shows "within (vouched_values ev) (cut_state c)" "st_vv (cut_state c) = vv_meet (st_vv s) hds"
proof -
  show "st_vv (cut_state c) = vv_meet (st_vv s) hds"
    using assms by (auto simp: cut_snapshot_def Let_def split: shape.splits if_splits)
  show "within (vouched_values ev) (cut_state c)"
  proof (cases "st_shape s")
    case (ShLive l)
    with assms take_within show ?thesis by (auto simp: cut_snapshot_def Let_def within_shape)
  next
    case (ShTomb t)
    let ?take = "take_regs (vv_meet (st_vv s) hds) ev (tb_late t)"
    have sub: "set (vals_at (bt_retain (\<lambda>_ values. values \<noteq> []) (bt_retain_map (\<lambda>_ values. Some (filter P values)) ?take)) k)
        \<subseteq> set (vals_at ?take k)" for P k
      by (cases "bt_get ?take k") (auto simp: vals_at_def)
    have "regs_within (vouched_values ev) (bt_retain (\<lambda>_ values. values \<noteq> []) (bt_retain_map (\<lambda>_ values. Some (filter P values)) ?take))" for P
      using take_within [of ev "vv_meet (st_vv s) hds" "tb_late t"] sub [of P] unfolding regs_within_iff by blast
    with assms ShTomb show ?thesis by (auto simp: cut_snapshot_def Let_def within_shape split: if_splits)
  qed
qed

text \<open>C7: A snapshot is a claim bounded by evidence. Whatever record a replica is handed, absorbing it
  advances the covered vector no further than the verified headers, and every value the state
  then holds was held before or carries the clock of its verified header.\<close>
theorem claims_bounded:
  "vv_le (st_vv (im_state (snd (absorb_snapshot m sn ops))))
     (vv_join (st_vv (im_state m)) (heads (im_evidence (snd (absorb_snapshot m sn ops))))) \<and>
   set (state_values (im_state (snd (absorb_snapshot m sn ops)))) \<subseteq>
     set (state_values (im_state m)) \<union> vouched_values (im_evidence (snd (absorb_snapshot m sn ops)))"
proof -
  obtain r m' where r: "absorb_snapshot m sn ops = (r, m')" by fastforce
  have learnt: "im_state q = im_state m" if "learn_bodies m ops = (l, q)" for l q
    using that by (induction ops arbitrary: m) (auto simp: record_header_Inr Let_def split: sum.splits)
  have "vv_le (st_vv (im_state m')) (vv_join (st_vv (im_state m)) (heads (im_evidence m'))) \<and>
      set (state_values (im_state m')) \<subseteq> set (state_values (im_state m)) \<union> vouched_values (im_evidence m')"
    using r
  proof (cases rule: absorb_outcome_cases)
    case (3 q c)
    let ?ev = "im_evidence q" and ?V = "set (state_values (im_state m)) \<union> vouched_values (im_evidence q)"
    note cut = cut_within [OF 3(2)]
    have "within ?V (im_state q)" using learnt [OF 3(1)] by (simp add: within_def)
    moreover have "within ?V (normalize (cut_state c) ?ev)"
      by (rule normalize_within) (use cut(1) in \<open>auto simp: within_def\<close>)
    ultimately have "within ?V (im_state m')" unfolding 3(3) by (rule join_within)
    moreover have "vv_le (vv_join a (vv_meet b h)) (vv_join a h)" for a b h :: version_vector
      by (auto simp: vv_le_covers_iff)
    ultimately show ?thesis
      using learnt [OF 3(1)] cut(2) by (simp add: 3(3,4) within_def join_into_def normalize_def)
  qed (auto dest!: learnt)
  then show ?thesis by (simp add: r)
qed

section \<open>Refused and own ops\<close>

lemma merge_body_refused:
  assumes "merge_body m op = (r, m')" "\<forall>k. r = Inr k \<longrightarrow> k = KDuplicate"
  shows "m' \<in> {m, m\<lparr> im_headers := bt_insert (op_dot op) (op_header_facts op) (im_headers m) \<rparr>}"
  using assms
  by (auto simp: merge_body_def record_header_Inr op_header_facts_def Let_def split: sum.splits if_splits)

text \<open>C34: An op that is refused, not ready or already merged changes nothing but the headers: apart
  from the recorded header of the op itself the replica is the same.\<close>
theorem refused_op_changes_nothing:
  "case apply_op m op of
     (Inl e, m') \<Rightarrow> m' \<in> {m, m\<lparr> im_headers := bt_insert (op_dot op) (op_header_facts op) (im_headers m) \<rparr>}
   | (Inr a, m') \<Rightarrow>
       if ap_kind a = KDuplicate
       then m' \<in> {m, m\<lparr> im_headers := bt_insert (op_dot op) (op_header_facts op) (im_headers m) \<rparr>}
       else op_dot op \<in> set (retained_ops m') \<and> vv_covers (st_vv (im_state m')) (op_dot op)"
proof -
  obtain r m' where r: "merge_body m op = (r, m')" by fastforce
  have merged: "op_dot op \<in> set (retained_ops m') \<and> vv_covers (st_vv (im_state m')) (op_dot op)"
    if "r = Inr k" "k \<noteq> KDuplicate" for k
    using r that
    by (auto simp: merge_body_def retained_ops_def join_into_def singleton_def held_op_new_def vv_covers_add Let_def
        split: sum.splits if_splits)
  show ?thesis
  proof (cases r)
    case (Inl e)
    with merge_body_refused [OF r] show ?thesis by (simp add: apply_op_def r)
  next
    case (Inr k)
    with merge_body_refused [OF r] merged [OF Inr] show ?thesis by (simp add: apply_op_def r)
  qed
qed

text \<open>A merged op is covered, on every replica an item starts from.\<close>

lemma merge_body_merged:
  "merge_body m op = (r, m') \<Longrightarrow> bs_contains (im_merged m') d \<Longrightarrow>
   bs_contains (im_merged m) d \<or> vv_covers (st_vv (im_state m')) d"
  by (auto simp: merge_body_def record_header_Inr join_into_def singleton_def held_op_new_def vv_covers_add Let_def
      split: sum.splits if_splits)

lemma step_merged:
  assumes "merge_step m m'" "bs_contains (im_merged m') d"
  shows "bs_contains (im_merged m) d \<or> vv_covers (st_vv (im_state m')) d"
  using assms
proof (cases rule: merge_step.cases)
  case (header h)
  with assms(2) show ?thesis by (simp add: record_header_Inr)
next
  case (applied op r)
  with assms(2) merge_body_merged show ?thesis by (auto simp: apply_op_def split: prod.splits sum.splits)
next
  case (own_op op own r)
  with assms(2) merge_body_merged show ?thesis
    by (fastforce simp: apply_own_op_def Let_def split: prod.splits sum.splits if_splits)
next
  case (absorbed sn ops r)
  have learn: "im_merged q = im_merged m" if "learn_bodies m ops = (l, q)" for l q
    using that by (induction ops arbitrary: m) (auto simp: record_header_Inr Let_def split: sum.splits)
  have "im_merged (fold (fold_op ev) ds q) = im_merged q" for ev ds q
    by (induction ds arbitrary: q) (auto simp: fold_op_def split: option.splits)
  then have "im_merged (absorb_taken q ev t) = im_merged q" for q ev t by (simp add: absorb_taken_def Let_def)
  with absorbed learn have "im_merged m' = im_merged m"
    by (auto simp: absorb_snapshot_def Let_def split: sum.splits prod.splits option.splits if_splits)
  with assms(2) show ?thesis by simp
next
  case (wrote w)
  with assms(2) show ?thesis by (auto simp: write_snapshot_def split: if_splits sum.splits)
next
  case (reissued h k ri t)
  with assms(2) show ?thesis by (auto simp: reissue_own_op_def Let_def split: sum.splits if_splits)
qed (use assms(2) in \<open>auto simp: add_item_key_def end_fetch_def mark_surfaced_def\<close>)

lemma merged_covered:
  assumes "merge_step\<^sup>*\<^sup>* (item_merge_new i) m" "bs_contains (im_merged m) d"
  shows "vv_covers (st_vv (im_state m)) d"
  using assms
proof (induction arbitrary: d rule: rtranclp_induct)
  case (step m m')
  have le: "vv_le (st_vv (im_state m)) (st_vv (im_state m'))" using step_grows [OF step.hyps(2)] by (simp add: grows_def)
  from step_merged [OF step.hyps(2) step.prems] show ?case using step.IH vv_le_covers [OF le] by blast
qed (simp add: item_merge_new_def)

text \<open>C33: The writer rules. An own op is accepted only with the covered vector as its context, is
  applied and extends the vector by its own dot; a Purge only from the trash with no unapplied
  record, and the item is then purged.\<close>
theorem own_op_rules:
  assumes "merge_step\<^sup>*\<^sup>* (item_merge_new i) m" "apply_own_op m op own = (Inr a, m')"
  shows "op_ctx op = st_vv (im_state m) \<and> ap_kind a = KApplied \<and>
    st_vv (im_state m') = vv_add (op_dot op) (st_vv (im_state m)) \<and>
    (op_lifecycle (oi_data op) = Purge \<longrightarrow>
       im_lifecycle m = LcTrashed \<and> \<not> ow_holds_unapplied_record own \<and> im_lifecycle m' = LcPurged)"
proof -
  obtain k where k: "merge_body m op = (Inr k, m')" "ap_kind a = k"
    using assms(2) by (auto simp: apply_own_op_def Let_def split: sum.splits if_splits prod.splits)
  have ctx: "op_ctx op = st_vv (im_state m)" using assms(2) by (auto simp: apply_own_op_def Let_def split: sum.splits if_splits)
  have fresh: "\<not> vv_covers (st_vv (im_state m)) (op_dot op)"
    using assms(2) by (auto simp: apply_own_op_def Let_def split: sum.splits if_splits)
  obtain h where h: "record_header m (oi_header op) = Inr h" using k(1) by (auto simp: merge_body_def split: sum.splits)
  then have hm: "im_state h = im_state m" "im_merged h = im_merged m" by (auto simp: record_header_Inr)
  have "\<not> bs_contains (im_merged m) (op_dot op)" using merged_covered [OF assms(1)] fresh by blast
  then have joined: "im_state m' = join_into (im_state m) (singleton (held op)) (im_evidence h)" "k = KApplied"
    using k(1) h hm fresh by (auto simp: merge_body_def Let_def held_def split: if_splits)
  have vv: "st_vv (im_state m') = vv_add (op_dot op) (st_vv (im_state m))"
    using joined(1) by (simp add: join_into_def singleton_def flip: vv_add_join)
  have "im_lifecycle m' = LcPurged" if "op_lifecycle (oi_data op) = Purge"
    using joined(1) that
    by (auto simp: im_lifecycle_def state_is_tomb_def join_into_def singleton_def split: shape.splits)
  moreover have "im_lifecycle m = LcTrashed \<and> \<not> ow_holds_unapplied_record own" if "op_lifecycle (oi_data op) = Purge"
    using assms(2) that by (auto simp: apply_own_op_def may_purge_def Let_def split: sum.splits if_splits)
  ultimately show ?thesis using ctx vv joined(2) k(2) by simp
qed

theorem own_op_rules_witness:
  "st_vv (im_state (snd (apply_own_op (item_merge_new 5) op_a \<lparr> ow_fresh_item_key = True, ow_holds_unapplied_record = False \<rparr>))) =
     vv_add (Dot 7 (nz_of 2)) vv_new"
proof -
  let ?own = "\<lparr> ow_fresh_item_key = True, ow_holds_unapplied_record = False \<rparr>" and ?m = "item_merge_new 5"
  obtain h where h: "record_header ?m (oi_header op_a) = Inr h" by (simp add: record_header_Inr item_merge_new_def)
  moreover have "im_state h = state_default" "im_merged h = bt_empty" using h by (auto simp: record_header_Inr item_merge_new_def)
  moreover have "is_ready h (oi_header op_a)" unfolding is_ready_def vv_compare_ready by (simp add: vv_le_def)
  ultimately have "\<exists>k m'. merge_body ?m op_a = (Inr k, m')" by (simp add: merge_body_def Let_def)
  moreover have "check_record ?m (oh_item_id (oi_header op_a)) (oh_item_schema_version (oi_header op_a)) = Inr ()"
    by (simp add: check_record_def item_merge_new_def)
  moreover have "op_lifecycle (oi_data op_a) = Active" by (simp add: op_a_def sample_op_def)
  ultimately obtain a m' where r: "apply_own_op ?m op_a ?own = (Inr a, m')"
    by (auto simp: apply_own_op_def item_merge_new_def state_default_def Let_def split: prod.splits)
  from own_op_rules [OF rtranclp.rtrancl_refl r] have "st_vv (im_state m') = vv_add (op_dot op_a) (st_vv (im_state ?m))" by blast
  then show ?thesis by (simp add: r) (simp add: item_merge_new_def state_default_def)
qed

end
