(* ===== verification/Replica_Records.thy ===== *)
theory Replica_Records
  imports Item_Replicas
begin

text \<open>
  The records replicas write: the state of a reachable replica always converts to record data,
  and the data satisfy the rules the record parser checks, so that encoding can only fail at a
  size limit.
\<close>

section \<open>Keys\<close>

lemma lowercase_above: "is_ascii_lowercase b \<Longrightarrow> 0x40 < b"
proof -
  have "\<forall>b. is_ascii_lowercase b \<longrightarrow> 0x40 < b" unfolding byte_all by code_simp
  then show "is_ascii_lowercase b \<Longrightarrow> 0x40 < b" by blast
qed

lemma grammar_first: "key_grammar bs \<Longrightarrow> \<exists>b rest. bs = b # rest \<and> 0x40 < b"
proof -
  assume "key_grammar bs"
  then consider names where "2 \<le> length names" "\<forall>n \<in> set names. is_name n" "bs = join_with 0x2E names"
    | l e a where "is_name l" "bs = element_text l e a"
    by (auto simp: key_grammar_def fixed_grammar_def element_grammar_def)
  then show ?thesis
  proof cases
    case 1
    then obtain n n' ns where "names = n # n' # ns" by (auto simp: numeral_2_eq_2 Suc_le_length_iff)
    with 1 show ?thesis by (cases n) (auto simp: is_name_def intro: lowercase_above)
  next
    case 2
    then show ?thesis by (cases l) (auto simp: is_name_def element_text_def intro: lowercase_above)
  qed
qed

lemma lifecycle_least: "key_lifecycle \<le> k"
proof (cases "k = key_lifecycle")
  case False
  then have "key_bytes k \<noteq> LIFECYCLE_KEY" using key_is_lifecycle_iff by (simp add: key_is_lifecycle_def)
  then have "key_grammar (key_bytes k)" using key_bytes [of k] by auto
  from grammar_first [OF this] have "LIFECYCLE_KEY \<le> key_bytes k" by (auto simp: LIFECYCLE_KEY_def less_imp_le)
  then show ?thesis by (simp add: less_eq_field_key_def key_lifecycle_def key_bytes_of)
qed simp

section \<open>Registers as records\<close>

lemma regs_to_total:
  assumes "\<And>k. bt_get rs k \<noteq> None \<Longrightarrow> \<exists>f. key_bytes f = k"
  shows "\<exists>registers. regs_to rs = Inr registers"
proof -
  have "\<exists>ys. collect_results (\<lambda>(key, values). and_then (held_field_key key)
      (\<lambda>k. Inr \<lparr> rg_key = k, rg_entries = map val_entry values \<rparr>)) es = Inr ys"
    if "\<And>k vs. (k, vs) \<in> set es \<Longrightarrow> \<exists>f. key_bytes f = k" for es
    using that
  proof (induction es)
    case (Cons e es)
    obtain k vs where e: "e = (k, vs)" by (cases e)
    with Cons.prems obtain f where "held_field_key k = Inr f" using held_field_key_Inr by fastforce
    with Cons e show ?case by fastforce
  qed simp
  moreover have "\<exists>f. key_bytes f = k" if "(k, vs) \<in> set (bt_entries rs)" for k vs
    using that assms by (simp add: bt_entries_iff)
  ultimately show ?thesis unfolding regs_to_def by blast
qed

lemma regs_to_registers:
  assumes "regs_to rs = Inr registers"
  shows "map (key_bytes \<circ> rg_key) registers = bt_keys rs"
    "r \<in> set registers \<longleftrightarrow> (\<exists>vs. bt_get rs (key_bytes (rg_key r)) = Some vs \<and> rg_entries r = map val_entry vs)"
proof -
  have all: "list_all2 (\<lambda>(k, vs) r. key_bytes (rg_key r) = k \<and> rg_entries r = map val_entry vs) (bt_entries rs) registers"
    using assms unfolding regs_to_def collect_results_Inr
    by (rule list_all2_mono) (auto simp: and_then_Inr held_field_key_Inr)
  then have "map (\<lambda>r. (key_bytes (rg_key r), rg_entries r)) registers = map (\<lambda>(k, vs). (k, map val_entry vs)) (bt_entries rs)"
    by (induction rule: list_all2_induct) auto
  note eq = this
  from arg_cong [OF eq, of "map fst"] show "map (key_bytes \<circ> rg_key) registers = bt_keys rs"
    by (simp add: bt_keys_def comp_def case_prod_beta)
  have inj: "r = r'" if "(key_bytes (rg_key r), rg_entries r) = (key_bytes (rg_key r'), rg_entries r')" for r r' :: register
    using that by (simp add: key_bytes_inject)
  have "r \<in> set registers \<longleftrightarrow> (key_bytes (rg_key r), rg_entries r) \<in> set (map (\<lambda>r. (key_bytes (rg_key r), rg_entries r)) registers)"
    using inj by auto
  also have "\<dots> \<longleftrightarrow> (\<exists>vs. (key_bytes (rg_key r), vs) \<in> set (bt_entries rs) \<and> rg_entries r = map val_entry vs)"
    unfolding eq by auto
  finally show "r \<in> set registers \<longleftrightarrow> (\<exists>vs. bt_get rs (key_bytes (rg_key r)) = Some vs \<and> rg_entries r = map val_entry vs)"
    by (simp add: bt_entries_iff)
qed

lemma registers_sorted:
  assumes "regs_to rs = Inr registers"
  shows "sorted_wrt (<) (map rg_key registers)"
proof -
  have "sorted_wrt (<) (map (key_bytes \<circ> rg_key) registers)" unfolding regs_to_registers(1) [OF assms] by simp
  then show ?thesis by (simp add: sorted_wrt_map less_field_key_def comp_def)
qed

section \<open>The rules hold\<close>

lemma key_lifecycle_bytes: "key_bytes k = LIFECYCLE_KEY \<longleftrightarrow> k = key_lifecycle"
  using key_is_lifecycle_iff by (simp add: key_is_lifecycle_def)

lemma op_write_key:
  assumes "(k, v) \<in> set (writes_with_lifecycle (held op))"
  shows "\<exists>f. key_bytes f = k"
  using assms key_lifecycle_bytes
  by (auto simp: writes_with_lifecycle_def held_def held_op_new_def split: option.splits)

lemma op_write_lifecycle:
  assumes "distinct (map fst (writes_with_lifecycle (held op)))" "op_lifecycle (oi_data op) \<noteq> Purge"
    "(LIFECYCLE_KEY, v) \<in> set (writes_with_lifecycle (held op))"
  shows "lifecycle_from_register_value v \<noteq> None"
  using assms
  by (cases "op_lifecycle (oi_data op)")
    (force simp: writes_with_lifecycle_def lifecycle_from_register_value_def)+

text \<open>Every register a complete state holds satisfies the register rules.\<close>

lemma complete_register:
  assumes U: "causal_ops U" and s: "complete_state U ev T s" and rs: "rs = state_current s \<or> rs = state_history s"
    and to: "regs_to rs = Inr registers" and r: "r \<in> set registers"
    and sorted: "\<And>k vs. bt_get rs k = Some vs \<Longrightarrow> vs \<noteq> [] \<and> dot_sorted vs"
  shows "register_rules (st_vv s) r"
proof -
  obtain vs where vs: "bt_get rs (key_bytes (rg_key r)) = Some vs" "rg_entries r = map val_entry vs"
    using r regs_to_registers(2) [OF to] by blast
  have val: "(key_bytes (rg_key r), v) \<in> set (state_values s)" if "v \<in> set vs" for v
    using that vs(1) rs regs_values_in_state [of s] regs_values_iff [of "key_bytes (rg_key r)" v rs] by blast
  have "vv_covers (st_vv s) (vl_dot v)" if "v \<in> set vs" for v
    using complete_value [OF s val [OF that]] complete_covers(1) [OF s] by metis
  moreover have "lifecycle_from_register_value (vl_value v) \<noteq> None" if "v \<in> set vs" "rg_key r = key_lifecycle" for v
  proof -
    from complete_value [OF s val [OF that(1)]] obtain op where op: "op \<in> T" "op_lifecycle (oi_data op) \<noteq> Purge"
      "(key_bytes (rg_key r), vl_value v) \<in> set (writes_with_lifecycle (held op))" .
    moreover have "distinct (map fst (writes_with_lifecycle (held op)))"
      using U s op(1) by (auto simp: causal_ops_def complete_state_def)
    ultimately show ?thesis using op_write_lifecycle that(2) key_lifecycle_bytes by metis
  qed
  ultimately show ?thesis
    using sorted [OF vs(1)] by (auto simp: register_rules_def vs(2) val_entry_def comp_def)
qed

lemma complete_keys:
  assumes s: "complete_state U ev T s" and rs: "rs = state_current s \<or> rs = state_history s"
  shows "\<exists>registers. regs_to rs = Inr registers"
proof (rule regs_to_total)
  fix k assume "bt_get rs k \<noteq> None"
  then obtain vs where vs: "bt_get rs k = Some vs" by blast
  have "vs \<noteq> []" using represented_nonempty [OF _ vs rs] s by (auto simp: complete_state_def)
  then obtain v where "v \<in> set vs" by (cases vs) auto
  then have "(k, v) \<in> set (state_values s)"
    using vs rs regs_values_in_state [of s] regs_values_iff [of k v rs] by blast
  from complete_value [OF s this] show "\<exists>f. key_bytes f = k" using op_write_key by metis
qed

lemma first_lifecycle:
  assumes "regs_to rs = Inr registers" "bt_get rs LIFECYCLE_KEY \<noteq> None"
  shows "\<exists>r rest. registers = r # rest \<and> rg_key r = key_lifecycle"
proof -
  have "LIFECYCLE_KEY \<in> set (map (key_bytes \<circ> rg_key) registers)" unfolding regs_to_registers(1) [OF assms(1)] using assms(2) by simp
  then obtain q where q: "q \<in> set registers" "rg_key q = key_lifecycle" using key_lifecycle_bytes by fastforce
  then obtain r rest where r: "registers = r # rest" by (cases registers) auto
  have "rg_key r \<le> key_lifecycle" using registers_sorted [OF assms(1)] q by (auto simp: r)
  with lifecycle_least [of "rg_key r"] r show ?thesis by simp
qed

lemma holds_SomeD: "holds rs k S \<Longrightarrow> bt_get rs k = Some vs \<Longrightarrow> vs \<noteq> [] \<and> set vs = S \<and> dot_sorted vs"
  by (simp add: holds_def)

lemma holds_length:
  assumes "holds rs k S" "bt_get rs k = Some vs"
  shows "length vs = card S"
proof -
  have "set vs = S" "distinct (map vl_dot vs)" using assms dot_sorted_distinct by (auto simp: holds_def)
  then show ?thesis by (auto simp: distinct_card distinct_map)
qed

lemma hist_bounded: "finite V \<Longrightarrow> card (hist ev V) \<le> HISTORY_LIMIT"
  using card_newest [of "old ev V" HISTORY_LIMIT] chosen_inj_rank(2) [of ev V] finite_subset [OF cur_subset(2) [of ev V]]
  by (simp add: hist_def)

text \<open>The rules of a live item.\<close>

lemma complete_live_rules:
  assumes U: "causal_ops U" and s: "complete_state U ev T s" and l: "st_shape s = ShLive l" "\<not> state_is_absent s"
    and to: "regs_to (lv_regs l) = Inr registers" "regs_to (lv_hist l) = Inr history"
  shows "live_rules (st_vv s) \<lparr> ls_registers = registers, ls_history = history \<rparr>"
    "\<forall>g \<in> set history. length (rg_entries g) \<le> HISTORY_LIMIT"
proof -
  let ?V = "\<lambda>k. fact_vals (ops_facts T) k"
  have rep: "represents ev (ops_facts T) s" and causal: "causal_headers ev"
    using s headers_causal [OF U] by (auto simp: complete_state_def)
  have h: "holds (lv_regs l) k (cur ev (?V k))" "holds (lv_hist l) k (hist ev (?V k))" for k
    using rep l(1) by (simp_all add: represents_def rep_shape_def)
  have rs: "lv_regs l = state_current s" "lv_hist l = state_history s" using l(1) by (simp_all add: state_current_def state_history_def)
  have fin: "finite (?V k)" for k using rep by (simp add: represents_def sound_facts_def finite_fact_vals)
  have ok: "vs \<noteq> [] \<and> dot_sorted vs" if "bt_get (lv_regs l) k = Some vs \<or> bt_get (lv_hist l) k = Some vs" for k vs
    using that h [of k] by (auto simp: holds_def split: option.splits)
  have rules: "register_rules (st_vv s) r" if "r \<in> set registers \<union> set history" for r
    using that complete_register [OF U s _ to(1)] complete_register [OF U s _ to(2)] ok rs by blast
  have cur: "bt_get (lv_regs l) k \<noteq> None" if "?V k \<noteq> {}" for k
    using cur_nonempty [OF causal fin that] holds_Some_nonempty [OF h(1)] by blast
  obtain k0 where "?V k0 \<noteq> {}"
  proof -
    obtain k vs where "bt_get (lv_regs l) k = Some vs \<or> bt_get (lv_hist l) k = Some vs"
      using l by (auto simp: state_is_absent_def bt_nonempty_get)
    then have "cur ev (?V k) \<noteq> {} \<or> hist ev (?V k) \<noteq> {}"
      using holds_Some_nonempty [OF h(1)] holds_Some_nonempty [OF h(2)] by blast
    with that [of k] show ?thesis by (metis cur_empty(1,3))
  qed
  then obtain v where "FVal k0 v \<in> ops_facts T" by (auto simp: fact_vals_def)
  then obtain op where op: "op \<in> T" "op_lifecycle (oi_data op) \<noteq> Purge" by (rule ops_val)
  then obtain x where "lifecycle_register_value (op_lifecycle (oi_data op)) = Some x"
    by (cases "op_lifecycle (oi_data op)") auto
  then have "(LIFECYCLE_KEY, x) \<in> set (writes_with_lifecycle (held op))" by (simp add: writes_with_lifecycle_def)
  with op have "?V LIFECYCLE_KEY \<noteq> {}" by (force simp: fact_vals_def ops_facts_def op_facts_def)
  then have first: "\<exists>r rest. registers = r # rest \<and> rg_key r = key_lifecycle"
    using first_lifecycle [OF to(1)] cur by blast
  have group: "\<exists>r \<in> set registers. rg_key r = rg_key g \<and> en_dot ` set (rg_entries r) \<inter> en_dot ` set (rg_entries g) = {}"
    and size: "length (rg_entries g) \<le> HISTORY_LIMIT" if g: "g \<in> set history" for g
  proof -
    let ?k = "key_bytes (rg_key g)"
    obtain ws where ws: "bt_get (lv_hist l) ?k = Some ws" "rg_entries g = map val_entry ws"
      using g regs_to_registers(2) [OF to(2)] by blast
    then show "length (rg_entries g) \<le> HISTORY_LIMIT" using holds_length [OF h(2)] hist_bounded [OF fin] by simp
    have wsH: "set ws = hist ev (?V ?k)" "ws \<noteq> []" using h(2) [of ?k] ws(1) by (simp_all add: holds_def)
    then have "?V ?k \<noteq> {}" using cur_subset(2,3) [of ev "?V ?k"] by (metis bot.extremum_uniqueI set_empty2 subset_trans)
    with cur obtain vs where vs: "bt_get (lv_regs l) ?k = Some vs" by blast
    then have vsC: "set vs = cur ev (?V ?k)" using h(1) [of ?k] by (simp add: holds_def)
    let ?r = "\<lparr> rg_key = rg_key g, rg_entries = map val_entry vs \<rparr>"
    have "?r \<in> set registers" using vs regs_to_registers(2) [OF to(1), of ?r] by simp
    moreover have "vl_dot v \<noteq> vl_dot w" if "v \<in> set vs" "w \<in> set ws" for v w
    proof
      assume "vl_dot v = vl_dot w"
      moreover have "v \<in> cur ev (?V ?k)" "w \<in> old ev (?V ?k)" using that vsC wsH(1) cur_subset(3) [of ev "?V ?k"] by auto
      ultimately show False by (auto simp: cur_def old_def)
    qed
    then have "en_dot ` set (rg_entries ?r) \<inter> en_dot ` set (rg_entries g) = {}" by (auto simp: ws(2) val_entry_def)
    ultimately show "\<exists>r \<in> set registers. rg_key r = rg_key g \<and> en_dot ` set (rg_entries r) \<inter> en_dot ` set (rg_entries g) = {}"
      by (intro bexI [of _ ?r] conjI) (simp_all only: register.select_convs)
  qed
  show "live_rules (st_vv s) \<lparr> ls_registers = registers, ls_history = history \<rparr>"
    using first rules group registers_sorted [OF to(1)] registers_sorted [OF to(2)] by (simp add: live_rules_def)
  show "\<forall>g \<in> set history. length (rg_entries g) \<le> HISTORY_LIMIT" using size by blast
qed

lemma complete_tombstone_rules:
  assumes U: "causal_ops U" and s: "complete_state U ev T s" and t: "st_shape s = ShTomb t"
    and to: "regs_to (tb_late t) = Inr lates"
  shows "tombstone_rules (st_vv s) \<lparr> ts_purge_dot = pr_dot (tb_purge t), ts_purge_hlc = pr_hlc (tb_purge t),
    ts_context = tb_c t, ts_item_key_id = pr_key_id (tb_purge t), ts_late = lates \<rparr>"
proof -
  have rep: "represents ev (ops_facts T) s" using s by (simp add: complete_state_def)
  have h: "holds (tb_late t) k (late_facts ev (tb_c t) (ops_facts T) k)" for k
    using rep t by (simp add: represents_def rep_shape_def)
  have rs: "tb_late t = state_current s" using t by (simp add: state_current_def)
  obtain p where p: "p \<in> T" "pr_dot (tb_purge t) = op_dot p" using complete_purge [OF s t] by (metis purge_rec.select_convs(1))
  have purge: "vv_covers (st_vv s) (pr_dot (tb_purge t))" using complete_covers(1) [OF s p(1)] p(2) by simp
  have "vv_covers (st_vv s) d" if d: "vv_covers (tb_c t) d" for d
  proof -
    from complete_context [OF s t d] obtain op where "op \<in> T" "vv_covers (op_ctx op) d" .
    with s show ?thesis using vv_le_covers by (auto simp: complete_state_def)
  qed
  then have c: "vv_le (tb_c t) (st_vv s)" by (simp add: vv_le_covers_iff)
  have "register_rules (st_vv s) r \<and> rg_key r \<noteq> key_lifecycle \<and> (\<forall>e \<in> set (rg_entries r). \<not> vv_covers (tb_c t) (en_dot e))"
    if r: "r \<in> set lates" for r
  proof -
    let ?k = "key_bytes (rg_key r)"
    obtain vs where vs: "bt_get (tb_late t) ?k = Some vs" "rg_entries r = map val_entry vs"
      using r regs_to_registers(2) [OF to] by blast
    have ne: "vs \<noteq> []" "set vs = late_facts ev (tb_c t) (ops_facts T) ?k" using h [of ?k] vs(1) by (simp_all add: holds_def)
    then have "rg_key r \<noteq> key_lifecycle" by (auto simp: late_facts_def key_lifecycle_bytes)
    moreover have "\<not> vv_covers (tb_c t) (vl_dot v)" if "v \<in> set vs" for v
      using that ne(2) by (auto simp: late_facts_def late_def split: if_splits)
    moreover have "register_rules (st_vv s) r"
      by (rule complete_register [OF U s _ to r]) (use h rs in \<open>auto dest: holds_SomeD\<close>)
    ultimately show ?thesis by (auto simp: vs(2) val_entry_def)
  qed
  with purge c registers_sorted [OF to] show ?thesis by (simp add: tombstone_rules_def)
qed



end
