(* ===== verification/Causal_Authors.thy ===== *)
theory Causal_Authors
  imports Headers
begin

text \<open>
  The author checks of \<open>rizzy-sync/src/causal/author.rs\<close> and the two rules of
  \<open>rizzy-core/src/sign/statements.rs\<close> they apply to parsed headers: the revocation cut-off on
  \<open>device_seq\<close> and the certificate expiry on the HLC. The public keys of a certificate are the
  byte strings the statement carries; nothing here reads them.
\<close>

section \<open>The signed statements\<close>

datatype device_kind = DesktopCli | Extension | Mobile | WebEphemeral

record device_certificate =
  dc_account_id :: id16
  dc_device_id :: device_id
  dc_identity_epoch :: u32
  dc_device_ed25519 :: bytes
  dc_device_x25519 :: bytes
  dc_device_kind :: device_kind
  dc_created_at_ms :: u64
  dc_expires_at_ms :: u64

record device_revocation =
  dr_account_id :: id16
  dr_device_id :: device_id
  dr_last_accepted_device_seq :: u64
  dr_revoked_at_ms :: u64

definition permits_hlc :: "device_certificate \<Rightarrow> u64 \<Rightarrow> bool" where
  "permits_hlc cert h \<longleftrightarrow> dc_expires_at_ms cert = 0 \<or> drop_bit 16 h \<le> dc_expires_at_ms cert"

definition permits_device_seq :: "device_revocation \<Rightarrow> u64 \<Rightarrow> bool" where
  "permits_device_seq r sq \<longleftrightarrow> sq \<le> dr_last_accepted_device_seq r"

section \<open>Author checks\<close>

record author_status =
  as_device :: device_id
  as_last_accepted :: "u64 option"
  as_expires_at_ms :: u64

datatype author_refusal =
    OtherDevice
  | AuthorPastCutoff u64
  | PastExpiry u64
  | ClaimsPastBound u64

definition from_statements ::
  "device_certificate \<Rightarrow> device_revocation option \<Rightarrow> author_refusal + author_status" where
  "from_statements cert revocation =
     (if (case revocation of None \<Rightarrow> False | Some r \<Rightarrow> dr_device_id r \<noteq> dc_device_id cert)
      then Inl OtherDevice
      else Inr \<lparr> as_device = dc_device_id cert,
        as_last_accepted = map_option dr_last_accepted_device_seq revocation,
        as_expires_at_ms = dc_expires_at_ms cert \<rparr>)"

definition past_cutoff :: "u64 option \<Rightarrow> u64 \<Rightarrow> bool" where
  "past_cutoff bnd sq \<longleftrightarrow> (case bnd of None \<Rightarrow> False | Some last_accepted \<Rightarrow> last_accepted < sq)"

definition check_op_author :: "op_header \<Rightarrow> author_status \<Rightarrow> author_refusal + unit" where
  "check_op_author h author =
     (if dot_device (oh_dot h) \<noteq> as_device author then Inl OtherDevice
      else if past_cutoff (as_last_accepted author) (dot_seq (oh_dot h))
      then Inl (AuthorPastCutoff (the (as_last_accepted author)))
      else if as_expires_at_ms author \<noteq> 0 \<and> hlc_millis (oh_hlc h) > as_expires_at_ms author
      then Inl (PastExpiry (as_expires_at_ms author))
      else Inr ())"

definition check_snapshot_author :: "snapshot_header \<Rightarrow> u64 option \<Rightarrow> author_refusal + unit" where
  "check_snapshot_author h bnd =
     (case bnd of
        Some b \<Rightarrow> if vv_get (sh_covered h) (sh_author h) > b then Inl (ClaimsPastBound b) else Inr ()
      | None \<Rightarrow> Inr ())"

lemma past_cutoff_simps [simp]:
  "\<not> past_cutoff None sq" "past_cutoff (Some c) sq \<longleftrightarrow> c < sq"
  by (simp_all add: past_cutoff_def)

lemma check_snapshot_author_Inr:
  "check_snapshot_author h bnd = Inr u \<longleftrightarrow> \<not> past_cutoff bnd (vv_get (sh_covered h) (sh_author h))"
  by (auto simp: check_snapshot_author_def split: option.splits)

text \<open>
  The header checks are the statement rules. With the status taken from a certificate and,
  if the device is revoked, its revocation, an op of that device passes exactly when the
  revocation permits its \<open>device_seq\<close> and the certificate permits its HLC, and the status is
  refused exactly when the revocation names another device.
\<close>

lemma author_rules_agree:
  "(from_statements cert revocation = Inl OtherDevice \<longleftrightarrow>
      (\<exists>r. revocation = Some r \<and> dr_device_id r \<noteq> dc_device_id cert)) \<and>
   (from_statements cert revocation = Inr status \<longrightarrow>
      (check_op_author h status = Inr () \<longleftrightarrow>
         dot_device (oh_dot h) = dc_device_id cert \<and> permits_hlc cert (oh_hlc h) \<and>
         (\<forall>r. revocation = Some r \<longrightarrow> permits_device_seq r (dot_seq (oh_dot h)))))"
  by (auto simp: from_statements_def check_op_author_def permits_hlc_def permits_device_seq_def
      hlc_millis_def COUNTER_BITS_def not_less split: option.splits if_splits)

end
