(* ===== verification/Vault_Log.thy ===== *)
theory Vault_Log
  imports Causal_Authors
begin

text \<open>
  The chains of one vault as a client sees them: \<open>rizzy-sync/src/causal.rs\<close>. This theory holds
  the data of the log and every operation of the module, in the order of the source; the own
  chain's upload bookkeeping and the server-behind rule are in \<open>Vault_Own\<close>, the delivery
  passes in \<open>Vault_Delivery\<close>.

  A \<open>for\<close> over a collection is a fold over its entries in iteration order; a \<open>loop\<close> is a
  recursive function with its termination proof. A method taking \<open>&mut self\<close> returns the new
  log next to its result.
\<close>

section \<open>Data\<close>

datatype body_status = BodyVerified | BodyWaiting | BodyRejected | BodyBodiless

record served_op =
  so_header :: op_header
  so_body :: body_status

abbreviation so_dot :: "served_op \<Rightarrow> dot" where
  "so_dot op \<equiv> oh_dot (so_header op)"

record cover_plan =
  cp_absorb :: "usize list"
  cp_links :: "dot list"
  cp_cut :: version_vector
  cp_refused :: "usize list"

definition cut_of :: "cover_plan \<Rightarrow> version_vector \<Rightarrow> version_vector" where
  "cut_of plan covered = vv_meet covered (cp_cut plan)"

datatype gap_cause =
    Unlinked dot u64
  | Uncovered dot
  | BelowCutoff u64

datatype report =
    Duplicate dot
  | Equivocation dot
  | UnknownOwnOp dot
  | ForeignVault dot
  | PastCutoff dot u64
  | RejectedBody dot
  | Gap device_id u64 gap_cause
  | MissingPredecessor dot dot
  | Unverifiable dot
  | SettledPastHead id16 device_id u64 u64

record commit_outcome =
  cm_accepted :: "dot list"
  cm_reports :: "report list"

record delivery =
  dv_dot :: dot
  dv_item_id :: id16
  dv_hlc :: hlc
  dv_covered :: bool

datatype wait_reason =
    WaitBody
  | WaitRejected
  | WaitUncovered
  | WaitChain dot
  | WaitContext dot

record waiting_op =
  wt_dot :: dot
  wt_item_id :: id16
  wt_reason :: wait_reason

record revocation =
  rv_rejected :: "dot list"
  rv_held_past_cutoff :: "id16 list"

datatype body_error = UnknownOp | NotWaiting

datatype link_state =
    LsReady
  | LsWaiting
  | LsRejected
  | LsBodiless
  | LsDelivered
  | LsRevoked

record link =
  lk_header :: op_header
  lk_state :: link_state

record chain =
  ch_links :: "(u64, link) btree_map"
  ch_head :: u64
  ch_frontier :: u64

definition chain_default :: chain where
  "chain_default = \<lparr> ch_links = bt_empty, ch_head = 0, ch_frontier = 0 \<rparr>"

text \<open>A restore generation is 16 bytes, modelled like an id by the number they spell.\<close>

type_synonym restore_generation = id16

record uploads =
  up_acked :: u64
  up_unanswered :: "(u64, restore_generation) btree_map"
  up_last_generation :: "restore_generation option"

definition uploads_default :: uploads where
  "uploads_default = \<lparr> up_acked = 0, up_unanswered = bt_empty, up_last_generation = None \<rparr>"

type_synonym settled_vvs = "(id16, version_vector) btree_map"
type_synonym ready_index = "(id16, (device_id, u64 btree_set) btree_map) btree_map"

record vault_log =
  vl_vault_id :: id16
  vl_own :: device_id
  vl_chains :: "(device_id, chain) btree_map"
  vl_items :: settled_vvs
  vl_ready :: ready_index
  vl_dirty :: "id16 btree_set"
  vl_absorbed :: "id16 btree_set"
  vl_cutoffs :: "(device_id, u64) btree_map"
  vl_uploads :: uploads

section \<open>Links and indexes\<close>

fun link_state_from_body :: "body_status \<Rightarrow> link_state" where
  "link_state_from_body BodyVerified = LsReady"
| "link_state_from_body BodyWaiting = LsWaiting"
| "link_state_from_body BodyRejected = LsRejected"
| "link_state_from_body BodyBodiless = LsBodiless"

definition needs_cover :: "body_status \<Rightarrow> bool" where
  "needs_cover body \<longleftrightarrow> body \<in> {BodyBodiless, BodyRejected}"

text \<open>\<open>items.entry(item).or_default()\<close> read as a value.\<close>

definition item_vv :: "settled_vvs \<Rightarrow> id16 \<Rightarrow> version_vector" where
  "item_vv items item_id = (case bt_get items item_id of None \<Rightarrow> vv_new | Some vv \<Rightarrow> vv)"

definition covered :: "settled_vvs \<Rightarrow> op_header \<Rightarrow> bool" where
  "covered items h =
     (case bt_get items (oh_item_id h) of None \<Rightarrow> False | Some vv \<Rightarrow> vv_covers vv (oh_dot h))"

definition link_settled :: "settled_vvs \<Rightarrow> link \<Rightarrow> bool" where
  "link_settled items l \<longleftrightarrow> lk_state l = LsDelivered \<or> covered items (lk_header l)"

definition missing_context :: "settled_vvs \<Rightarrow> op_header \<Rightarrow> dot option" where
  "missing_context items h =
     find (\<lambda>entry. \<not> (case bt_get items (oh_item_id h) of None \<Rightarrow> False | Some vv \<Rightarrow> vv_covers vv entry))
       (vv_entries (oh_causal_context h))"

definition ready_insert :: "id16 \<Rightarrow> dot \<Rightarrow> ready_index \<times> id16 btree_set \<Rightarrow> ready_index \<times> id16 btree_set" where
  "ready_insert item_id d = (\<lambda>(ready, dirty).
     (let per_device = (case bt_get ready item_id of None \<Rightarrow> bt_empty | Some m \<Rightarrow> m);
          seqs = (case bt_get per_device (dot_device d) of None \<Rightarrow> bt_empty | Some s \<Rightarrow> s)
      in (bt_insert item_id (bt_insert (dot_device d) (bs_insert (dot_seq d) seqs) per_device) ready,
          bs_insert item_id dirty)))"

definition ready_remove :: "id16 \<Rightarrow> dot \<Rightarrow> ready_index \<Rightarrow> ready_index" where
  "ready_remove item_id d ready =
     (case bt_get ready item_id of
        None \<Rightarrow> ready
      | Some per_device \<Rightarrow>
          let per_device =
                (case bt_get per_device (dot_device d) of
                   None \<Rightarrow> per_device
                 | Some seqs \<Rightarrow>
                     let seqs = bt_remove (dot_seq d) seqs
                     in if bt_is_empty seqs then bt_remove (dot_device d) per_device
                        else bt_insert (dot_device d) seqs per_device)
          in if bt_is_empty per_device then bt_remove item_id ready
             else bt_insert item_id per_device ready)"

text \<open>\<open>range(lo..)\<close> of an ordered map, in key order.\<close>

definition bt_range_from :: "'k :: linorder \<Rightarrow> ('k, 'v) btree_map \<Rightarrow> ('k \<times> 'v) list" where
  "bt_range_from lo m = filter (\<lambda>(k, _). lo \<le> k) (bt_entries m)"

section \<open>Reading the log\<close>

definition vault_log_new :: "id16 \<Rightarrow> device_id \<Rightarrow> vault_log" where
  "vault_log_new vault_id own =
     \<lparr> vl_vault_id = vault_id, vl_own = own, vl_chains = bt_empty, vl_items = bt_empty,
       vl_ready = bt_empty, vl_dirty = bt_empty, vl_absorbed = bt_empty, vl_cutoffs = bt_empty,
       vl_uploads = uploads_default \<rparr>"

definition vl_head :: "vault_log \<Rightarrow> device_id \<Rightarrow> u64" where
  "vl_head log device = (case bt_get (vl_chains log) device of None \<Rightarrow> 0 | Some c \<Rightarrow> ch_head c)"

definition cursor_entry :: "vault_log \<Rightarrow> chain \<Rightarrow> u64" where
  "cursor_entry log c =
     (case find (\<lambda>l. lk_state l = LsRejected \<and> \<not> covered (vl_items log) (lk_header l))
        (map snd (bt_range_from (ch_frontier c) (ch_links c))) of
        None \<Rightarrow> ch_head c
      | Some l \<Rightarrow> oh_vault_prev_seq (lk_header l))"

definition vl_cursor :: "vault_log \<Rightarrow> version_vector" where
  "vl_cursor log =
     vv_from_iter (List.map_filter (\<lambda>(device, c). dot_new device (cursor_entry log c))
       (bt_entries (vl_chains log)))"

definition vl_heads :: "vault_log \<Rightarrow> version_vector" where
  "vl_heads log =
     vv_from_iter (List.map_filter (\<lambda>(device, c). dot_new device (ch_head c)) (bt_entries (vl_chains log)))"

definition link_at :: "(device_id, chain) btree_map \<Rightarrow> dot \<Rightarrow> link option" where
  "link_at cs d = Option.bind (bt_get cs (dot_device d)) (\<lambda>c. bt_get (ch_links c) (dot_seq d))"

definition vl_link :: "vault_log \<Rightarrow> dot \<Rightarrow> link option" where
  "vl_link log d = link_at (vl_chains log) d"

definition vl_header :: "vault_log \<Rightarrow> dot \<Rightarrow> op_header option" where
  "vl_header log d = map_option lk_header (vl_link log d)"

definition vl_chain :: "vault_log \<Rightarrow> device_id \<Rightarrow> op_header list" where
  "vl_chain log device =
     (case bt_get (vl_chains log) device of None \<Rightarrow> [] | Some c \<Rightarrow> map lk_header (bt_values (ch_links c)))"

definition vl_settled :: "vault_log \<Rightarrow> id16 \<Rightarrow> version_vector" where
  "vl_settled log item_id = (case bt_get (vl_items log) item_id of None \<Rightarrow> vv_new | Some vv \<Rightarrow> vv)"

definition vl_cutoff :: "vault_log \<Rightarrow> device_id \<Rightarrow> u64 option" where
  "vl_cutoff log device = bt_get (vl_cutoffs log) device"

section \<open>The chain check\<close>

definition group_op ::
  "vault_log \<Rightarrow> served_op \<Rightarrow> (device_id, served_op list) btree_map \<times> report list
     \<Rightarrow> (device_id, served_op list) btree_map \<times> report list" where
  "group_op log op = (\<lambda>(groups, reports).
     (let d = so_dot op
      in if oh_vault_id (so_header op) \<noteq> vl_vault_id log then (groups, reports @ [ForeignVault d])
         else if dot_device d = vl_own log
         then (groups, reports @
           [if vl_header log d = Some (so_header op) then Duplicate d
            else if dot_seq d \<le> vl_head log (vl_own log) then Equivocation d
            else UnknownOwnOp d])
         else
           (let served = (case bt_get groups (dot_device d) of None \<Rightarrow> [] | Some s \<Rightarrow> s)
            in (bt_insert (dot_device d) (served @ [op]) groups, reports))))"

definition vl_group ::
  "vault_log \<Rightarrow> served_op list \<Rightarrow> report list \<Rightarrow> (device_id, served_op list) btree_map \<times> report list" where
  "vl_group log ops reports =
     (let (groups, reports) = fold (group_op log) ops (bt_empty, reports)
      in (bt_retain_map (\<lambda>_ served. Some (sort_key (\<lambda>op. dot_seq (so_dot op)) served)) groups, reports))"

record walk =
  wk_accepted :: "served_op list"
  wk_reserved :: "served_op list"
  wk_reports :: "report list"

text \<open>
  The body of the loop over one device's served headers. The links accepted in this walk ascend
  strictly by seq, so the source's binary search finds the one link with the seq, if any.
\<close>

fun walk_from ::
  "vault_log \<Rightarrow> device_id \<Rightarrow> (op_header \<Rightarrow> bool) \<Rightarrow> u64 \<Rightarrow> served_op list \<Rightarrow> walk \<Rightarrow> walk" where
  "walk_from log device counts prev [] w = w"
| "walk_from log device counts prev (op # ops) w =
     (let h = so_header op; d = oh_dot h in
      if dot_seq d \<le> prev then
        (let held_link = Option.bind (bt_get (vl_chains log) device) (\<lambda>c. bt_get (ch_links c) (dot_seq d)) in
         if (case held_link of None \<Rightarrow> False
             | Some l \<Rightarrow> lk_header l = h \<and> lk_state l = LsRejected \<and> \<not> covered (vl_items log) h)
         then walk_from log device counts prev ops (w \<lparr> wk_reserved := wk_reserved w @ [op] \<rparr>)
         else
           (let held = (case held_link of Some l \<Rightarrow> Some (lk_header l)
                | None \<Rightarrow> map_option so_header (find (\<lambda>a. dot_seq (so_dot a) = dot_seq d) (wk_accepted w)));
                report = (if held = Some h then Duplicate d else Equivocation d)
            in walk_from log device counts prev ops (w \<lparr> wk_reports := wk_reports w @ [report] \<rparr>)))
      else if past_cutoff (bt_get (vl_cutoffs log) device) (dot_seq d) then
        w \<lparr> wk_reports := wk_reports w @ [PastCutoff d (the (bt_get (vl_cutoffs log) device))] \<rparr>
      else if oh_vault_prev_seq h \<noteq> prev then
        w \<lparr> wk_reports := wk_reports w @ [Gap device prev (Unlinked d (oh_vault_prev_seq h))] \<rparr>
      else
        (let w = (if so_body op = BodyRejected then w \<lparr> wk_reports := wk_reports w @ [RejectedBody d] \<rparr> else w)
         in if needs_cover (so_body op) \<and> \<not> counts h then
              w \<lparr> wk_reports := wk_reports w @ [Gap device prev (Uncovered d)] \<rparr>
            else walk_from log device counts (dot_seq d) ops (w \<lparr> wk_accepted := wk_accepted w @ [op] \<rparr>)))"

definition vl_walk ::
  "vault_log \<Rightarrow> device_id \<Rightarrow> served_op list \<Rightarrow> (op_header \<Rightarrow> bool) \<Rightarrow> walk" where
  "vl_walk log device served counts =
     walk_from log device counts
       (case bt_get (vl_chains log) device of None \<Rightarrow> 0 | Some c \<Rightarrow> ch_head c) served
       \<lparr> wk_accepted = [], wk_reserved = [], wk_reports = [] \<rparr>"

definition counts_cover :: "vault_log \<Rightarrow> snapshot_header \<Rightarrow> bool" where
  "counts_cover log c \<longleftrightarrow>
     sh_vault_id c = vl_vault_id log \<and> \<not> isl (check_snapshot_author c (vl_cutoff log (sh_author c)))"

definition served_cover :: "vault_log \<Rightarrow> snapshot_header list \<Rightarrow> op_header \<Rightarrow> bool" where
  "served_cover log covers h \<longleftrightarrow>
     list_ex (\<lambda>c. counts_cover log c \<and> sh_item_id c = oh_item_id h \<and> vv_covers (sh_covered c) (oh_dot h)) covers"

definition counts_in_plan :: "vault_log \<Rightarrow> snapshot_header list \<Rightarrow> op_header \<Rightarrow> bool" where
  "counts_in_plan log covers h \<longleftrightarrow> covered (vl_items log) h \<or> served_cover log covers h"

definition plan_device ::
  "vault_log \<Rightarrow> (op_header \<Rightarrow> bool) \<Rightarrow> device_id \<times> served_op list
     \<Rightarrow> op_header list \<times> dot list \<times> version_vector \<Rightarrow> op_header list \<times> dot list \<times> version_vector" where
  "plan_device log counts = (\<lambda>(device, served) (bodiless, links, cut).
     (let w = vl_walk log device served counts;
          links = links @ map so_dot (wk_accepted w);
          cut = fold (\<lambda>op. vv_add (so_dot op)) (wk_accepted w) cut;
          bodiless = bodiless @ map so_header (filter (\<lambda>op. needs_cover (so_body op)) (wk_accepted w));
          bodiless = bodiless @
            map so_header (filter (\<lambda>op. needs_cover (so_body op) \<and> counts (so_header op)) (wk_reserved w))
      in (bodiless, links, cut)))"

definition indices :: "('a \<Rightarrow> bool) \<Rightarrow> 'a list \<Rightarrow> usize list" where
  "indices keep xs = map fst (filter (\<lambda>(_, x). keep x) (enumerate 0 xs))"

definition plan_covers :: "vault_log \<Rightarrow> served_op list \<Rightarrow> snapshot_header list \<Rightarrow> cover_plan" where
  "plan_covers log ops covers =
     (let (groups, _) = vl_group log ops [];
          counts = counts_in_plan log covers;
          (bodiless, links, cut) = fold (plan_device log counts) (bt_entries groups) ([], [], vl_heads log)
      in \<lparr> cp_absorb = indices (\<lambda>c. counts_cover log c \<and>
             list_ex (\<lambda>h. oh_item_id h = sh_item_id c \<and> vv_covers (sh_covered c) (oh_dot h)) bodiless) covers,
           cp_links = links,
           cp_cut = cut,
           cp_refused = indices (\<lambda>c. sh_vault_id c = vl_vault_id log \<and>
             isl (check_snapshot_author c (vl_cutoff log (sh_author c)))) covers \<rparr>)"

definition record_absorbed ::
  "vault_log \<Rightarrow> cover_plan \<Rightarrow> id16 \<Rightarrow> version_vector \<Rightarrow> vault_log \<times> version_vector" where
  "record_absorbed log plan item_id taken =
     (let recorded = cut_of plan taken
      in (log \<lparr> vl_items := bt_insert item_id (vv_join (item_vv (vl_items log) item_id) recorded) (vl_items log),
            vl_dirty := bs_insert item_id (vl_dirty log),
            vl_absorbed := bs_insert item_id (vl_absorbed log) \<rparr>, recorded))"

text \<open>\<open>chains.get_mut(device).and_then(|c| c.links.get_mut(seq))\<close>, assigned a new link.\<close>

definition set_link :: "dot \<Rightarrow> link \<Rightarrow> (device_id, chain) btree_map \<Rightarrow> (device_id, chain) btree_map" where
  "set_link d l cs =
     (case bt_get cs (dot_device d) of
        None \<Rightarrow> cs
      | Some c \<Rightarrow> bt_insert (dot_device d) (c \<lparr> ch_links := bt_insert (dot_seq d) l (ch_links c) \<rparr>) cs)"

definition serve_again :: "served_op \<Rightarrow> vault_log \<times> report list \<Rightarrow> vault_log \<times> report list" where
  "serve_again op = (\<lambda>(log, reports).
     (let h = so_header op; d = oh_dot h; is_covered = covered (vl_items log) h in
      case vl_link log d of
        None \<Rightarrow> (log, reports)
      | Some l \<Rightarrow>
          if lk_state l \<noteq> LsRejected then (log, reports)
          else (case so_body op of
              BodyVerified \<Rightarrow>
                (let (ready, dirty) = ready_insert (oh_item_id h) d (vl_ready log, vl_dirty log)
                 in (log \<lparr> vl_chains := set_link d (l \<lparr> lk_state := LsReady \<rparr>) (vl_chains log),
                       vl_ready := ready, vl_dirty := dirty \<rparr>, reports))
            | BodyWaiting \<Rightarrow>
                (log \<lparr> vl_chains := set_link d (l \<lparr> lk_state := LsWaiting \<rparr>) (vl_chains log) \<rparr>, reports)
            | _ \<Rightarrow>
                (log, reports @ (if so_body op = BodyRejected then [RejectedBody d] else []) @
                   (if is_covered then [] else [Gap (dot_device d) (oh_vault_prev_seq h) (Uncovered d)])))))"

definition accept_link :: "op_header \<Rightarrow> link_state \<Rightarrow> vault_log \<Rightarrow> vault_log" where
  "accept_link h state log =
     (let d = oh_dot h;
          (ready, dirty) = (if state = LsReady then ready_insert (oh_item_id h) d (vl_ready log, vl_dirty log)
            else (vl_ready log, vl_dirty log));
          c = (case bt_get (vl_chains log) (dot_device d) of None \<Rightarrow> chain_default | Some c \<Rightarrow> c);
          c = c \<lparr> ch_links := bt_insert (dot_seq d) \<lparr> lk_header = h, lk_state = state \<rparr> (ch_links c),
                ch_head := dot_seq d \<rparr>
      in log \<lparr> vl_chains := bt_insert (dot_device d) c (vl_chains log), vl_ready := ready, vl_dirty := dirty \<rparr>)"

definition commit_device ::
  "device_id \<times> served_op list \<Rightarrow> vault_log \<times> dot list \<times> report list \<Rightarrow> vault_log \<times> dot list \<times> report list" where
  "commit_device = (\<lambda>(device, served) (log, accepted, reports).
     (let w = vl_walk log device served (covered (vl_items log));
          (log, reports) = fold serve_again (wk_reserved w) (log, reports @ wk_reports w);
          log = fold (\<lambda>op. accept_link (so_header op) (link_state_from_body (so_body op))) (wk_accepted w) log
      in (log, accepted @ map so_dot (wk_accepted w), reports)))"

definition check_absorbed :: "vault_log \<Rightarrow> report list \<Rightarrow> vault_log \<times> report list" where
  "check_absorbed log reports =
     (let found = concat (map (\<lambda>item_id.
            case bt_get (vl_items log) item_id of
              None \<Rightarrow> []
            | Some vv \<Rightarrow>
                map (\<lambda>e. SettledPastHead item_id (dot_device e) (dot_seq e) (vl_head log (dot_device e)))
                  (filter (\<lambda>e. dot_seq e > vl_head log (dot_device e)) (vv_entries vv)))
            (bt_keys (vl_absorbed log)))
      in (log \<lparr> vl_absorbed := bt_empty \<rparr>, reports @ found))"

definition vl_commit :: "vault_log \<Rightarrow> served_op list \<Rightarrow> vault_log \<times> commit_outcome" where
  "vl_commit log ops =
     (let (groups, reports) = vl_group log ops [];
          (log, accepted, reports) = fold commit_device (bt_entries groups) (log, [], reports);
          (log, reports) = check_absorbed log reports
      in (log, \<lparr> cm_accepted = accepted, cm_reports = reports \<rparr>))"

section \<open>Bodies that waited\<close>

definition resolve_waiting :: "vault_log \<Rightarrow> dot \<Rightarrow> link_state \<Rightarrow> body_error + (vault_log \<times> id16)" where
  "resolve_waiting log d state =
     (case vl_link log d of
        None \<Rightarrow> Inl UnknownOp
      | Some l \<Rightarrow>
          if lk_state l \<noteq> LsWaiting then Inl NotWaiting
          else Inr (log \<lparr> vl_chains := set_link d (l \<lparr> lk_state := state \<rparr>) (vl_chains log) \<rparr>,
                    oh_item_id (lk_header l)))"

definition body_verified :: "vault_log \<Rightarrow> dot \<Rightarrow> body_error + vault_log" where
  "body_verified log d =
     and_then (resolve_waiting log d LsReady) (\<lambda>(log, item_id).
       (let (ready, dirty) = ready_insert item_id d (vl_ready log, vl_dirty log)
        in Inr (log \<lparr> vl_ready := ready, vl_dirty := dirty \<rparr>)))"

definition body_rejected :: "vault_log \<Rightarrow> dot \<Rightarrow> body_error + vault_log" where
  "body_rejected log d = and_then (resolve_waiting log d LsRejected) (\<lambda>(log, _). Inr log)"

section \<open>Revocation\<close>

definition revoke_link ::
  "u64 \<times> link \<Rightarrow> (u64, link) btree_map \<times> ready_index \<times> dot list
     \<Rightarrow> (u64, link) btree_map \<times> ready_index \<times> dot list" where
  "revoke_link = (\<lambda>(sq, l) (links, ready, rejected).
     (if lk_state l \<noteq> LsDelivered \<and> lk_state l \<noteq> LsRevoked
      then (bt_insert sq (l \<lparr> lk_state := LsRevoked \<rparr>) links,
            ready_remove (oh_item_id (lk_header l)) (oh_dot (lk_header l)) ready,
            rejected @ [oh_dot (lk_header l)])
      else (links, ready, rejected)))"

definition learn_revocation :: "vault_log \<Rightarrow> device_id \<Rightarrow> u64 \<Rightarrow> vault_log \<times> revocation" where
  "learn_revocation log device last_accepted =
     (let cutoff = (case bt_get (vl_cutoffs log) device of None \<Rightarrow> last_accepted | Some c \<Rightarrow> min c last_accepted);
          log = log \<lparr> vl_cutoffs := bt_insert device cutoff (vl_cutoffs log) \<rparr>;
          (log, rejected) =
            (case bt_get (vl_chains log) device of
               None \<Rightarrow> (log, [])
             | Some c \<Rightarrow>
                 let (links, ready, rejected) =
                       fold revoke_link (filter (\<lambda>(sq, _). cutoff < sq) (bt_entries (ch_links c)))
                         (ch_links c, vl_ready log, [])
                 in (log \<lparr> vl_chains := bt_insert device (c \<lparr> ch_links := links \<rparr>) (vl_chains log),
                       vl_ready := ready \<rparr>, rejected))
      in (log, \<lparr> rv_rejected = rejected,
            rv_held_past_cutoff = map fst (filter (\<lambda>(_, vv). vv_get vv device > cutoff) (bt_entries (vl_items log))) \<rparr>))"

section \<open>What waits, and what a complete Fetch leaves missing\<close>

definition wait_reason_of :: "settled_vvs \<Rightarrow> link \<Rightarrow> dot option \<Rightarrow> wait_reason option" where
  "wait_reason_of items l first_unsettled =
     (case lk_state l of
        LsWaiting \<Rightarrow> Some WaitBody
      | LsRejected \<Rightarrow> Some WaitRejected
      | LsBodiless \<Rightarrow> Some WaitUncovered
      | _ \<Rightarrow> (case first_unsettled of
                Some first \<Rightarrow> Some (WaitChain first)
              | None \<Rightarrow> map_option WaitContext (missing_context items (lk_header l))))"

definition waiting_link ::
  "settled_vvs \<Rightarrow> link \<Rightarrow> waiting_op list \<times> dot option \<Rightarrow> waiting_op list \<times> dot option" where
  "waiting_link items l = (\<lambda>(out, first_unsettled).
     (if link_settled items l \<or> lk_state l = LsRevoked then (out, first_unsettled)
      else
        (let d = oh_dot (lk_header l);
             out = (case wait_reason_of items l first_unsettled of
                None \<Rightarrow> out
              | Some reason \<Rightarrow>
                  out @ [\<lparr> wt_dot = d, wt_item_id = oh_item_id (lk_header l), wt_reason = reason \<rparr>])
         in (out, case first_unsettled of None \<Rightarrow> Some d | Some first \<Rightarrow> Some first))))"

definition waiting_chain :: "settled_vvs \<Rightarrow> chain \<Rightarrow> waiting_op list \<Rightarrow> waiting_op list" where
  "waiting_chain items c out =
     fst (fold (waiting_link items) (map snd (bt_range_from (ch_frontier c) (ch_links c))) (out, None))"

definition vl_waiting :: "vault_log \<Rightarrow> waiting_op list" where
  "vl_waiting log = fold (waiting_chain (vl_items log)) (bt_values (vl_chains log)) []"

definition can_settle :: "vault_log \<Rightarrow> id16 \<Rightarrow> dot \<Rightarrow> bool" where
  "can_settle log item_id missing \<longleftrightarrow>
     \<not> dot_seq missing > vl_head log (dot_device missing) \<and>
     (case bt_get (vl_chains log) (dot_device missing) of
        None \<Rightarrow> False
      | Some c \<Rightarrow>
          list_ex (\<lambda>(_, l). oh_item_id (lk_header l) = item_id \<and> lk_state l \<in> {LsReady, LsWaiting})
            (bt_range_from (dot_seq missing) (ch_links c)))"

definition complete_fetch_report :: "vault_log \<Rightarrow> waiting_op \<Rightarrow> report list" where
  "complete_fetch_report log w =
     (let uncovered = [Gap (dot_device (wt_dot w))
            (case vl_header log (wt_dot w) of None \<Rightarrow> 0 | Some h \<Rightarrow> oh_vault_prev_seq h) (Uncovered (wt_dot w))]
      in case wt_reason w of
           WaitBody \<Rightarrow> [Unverifiable (wt_dot w)]
         | WaitRejected \<Rightarrow> uncovered
         | WaitUncovered \<Rightarrow> uncovered
         | WaitContext missing \<Rightarrow>
             if \<not> can_settle log (wt_item_id w) missing then [MissingPredecessor (wt_dot w) missing] else []
         | WaitChain _ \<Rightarrow> [])"

definition complete_fetch_reports :: "vault_log \<Rightarrow> report list" where
  "complete_fetch_reports log =
     concat (map (\<lambda>(device, cutoff).
         if device \<noteq> vl_own log \<and> vl_head log device < cutoff
         then [Gap device (vl_head log device) (BelowCutoff cutoff)] else [])
       (bt_entries (vl_cutoffs log))) @
     concat (map (complete_fetch_report log) (vl_waiting log))"

section \<open>What the helpers do\<close>

text \<open>A body of the ready index, by item and dot.\<close>

definition in_ready :: "ready_index \<Rightarrow> id16 \<Rightarrow> dot \<Rightarrow> bool" where
  "in_ready ready item_id d \<longleftrightarrow>
     (case bt_get ready item_id of
        None \<Rightarrow> False
      | Some per_device \<Rightarrow>
          (case bt_get per_device (dot_device d) of
             None \<Rightarrow> False
           | Some seqs \<Rightarrow> bs_contains seqs (dot_seq d)))"

lemma dot_seq_neq_0 [simp]: "dot_seq d \<noteq> 0"
  using dot_seq_pos [of d] by (simp del: dot_seq_pos)

lemma bs_contains_remove [simp]: "bs_contains (bt_remove x s) y \<longleftrightarrow> y \<noteq> x \<and> bs_contains s y"
  by (simp add: bs_contains_def)

lemma empty_set_contains: "bt_is_empty s \<Longrightarrow> \<not> bs_contains s x"
  by (simp add: bt_is_empty_iff)

lemma empty_map_get: "bt_is_empty m \<Longrightarrow> bt_get m k = None"
  by (simp add: bt_is_empty_iff)

definition ready_with :: "id16 \<Rightarrow> dot \<Rightarrow> ready_index \<Rightarrow> ready_index" where
  "ready_with i d ready = fst (ready_insert i d (ready, bt_empty))"

lemma ready_insert_simps [simp]: "ready_insert i d (ready, dirty) = (ready_with i d ready, bs_insert i dirty)"
  by (simp add: ready_with_def ready_insert_def Let_def)

lemma in_ready_with [simp]:
  "in_ready (ready_with i d ready) i' d' \<longleftrightarrow> i' = i \<and> d' = d \<or> in_ready ready i' d'"
  by (auto simp: ready_with_def ready_insert_def in_ready_def Let_def dot_eq_iff simp del: ready_insert_simps
      split: option.splits)

lemma in_ready_remove [simp]:
  "in_ready (ready_remove i d ready) i' d' \<longleftrightarrow> in_ready ready i' d' \<and> \<not> (i' = i \<and> d' = d)"
proof (cases "bt_get ready i")
  case None
  then show ?thesis by (auto simp: ready_remove_def in_ready_def)
next
  case (Some per_device)
  define m where "m = (case bt_get per_device (dot_device d) of None \<Rightarrow> per_device
      | Some seqs \<Rightarrow> let seqs = bt_remove (dot_seq d) seqs
          in if bt_is_empty seqs then bt_remove (dot_device d) per_device
             else bt_insert (dot_device d) seqs per_device)"
  have m: "(\<exists>s. bt_get m x = Some s \<and> bs_contains s y) \<longleftrightarrow>
      (\<exists>s. bt_get per_device x = Some s \<and> bs_contains s y) \<and> \<not> (x = dot_device d \<and> y = dot_seq d)" for x y
    by (auto simp: m_def Let_def split: option.splits dest!: empty_set_contains [of _ y])
  have "ready_remove i d ready = (if bt_is_empty m then bt_remove i ready else bt_insert i m ready)"
    by (simp add: ready_remove_def Some m_def Let_def)
  then have "in_ready (ready_remove i d ready) i' d' \<longleftrightarrow>
      (if i' = i then \<exists>s. bt_get m (dot_device d') = Some s \<and> bs_contains s (dot_seq d') else in_ready ready i' d')"
    by (auto simp: in_ready_def empty_map_get split: option.splits)
  then show ?thesis
    by (auto simp: m in_ready_def Some dot_eq_iff split: option.splits)
qed

lemma in_ready_iff: "in_ready ready i d \<longleftrightarrow>
    (\<exists>per_device seqs. bt_get ready i = Some per_device \<and> bt_get per_device (dot_device d) = Some seqs \<and>
       bs_contains seqs (dot_seq d))"
  by (simp add: in_ready_def split: option.splits)

lemma link_at_Some: "link_at cs d = Some l \<longleftrightarrow>
    (\<exists>c. bt_get cs (dot_device d) = Some c \<and> bt_get (ch_links c) (dot_seq d) = Some l)"
  by (simp add: link_at_def bind_eq_Some_conv)

lemma link_at_set_link:
  "link_at (set_link d l cs) d' = (if d' = d \<and> bt_get cs (dot_device d) \<noteq> None then Some l else link_at cs d')"
  by (auto simp: link_at_def set_link_def dot_eq_iff split: option.splits)

lemma link_at_set_held [simp]:
  "link_at cs d = Some l0 \<Longrightarrow> link_at (set_link d l cs) d' = (if d' = d then Some l else link_at cs d')"
  by (auto simp: link_at_set_link) (auto simp: link_at_def)

lemma set_link_chain:
  "bt_get (set_link d l cs) device =
     (if device = dot_device d
      then map_option (\<lambda>c. c \<lparr> ch_links := bt_insert (dot_seq d) l (ch_links c) \<rparr>) (bt_get cs device)
      else bt_get cs device)"
  by (auto simp: set_link_def split: option.splits)

lemma item_vv_insert [simp]: "item_vv (bt_insert i vv items) i' = (if i' = i then vv else item_vv items i')"
  by (simp add: item_vv_def)

lemma item_vv_empty [simp]: "item_vv bt_empty i = vv_new"
  by (simp add: item_vv_def)

lemma covered_settled: "covered items h \<longleftrightarrow> vv_covers (item_vv items (oh_item_id h)) (oh_dot h)"
  by (simp add: covered_def item_vv_def split: option.splits)

lemma vl_settled_iff: "vl_settled log i = item_vv (vl_items log) i"
  by (simp add: vl_settled_def item_vv_def)

lemma vl_head_link: "vl_head log device = (case bt_get (vl_chains log) device of None \<Rightarrow> 0 | Some c \<Rightarrow> ch_head c)"
  by (simp add: vl_head_def)

lemma vv_entries_le: "(\<forall>e \<in> set (vv_entries a). vv_covers b e) \<longleftrightarrow> vv_le a b"
  using vv_entries_higher [of b a] by (fastforce simp: vv_le_def list_ex_iff simp flip: not_le)

lemma missing_context_None:
  "missing_context items h = None \<longleftrightarrow> vv_le (oh_causal_context h) (item_vv items (oh_item_id h))"
proof -
  have "missing_context items h = None \<longleftrightarrow>
      (\<forall>e \<in> set (vv_entries (oh_causal_context h)). vv_covers (item_vv items (oh_item_id h)) e)"
    by (auto simp: missing_context_def item_vv_def find_None_iff split: option.splits)
  then show ?thesis
    by (simp add: vv_entries_le)
qed

end
