(* ===== verification/Vault_Delivery.thy ===== *)
theory Vault_Delivery
  imports Vault_Log
begin

text \<open>
  Causal delivery: \<open>take_deliveries\<close> and its two passes, from \<open>rizzy-sync/src/causal.rs\<close>, with
  the proof that the loop ends, and what the passes do to the links, the ready index and the
  settled version vectors.
\<close>

section \<open>The passes\<close>

text \<open>What the two passes of \<open>take_deliveries\<close> borrow from the log next to its chains.\<close>

record delivery_pass =
  dp_items :: settled_vvs
  dp_ready :: ready_index
  dp_dirty :: "id16 btree_set"
  dp_out :: "delivery list"

definition due_of :: "version_vector \<Rightarrow> (device_id, u64 btree_set) btree_map \<Rightarrow> dot list" where
  "due_of vv per_device =
     concat (map (\<lambda>(device, seqs).
         List.map_filter (dot_new device) (filter (\<lambda>sq. sq \<le> vv_get vv device) (bt_keys seqs)))
       (bt_entries per_device))"

definition keep_uncovered ::
  "version_vector \<Rightarrow> (device_id, u64 btree_set) btree_map \<Rightarrow> (device_id, u64 btree_set) btree_map" where
  "keep_uncovered vv per_device =
     bt_retain (\<lambda>_ seqs. \<not> bt_is_empty seqs)
       (bt_retain_map (\<lambda>device seqs. Some (bt_retain (\<lambda>sq _. \<not> sq \<le> vv_get vv device) seqs)) per_device)"

definition deliver_due ::
  "id16 \<Rightarrow> dot \<Rightarrow> (device_id, chain) btree_map \<times> delivery list \<Rightarrow> (device_id, chain) btree_map \<times> delivery list" where
  "deliver_due item_id d = (\<lambda>(chains, out).
     (case link_at chains d of
        None \<Rightarrow> (chains, out)
      | Some l \<Rightarrow>
          (set_link d (l \<lparr> lk_state := LsDelivered \<rparr>) chains,
           out @ [\<lparr> dv_dot = d, dv_item_id = item_id, dv_hlc = oh_hlc (lk_header l), dv_covered = True \<rparr>])))"

definition deliver_item :: "id16 \<Rightarrow> vault_log \<times> delivery list \<Rightarrow> vault_log \<times> delivery list" where
  "deliver_item item_id = (\<lambda>(log, out).
     (case (bt_get (vl_items log) item_id, bt_get (vl_ready log) item_id) of
        (Some vv, Some per_device) \<Rightarrow>
          (let kept = keep_uncovered vv per_device;
               ready = (if bt_is_empty kept then bt_remove item_id (vl_ready log)
                 else bt_insert item_id kept (vl_ready log));
               (chains, out) = fold (deliver_due item_id) (due_of vv per_device) (vl_chains log, out)
           in (log \<lparr> vl_chains := chains, vl_ready := ready \<rparr>, out))
      | _ \<Rightarrow> (log, out)))"

definition deliver_covered :: "vault_log \<times> delivery list \<Rightarrow> vault_log \<times> delivery list" where
  "deliver_covered = (\<lambda>(log, out).
     fold deliver_item (bt_keys (vl_dirty log)) (log \<lparr> vl_dirty := bt_empty \<rparr>, out))"

text \<open>
  The inner loop over one chain. Every turn that goes round again takes a ready link of the
  chain and marks it delivered, so the loop ends after at most as many turns as the chain has
  ready links.
\<close>

definition ready_seqs :: "chain \<Rightarrow> u64 set" where
  "ready_seqs c = {sq. \<exists>l. bt_get (ch_links c) sq = Some l \<and> lk_state l = LsReady}"

lemma ready_seqs_finite [simp]: "finite (ready_seqs c)"
  by (rule finite_subset [OF _ bt_dom_finite(1) [of "ch_links c"]]) (auto simp: ready_seqs_def)

lemma ready_seqs_deliver:
  assumes "bt_get (ch_links c) sq = Some l" "lk_state l = LsReady"
  shows "ready_seqs (c \<lparr> ch_frontier := f, ch_links := bt_insert sq (l \<lparr> lk_state := LsDelivered \<rparr>) (ch_links c) \<rparr>)
    = ready_seqs c - {sq}" "sq \<in> ready_seqs c"
  using assms by (auto simp: ready_seqs_def split: if_splits)

definition next_unsettled :: "settled_vvs \<Rightarrow> chain \<Rightarrow> u64 option" where
  "next_unsettled items c =
     map_option fst (find (\<lambda>(_, l). \<not> link_settled items l) (bt_range_from (ch_frontier c) (ch_links c)))"

definition deliver_fresh :: "op_header \<Rightarrow> delivery_pass \<Rightarrow> delivery_pass" where
  "deliver_fresh h p =
     (let item_id = oh_item_id h
      in p \<lparr> dp_ready := ready_remove item_id (oh_dot h) (dp_ready p),
           dp_items := bt_insert item_id (vv_add (oh_dot h) (item_vv (dp_items p) item_id)) (dp_items p),
           dp_dirty := bs_insert item_id (dp_dirty p),
           dp_out := dp_out p @
             [\<lparr> dv_dot = oh_dot h, dv_item_id = item_id, dv_hlc = oh_hlc h, dv_covered = False \<rparr>] \<rparr>)"

function advance_frontier :: "chain \<Rightarrow> delivery_pass \<Rightarrow> chain \<times> delivery_pass" where
  "advance_frontier c p =
     (case next_unsettled (dp_items p) c of
        None \<Rightarrow> (c \<lparr> ch_frontier := u64_saturating_add (ch_head c) 1 \<rparr>, p)
      | Some sq \<Rightarrow>
          (case bt_get (ch_links c) sq of
             None \<Rightarrow> (c \<lparr> ch_frontier := sq \<rparr>, p)
           | Some l \<Rightarrow>
               if lk_state l \<noteq> LsReady \<or> missing_context (dp_items p) (lk_header l) \<noteq> None
               then (c \<lparr> ch_frontier := sq \<rparr>, p)
               else advance_frontier
                 (c \<lparr> ch_frontier := sq,
                    ch_links := bt_insert sq (l \<lparr> lk_state := LsDelivered \<rparr>) (ch_links c) \<rparr>)
                 (deliver_fresh (lk_header l) p)))"
  by pat_completeness auto
termination
proof (relation "measure (\<lambda>(c, _). card (ready_seqs c))", goal_cases)
  case (2 c p sq l)
  then show ?case
    using ready_seqs_deliver(2) [of c sq l] by (simp add: ready_seqs_deliver(1) card_Diff1_less del: card_Diff_insert card_Diff_singleton)
qed simp

declare advance_frontier.simps [simp del]

definition deliver_chain ::
  "device_id \<Rightarrow> (device_id, chain) btree_map \<times> delivery_pass \<Rightarrow> (device_id, chain) btree_map \<times> delivery_pass" where
  "deliver_chain device = (\<lambda>(chains, p).
     (case bt_get chains device of
        None \<Rightarrow> (chains, p)
      | Some c \<Rightarrow> let (c, p) = advance_frontier c p in (bt_insert device c chains, p)))"

definition deliver_frontiers :: "vault_log \<times> delivery list \<Rightarrow> vault_log \<times> delivery list" where
  "deliver_frontiers = (\<lambda>(log, out).
     (let (chains, p) = fold deliver_chain (bt_keys (vl_chains log))
            (vl_chains log, \<lparr> dp_items = vl_items log, dp_ready = vl_ready log, dp_dirty = vl_dirty log,
               dp_out = out \<rparr>)
      in (log \<lparr> vl_chains := chains, vl_items := dp_items p, vl_ready := dp_ready p, vl_dirty := dp_dirty p \<rparr>,
          dp_out p)))"

section \<open>The loop ends\<close>

text \<open>
  The measure counts the ready links of the chains and the bodies of the ready index together: a
  covered delivery takes a body out of the index, a fresh one makes a ready link delivered, and
  neither pass puts anything in. So the loop ends on every log, well formed or not.
\<close>

definition ready_pairs :: "(device_id, chain) btree_map \<Rightarrow> (device_id \<times> u64) set" where
  "ready_pairs cs = {(x, sq). \<exists>c. bt_get cs x = Some c \<and> sq \<in> ready_seqs c}"

definition ready_bodies :: "ready_index \<Rightarrow> (id16 \<times> dot) set" where
  "ready_bodies ready = {(item_id, d). in_ready ready item_id d}"

definition pending_bodies :: "vault_log \<Rightarrow> nat" where
  "pending_bodies log = card (ready_pairs (vl_chains log)) + card (ready_bodies (vl_ready log))"

lemma finite_ready_pairs [simp]: "finite (ready_pairs cs)"
proof (rule finite_subset)
  show "ready_pairs cs \<subseteq> (SIGMA x:{x. bt_get cs x \<noteq> None}. ready_seqs (the (bt_get cs x)))"
    by (auto simp: ready_pairs_def)
qed auto

lemma finite_dots:
  assumes "finite A" "\<And>x. x \<in> A \<Longrightarrow> finite (B x)"
  shows "finite {d. dot_device d \<in> A \<and> dot_seq d \<in> B (dot_device d)}"
proof (rule finite_imageD)
  let ?f = "\<lambda>d. (dot_device d, dot_seq d)"
  show "finite (?f ` {d. dot_device d \<in> A \<and> dot_seq d \<in> B (dot_device d)})"
    by (rule finite_subset [of _ "SIGMA x:A. B x"]) (use assms in auto)
  show "inj_on ?f {d. dot_device d \<in> A \<and> dot_seq d \<in> B (dot_device d)}"
    by (auto simp: inj_on_def dot_eq_iff)
qed

lemma finite_ready_bodies [simp]: "finite (ready_bodies ready)"
proof (rule finite_subset)
  define A where "A = {i. bt_get ready i \<noteq> None}"
  define B where "B i = {d. dot_device d \<in> {x. bt_get (the (bt_get ready i)) x \<noteq> None} \<and>
    dot_seq d \<in> {sq. bt_get (the (bt_get (the (bt_get ready i)) (dot_device d))) sq \<noteq> None}}" for i
  show "ready_bodies ready \<subseteq> (SIGMA i:A. B i)"
    by (auto simp: ready_bodies_def in_ready_iff A_def B_def bs_contains_def)
  have "finite (B i)" for i
    unfolding B_def by (rule finite_dots) simp_all
  moreover have "finite A" by (simp add: A_def)
  ultimately show "finite (SIGMA i:A. B i)" by blast
qed

subsection \<open>The covered pass\<close>

lemma in_set_map_filter: "y \<in> set (List.map_filter f xs) \<longleftrightarrow> (\<exists>x \<in> set xs. f x = Some y)"
  by (induction xs) (auto simp: List.map_filter_simps split: option.splits)

lemma due_of_set: "d \<in> set (due_of vv per_device) \<longleftrightarrow>
    vv_covers vv d \<and> (\<exists>seqs. bt_get per_device (dot_device d) = Some seqs \<and> bs_contains seqs (dot_seq d))"
proof -
  have "d \<in> set (due_of vv per_device) \<longleftrightarrow> (\<exists>x seqs sq. bt_get per_device x = Some seqs \<and>
      sq \<le> vv_get vv x \<and> bs_contains seqs sq \<and> dot_new x sq = Some d)"
    by (auto simp: due_of_def in_set_map_filter bt_entries_iff bs_contains_def Bex_def split_paired_Ex)
  also have "\<dots> \<longleftrightarrow> vv_covers vv d \<and>
      (\<exists>seqs. bt_get per_device (dot_device d) = Some seqs \<and> bs_contains seqs (dot_seq d))"
    by (auto simp: dot_new_Some vv_covers_def)
  finally show ?thesis .
qed

lemma distinct_dots_of: "distinct sqs \<Longrightarrow> distinct (List.map_filter (dot_new x) sqs)"
  by (induction sqs) (auto simp: List.map_filter_simps in_set_map_filter dot_new_Some split: option.splits)

lemma due_of_distinct: "distinct (due_of vv per_device)"
proof -
  define f :: "device_id \<times> u64 btree_set \<Rightarrow> dot list" where "f = (\<lambda>(x, seqs). List.map_filter (dot_new x) (filter (\<lambda>sq. sq \<le> vv_get vv x) (bt_keys seqs)))"
  have "distinct (concat (map f es))" if "distinct (map fst es)" for es :: "(device_id \<times> u64 btree_set) list"
    using that
  proof (induction es)
    case (Cons e es)
    have dev: "dot_device d = fst e'" if "d \<in> set (f e')" for d e'
      using that by (auto simp: f_def in_set_map_filter dot_new_Some split: prod.splits)
    have ne: "fst e \<noteq> fst e'" if "e' \<in> set es" for e'
      using Cons.prems that by (metis distinct.simps(2) image_eqI list.set_map list.simps(9))
    have False if "d \<in> set (f e)" "e' \<in> set es" "d \<in> set (f e')" for d e'
      using dev [OF that(1)] dev [OF that(3)] ne [OF that(2)] by simp
    then have "set (f e) \<inter> set (concat (map f es)) = {}"
      by fastforce
    moreover have "distinct (f e)" by (auto simp: f_def distinct_dots_of split: prod.splits)
    ultimately show ?case using Cons by simp
  qed simp
  from this [of "bt_entries per_device"] show ?thesis
    by (simp add: due_of_def f_def ascending_distinct)
qed

lemma keep_uncovered_contains:
  "(\<exists>s. bt_get (keep_uncovered vv m) x = Some s \<and> bs_contains s y) \<longleftrightarrow>
     (\<exists>s. bt_get m x = Some s \<and> bs_contains s y) \<and> \<not> y \<le> vv_get vv x"
  by (cases "bt_get m x") (auto simp: keep_uncovered_def bs_contains_def bt_nonempty_get split: option.splits if_splits)

text \<open>The bodies of an item that its settled version vector covers, in the order of the pass.\<close>

definition item_due :: "vault_log \<Rightarrow> id16 \<Rightarrow> dot list" where
  "item_due log i =
     (case (bt_get (vl_items log) i, bt_get (vl_ready log) i) of
        (Some vv, Some per_device) \<Rightarrow> due_of vv per_device
      | _ \<Rightarrow> [])"

lemma item_due_set:
  "d \<in> set (item_due log i) \<longleftrightarrow> in_ready (vl_ready log) i d \<and> vv_covers (vl_settled log i) d"
  by (cases "bt_get (vl_ready log) i") (auto simp: item_due_def due_of_set in_ready_iff vl_settled_def split: option.splits)

lemma item_due_distinct: "distinct (item_due log i)"
  by (simp add: item_due_def due_of_distinct split: option.splits)

lemma deliver_item_eq:
  obtains ready where
    "deliver_item i (log, out) =
       (let (cs, out) = fold (deliver_due i) (item_due log i) (vl_chains log, out)
        in (log \<lparr> vl_chains := cs, vl_ready := ready \<rparr>, out))"
    "\<And>j d. in_ready ready j d \<longleftrightarrow>
       in_ready (vl_ready log) j d \<and> \<not> (j = i \<and> vv_covers (vl_settled log i) d)"
proof (cases "bt_get (vl_items log) i")
  case None
  show ?thesis
    by (rule that [of "vl_ready log"]) (simp_all add: None deliver_item_def item_due_def vl_settled_def)
next
  case vv: (Some vv)
  show ?thesis
  proof (cases "bt_get (vl_ready log) i")
    case None
    show ?thesis
      by (rule that [of "vl_ready log"]) (auto simp: None vv deliver_item_def item_due_def in_ready_iff)
  next
    case (Some m)
    define kept where "kept = keep_uncovered vv m"
    define ready where
      "ready = (if bt_is_empty kept then bt_remove i (vl_ready log) else bt_insert i kept (vl_ready log))"
    show ?thesis
    proof (rule that [of ready])
      show "deliver_item i (log, out) = (let (cs, out) = fold (deliver_due i) (item_due log i) (vl_chains log, out)
          in (log \<lparr> vl_chains := cs, vl_ready := ready \<rparr>, out))"
        by (simp add: deliver_item_def item_due_def vv Some ready_def kept_def Let_def)
      fix j d
      have "in_ready ready j d \<longleftrightarrow> (if j = i then \<exists>s. bt_get kept (dot_device d) = Some s \<and> bs_contains s (dot_seq d)
          else in_ready (vl_ready log) j d)"
        by (auto simp: in_ready_iff ready_def empty_map_get)
      also have "\<dots> \<longleftrightarrow> in_ready (vl_ready log) j d \<and> \<not> (j = i \<and> vv_covers (vl_settled log i) d)"
        by (auto simp: kept_def keep_uncovered_contains in_ready_iff Some vv vl_settled_def vv_covers_def)
      finally show "in_ready ready j d \<longleftrightarrow>
          in_ready (vl_ready log) j d \<and> \<not> (j = i \<and> vv_covers (vl_settled log i) d)" .
    qed
  qed
qed

definition delivered :: "link \<Rightarrow> link" where
  "delivered l = l \<lparr> lk_state := LsDelivered \<rparr>"

lemma delivered_simps [simp]:
  "lk_state (delivered l) = LsDelivered" "lk_header (delivered l) = lk_header l" "delivered (delivered l) = delivered l"
  by (simp_all add: delivered_def)

definition delivery_of :: "bool \<Rightarrow> link \<Rightarrow> id16 \<Rightarrow> dot \<Rightarrow> delivery" where
  "delivery_of cov l i d = \<lparr> dv_dot = d, dv_item_id = i, dv_hlc = oh_hlc (lk_header l), dv_covered = cov \<rparr>"

lemma delivery_of_simps [simp]:
  "dv_dot (delivery_of cov l i d) = d" "dv_item_id (delivery_of cov l i d) = i"
  "dv_hlc (delivery_of cov l i d) = oh_hlc (lk_header l)" "dv_covered (delivery_of cov l i d) = cov"
  by (simp_all add: delivery_of_def)

text \<open>The chains keep their heads, frontiers and headers; only states of links change.\<close>

definition chain_shape :: "chain \<Rightarrow> u64 \<times> u64 \<times> link option" where
  "chain_shape c = (ch_head c, ch_frontier c, bt_get (ch_links c) 0)"

lemma set_link_shape: "map_option chain_shape (bt_get (set_link d l cs) x) = map_option chain_shape (bt_get cs x)"
  by (cases "bt_get cs x") (auto simp: set_link_chain chain_shape_def)

lemma fold_deliver_due:
  assumes "distinct ds" "fold (deliver_due i) ds (cs, out) = (cs', out')"
  shows "link_at cs' d = (if d \<in> set ds then map_option delivered (link_at cs d) else link_at cs d)"
    and "out' = out @ map (\<lambda>d. delivery_of True (the (link_at cs d)) i d) (filter (\<lambda>d. link_at cs d \<noteq> None) ds)"
    and "map_option chain_shape (bt_get cs' x) = map_option chain_shape (bt_get cs x)"
proof -
  have "link_at cs' d = (if d \<in> set ds then map_option delivered (link_at cs d) else link_at cs d) \<and>
    out' = out @ map (\<lambda>d. delivery_of True (the (link_at cs d)) i d) (filter (\<lambda>d. link_at cs d \<noteq> None) ds) \<and>
    map_option chain_shape (bt_get cs' x) = map_option chain_shape (bt_get cs x)"
    using assms
  proof (induction ds arbitrary: cs out)
    case (Cons e ds)
    show ?case
    proof (cases "link_at cs e")
      case None
      then show ?thesis using Cons by (auto simp: deliver_due_def)
    next
      case (Some l)
      define cs1 where "cs1 = set_link e (delivered l) cs"
      have step: "deliver_due i e (cs, out) = (cs1, out @ [delivery_of True l i e])"
        by (simp add: deliver_due_def Some cs1_def delivered_def delivery_of_def)
      have link: "link_at cs1 d' = (if d' = e then Some (delivered l) else link_at cs d')" for d'
        by (simp add: cs1_def Some)
      have chain: "map_option chain_shape (bt_get cs1 x) = map_option chain_shape (bt_get cs x)"
        by (simp add: cs1_def set_link_shape)
      have "fold (deliver_due i) ds (cs1, out @ [delivery_of True l i e]) = (cs', out')"
        using Cons.prems(2) step by simp
      from Cons.IH [OF _ this] Cons.prems(1) link chain show ?thesis
        by (auto simp: Some intro!: map_cong filter_cong)
    qed
  qed simp
  then show "link_at cs' d = (if d \<in> set ds then map_option delivered (link_at cs d) else link_at cs d)"
    and "out' = out @ map (\<lambda>d. delivery_of True (the (link_at cs d)) i d) (filter (\<lambda>d. link_at cs d \<noteq> None) ds)"
    and "map_option chain_shape (bt_get cs' x) = map_option chain_shape (bt_get cs x)"
    by blast+
qed

lemma set_link_ready_pairs:
  assumes "lk_state l \<noteq> LsReady"
  shows "ready_pairs (set_link d l cs) \<subseteq> ready_pairs cs"
  using assms by (auto simp: ready_pairs_def ready_seqs_def set_link_chain split: if_splits)

lemma fold_deliver_due_pairs:
  "ready_pairs (fst (fold (deliver_due i) ds (cs, out))) \<subseteq> ready_pairs cs"
proof (induction ds arbitrary: cs out)
  case (Cons d ds)
  show ?case
  proof (cases "link_at cs d")
    case (Some l)
    then have "deliver_due i d (cs, out) = (set_link d (delivered l) cs, out @ [delivery_of True l i d])"
      by (simp add: deliver_due_def delivered_def delivery_of_def)
    then show ?thesis
      using Cons.IH [of "set_link d (delivered l) cs"] set_link_ready_pairs [of "delivered l" d cs] by fastforce
  next
    case None
    then have "deliver_due i d (cs, out) = (cs, out)" by (simp add: deliver_due_def)
    then show ?thesis using Cons.IH [of cs out] by simp
  qed
qed simp

lemma deliver_item_pending:
  assumes "deliver_item i (log, out) = (log', out')"
  shows "pending_bodies log' + length out' \<le> pending_bodies log + length out" "length out \<le> length out'"
proof -
  obtain ready where eq: "deliver_item i (log, out) =
      (let (cs, out) = fold (deliver_due i) (item_due log i) (vl_chains log, out)
       in (log \<lparr> vl_chains := cs, vl_ready := ready \<rparr>, out))"
    and ready: "\<And>j d. in_ready ready j d \<longleftrightarrow>
      in_ready (vl_ready log) j d \<and> \<not> (j = i \<and> vv_covers (vl_settled log i) d)"
    by (rule deliver_item_eq) blast
  obtain cs where run: "fold (deliver_due i) (item_due log i) (vl_chains log, out) = (cs, out')"
    and log': "log' = log \<lparr> vl_chains := cs, vl_ready := ready \<rparr>"
    using assms eq by (auto split: prod.splits)
  have out: "length out' \<le> length out + length (item_due log i)" "length out \<le> length out'"
    using fold_deliver_due(2) [OF item_due_distinct run] by simp_all
  have "ready_bodies ready = ready_bodies (vl_ready log) - Pair i ` set (item_due log i)"
    by (auto simp: ready_bodies_def ready item_due_set)
  moreover have "Pair i ` set (item_due log i) \<subseteq> ready_bodies (vl_ready log)"
    by (auto simp: ready_bodies_def item_due_set)
  moreover have "card (Pair i ` set (item_due log i)) = length (item_due log i)"
    by (simp add: card_image inj_on_def distinct_card item_due_distinct)
  ultimately have "card (ready_bodies ready) + length (item_due log i) = card (ready_bodies (vl_ready log))"
    by (metis card_Diff_subset card_mono finite_ready_bodies finite_subset le_add_diff_inverse2)
  moreover have "card (ready_pairs cs) \<le> card (ready_pairs (vl_chains log))"
    using fold_deliver_due_pairs [of i "item_due log i" "vl_chains log" out] run by (simp add: card_mono)
  ultimately show "pending_bodies log' + length out' \<le> pending_bodies log + length out" "length out \<le> length out'"
    using out by (simp_all add: pending_bodies_def log')
qed

lemma fold_deliver_item_pending:
  assumes "fold deliver_item is (log, out) = (log', out')"
  shows "pending_bodies log' + length out' \<le> pending_bodies log + length out \<and> length out \<le> length out'"
  using assms
proof (induction "is" arbitrary: log out)
  case (Cons i "is")
  obtain log1 out1 where step: "deliver_item i (log, out) = (log1, out1)" by fastforce
  with Cons.prems have "fold deliver_item is (log1, out1) = (log', out')" by simp
  with Cons.IH [OF this] deliver_item_pending [OF step] show ?case by simp
qed simp

lemma deliver_covered_pending:
  assumes "deliver_covered (log, out) = (log', out')"
  shows "pending_bodies log' + length out' \<le> pending_bodies log + length out \<and> length out \<le> length out'"
  using fold_deliver_item_pending [of "bt_keys (vl_dirty log)" "log \<lparr> vl_dirty := bt_empty \<rparr>" out log' out'] assms
  by (simp add: deliver_covered_def pending_bodies_def)

subsection \<open>The frontier pass\<close>

lemma advance_pending:
  assumes "advance_frontier c p = (c', p')"
  shows "card (ready_seqs c') + length (dp_out p') = card (ready_seqs c) + length (dp_out p)"
    "ready_bodies (dp_ready p') \<subseteq> ready_bodies (dp_ready p)" "length (dp_out p) \<le> length (dp_out p')"
proof -
  have "card (ready_seqs c') + length (dp_out p') = card (ready_seqs c) + length (dp_out p) \<and>
      ready_bodies (dp_ready p') \<subseteq> ready_bodies (dp_ready p) \<and> length (dp_out p) \<le> length (dp_out p')"
    using assms
  proof (induction c p rule: advance_frontier.induct)
    case (1 c p)
    show ?case
    proof (cases "\<exists>sq l. next_unsettled (dp_items p) c = Some sq \<and> bt_get (ch_links c) sq = Some l \<and>
        lk_state l = LsReady \<and> missing_context (dp_items p) (lk_header l) = None")
      case True
      then obtain sq l where l: "next_unsettled (dp_items p) c = Some sq" "bt_get (ch_links c) sq = Some l"
          "lk_state l = LsReady" "missing_context (dp_items p) (lk_header l) = None" by blast
      define c1 where "c1 = c \<lparr> ch_frontier := sq,
        ch_links := bt_insert sq (l \<lparr> lk_state := LsDelivered \<rparr>) (ch_links c) \<rparr>"
      have next_turn: "advance_frontier c1 (deliver_fresh (lk_header l) p) = (c', p')"
        using "1.prems" l by (simp add: advance_frontier.simps [of c p] c1_def)
      have "card (ready_seqs c1) + 1 = card (ready_seqs c)"
        using ready_seqs_deliver [OF l(2,3)] by (simp add: c1_def card_Suc_Diff1 del: card_Diff_insert)
      moreover have "ready_bodies (dp_ready (deliver_fresh (lk_header l) p)) \<subseteq> ready_bodies (dp_ready p)"
        by (auto simp: ready_bodies_def deliver_fresh_def Let_def)
      moreover have "length (dp_out (deliver_fresh (lk_header l) p)) = length (dp_out p) + 1"
        by (simp add: deliver_fresh_def Let_def)
      ultimately show ?thesis
        using "1.IH" [OF l(1,2), folded c1_def, OF _ next_turn] l(3,4) by auto
    next
      case False
      then show ?thesis
        using "1.prems" by (auto simp: advance_frontier.simps [of c p] ready_seqs_def
            split: option.splits if_splits)
    qed
  qed
  then show "card (ready_seqs c') + length (dp_out p') = card (ready_seqs c) + length (dp_out p)"
    "ready_bodies (dp_ready p') \<subseteq> ready_bodies (dp_ready p)" "length (dp_out p) \<le> length (dp_out p')" by blast+
qed

lemma ready_pairs_insert:
  "card (ready_pairs (bt_insert x c cs)) = card (ready_seqs c) + card (ready_pairs (bt_remove x cs))"
proof -
  have "ready_pairs (bt_insert x c cs) = Pair x ` ready_seqs c \<union> ready_pairs (bt_remove x cs)"
    by (auto simp: ready_pairs_def split: if_splits)
  moreover have "Pair x ` ready_seqs c \<inter> ready_pairs (bt_remove x cs) = {}"
    by (auto simp: ready_pairs_def)
  ultimately show ?thesis
    by (simp add: card_Un_disjoint card_image inj_on_def)
qed

lemma deliver_chain_pending:
  assumes "deliver_chain x (cs, p) = (cs', p')"
  shows "card (ready_pairs cs') + length (dp_out p') = card (ready_pairs cs) + length (dp_out p)"
    "ready_bodies (dp_ready p') \<subseteq> ready_bodies (dp_ready p)" "length (dp_out p) \<le> length (dp_out p')"
proof -
  have "card (ready_pairs cs') + length (dp_out p') = card (ready_pairs cs) + length (dp_out p) \<and>
    ready_bodies (dp_ready p') \<subseteq> ready_bodies (dp_ready p) \<and> length (dp_out p) \<le> length (dp_out p')"
  proof (cases "bt_get cs x")
    case (Some c)
    obtain c1 where run: "advance_frontier c p = (c1, p')" and cs': "cs' = bt_insert x c1 cs"
      using assms by (auto simp: deliver_chain_def Some split: prod.splits)
    have "cs = bt_insert x c cs" using Some by (simp add: bt.ins_same)
    then have "card (ready_pairs cs) = card (ready_seqs c) + card (ready_pairs (bt_remove x cs))"
      using ready_pairs_insert by metis
    with advance_pending [OF run] show ?thesis by (simp add: cs' ready_pairs_insert)
  qed (use assms in \<open>simp add: deliver_chain_def\<close>)
  then show "card (ready_pairs cs') + length (dp_out p') = card (ready_pairs cs) + length (dp_out p)"
    "ready_bodies (dp_ready p') \<subseteq> ready_bodies (dp_ready p)" "length (dp_out p) \<le> length (dp_out p')" by blast+
qed

lemma fold_deliver_chain_pending:
  assumes "fold deliver_chain xs (cs, p) = (cs', p')"
  shows "card (ready_pairs cs') + length (dp_out p') = card (ready_pairs cs) + length (dp_out p) \<and>
    ready_bodies (dp_ready p') \<subseteq> ready_bodies (dp_ready p) \<and> length (dp_out p) \<le> length (dp_out p')"
  using assms
proof (induction xs arbitrary: cs p)
  case (Cons x xs)
  obtain cs1 p1 where step: "deliver_chain x (cs, p) = (cs1, p1)" by fastforce
  with Cons.prems have "fold deliver_chain xs (cs1, p1) = (cs', p')" by simp
  with Cons.IH [OF this] deliver_chain_pending [OF step] show ?case by auto
qed simp

lemma deliver_frontiers_pending:
  assumes "deliver_frontiers (log, out) = (log', out')"
  shows "pending_bodies log' + length out' \<le> pending_bodies log + length out \<and> length out \<le> length out'"
proof -
  obtain cs p where run: "fold deliver_chain (bt_keys (vl_chains log))
      (vl_chains log, \<lparr> dp_items = vl_items log, dp_ready = vl_ready log, dp_dirty = vl_dirty log, dp_out = out \<rparr>)
      = (cs, p)" by fastforce
  then have log': "log' = log \<lparr> vl_chains := cs, vl_items := dp_items p, vl_ready := dp_ready p, vl_dirty := dp_dirty p \<rparr>"
    "out' = dp_out p" using assms by (simp_all add: deliver_frontiers_def)
  have "card (ready_bodies (dp_ready p)) \<le> card (ready_bodies (vl_ready log))"
    using fold_deliver_chain_pending [OF run] by (simp add: card_mono)
  with fold_deliver_chain_pending [OF run] show ?thesis
    by (simp add: log' pending_bodies_def)
qed

section \<open>take\_deliveries\<close>

function deliver_loop :: "vault_log \<Rightarrow> delivery list \<Rightarrow> vault_log \<times> delivery list" where
  "deliver_loop log out =
     (let (log', out') = deliver_frontiers (deliver_covered (log, out))
      in if length out' = length out then (log', out') else deliver_loop log' out')"
  by pat_completeness auto
termination
proof (relation "measure (\<lambda>(log, _). pending_bodies log)", goal_cases)
  case (2 log out res log' out')
  obtain log1 out1 where covered_pass: "deliver_covered (log, out) = (log1, out1)" by fastforce
  with 2 have "deliver_frontiers (log1, out1) = (log', out')" by simp
  with deliver_frontiers_pending [OF this] deliver_covered_pending [OF covered_pass] 2(3)
  show ?case by simp
qed simp

declare deliver_loop.simps [simp del]

definition take_deliveries :: "vault_log \<Rightarrow> vault_log \<times> delivery list" where
  "take_deliveries log = deliver_loop log []"

end
