(* ===== verification/Vault_Own.thy ===== *)
theory Vault_Own
  imports Vault_Log
begin

text \<open>
  The own chain of a vault log, \<open>rizzy-sync/src/causal/own.rs\<close> (writing, uploading,
  acknowledging and re-issuing this device's ops), and the server-behind rule of
  \<open>rizzy-sync/src/causal/behind.rs\<close>.
\<close>

section \<open>The own chain\<close>

record stale_plan =
  sp_reissue :: "dot list"
  sp_republish :: "dot list"

datatype own_error =
    WrongVault
  | NotOwnDevice
  | BrokenChain u64
  | ContextNotSettled
  | UnknownOwnLink
  | Acknowledged
  | MayHaveBeenServed
  | NotAReissue
  | NoGeneration
  | NotStale

definition own_vault_prev_seq :: "vault_log \<Rightarrow> u64" where
  "own_vault_prev_seq log = vl_head log (vl_own log)"

definition check_own :: "vault_log \<Rightarrow> op_header \<Rightarrow> own_error + unit" where
  "check_own log h =
     (if oh_vault_id h \<noteq> vl_vault_id log then Inl WrongVault
      else if dot_device (oh_dot h) \<noteq> vl_own log then Inl NotOwnDevice
      else Inr ())"

definition own_link :: "vault_log \<Rightarrow> u64 \<Rightarrow> op_header option" where
  "own_link log sq = Option.bind (dot_new (vl_own log) sq) (vl_header log)"

definition record_own_op :: "vault_log \<Rightarrow> op_header \<Rightarrow> own_error + vault_log" where
  "record_own_op log h =
     and_then (check_own log h) (\<lambda>_.
       (let head = own_vault_prev_seq log in
        if oh_vault_prev_seq h \<noteq> head \<or> dot_seq (oh_dot h) \<le> head then Inl (BrokenChain head)
        else if missing_context (vl_items log) h \<noteq> None then Inl ContextNotSettled
        else
          (let i = oh_item_id h;
               log = log \<lparr> vl_items := bt_insert i (vv_add (oh_dot h) (item_vv (vl_items log) i)) (vl_items log) \<rparr>
           in Inr (accept_link h LsDelivered log))))"

definition acknowledged :: "vault_log \<Rightarrow> u64" where
  "acknowledged log = up_acked (vl_uploads log)"

definition unacknowledged :: "vault_log \<Rightarrow> op_header list" where
  "unacknowledged log =
     filter (\<lambda>h. dot_seq (oh_dot h) > up_acked (vl_uploads log)) (vl_chain log (vl_own log))"

definition observe_generation :: "vault_log \<Rightarrow> restore_generation \<Rightarrow> vault_log" where
  "observe_generation log generation =
     log \<lparr> vl_uploads := (vl_uploads log) \<lparr> up_last_generation := Some generation \<rparr> \<rparr>"

definition record_sent :: "vault_log \<Rightarrow> u64 \<Rightarrow> own_error + vault_log" where
  "record_sent log sq =
     (if own_link log sq = None then Inl UnknownOwnLink
      else if sq \<le> up_acked (vl_uploads log) then Inr log
      else
        and_then (ok_or NoGeneration (up_last_generation (vl_uploads log))) (\<lambda>generation.
          (let u = vl_uploads log;
               unanswered = (case bt_get (up_unanswered u) sq of
                  None \<Rightarrow> bt_insert sq generation (up_unanswered u)
                | Some _ \<Rightarrow> up_unanswered u)
           in Inr (log \<lparr> vl_uploads := u \<lparr> up_unanswered := unanswered \<rparr> \<rparr>))))"

definition acknowledge :: "vault_log \<Rightarrow> u64 \<Rightarrow> own_error + vault_log" where
  "acknowledge log sq =
     (if own_link log sq = None then Inl UnknownOwnLink
      else
        (let u = vl_uploads log;
             acked = max (up_acked u) sq
         in Inr (log \<lparr> vl_uploads := u \<lparr> up_acked := acked,
              up_unanswered := bt_retain (\<lambda>s _. s > acked) (up_unanswered u) \<rparr> \<rparr>)))"

definition record_answered :: "vault_log \<Rightarrow> u64 \<Rightarrow> restore_generation \<Rightarrow> own_error + vault_log" where
  "record_answered log sq generation =
     (if own_link log sq = None then Inl UnknownOwnLink
      else
        (let u = vl_uploads log in
         Inr (if bt_get (up_unanswered u) sq = Some generation
              then log \<lparr> vl_uploads := u \<lparr> up_unanswered := bt_remove sq (up_unanswered u) \<rparr> \<rparr>
              else log)))"

definition may_have_been_served :: "vault_log \<Rightarrow> u64 \<Rightarrow> bool" where
  "may_have_been_served log sq \<longleftrightarrow>
     sq \<le> up_acked (vl_uploads log) \<or>
     (case bt_get (up_unanswered (vl_uploads log)) sq of
        None \<Rightarrow> False
      | Some g \<Rightarrow> Some g \<noteq> up_last_generation (vl_uploads log))"

definition stale_plan_step :: "vault_log \<Rightarrow> op_header \<Rightarrow> stale_plan \<Rightarrow> stale_plan" where
  "stale_plan_step log h plan =
     (if may_have_been_served log (dot_seq (oh_dot h))
      then plan \<lparr> sp_republish := sp_republish plan @ [oh_dot h] \<rparr>
      else plan \<lparr> sp_reissue := sp_reissue plan @ [oh_dot h] \<rparr>)"

definition plan_stale :: "vault_log \<Rightarrow> u64 \<Rightarrow> u32 \<Rightarrow> own_error + stale_plan" where
  "plan_stale log rejected current_epoch =
     and_then (ok_or UnknownOwnLink (own_link log rejected)) (\<lambda>l.
       (if oh_vault_key_epoch l \<ge> current_epoch then Inl NotStale
        else Inr (fold (stale_plan_step log)
          (filter (\<lambda>h. dot_seq (oh_dot h) \<ge> rejected \<and> oh_vault_key_epoch h < current_epoch)
             (vl_chain log (vl_own log)))
          \<lparr> sp_reissue = [], sp_republish = [] \<rparr>)))"

definition reissue_own_op :: "vault_log \<Rightarrow> op_header \<Rightarrow> own_error + vault_log" where
  "reissue_own_op log h =
     and_then (check_own log h) (\<lambda>_.
       (let sq = dot_seq (oh_dot h) in
        and_then (ok_or UnknownOwnLink (own_link log sq)) (\<lambda>original.
          if sq \<le> up_acked (vl_uploads log) then Inl Acknowledged
          else if may_have_been_served log sq then Inl MayHaveBeenServed
          else if original \<lparr> oh_vault_key_epoch := oh_vault_key_epoch h \<rparr> \<noteq> h \<or>
              oh_vault_key_epoch h \<le> oh_vault_key_epoch original then Inl NotAReissue
          else
            (let u = vl_uploads log;
                 chains = (case vl_link log (oh_dot h) of
                    None \<Rightarrow> vl_chains log
                  | Some l \<Rightarrow> set_link (oh_dot h) (l \<lparr> lk_header := h \<rparr>) (vl_chains log))
             in Inr (log \<lparr> vl_chains := chains,
                  vl_uploads := u \<lparr> up_unanswered := bt_remove sq (up_unanswered u) \<rparr> \<rparr>)))))"

section \<open>The server behind\<close>

record server_view =
  sv_state_seq :: u64
  sv_heads :: version_vector
  sv_lacks_wrap :: bool

datatype behind =
    BehindStateSeq u64 u64
  | BehindHead device_id u64 u64
  | BehindOwnHead u64 u64
  | BehindWrap

definition cap_cutoff :: "vault_log \<Rightarrow> device_id \<Rightarrow> u64 \<Rightarrow> u64" where
  "cap_cutoff log device sq = (case vl_cutoff log device of None \<Rightarrow> sq | Some c \<Rightarrow> min sq c)"

definition known_devices :: "vault_log \<Rightarrow> device_id btree_set" where
  "known_devices log =
     bs_collect (filter (\<lambda>d. d \<noteq> vl_own log)
       (bt_keys (vl_chains log) @
        concat (map (\<lambda>vv. map dot_device (vv_entries vv)) (bt_values (vl_items log)))))"

definition local_entry :: "vault_log \<Rightarrow> device_id \<Rightarrow> u64" where
  "local_entry log device =
     (let item_max = (case max_opt (map (\<lambda>vv. vv_get vv device) (bt_values (vl_items log))) of
            None \<Rightarrow> 0 | Some m \<Rightarrow> m)
      in cap_cutoff log device (max (vl_head log device) item_max))"

definition server_behind :: "vault_log \<Rightarrow> u64 \<Rightarrow> server_view \<Rightarrow> behind list" where
  "server_behind log accepted_state_seq view =
     (if sv_state_seq view < accepted_state_seq then [BehindStateSeq (sv_state_seq view) accepted_state_seq] else []) @
     concat (map (\<lambda>device.
         let server = vv_get (sv_heads view) device; local = local_entry log device
         in if server < local then [BehindHead device server local] else [])
       (bt_keys (known_devices log))) @
     (let own_acked = cap_cutoff log (vl_own log) (acknowledged log); server = vv_get (sv_heads view) (vl_own log)
      in if server < own_acked then [BehindOwnHead server own_acked] else []) @
     (if sv_lacks_wrap view then [BehindWrap] else [])"

end
