(* ===== verification/Vault_Invariant.thy ===== *)
theory Vault_Invariant
  imports Vault_Delivery Vault_Own
begin

text \<open>
  The invariant of a vault log, and that every operation of the module keeps it. The invariant is
  stated over what the log shows: the link at a dot, the head and the frontier of a device, the
  bodies of the ready index, the settled version vectors and the dirty items.
\<close>

section \<open>The invariant\<close>

definition vl_frontier :: "vault_log \<Rightarrow> device_id \<Rightarrow> u64" where
  "vl_frontier log x = (case bt_get (vl_chains log) x of None \<Rightarrow> 0 | Some c \<Rightarrow> ch_frontier c)"

abbreviation lk_item :: "link \<Rightarrow> id16" where
  "lk_item l \<equiv> oh_item_id (lk_header l)"

abbreviation lk_prev :: "link \<Rightarrow> u64" where
  "lk_prev l \<equiv> oh_vault_prev_seq (lk_header l)"

text \<open>Every link is filed under the dot its header names, and belongs to the vault.\<close>

definition no_zero :: "vault_log \<Rightarrow> bool" where
  "no_zero log \<longleftrightarrow> (\<forall>x c. bt_get (vl_chains log) x = Some c \<longrightarrow> bt_get (ch_links c) 0 = None)"

definition links_ok :: "vault_log \<Rightarrow> bool" where
  "links_ok log \<longleftrightarrow>
     (\<forall>d l. vl_link log d = Some l \<longrightarrow> oh_dot (lk_header l) = d \<and> oh_vault_id (lk_header l) = vl_vault_id log) \<and> no_zero log"

text \<open>
  The links of a device are a prefix of its chain: each names the one just before it, and the
  head is the last.
\<close>

definition chain_linked :: "vault_log \<Rightarrow> bool" where
  "chain_linked log \<longleftrightarrow>
     (\<forall>d l. vl_link log d = Some l \<longrightarrow>
        lk_prev l < dot_seq d \<and> dot_seq d \<le> vl_head log (dot_device d) \<and>
        (\<forall>e. dot_device e = dot_device d \<and> dot_seq e < dot_seq d \<and> vl_link log e \<noteq> None \<longrightarrow> dot_seq e \<le> lk_prev l) \<and>
        (lk_prev l \<noteq> 0 \<longrightarrow> (\<exists>e. dot_device e = dot_device d \<and> dot_seq e = lk_prev l \<and> vl_link log e \<noteq> None))) \<and>
     (\<forall>x. vl_head log x \<noteq> 0 \<longrightarrow> (\<exists>e. dot_device e = x \<and> dot_seq e = vl_head log x \<and> vl_link log e \<noteq> None))"

text \<open>The ready index holds exactly the links whose body is verified and not delivered.\<close>

definition ready_ok :: "vault_log \<Rightarrow> bool" where
  "ready_ok log \<longleftrightarrow> (\<forall>i d. in_ready (vl_ready log) i d \<longleftrightarrow>
     (\<exists>l. vl_link log d = Some l \<and> lk_state l = LsReady \<and> lk_item l = i))"

text \<open>A delivered link, and one accepted without a body, is covered by its item's settled vector.\<close>

definition settled_ok :: "vault_log \<Rightarrow> bool" where
  "settled_ok log \<longleftrightarrow> (\<forall>d l. vl_link log d = Some l \<and> lk_state l \<in> {LsDelivered, LsBodiless} \<longrightarrow>
     vv_covers (vl_settled log (lk_item l)) d)"

definition frontier_ok :: "vault_log \<Rightarrow> bool" where
  "frontier_ok log \<longleftrightarrow>
     (\<forall>d l. vl_link log d = Some l \<and> dot_seq d < vl_frontier log (dot_device d) \<longrightarrow>
        vv_covers (vl_settled log (lk_item l)) d) \<and>
     (\<forall>x sq. vl_head log x < sq \<longrightarrow> vl_frontier log x \<le> sq)"

text \<open>Every covered body that waits in the index belongs to an item of the given set.\<close>

definition dirty_within :: "id16 set \<Rightarrow> vault_log \<Rightarrow> bool" where
  "dirty_within X log \<longleftrightarrow> (\<forall>i d. in_ready (vl_ready log) i d \<and> vv_covers (vl_settled log i) d \<longrightarrow> i \<in> X)"

definition own_ok :: "vault_log \<Rightarrow> bool" where
  "own_ok log \<longleftrightarrow> (\<forall>d l. vl_link log d = Some l \<and> dot_device d = vl_own log \<longrightarrow> lk_state l = LsDelivered)"

definition cutoff_ok :: "vault_log \<Rightarrow> bool" where
  "cutoff_ok log \<longleftrightarrow> (\<forall>d l. vl_link log d = Some l \<and> past_cutoff (vl_cutoff log (dot_device d)) (dot_seq d) \<longrightarrow>
     lk_state l \<in> {LsDelivered, LsRevoked})"

definition uploads_ok :: "vault_log \<Rightarrow> bool" where
  "uploads_ok log \<longleftrightarrow>
     (\<forall>sq g. bt_get (up_unanswered (vl_uploads log)) sq = Some g \<longrightarrow>
        up_acked (vl_uploads log) < sq \<and> own_link log sq \<noteq> None) \<and>
     (up_acked (vl_uploads log) \<noteq> 0 \<longrightarrow> own_link log (up_acked (vl_uploads log)) \<noteq> None)"

definition base_ok :: "vault_log \<Rightarrow> bool" where
  "base_ok log \<longleftrightarrow> links_ok log \<and> chain_linked log \<and> ready_ok log \<and> settled_ok log \<and> frontier_ok log \<and>
     own_ok log \<and> cutoff_ok log \<and> uploads_ok log"

definition log_ok :: "vault_log \<Rightarrow> bool" where
  "log_ok log \<longleftrightarrow> base_ok log \<and> dirty_within {i. bs_contains (vl_dirty log) i} log"

lemmas ok_defs = links_ok_def chain_linked_def ready_ok_def settled_ok_def frontier_ok_def own_ok_def
  cutoff_ok_def uploads_ok_def

text \<open>Each observer reads one field.\<close>

lemma observers_update [simp]:
  "vl_link (vl_items_update f_items log) d = vl_link log d"
  "vl_link (vl_ready_update f_ready log) d = vl_link log d"
  "vl_link (vl_dirty_update f_dirty log) d = vl_link log d"
  "vl_link (vl_absorbed_update f_absorbed log) d = vl_link log d"
  "vl_link (vl_cutoffs_update f_cutoffs log) d = vl_link log d"
  "vl_link (vl_uploads_update f_uploads log) d = vl_link log d"
  "vl_head (vl_items_update f_items log) x = vl_head log x"
  "vl_head (vl_ready_update f_ready log) x = vl_head log x"
  "vl_head (vl_dirty_update f_dirty log) x = vl_head log x"
  "vl_head (vl_absorbed_update f_absorbed log) x = vl_head log x"
  "vl_head (vl_cutoffs_update f_cutoffs log) x = vl_head log x"
  "vl_head (vl_uploads_update f_uploads log) x = vl_head log x"
  "vl_frontier (vl_items_update f_items log) x = vl_frontier log x"
  "vl_frontier (vl_ready_update f_ready log) x = vl_frontier log x"
  "vl_frontier (vl_dirty_update f_dirty log) x = vl_frontier log x"
  "vl_frontier (vl_absorbed_update f_absorbed log) x = vl_frontier log x"
  "vl_frontier (vl_cutoffs_update f_cutoffs log) x = vl_frontier log x"
  "vl_frontier (vl_uploads_update f_uploads log) x = vl_frontier log x"
  "vl_header (vl_items_update f_items log) d = vl_header log d"
  "vl_header (vl_ready_update f_ready log) d = vl_header log d"
  "vl_header (vl_dirty_update f_dirty log) d = vl_header log d"
  "vl_header (vl_absorbed_update f_absorbed log) d = vl_header log d"
  "vl_header (vl_cutoffs_update f_cutoffs log) d = vl_header log d"
  "vl_header (vl_uploads_update f_uploads log) d = vl_header log d"
  "no_zero (vl_items_update f_items log) = no_zero log"
  "no_zero (vl_ready_update f_ready log) = no_zero log"
  "no_zero (vl_dirty_update f_dirty log) = no_zero log"
  "no_zero (vl_absorbed_update f_absorbed log) = no_zero log"
  "no_zero (vl_cutoffs_update f_cutoffs log) = no_zero log"
  "no_zero (vl_uploads_update f_uploads log) = no_zero log"
  "own_link (vl_items_update f_items log) sq = own_link log sq"
  "own_link (vl_ready_update f_ready log) sq = own_link log sq"
  "own_link (vl_dirty_update f_dirty log) sq = own_link log sq"
  "own_link (vl_absorbed_update f_absorbed log) sq = own_link log sq"
  "own_link (vl_cutoffs_update f_cutoffs log) sq = own_link log sq"
  "own_link (vl_uploads_update f_uploads log) sq = own_link log sq"
  "vl_settled (vl_chains_update f_chains log) i = vl_settled log i"
  "vl_settled (vl_ready_update f_ready log) i = vl_settled log i"
  "vl_settled (vl_dirty_update f_dirty log) i = vl_settled log i"
  "vl_settled (vl_absorbed_update f_absorbed log) i = vl_settled log i"
  "vl_settled (vl_cutoffs_update f_cutoffs log) i = vl_settled log i"
  "vl_settled (vl_uploads_update f_uploads log) i = vl_settled log i"
  "vl_cutoff (vl_chains_update f_chains log) x = vl_cutoff log x"
  "vl_cutoff (vl_items_update f_items log) x = vl_cutoff log x"
  "vl_cutoff (vl_ready_update f_ready log) x = vl_cutoff log x"
  "vl_cutoff (vl_dirty_update f_dirty log) x = vl_cutoff log x"
  "vl_cutoff (vl_absorbed_update f_absorbed log) x = vl_cutoff log x"
  "vl_cutoff (vl_uploads_update f_uploads log) x = vl_cutoff log x"
  by (simp_all add: vl_link_def [abs_def] vl_head_def vl_frontier_def vl_header_def [abs_def] no_zero_def own_link_def
      vl_settled_def vl_cutoff_def)

lemma log_new_ok: "log_ok (vault_log_new v own)"
  by (simp add: log_ok_def base_ok_def ok_defs dirty_within_def no_zero_def vault_log_new_def vl_link_def link_at_def
      vl_head_def vl_frontier_def in_ready_def uploads_default_def)

section \<open>Links change state\<close>

text \<open>
  Two logs show the same chains when they agree on heads and frontiers and on what the headers of
  their links say about the chain; the states of the links may differ, and the epoch of a re-issued
  own op.
\<close>

definition header_key :: "op_header \<Rightarrow> id16 \<times> id16 \<times> dot \<times> u64" where
  "header_key h = (oh_vault_id h, oh_item_id h, oh_dot h, oh_vault_prev_seq h)"

definition vl_key :: "vault_log \<Rightarrow> dot \<Rightarrow> (id16 \<times> id16 \<times> dot \<times> u64) option" where
  "vl_key log d = map_option (\<lambda>l. header_key (lk_header l)) (vl_link log d)"

definition same_chains :: "vault_log \<Rightarrow> vault_log \<Rightarrow> bool" where
  "same_chains log log' \<longleftrightarrow>
     (\<forall>d. vl_key log' d = vl_key log d) \<and>
     (\<forall>x. vl_head log' x = vl_head log x) \<and> (\<forall>x. vl_frontier log' x = vl_frontier log x) \<and>
     (no_zero log \<longrightarrow> no_zero log') \<and> vl_vault_id log' = vl_vault_id log \<and> vl_own log' = vl_own log"

lemma vl_header_None: "vl_header log d = None \<longleftrightarrow> vl_link log d = None"
  by (simp add: vl_header_def)

lemma vl_key_Some: "vl_key log d = Some (v, i, e, p) \<longleftrightarrow> (\<exists>l. vl_link log d = Some l \<and>
    oh_vault_id (lk_header l) = v \<and> lk_item l = i \<and> oh_dot (lk_header l) = e \<and> lk_prev l = p)"
  by (auto simp: vl_key_def header_key_def)

lemma vl_key_None: "vl_key log d = None \<longleftrightarrow> vl_link log d = None"
  by (simp add: vl_key_def)

lemma vl_key_all:
  "(\<forall>v i e p. vl_key log d = Some (v, i, e, p) \<longrightarrow> Q p) \<longleftrightarrow> (\<forall>l. vl_link log d = Some l \<longrightarrow> Q (lk_prev l))"
  by (auto simp: vl_key_Some)

lemma links_ok_key:
  "links_ok log \<longleftrightarrow> (\<forall>d v i e p. vl_key log d = Some (v, i, e, p) \<longrightarrow> e = d \<and> v = vl_vault_id log) \<and> no_zero log"
  unfolding links_ok_def vl_key_Some by blast

lemma chain_linked_key:
  "chain_linked log \<longleftrightarrow>
     (\<forall>d v i e' p. vl_key log d = Some (v, i, e', p) \<longrightarrow>
        p < dot_seq d \<and> dot_seq d \<le> vl_head log (dot_device d) \<and>
        (\<forall>e. dot_device e = dot_device d \<and> dot_seq e < dot_seq d \<and> vl_key log e \<noteq> None \<longrightarrow> dot_seq e \<le> p) \<and>
        (p \<noteq> 0 \<longrightarrow> (\<exists>e. dot_device e = dot_device d \<and> dot_seq e = p \<and> vl_key log e \<noteq> None))) \<and>
     (\<forall>x. vl_head log x \<noteq> 0 \<longrightarrow> (\<exists>e. dot_device e = x \<and> dot_seq e = vl_head log x \<and> vl_key log e \<noteq> None))"
  unfolding chain_linked_def vl_key_None vl_key_all ..

lemma own_link_None: "own_link log sq = None \<longleftrightarrow> (\<forall>d. dot_new (vl_own log) sq = Some d \<longrightarrow> vl_key log d = None)"
  by (cases "dot_new (vl_own log) sq") (simp_all add: own_link_def vl_key_None vl_header_def)

lemma same_chains_keep:
  assumes "same_chains log log'"
  shows "links_ok log \<Longrightarrow> links_ok log'" "chain_linked log \<Longrightarrow> chain_linked log'"
    "own_link log' sq = None \<longleftrightarrow> own_link log sq = None"
proof -
  have same: "vl_key log' = vl_key log" "vl_head log' = vl_head log" "vl_own log' = vl_own log"
    "vl_vault_id log' = vl_vault_id log" "no_zero log \<Longrightarrow> no_zero log'"
    using assms by (simp_all add: same_chains_def fun_eq_iff)
  show "links_ok log \<Longrightarrow> links_ok log'" using same(5) by (simp only: links_ok_key same) blast
  show "chain_linked log \<Longrightarrow> chain_linked log'" by (simp only: chain_linked_key same)
  show "own_link log' sq = None \<longleftrightarrow> own_link log sq = None" by (simp only: own_link_None same)
qed

lemma base_okD:
  assumes "base_ok log"
  shows "links_ok log" "chain_linked log" "ready_ok log" "settled_ok log" "frontier_ok log" "own_ok log"
    "cutoff_ok log" "uploads_ok log"
  using assms by (simp_all add: base_ok_def)

lemma chain_linkedD:
  assumes "chain_linked log" "vl_link log d = Some l"
  shows "lk_prev l < dot_seq d" "dot_seq d \<le> vl_head log (dot_device d)"
    "dot_device e = dot_device d \<Longrightarrow> dot_seq e < dot_seq d \<Longrightarrow> vl_link log e \<noteq> None \<Longrightarrow> dot_seq e \<le> lk_prev l"
    "lk_prev l \<noteq> 0 \<Longrightarrow> \<exists>e. dot_device e = dot_device d \<and> dot_seq e = lk_prev l \<and> vl_link log e \<noteq> None"
  using assms unfolding chain_linked_def by blast+

lemma chain_head:
  "chain_linked log \<Longrightarrow> vl_head log x \<noteq> 0 \<Longrightarrow> \<exists>e. dot_device e = x \<and> dot_seq e = vl_head log x \<and> vl_link log e \<noteq> None"
  by (simp add: chain_linked_def)

lemma same_header:
  assumes "same_chains log log'" "vl_link log' d = Some l'"
  obtains l where "vl_link log d = Some l" "lk_item l = lk_item l'" "lk_prev l = lk_prev l'"
proof -
  have "vl_key log' d = Some (header_key (lk_header l'))" using assms(2) by (simp add: vl_key_def)
  with assms(1) have "vl_key log d = Some (header_key (lk_header l'))" by (simp add: same_chains_def)
  then show ?thesis using that by (auto simp: vl_key_def header_key_def)
qed

text \<open>What an operation that keeps the chains and only moves links between states has to show.\<close>

lemma base_ok_same:
  assumes same: "same_chains log log'" and ok: "base_ok log" and index: "ready_ok log'"
    and grows: "\<And>i. vv_le (vl_settled log i) (vl_settled log' i)"
    and cutoffs: "vl_cutoffs log' = vl_cutoffs log" and uploads: "vl_uploads log' = vl_uploads log"
    and moved: "\<And>d l l'. vl_link log d = Some l \<Longrightarrow> vl_link log' d = Some l' \<Longrightarrow> lk_state l' \<noteq> lk_state l \<Longrightarrow>
      (lk_state l' \<in> {LsDelivered, LsBodiless} \<longrightarrow> vv_covers (vl_settled log' (lk_item l)) d) \<and>
      (dot_device d = vl_own log \<longrightarrow> lk_state l' = LsDelivered) \<and>
      (past_cutoff (vl_cutoff log (dot_device d)) (dot_seq d) \<longrightarrow> lk_state l' \<in> {LsDelivered, LsRevoked})"
  shows "base_ok log'"
proof -
  have grow: "vv_covers (vl_settled log i) d \<Longrightarrow> vv_covers (vl_settled log' i) d" for i d
    using vv_le_covers [OF grows] .
  have cut: "vl_cutoff log' x = vl_cutoff log x" for x by (simp add: vl_cutoff_def cutoffs)
  have own: "vl_own log' = vl_own log" using same by (simp add: same_chains_def)
  have "settled_ok log'"
    unfolding settled_ok_def
  proof (intro allI impI, elim conjE)
    fix d l' assume l': "vl_link log' d = Some l'" "lk_state l' \<in> {LsDelivered, LsBodiless}"
    with same_header [OF same] obtain l where "vl_link log d = Some l" "lk_item l = lk_item l'" by blast
    with l' moved [of d l l'] grow base_okD(4) [OF ok] show "vv_covers (vl_settled log' (lk_item l')) d"
      unfolding settled_ok_def by (cases "lk_state l' = lk_state l") fastforce+
  qed
  moreover have "frontier_ok log'"
    unfolding frontier_ok_def
  proof (intro conjI allI impI, elim conjE)
    fix d l' assume l': "vl_link log' d = Some l'" "dot_seq d < vl_frontier log' (dot_device d)"
    with same_header [OF same] obtain l where "vl_link log d = Some l" "lk_item l = lk_item l'" by blast
    with l' grow base_okD(5) [OF ok] same show "vv_covers (vl_settled log' (lk_item l')) d"
      unfolding frontier_ok_def same_chains_def by (metis (no_types, lifting))
  next
    fix x sq assume "vl_head log' x < sq"
    with base_okD(5) [OF ok] same show "vl_frontier log' x \<le> sq"
      by (simp add: frontier_ok_def same_chains_def)
  qed
  moreover have "own_ok log'"
    unfolding own_ok_def own
  proof (intro allI impI, elim conjE)
    fix d l' assume l': "vl_link log' d = Some l'" "dot_device d = vl_own log"
    with same_header [OF same] obtain l where "vl_link log d = Some l" by blast
    with l' moved [of d l l'] base_okD(6) [OF ok] show "lk_state l' = LsDelivered"
      unfolding own_ok_def by metis
  qed
  moreover have "cutoff_ok log'"
    unfolding cutoff_ok_def cut
  proof (intro allI impI, elim conjE)
    fix d l' assume l': "vl_link log' d = Some l'" "past_cutoff (vl_cutoff log (dot_device d)) (dot_seq d)"
    with same_header [OF same] obtain l where "vl_link log d = Some l" by blast
    with l' moved [of d l l'] base_okD(7) [OF ok] show "lk_state l' \<in> {LsDelivered, LsRevoked}"
      unfolding cutoff_ok_def by metis
  qed
  moreover have "uploads_ok log'"
    using base_okD(8) [OF ok] by (simp only: uploads_ok_def uploads same_chains_keep(3) [OF same])
  ultimately show ?thesis
    using same_chains_keep(1,2) [OF same] base_okD(1,2) [OF ok] index by (simp add: base_ok_def)
qed

lemma same_chainsI:
  assumes shape: "\<And>x. map_option chain_shape (bt_get (vl_chains log') x) = map_option chain_shape (bt_get (vl_chains log) x)"
    and headers: "\<And>d. vl_key log' d = vl_key log d"
    and ids: "vl_vault_id log' = vl_vault_id log" "vl_own log' = vl_own log"
  shows "same_chains log log'"
proof -
  have "vl_head log' x = vl_head log x \<and> vl_frontier log' x = vl_frontier log x \<and>
      (\<forall>c'. bt_get (vl_chains log') x = Some c' \<longrightarrow>
        (\<exists>c. bt_get (vl_chains log) x = Some c \<and> bt_get (ch_links c') 0 = bt_get (ch_links c) 0))" for x
    using shape [of x] by (cases "bt_get (vl_chains log) x")
      (auto simp: vl_head_def vl_frontier_def chain_shape_def)
  moreover from this have "no_zero log \<Longrightarrow> no_zero log'"
    unfolding no_zero_def by metis
  ultimately show ?thesis using headers ids by (simp add: same_chains_def)
qed

lemma same_chains_refl: "vl_chains log' = vl_chains log \<Longrightarrow> vl_vault_id log' = vl_vault_id log \<Longrightarrow>
    vl_own log' = vl_own log \<Longrightarrow> same_chains log log'"
  by (rule same_chainsI) (simp_all add: vl_key_def vl_link_def)

lemma move_link:
  assumes "vl_link log d = Some l" "header_key (lk_header l') = header_key (lk_header l)" "vl_chains log' = set_link d l' (vl_chains log)"
    "vl_vault_id log' = vl_vault_id log" "vl_own log' = vl_own log"
  shows "same_chains log log'" "vl_link log' e = (if e = d then Some l' else vl_link log e)"
proof -
  show link: "vl_link log' e = (if e = d then Some l' else vl_link log e)" for e
    using assms by (simp add: vl_link_def)
  show "same_chains log log'"
    by (rule same_chainsI) (use assms link in \<open>simp_all add: set_link_shape vl_key_def\<close>)
qed

section \<open>The covered pass\<close>

text \<open>One item of the covered pass, as the log shows it.\<close>

lemma deliver_item_effect:
  assumes step: "deliver_item i (log, out) = (log', out')"
  shows "same_chains log log'"
    and "vl_link log' d = (if in_ready (vl_ready log) i d \<and> vv_covers (vl_settled log i) d
      then map_option delivered (vl_link log d) else vl_link log d)"
    and "in_ready (vl_ready log') j d \<longleftrightarrow>
      in_ready (vl_ready log) j d \<and> \<not> (j = i \<and> vv_covers (vl_settled log i) d)"
    and "vl_items log' = vl_items log" "vl_dirty log' = vl_dirty log" "vl_cutoffs log' = vl_cutoffs log"
      "vl_uploads log' = vl_uploads log" "vl_absorbed log' = vl_absorbed log"
    and "out' = out @ map (\<lambda>d. delivery_of True (the (vl_link log d)) i d)
      (filter (\<lambda>d. vl_link log d \<noteq> None) (item_due log i))"
proof -
  obtain ready where eq: "deliver_item i (log, out) =
      (let (cs, out) = fold (deliver_due i) (item_due log i) (vl_chains log, out)
       in (log \<lparr> vl_chains := cs, vl_ready := ready \<rparr>, out))"
    and ready: "\<And>j d. in_ready ready j d \<longleftrightarrow>
      in_ready (vl_ready log) j d \<and> \<not> (j = i \<and> vv_covers (vl_settled log i) d)"
    by (rule deliver_item_eq) blast
  obtain cs where run: "fold (deliver_due i) (item_due log i) (vl_chains log, out) = (cs, out')"
    and log': "log' = log \<lparr> vl_chains := cs, vl_ready := ready \<rparr>"
    using step eq by (auto split: prod.splits)
  note due = fold_deliver_due [OF item_due_distinct run]
  show link: "vl_link log' d = (if in_ready (vl_ready log) i d \<and> vv_covers (vl_settled log i) d
      then map_option delivered (vl_link log d) else vl_link log d)" for d
    by (simp add: vl_link_def log' due(1) item_due_set)
  have headers: "vl_key log' d = vl_key log d" for d
    by (simp add: vl_key_def link option.map_comp comp_def)
  show "same_chains log log'"
    by (rule same_chainsI) (simp_all only: headers, simp_all add: log' due(3))
  show "in_ready (vl_ready log') j d \<longleftrightarrow>
      in_ready (vl_ready log) j d \<and> \<not> (j = i \<and> vv_covers (vl_settled log i) d)"
    by (simp add: log' ready)
  show "vl_items log' = vl_items log" "vl_dirty log' = vl_dirty log" "vl_cutoffs log' = vl_cutoffs log"
      "vl_uploads log' = vl_uploads log" "vl_absorbed log' = vl_absorbed log"
    by (simp_all add: log')
  show "out' = out @ map (\<lambda>d. delivery_of True (the (vl_link log d)) i d)
      (filter (\<lambda>d. vl_link log d \<noteq> None) (item_due log i))"
    using due(2) by (simp add: vl_link_def)
qed

lemma settled_okD:
  "settled_ok log \<Longrightarrow> vl_link log d = Some l \<Longrightarrow> lk_state l = LsDelivered \<Longrightarrow> vv_covers (vl_settled log (lk_item l)) d"
  by (simp add: settled_ok_def)

lemma cutoff_okD:
  "cutoff_ok log \<Longrightarrow> vl_link log d = Some l \<Longrightarrow> past_cutoff (vl_cutoff log (dot_device d)) (dot_seq d) \<Longrightarrow>
     lk_state l = LsDelivered \<or> lk_state l = LsRevoked"
  by (auto simp: cutoff_ok_def)

lemma own_okD:
  "own_ok log \<Longrightarrow> vl_link log d = Some l \<Longrightarrow> dot_device d = vl_own log \<Longrightarrow> lk_state l = LsDelivered"
  by (simp add: own_ok_def)

lemma ready_okD:
  "ready_ok log \<Longrightarrow> in_ready (vl_ready log) i d \<Longrightarrow> \<exists>l. vl_link log d = Some l \<and> lk_state l = LsReady \<and> lk_item l = i"
  by (simp add: ready_ok_def)

lemma deliver_item_ok:
  assumes step: "deliver_item i (log, out) = (log', out')" and ok: "base_ok log"
  shows "base_ok log'" "dirty_within X log \<Longrightarrow> dirty_within (X - {i}) log'"
proof -
  note eff = deliver_item_effect [OF step]
  have vv: "vl_settled log' j = vl_settled log j" for j by (simp add: vl_settled_def eff(4))
  show "base_ok log'"
  proof (rule base_ok_same [OF eff(1) ok _ _ eff(6,7)])
    show "ready_ok log'"
      unfolding ready_ok_def
    proof (intro allI)
      fix j d
      show "in_ready (vl_ready log') j d \<longleftrightarrow> (\<exists>l. vl_link log' d = Some l \<and> lk_state l = LsReady \<and> lk_item l = j)"
        using base_okD(3) [OF ok] by (auto simp: eff(2,3) ready_ok_def)
    qed
    show "vv_le (vl_settled log j) (vl_settled log' j)" for j by (simp add: vv)
    fix d l l' assume l: "vl_link log d = Some l" "vl_link log' d = Some l'" "lk_state l' \<noteq> lk_state l"
    then have due: "in_ready (vl_ready log) i d" "vv_covers (vl_settled log i) d" "l' = delivered l"
      by (auto simp: eff(2) split: if_splits)
    moreover have "lk_item l = i" using ready_okD [OF base_okD(3) [OF ok] due(1)] l(1) by auto
    ultimately show "(lk_state l' \<in> {LsDelivered, LsBodiless} \<longrightarrow> vv_covers (vl_settled log' (lk_item l)) d) \<and>
      (dot_device d = vl_own log \<longrightarrow> lk_state l' = LsDelivered) \<and>
      (past_cutoff (vl_cutoff log (dot_device d)) (dot_seq d) \<longrightarrow> lk_state l' \<in> {LsDelivered, LsRevoked})"
      by (simp add: vv)
  qed
  show "dirty_within X log \<Longrightarrow> dirty_within (X - {i}) log'"
    by (auto simp: dirty_within_def vv eff(3))
qed

end
