(* ===== verification/Vault_Batches.thy ===== *)
theory Vault_Batches
  imports Vault_Invariant
begin

text \<open>
  What \<open>take_deliveries\<close> delivers. A batch is explained from the log it started on: the settled
  version vector of an item at any point of the batch is what it was at the start plus the dots
  delivered so far, and each delivery was due at its point. The theory shows that the two passes
  keep that explanation, that the loop stops only when nothing more is due, and so that the batch
  is exactly what an inductive specification, without frontiers, indexes or dirty items, allows.
\<close>

section \<open>Explaining a batch\<close>

definition settled_after :: "vault_log \<Rightarrow> delivery list \<Rightarrow> id16 \<Rightarrow> version_vector" where
  "settled_after log ds i =
     fold (\<lambda>dv vv. if dv_item_id dv = i then vv_add (dv_dot dv) vv else vv) ds (vl_settled log i)"

text \<open>Why a delivery was due after the deliveries before it.\<close>

definition due_after :: "vault_log \<Rightarrow> delivery list \<Rightarrow> delivery \<Rightarrow> bool" where
  "due_after log before dv \<longleftrightarrow>
     (\<exists>l. vl_link log (dv_dot dv) = Some l \<and> lk_state l = LsReady \<and>
        dv_item_id dv = lk_item l \<and> dv_hlc dv = oh_hlc (lk_header l) \<and>
        dv_covered dv = vv_covers (settled_after log before (lk_item l)) (dv_dot dv) \<and>
        (\<not> dv_covered dv \<longrightarrow>
           vv_le (oh_causal_context (lk_header l)) (settled_after log before (lk_item l)) \<and>
           (\<forall>e l'. dot_device e = dot_device (dv_dot dv) \<and> dot_seq e < dot_seq (dv_dot dv) \<and>
              vl_link log e = Some l' \<longrightarrow> vv_covers (settled_after log before (lk_item l')) e)))"

definition batch_due :: "vault_log \<Rightarrow> delivery list \<Rightarrow> bool" where
  "batch_due log ds \<longleftrightarrow> (\<forall>k < length ds. due_after log (take k ds) (ds ! k))"

lemma batch_due_Nil [simp]: "batch_due log []"
  by (simp add: batch_due_def)

lemma batch_due_snoc: "batch_due log (ds @ [dv]) \<longleftrightarrow> batch_due log ds \<and> due_after log ds dv"
  by (auto simp: batch_due_def nth_append less_Suc_eq)

lemma settled_after_Nil [simp]: "settled_after log [] i = vl_settled log i"
  by (simp add: settled_after_def)

lemma settled_after_snoc:
  "settled_after log (ds @ [dv]) i =
     (if dv_item_id dv = i then vv_add (dv_dot dv) (settled_after log ds i) else settled_after log ds i)"
  by (simp add: settled_after_def)

lemma vv_add_covered_same: "vv_covers v d \<Longrightarrow> vv_add d v = v"
  by (rule vv_ext) (auto simp: vv_get_add vv_covers_def max_def)

definition batch_ok :: "vault_log \<Rightarrow> delivery list \<Rightarrow> vault_log \<Rightarrow> bool" where
  "batch_ok log0 ds log \<longleftrightarrow>
     base_ok log \<and> batch_due log0 ds \<and> distinct (map dv_dot ds) \<and>
     (\<forall>i. vl_settled log i = settled_after log0 ds i) \<and>
     (\<forall>d. vl_link log d = (if d \<in> dv_dot ` set ds then map_option delivered (vl_link log0 d) else vl_link log0 d)) \<and>
     (\<forall>x. vl_head log x = vl_head log0 x) \<and>
     vl_vault_id log = vl_vault_id log0 \<and> vl_own log = vl_own log0 \<and> vl_cutoffs log = vl_cutoffs log0 \<and>
     vl_uploads log = vl_uploads log0 \<and> vl_absorbed log = vl_absorbed log0"

lemma batch_ok_start: "base_ok log \<Longrightarrow> batch_ok log [] log"
  by (simp add: batch_ok_def)

lemma batch_okD:
  assumes "batch_ok log0 ds log"
  shows "base_ok log" "batch_due log0 ds" "distinct (map dv_dot ds)" "vl_settled log i = settled_after log0 ds i"
    "vl_link log d = (if d \<in> dv_dot ` set ds then map_option delivered (vl_link log0 d) else vl_link log0 d)"
    "vl_head log x = vl_head log0 x" "vl_vault_id log = vl_vault_id log0" "vl_own log = vl_own log0"
    "vl_cutoffs log = vl_cutoffs log0" "vl_uploads log = vl_uploads log0" "vl_absorbed log = vl_absorbed log0"
  using assms by (simp_all add: batch_ok_def)

lemma batch_header: "batch_ok log0 ds log \<Longrightarrow> vl_header log d = vl_header log0 d"
  by (simp add: vl_header_def batch_okD(5) option.map_comp comp_def)

text \<open>A link that is still ready was not delivered in the batch, and is the link it was.\<close>

lemma batch_ready:
  assumes "batch_ok log0 ds log" "vl_link log d = Some l" "lk_state l = LsReady"
  shows "d \<notin> dv_dot ` set ds" "vl_link log0 d = Some l"
  using assms(2,3) by (auto simp: batch_okD(5) [OF assms(1)] split: if_splits)

section \<open>The passes keep the explanation\<close>

lemma covered_deliveries:
  assumes "batch_due log0 ds" "distinct ps"
    and "\<And>d. d \<in> set ps \<Longrightarrow> vv_covers (settled_after log0 ds i) d \<and>
      (\<exists>l. vl_link log0 d = Some l \<and> lk_state l = LsReady \<and> lk_item l = i)"
  shows "settled_after log0 (ds @ map (\<lambda>d. delivery_of True (the (vl_link log0 d)) i d) ps) = settled_after log0 ds \<and>
    batch_due log0 (ds @ map (\<lambda>d. delivery_of True (the (vl_link log0 d)) i d) ps)"
  using assms(2,3)
proof (induction ps rule: rev_induct)
  case Nil
  then show ?case using assms(1) by simp
next
  case (snoc d ps)
  let ?ds = "ds @ map (\<lambda>d. delivery_of True (the (vl_link log0 d)) i d) ps"
  have IH: "settled_after log0 ?ds = settled_after log0 ds" "batch_due log0 ?ds"
    using snoc by auto
  obtain l where l: "vl_link log0 d = Some l" "lk_state l = LsReady" "lk_item l = i"
    "vv_covers (settled_after log0 ds i) d"
    using snoc.prems(2) [of d] by auto
  let ?dv = "delivery_of True (the (vl_link log0 d)) i d"
  have "due_after log0 ?ds ?dv"
    using l by (simp add: due_after_def IH(1))
  moreover have "settled_after log0 (?ds @ [?dv]) j = settled_after log0 ds j" for j
    unfolding settled_after_snoc IH(1) using l(4) by (auto simp: vv_add_covered_same)
  ultimately show ?case
    using IH(2) batch_due_snoc [of log0 ?ds ?dv] by (auto simp: fun_eq_iff)
qed

lemma deliver_item_batch:
  assumes ok: "batch_ok log0 ds log" and step: "deliver_item i (log, ds) = (log', ds')"
  shows "batch_ok log0 ds' log'"
proof -
  note eff = deliver_item_effect [OF step] and base = batch_okD(1) [OF ok]
  define ps where "ps = filter (\<lambda>d. vl_link log d \<noteq> None) (item_due log i)"
  have ps: "d \<in> set ps \<longleftrightarrow> in_ready (vl_ready log) i d \<and> vv_covers (vl_settled log i) d" for d
    using ready_okD [OF base_okD(3) [OF base], of i d] by (auto simp: ps_def item_due_set)
  have ready: "vl_link log0 d = vl_link log d \<and> d \<notin> dv_dot ` set ds \<and>
      (\<exists>l. vl_link log d = Some l \<and> lk_state l = LsReady \<and> lk_item l = i)" if "d \<in> set ps" for d
    using ready_okD [OF base_okD(3) [OF base], of i d] that batch_ready [OF ok] by (auto simp: ps)
  have "map (\<lambda>d. delivery_of True (the (vl_link log d)) i d) ps = map (\<lambda>d. delivery_of True (the (vl_link log0 d)) i d) ps"
    using ready by auto
  then have ds': "ds' = ds @ map (\<lambda>d. delivery_of True (the (vl_link log0 d)) i d) ps"
    by (simp add: eff(9) ps_def)
  have dist: "distinct ps" by (simp add: ps_def item_due_distinct)
  have cov: "vv_covers (settled_after log0 ds i) d \<and> (\<exists>l. vl_link log0 d = Some l \<and> lk_state l = LsReady \<and> lk_item l = i)"
    if "d \<in> set ps" for d
    using ready [OF that] that by (simp add: ps batch_okD(4) [OF ok, symmetric])
  note batch = covered_deliveries [OF batch_okD(2) [OF ok] dist cov, folded ds']
  have dots: "map dv_dot ds' = map dv_dot ds @ ps" by (simp add: ds' comp_def)
  then have "distinct (map dv_dot ds')"
    using dist ready batch_okD(3) [OF ok] by auto
  moreover have "dv_dot ` set ds' = dv_dot ` set ds \<union> set ps"
    using arg_cong [OF dots, of set] by simp
  then have "vl_link log' d = (if d \<in> dv_dot ` set ds' then map_option delivered (vl_link log0 d) else vl_link log0 d)" for d
    using ready [of d] by (auto simp: eff(2) ps [symmetric] batch_okD(5) [OF ok, of d] option.map_comp comp_def)
  ultimately show ?thesis
    using eff(1) batch deliver_item_ok(1) [OF step base] batch_okD [OF ok]
    by (simp add: batch_ok_def eff same_chains_def vl_settled_def fun_eq_iff)
qed

subsection \<open>The frontier pass\<close>

lemma find_range:
  assumes "find P (bt_range_from lo m) = Some (k, v)"
  shows "bt_get m k = Some v" "lo \<le> k" "P (k, v)"
    and "bt_get m k' = Some v' \<Longrightarrow> lo \<le> k' \<Longrightarrow> k' < k \<Longrightarrow> \<not> P (k', v')"
proof -
  obtain n where n: "n < length (bt_range_from lo m)" "P (k, v)" "bt_range_from lo m ! n = (k, v)"
    "\<And>j. j < n \<Longrightarrow> \<not> P (bt_range_from lo m ! j)"
    using assms by (auto simp: find_Some_iff)
  have "(k, v) \<in> set (bt_range_from lo m)" using n(1,3) by (metis nth_mem)
  then show "bt_get m k = Some v" "lo \<le> k" "P (k, v)" using n(2) by (auto simp: bt_range_from_def bt_entries_iff)
  assume k': "bt_get m k' = Some v'" "lo \<le> k'" "k' < k"
  then have "(k', v') \<in> set (bt_range_from lo m)" by (simp add: bt_range_from_def bt_entries_iff)
  then obtain j where j: "j < length (bt_range_from lo m)" "bt_range_from lo m ! j = (k', v')"
    by (metis in_set_conv_nth)
  have "sorted_wrt (\<lambda>a b. fst a < fst b) (bt_range_from lo m)"
    using bt_entries_ascending [of m] by (simp add: bt_range_from_def sorted_wrt_map sorted_wrt_filter)
  then have "j < n"
    using j n(1,3) k'(3) sorted_wrt_nth_less [of "\<lambda>a b. fst a < fst b" "bt_range_from lo m" n j]
    by (metis fst_conv linorder_neqE_nat not_less_iff_gr_or_eq)
  with n(4) j(2) show "\<not> P (k', v')" by fastforce
qed

lemma find_range_None:
  assumes "find P (bt_range_from lo m) = None" "bt_get m k = Some v" "lo \<le> k"
  shows "\<not> P (k, v)"
  using assms by (auto simp: find_None_iff bt_range_from_def bt_entries_iff)

lemma link_in_chain:
  assumes "bt_get (vl_chains log) (dot_device d) = Some c"
  shows "vl_link log d = bt_get (ch_links c) (dot_seq d)"
  using assms by (simp add: vl_link_def link_at_def)

lemma chain_entry:
  assumes "links_ok log" "bt_get (vl_chains log) x = Some c" "bt_get (ch_links c) sq = Some l"
  shows "dot_device (oh_dot (lk_header l)) = x" "dot_seq (oh_dot (lk_header l)) = sq"
    "vl_link log (oh_dot (lk_header l)) = Some l"
proof -
  have "sq \<noteq> 0" using assms by (auto simp: links_ok_def no_zero_def)
  then obtain d where d: "dot_device d = x" "dot_seq d = sq"
    by (metis dot.sel(1) dot_seq_def dot.sel(2) nz_get_of)
  with assms link_in_chain [of log d c] have "vl_link log d = Some l" by simp
  moreover from this have "oh_dot (lk_header l) = d" using assms(1) by (simp add: links_ok_def)
  ultimately show "dot_device (oh_dot (lk_header l)) = x" "dot_seq (oh_dot (lk_header l)) = sq"
    "vl_link log (oh_dot (lk_header l)) = Some l" using d by simp_all
qed

lemma settled_iff:
  assumes "base_ok log" "vl_link log d = Some l"
  shows "link_settled (vl_items log) l \<longleftrightarrow> vv_covers (vl_settled log (lk_item l)) d"
  using base_okD(1,4) [OF assms(1)] assms(2)
  by (auto simp: link_settled_def covered_settled vl_settled_iff links_ok_def settled_ok_def)

text \<open>What the search for the next unsettled link of a chain finds.\<close>

lemma next_unsettled_Some:
  assumes ok: "base_ok log" and c: "bt_get (vl_chains log) x = Some c"
    and nxt: "next_unsettled (vl_items log) c = Some sq"
  obtains l d where "bt_get (ch_links c) sq = Some l" "oh_dot (lk_header l) = d" "dot_device d = x" "dot_seq d = sq"
    "vl_link log d = Some l" "\<not> vv_covers (vl_settled log (lk_item l)) d"
    "\<And>e l'. dot_device e = x \<Longrightarrow> dot_seq e < sq \<Longrightarrow> vl_link log e = Some l' \<Longrightarrow> vv_covers (vl_settled log (lk_item l')) e"
proof -
  obtain l where found: "find (\<lambda>(_, l). \<not> link_settled (vl_items log) l) (bt_range_from (ch_frontier c) (ch_links c)) = Some (sq, l)"
    using nxt by (auto simp: next_unsettled_def)
  note f = find_range [OF found]
  note entry = chain_entry [OF base_okD(1) [OF ok] c f(1)]
  show ?thesis
  proof (rule that [OF f(1) refl entry])
    show "\<not> vv_covers (vl_settled log (lk_item l)) (oh_dot (lk_header l))"
      using f(3) settled_iff [OF ok entry(3)] by simp
    fix e l' assume e: "dot_device e = x" "dot_seq e < sq" "vl_link log e = Some l'"
    then have l': "bt_get (ch_links c) (dot_seq e) = Some l'" using link_in_chain [of log e c] c by simp
    show "vv_covers (vl_settled log (lk_item l')) e"
    proof (cases "ch_frontier c \<le> dot_seq e")
      case True
      with f(4) [OF l' _ e(2)] settled_iff [OF ok e(3)] show ?thesis by simp
    next
      case False
      with base_okD(5) [OF ok] e c show ?thesis by (auto simp: frontier_ok_def vl_frontier_def not_le)
    qed
  qed
qed

lemma next_unsettled_None:
  assumes ok: "base_ok log" and c: "bt_get (vl_chains log) x = Some c"
    and nxt: "next_unsettled (vl_items log) c = None" and l: "dot_device d = x" "vl_link log d = Some l"
  shows "vv_covers (vl_settled log (lk_item l)) d"
proof (cases "ch_frontier c \<le> dot_seq d")
  case True
  have held: "bt_get (ch_links c) (dot_seq d) = Some l" using link_in_chain [of log d c] c l by simp
  have "find (\<lambda>(_, l). \<not> link_settled (vl_items log) l) (bt_range_from (ch_frontier c) (ch_links c)) = None"
    using nxt by (simp add: next_unsettled_def)
  from find_range_None [OF this held True] have "link_settled (vl_items log) l" by simp
  then show ?thesis using settled_iff [OF ok l(2)] by simp
next
  case False
  with base_okD(5) [OF ok] l c show ?thesis by (auto simp: frontier_ok_def vl_frontier_def not_le)
qed

definition set_frontier :: "device_id \<Rightarrow> u64 \<Rightarrow> vault_log \<Rightarrow> vault_log" where
  "set_frontier x f log =
     (case bt_get (vl_chains log) x of
        None \<Rightarrow> log
      | Some c \<Rightarrow> log \<lparr> vl_chains := bt_insert x (c \<lparr> ch_frontier := f \<rparr>) (vl_chains log) \<rparr>)"

lemma set_frontier_simps [simp]:
  "vl_link (set_frontier x f log) d = vl_link log d"
  "vl_head (set_frontier x f log) y = vl_head log y"
  "vl_items (set_frontier x f log) = vl_items log" "vl_ready (set_frontier x f log) = vl_ready log"
  "vl_dirty (set_frontier x f log) = vl_dirty log" "vl_cutoffs (set_frontier x f log) = vl_cutoffs log"
  "vl_uploads (set_frontier x f log) = vl_uploads log" "vl_own (set_frontier x f log) = vl_own log"
  "vl_vault_id (set_frontier x f log) = vl_vault_id log" "vl_absorbed (set_frontier x f log) = vl_absorbed log"
  "vl_settled (set_frontier x f log) i = vl_settled log i"
  "vl_header (set_frontier x f log) d = vl_header log d"
  "no_zero (set_frontier x f log) = no_zero log"
  by (auto simp: set_frontier_def vl_link_def link_at_def vl_head_def vl_settled_def vl_header_def no_zero_def
      split: option.splits if_splits)

lemma set_frontier_ok:
  assumes ok: "base_ok log" and head: "\<And>sq. vl_head log x < sq \<Longrightarrow> f \<le> sq"
    and below: "\<And>d l. dot_device d = x \<Longrightarrow> dot_seq d < f \<Longrightarrow> vl_link log d = Some l \<Longrightarrow>
      vv_covers (vl_settled log (lk_item l)) d"
  shows "base_ok (set_frontier x f log)"
proof -
  have "vl_frontier (set_frontier x f log) y = (if y = x \<and> bt_get (vl_chains log) x \<noteq> None then f else vl_frontier log y)" for y
    by (auto simp: set_frontier_def vl_frontier_def split: option.splits)
  then have "frontier_ok (set_frontier x f log)"
    using base_okD(5) [OF ok] head below by (auto simp: frontier_ok_def split: if_splits)
  moreover have "own_link (set_frontier x f log) sq = own_link log sq" for sq
    by (cases "dot_new (vl_own log) sq") (simp_all add: own_link_def)
  ultimately show ?thesis
    using ok by (simp add: base_ok_def links_ok_def chain_linked_def ready_ok_def settled_ok_def own_ok_def cutoff_ok_def
        vl_cutoff_def uploads_ok_def)
qed

lemma set_frontier_batch:
  assumes "batch_ok log0 ds log" "\<And>sq. vl_head log x < sq \<Longrightarrow> f \<le> sq"
    "\<And>d l. dot_device d = x \<Longrightarrow> dot_seq d < f \<Longrightarrow> vl_link log d = Some l \<Longrightarrow> vv_covers (vl_settled log (lk_item l)) d"
  shows "batch_ok log0 ds (set_frontier x f log)"
  using assms set_frontier_ok [OF batch_okD(1) [OF assms(1)], of x f] by (simp add: batch_ok_def)

text \<open>The log after a fresh delivery of the link \<open>l\<close> at the frontier of its chain.\<close>

definition fresh_log :: "link \<Rightarrow> vault_log \<Rightarrow> vault_log" where
  "fresh_log l log =
     (let d = oh_dot (lk_header l); i = lk_item l
      in log \<lparr> vl_chains := set_link d (delivered l) (vl_chains log),
           vl_items := bt_insert i (vv_add d (item_vv (vl_items log) i)) (vl_items log),
           vl_ready := ready_remove i d (vl_ready log),
           vl_dirty := bs_insert i (vl_dirty log) \<rparr>)"

lemma fresh_log_simps [simp]:
  "vl_settled (fresh_log l log) j =
     (if j = lk_item l then vv_add (oh_dot (lk_header l)) (vl_settled log j) else vl_settled log j)"
  "in_ready (vl_ready (fresh_log l log)) j e \<longleftrightarrow>
     in_ready (vl_ready log) j e \<and> \<not> (j = lk_item l \<and> e = oh_dot (lk_header l))"
  "bs_contains (vl_dirty (fresh_log l log)) j \<longleftrightarrow> j = lk_item l \<or> bs_contains (vl_dirty log) j"
  "vl_cutoffs (fresh_log l log) = vl_cutoffs log" "vl_uploads (fresh_log l log) = vl_uploads log"
  "vl_own (fresh_log l log) = vl_own log" "vl_vault_id (fresh_log l log) = vl_vault_id log"
  "vl_absorbed (fresh_log l log) = vl_absorbed log"
  by (auto simp: fresh_log_def Let_def vl_settled_iff)

lemma fresh_log_link:
  assumes "base_ok log" "vl_link log d = Some l"
  shows "same_chains log (fresh_log l log)"
    "vl_link (fresh_log l log) e = (if e = d then Some (delivered l) else vl_link log e)"
proof -
  have d: "oh_dot (lk_header l) = d" using base_okD(1) [OF assms(1)] assms(2) by (simp add: links_ok_def)
  show "same_chains log (fresh_log l log)"
    "vl_link (fresh_log l log) e = (if e = d then Some (delivered l) else vl_link log e)"
    by (rule move_link [OF assms(2)]; simp add: fresh_log_def d Let_def)+
qed

lemma fresh_log_ok:
  assumes ok: "base_ok log" and l: "vl_link log d = Some l" "lk_state l = LsReady"
  shows "base_ok (fresh_log l log)"
    "dirty_within {i. bs_contains (vl_dirty log) i} log \<Longrightarrow>
       dirty_within {i. bs_contains (vl_dirty (fresh_log l log)) i} (fresh_log l log)"
proof -
  have d: "oh_dot (lk_header l) = d" using base_okD(1) [OF ok] l by (simp add: links_ok_def)
  note eff = fresh_log_link [OF ok l(1)]
  have grows: "vv_le (vl_settled log i) (vl_settled (fresh_log l log) i)" for i
    by (auto simp: vv_le_def vv_get_add)
  show "base_ok (fresh_log l log)"
  proof (rule base_ok_same [OF eff(1) ok _ grows])
    show "ready_ok (fresh_log l log)"
      unfolding ready_ok_def
    proof (intro allI)
      fix j e
      show "in_ready (vl_ready (fresh_log l log)) j e \<longleftrightarrow>
          (\<exists>l'. vl_link (fresh_log l log) e = Some l' \<and> lk_state l' = LsReady \<and> lk_item l' = j)"
        using base_okD(3) [OF ok] l by (auto simp: eff(2) ready_ok_def d)
    qed
    fix e l0 l' assume "vl_link log e = Some l0" "vl_link (fresh_log l log) e = Some l'" "lk_state l' \<noteq> lk_state l0"
    then have "e = d" "l' = delivered l" "l0 = l" using l by (auto simp: eff(2) split: if_splits)
    then show "(lk_state l' \<in> {LsDelivered, LsBodiless} \<longrightarrow> vv_covers (vl_settled (fresh_log l log) (lk_item l0)) e) \<and>
      (dot_device e = vl_own log \<longrightarrow> lk_state l' = LsDelivered) \<and>
      (past_cutoff (vl_cutoff log (dot_device e)) (dot_seq e) \<longrightarrow> lk_state l' \<in> {LsDelivered, LsRevoked})"
      by (simp add: d vv_covers_add)
  qed simp_all
  show "dirty_within {i. bs_contains (vl_dirty log) i} log \<Longrightarrow>
       dirty_within {i. bs_contains (vl_dirty (fresh_log l log)) i} (fresh_log l log)"
    by (auto simp: dirty_within_def split: if_splits)
qed

lemma fresh_log_batch:
  assumes ok: "batch_ok log0 ds log" and l: "vl_link log d = Some l" "lk_state l = LsReady"
    and ctx: "vv_le (oh_causal_context (lk_header l)) (vl_settled log (lk_item l))"
    and fresh: "\<not> vv_covers (vl_settled log (lk_item l)) d"
    and before: "\<And>e l'. dot_device e = dot_device d \<Longrightarrow> dot_seq e < dot_seq d \<Longrightarrow> vl_link log e = Some l' \<Longrightarrow>
      vv_covers (vl_settled log (lk_item l')) e"
  shows "batch_ok log0 (ds @ [delivery_of False l (lk_item l) d]) (fresh_log l log)"
proof -
  let ?dv = "delivery_of False l (lk_item l) d"
  note base = batch_okD(1) [OF ok] and link = batch_okD(5) [OF ok]
  have d: "oh_dot (lk_header l) = d" using base_okD(1) [OF base] l by (simp add: links_ok_def)
  note eff = fresh_log_link [OF base l(1)] and l0 = batch_ready [OF ok l]
  have "vv_covers (settled_after log0 ds (lk_item l')) e"
    if e: "dot_device e = dot_device d" "dot_seq e < dot_seq d" "vl_link log0 e = Some l'" for e l'
  proof -
    obtain l1 where "vl_link log e = Some l1" "lk_header l1 = lk_header l'"
      using e(3) link [of e] by (auto split: if_splits)
    with before [OF e(1,2) this(1)] show ?thesis by (simp add: batch_okD(4) [OF ok])
  qed
  then have "due_after log0 ds ?dv"
    using l0(2) l(2) ctx fresh by (simp add: due_after_def batch_okD(4) [OF ok])
  moreover have "vl_link (fresh_log l log) e =
      (if e \<in> dv_dot ` set (ds @ [?dv]) then map_option delivered (vl_link log0 e) else vl_link log0 e)" for e
    using l0 by (auto simp: eff(2) link)
  moreover have "vl_settled (fresh_log l log) j = settled_after log0 (ds @ [?dv]) j" for j
    by (auto simp: settled_after_snoc d batch_okD(4) [OF ok])
  moreover have "vl_head (fresh_log l log) x = vl_head log0 x" for x
    using eff(1) batch_okD(6) [OF ok] by (simp add: same_chains_def)
  ultimately show ?thesis
    using batch_okD [OF ok] l0(1) fresh_log_ok(1) [OF base l] by (simp add: batch_ok_def batch_due_snoc)
qed

text \<open>The log while a pass runs over its chains.\<close>

definition log_in_pass :: "vault_log \<Rightarrow> (device_id, chain) btree_map \<Rightarrow> delivery_pass \<Rightarrow> vault_log" where
  "log_in_pass log cs p =
     log \<lparr> vl_chains := cs, vl_items := dp_items p, vl_ready := dp_ready p, vl_dirty := dp_dirty p \<rparr>"

definition pass_ok :: "vault_log \<Rightarrow> vault_log \<Rightarrow> (device_id, chain) btree_map \<Rightarrow> delivery_pass \<Rightarrow> bool" where
  "pass_ok log0 log cs p \<longleftrightarrow> batch_ok log0 (dp_out p) (log_in_pass log cs p) \<and>
     dirty_within {i. bs_contains (dp_dirty p) i} (log_in_pass log cs p)"

lemma log_in_pass_simps [simp]:
  "vl_chains (log_in_pass log cs p) = cs" "vl_items (log_in_pass log cs p) = dp_items p"
  "vl_ready (log_in_pass log cs p) = dp_ready p" "vl_dirty (log_in_pass log cs p) = dp_dirty p"
  by (simp_all add: log_in_pass_def)

lemma pass_frontier:
  assumes ok: "pass_ok log0 log cs p" and c: "bt_get cs x = Some c"
    and head: "\<And>sq. ch_head c < sq \<Longrightarrow> f \<le> sq"
    and below: "\<And>d l. dot_device d = x \<Longrightarrow> dot_seq d < f \<Longrightarrow> vl_link (log_in_pass log cs p) d = Some l \<Longrightarrow>
      vv_covers (vl_settled (log_in_pass log cs p) (lk_item l)) d"
  shows "pass_ok log0 log (bt_insert x (c \<lparr> ch_frontier := f \<rparr>) cs) p"
proof -
  have eq: "log_in_pass log (bt_insert x (c \<lparr> ch_frontier := f \<rparr>) cs) p = set_frontier x f (log_in_pass log cs p)"
    by (simp add: log_in_pass_def set_frontier_def c)
  have "vl_head (log_in_pass log cs p) x = ch_head c" by (simp add: vl_head_def c)
  then show ?thesis
    using ok set_frontier_batch [of log0 "dp_out p" "log_in_pass log cs p" x f] head below
    unfolding pass_ok_def eq by (simp add: dirty_within_def)
qed

lemma pass_fresh:
  assumes ok: "pass_ok log0 log cs p" and c: "bt_get cs x = Some c"
    and nxt: "next_unsettled (dp_items p) c = Some sq" and l: "bt_get (ch_links c) sq = Some l" "lk_state l = LsReady"
    and ctx: "missing_context (dp_items p) (lk_header l) = None"
  shows "pass_ok log0 log
    (bt_insert x (c \<lparr> ch_frontier := sq, ch_links := bt_insert sq (l \<lparr> lk_state := LsDelivered \<rparr>) (ch_links c) \<rparr>) cs)
    (deliver_fresh (lk_header l) p)"
proof -
  let ?log = "log_in_pass log cs p"
  have base: "base_ok ?log" using ok by (simp add: pass_ok_def batch_ok_def)
  obtain d where d: "oh_dot (lk_header l) = d" "dot_device d = x" "dot_seq d = sq" "vl_link ?log d = Some l"
      "\<not> vv_covers (vl_settled ?log (lk_item l)) d"
    and before: "\<And>e l'. dot_device e = x \<Longrightarrow> dot_seq e < sq \<Longrightarrow> vl_link ?log e = Some l' \<Longrightarrow>
      vv_covers (vl_settled ?log (lk_item l')) e"
    using next_unsettled_Some [OF base, of x c sq] c nxt l(1) by auto
  have "sq \<le> ch_head c"
    using chain_linkedD(2) [OF base_okD(2) [OF base] d(4)] c by (simp add: d vl_head_def)
  then have ok1: "pass_ok log0 log (bt_insert x (c \<lparr> ch_frontier := sq \<rparr>) cs) p"
    by (intro pass_frontier [OF ok c]) (auto intro: before)
  let ?cs1 = "bt_insert x (c \<lparr> ch_frontier := sq \<rparr>) cs"
  let ?log1 = "log_in_pass log ?cs1 p"
  have log1: "?log1 = set_frontier x sq ?log" by (simp add: log_in_pass_def set_frontier_def c)
  have "set_link d (delivered l) ?cs1 =
      bt_insert x (c \<lparr> ch_frontier := sq, ch_links := bt_insert sq (l \<lparr> lk_state := LsDelivered \<rparr>) (ch_links c) \<rparr>) cs"
    by (simp add: set_link_def d delivered_def bt.ins_ins)
  then have eq: "log_in_pass log
      (bt_insert x (c \<lparr> ch_frontier := sq, ch_links := bt_insert sq (l \<lparr> lk_state := LsDelivered \<rparr>) (ch_links c) \<rparr>) cs)
      (deliver_fresh (lk_header l) p) = fresh_log l ?log1"
    by (simp add: log_in_pass_def fresh_log_def deliver_fresh_def Let_def d)
  have out: "dp_out (deliver_fresh (lk_header l) p) = dp_out p @ [delivery_of False l (lk_item l) d]"
    "dp_dirty (deliver_fresh (lk_header l) p) = vl_dirty (fresh_log l ?log1)"
    by (simp_all add: deliver_fresh_def delivery_of_def d fresh_log_def Let_def)
  have l1: "vl_link ?log1 d = Some l" by (simp add: log1 d)
  have "batch_ok log0 (dp_out p @ [delivery_of False l (lk_item l) d]) (fresh_log l ?log1)"
  proof (rule fresh_log_batch [OF _ l1 l(2)])
    show "batch_ok log0 (dp_out p) ?log1" using ok1 by (simp add: pass_ok_def)
    show "vv_le (oh_causal_context (lk_header l)) (vl_settled ?log1 (lk_item l))"
      using ctx by (simp add: missing_context_None vl_settled_iff)
  qed (use d before in \<open>simp_all add: log1\<close>)
  moreover have "dirty_within {i. bs_contains (vl_dirty (fresh_log l ?log1)) i} (fresh_log l ?log1)"
    using ok1 fresh_log_ok(2) [OF _ l1 l(2)] by (simp add: pass_ok_def batch_ok_def)
  ultimately show ?thesis by (simp only: pass_ok_def eq out)
qed

lemma pass_last:
  assumes ok: "pass_ok log0 log cs p" and c: "bt_get cs x = Some c" and nxt: "next_unsettled (dp_items p) c = None"
  shows "pass_ok log0 log (bt_insert x (c \<lparr> ch_frontier := u64_saturating_add (ch_head c) 1 \<rparr>) cs) p"
proof (rule pass_frontier [OF ok c])
  fix sq assume "ch_head c < sq"
  then show "u64_saturating_add (ch_head c) 1 \<le> sq"
    by (simp add: word_le_nat_alt word_less_nat_alt u64_saturating_add_unat)
next
  fix d l assume "dot_device d = x" "vl_link (log_in_pass log cs p) d = Some l"
  then show "vv_covers (vl_settled (log_in_pass log cs p) (lk_item l)) d"
    using next_unsettled_None [of "log_in_pass log cs p" x c d l] ok c nxt by (simp add: pass_ok_def batch_ok_def)
qed

lemma pass_stop:
  assumes ok: "pass_ok log0 log cs p" and c: "bt_get cs x = Some c" and nxt: "next_unsettled (dp_items p) c = Some sq"
  shows "pass_ok log0 log (bt_insert x (c \<lparr> ch_frontier := sq \<rparr>) cs) p"
proof -
  have base: "base_ok (log_in_pass log cs p)" using ok by (simp add: pass_ok_def batch_ok_def)
  have held: "bt_get (vl_chains (log_in_pass log cs p)) x = Some c"
    "next_unsettled (vl_items (log_in_pass log cs p)) c = Some sq" using c nxt by simp_all
  obtain d l where
    d: "dot_device d = x" "dot_seq d = sq" "vl_link (log_in_pass log cs p) d = Some l" and
    before: "\<And>e l'. dot_device e = x \<Longrightarrow> dot_seq e < sq \<Longrightarrow> vl_link (log_in_pass log cs p) e = Some l' \<Longrightarrow>
      vv_covers (vl_settled (log_in_pass log cs p) (lk_item l')) e"
    by (rule next_unsettled_Some [OF base held]) blast
  have "sq \<le> ch_head c"
    using chain_linkedD(2) [OF base_okD(2) [OF base] d(3)] c by (simp add: d vl_head_def)
  then show ?thesis
    by (intro pass_frontier [OF ok c]) (auto intro: before)
qed

lemma advance_pass:
  assumes "advance_frontier c p = (c', p')" "pass_ok log0 log (bt_insert x c cs) p"
  shows "pass_ok log0 log (bt_insert x c' cs) p'"
  using assms
proof (induction c p rule: advance_frontier.induct)
  case (1 c p)
  let ?get = "bt_get (bt_insert x c cs) x"
  have c: "?get = Some c" by simp
  show ?case
  proof (cases "next_unsettled (dp_items p) c")
    case None
    then show ?thesis
      using "1.prems" pass_last [OF "1.prems"(2) c None] by (auto simp: advance_frontier.simps [of c p] bt.ins_ins)
  next
    case (Some sq)
    show ?thesis
    proof (cases "\<exists>l. bt_get (ch_links c) sq = Some l \<and> lk_state l = LsReady \<and>
        missing_context (dp_items p) (lk_header l) = None")
      case True
      then obtain l where l: "bt_get (ch_links c) sq = Some l" "lk_state l = LsReady"
        "missing_context (dp_items p) (lk_header l) = None" by blast
      with "1.prems"(1) Some have "advance_frontier
          (c \<lparr> ch_frontier := sq, ch_links := bt_insert sq (l \<lparr> lk_state := LsDelivered \<rparr>) (ch_links c) \<rparr>)
          (deliver_fresh (lk_header l) p) = (c', p')"
        by (simp add: advance_frontier.simps [of c p])
      from "1.IH" [OF Some l(1) _ this] pass_fresh [OF "1.prems"(2) c Some l] l(2,3) show ?thesis
        by (simp add: bt.ins_ins)
    next
      case False
      then have "c' = c \<lparr> ch_frontier := sq \<rparr>" "p' = p"
        using "1.prems"(1) Some by (auto simp: advance_frontier.simps [of c p] split: option.splits if_splits)
      then show ?thesis using pass_stop [OF "1.prems"(2) c Some] by (simp add: bt.ins_ins)
    qed
  qed
qed

lemma deliver_chain_pass:
  assumes "deliver_chain x (cs, p) = (cs', p')" "pass_ok log0 log cs p"
  shows "pass_ok log0 log cs' p'"
proof (cases "bt_get cs x")
  case (Some c)
  obtain c1 where "advance_frontier c p = (c1, p')" "cs' = bt_insert x c1 cs"
    using assms(1) by (auto simp: deliver_chain_def Some split: prod.splits)
  then show ?thesis
    using advance_pass [of c p c1 p' log0 log x cs] assms(2) Some by (simp add: bt.ins_same)
qed (use assms in \<open>simp add: deliver_chain_def\<close>)

lemma fold_deliver_chain_pass:
  assumes "fold deliver_chain xs (cs, p) = (cs', p')" "pass_ok log0 log cs p"
  shows "pass_ok log0 log cs' p'"
  using assms
proof (induction xs arbitrary: cs p)
  case (Cons x xs)
  obtain cs1 p1 where step: "deliver_chain x (cs, p) = (cs1, p1)" by fastforce
  with Cons.prems have "fold deliver_chain xs (cs1, p1) = (cs', p')" by simp
  with Cons.IH [OF this] deliver_chain_pass [OF step] Cons.prems(2) show ?case by simp
qed simp

definition run_ok :: "vault_log \<Rightarrow> vault_log \<times> delivery list \<Rightarrow> bool" where
  "run_ok log0 = (\<lambda>(log, ds). batch_ok log0 ds log \<and> dirty_within {i. bs_contains (vl_dirty log) i} log)"

lemma deliver_frontiers_run:
  assumes "run_ok log0 (log, ds)"
  shows "run_ok log0 (deliver_frontiers (log, ds))"
proof -
  let ?p = "\<lparr> dp_items = vl_items log, dp_ready = vl_ready log, dp_dirty = vl_dirty log, dp_out = ds \<rparr>"
  obtain cs p where run: "fold deliver_chain (bt_keys (vl_chains log)) (vl_chains log, ?p) = (cs, p)" by fastforce
  have "pass_ok log0 log (vl_chains log) ?p"
    using assms by (simp add: run_ok_def pass_ok_def log_in_pass_def)
  from fold_deliver_chain_pass [OF run this] show ?thesis
    by (simp add: deliver_frontiers_def run run_ok_def pass_ok_def log_in_pass_def)
qed

lemma deliver_items_run:
  assumes "fold deliver_item is (log, ds) = (log', ds')" "batch_ok log0 ds log" "dirty_within X log"
  shows "batch_ok log0 ds' log' \<and> dirty_within (X - set is) log' \<and> vl_dirty log' = vl_dirty log"
  using assms
proof (induction "is" arbitrary: log ds X)
  case (Cons i "is")
  obtain log1 ds1 where step: "deliver_item i (log, ds) = (log1, ds1)" by fastforce
  with Cons.prems have rest: "fold deliver_item is (log1, ds1) = (log', ds')" by simp
  have "batch_ok log0 ds1 log1" by (rule deliver_item_batch [OF Cons.prems(2) step])
  moreover have "dirty_within (X - {i}) log1"
    using deliver_item_ok(2) [OF step batch_okD(1) [OF Cons.prems(2)] Cons.prems(3)] .
  moreover have "X - set (i # is) = X - {i} - set is" by auto
  ultimately show ?case
    using Cons.IH [OF rest, of "X - {i}"] deliver_item_effect(5) [OF step] by (simp only:)
qed simp

lemma deliver_covered_run:
  assumes "run_ok log0 (log, ds)" "deliver_covered (log, ds) = (log', ds')"
  shows "batch_ok log0 ds' log'" "dirty_within {} log'" "vl_dirty log' = bt_empty"
proof -
  let ?log = "log \<lparr> vl_dirty := bt_empty \<rparr>"
  have base: "base_ok ?log \<longleftrightarrow> base_ok log"
    by (simp add: base_ok_def ok_defs)
  have same: "batch_ok log0 ds ?log" "dirty_within {i. bs_contains (vl_dirty log) i} ?log"
    using assms(1) base by (simp_all add: run_ok_def batch_ok_def dirty_within_def)
  have run: "fold deliver_item (bt_keys (vl_dirty log)) (?log, ds) = (log', ds')"
    using assms(2) by (simp add: deliver_covered_def)
  have "{i. bs_contains (vl_dirty log) i} - set (bt_keys (vl_dirty log)) = {}"
    by (auto simp: bs_contains_def)
  with deliver_items_run [OF run same] show "batch_ok log0 ds' log'" "dirty_within {} log'" "vl_dirty log' = bt_empty"
    by simp_all
qed

section \<open>The loop stops when nothing is due\<close>

definition body_due :: "vault_log \<Rightarrow> dot \<Rightarrow> link \<Rightarrow> bool" where
  "body_due log d l \<longleftrightarrow>
     vv_covers (vl_settled log (lk_item l)) d \<or>
     vv_le (oh_causal_context (lk_header l)) (vl_settled log (lk_item l)) \<and>
     (\<forall>e l'. dot_device e = dot_device d \<and> dot_seq e < dot_seq d \<and> vl_link log e = Some l' \<longrightarrow>
        vv_covers (vl_settled log (lk_item l')) e)"

definition quiescent :: "vault_log \<Rightarrow> bool" where
  "quiescent log \<longleftrightarrow> (\<forall>d l. vl_link log d = Some l \<and> lk_state l = LsReady \<longrightarrow> \<not> body_due log d l)"

lemma advance_still:
  assumes "advance_frontier c p = (c', p')" "length (dp_out p') = length (dp_out p)"
  shows "p' = p" "\<exists>f. c' = c \<lparr> ch_frontier := f \<rparr>"
    "next_unsettled (dp_items p) c = Some sq \<Longrightarrow> bt_get (ch_links c) sq = Some l \<Longrightarrow> lk_state l = LsReady \<Longrightarrow>
       missing_context (dp_items p) (lk_header l) \<noteq> None"
proof -
  have stuck: "missing_context (dp_items p) (lk_header l) \<noteq> None"
    if "next_unsettled (dp_items p) c = Some sq" "bt_get (ch_links c) sq = Some l" "lk_state l = LsReady" for sq l
  proof
    assume "missing_context (dp_items p) (lk_header l) = None"
    with that assms(1) have "advance_frontier
        (c \<lparr> ch_frontier := sq, ch_links := bt_insert sq (l \<lparr> lk_state := LsDelivered \<rparr>) (ch_links c) \<rparr>)
        (deliver_fresh (lk_header l) p) = (c', p')"
      by (simp add: advance_frontier.simps [of c p])
    from advance_pending(3) [OF this] assms(2) show False by (simp add: deliver_fresh_def Let_def)
  qed
  then show "next_unsettled (dp_items p) c = Some sq \<Longrightarrow> bt_get (ch_links c) sq = Some l \<Longrightarrow> lk_state l = LsReady \<Longrightarrow>
       missing_context (dp_items p) (lk_header l) \<noteq> None" .
  show "p' = p" "\<exists>f. c' = c \<lparr> ch_frontier := f \<rparr>"
    using assms(1) stuck by (auto simp: advance_frontier.simps [of c p] split: option.splits if_splits)
qed

lemma chain_still:
  assumes ok: "base_ok log" and c: "bt_get (vl_chains log) x = Some c" and d: "dot_device d = x"
    and stuck: "\<And>sq l. next_unsettled (vl_items log) c = Some sq \<Longrightarrow> bt_get (ch_links c) sq = Some l \<Longrightarrow>
      lk_state l = LsReady \<Longrightarrow> missing_context (vl_items log) (lk_header l) \<noteq> None"
    and l: "vl_link log d = Some l" "lk_state l = LsReady" and fresh: "\<not> vv_covers (vl_settled log (lk_item l)) d"
  shows "\<not> body_due log d l"
proof
  assume "body_due log d l"
  with fresh have ctx: "vv_le (oh_causal_context (lk_header l)) (vl_settled log (lk_item l))"
    and before: "\<And>e l'. dot_device e = dot_device d \<Longrightarrow> dot_seq e < dot_seq d \<Longrightarrow> vl_link log e = Some l' \<Longrightarrow>
      vv_covers (vl_settled log (lk_item l')) e"
    unfolding body_due_def by blast+
  obtain sq where sq: "next_unsettled (vl_items log) c = Some sq"
    using next_unsettled_None [OF ok c _ d l(1)] fresh by fastforce
  obtain l0 d0 where l0: "bt_get (ch_links c) sq = Some l0" "dot_device d0 = x" "dot_seq d0 = sq" "vl_link log d0 = Some l0"
      "\<not> vv_covers (vl_settled log (lk_item l0)) d0"
    and b0: "\<And>e l'. dot_device e = x \<Longrightarrow> dot_seq e < sq \<Longrightarrow> vl_link log e = Some l' \<Longrightarrow>
      vv_covers (vl_settled log (lk_item l')) e"
    by (rule next_unsettled_Some [OF ok c sq]) blast
  have "sq = dot_seq d"
    using before [of d0 l0] b0 [of d l] l0 d l fresh by (metis linorder_neqE)
  then have "d0 = d" using l0(2,3) d by (simp add: dot_eq_iff)
  with l0(4) l(1) have "l0 = l" by simp
  with stuck [OF sq l0(1)] l(2) ctx show False by (simp add: missing_context_None vl_settled_iff)
qed

lemma still_chains:
  assumes "fold deliver_chain xs (cs, p) = (cs', p')" "length (dp_out p') = length (dp_out p)"
    "pass_ok log0 log cs p"
  shows "p' = p \<and> (\<forall>d. link_at cs' d = link_at cs d) \<and>
    (\<forall>d l. dot_device d \<in> set xs \<and> link_at cs d = Some l \<and> lk_state l = LsReady \<and>
       \<not> vv_covers (item_vv (dp_items p) (lk_item l)) d \<longrightarrow> \<not> body_due (log_in_pass log cs p) d l)"
  using assms
proof (induction xs arbitrary: cs p)
  case (Cons x xs)
  obtain cs1 p1 where step: "deliver_chain x (cs, p) = (cs1, p1)" by fastforce
  with Cons.prems(1) have rest: "fold deliver_chain xs (cs1, p1) = (cs', p')" by simp
  have len: "length (dp_out p1) = length (dp_out p)" "length (dp_out p') = length (dp_out p1)"
    using fold_deliver_chain_pending [OF rest] deliver_chain_pending(3) [OF step] Cons.prems(2) by simp_all
  have base: "base_ok (log_in_pass log cs p)" using Cons.prems(3) by (simp add: pass_ok_def batch_ok_def)
  have here: "p1 = p \<and> (\<forall>d. link_at cs1 d = link_at cs d) \<and>
    (\<forall>d l. dot_device d = x \<and> link_at cs d = Some l \<and> lk_state l = LsReady \<and>
       \<not> vv_covers (item_vv (dp_items p) (lk_item l)) d \<longrightarrow> \<not> body_due (log_in_pass log cs p) d l)"
  proof (cases "bt_get cs x")
    case None
    then show ?thesis using step by (auto simp: deliver_chain_def link_at_def)
  next
    case (Some c)
    obtain c1 where run: "advance_frontier c p = (c1, p1)" "cs1 = bt_insert x c1 cs"
      using step by (auto simp: deliver_chain_def Some split: prod.splits)
    note still = advance_still [OF run(1) len(1)]
    obtain f where f: "c1 = c \<lparr> ch_frontier := f \<rparr>" using still(2) by blast
    have "link_at cs1 d = link_at cs d" for d by (simp add: run(2) f link_at_def Some)
    moreover have "\<not> body_due (log_in_pass log cs p) d l"
      if "dot_device d = x" "link_at cs d = Some l" "lk_state l = LsReady" "\<not> vv_covers (item_vv (dp_items p) (lk_item l)) d" for d l
      by (rule chain_still [OF base _ that(1)]) (use Some still(3) that in \<open>auto simp: vl_link_def vl_settled_iff\<close>)
    ultimately show ?thesis using still(1) by blast
  qed
  have ok1: "pass_ok log0 log cs1 p1" by (rule deliver_chain_pass [OF step Cons.prems(3)])
  have due: "body_due (log_in_pass log cs1 p) d l \<longleftrightarrow> body_due (log_in_pass log cs p) d l" for d l
    using here by (simp add: body_due_def vl_settled_iff vl_link_def)
  from Cons.IH [OF rest len(2) ok1] here due show ?case by auto
qed simp

lemma still_quiescent:
  assumes ok: "run_ok log0 (log, ds)" and still: "length (snd (deliver_frontiers (deliver_covered (log, ds)))) = length ds"
  shows "quiescent (fst (deliver_frontiers (deliver_covered (log, ds))))"
proof -
  obtain log1 ds1 where cov: "deliver_covered (log, ds) = (log1, ds1)" by fastforce
  note c = deliver_covered_run [OF ok cov]
  let ?p = "\<lparr> dp_items = vl_items log1, dp_ready = vl_ready log1, dp_dirty = vl_dirty log1, dp_out = ds1 \<rparr>"
  have log1: "log_in_pass log1 (vl_chains log1) ?p = log1" by (simp add: log_in_pass_def)
  have "dirty_within {i. bs_contains (vl_dirty log1) i} log1" using c(2) by (auto simp: dirty_within_def)
  then have pass: "pass_ok log0 log1 (vl_chains log1) ?p" using c(1) log1 by (simp add: pass_ok_def)
  obtain cs p where run: "fold deliver_chain (bt_keys (vl_chains log1)) (vl_chains log1, ?p) = (cs, p)" by fastforce
  have res: "deliver_frontiers (log1, ds1) = (log_in_pass log1 cs p, dp_out p)"
    by (simp add: deliver_frontiers_def run log_in_pass_def)
  have "length ds \<le> length ds1" using deliver_covered_pending [OF cov] by simp
  moreover have "length ds1 \<le> length (dp_out p)" using fold_deliver_chain_pending [OF run] by simp
  ultimately have "length (dp_out p) = length (dp_out ?p)" using still by (simp add: cov res)
  note same = still_chains [OF run this pass, unfolded log1]
  have view: "vl_link (log_in_pass log1 cs p) d = vl_link log1 d" "vl_settled (log_in_pass log1 cs p) i = vl_settled log1 i" for d i
    using same by (simp_all add: vl_link_def vl_settled_iff)
  have "\<not> body_due log1 d l" if l: "vl_link log1 d = Some l" "lk_state l = LsReady" for d l
  proof -
    have "in_ready (vl_ready log1) (lk_item l) d"
      using base_okD(3) [OF batch_okD(1) [OF c(1)]] l by (auto simp: ready_ok_def)
    then have "\<not> vv_covers (vl_settled log1 (lk_item l)) d" using c(2) by (auto simp: dirty_within_def)
    moreover have "dot_device d \<in> set (bt_keys (vl_chains log1))"
      using l(1) by (auto simp: vl_link_def link_at_Some)
    ultimately show ?thesis using same l by (auto simp: vl_link_def vl_settled_iff)
  qed
  then show ?thesis
    by (simp add: cov res quiescent_def view body_due_def)
qed

lemma deliver_loop_run:
  assumes "deliver_loop log ds = (log', ds')" "run_ok log0 (log, ds)"
  shows "run_ok log0 (log', ds') \<and> quiescent log'"
  using assms
proof (induction log ds rule: deliver_loop.induct)
  case (1 log ds)
  obtain log1 ds1 where step: "deliver_frontiers (deliver_covered (log, ds)) = (log1, ds1)" by fastforce
  obtain log2 ds2 where cov: "deliver_covered (log, ds) = (log2, ds2)" by fastforce
  have "run_ok log0 (log2, ds2)"
    using deliver_covered_run [OF "1.prems"(2) cov] by (auto simp: run_ok_def dirty_within_def)
  from deliver_frontiers_run [OF this] have ok: "run_ok log0 (log1, ds1)" using step cov by simp
  show ?case
  proof (cases "length ds1 = length ds")
    case True
    then have "log' = log1" "ds' = ds1" using "1.prems"(1) step by (simp_all add: deliver_loop.simps [of log ds])
    with ok still_quiescent [OF "1.prems"(2)] step True show ?thesis by simp
  next
    case False
    then have "deliver_loop log1 ds1 = (log', ds')" using "1.prems"(1) step by (simp add: deliver_loop.simps [of log ds])
    from "1.IH" [OF step [symmetric] refl False this ok] show ?thesis .
  qed
qed

lemma take_deliveries_run:
  assumes "log_ok log" "take_deliveries log = (log', ds)"
  shows "batch_ok log ds log'" "log_ok log'" "quiescent log'"
proof -
  have "run_ok log (log, [])" using assms(1) by (simp add: run_ok_def log_ok_def batch_ok_start)
  from deliver_loop_run [OF _ this, of log' ds] assms(2)
  show "batch_ok log ds log'" "log_ok log'" "quiescent log'"
    by (simp_all add: take_deliveries_def run_ok_def log_ok_def batch_ok_def)
qed

section \<open>The specification of a batch\<close>

text \<open>
  What can be settled from a log, without any of the loop's machinery: what is settled already,
  and everything up to a ready op of a chain once its causal context and every earlier link of
  its chain can be settled.
\<close>

inductive settles :: "vault_log \<Rightarrow> id16 \<Rightarrow> dot \<Rightarrow> bool" for log where
  held: "vv_covers (vl_settled log i) d \<Longrightarrow> settles log i d"
| fresh: "vl_link log e = Some l \<Longrightarrow> lk_state l = LsReady \<Longrightarrow>
    (\<forall>c. vv_covers (oh_causal_context (lk_header l)) c \<longrightarrow> settles log (lk_item l) c) \<Longrightarrow>
    (\<forall>b l'. dot_device b = dot_device e \<and> dot_seq b < dot_seq e \<and> vl_link log b = Some l' \<longrightarrow> settles log (lk_item l') b) \<Longrightarrow>
    dot_device d = dot_device e \<Longrightarrow> dot_seq d \<le> dot_seq e \<Longrightarrow> settles log (lk_item l) d"

lemma covers_below: "vv_covers v e \<Longrightarrow> dot_device d = dot_device e \<Longrightarrow> dot_seq d \<le> dot_seq e \<Longrightarrow> vv_covers v d"
  by (auto simp: vv_covers_def)

lemma settled_after_grows: "vv_covers (vl_settled log i) d \<Longrightarrow> vv_covers (settled_after log ds i) d"
  by (induction ds rule: rev_induct) (auto simp: settled_after_snoc vv_covers_add)

lemma settles_sound:
  assumes "batch_due log ds" "vv_covers (settled_after log ds i) d"
  shows "settles log i d"
  using assms
proof (induction ds arbitrary: i d rule: rev_induct)
  case Nil
  then show ?case by (simp add: settles.held)
next
  case (snoc dv ds)
  then have due: "due_after log ds dv" and IH: "\<And>i d. vv_covers (settled_after log ds i) d \<Longrightarrow> settles log i d"
    by (simp_all add: batch_due_snoc)
  show ?case
  proof (cases "vv_covers (settled_after log ds i) d")
    case False
    with snoc.prems(2) have new: "dv_item_id dv = i" "dot_device d = dot_device (dv_dot dv)" "dot_seq d \<le> dot_seq (dv_dot dv)"
      by (auto simp: settled_after_snoc vv_covers_add split: if_splits)
    obtain l where l: "vl_link log (dv_dot dv) = Some l" "lk_state l = LsReady" "lk_item l = i"
      and cov: "dv_covered dv = vv_covers (settled_after log ds i) (dv_dot dv)"
      and why: "\<not> dv_covered dv \<Longrightarrow> vv_le (oh_causal_context (lk_header l)) (settled_after log ds i)"
        "\<And>e l'. \<not> dv_covered dv \<Longrightarrow> dot_device e = dot_device (dv_dot dv) \<Longrightarrow> dot_seq e < dot_seq (dv_dot dv) \<Longrightarrow>
           vl_link log e = Some l' \<Longrightarrow> vv_covers (settled_after log ds (lk_item l')) e"
      using due new(1) unfolding due_after_def by metis
    have fresh: "\<not> dv_covered dv" using False cov covers_below new by metis
    have "settles log (lk_item l) d"
    proof (rule settles.fresh [OF l(1,2) _ _ new(2,3)])
      show "\<forall>c. vv_covers (oh_causal_context (lk_header l)) c \<longrightarrow> settles log (lk_item l) c"
        using vv_le_covers [OF why(1) [OF fresh]] IH l(3) by blast
      show "\<forall>b l'. dot_device b = dot_device (dv_dot dv) \<and> dot_seq b < dot_seq (dv_dot dv) \<and> vl_link log b = Some l' \<longrightarrow>
          settles log (lk_item l') b"
        using why(2) [OF fresh] IH by blast
    qed
    then show ?thesis using l(3) by simp
  qed (rule IH)
qed

lemma settles_complete:
  assumes ok: "batch_ok log ds log'" and quiet: "quiescent log'" and s: "settles log i d"
  shows "vv_covers (vl_settled log' i) d"
  using s
proof (induction rule: settles.induct)
  case (held i d)
  then show ?case by (simp add: batch_okD(4) [OF ok] settled_after_grows)
next
  case (fresh e l d)
  have link: "vl_link log' e = (if e \<in> dv_dot ` set ds then Some (delivered l) else Some l)"
    using batch_okD(5) [OF ok, of e] fresh.hyps(1) by simp
  have "vv_covers (vl_settled log' (lk_item l)) e"
  proof (cases "e \<in> dv_dot ` set ds")
    case True
    with link settled_okD [OF base_okD(4) [OF batch_okD(1) [OF ok]], of e "delivered l"] show ?thesis by simp
  next
    case False
    have "vv_le (oh_causal_context (lk_header l)) (vl_settled log' (lk_item l))"
      using fresh.IH(1) by (simp add: vv_le_covers_iff)
    moreover have "vv_covers (vl_settled log' (lk_item l')) b"
      if b: "dot_device b = dot_device e" "dot_seq b < dot_seq e" "vl_link log' b = Some l'" for b l'
    proof -
      obtain l0 where "vl_link log b = Some l0" "lk_header l0 = lk_header l'"
        using b(3) batch_okD(5) [OF ok, of b] by (auto split: if_splits)
      with fresh.IH(2) b(1,2) show ?thesis by fastforce
    qed
    ultimately have "body_due log' e l" by (auto simp: body_due_def)
    with quiet link False fresh.hyps(2) show ?thesis by (auto simp: quiescent_def)
  qed
  then show ?case using fresh.hyps(3,4) by (rule covers_below)
qed

end
