(* ===== verification/Vault_Steps.thy ===== *)
theory Vault_Steps
  imports Vault_Batches
begin

text \<open>
  Every operation of a vault log keeps its invariant: absorbing, committing a response, bodies
  that waited, revocations and the own chain; and what one commit does to the chains.
\<close>

section \<open>Absorbing a cover\<close>

lemma record_absorbed_effect:
  assumes "record_absorbed log plan i taken = (log', recorded)"
  shows "vl_link log' d = vl_link log d" "vl_head log' x = vl_head log x" "vl_frontier log' x = vl_frontier log x"
    "vl_settled log' j = (if j = i then vv_join (vl_settled log i) recorded else vl_settled log j)"
    "vl_ready log' = vl_ready log" "bs_contains (vl_dirty log') j \<longleftrightarrow> j = i \<or> bs_contains (vl_dirty log) j"
    "vl_cutoffs log' = vl_cutoffs log" "vl_uploads log' = vl_uploads log" "vl_own log' = vl_own log"
    "vl_vault_id log' = vl_vault_id log" "vl_chains log' = vl_chains log"
    "recorded = vv_meet taken (cp_cut plan)"
  using assms by (auto simp: record_absorbed_def Let_def vl_settled_iff cut_of_def)

lemma record_absorbed_ok:
  assumes ok: "log_ok log" and step: "record_absorbed log plan i taken = (log', recorded)"
  shows "log_ok log'"
proof -
  note eff = record_absorbed_effect [OF step]
  have base: "base_ok log" using ok by (simp add: log_ok_def)
  have "base_ok log'"
  proof (rule base_ok_same [OF same_chains_refl [OF eff(11,10,9)] base _ _ eff(7,8)])
    show "ready_ok log'" using base_okD(3) [OF base] by (simp add: ready_ok_def eff)
    show "vv_le (vl_settled log j) (vl_settled log' j)" for j by (simp add: eff(4))
  qed (simp_all add: eff)
  moreover have "dirty_within {j. bs_contains (vl_dirty log') j} log'"
    using ok by (auto simp: log_ok_def dirty_within_def eff split: if_splits)
  ultimately show ?thesis by (simp add: log_ok_def)
qed

section \<open>A body that was not delivered changes state\<close>

definition move_body :: "dot \<Rightarrow> link \<Rightarrow> link_state \<Rightarrow> vault_log \<Rightarrow> vault_log" where
  "move_body d l st log =
     (let log = log \<lparr> vl_chains := set_link d (l \<lparr> lk_state := st \<rparr>) (vl_chains log) \<rparr>
      in if st = LsReady
         then (let (ready, dirty) = ready_insert (lk_item l) d (vl_ready log, vl_dirty log)
               in log \<lparr> vl_ready := ready, vl_dirty := dirty \<rparr>)
         else log)"

lemma move_body_effect:
  assumes "vl_link log d = Some l"
  shows "vl_link (move_body d l st log) e = (if e = d then Some (l \<lparr> lk_state := st \<rparr>) else vl_link log e)"
    "same_chains log (move_body d l st log)"
    "in_ready (vl_ready (move_body d l st log)) i e \<longleftrightarrow>
       st = LsReady \<and> i = lk_item l \<and> e = d \<or> in_ready (vl_ready log) i e"
    "bs_contains (vl_dirty (move_body d l st log)) i \<longleftrightarrow> st = LsReady \<and> i = lk_item l \<or> bs_contains (vl_dirty log) i"
    "vl_settled (move_body d l st log) i = vl_settled log i"
    "vl_cutoffs (move_body d l st log) = vl_cutoffs log" "vl_uploads (move_body d l st log) = vl_uploads log"
    "vl_own (move_body d l st log) = vl_own log" "vl_items (move_body d l st log) = vl_items log"
    "vl_vault_id (move_body d l st log) = vl_vault_id log"
proof -
  have chains: "vl_chains (move_body d l st log) = set_link d (l \<lparr> lk_state := st \<rparr>) (vl_chains log)"
    and ids: "vl_own (move_body d l st log) = vl_own log" "vl_vault_id (move_body d l st log) = vl_vault_id log"
    by (simp_all add: move_body_def Let_def split: prod.splits)
  show "vl_link (move_body d l st log) e = (if e = d then Some (l \<lparr> lk_state := st \<rparr>) else vl_link log e)"
    "same_chains log (move_body d l st log)"
    by (rule move_link [OF assms _ chains ids(2,1)]; simp)+
  show "in_ready (vl_ready (move_body d l st log)) i e \<longleftrightarrow>
       st = LsReady \<and> i = lk_item l \<and> e = d \<or> in_ready (vl_ready log) i e"
    "bs_contains (vl_dirty (move_body d l st log)) i \<longleftrightarrow> st = LsReady \<and> i = lk_item l \<or> bs_contains (vl_dirty log) i"
    by (auto simp: move_body_def Let_def)
  show "vl_settled (move_body d l st log) i = vl_settled log i"
    "vl_cutoffs (move_body d l st log) = vl_cutoffs log" "vl_uploads (move_body d l st log) = vl_uploads log"
    "vl_own (move_body d l st log) = vl_own log" "vl_items (move_body d l st log) = vl_items log"
    "vl_vault_id (move_body d l st log) = vl_vault_id log"
    by (simp_all add: move_body_def Let_def split: prod.splits)
qed

lemma move_body_ok:
  assumes ok: "log_ok log" and l: "vl_link log d = Some l" "lk_state l \<in> {LsWaiting, LsRejected}"
    and st: "st \<in> {LsReady, LsWaiting, LsRejected}"
  shows "log_ok (move_body d l st log)"
proof -
  note eff = move_body_effect [OF l(1), of st]
  have base: "base_ok log" using ok by (simp add: log_ok_def)
  have "base_ok (move_body d l st log)"
  proof (rule base_ok_same [OF eff(2) base _ _ eff(6,7)])
    show "ready_ok (move_body d l st log)"
      unfolding ready_ok_def
    proof (intro allI)
      fix i e
      show "in_ready (vl_ready (move_body d l st log)) i e \<longleftrightarrow>
          (\<exists>l'. vl_link (move_body d l st log) e = Some l' \<and> lk_state l' = LsReady \<and> lk_item l' = i)"
        using base_okD(3) [OF base] l by (auto simp: eff(1,3) ready_ok_def)
    qed
    show "vv_le (vl_settled log i) (vl_settled (move_body d l st log) i)" for i by (simp add: eff(5))
    fix e l0 l' assume e: "vl_link log e = Some l0" "vl_link (move_body d l st log) e = Some l'" "lk_state l' \<noteq> lk_state l0"
    then have "e = d" "l0 = l" "lk_state l' = st" using l(1) by (auto simp: eff(1) split: if_splits)
    moreover have "dot_device d \<noteq> vl_own log" using own_okD [OF base_okD(6) [OF base] l(1)] l(2) by auto
    moreover have "\<not> past_cutoff (vl_cutoff log (dot_device d)) (dot_seq d)"
      using cutoff_okD [OF base_okD(7) [OF base] l(1)] l(2) by auto
    ultimately show "(lk_state l' \<in> {LsDelivered, LsBodiless} \<longrightarrow> vv_covers (vl_settled (move_body d l st log) (lk_item l0)) e) \<and>
      (dot_device e = vl_own log \<longrightarrow> lk_state l' = LsDelivered) \<and>
      (past_cutoff (vl_cutoff log (dot_device e)) (dot_seq e) \<longrightarrow> lk_state l' \<in> {LsDelivered, LsRevoked})"
      using st by auto
  qed
  moreover have "dirty_within {i. bs_contains (vl_dirty (move_body d l st log)) i} (move_body d l st log)"
    using ok by (auto simp: log_ok_def dirty_within_def eff)
  ultimately show ?thesis by (simp add: log_ok_def)
qed

lemma resolve_waiting_Inr:
  "resolve_waiting log d st = Inr (log', i) \<longleftrightarrow> (\<exists>l. vl_link log d = Some l \<and> lk_state l = LsWaiting \<and> i = lk_item l \<and>
     log' = log \<lparr> vl_chains := set_link d (l \<lparr> lk_state := st \<rparr>) (vl_chains log) \<rparr>)"
  by (auto simp: resolve_waiting_def split: option.splits)

lemma body_verified_Inr:
  "body_verified log d = Inr log' \<longleftrightarrow>
     (\<exists>l. vl_link log d = Some l \<and> lk_state l = LsWaiting \<and> log' = move_body d l LsReady log)"
  by (auto simp: body_verified_def and_then_Inr resolve_waiting_Inr move_body_def Let_def split_paired_Ex)

lemma body_rejected_Inr:
  "body_rejected log d = Inr log' \<longleftrightarrow>
     (\<exists>l. vl_link log d = Some l \<and> lk_state l = LsWaiting \<and> log' = move_body d l LsRejected log)"
  by (auto simp: body_rejected_def and_then_Inr resolve_waiting_Inr move_body_def Let_def split_paired_Ex)

lemma serve_again_cases:
  assumes "serve_again op (log, reports) = (log', reports')"
  obtains "log' = log"
  | l st where "vl_link log (so_dot op) = Some l" "lk_state l = LsRejected" "st \<in> {LsReady, LsWaiting}"
      "lk_item l = oh_item_id (so_header op) \<Longrightarrow> log' = move_body (so_dot op) l st log"
proof (cases "vl_link log (so_dot op)")
  case None
  then show ?thesis using assms that(1) by (simp add: serve_again_def Let_def)
next
  case (Some l)
  show ?thesis
  proof (cases "lk_state l = LsRejected")
    case False
    then show ?thesis using assms that(1) Some by (simp add: serve_again_def Let_def)
  next
    case True
    show ?thesis
    proof (cases "so_body op")
      case BodyVerified
      show ?thesis
        by (rule that(2) [OF Some True, of LsReady])
          (use assms Some True BodyVerified in \<open>auto simp: serve_again_def Let_def move_body_def\<close>)
    next
      case BodyWaiting
      show ?thesis
        by (rule that(2) [OF Some True, of LsWaiting])
          (use assms Some True BodyWaiting in \<open>auto simp: serve_again_def Let_def move_body_def\<close>)
    qed (use assms Some True that(1) in \<open>simp_all add: serve_again_def Let_def\<close>)
  qed
qed

section \<open>The chain check\<close>

lemma accept_link_effect:
  "vl_link (accept_link h st log) d = (if d = oh_dot h then Some \<lparr> lk_header = h, lk_state = st \<rparr> else vl_link log d)"
  "vl_head (accept_link h st log) x = (if x = dot_device (oh_dot h) then dot_seq (oh_dot h) else vl_head log x)"
  "vl_frontier (accept_link h st log) x = vl_frontier log x"
  "no_zero log \<Longrightarrow> no_zero (accept_link h st log)"
  "in_ready (vl_ready (accept_link h st log)) i d \<longleftrightarrow>
     st = LsReady \<and> i = oh_item_id h \<and> d = oh_dot h \<or> in_ready (vl_ready log) i d"
  "bs_contains (vl_dirty (accept_link h st log)) i \<longleftrightarrow> st = LsReady \<and> i = oh_item_id h \<or> bs_contains (vl_dirty log) i"
  "vl_items (accept_link h st log) = vl_items log" "vl_cutoffs (accept_link h st log) = vl_cutoffs log"
  "vl_uploads (accept_link h st log) = vl_uploads log" "vl_own (accept_link h st log) = vl_own log"
  "vl_vault_id (accept_link h st log) = vl_vault_id log" "vl_absorbed (accept_link h st log) = vl_absorbed log"
  "vl_settled (accept_link h st log) i = vl_settled log i" "vl_cutoff (accept_link h st log) x = vl_cutoff log x"
  by (auto simp: accept_link_def Let_def vl_link_def link_at_def vl_head_def vl_frontier_def no_zero_def chain_default_def
      dot_eq_iff vl_settled_def vl_cutoff_def split: option.splits if_splits)

lemma accept_link_held: "vl_link log e \<noteq> None \<Longrightarrow> vl_link (accept_link h st log) e \<noteq> None"
  by (simp add: accept_link_effect)

lemma accept_link_linked:
  assumes linked: "chain_linked log" and h: "oh_vault_prev_seq h = vl_head log (dot_device (oh_dot h))"
    "vl_head log (dot_device (oh_dot h)) < dot_seq (oh_dot h)"
  shows "chain_linked (accept_link h st log)"
proof -
  note eff = accept_link_effect(1,2)
  have old: "vl_link (accept_link h st log) d = Some l \<Longrightarrow> d \<noteq> oh_dot h \<Longrightarrow> vl_link log d = Some l" for d l
    by (simp add: eff)
  have "lk_prev l < dot_seq d \<and> dot_seq d \<le> vl_head (accept_link h st log) (dot_device d) \<and>
      (\<forall>e. dot_device e = dot_device d \<and> dot_seq e < dot_seq d \<and> vl_link (accept_link h st log) e \<noteq> None \<longrightarrow> dot_seq e \<le> lk_prev l) \<and>
      (lk_prev l \<noteq> 0 \<longrightarrow> (\<exists>e. dot_device e = dot_device d \<and> dot_seq e = lk_prev l \<and> vl_link (accept_link h st log) e \<noteq> None))"
    if l: "vl_link (accept_link h st log) d = Some l" for d l
  proof (cases "d = oh_dot h")
    case True
    then have "lk_header l = h" using l by (auto simp: eff)
    moreover have "dot_seq e \<le> vl_head log (dot_device d)" if "dot_device e = dot_device d" "vl_link log e = Some l'" for e l'
      using chain_linkedD(2) [OF linked that(2)] that(1) by simp
    moreover note chain_head [OF linked]
    ultimately show ?thesis
      using h True by (auto simp: eff) (metis option.distinct(1))+
  next
    case False
    note o = chain_linkedD [OF linked old [OF l False]]
    have "dot_seq d \<le> vl_head (accept_link h st log) (dot_device d)"
      using o(2) h(2) by (auto simp: eff)
    moreover have "dot_seq e \<le> lk_prev l"
      if "dot_device e = dot_device d" "dot_seq e < dot_seq d" "vl_link (accept_link h st log) e \<noteq> None" for e
      using o(2) o(3) [of e] that h(2) by (auto simp: eff split: if_splits)
    ultimately show ?thesis using o(1,4) accept_link_held [of log _ h st] by blast
  qed
  moreover have "vl_head (accept_link h st log) x \<noteq> 0 \<Longrightarrow>
      \<exists>e. dot_device e = x \<and> dot_seq e = vl_head (accept_link h st log) x \<and> vl_link (accept_link h st log) e \<noteq> None" for x
  proof (cases "x = dot_device (oh_dot h)")
    case False
    assume "vl_head (accept_link h st log) x \<noteq> 0"
    with False chain_head [OF linked, of x] accept_link_held [of log _ h st] show ?thesis by (auto simp: eff(2))
  qed (auto simp: eff)
  ultimately show ?thesis unfolding chain_linked_def by blast
qed

lemma accept_link_ok:
  assumes ok: "log_ok log" and vault: "oh_vault_id h = vl_vault_id log"
    and h: "oh_vault_prev_seq h = vl_head log (dot_device (oh_dot h))" "vl_head log (dot_device (oh_dot h)) < dot_seq (oh_dot h)"
    and cov: "st \<in> {LsDelivered, LsBodiless} \<Longrightarrow> vv_covers (vl_settled log (oh_item_id h)) (oh_dot h)"
    and own: "dot_device (oh_dot h) = vl_own log \<Longrightarrow> st = LsDelivered"
    and cut: "past_cutoff (vl_cutoff log (dot_device (oh_dot h))) (dot_seq (oh_dot h)) \<Longrightarrow> st \<in> {LsDelivered, LsRevoked}"
  shows "log_ok (accept_link h st log)"
proof -
  note eff = accept_link_effect
  have base: "base_ok log" using ok by (simp add: log_ok_def)
  have fresh: "vl_link log (oh_dot h) = None"
    using chain_linkedD(2) [OF base_okD(2) [OF base], of "oh_dot h"] h(2) by (cases "vl_link log (oh_dot h)") auto
  have notready: "\<not> in_ready (vl_ready log) i (oh_dot h)" for i
    using ready_okD [OF base_okD(3) [OF base], of i "oh_dot h"] fresh by auto
  have "links_ok (accept_link h st log)"
    using base_okD(1) [OF base] vault by (auto simp: links_ok_def eff)
  moreover have "chain_linked (accept_link h st log)"
    by (rule accept_link_linked [OF base_okD(2) [OF base] h])
  moreover have "ready_ok (accept_link h st log)"
    using base_okD(3) [OF base] notready by (auto simp: ready_ok_def eff)
  moreover have "settled_ok (accept_link h st log)"
    using base_okD(4) [OF base] cov by (simp add: settled_ok_def eff)
  moreover have "frontier_ok (accept_link h st log)"
    unfolding frontier_ok_def
  proof (intro conjI allI impI, elim conjE)
    fix d l assume l: "vl_link (accept_link h st log) d = Some l"
      "dot_seq d < vl_frontier (accept_link h st log) (dot_device d)"
    have "vl_frontier log (dot_device (oh_dot h)) \<le> dot_seq (oh_dot h)"
      using base_okD(5) [OF base] h(2) by (simp add: frontier_ok_def)
    with l have "d \<noteq> oh_dot h" by (auto simp: eff)
    with l base_okD(5) [OF base] show "vv_covers (vl_settled (accept_link h st log) (lk_item l)) d"
      by (simp add: eff frontier_ok_def)
  next
    fix x sq assume "vl_head (accept_link h st log) x < sq"
    then have "vl_head log x < sq" using h(2) by (auto simp: eff split: if_splits)
    with base_okD(5) [OF base] show "vl_frontier (accept_link h st log) x \<le> sq" by (simp add: eff frontier_ok_def)
  qed
  moreover have "own_ok (accept_link h st log)"
    using base_okD(6) [OF base] own by (auto simp: own_ok_def eff)
  moreover have "cutoff_ok (accept_link h st log)"
    using base_okD(7) [OF base] cut by (simp add: cutoff_ok_def eff)
  moreover have "uploads_ok (accept_link h st log)"
  proof -
    have "own_link (accept_link h st log) sq \<noteq> None" if "own_link log sq \<noteq> None" for sq
      using that accept_link_held [of log _ h st]
      by (cases "dot_new (vl_own log) sq") (simp_all add: own_link_None vl_key_None eff(10))
    with base_okD(8) [OF base] show ?thesis unfolding uploads_ok_def eff(9) by blast
  qed
  moreover have "dirty_within {i. bs_contains (vl_dirty (accept_link h st log)) i} (accept_link h st log)"
    using ok by (auto simp: log_ok_def dirty_within_def eff)
  ultimately show ?thesis by (simp add: log_ok_def base_ok_def)
qed

subsection \<open>The walk over one device's headers\<close>

text \<open>Served headers that extend a chain from \<open>prev\<close>: the rule of the walk, without its reports.\<close>

fun extends_from :: "u64 option \<Rightarrow> (op_header \<Rightarrow> bool) \<Rightarrow> u64 \<Rightarrow> served_op list \<Rightarrow> bool" where
  "extends_from cutoff counts prev [] \<longleftrightarrow> True"
| "extends_from cutoff counts prev (op # ops) \<longleftrightarrow>
     prev < dot_seq (so_dot op) \<and> oh_vault_prev_seq (so_header op) = prev \<and>
     \<not> past_cutoff cutoff (dot_seq (so_dot op)) \<and>
     (needs_cover (so_body op) \<longrightarrow> counts (so_header op)) \<and>
     extends_from cutoff counts (dot_seq (so_dot op)) ops"

definition end_seq :: "u64 \<Rightarrow> served_op list \<Rightarrow> u64" where
  "end_seq prev ops = (if ops = [] then prev else dot_seq (so_dot (last ops)))"

lemma end_seq_simps [simp]: "end_seq prev [] = prev" "end_seq prev (op # ops) = end_seq (dot_seq (so_dot op)) ops"
  by (simp_all add: end_seq_def)

text \<open>A header is held when a link of the log has it.\<close>

definition held_at :: "vault_log \<Rightarrow> device_id \<Rightarrow> op_header \<Rightarrow> bool" where
  "held_at log x h \<longleftrightarrow> (\<exists>c l. bt_get (vl_chains log) x = Some c \<and> bt_get (ch_links c) (dot_seq (oh_dot h)) = Some l \<and> lk_header l = h)"

text \<open>
  What a walk leaves: the accepted headers extend the chain, a header served again is a rejected
  link that no snapshot covers, and every other header is reported, by itself or by the gap or
  cut-off that ended the walk.
\<close>

definition accounted :: "vault_log \<Rightarrow> device_id \<Rightarrow> u64 \<Rightarrow> walk \<Rightarrow> served_op \<Rightarrow> bool" where
  "accounted log x p w op \<longleftrightarrow>
     so_header op \<in> so_header ` set (wk_accepted w) \<or> held_at log x (so_header op) \<or>
     Equivocation (so_dot op) \<in> set (wk_reports w) \<or>
     (\<exists>cause. Gap x p cause \<in> set (wk_reports w)) \<or>
     (\<exists>d c. PastCutoff d c \<in> set (wk_reports w) \<and> p < dot_seq d \<and> dot_device d = x)"

definition walk_spec ::
  "vault_log \<Rightarrow> device_id \<Rightarrow> (op_header \<Rightarrow> bool) \<Rightarrow> u64 \<Rightarrow> served_op list \<Rightarrow> walk \<Rightarrow> walk \<Rightarrow> served_op list \<Rightarrow> bool" where
  "walk_spec log x counts prev ops w r acc \<longleftrightarrow>
     wk_accepted r = wk_accepted w @ acc \<and> extends_from (bt_get (vl_cutoffs log) x) counts prev acc \<and>
     set acc \<subseteq> set ops \<and> set (wk_reports w) \<subseteq> set (wk_reports r) \<and>
     (\<forall>op \<in> set ops. accounted log x (end_seq prev acc) r op) \<and>
     (\<forall>op \<in> set (wk_reserved r). op \<in> set (wk_reserved w) \<or> op \<in> set ops \<and> held_at log x (so_header op))"

lemma walk_spec_skip:
  assumes rest: "walk_spec log x counts prev ops w1 r acc" and acc: "wk_accepted w1 = wk_accepted w"
    and rep: "set (wk_reports w) \<subseteq> set (wk_reports w1)"
    and rsv: "\<And>op'. op' \<in> set (wk_reserved w1) \<Longrightarrow> op' \<in> set (wk_reserved w) \<or> op' = op \<and> held_at log x (so_header op)"
    and here: "so_header op \<in> so_header ` set (wk_accepted w) \<or> held_at log x (so_header op) \<or>
      Equivocation (so_dot op) \<in> set (wk_reports w1)"
  shows "walk_spec log x counts prev (op # ops) w r acc"
proof -
  have "accounted log x (end_seq prev acc) r op"
    using here rest acc by (auto simp: accounted_def walk_spec_def)
  moreover have "op' \<in> set (wk_reserved w) \<or> op' \<in> set (op # ops) \<and> held_at log x (so_header op')"
    if "op' \<in> set (wk_reserved r)" for op'
    using that rest rsv [of op'] by (auto simp: walk_spec_def)
  ultimately show ?thesis using rest rep acc unfolding walk_spec_def by (metis (no_types, lifting) set_ConsD set_subset_Cons subset_trans)
qed

lemma walk_spec_stop:
  assumes "wk_accepted r = wk_accepted w" "wk_reserved r = wk_reserved w" "set (wk_reports w) \<subseteq> set (wk_reports r)"
    "(\<exists>cause. Gap x prev cause \<in> set (wk_reports r)) \<or>
     (\<exists>d c. PastCutoff d c \<in> set (wk_reports r) \<and> prev < dot_seq d \<and> dot_device d = x)"
  shows "walk_spec log x counts prev ops w r []"
  using assms by (auto simp: walk_spec_def accounted_def)

lemma walk_spec_accept:
  assumes rest: "walk_spec log x counts (dot_seq (so_dot op)) ops w1 r acc"
    and acc: "wk_accepted w1 = wk_accepted w @ [op]" "wk_reserved w1 = wk_reserved w"
    and rep: "set (wk_reports w) \<subseteq> set (wk_reports w1)"
    and ext: "prev < dot_seq (so_dot op)" "\<not> past_cutoff (bt_get (vl_cutoffs log) x) (dot_seq (so_dot op))"
      "oh_vault_prev_seq (so_header op) = prev" "needs_cover (so_body op) \<longrightarrow> counts (so_header op)"
  shows "walk_spec log x counts prev (op # ops) w r (op # acc)"
proof -
  have "accounted log x (end_seq prev (op # acc)) r op"
    using rest acc by (auto simp: accounted_def walk_spec_def)
  then show ?thesis using assms by (auto simp: walk_spec_def)
qed

declare walk_from.simps(2) [simp del]

lemma walk_from_spec:
  assumes "\<forall>op \<in> set ops. dot_device (so_dot op) = x"
  shows "\<exists>acc. walk_spec log x counts prev ops w (walk_from log x counts prev ops w) acc"
  using assms
proof (induction ops arbitrary: prev w)
  case Nil
  then show ?case by (intro exI [of _ "[]"]) (simp add: walk_spec_def)
next
  case (Cons op ops)
  let ?h = "so_header op" and ?d = "so_dot op"
  let ?held = "Option.bind (bt_get (vl_chains log) x) (\<lambda>c. bt_get (ch_links c) (dot_seq ?d))"
  let ?cutoff = "bt_get (vl_cutoffs log) x"
  note step = walk_from.simps(2) [of log x counts prev op ops w]
  have dev: "dot_device ?d = x" and IH: "\<exists>acc. walk_spec log x counts prev ops w (walk_from log x counts prev ops w) acc"
    for prev w using Cons by auto
  consider (reserve) l where "dot_seq ?d \<le> prev" "?held = Some l" "lk_header l = ?h" "lk_state l = LsRejected" "\<not> covered (vl_items log) ?h"
    | (held) "dot_seq ?d \<le> prev" "\<not> (\<exists>l. ?held = Some l \<and> lk_header l = ?h \<and> lk_state l = LsRejected \<and> \<not> covered (vl_items log) ?h)"
    | (cutoff) "prev < dot_seq ?d" "past_cutoff ?cutoff (dot_seq ?d)"
    | (unlinked) "prev < dot_seq ?d" "\<not> past_cutoff ?cutoff (dot_seq ?d)" "oh_vault_prev_seq ?h \<noteq> prev"
    | (uncovered) "prev < dot_seq ?d" "\<not> past_cutoff ?cutoff (dot_seq ?d)" "oh_vault_prev_seq ?h = prev"
        "needs_cover (so_body op) \<and> \<not> counts ?h"
    | (accept) "prev < dot_seq ?d" "\<not> past_cutoff ?cutoff (dot_seq ?d)" "oh_vault_prev_seq ?h = prev"
        "needs_cover (so_body op) \<longrightarrow> counts ?h"
    by (meson not_le)
  then show ?case
  proof cases
    case reserve
    have "walk_from log x counts prev (op # ops) w = walk_from log x counts prev ops (w \<lparr> wk_reserved := wk_reserved w @ [op] \<rparr>)"
      using reserve by (simp add: step Let_def)
    moreover have "held_at log x ?h" using reserve by (auto simp: held_at_def bind_eq_Some_conv)
    ultimately show ?thesis
      using IH [of prev "w \<lparr> wk_reserved := wk_reserved w @ [op] \<rparr>"] walk_spec_skip by fastforce
  next
    case held
    define held_h where "held_h = (case ?held of Some l \<Rightarrow> Some (lk_header l)
        | None \<Rightarrow> map_option so_header (find (\<lambda>a. dot_seq (so_dot a) = dot_seq ?d) (wk_accepted w)))"
    define w1 where "w1 = w \<lparr> wk_reports := wk_reports w @ [if held_h = Some ?h then Duplicate ?d else Equivocation ?d] \<rparr>"
    have "(case ?held of None \<Rightarrow> False
           | Some l \<Rightarrow> lk_header l = ?h \<and> lk_state l = LsRejected \<and> \<not> covered (vl_items log) ?h) = False"
      using held(2) by (auto split: option.splits)
    then have go: "walk_from log x counts prev (op # ops) w = walk_from log x counts prev ops w1"
      using held(1) by (simp add: step Let_def w1_def held_h_def)
    have "held_at log x ?h \<or> ?h \<in> so_header ` set (wk_accepted w)" if same: "held_h = Some ?h"
    proof (cases ?held)
      case None
      then obtain a where "find (\<lambda>a. dot_seq (so_dot a) = dot_seq ?d) (wk_accepted w) = Some a" "so_header a = ?h"
        using same by (auto simp: held_h_def)
      then show ?thesis by (metis find_Some_iff image_eqI nth_mem)
    next
      case (Some l)
      then show ?thesis using same by (auto simp: held_h_def held_at_def bind_eq_Some_conv)
    qed
    then have "?h \<in> so_header ` set (wk_accepted w) \<or> held_at log x ?h \<or> Equivocation ?d \<in> set (wk_reports w1)"
      by (auto simp: w1_def)
    moreover obtain acc where "walk_spec log x counts prev ops w1 (walk_from log x counts prev ops w1) acc"
      using IH by blast
    ultimately show ?thesis
      unfolding go by (intro exI [of _ acc] walk_spec_skip [of log x counts prev ops w1]) (auto simp: w1_def)
  next
    case accept
    define w1 where "w1 = (if so_body op = BodyRejected then w \<lparr> wk_reports := wk_reports w @ [RejectedBody ?d] \<rparr> else w)
      \<lparr> wk_accepted := wk_accepted w @ [op] \<rparr>"
    have go: "walk_from log x counts prev (op # ops) w = walk_from log x counts (dot_seq ?d) ops w1"
      using accept by (auto simp: step Let_def w1_def)
    obtain acc where "walk_spec log x counts (dot_seq ?d) ops w1 (walk_from log x counts (dot_seq ?d) ops w1) acc"
      using IH by blast
    then have "walk_spec log x counts prev (op # ops) w (walk_from log x counts (dot_seq ?d) ops w1) (op # acc)"
      by (rule walk_spec_accept) (use accept in \<open>auto simp: w1_def\<close>)
    then show ?thesis unfolding go by blast
  next
    case cutoff
    then show ?thesis
      using dev by (intro exI [of _ "[]"] walk_spec_stop) (auto simp: step Let_def intro!: exI [of _ ?d])
  next
    case unlinked
    then show ?thesis by (intro exI [of _ "[]"] walk_spec_stop) (auto simp: step Let_def)
  next
    case uncovered
    then show ?thesis by (intro exI [of _ "[]"] walk_spec_stop) (auto simp: step Let_def)
  qed
qed

subsection \<open>Committing a response\<close>

definition list_of :: "('k :: linorder, 'v list) btree_map \<Rightarrow> 'k \<Rightarrow> 'v list" where
  "list_of m x = (case bt_get m x of None \<Rightarrow> [] | Some xs \<Rightarrow> xs)"

text \<open>The served ops that are walked with the chain of device \<open>x\<close>.\<close>

definition in_group :: "vault_log \<Rightarrow> device_id \<Rightarrow> served_op \<Rightarrow> bool" where
  "in_group log x op \<longleftrightarrow> oh_vault_id (so_header op) = vl_vault_id log \<and> dot_device (so_dot op) = x \<and> x \<noteq> vl_own log"

definition group_report :: "vault_log \<Rightarrow> report set \<Rightarrow> served_op \<Rightarrow> bool" where
  "group_report log reports op \<longleftrightarrow>
     in_group log (dot_device (so_dot op)) op \<or> vl_header log (so_dot op) = Some (so_header op) \<or>
     ForeignVault (so_dot op) \<in> reports \<or> Equivocation (so_dot op) \<in> reports \<or> UnknownOwnOp (so_dot op) \<in> reports"

lemma group_fold:
  assumes "fold (group_op log) ops (g, r) = (g', r')"
  shows "list_of g' x = list_of g x @ filter (in_group log x) ops" "set r \<subseteq> set r'"
    "op \<in> set ops \<Longrightarrow> group_report log (set r') op"
proof -
  have "list_of g' x = list_of g x @ filter (in_group log x) ops \<and> set r \<subseteq> set r' \<and>
      (\<forall>op \<in> set ops. group_report log (set r') op)"
    using assms
  proof (induction ops arbitrary: g r)
    case (Cons op ops)
    obtain g1 r1 where step: "group_op log op (g, r) = (g1, r1)" by fastforce
    with Cons.prems have rest: "fold (group_op log) ops (g1, r1) = (g', r')" by simp
    have g1: "list_of g1 x = list_of g x @ (if in_group log x op then [op] else [])"
      using step by (auto simp: group_op_def in_group_def list_of_def Let_def split: if_splits option.splits)
    have "set r \<subseteq> set r1" "group_report log (set r1) op"
      using step by (auto simp: group_op_def in_group_def group_report_def Let_def split: if_splits)
    moreover have "group_report log (set r1) op \<Longrightarrow> set r1 \<subseteq> set r' \<Longrightarrow> group_report log (set r') op"
      by (auto simp: group_report_def)
    ultimately show ?case using Cons.IH [OF rest] g1 by auto
  qed simp
  then show "list_of g' x = list_of g x @ filter (in_group log x) ops" "set r \<subseteq> set r'"
    "op \<in> set ops \<Longrightarrow> group_report log (set r') op" by blast+
qed

lemma vl_group_spec:
  assumes "vl_group log ops r = (g, r')"
  shows "set (list_of g x) = {op \<in> set ops. in_group log x op}" "op \<in> set ops \<Longrightarrow> group_report log (set r') op"
    "(x, served) \<in> set (bt_entries g) \<Longrightarrow> served = list_of g x"
proof -
  obtain g0 where run: "fold (group_op log) ops (bt_empty, r) = (g0, r')"
    and g: "g = bt_retain_map (\<lambda>_ served. Some (sort_key (\<lambda>op. dot_seq (so_dot op)) served)) g0"
    using assms by (auto simp: vl_group_def split: prod.splits)
  have "list_of g x = sort_key (\<lambda>op. dot_seq (so_dot op)) (list_of g0 x)"
    by (cases "bt_get g0 x") (simp_all add: g list_of_def)
  with group_fold(1) [OF run, of x] show "set (list_of g x) = {op \<in> set ops. in_group log x op}"
    by (simp add: list_of_def)
  show "op \<in> set ops \<Longrightarrow> group_report log (set r') op" by (rule group_fold(3) [OF run])
  show "(x, served) \<in> set (bt_entries g) \<Longrightarrow> served = list_of g x"
    by (simp add: bt_entries_iff list_of_def)
qed

text \<open>What a step of a commit keeps: held headers, states that are final, and everything but the chains.\<close>

definition revokes_none :: "vault_log \<Rightarrow> vault_log \<Rightarrow> bool" where
  "revokes_none log log' \<longleftrightarrow>
     (\<forall>d l. vl_link log' d = Some l \<and> lk_state l = LsRevoked \<longrightarrow> (\<exists>l0. vl_link log d = Some l0 \<and> lk_state l0 = LsRevoked))"

lemma revokes_none_simps [simp]:
  "revokes_none log log" "revokes_none log (log' \<lparr> vl_absorbed := X \<rparr>) = revokes_none log log'"
  by (simp_all add: revokes_none_def)

lemma revokes_none_trans [trans]: "revokes_none a b \<Longrightarrow> revokes_none b c \<Longrightarrow> revokes_none a c"
  unfolding revokes_none_def by blast

definition keeps :: "vault_log \<Rightarrow> vault_log \<Rightarrow> bool" where
  "keeps log log' \<longleftrightarrow>
     (\<forall>d h. vl_header log d = Some h \<longrightarrow> vl_header log' d = Some h) \<and>
     (\<forall>d l. vl_link log d = Some l \<and> lk_state l \<in> {LsDelivered, LsRevoked} \<longrightarrow> vl_link log' d = Some l) \<and>
     vl_items log' = vl_items log \<and> vl_cutoffs log' = vl_cutoffs log \<and> vl_uploads log' = vl_uploads log \<and>
     vl_own log' = vl_own log \<and> vl_vault_id log' = vl_vault_id log \<and> revokes_none log log'"

lemma keeps_refl [simp]: "keeps log log"
  by (simp add: keeps_def)

lemma keeps_trans: "keeps a b \<Longrightarrow> keeps b c \<Longrightarrow> keeps a c"
  by (auto simp: keeps_def intro: revokes_none_trans)

lemma move_body_keeps:
  assumes "vl_link log d = Some l" "lk_state l \<in> {LsWaiting, LsRejected}" "st \<noteq> LsRevoked"
  shows "keeps log (move_body d l st log)"
  using move_body_effect [OF assms(1), of st] assms by (auto simp: keeps_def vl_header_def revokes_none_def)

lemma accept_link_keeps:
  "vl_link log (oh_dot h) = None \<Longrightarrow> st \<noteq> LsRevoked \<Longrightarrow> keeps log (accept_link h st log)"
  by (auto simp: keeps_def vl_header_def accept_link_effect revokes_none_def)

lemma serve_again_step:
  assumes ok: "log_ok log" and held: "vl_header log (so_dot op) = Some (so_header op)"
    and step: "serve_again op (log, r) = (log', r')"
  shows "log_ok log' \<and> keeps log log' \<and> (\<forall>d. vl_header log' d = vl_header log d) \<and> (\<forall>x. vl_head log' x = vl_head log x) \<and>
    (\<forall>d. dot_device d \<noteq> dot_device (so_dot op) \<longrightarrow> vl_link log' d = vl_link log d) \<and> set r \<subseteq> set r'"
proof -
  have r: "set r \<subseteq> set r'"
    using step by (auto simp: serve_again_def Let_def split: option.splits if_splits body_status.splits)
  from step show ?thesis
  proof (rule serve_again_cases)
    assume "log' = log"
    with ok r show ?thesis by simp
  next
    fix l st
    assume l: "vl_link log (so_dot op) = Some l" "lk_state l = LsRejected" "st \<in> {LsReady, LsWaiting}"
      and log': "lk_item l = oh_item_id (so_header op) \<Longrightarrow> log' = move_body (so_dot op) l st log"
    have "lk_item l = oh_item_id (so_header op)" using held l(1) by (simp add: vl_header_def)
    note log' = log' [OF this] and eff = move_body_effect [OF l(1), of st]
    have "log_ok log'" unfolding log' by (rule move_body_ok [OF ok l(1)]) (use l in auto)
    moreover have "keeps log log'" unfolding log' by (rule move_body_keeps [OF l(1)]) (use l in auto)
    moreover have "vl_header log' d = vl_header log d" for d using l(1) by (simp add: log' eff(1) vl_header_def)
    moreover have "vl_head log' x = vl_head log x" for x using eff(2) by (simp add: log' same_chains_def)
    ultimately show ?thesis using r by (auto simp: log' eff(1))
  qed
qed

lemma fold_serve_again:
  assumes "fold serve_again ops (log, r) = (log', r')" "log_ok log"
    "\<forall>op \<in> set ops. vl_header log (so_dot op) = Some (so_header op) \<and> dot_device (so_dot op) = x"
  shows "log_ok log' \<and> keeps log log' \<and> (\<forall>d. vl_header log' d = vl_header log d) \<and> (\<forall>y. vl_head log' y = vl_head log y) \<and>
    (\<forall>d. dot_device d \<noteq> x \<longrightarrow> vl_link log' d = vl_link log d) \<and> set r \<subseteq> set r'"
  using assms
proof (induction ops arbitrary: log r)
  case (Cons op ops)
  obtain log1 r1 where step: "serve_again op (log, r) = (log1, r1)" by fastforce
  with Cons.prems(1) have rest: "fold serve_again ops (log1, r1) = (log', r')" by simp
  have one: "log_ok log1 \<and> keeps log log1 \<and> (\<forall>d. vl_header log1 d = vl_header log d) \<and> (\<forall>x. vl_head log1 x = vl_head log x) \<and>
    (\<forall>d. dot_device d \<noteq> x \<longrightarrow> vl_link log1 d = vl_link log d) \<and> set r \<subseteq> set r1"
    using serve_again_step [OF Cons.prems(2) _ step] Cons.prems(3) by auto
  have "\<forall>op \<in> set ops. vl_header log1 (so_dot op) = Some (so_header op) \<and> dot_device (so_dot op) = x"
    using one Cons.prems(3) by simp
  with Cons.IH [OF rest] one show ?case by (auto intro: keeps_trans)
qed simp

abbreviation accept_op :: "served_op \<Rightarrow> vault_log \<Rightarrow> vault_log" where
  "accept_op op \<equiv> accept_link (so_header op) (link_state_from_body (so_body op))"

lemma link_state_from_body_simps:
  "link_state_from_body b \<notin> {LsDelivered, LsRevoked}" "link_state_from_body b = LsBodiless \<Longrightarrow> needs_cover b"
  by (cases b; simp add: needs_cover_def)+

lemma fold_accept:
  assumes "log_ok log" "extends_from (vl_cutoff log x) (covered (vl_items log)) (vl_head log x) ops"
    "\<forall>op \<in> set ops. in_group log x op"
  shows "log_ok (fold accept_op ops log) \<and> keeps log (fold accept_op ops log) \<and>
    vl_head (fold accept_op ops log) y = (if y = x then end_seq (vl_head log x) ops else vl_head log y) \<and>
    (\<forall>d. vl_link (fold accept_op ops log) d \<noteq> None \<longrightarrow> vl_link log d \<noteq> None \<or> d \<in> so_dot ` set ops) \<and>
    (\<forall>d. d \<notin> so_dot ` set ops \<longrightarrow> vl_link (fold accept_op ops log) d = vl_link log d) \<and>
    (\<forall>op \<in> set ops. vl_header (fold accept_op ops log) (so_dot op) = Some (so_header op))"
  using assms
proof (induction ops arbitrary: log)
  case (Cons op ops)
  let ?log = "accept_op op log"
  have g: "in_group log x op" and ext: "vl_head log x < dot_seq (so_dot op)" "oh_vault_prev_seq (so_header op) = vl_head log x"
      "\<not> past_cutoff (vl_cutoff log x) (dot_seq (so_dot op))"
      "needs_cover (so_body op) \<Longrightarrow> covered (vl_items log) (so_header op)"
    using Cons.prems by auto
  have dev: "dot_device (so_dot op) = x" using g by (simp add: in_group_def)
  have ok: "log_ok ?log"
  proof (rule accept_link_ok [OF Cons.prems(1)])
    show "link_state_from_body (so_body op) \<in> {LsDelivered, LsBodiless} \<Longrightarrow>
        vv_covers (vl_settled log (oh_item_id (so_header op))) (so_dot op)"
      using link_state_from_body_simps [of "so_body op"] ext(4) by (auto simp: covered_settled vl_settled_iff)
  qed (use g ext dev in \<open>auto simp: in_group_def\<close>)
  have fresh: "vl_link log (so_dot op) = None"
    using chain_linkedD(2) [of log "so_dot op"] Cons.prems(1) ext(1) dev
    by (cases "vl_link log (so_dot op)") (auto simp: log_ok_def base_ok_def)
  have "extends_from (vl_cutoff ?log x) (covered (vl_items ?log)) (vl_head ?log x) ops"
    "\<forall>op \<in> set ops. in_group ?log x op"
    using Cons.prems(2,3) dev by (auto simp: accept_link_effect in_group_def)
  note IH = Cons.IH [OF ok this]
  have "keeps log (fold accept_op (op # ops) log)"
    using IH accept_link_keeps [OF fresh, of "link_state_from_body (so_body op)"] link_state_from_body_simps(1) [of "so_body op"]
    by (auto intro: keeps_trans)
  moreover have "vl_header (fold accept_op ops ?log) (so_dot op) = Some (so_header op)"
  proof -
    have "vl_header ?log (so_dot op) = Some (so_header op)" by (simp add: vl_header_def accept_link_effect)
    with IH show ?thesis by (simp add: keeps_def)
  qed
  ultimately show ?case using IH dev by (auto simp: accept_link_effect)
qed simp

text \<open>After a commit, a served op is held, or the response's reports account for it.\<close>

definition explained :: "vault_log \<Rightarrow> report set \<Rightarrow> served_op \<Rightarrow> bool" where
  "explained log reports op \<longleftrightarrow>
     vl_header log (so_dot op) = Some (so_header op) \<or>
     ForeignVault (so_dot op) \<in> reports \<or> Equivocation (so_dot op) \<in> reports \<or> UnknownOwnOp (so_dot op) \<in> reports \<or>
     (\<exists>cause. Gap (dot_device (so_dot op)) (vl_head log (dot_device (so_dot op))) cause \<in> reports) \<or>
     (\<exists>d c. PastCutoff d c \<in> reports \<and> dot_device d = dot_device (so_dot op) \<and> vl_head log (dot_device d) < dot_seq d)"

lemma explained_mono:
  assumes "explained log r op" "\<And>d h. vl_header log d = Some h \<Longrightarrow> vl_header log' d = Some h"
    "vl_head log' (dot_device (so_dot op)) = vl_head log (dot_device (so_dot op))" "r \<subseteq> r'"
  shows "explained log' r' op"
  using assms unfolding explained_def by (metis subsetD)

lemma held_at_header:
  assumes "log_ok log" "held_at log x h" "dot_device (oh_dot h) = x"
  shows "vl_header log (oh_dot h) = Some h"
  using assms by (auto simp: held_at_def vl_header_def vl_link_def link_at_def)

lemma commit_device_spec:
  assumes ok: "log_ok log" and served: "\<forall>op \<in> set served. in_group log x op"
    and run: "commit_device (x, served) (log, acc, r) = (log', acc', r')"
  shows "log_ok log'" "keeps log log'" "set r \<subseteq> set r'"
    "y \<noteq> x \<Longrightarrow> vl_head log' y = vl_head log y" "dot_device d \<noteq> x \<Longrightarrow> vl_link log' d = vl_link log d"
    "op \<in> set served \<Longrightarrow> explained log' (set r') op"
    "\<exists>new. acc' = acc @ map so_dot new \<and> set new \<subseteq> set served \<and>
       extends_from (vl_cutoff log x) (covered (vl_items log)) (vl_head log x) new \<and>
       vl_head log' x = end_seq (vl_head log x) new \<and>
       (\<forall>d. vl_link log' d \<noteq> None \<longrightarrow> vl_link log d \<noteq> None \<or> d \<in> so_dot ` set new) \<and>
       (\<forall>op \<in> set new. vl_header log' (so_dot op) = Some (so_header op))"
proof -
  define w where "w = vl_walk log x served (covered (vl_items log))"
  have dev: "\<forall>op \<in> set served. dot_device (so_dot op) = x" using served by (simp add: in_group_def)
  have head: "(case bt_get (vl_chains log) x of None \<Rightarrow> 0 | Some c \<Rightarrow> ch_head c) = vl_head log x" by (simp add: vl_head_def)
  obtain new where spec: "walk_spec log x (covered (vl_items log)) (vl_head log x) served
      \<lparr> wk_accepted = [], wk_reserved = [], wk_reports = [] \<rparr> w new"
    using walk_from_spec [OF dev] unfolding w_def vl_walk_def head by blast
  have acc_w: "wk_accepted w = new" and ext: "extends_from (vl_cutoff log x) (covered (vl_items log)) (vl_head log x) new"
    and new: "set new \<subseteq> set served"
    and account: "\<And>op. op \<in> set served \<Longrightarrow> accounted log x (end_seq (vl_head log x) new) w op"
    and rsv: "\<And>op. op \<in> set (wk_reserved w) \<Longrightarrow> op \<in> set served \<and> held_at log x (so_header op)"
    using spec by (auto simp: walk_spec_def vl_cutoff_def)
  obtain log1 r1 where again: "fold serve_again (wk_reserved w) (log, r @ wk_reports w) = (log1, r1)" by fastforce
  have res: "log' = fold accept_op new log1" "acc' = acc @ map so_dot new" "r' = r1"
    using run by (simp_all add: commit_device_def w_def [symmetric] again acc_w Let_def)
  have "\<forall>op \<in> set (wk_reserved w). vl_header log (so_dot op) = Some (so_header op) \<and> dot_device (so_dot op) = x"
    using rsv dev held_at_header [OF ok] by blast
  note one = fold_serve_again [OF again ok this]
  have "extends_from (vl_cutoff log1 x) (covered (vl_items log1)) (vl_head log1 x) new" "\<forall>op \<in> set new. in_group log1 x op"
    using ext one new served by (auto simp: keeps_def vl_cutoff_def in_group_def)
  note two = fold_accept [OF conjunct1 [OF one] this]
  have dots: "dot_device d = x" if "d \<in> so_dot ` set new" for d using that new dev by auto
  show "log_ok log'" "set r \<subseteq> set r'" using one two by (simp_all add: res)
  show keep: "keeps log log'" using one two keeps_trans by (simp add: res) blast
  show "vl_head log' y = vl_head log y" if "y \<noteq> x" for y using one two [of y] that by (simp add: res)
  show "vl_link log' d = vl_link log d" if "dot_device d \<noteq> x" for d
  proof -
    have "d \<notin> so_dot ` set new" using dots that by blast
    then show ?thesis using one two [of x] that by (simp add: res)
  qed
  have reports: "set (wk_reports w) \<subseteq> set r'" using one by (simp add: res)
  have head': "vl_head log' x = end_seq (vl_head log x) new" using one two [of x] by (simp add: res)
  show "\<exists>new. acc' = acc @ map so_dot new \<and> set new \<subseteq> set served \<and>
       extends_from (vl_cutoff log x) (covered (vl_items log)) (vl_head log x) new \<and>
       vl_head log' x = end_seq (vl_head log x) new \<and>
       (\<forall>d. vl_link log' d \<noteq> None \<longrightarrow> vl_link log d \<noteq> None \<or> d \<in> so_dot ` set new) \<and>
       (\<forall>op \<in> set new. vl_header log' (so_dot op) = Some (so_header op))"
  proof -
    have "vl_link log1 d \<noteq> None \<longleftrightarrow> vl_link log d \<noteq> None" for d
      using one by (metis vl_header_None)
    with two [of x] new ext head' show ?thesis by (intro exI [of _ new]) (auto simp: res)
  qed
  assume op: "op \<in> set served"
  have "vl_header log' (so_dot op) = Some (so_header op)" if "so_header op \<in> so_header ` set new"
    using that two [of x] by (auto simp: res)
  moreover have "vl_header log' (so_dot op) = Some (so_header op)" if "held_at log x (so_header op)"
    using held_at_header [OF ok that] op dev keep by (auto simp: keeps_def)
  moreover have "dot_device (so_dot op) = x" using op dev by blast
  moreover have "PastCutoff d c \<in> set r' \<and> vl_head log' (dot_device d) < dot_seq d"
    if "PastCutoff d c \<in> set (wk_reports w)" "end_seq (vl_head log x) new < dot_seq d" "dot_device d = x" for d c
    using that reports head' by auto
  ultimately show "explained log' (set r') op"
    using account [OF op] reports unfolding accounted_def explained_def acc_w head' [symmetric] by (metis subsetD)
qed

lemma extends_from_mem:
  "extends_from c counts prev ops \<Longrightarrow> op \<in> set ops \<Longrightarrow>
     \<not> past_cutoff c (dot_seq (so_dot op)) \<and> (needs_cover (so_body op) \<longrightarrow> counts (so_header op)) \<and> prev < dot_seq (so_dot op)"
proof (induction ops arbitrary: prev)
  case (Cons a ops)
  then show ?case
    by (cases "op = a") (use Cons.IH [of "dot_seq (so_dot a)"] Cons.prems in \<open>auto intro: less_trans\<close>)
qed simp

text \<open>Why a link of the log after a commit is there.\<close>

definition accepted_from :: "vault_log \<Rightarrow> served_op list \<Rightarrow> dot list \<Rightarrow> dot \<Rightarrow> op_header \<Rightarrow> bool" where
  "accepted_from log ops acc d h \<longleftrightarrow>
     (\<exists>op \<in> set ops. so_header op = h \<and> so_dot op = d \<and> d \<in> set acc \<and> in_group log (dot_device d) op \<and>
        vl_head log (dot_device d) < dot_seq d \<and> \<not> past_cutoff (vl_cutoff log (dot_device d)) (dot_seq d) \<and>
        (needs_cover (so_body op) \<longrightarrow> covered (vl_items log) h))"

lemma fold_commit:
  assumes "fold commit_device es (log, acc, r) = (log', acc', r')" "log_ok log" "distinct (map fst es)"
    "\<forall>(x, served) \<in> set es. \<forall>op \<in> set served. in_group log x op"
  shows "log_ok log' \<and> keeps log log' \<and> set r \<subseteq> set r' \<and> set acc \<subseteq> set acc' \<and>
    (\<forall>x. x \<notin> fst ` set es \<longrightarrow> vl_head log' x = vl_head log x) \<and>
    (\<forall>d. dot_device d \<notin> fst ` set es \<longrightarrow> vl_link log' d = vl_link log d) \<and>
    (\<forall>(x, served) \<in> set es. \<forall>op \<in> set served. explained log' (set r') op) \<and>
    (\<forall>d l. vl_link log' d = Some l \<longrightarrow> vl_link log d \<noteq> None \<or> accepted_from log (concat (map snd es)) acc' d (lk_header l))"
  using assms
proof (induction es arbitrary: log acc r)
  case (Cons e es)
  obtain x served where e: "e = (x, served)" by (cases e)
  obtain log1 acc1 r1 where step: "commit_device (x, served) (log, acc, r) = (log1, acc1, r1)" by (cases "commit_device (x, served) (log, acc, r)")
  with Cons.prems(1) have rest: "fold commit_device es (log1, acc1, r1) = (log', acc', r')" by (simp add: e)
  have served: "\<forall>op \<in> set served. in_group log x op" using Cons.prems(4) by (simp add: e)
  note one = commit_device_spec [OF Cons.prems(2) served step]
  have grp: "in_group log1 y op \<longleftrightarrow> in_group log y op" for y op using one(2) by (simp add: keeps_def in_group_def)
  have x: "x \<notin> fst ` set es" using Cons.prems(3) by (simp add: e)
  have IH: "log_ok log' \<and> keeps log1 log' \<and> set r1 \<subseteq> set r' \<and> set acc1 \<subseteq> set acc' \<and>
    (\<forall>x. x \<notin> fst ` set es \<longrightarrow> vl_head log' x = vl_head log1 x) \<and>
    (\<forall>d. dot_device d \<notin> fst ` set es \<longrightarrow> vl_link log' d = vl_link log1 d) \<and>
    (\<forall>(x, served) \<in> set es. \<forall>op \<in> set served. explained log' (set r') op) \<and>
    (\<forall>d l. vl_link log' d = Some l \<longrightarrow> vl_link log1 d \<noteq> None \<or> accepted_from log1 (concat (map snd es)) acc' d (lk_header l))"
    by (rule Cons.IH [OF rest one(1)]) (use Cons.prems(3,4) grp in \<open>simp_all add: e\<close>)
  have "explained log' (set r') op" if op: "op \<in> set served" for op
  proof -
    have "dot_device (so_dot op) = x" using served op by (simp add: in_group_def)
    then show ?thesis using IH x by (intro explained_mono [OF one(6) [OF op]]) (auto simp: keeps_def)
  qed
  moreover have "vl_link log d \<noteq> None \<or> accepted_from log (concat (map snd (e # es))) acc' d (lk_header l)"
    if l: "vl_link log' d = Some l" for d l
  proof (cases "vl_link log1 d")
    case None
    then have a: "accepted_from log1 (concat (map snd es)) acc' d (lk_header l)" using IH l by blast
    have "dot_device d \<noteq> x"
    proof
      assume "dot_device d = x"
      with x have "dot_device d \<notin> fst ` set es" by simp
      with IH have "vl_link log' d = vl_link log1 d" by blast
      with None l show False by simp
    qed
    with a one(2) show ?thesis
      by (auto simp: accepted_from_def grp keeps_def vl_cutoff_def one(4))
  next
    case (Some l1)
    show ?thesis
    proof (cases "vl_link log d")
      case None
      obtain new where new: "acc1 = acc @ map so_dot new" "set new \<subseteq> set served"
          "extends_from (vl_cutoff log x) (covered (vl_items log)) (vl_head log x) new"
          "\<And>d. vl_link log1 d \<noteq> None \<Longrightarrow> vl_link log d \<noteq> None \<or> d \<in> so_dot ` set new"
          "\<And>op. op \<in> set new \<Longrightarrow> vl_header log1 (so_dot op) = Some (so_header op)"
        using one(7) by metis
      obtain op where op: "op \<in> set new" "so_dot op = d" using new(4) [of d] Some None by auto
      have "vl_header log' d = Some (so_header op)" using new(5) [OF op(1)] op(2) IH by (simp add: keeps_def)
      then have h: "lk_header l = so_header op" using l by (simp add: vl_header_def)
      have "d \<in> set acc'" using IH op by (auto simp: new(1))
      moreover have "op \<in> set served" using op(1) new(2) by blast
      moreover from this have "in_group log x op" using served by blast
      moreover from this have "dot_device d = x" using op(2) by (simp add: in_group_def)
      ultimately show ?thesis
        using extends_from_mem [OF new(3) op(1)] op(2) h
        by (intro disjI2) (auto simp: accepted_from_def e intro!: bexI [of _ op])
    qed simp
  qed
  ultimately show ?case
    using IH one x keeps_trans [of log log1 log'] by (auto simp: e)
qed simp

end
