(* ===== verification/Vault_Runs.thy ===== *)
theory Vault_Runs
  imports Vault_Steps
begin

text \<open>
  The runs of a vault log: the remaining operations keep the invariant (a whole commit,
  revocations, the own chain and its uploads), the runs of a log as an inductive relation over
  every operation of the module, and the properties of every log a run can reach.
\<close>

section \<open>A whole commit\<close>

lemma check_absorbed_simps:
  assumes "check_absorbed log r = (log', r')"
  shows "log' = log \<lparr> vl_absorbed := bt_empty \<rparr>" "set r \<subseteq> set r'"
  using assms by (auto simp: check_absorbed_def)

lemma log_ok_absorbed [simp]: "log_ok (log \<lparr> vl_absorbed := X \<rparr>) \<longleftrightarrow> log_ok log"
  by (simp add: log_ok_def base_ok_def ok_defs dirty_within_def)

lemma vl_commit_spec:
  assumes ok: "log_ok log" and run: "vl_commit log ops = (log', outcome)"
  shows "log_ok log'" "keeps log log'" "op \<in> set ops \<Longrightarrow> explained log' (set (cm_reports outcome)) op"
    "vl_link log' d = Some l \<Longrightarrow> vl_link log d = None \<Longrightarrow> accepted_from log ops (cm_accepted outcome) d (lk_header l)"
    "vl_head log x \<le> vl_head log' x"
proof -
  obtain g r where grp: "vl_group log ops [] = (g, r)" by fastforce
  obtain log1 acc r1 where fold: "fold commit_device (bt_entries g) (log, [], r) = (log1, acc, r1)"
    by (cases "fold commit_device (bt_entries g) (log, [], r)")
  obtain r2 where chk: "check_absorbed log1 r1 = (log', r2)" and out: "outcome = \<lparr> cm_accepted = acc, cm_reports = r2 \<rparr>"
    using run by (auto simp: vl_commit_def grp fold split: prod.splits)
  note a = check_absorbed_simps [OF chk] and g = vl_group_spec [OF grp]
  have mem: "set served = {op \<in> set ops. in_group log x op}" if "(x, served) \<in> set (bt_entries g)" for x served
    using g(1) [of x] g(3) [OF that] by simp
  have "distinct (map fst (bt_entries g))" by (simp add: ascending_distinct)
  moreover have "\<forall>(x, served) \<in> set (bt_entries g). \<forall>op \<in> set served. in_group log x op" using mem by fastforce
  ultimately have one: "log_ok log1 \<and> keeps log log1 \<and> set r \<subseteq> set r1 \<and>
    (\<forall>(x, served) \<in> set (bt_entries g). \<forall>op \<in> set served. explained log1 (set r1) op) \<and>
    (\<forall>d l. vl_link log1 d = Some l \<longrightarrow> vl_link log d \<noteq> None \<or> accepted_from log (concat (map snd (bt_entries g))) acc d (lk_header l))"
    using fold_commit [OF fold ok] by blast
  show "log_ok log'" using one by (simp add: a(1))
  show keep: "keeps log log'" using one by (auto simp: a(1) keeps_def)
  have sub: "set r1 \<subseteq> set (cm_reports outcome)" using a(2) by (simp add: out)
  show "explained log' (set (cm_reports outcome)) op" if op: "op \<in> set ops"
  proof (cases "in_group log (dot_device (so_dot op)) op")
    case True
    then have "op \<in> set (list_of g (dot_device (so_dot op)))" using g(1) op by simp
    then have "(dot_device (so_dot op), list_of g (dot_device (so_dot op))) \<in> set (bt_entries g)"
      by (cases "bt_get g (dot_device (so_dot op))") (simp_all add: list_of_def bt_entries_iff)
    then have "explained log1 (set r1) op" using one \<open>op \<in> set (list_of g _)\<close> by fastforce
    then show ?thesis by (rule explained_mono) (use sub in \<open>simp_all add: a(1)\<close>)
  next
    case False
    with g(2) [OF op] have "vl_header log (so_dot op) = Some (so_header op) \<or> ForeignVault (so_dot op) \<in> set r \<or>
        Equivocation (so_dot op) \<in> set r \<or> UnknownOwnOp (so_dot op) \<in> set r"
      by (auto simp: group_report_def)
    then show ?thesis using keep one sub by (auto simp: explained_def keeps_def)
  qed
  show "vl_link log' d = Some l \<Longrightarrow> vl_link log d = None \<Longrightarrow> accepted_from log ops (cm_accepted outcome) d (lk_header l)"
  proof -
    assume l: "vl_link log' d = Some l" "vl_link log d = None"
    from l(1) have "vl_link log1 d = Some l" by (simp add: a(1))
    with one l(2) have "accepted_from log (concat (map snd (bt_entries g))) acc d (lk_header l)" by metis
    moreover have "set (concat (map snd (bt_entries g))) \<subseteq> set ops" using mem by fastforce
    ultimately show ?thesis by (auto simp: accepted_from_def out)
  qed
  show "vl_head log x \<le> vl_head log' x"
  proof (cases "vl_head log x = 0")
    case False
    have "chain_linked log" "chain_linked log'" using ok one by (simp_all add: a(1) log_ok_def base_ok_def ok_defs)
    with chain_head [OF this(1) False] obtain e where e: "dot_device e = x" "dot_seq e = vl_head log x" "vl_link log e \<noteq> None"
      by blast
    then have "vl_link log' e \<noteq> None" using keep by (auto simp: keeps_def simp flip: vl_header_None)
    with chain_linkedD(2) [OF \<open>chain_linked log'\<close>, of e] e show ?thesis by auto
  qed simp
qed

section \<open>Revocations\<close>

definition undelivered :: "link \<Rightarrow> bool" where
  "undelivered l \<longleftrightarrow> lk_state l \<noteq> LsDelivered \<and> lk_state l \<noteq> LsRevoked"

definition revoked :: "link \<Rightarrow> link" where
  "revoked l = (if undelivered l then l \<lparr> lk_state := LsRevoked \<rparr> else l)"

lemma revoked_header [simp]: "lk_header (revoked l) = lk_header l"
  by (simp add: revoked_def)

lemma revoked_state: "lk_state (revoked l) = LsDelivered \<or> lk_state (revoked l) = LsRevoked"
  by (simp add: revoked_def undelivered_def)

lemma fold_revoke:
  assumes "fold revoke_link es (links, ready, rej) = (links', ready', rej')" "distinct (map fst es)"
    "\<forall>(sq, l) \<in> set es. bt_get links sq = Some l"
  shows "bt_get links' sq = (if sq \<in> fst ` set es then map_option revoked (bt_get links sq) else bt_get links sq) \<and>
    (in_ready ready' i d \<longleftrightarrow> in_ready ready i d \<and>
       \<not> (\<exists>(sq, l) \<in> set es. undelivered l \<and> i = lk_item l \<and> d = oh_dot (lk_header l))) \<and>
    rej' = rej @ map (\<lambda>(_, l). oh_dot (lk_header l)) (filter (\<lambda>(_, l). undelivered l) es)"
  using assms
proof (induction es arbitrary: links ready rej)
  case (Cons e es)
  obtain k l where e: "e = (k, l)" by (cases e)
  have k: "k \<notin> fst ` set es" "bt_get links k = Some l" using Cons.prems by (auto simp: e)
  show ?case
  proof (cases "undelivered l")
    case True
    then have "revoke_link e (links, ready, rej) =
        (bt_insert k (l \<lparr> lk_state := LsRevoked \<rparr>) links, ready_remove (lk_item l) (oh_dot (lk_header l)) ready,
         rej @ [oh_dot (lk_header l)])"
      by (simp add: revoke_link_def e undelivered_def)
    with Cons.prems(1) have rest: "fold revoke_link es (bt_insert k (l \<lparr> lk_state := LsRevoked \<rparr>) links,
        ready_remove (lk_item l) (oh_dot (lk_header l)) ready, rej @ [oh_dot (lk_header l)]) = (links', ready', rej')" by simp
    have "\<forall>(sq, l') \<in> set es. bt_get (bt_insert k (l \<lparr> lk_state := LsRevoked \<rparr>) links) sq = Some l'"
      using Cons.prems(3) k(1) by (force simp: e)
    from Cons.IH [OF rest _ this] Cons.prems(2) k True show ?thesis
      by (auto simp: e revoked_def)
  next
    case False
    then have "revoke_link e (links, ready, rej) = (links, ready, rej)"
      by (simp add: revoke_link_def e undelivered_def)
    with Cons.prems Cons.IH [of links ready rej] k False show ?thesis
      by (auto simp: e revoked_def)
  qed
qed simp

lemma learn_revocation_effect:
  assumes ok: "log_ok log" and run: "learn_revocation log x lim = (log', rv)"
    and c: "c = (case vl_cutoff log x of None \<Rightarrow> lim | Some c \<Rightarrow> min c lim)"
  shows "vl_cutoffs log' = bt_insert x c (vl_cutoffs log)"
    "vl_link log' d = (if dot_device d = x \<and> c < dot_seq d then map_option revoked (vl_link log d) else vl_link log d)"
    "in_ready (vl_ready log') i d \<longleftrightarrow> in_ready (vl_ready log) i d \<and> \<not> (dot_device d = x \<and> c < dot_seq d)"
    "map_option chain_shape (bt_get (vl_chains log') y) = map_option chain_shape (bt_get (vl_chains log) y)"
    "vl_items log' = vl_items log" "vl_dirty log' = vl_dirty log" "vl_uploads log' = vl_uploads log"
    "vl_own log' = vl_own log" "vl_vault_id log' = vl_vault_id log"
    "d \<in> set (rv_rejected rv) \<longleftrightarrow> dot_device d = x \<and> c < dot_seq d \<and> (\<exists>l. vl_link log d = Some l \<and> undelivered l)"
    "i \<in> set (rv_held_past_cutoff rv) \<longleftrightarrow> c < vv_get (vl_settled log i) x"
proof -
  have base: "base_ok log" using ok by (simp add: log_ok_def)
  note lok = base_okD(1) [OF base]
  have held: "rv_held_past_cutoff rv = map fst (filter (\<lambda>(_, vv). vv_get vv x > c) (bt_entries (vl_items log)))"
    using run by (auto simp: learn_revocation_def Let_def c vl_cutoff_def split: option.splits prod.splits)
  show "i \<in> set (rv_held_past_cutoff rv) \<longleftrightarrow> c < vv_get (vl_settled log i) x"
    by (auto simp: held bt_entries_iff image_iff vl_settled_def Bex_def split: option.splits)
  show "vl_cutoffs log' = bt_insert x c (vl_cutoffs log)" "vl_items log' = vl_items log" "vl_dirty log' = vl_dirty log"
    "vl_uploads log' = vl_uploads log" "vl_own log' = vl_own log" "vl_vault_id log' = vl_vault_id log"
    using run by (auto simp: learn_revocation_def Let_def c vl_cutoff_def split: option.splits prod.splits)
  have "vl_link log' d = (if dot_device d = x \<and> c < dot_seq d then map_option revoked (vl_link log d) else vl_link log d) \<and>
    (in_ready (vl_ready log') i d \<longleftrightarrow> in_ready (vl_ready log) i d \<and> \<not> (dot_device d = x \<and> c < dot_seq d)) \<and>
    map_option chain_shape (bt_get (vl_chains log') y) = map_option chain_shape (bt_get (vl_chains log) y) \<and>
    (d \<in> set (rv_rejected rv) \<longleftrightarrow> dot_device d = x \<and> c < dot_seq d \<and> (\<exists>l. vl_link log d = Some l \<and> undelivered l))"
  proof (cases "bt_get (vl_chains log) x")
    case None
    then have none: "vl_link log d = None" if "dot_device d = x" for d using that by (simp add: vl_link_def link_at_def)
    have "\<not> (in_ready (vl_ready log) i d \<and> dot_device d = x)"
      using ready_okD [OF base_okD(3) [OF base], of i d] none by auto
    moreover have "vl_chains log' = vl_chains log" "vl_ready log' = vl_ready log" "rv_rejected rv = []"
      using run None by (auto simp: learn_revocation_def Let_def)
    ultimately show ?thesis using none by (auto simp: vl_link_def)
  next
    case (Some ch)
    define es where "es = filter (\<lambda>(sq, _). c < sq) (bt_entries (ch_links ch))"
    obtain links ready rej where f: "fold revoke_link es (ch_links ch, vl_ready log, []) = (links, ready, rej)"
      by (cases "fold revoke_link es (ch_links ch, vl_ready log, [])")
    have log': "vl_chains log' = bt_insert x (ch \<lparr> ch_links := links \<rparr>) (vl_chains log)" "vl_ready log' = ready" "rv_rejected rv = rej"
      using run Some f by (auto simp: learn_revocation_def Let_def es_def c vl_cutoff_def split: option.splits)
    have mem: "(sq, l) \<in> set es \<longleftrightarrow> c < sq \<and> bt_get (ch_links ch) sq = Some l" for sq l
      by (auto simp: es_def bt_entries_iff)
    have keys: "sq \<in> fst ` set es \<longleftrightarrow> c < sq \<and> bt_get (ch_links ch) sq \<noteq> None" for sq
      by (simp add: image_iff Bex_def split_paired_Ex mem)
    have "distinct (map fst es)"
      unfolding es_def by (rule distinct_map_filter) (simp add: ascending_distinct)
    moreover have "\<forall>(sq, l) \<in> set es. bt_get (ch_links ch) sq = Some l" using mem by blast
    ultimately have fr: "bt_get links sq = (if sq \<in> fst ` set es then map_option revoked (bt_get (ch_links ch) sq) else bt_get (ch_links ch) sq) \<and>
      (in_ready ready i d \<longleftrightarrow> in_ready (vl_ready log) i d \<and>
         \<not> (\<exists>(sq, l) \<in> set es. undelivered l \<and> i = lk_item l \<and> d = oh_dot (lk_header l))) \<and>
      rej = [] @ map (\<lambda>(_, l). oh_dot (lk_header l)) (filter (\<lambda>(_, l). undelivered l) es)" for sq
      by (rule fold_revoke [OF f])
    have fr: "bt_get links sq = (if sq \<in> fst ` set es then map_option revoked (bt_get (ch_links ch) sq) else bt_get (ch_links ch) sq)"
      "in_ready ready i d \<longleftrightarrow> in_ready (vl_ready log) i d \<and>
         \<not> (\<exists>(sq, l) \<in> set es. undelivered l \<and> i = lk_item l \<and> d = oh_dot (lk_header l))"
      "rej = map (\<lambda>(_, l). oh_dot (lk_header l)) (filter (\<lambda>(_, l). undelivered l) es)" for sq
      using fr [of sq] by simp_all
    have link: "vl_link log d = bt_get (ch_links ch) (dot_seq d)" if "dot_device d = x" for d
      using link_in_chain [of log d ch] Some that by simp
    have one: "vl_link log' d = (if dot_device d = x \<and> c < dot_seq d then map_option revoked (vl_link log d) else vl_link log d)"
    proof (cases "dot_device d = x")
      case True
      then show ?thesis using link by (auto simp: vl_link_def link_at_def log' fr(1) keys)
    qed (simp add: vl_link_def link_at_def log')
    have dot_of: "oh_dot (lk_header l) = d \<longleftrightarrow> dot_device d = x \<and> dot_seq d = sq" if "bt_get (ch_links ch) sq = Some l" for sq l d
      using chain_entry [OF lok Some that] by (auto simp: dot_eq_iff)
    have two: "(\<exists>(sq, l) \<in> set es. undelivered l \<and> d = oh_dot (lk_header l)) \<longleftrightarrow>
        dot_device d = x \<and> c < dot_seq d \<and> (\<exists>l. vl_link log d = Some l \<and> undelivered l)" for d
    proof
      assume "\<exists>(sq, l) \<in> set es. undelivered l \<and> d = oh_dot (lk_header l)"
      then obtain sq l where l: "c < sq" "bt_get (ch_links ch) sq = Some l" "undelivered l" "oh_dot (lk_header l) = d"
        using mem by blast
      then show "dot_device d = x \<and> c < dot_seq d \<and> (\<exists>l. vl_link log d = Some l \<and> undelivered l)"
        using dot_of [OF l(2), of d] link [of d] by simp
    next
      assume d: "dot_device d = x \<and> c < dot_seq d \<and> (\<exists>l. vl_link log d = Some l \<and> undelivered l)"
      then obtain l where l: "vl_link log d = Some l" "undelivered l" by blast
      then have "bt_get (ch_links ch) (dot_seq d) = Some l" using link d by simp
      with d l dot_of [OF this, of d] show "\<exists>(sq, l) \<in> set es. undelivered l \<and> d = oh_dot (lk_header l)"
        by (intro bexI [of _ "(dot_seq d, l)"]) (simp_all add: mem)
    qed
    have "in_ready (vl_ready log) i d \<Longrightarrow> (\<exists>(sq, l) \<in> set es. undelivered l \<and> i = lk_item l \<and> d = oh_dot (lk_header l)) \<longleftrightarrow>
        dot_device d = x \<and> c < dot_seq d"
    proof -
      assume "in_ready (vl_ready log) i d"
      then obtain l where l: "vl_link log d = Some l" "lk_state l = LsReady" "lk_item l = i"
        using ready_okD [OF base_okD(3) [OF base]] by blast
      have dot: "oh_dot (lk_header l) = d" using lok l(1) by (simp add: links_ok_def)
      show ?thesis
      proof
        assume "\<exists>(sq, l) \<in> set es. undelivered l \<and> i = lk_item l \<and> d = oh_dot (lk_header l)"
        then have "\<exists>(sq, l) \<in> set es. undelivered l \<and> d = oh_dot (lk_header l)" by blast
        with two [of d] show "dot_device d = x \<and> c < dot_seq d" by blast
      next
        assume d: "dot_device d = x \<and> c < dot_seq d"
        then have "(dot_seq d, l) \<in> set es" using link l(1) by (simp add: mem)
        with l dot show "\<exists>(sq, l) \<in> set es. undelivered l \<and> i = lk_item l \<and> d = oh_dot (lk_header l)"
          by (intro bexI [of _ "(dot_seq d, l)"]) (simp_all add: undelivered_def)
      qed
    qed
    moreover have "map_option chain_shape (bt_get (vl_chains log') y) = map_option chain_shape (bt_get (vl_chains log) y)"
    proof -
      have "bt_get (ch_links ch) 0 = None" using lok Some by (simp add: links_ok_def no_zero_def)
      then have "bt_get links 0 = bt_get (ch_links ch) 0" by (simp add: fr(1) keys)
      then show ?thesis using Some by (auto simp: log' chain_shape_def)
    qed
    moreover have "d \<in> set rej \<longleftrightarrow> (\<exists>(sq, l) \<in> set es. undelivered l \<and> d = oh_dot (lk_header l))"
      by (auto simp: fr(3))
    ultimately show ?thesis using one two [of d] by (auto simp: log' fr(2))
  qed
  then show "vl_link log' d = (if dot_device d = x \<and> c < dot_seq d then map_option revoked (vl_link log d) else vl_link log d)"
    "in_ready (vl_ready log') i d \<longleftrightarrow> in_ready (vl_ready log) i d \<and> \<not> (dot_device d = x \<and> c < dot_seq d)"
    "map_option chain_shape (bt_get (vl_chains log') y) = map_option chain_shape (bt_get (vl_chains log) y)"
    "d \<in> set (rv_rejected rv) \<longleftrightarrow> dot_device d = x \<and> c < dot_seq d \<and> (\<exists>l. vl_link log d = Some l \<and> undelivered l)"
    by blast+
qed

lemma learn_revocation_ok:
  assumes ok: "log_ok log" and run: "learn_revocation log x lim = (log', rv)"
  shows "log_ok log'"
proof -
  define c where "c = (case vl_cutoff log x of None \<Rightarrow> lim | Some c \<Rightarrow> min c lim)"
  note eff = learn_revocation_effect [OF ok run c_def]
  have base: "base_ok log" using ok by (simp add: log_ok_def)
  let ?mid = "log' \<lparr> vl_cutoffs := vl_cutoffs log \<rparr>"
  have vv: "vl_settled log' i = vl_settled log i" for i by (simp add: vl_settled_def eff(5))
  have "vl_key ?mid d = vl_key log d" for d
    by (simp add: vl_key_def eff(2) option.map_comp comp_def)
  then have same: "same_chains log ?mid"
    by (intro same_chainsI) (simp_all add: eff)
  have mid: "base_ok ?mid"
  proof (rule base_ok_same [OF same base])
    show "ready_ok ?mid"
      unfolding ready_ok_def
    proof (intro allI)
      fix i d
      show "in_ready (vl_ready ?mid) i d \<longleftrightarrow> (\<exists>l. vl_link ?mid d = Some l \<and> lk_state l = LsReady \<and> lk_item l = i)"
        using base_okD(3) [OF base] by (auto simp: eff(2,3) ready_ok_def revoked_def undelivered_def split: if_splits)
    qed
    fix d l l' assume l: "vl_link log d = Some l" "vl_link ?mid d = Some l'" "lk_state l' \<noteq> lk_state l"
    then have "lk_state l' = LsRevoked" "undelivered l"
      by (auto simp: eff(2) revoked_def split: if_splits)
    moreover from this(2) have "dot_device d \<noteq> vl_own log"
      using own_okD [OF base_okD(6) [OF base] l(1)] by (auto simp: undelivered_def)
    ultimately show "(lk_state l' \<in> {LsDelivered, LsBodiless} \<longrightarrow> vv_covers (vl_settled ?mid (lk_item l)) d) \<and>
      (dot_device d = vl_own log \<longrightarrow> lk_state l' = LsDelivered) \<and>
      (past_cutoff (vl_cutoff log (dot_device d)) (dot_seq d) \<longrightarrow> lk_state l' \<in> {LsDelivered, LsRevoked})"
      by simp
  qed (simp_all add: vv eff)
  have "cutoff_ok log'"
    unfolding cutoff_ok_def
  proof (intro allI impI, elim conjE)
    fix d l' assume l': "vl_link log' d = Some l'" "past_cutoff (vl_cutoff log' (dot_device d)) (dot_seq d)"
    show "lk_state l' \<in> {LsDelivered, LsRevoked}"
    proof (cases "dot_device d = x \<and> c < dot_seq d")
      case True
      then obtain l where "l' = revoked l" using l'(1) by (auto simp: eff(2))
      then show ?thesis using revoked_state by simp
    next
      case False
      then have "vl_link log d = Some l'" using l'(1) by (auto simp: eff(2))
      moreover have "dot_device d \<noteq> x" using False l'(2) by (auto simp: vl_cutoff_def eff(1))
      then have "past_cutoff (vl_cutoff log (dot_device d)) (dot_seq d)" using l'(2) by (simp add: vl_cutoff_def eff(1))
      ultimately show ?thesis using cutoff_okD [OF base_okD(7) [OF base]] by blast
    qed
  qed
  with mid have "base_ok log'" by (simp add: base_ok_def ok_defs)
  moreover have "dirty_within {i. bs_contains (vl_dirty log') i} log'"
    using ok by (auto simp: log_ok_def dirty_within_def vv eff)
  ultimately show ?thesis by (simp add: log_ok_def)
qed

section \<open>The own chain\<close>

lemma uploads_change_ok:
  assumes "log_ok log" "uploads_ok (log \<lparr> vl_uploads := u \<rparr>)"
  shows "log_ok (log \<lparr> vl_uploads := u \<rparr>)"
proof -
  have "links_ok (log \<lparr> vl_uploads := u \<rparr>) = links_ok log" "chain_linked (log \<lparr> vl_uploads := u \<rparr>) = chain_linked log"
    "ready_ok (log \<lparr> vl_uploads := u \<rparr>) = ready_ok log" "settled_ok (log \<lparr> vl_uploads := u \<rparr>) = settled_ok log"
    "frontier_ok (log \<lparr> vl_uploads := u \<rparr>) = frontier_ok log" "own_ok (log \<lparr> vl_uploads := u \<rparr>) = own_ok log"
    "cutoff_ok (log \<lparr> vl_uploads := u \<rparr>) = cutoff_ok log" "dirty_within X (log \<lparr> vl_uploads := u \<rparr>) = dirty_within X log" for X
    by (simp_all add: links_ok_def chain_linked_def ready_ok_def settled_ok_def frontier_ok_def own_ok_def cutoff_ok_def dirty_within_def)
  with assms show ?thesis by (simp add: log_ok_def base_ok_def)
qed

lemma uploads_okD:
  assumes "log_ok log"
  shows "bt_get (up_unanswered (vl_uploads log)) sq = Some g \<Longrightarrow> up_acked (vl_uploads log) < sq \<and> own_link log sq \<noteq> None"
    "up_acked (vl_uploads log) \<noteq> 0 \<Longrightarrow> own_link log (up_acked (vl_uploads log)) \<noteq> None"
  using assms by (simp_all add: log_ok_def base_ok_def uploads_ok_def)

lemma observe_generation_ok: "log_ok log \<Longrightarrow> log_ok (observe_generation log g)"
  unfolding observe_generation_def
  by (rule uploads_change_ok) (use uploads_okD [of log] in \<open>auto simp: uploads_ok_def\<close>)

lemma record_sent_ok: "log_ok log \<Longrightarrow> record_sent log sq = Inr log' \<Longrightarrow> log_ok log'"
  using uploads_okD [of log]
  by (auto simp: record_sent_def and_then_Inr ok_or_Inr Let_def uploads_ok_def split: if_splits option.splits
      intro!: uploads_change_ok)

lemma acknowledge_ok: "log_ok log \<Longrightarrow> acknowledge log sq = Inr log' \<Longrightarrow> log_ok log'"
  using uploads_okD [of log]
  by (auto simp: acknowledge_def Let_def uploads_ok_def max_def split: if_splits option.splits
      intro!: uploads_change_ok)

lemma record_answered_ok: "log_ok log \<Longrightarrow> record_answered log sq g = Inr log' \<Longrightarrow> log_ok log'"
  using uploads_okD [of log]
  by (auto simp: record_answered_def Let_def uploads_ok_def split: if_splits intro!: uploads_change_ok)

lemma record_own_op_Inr:
  "record_own_op log h = Inr log' \<longleftrightarrow>
     oh_vault_id h = vl_vault_id log \<and> dot_device (oh_dot h) = vl_own log \<and>
     oh_vault_prev_seq h = vl_head log (vl_own log) \<and> vl_head log (vl_own log) < dot_seq (oh_dot h) \<and>
     vv_le (oh_causal_context h) (vl_settled log (oh_item_id h)) \<and>
     log' = accept_link h LsDelivered
       (log \<lparr> vl_items := bt_insert (oh_item_id h) (vv_add (oh_dot h) (vl_settled log (oh_item_id h))) (vl_items log) \<rparr>)"
  by (auto simp: record_own_op_def and_then_Inr check_own_def own_vault_prev_seq_def Let_def missing_context_None
      vl_settled_iff not_le simp flip: not_None_eq split: if_splits)

lemma record_own_op_ok:
  assumes ok: "log_ok log" and run: "record_own_op log h = Inr log'"
  shows "log_ok log'"
proof -
  note r = run [unfolded record_own_op_Inr]
  let ?log = "log \<lparr> vl_items := bt_insert (oh_item_id h) (vv_add (oh_dot h) (vl_settled log (oh_item_id h))) (vl_items log) \<rparr>"
  have base: "base_ok log" using ok by (simp add: log_ok_def)
  have vv: "vl_settled ?log i = (if i = oh_item_id h then vv_add (oh_dot h) (vl_settled log i) else vl_settled log i)" for i
    by (simp add: vl_settled_iff)
  have "base_ok ?log"
  proof (rule base_ok_same [OF same_chains_refl base])
    show "ready_ok ?log" using base_okD(3) [OF base] by (simp add: ready_ok_def)
    show "vv_le (vl_settled log i) (vl_settled ?log i)" for i by (simp add: vv vv_le_def vv_get_add)
  qed simp_all
  moreover have "dirty_within {i. bs_contains (vl_dirty ?log) i} ?log"
    unfolding dirty_within_def
  proof (intro allI impI, elim conjE)
    fix i d assume d: "in_ready (vl_ready ?log) i d" "vv_covers (vl_settled ?log i) d"
    then obtain l where "vl_link log d = Some l" "lk_state l = LsReady"
      using ready_okD [OF base_okD(3) [OF base]] by fastforce
    then have "dot_device d \<noteq> dot_device (oh_dot h)" using own_okD [OF base_okD(6) [OF base]] r by auto
    with d have "vv_covers (vl_settled log i) d" by (auto simp: vv vv_covers_add split: if_splits)
    with d ok show "i \<in> {i. bs_contains (vl_dirty ?log) i}" by (auto simp: log_ok_def dirty_within_def)
  qed
  ultimately have "log_ok ?log" by (simp add: log_ok_def)
  then have "log_ok (accept_link h LsDelivered ?log)"
    by (rule accept_link_ok) (use r in \<open>simp_all add: vv vv_covers_add\<close>)
  then show ?thesis using r by simp
qed

lemma reissue_own_op_Inr:
  assumes "reissue_own_op log h = Inr log'"
  obtains l u where "vl_link log (oh_dot h) = Some l" "h = (lk_header l) \<lparr> oh_vault_key_epoch := oh_vault_key_epoch h \<rparr>"
    "oh_vault_key_epoch (lk_header l) < oh_vault_key_epoch h" "dot_device (oh_dot h) = vl_own log"
    "\<not> may_have_been_served log (dot_seq (oh_dot h))"
    "u = (vl_uploads log) \<lparr> up_unanswered := bt_remove (dot_seq (oh_dot h)) (up_unanswered (vl_uploads log)) \<rparr>"
    "log' = log \<lparr> vl_chains := set_link (oh_dot h) (l \<lparr> lk_header := h \<rparr>) (vl_chains log), vl_uploads := u \<rparr>"
proof -
  from assms obtain original where own: "own_link log (dot_seq (oh_dot h)) = Some original"
    and dev: "dot_device (oh_dot h) = vl_own log"
    and served: "\<not> may_have_been_served log (dot_seq (oh_dot h))"
    and same: "original \<lparr> oh_vault_key_epoch := oh_vault_key_epoch h \<rparr> = h" "oh_vault_key_epoch original < oh_vault_key_epoch h"
    and log': "log' = log \<lparr> vl_chains := (case vl_link log (oh_dot h) of None \<Rightarrow> vl_chains log
         | Some l \<Rightarrow> set_link (oh_dot h) (l \<lparr> lk_header := h \<rparr>) (vl_chains log)),
         vl_uploads := (vl_uploads log) \<lparr> up_unanswered := bt_remove (dot_seq (oh_dot h)) (up_unanswered (vl_uploads log)) \<rparr> \<rparr>"
    by (auto simp: reissue_own_op_def and_then_Inr ok_or_Inr check_own_def Let_def not_le split: if_splits)
  have "dot_new (vl_own log) (dot_seq (oh_dot h)) = Some (oh_dot h)" by (simp add: dot_new_Some dev)
  with own obtain l where "vl_link log (oh_dot h) = Some l" "lk_header l = original"
    by (auto simp: own_link_def vl_header_def)
  with that [OF this(1)] same served log' dev show ?thesis by auto
qed

lemma reissue_own_op_ok:
  assumes ok: "log_ok log" and run: "reissue_own_op log h = Inr log'"
  shows "log_ok log'"
  using run
proof (rule reissue_own_op_Inr)
  fix l u
  assume l: "vl_link log (oh_dot h) = Some l" "h = (lk_header l) \<lparr> oh_vault_key_epoch := oh_vault_key_epoch h \<rparr>"
    and u: "u = (vl_uploads log) \<lparr> up_unanswered := bt_remove (dot_seq (oh_dot h)) (up_unanswered (vl_uploads log)) \<rparr>"
    and log': "log' = log \<lparr> vl_chains := set_link (oh_dot h) (l \<lparr> lk_header := h \<rparr>) (vl_chains log), vl_uploads := u \<rparr>"
  let ?log = "log \<lparr> vl_chains := set_link (oh_dot h) (l \<lparr> lk_header := h \<rparr>) (vl_chains log) \<rparr>"
  have base: "base_ok log" using ok by (simp add: log_ok_def)
  have key: "header_key (lk_header (l \<lparr> lk_header := h \<rparr>)) = header_key (lk_header l)"
    by (subst l(2)) (simp add: header_key_def)
  have mv: "same_chains log ?log" "vl_link ?log e = (if e = oh_dot h then Some (l \<lparr> lk_header := h \<rparr>) else vl_link log e)" for e
    by (rule move_link [OF l(1) key]; simp)+
  have item: "oh_item_id h = lk_item l" by (subst l(2)) simp
  have "base_ok ?log"
  proof (rule base_ok_same [OF mv(1) base])
    show "ready_ok ?log"
      using base_okD(3) [OF base] l(1) by (auto simp: ready_ok_def mv(2) item)
    fix d l0 l' assume "vl_link log d = Some l0" "vl_link ?log d = Some l'" "lk_state l' \<noteq> lk_state l0"
    then have False using l(1) by (auto simp: mv(2) split: if_splits)
    then show "(lk_state l' \<in> {LsDelivered, LsBodiless} \<longrightarrow> vv_covers (vl_settled ?log (lk_item l0)) d) \<and>
      (dot_device d = vl_own log \<longrightarrow> lk_state l' = LsDelivered) \<and>
      (past_cutoff (vl_cutoff log (dot_device d)) (dot_seq d) \<longrightarrow> lk_state l' \<in> {LsDelivered, LsRevoked})" ..
  qed simp_all
  then have ok1: "log_ok ?log" using ok by (simp add: log_ok_def dirty_within_def)
  have "log_ok (?log \<lparr> vl_uploads := u \<rparr>)"
    by (rule uploads_change_ok [OF ok1]) (use uploads_okD [OF ok1] in \<open>auto simp: uploads_ok_def u\<close>)
  then show ?thesis by (simp add: log')
qed

section \<open>Runs\<close>

text \<open>
  One call of the module, with the deliveries it hands out. The arguments are arbitrary: any
  response, cover, verdict, answer or revocation, honest or not.
\<close>

inductive log_step :: "vault_log \<Rightarrow> delivery list \<Rightarrow> vault_log \<Rightarrow> bool" where
  absorbed: "record_absorbed log plan i taken = (log', recorded) \<Longrightarrow> log_step log [] log'"
| committed: "vl_commit log ops = (log', outcome) \<Longrightarrow> log_step log [] log'"
| verified: "body_verified log d = Inr log' \<Longrightarrow> log_step log [] log'"
| rejected: "body_rejected log d = Inr log' \<Longrightarrow> log_step log [] log'"
| taken: "take_deliveries log = (log', ds) \<Longrightarrow> log_step log ds log'"
| revoked: "learn_revocation log x lim = (log', rv) \<Longrightarrow> log_step log [] log'"
| wrote: "record_own_op log h = Inr log' \<Longrightarrow> log_step log [] log'"
| observed: "log_step log [] (observe_generation log g)"
| sent: "record_sent log sq = Inr log' \<Longrightarrow> log_step log [] log'"
| acked: "acknowledge log sq = Inr log' \<Longrightarrow> log_step log [] log'"
| answered: "record_answered log sq g = Inr log' \<Longrightarrow> log_step log [] log'"
| reissued: "reissue_own_op log h = Inr log' \<Longrightarrow> log_step log [] log'"

inductive log_run :: "vault_log \<Rightarrow> delivery list \<Rightarrow> vault_log \<Rightarrow> bool" where
  run_start: "log_run log [] log"
| run_step: "log_run log ds log1 \<Longrightarrow> log_step log1 new log2 \<Longrightarrow> log_run log (ds @ new) log2"

lemma log_step_ok:
  assumes "log_step log ds log'" "log_ok log"
  shows "log_ok log'"
  using assms
proof (induction rule: log_step.induct)
  case (verified log d log')
  then show ?case by (auto simp: body_verified_Inr intro: move_body_ok)
next
  case (rejected log d log')
  then show ?case by (auto simp: body_rejected_Inr intro: move_body_ok)
qed (auto intro: record_absorbed_ok vl_commit_spec(1) take_deliveries_run(2) learn_revocation_ok record_own_op_ok
    observe_generation_ok record_sent_ok acknowledge_ok record_answered_ok reissue_own_op_ok)

lemma log_run_ok: "log_run log ds log' \<Longrightarrow> log_ok log \<Longrightarrow> log_ok log'"
  by (induction rule: log_run.induct) (auto intro: log_step_ok)

text \<open>What no call takes back: a delivered link stays delivered, and a revoked one revoked.\<close>

definition final_kept :: "vault_log \<Rightarrow> vault_log \<Rightarrow> bool" where
  "final_kept log log' \<longleftrightarrow>
     (\<forall>d l. vl_link log d = Some l \<and> lk_state l \<in> {LsDelivered, LsRevoked} \<longrightarrow>
        (\<exists>l'. vl_link log' d = Some l' \<and> lk_state l' = lk_state l \<and> lk_item l' = lk_item l)) \<and>
     (\<forall>x sq. past_cutoff (vl_cutoff log x) sq \<longrightarrow> past_cutoff (vl_cutoff log' x) sq) \<and>
     vl_own log' = vl_own log \<and> vl_vault_id log' = vl_vault_id log"

lemma final_kept_trans: "final_kept a b \<Longrightarrow> final_kept b c \<Longrightarrow> final_kept a c"
  unfolding final_kept_def by (metis (no_types, lifting))

lemma keeps_final: "keeps log log' \<Longrightarrow> final_kept log log'"
  unfolding keeps_def final_kept_def vl_cutoff_def by metis

lemma uploads_final: "final_kept log (log \<lparr> vl_uploads := u \<rparr>)"
  by (simp add: final_kept_def)

lemma take_final:
  assumes "batch_ok log ds log'"
  shows "final_kept log log'"
  using batch_okD(2,5,7,8,9) [OF assms]
proof -
  note b = batch_okD [OF assms]
  have "lk_state l = LsReady" if "d \<in> dv_dot ` set ds" "vl_link log d = Some l" for d l
    using that b(2) by (fastforce simp: batch_due_def due_after_def in_set_conv_nth)
  then show ?thesis
    by (auto simp: final_kept_def b(5) b(7,8) vl_cutoff_def b(9))
qed

lemma revocation_final_kept:
  assumes "log_ok log" "learn_revocation log x lim = (log', rv)"
  shows "final_kept log log'"
proof -
  note eff = learn_revocation_effect [OF assms refl]
  have "past_cutoff (vl_cutoff log y) sq \<Longrightarrow> past_cutoff (vl_cutoff log' y) sq" for y sq
    by (auto simp: vl_cutoff_def eff(1) past_cutoff_def min_less_iff_disj split: option.splits if_splits)
  then show ?thesis
    by (auto simp: final_kept_def eff(2,8,9) revoked_def undelivered_def)
qed

lemma log_step_final:
  assumes "log_step log ds log'" "log_ok log"
  shows "final_kept log log'"
  using assms
proof (induction rule: log_step.induct)
  case (absorbed log plan i taken log' recorded)
  then show ?case using record_absorbed_effect [OF absorbed(1)] by (simp add: final_kept_def vl_cutoff_def)
next
  case (verified log d log')
  then show ?case by (auto simp: body_verified_Inr intro!: keeps_final move_body_keeps)
next
  case (rejected log d log')
  then show ?case by (auto simp: body_rejected_Inr intro!: keeps_final move_body_keeps)
next
  case (wrote log h log')
  note r = wrote(1) [unfolded record_own_op_Inr]
  have "dot_seq d \<le> vl_head log (vl_own log)" if "vl_link log d = Some l" "dot_device d = vl_own log" for d l
    using chain_linkedD(2) [of log d l] that wrote(2) by (simp add: log_ok_def base_ok_def)
  then have "vl_link log (oh_dot h) = None"
    using r by (cases "vl_link log (oh_dot h)") (auto simp: not_le [symmetric])
  then show ?case using r by (auto simp: final_kept_def accept_link_effect vl_cutoff_def)
next
  case (reissued log h log')
  from reissued(1) show ?case
  proof (rule reissue_own_op_Inr)
    fix l u
    assume l: "vl_link log (oh_dot h) = Some l" "h = (lk_header l) \<lparr> oh_vault_key_epoch := oh_vault_key_epoch h \<rparr>"
      and log': "log' = log \<lparr> vl_chains := set_link (oh_dot h) (l \<lparr> lk_header := h \<rparr>) (vl_chains log), vl_uploads := u \<rparr>"
    have "oh_item_id h = lk_item l" by (subst l(2)) simp
    then show ?thesis using l(1) by (auto simp: final_kept_def log' vl_link_def)
  qed
next
  case (observed log g)
  then show ?case by (simp add: observe_generation_def uploads_final)
next
  case (sent log sq log')
  then show ?case
    by (auto simp: record_sent_def and_then_Inr Let_def uploads_final final_kept_def split: if_splits)
next
  case (acked log sq log')
  then show ?case by (auto simp: acknowledge_def Let_def uploads_final split: if_splits)
next
  case (answered log sq g log')
  then show ?case by (auto simp: record_answered_def Let_def final_kept_def split: if_splits)
qed (auto intro: keeps_final vl_commit_spec(2) take_final take_deliveries_run(1) revocation_final_kept)

lemma log_run_final:
  assumes "log_run log ds log'" "log_ok log"
  shows "final_kept log log'"
  using assms
proof (induction rule: log_run.induct)
  case (run_start log)
  then show ?case by (simp add: final_kept_def)
next
  case (run_step log ds log1 new log2)
  then show ?case using log_step_final log_run_ok final_kept_trans by blast
qed

text \<open>The deliveries of a step: each is a ready link of the log before it, made delivered.\<close>

lemma log_step_deliveries:
  assumes "log_step log ds log'" "log_ok log"
  shows "distinct (map dv_dot ds)"
    "dv \<in> set ds \<Longrightarrow> \<exists>l. vl_link log (dv_dot dv) = Some l \<and> lk_state l = LsReady \<and> lk_item l = dv_item_id dv"
    "dv \<in> set ds \<Longrightarrow> \<exists>l. vl_link log' (dv_dot dv) = Some l \<and> lk_state l = LsDelivered \<and> lk_item l = dv_item_id dv"
proof -
  have "distinct (map dv_dot ds) \<and> (\<forall>dv \<in> set ds.
      (\<exists>l. vl_link log (dv_dot dv) = Some l \<and> lk_state l = LsReady \<and> lk_item l = dv_item_id dv) \<and>
      (\<exists>l. vl_link log' (dv_dot dv) = Some l \<and> lk_state l = LsDelivered \<and> lk_item l = dv_item_id dv))"
    using assms
  proof (cases rule: log_step.cases)
    case taken
    note b = batch_okD [OF take_deliveries_run(1) [OF assms(2) taken]]
    have "\<exists>l. vl_link log (dv_dot dv) = Some l \<and> lk_state l = LsReady \<and> lk_item l = dv_item_id dv" if "dv \<in> set ds" for dv
      using that b(2) by (fastforce simp: batch_due_def due_after_def in_set_conv_nth)
    then show ?thesis using b(3) by (fastforce simp: b(5))
  qed simp_all
  then show "distinct (map dv_dot ds)"
    "dv \<in> set ds \<Longrightarrow> \<exists>l. vl_link log (dv_dot dv) = Some l \<and> lk_state l = LsReady \<and> lk_item l = dv_item_id dv"
    "dv \<in> set ds \<Longrightarrow> \<exists>l. vl_link log' (dv_dot dv) = Some l \<and> lk_state l = LsDelivered \<and> lk_item l = dv_item_id dv"
    by blast+
qed

lemma log_run_deliveries:
  assumes "log_run log ds log'" "log_ok log"
  shows "distinct (map dv_dot ds) \<and> (\<forall>dv \<in> set ds.
    (\<forall>l. vl_link log (dv_dot dv) = Some l \<longrightarrow> lk_state l \<notin> {LsDelivered, LsRevoked}) \<and>
    (\<exists>l. vl_link log' (dv_dot dv) = Some l \<and> lk_state l = LsDelivered \<and> lk_item l = dv_item_id dv) \<and>
    \<not> past_cutoff (vl_cutoff log (dot_device (dv_dot dv))) (dot_seq (dv_dot dv)) \<and>
    dot_device (dv_dot dv) \<noteq> vl_own log)"
  using assms
proof (induction rule: log_run.induct)
  case (run_step log ds log1 new log2)
  have ok1: "log_ok log1" using log_run_ok [OF run_step(1)] run_step.prems by simp
  have base1: "base_ok log1" using ok1 by (simp add: log_ok_def)
  note final1 = log_run_final [OF run_step(1) run_step.prems] and final2 = log_step_final [OF run_step(2) ok1]
  note new = log_step_deliveries [OF run_step(2) ok1]
  have IH: "distinct (map dv_dot ds)"
    "\<And>dv. dv \<in> set ds \<Longrightarrow> (\<forall>l. vl_link log (dv_dot dv) = Some l \<longrightarrow> lk_state l \<notin> {LsDelivered, LsRevoked}) \<and>
      (\<exists>l. vl_link log1 (dv_dot dv) = Some l \<and> lk_state l = LsDelivered \<and> lk_item l = dv_item_id dv) \<and>
      \<not> past_cutoff (vl_cutoff log (dot_device (dv_dot dv))) (dot_seq (dv_dot dv)) \<and> dot_device (dv_dot dv) \<noteq> vl_own log"
    using run_step.IH [OF run_step.prems] by auto
  have disjoint: "dv_dot a \<noteq> dv_dot b" if "a \<in> set ds" "b \<in> set new" for a b
    using IH(2) [OF that(1)] new(2) [OF that(2)] by force
  have old: "\<exists>l. vl_link log2 (dv_dot dv) = Some l \<and> lk_state l = LsDelivered \<and> lk_item l = dv_item_id dv" if "dv \<in> set ds" for dv
    using IH(2) [OF that] final2 unfolding final_kept_def by fastforce
  have fresh: "(\<forall>l. vl_link log (dv_dot dv) = Some l \<longrightarrow> lk_state l \<notin> {LsDelivered, LsRevoked}) \<and>
      \<not> past_cutoff (vl_cutoff log (dot_device (dv_dot dv))) (dot_seq (dv_dot dv)) \<and> dot_device (dv_dot dv) \<noteq> vl_own log"
    if dv: "dv \<in> set new" for dv
  proof -
    obtain l where l: "vl_link log1 (dv_dot dv) = Some l" "lk_state l = LsReady" using new(2) [OF dv] by blast
    have "\<not> past_cutoff (vl_cutoff log1 (dot_device (dv_dot dv))) (dot_seq (dv_dot dv))"
      using cutoff_okD [OF base_okD(7) [OF base1] l(1)] l(2) by auto
    moreover have "dot_device (dv_dot dv) \<noteq> vl_own log1"
      using own_okD [OF base_okD(6) [OF base1] l(1)] l(2) by auto
    ultimately show ?thesis using final1 l unfolding final_kept_def by fastforce
  qed
  have "distinct (map dv_dot (ds @ new))" using IH(1) new(1) disjoint by auto
  then show ?case using IH(2) old fresh new(3) by auto
qed simp

section \<open>A sample run\<close>

text \<open>
  Device 1 fetches vault 7 and is served one op of device 2, on item 9, with an empty causal
  context and a verified body.
\<close>

definition served_header :: op_header where
  "served_header = \<lparr> oh_vault_id = 7, oh_item_id = 9, oh_op_id = 11, oh_dot = Dot 2 (nz_of 1), oh_vault_prev_seq = 0,
     oh_hlc = 5, oh_item_schema_version = isv_v1, oh_vault_key_epoch = 1, oh_causal_context = vv_new \<rparr>"

definition sample_served :: served_op where
  "sample_served = \<lparr> so_header = served_header, so_body = BodyVerified \<rparr>"

definition sample_log :: vault_log where
  "sample_log = accept_link served_header LsReady (vault_log_new 7 1)"

definition sample_delivery :: delivery where
  "sample_delivery = \<lparr> dv_dot = Dot 2 (nz_of 1), dv_item_id = 9, dv_hlc = 5, dv_covered = False \<rparr>"

lemma served_header_simps [simp]:
  "dot_device (Dot 2 (nz_of 1)) = 2" "dot_seq (Dot 2 (nz_of 1)) = 1"
  "oh_dot served_header = Dot 2 (nz_of 1)" "oh_item_id served_header = 9" "oh_vault_id served_header = 7"
  "oh_vault_prev_seq served_header = 0" "oh_causal_context served_header = vv_new" "oh_hlc served_header = 5"
  "so_header sample_served = served_header" "so_body sample_served = BodyVerified"
  by (simp_all add: served_header_def sample_served_def dot_seq_def)

lemma sample_commit:
  "vl_commit (vault_log_new 7 1) [sample_served] = (sample_log, \<lparr> cm_accepted = [Dot 2 (nz_of 1)], cm_reports = [] \<rparr>)"
proof -
  have single: "bt_entries (bt_insert k v bt_empty) = [(k, v)]" for k :: device_id and v :: "served_op list"
    by (simp add: bt_insert.rep_eq bt_empty.rep_eq)
  have "bt_retain_map (\<lambda>_ served. Some (sort_key (\<lambda>op. dot_seq (so_dot op)) served)) (bt_insert 2 [sample_served] bt_empty)
      = bt_insert (2 :: device_id) [sample_served] bt_empty"
    by (rule bt_ext) auto
  then have "vl_group (vault_log_new 7 1) [sample_served] [] = (bt_insert 2 [sample_served] bt_empty, [])"
    by (simp add: vl_group_def group_op_def vault_log_new_def Let_def)
  then show ?thesis
    by (simp add: vl_commit_def single commit_device_def vl_walk_def walk_from.simps(2) vault_log_new_def Let_def
        needs_cover_def check_absorbed_def sample_log_def accept_link_def bt_keys_def bt_empty.rep_eq)
qed

lemma new_log_simps [simp]: "vl_link (vault_log_new v own) d = None" "vl_settled (vault_log_new v own) i = vv_new"
  by (simp_all add: vault_log_new_def vl_link_def link_at_def vl_settled_def)

lemma sample_log_ok: "log_ok sample_log"
  using vl_commit_spec(1) [OF log_new_ok sample_commit] .

lemma sample_links: "vl_link sample_log d = (if d = Dot 2 (nz_of 1) then Some \<lparr> lk_header = served_header, lk_state = LsReady \<rparr> else None)"
  "vl_settled sample_log i = vv_new"
  by (simp_all add: sample_log_def accept_link_effect)

lemma sample_take: "\<exists>log'. take_deliveries sample_log = (log', [sample_delivery])"
proof -
  obtain log' ds where run: "take_deliveries sample_log = (log', ds)" by fastforce
  note t = take_deliveries_run [OF sample_log_ok run]
  have "settles sample_log 9 (Dot 2 (nz_of 1))"
    using settles.fresh [of sample_log "Dot 2 (nz_of 1)" "\<lparr> lk_header = served_header, lk_state = LsReady \<rparr>" "Dot 2 (nz_of 1)"]
    by (auto simp: sample_links)
  from settles_complete [OF t(1,3) this] have "vv_covers (vl_settled log' 9) (Dot 2 (nz_of 1))" .
  then have "ds \<noteq> []" by (auto simp: batch_okD(4) [OF t(1)] sample_links)
  then obtain dv rest where ds: "ds = dv # rest" by (cases ds) auto
  have dots: "d = Dot 2 (nz_of 1)" if "d \<in> dv_dot ` set ds" for d
    using that batch_okD(2) [OF t(1)]
    by (fastforce simp: batch_due_def due_after_def in_set_conv_nth sample_links split: if_splits)
  have "rest = []" using batch_okD(3) [OF t(1)] dots [of "dv_dot dv"] dots [of "dv_dot (hd rest)"] by (cases rest) (auto simp: ds)
  moreover have "dv = sample_delivery"
    using batch_okD(2) [OF t(1)] dots [of "dv_dot dv"]
    by (auto simp: ds batch_due_def due_after_def sample_links sample_delivery_def split: if_splits)
  ultimately show ?thesis using run ds by blast
qed

section \<open>Properties\<close>

text \<open>
  C22: The invariant of the log. After any run of calls, with any responses, covers, verdicts,
  answers and revocations, the links of every device are a prefix of one chain: each is filed
  under its own dot, names the link just before it, and the head is the last. The ready index
  holds exactly the verified, undelivered links; a delivered link, and one accepted without a
  body, is covered by the settled version vector of its item; no link before the frontier is
  unsettled; own links are delivered; and every link past a known cut-off is delivered already or
  revoked.
\<close>

theorem vault_log_invariant:
  assumes "log_run (vault_log_new v own) ds log"
  shows "log_ok log \<and> vl_vault_id log = v \<and> vl_own log = own"
  using log_run_ok [OF assms log_new_ok] log_run_final [OF assms log_new_ok]
  by (simp add: final_kept_def vault_log_new_def)

theorem vault_log_invariant_witness:
  "\<exists>log. log_run (vault_log_new 7 1) [sample_delivery] log \<and> log_ok log \<and> vl_vault_id log = 7 \<and> vl_own log = 1"
proof -
  obtain log' where "take_deliveries sample_log = (log', [sample_delivery])" using sample_take by blast
  then have "log_run (vault_log_new 7 1) (([] @ []) @ [sample_delivery]) log'"
    by (intro run_step [OF run_step [OF run_start committed [OF sample_commit]] taken])
  with vault_log_invariant [of 7 1 "[sample_delivery]" log'] show ?thesis by auto
qed

text \<open>
  C26: The delivery loop ends, on every log, and is bounded by what is ready: the deliveries it
  hands out, together with the ready links and ready bodies it leaves, are at most the ready
  links and bodies it found.
\<close>

theorem take_deliveries_bounded:
  assumes "take_deliveries log = (log', ds)"
  shows "pending_bodies log' + length ds \<le> pending_bodies log"
proof -
  have "pending_bodies log' + length ds \<le> pending_bodies log + length out" if "deliver_loop log out = (log', ds)" for out
    using that
  proof (induction log out rule: deliver_loop.induct)
    case (1 log out)
    obtain log1 ds1 where cov: "deliver_covered (log, out) = (log1, ds1)" by fastforce
    obtain log2 ds2 where step: "deliver_frontiers (log1, ds1) = (log2, ds2)" by fastforce
    have le: "pending_bodies log2 + length ds2 \<le> pending_bodies log + length out"
      using deliver_covered_pending [OF cov] deliver_frontiers_pending [OF step] by simp
    show ?case
    proof (cases "length ds2 = length out")
      case True
      then show ?thesis using "1.prems" le by (simp add: deliver_loop.simps [of log out] cov step)
    next
      case False
      then have "deliver_loop log2 ds2 = (log', ds)" using "1.prems" by (simp add: deliver_loop.simps [of log out] cov step)
      with "1.IH" [OF refl _ False this] cov step le show ?thesis by fastforce
    qed
  qed
  with assms show ?thesis by (simp add: take_deliveries_def) (metis add_0_right list.size(3))
qed

theorem take_deliveries_bounded_witness: "\<exists>log'. pending_bodies log' + 1 \<le> pending_bodies sample_log"
  using sample_take take_deliveries_bounded [of sample_log _ "[sample_delivery]"] by auto

text \<open>
  C19: A batch is exactly what can be settled. For a log that a run reached, the settled version
  vectors after \<open>take_deliveries\<close> are what the inductive specification \<open>settles\<close> derives from the
  log before it, and the batch delivers, once each, exactly the ready links it derives: the
  frontiers, the ready index and the dirty items of the source lose nothing and add nothing, and
  the order in which devices and items are visited does not show in what is delivered.
\<close>

theorem take_deliveries_exact:
  assumes "log_run (vault_log_new v own) h log" "take_deliveries log = (log', ds)"
  shows "(\<forall>i d. vv_covers (vl_settled log' i) d \<longleftrightarrow> settles log i d) \<and> distinct (map dv_dot ds) \<and>
    dv_dot ` set ds = {d. \<exists>l. vl_link log d = Some l \<and> lk_state l = LsReady \<and> settles log (lk_item l) d}"
proof -
  have ok: "log_ok log" using log_run_ok [OF assms(1) log_new_ok] .
  note t = take_deliveries_run [OF ok assms(2)]
  have iff: "vv_covers (vl_settled log' i) d \<longleftrightarrow> settles log i d" for i d
    using settles_sound [OF batch_okD(2) [OF t(1)]] settles_complete [OF t(1,3)] by (auto simp: batch_okD(4) [OF t(1)])
  have "d \<in> dv_dot ` set ds \<longleftrightarrow> (\<exists>l. vl_link log d = Some l \<and> lk_state l = LsReady \<and> settles log (lk_item l) d)" for d
  proof
    assume d: "d \<in> dv_dot ` set ds"
    then obtain l where l: "vl_link log d = Some l" "lk_state l = LsReady"
      using batch_okD(2) [OF t(1)] by (fastforce simp: batch_due_def due_after_def in_set_conv_nth)
    then have "vl_link log' d = Some (delivered l)" using batch_okD(5) [OF t(1), of d] d by simp
    from settled_okD [OF base_okD(4) [OF batch_okD(1) [OF t(1)]] this] l show
      "\<exists>l. vl_link log d = Some l \<and> lk_state l = LsReady \<and> settles log (lk_item l) d" by (auto simp: iff)
  next
    assume "\<exists>l. vl_link log d = Some l \<and> lk_state l = LsReady \<and> settles log (lk_item l) d"
    then obtain l where l: "vl_link log d = Some l" "lk_state l = LsReady" "vv_covers (vl_settled log' (lk_item l)) d"
      using iff by blast
    show "d \<in> dv_dot ` set ds"
    proof (rule ccontr)
      assume "d \<notin> dv_dot ` set ds"
      then have "vl_link log' d = Some l" using batch_okD(5) [OF t(1), of d] l(1) by simp
      with t(3) l(2,3) show False by (auto simp: quiescent_def body_due_def)
    qed
  qed
  then show ?thesis using iff batch_okD(3) [OF t(1)] by blast
qed

theorem take_deliveries_exact_witness:
  "log_run (vault_log_new 7 1) [] sample_log \<and> settles sample_log 9 (Dot 2 (nz_of 1))"
proof -
  have run: "log_run (vault_log_new 7 1) ([] @ []) sample_log"
    by (intro run_step [OF run_start committed [OF sample_commit]])
  obtain log' where t: "take_deliveries sample_log = (log', [sample_delivery])" using sample_take by blast
  have eq: "dv_dot ` set [sample_delivery] = {d. \<exists>l. vl_link sample_log d = Some l \<and> lk_state l = LsReady \<and> settles sample_log (lk_item l) d}"
    using take_deliveries_exact [OF run t] by blast
  have "Dot 2 (nz_of 1) \<in> dv_dot ` set [sample_delivery]" by (simp add: sample_delivery_def)
  then have "\<exists>l. vl_link sample_log (Dot 2 (nz_of 1)) = Some l \<and> lk_state l = LsReady \<and> settles sample_log (lk_item l) (Dot 2 (nz_of 1))"
    unfolding eq by (rule CollectD)
  then have "settles sample_log 9 (Dot 2 (nz_of 1))" by (auto simp: sample_links split: if_splits)
  with run show ?thesis by simp
qed



text \<open>
  C21: Each body is delivered at most once in the life of a log, whatever is served again or
  verified again later, and no op of the own device is ever delivered.
\<close>

theorem delivered_at_most_once:
  assumes "log_run (vault_log_new v own) ds log"
  shows "distinct (map dv_dot ds) \<and> own \<notin> (\<lambda>dv. dot_device (dv_dot dv)) ` set ds \<and>
    dv_dot ` set ds \<subseteq> {d. \<exists>l. vl_link log d = Some l \<and> lk_state l = LsDelivered}"
  using log_run_deliveries [OF assms log_new_ok] by (fastforce simp: vault_log_new_def)

theorem delivered_at_most_once_witness:
  "\<exists>log. log_run (vault_log_new 7 1) [sample_delivery] log \<and> distinct (map dv_dot [sample_delivery])"
proof -
  obtain log' where "take_deliveries sample_log = (log', [sample_delivery])" using sample_take by blast
  then have "log_run (vault_log_new 7 1) (([] @ []) @ [sample_delivery]) log'"
    by (intro run_step [OF run_step [OF run_start committed [OF sample_commit]] taken])
  with delivered_at_most_once [of 7 1 "[sample_delivery]" log'] show ?thesis by auto
qed

text \<open>
  C23: A commit loses nothing silently and accepts nothing past a gap. Headers held before stay,
  heads only move forward, and a new link was served, listed as accepted, extends the chain from
  the old head, is not past a known cut-off, and if it came without a usable body its item's
  settled version vector covers it. Every served op is then held, or reported: as foreign, as an
  equivocation, as an unknown own op, or through a gap at the head its device's chain has reached
  or a cut-off above that head.
\<close>

theorem commit_accounts_for_every_op:
  assumes "log_run (vault_log_new v own) h log" "vl_commit log ops = (log', outcome)"
  shows "(\<forall>d h. vl_header log d = Some h \<longrightarrow> vl_header log' d = Some h) \<and> (\<forall>x. vl_head log x \<le> vl_head log' x) \<and>
    (\<forall>d l. vl_link log' d = Some l \<and> vl_link log d = None \<longrightarrow>
       accepted_from log ops (cm_accepted outcome) d (lk_header l)) \<and>
    (\<forall>op \<in> set ops. explained log' (set (cm_reports outcome)) op) \<and> chain_linked log'"
proof -
  have ok: "log_ok log" using log_run_ok [OF assms(1) log_new_ok] .
  note c = vl_commit_spec [OF ok assms(2)]
  show ?thesis using c(1,2) c(3) c(4) c(5) by (auto simp: keeps_def log_ok_def base_ok_def)
qed

theorem commit_accounts_for_every_op_witness:
  "vl_commit (vault_log_new 7 1) [sample_served] = (sample_log, \<lparr> cm_accepted = [Dot 2 (nz_of 1)], cm_reports = [] \<rparr>) \<and>
   explained sample_log {} sample_served"
  using commit_accounts_for_every_op [OF run_start sample_commit] sample_commit by auto

text \<open>
  C25: A revocation is final. Once a device is revoked with a cut-off, no later call, whatever is
  served, verified or revoked again, delivers an op of that device past the cut-off, and the
  undelivered links past it that the log held are exactly the ones reported as rejected.
\<close>

theorem revocation_is_final:
  assumes "log_run (vault_log_new v own) h log" "learn_revocation log x lim = (log1, rv)" "log_run log1 ds log2"
  shows "(\<forall>dv \<in> set ds. dot_device (dv_dot dv) = x \<longrightarrow> dot_seq (dv_dot dv) \<le> lim) \<and>
    (\<forall>d. d \<in> set (rv_rejected rv) \<longleftrightarrow> dot_device d = x \<and> past_cutoff (vl_cutoff log1 x) (dot_seq d) \<and>
       (\<exists>l. vl_link log d = Some l \<and> lk_state l \<notin> {LsDelivered, LsRevoked}))"
proof -
  have ok: "log_ok log" using log_run_ok [OF assms(1) log_new_ok] .
  note eff = learn_revocation_effect [OF ok assms(2) refl]
  have ok1: "log_ok log1" using learn_revocation_ok [OF ok assms(2)] .
  have cut: "vl_cutoff log1 x = Some (case vl_cutoff log x of None \<Rightarrow> lim | Some c \<Rightarrow> min c lim)"
    by (simp add: vl_cutoff_def eff(1))
  have "dot_seq (dv_dot dv) \<le> lim" if "dv \<in> set ds" "dot_device (dv_dot dv) = x" for dv
    using log_run_deliveries [OF assms(3) ok1] that cut by (auto simp: not_less split: option.splits)
  then show ?thesis by (simp add: eff(10) cut undelivered_def)
qed

theorem revocation_is_final_witness:
  "\<exists>log1 rv. learn_revocation sample_log 2 0 = (log1, rv) \<and> Dot 2 (nz_of 1) \<in> set (rv_rejected rv)"
proof -
  obtain log1 rv where rev: "learn_revocation sample_log 2 0 = (log1, rv)" by fastforce
  have run: "log_run (vault_log_new 7 1) ([] @ []) sample_log"
    by (intro run_step [OF run_start committed [OF sample_commit]])
  have "vl_cutoff log1 2 = Some 0"
    using learn_revocation_effect(1) [OF sample_log_ok rev refl]
    by (simp add: vl_cutoff_def sample_log_def accept_link_effect vault_log_new_def)
  with revocation_is_final [OF run rev run_start] rev show ?thesis by (auto simp: sample_links)
qed

end
