(* ===== verification/Vault_Merge.thy ===== *)
theory Vault_Merge
  imports Vault_Runs Item_Replicas
begin

text \<open>
  The log and the merge together: the client hands the ops of a batch to the merge of their item,
  in the order of the batch. The deliveries of a log are ready for a replica whose covered vector
  is the settled vector of the log, so the merge refuses none of them as not ready, and the two
  vectors stay equal.
\<close>

section \<open>Applying a batch\<close>

fun apply_all :: "item_merge \<Rightarrow> op_input list \<Rightarrow> (merge_error + applied) list \<times> item_merge" where
  "apply_all m [] = ([], m)"
| "apply_all m (op # ops) =
     (let (r, m) = apply_op m op; (rs, m) = apply_all m ops in (r # rs, m))"

lemma apply_all_snoc:
  "apply_all m (ops @ [op]) =
     (let (rs, m) = apply_all m ops; (r, m) = apply_op m op in (rs @ [r], m))"
  by (induction ops arbitrary: m) (simp_all add: Let_def case_prod_beta)

lemma covered_ready:
  assumes "causal_ops U" "replica i U m" "op \<in> U" "vv_covers (st_vv (im_state m)) (op_dot op)"
  shows "vv_le (op_ctx op) (st_vv (im_state m))"
proof -
  obtain S B where m: "replica_ops U m S B" using replica_reached [OF assms(1,2)] by blast
  then have "op \<in> S" using covered_iff [OF assms(1) m] assms(3,4) by simp
  then show ?thesis using replica_opsD(9) [OF m] by blast
qed

text \<open>The bodies the client holds for the deliveries of an item.\<close>

definition holds_bodies :: "vault_log \<Rightarrow> id16 \<Rightarrow> op_input set \<Rightarrow> (dot \<Rightarrow> op_input) \<Rightarrow> delivery list \<Rightarrow> bool" where
  "holds_bodies log i U body ds \<longleftrightarrow> (\<forall>dv \<in> set ds. dv_item_id dv = i \<longrightarrow>
     body (dv_dot dv) \<in> U \<and> vl_header log (dv_dot dv) = Some (oi_header (body (dv_dot dv))) \<and>
     oh_item_schema_version (oi_header (body (dv_dot dv))) = isv_v1)"

definition item_batch :: "id16 \<Rightarrow> (dot \<Rightarrow> op_input) \<Rightarrow> delivery list \<Rightarrow> op_input list" where
  "item_batch i body ds = map (\<lambda>dv. body (dv_dot dv)) (filter (\<lambda>dv. dv_item_id dv = i) ds)"

lemma apply_batch:
  assumes causal: "causal_ops U" and m: "replica i U m" "st_vv (im_state m) = vl_settled log i" and ok: "links_ok log"
    and due: "batch_due log ds" and bodies: "holds_bodies log i U body ds"
  shows "\<exists>rs m'. apply_all m (item_batch i body ds) = (rs, m') \<and> (\<forall>r \<in> set rs. \<not> isl r) \<and> replica i U m' \<and>
    st_vv (im_state m') = settled_after log ds i"
  using due bodies
proof (induction ds rule: rev_induct)
  case Nil
  then show ?case using m by (simp add: item_batch_def)
next
  case (snoc dv ds)
  have "batch_due log ds" and dv: "due_after log ds dv" using snoc.prems(1) by (simp_all add: batch_due_snoc)
  moreover have "holds_bodies log i U body ds" using snoc.prems(2) by (simp add: holds_bodies_def)
  ultimately obtain rs m1 where run: "apply_all m (item_batch i body ds) = (rs, m1)" "\<forall>r \<in> set rs. \<not> isl r" "replica i U m1"
    "st_vv (im_state m1) = settled_after log ds i" using snoc.IH by blast
  show ?case
  proof (cases "dv_item_id dv = i")
    case False
    then show ?thesis using run by (simp add: item_batch_def settled_after_snoc)
  next
    case True
    define op where "op = body (dv_dot dv)"
    have op: "op \<in> U" "vl_header log (dv_dot dv) = Some (oi_header op)" "oh_item_schema_version (oi_header op) = isv_v1"
      using snoc.prems(2) True by (simp_all add: holds_bodies_def op_def)
    obtain l where l: "vl_link log (dv_dot dv) = Some l" "dv_item_id dv = lk_item l"
        "dv_covered dv = vv_covers (settled_after log ds (lk_item l)) (dv_dot dv)"
        "\<not> dv_covered dv \<Longrightarrow> vv_le (oh_causal_context (lk_header l)) (settled_after log ds (lk_item l))"
      using dv by (auto simp: due_after_def)
    have h: "lk_header l = oi_header op" using op(2) l(1) by (simp add: vl_header_def)
    have dot: "op_dot op = dv_dot dv" using ok l(1) h unfolding links_ok_def by metis
    have ctx: "vv_le (op_ctx op) (st_vv (im_state m1))"
      using covered_ready [OF causal run(3) op(1)] l(2-4) True by (cases "dv_covered dv") (auto simp: run(4) dot h)
    have "\<exists>a m'. apply_op m1 op = (Inr a, m') \<and> st_vv (im_state m') = vv_add (op_dot op) (st_vv (im_state m1))"
      by (rule apply_ready [OF causal run(3) op(1) _ op(3) ctx]) (use True l(2) h in simp)
    then obtain a m2 where a: "apply_op m1 op = (Inr a, m2)" "st_vv (im_state m2) = vv_add (op_dot op) (st_vv (im_state m1))"
      by blast
    have "item_batch i body (ds @ [dv]) = item_batch i body ds @ [op]" using True by (simp add: item_batch_def op_def)
    then show ?thesis
      using run a True replica.applied [OF run(3) op(1) a(1)] by (simp add: apply_all_snoc settled_after_snoc dot)
  qed
qed

section \<open>Properties\<close>

text \<open>
  C20: The log feeds the merge. For a log that any run of calls reached, and a replica of an item
  whose covered vector is the item's settled vector, the merge accepts every op of the batch in
  the order of the batch, so none is refused as not ready or for its header; the replica covers
  afterwards exactly what the log has settled. The ops of the item are causal and the client
  holds the body of each delivery under its verified header.
\<close>

theorem batch_feeds_merge:
  assumes "log_run (vault_log_new v own) h log" "take_deliveries log = (log', ds)"
    "causal_ops U" "replica i U m" "st_vv (im_state m) = vl_settled log i" "holds_bodies log i U body ds"
  shows "\<exists>rs m'. apply_all m (item_batch i body ds) = (rs, m') \<and> length rs = length (item_batch i body ds) \<and>
    list_all (\<lambda>r. \<not> isl r) rs \<and> replica i U m' \<and> st_vv (im_state m') = vl_settled log' i"
proof -
  have ok: "log_ok log" using log_run_ok [OF assms(1) log_new_ok] .
  note t = take_deliveries_run [OF ok assms(2)]
  have "links_ok log" using ok by (simp add: log_ok_def base_ok_def)
  with apply_batch [OF assms(3-5) _ batch_okD(2) [OF t(1)] assms(6)] obtain rs m' where
    run: "apply_all m (item_batch i body ds) = (rs, m')" "\<forall>r \<in> set rs. \<not> isl r" "replica i U m'"
      "st_vv (im_state m') = settled_after log ds i" by blast
  have "length (fst (apply_all m ops)) = length ops" for m ops
    by (induction ops arbitrary: m) (simp_all add: Let_def case_prod_beta)
  from this [of m "item_batch i body ds"] run show ?thesis by (simp add: batch_okD(4) [OF t(1)] list_all_iff)
qed

text \<open>The sample delivery, with an op that sets the lifecycle of item 9.\<close>

definition sample_body :: op_input where
  "sample_body = \<lparr> oi_header = served_header, oi_key_id = 3, oi_data = \<lparr> op_lifecycle = Active, op_writes = [] \<rparr> \<rparr>"

theorem batch_feeds_merge_witness:
  "\<exists>log' rs m'. take_deliveries sample_log = (log', [sample_delivery]) \<and>
     apply_all (item_merge_new 9) [sample_body] = (rs, m') \<and> list_all (\<lambda>r. \<not> isl r) rs \<and>
     st_vv (im_state m') = vl_settled log' 9"
proof -
  have run: "log_run (vault_log_new 7 1) ([] @ []) sample_log"
    by (intro run_step [OF run_start committed [OF sample_commit]])
  obtain log' where t: "take_deliveries sample_log = (log', [sample_delivery])" using sample_take by blast
  have causal: "causal_ops {sample_body}"
    by (simp add: causal_ops_def sample_body_def writes_with_lifecycle_def held_def held_op_new_def)
  have vv: "st_vv (im_state (item_merge_new 9)) = vl_settled sample_log 9"
    by (simp add: item_merge_new_def state_default_def sample_links)
  have "holds_bodies sample_log 9 {sample_body} (\<lambda>_. sample_body) [sample_delivery]"
    by (simp add: holds_bodies_def sample_delivery_def vl_header_def sample_links sample_body_def) (simp add: served_header_def)
  from batch_feeds_merge [OF run t causal replica.new vv this] t show ?thesis
    by (auto simp: item_batch_def sample_delivery_def)
qed

end
