(* ===== verification/Vault_Reports.thy ===== *)
theory Vault_Reports
  imports Vault_Runs
begin

text \<open>
  What a vault log tells its client: the Fetch cursor, the waiting ops with their reasons, the
  reports after a complete Fetch and the conditions under which the server is behind, each
  against a specification over the links and the settled version vectors.
\<close>

section \<open>Revoked links are past a cut-off\<close>

definition revoked_past :: "vault_log \<Rightarrow> bool" where
  "revoked_past log \<longleftrightarrow> (\<forall>d l. vl_link log d = Some l \<and> lk_state l = LsRevoked \<longrightarrow>
     past_cutoff (vl_cutoff log (dot_device d)) (dot_seq d))"

lemma take_revokes_none:
  assumes "batch_ok log ds log'"
  shows "revokes_none log log'"
  by (auto simp: revokes_none_def batch_okD(5) [OF assms] split: if_splits)

lemma log_step_revokes_none:
  assumes "log_step log ds log'" "log_ok log" "\<And>x lim rv. learn_revocation log x lim \<noteq> (log', rv)"
  shows "revokes_none log log'"
  using assms
proof (cases rule: log_step.cases)
  case (absorbed plan i taken recorded)
  then show ?thesis using record_absorbed_effect [OF absorbed(2)] by (simp add: revokes_none_def)
next
  case (committed ops outcome)
  then show ?thesis using vl_commit_spec(2) [OF assms(2) committed(2)] by (simp add: keeps_def)
next
  case (verified d)
  then obtain l where "vl_link log d = Some l" "lk_state l = LsWaiting" "log' = move_body d l LsReady log"
    by (auto simp: body_verified_Inr)
  then show ?thesis using move_body_keeps [of log d l LsReady] by (simp add: keeps_def)
next
  case (rejected d)
  then obtain l where "vl_link log d = Some l" "lk_state l = LsWaiting" "log' = move_body d l LsRejected log"
    by (auto simp: body_rejected_Inr)
  then show ?thesis using move_body_keeps [of log d l LsRejected] by (simp add: keeps_def)
next
  case taken
  then show ?thesis using take_revokes_none take_deliveries_run(1) [OF assms(2)] by blast
next
  case (wrote h)
  then show ?thesis by (auto simp: record_own_op_Inr revokes_none_def accept_link_effect split: if_splits)
next
  case (sent sq)
  then show ?thesis by (auto simp: record_sent_def and_then_Inr Let_def revokes_none_def split: if_splits)
next
  case (acked sq)
  then show ?thesis by (auto simp: acknowledge_def Let_def revokes_none_def split: if_splits)
next
  case (answered sq g)
  then show ?thesis by (auto simp: record_answered_def Let_def revokes_none_def split: if_splits)
next
  case (reissued h)
  from reissued(2) show ?thesis
    by (rule reissue_own_op_Inr) (auto simp: revokes_none_def vl_link_def split: if_splits)
qed (auto simp: observe_generation_def revokes_none_def)

lemma log_step_revoked_past:
  assumes step: "log_step log ds log'" and ok: "log_ok log" and past: "revoked_past log"
  shows "revoked_past log'"
proof (cases "\<exists>x lim rv. learn_revocation log x lim = (log', rv)")
  case True
  then obtain x lim rv where r: "learn_revocation log x lim = (log', rv)" by blast
  note eff = learn_revocation_effect [OF ok r refl]
  have mono: "past_cutoff (vl_cutoff log y) sq \<Longrightarrow> past_cutoff (vl_cutoff log' y) sq" for y sq
    using revocation_final_kept [OF ok r] by (auto simp: final_kept_def)
  show ?thesis
    unfolding revoked_past_def
  proof (intro allI impI, elim conjE)
    fix d l assume l: "vl_link log' d = Some l" "lk_state l = LsRevoked"
    show "past_cutoff (vl_cutoff log' (dot_device d)) (dot_seq d)"
    proof (cases "vl_link log d = Some l")
      case True
      then show ?thesis using past l(2) mono by (auto simp: revoked_past_def)
    next
      case False
      then show ?thesis using l(1) by (auto simp: eff(2) vl_cutoff_def eff(1) split: if_splits)
    qed
  qed
next
  case False
  then have "revokes_none log log'" using log_step_revokes_none [OF step ok] by blast
  then show ?thesis
    using past log_step_final [OF step ok] unfolding revoked_past_def revokes_none_def final_kept_def by meson
qed

lemma log_run_revoked_past:
  assumes "log_run log ds log'" "log_ok log" "revoked_past log"
  shows "revoked_past log'"
  using assms by (induction rule: log_run.induct) (auto intro: log_step_revoked_past log_run_ok)

lemma new_revoked_past: "revoked_past (vault_log_new v own)"
  by (simp add: revoked_past_def)

section \<open>The waiting ops\<close>

text \<open>The list \<open>waiting\<close> builds for one chain, as a recursion over its links.\<close>

abbreviation pending :: "settled_vvs \<Rightarrow> link \<Rightarrow> bool" where
  "pending items l \<equiv> \<not> link_settled items l \<and> lk_state l \<noteq> LsRevoked"

definition wait_of :: "settled_vvs \<Rightarrow> dot option \<Rightarrow> link \<Rightarrow> waiting_op list" where
  "wait_of items first l =
     (case wait_reason_of items l first of
        None \<Rightarrow> []
      | Some reason \<Rightarrow> [\<lparr> wt_dot = oh_dot (lk_header l), wt_item_id = lk_item l, wt_reason = reason \<rparr>])"

fun waits_of :: "settled_vvs \<Rightarrow> dot option \<Rightarrow> link list \<Rightarrow> waiting_op list" where
  "waits_of items first [] = []"
| "waits_of items first (l # ls) =
     (if pending items l
      then wait_of items first l @
        waits_of items (case first of None \<Rightarrow> Some (oh_dot (lk_header l)) | Some f \<Rightarrow> Some f) ls
      else waits_of items first ls)"

lemma waiting_fold: "fst (fold (waiting_link items) ls (out, first)) = out @ waits_of items first ls"
  by (induction ls arbitrary: out first) (auto simp: waiting_link_def wait_of_def Let_def split: option.splits)

lemma vl_waiting_eq:
  "vl_waiting log = concat (map (\<lambda>c. waits_of (vl_items log) None (map snd (bt_range_from (ch_frontier c) (ch_links c))))
     (bt_values (vl_chains log)))"
proof -
  have "fold (waiting_chain items) cs out =
      out @ concat (map (\<lambda>c. waits_of items None (map snd (bt_range_from (ch_frontier c) (ch_links c)))) cs)" for items cs out
    by (induction cs arbitrary: out) (simp_all add: waiting_chain_def waiting_fold)
  then show ?thesis by (simp add: vl_waiting_def)
qed

lemma waits_of_Some: "set (waits_of items (Some f) ls) = (\<Union>l \<in> {l \<in> set ls. pending items l}. set (wait_of items (Some f) l))"
  by (induction ls) auto

lemma waits_of_set:
  "distinct ls \<Longrightarrow> set (waits_of items None ls) =
     (\<Union>l \<in> {l \<in> set ls. pending items l}.
        set (wait_of items (case find (pending items) ls of
            None \<Rightarrow> None | Some f \<Rightarrow> if f = l then None else Some (oh_dot (lk_header f))) l))"
proof (induction ls)
  case (Cons l ls)
  show ?case
  proof (cases "pending items l")
    case True
    moreover have "l \<notin> set ls" using Cons.prems by simp
    then have "(\<Union>l' \<in> {l' \<in> set ls. pending items l'}. set (wait_of items (if l = l' then None else Some (oh_dot (lk_header l))) l')) =
        (\<Union>l' \<in> {l' \<in> set ls. pending items l'}. set (wait_of items (Some (oh_dot (lk_header l))) l'))"
      by (intro SUP_cong) auto
    ultimately show ?thesis by (auto simp: waits_of_Some)
  next
    case False
    then show ?thesis using Cons by auto
  qed
qed simp

text \<open>What the log promises of a waiting op, over the links and the settled version vectors.\<close>

definition unsettled :: "vault_log \<Rightarrow> dot \<Rightarrow> link \<Rightarrow> bool" where
  "unsettled log d l \<longleftrightarrow>
     vl_link log d = Some l \<and> lk_state l \<noteq> LsRevoked \<and> \<not> vv_covers (vl_settled log (lk_item l)) d"

definition first_of_chain :: "vault_log \<Rightarrow> dot \<Rightarrow> bool" where
  "first_of_chain log d \<longleftrightarrow>
     (\<forall>e l. unsettled log e l \<and> dot_device e = dot_device d \<longrightarrow> dot_seq d \<le> dot_seq e)"

fun waits_for :: "vault_log \<Rightarrow> dot \<Rightarrow> link \<Rightarrow> wait_reason \<Rightarrow> bool" where
  "waits_for log d l WaitBody \<longleftrightarrow> lk_state l = LsWaiting"
| "waits_for log d l WaitRejected \<longleftrightarrow> lk_state l = LsRejected"
| "waits_for log d l WaitUncovered \<longleftrightarrow> False"
| "waits_for log d l (WaitChain f) \<longleftrightarrow> lk_state l = LsReady \<and> dot_device f = dot_device d \<and> dot_seq f < dot_seq d \<and>
     (\<exists>lf. unsettled log f lf) \<and> first_of_chain log f"
| "waits_for log d l (WaitContext m) \<longleftrightarrow> lk_state l = LsReady \<and> first_of_chain log d \<and>
     m \<in> set (vv_entries (oh_causal_context (lk_header l))) \<and> \<not> vv_covers (vl_settled log (lk_item l)) m"

lemma pending_iff:
  assumes "base_ok log" "vl_link log d = Some l"
  shows "pending (vl_items log) l \<longleftrightarrow> unsettled log d l"
  using settled_iff [OF assms] assms(2) by (auto simp: unsettled_def)

lemma unsettled_state:
  assumes "base_ok log" "unsettled log d l"
  shows "lk_state l \<in> {LsReady, LsWaiting, LsRejected}"
  using assms base_okD(4) [OF assms(1)] by (cases "lk_state l") (auto simp: unsettled_def settled_ok_def)

lemma unsettled_range:
  assumes ok: "base_ok log" and u: "unsettled log d l" and c: "bt_get (vl_chains log) (dot_device d) = Some c"
  shows "(dot_seq d, l) \<in> set (bt_range_from (ch_frontier c) (ch_links c))"
proof -
  have l: "vl_link log d = Some l" using u by (simp add: unsettled_def)
  then have "bt_get (ch_links c) (dot_seq d) = Some l" using link_in_chain [of log d c] c by simp
  moreover have "ch_frontier c \<le> dot_seq d"
    using base_okD(5) [OF ok] u c by (auto simp: frontier_ok_def unsettled_def vl_frontier_def simp flip: not_less)
  ultimately show ?thesis by (simp add: bt_range_from_def bt_entries_iff)
qed

lemma find_map: "find P (map f xs) = map_option f (find (\<lambda>x. P (f x)) xs)"
  by (induction xs) auto

lemma range_entry:
  assumes "links_ok log" "bt_get (vl_chains log) x = Some c" "(sq, l) \<in> set (bt_range_from lo (ch_links c))"
  shows "dot_device (oh_dot (lk_header l)) = x" "dot_seq (oh_dot (lk_header l)) = sq" "vl_link log (oh_dot (lk_header l)) = Some l"
  using chain_entry [OF assms(1,2)] assms(3) by (auto simp: bt_range_from_def bt_entries_iff)

lemma range_links_distinct:
  assumes "links_ok log" "bt_get (vl_chains log) x = Some c"
  shows "distinct (map snd (bt_range_from lo (ch_links c)))"
proof -
  have "distinct (map fst (bt_entries (ch_links c)))" using bt_keys_distinct [of "ch_links c"] by (simp add: bt_keys_def)
  then have "distinct (bt_range_from lo (ch_links c))" by (simp add: bt_range_from_def distinct_map)
  moreover have "inj_on snd (set (bt_range_from lo (ch_links c)))"
    by (rule inj_onI) (metis range_entry(2) [OF assms] prod.collapse)
  ultimately show ?thesis by (simp add: distinct_map)
qed

lemma first_pending:
  assumes ok: "base_ok log" and c: "bt_get (vl_chains log) x = Some c"
    and first: "find (pending (vl_items log)) (map snd (bt_range_from (ch_frontier c) (ch_links c))) = Some f"
  shows "unsettled log (oh_dot (lk_header f)) f" "first_of_chain log (oh_dot (lk_header f))" "dot_device (oh_dot (lk_header f)) = x"
proof -
  obtain sq where found: "find (\<lambda>e. pending (vl_items log) (snd e)) (bt_range_from (ch_frontier c) (ch_links c)) = Some (sq, f)"
    using first by (auto simp: find_map)
  note r = find_range [OF found]
  note e = chain_entry [OF base_okD(1) [OF ok] c r(1)]
  show "unsettled log (oh_dot (lk_header f)) f" using pending_iff [OF ok e(3)] r(3) by simp
  show "dot_device (oh_dot (lk_header f)) = x" by (fact e(1))
  show "first_of_chain log (oh_dot (lk_header f))"
    unfolding first_of_chain_def e(1,2)
  proof (intro allI impI, elim conjE)
    fix d l assume d: "unsettled log d l" "dot_device d = x"
    have "(dot_seq d, l) \<in> set (bt_range_from (ch_frontier c) (ch_links c))"
      using unsettled_range [OF ok d(1)] c d(2) by simp
    then have "bt_get (ch_links c) (dot_seq d) = Some l" "ch_frontier c \<le> dot_seq d"
      by (auto simp: bt_range_from_def bt_entries_iff)
    moreover have "pending (vl_items log) l" using pending_iff [OF ok] d(1) by (auto simp: unsettled_def)
    ultimately show "sq \<le> dot_seq d" using r(4) by (fastforce simp flip: not_less)
  qed
qed

text \<open>The first unsettled link of a device before a dot, as \<open>waiting\<close> hands it to the reason.\<close>

definition blocker :: "vault_log \<Rightarrow> dot \<Rightarrow> dot option \<Rightarrow> bool" where
  "blocker log d first \<longleftrightarrow>
     (case first of
        None \<Rightarrow> first_of_chain log d
      | Some f \<Rightarrow> dot_device f = dot_device d \<and> dot_seq f < dot_seq d \<and> (\<exists>lf. unsettled log f lf) \<and> first_of_chain log f)"

lemma waiting_chain_iff:
  assumes ok: "base_ok log" and c: "bt_get (vl_chains log) x = Some c"
  shows "w \<in> set (waits_of (vl_items log) None (map snd (bt_range_from (ch_frontier c) (ch_links c)))) \<longleftrightarrow>
    (\<exists>d l first. dot_device d = x \<and> unsettled log d l \<and> blocker log d first \<and> w \<in> set (wait_of (vl_items log) first l))"
    (is "?lhs \<longleftrightarrow> ?rhs")
proof -
  let ?ls = "map snd (bt_range_from (ch_frontier c) (ch_links c))"
  let ?first = "\<lambda>l. case find (pending (vl_items log)) ?ls of
      None \<Rightarrow> None | Some f \<Rightarrow> if f = l then None else Some (oh_dot (lk_header f))"
  note set = waits_of_set [OF range_links_distinct [OF base_okD(1) [OF ok] c], of "vl_items log" "ch_frontier c"]
  have mem: "l \<in> set ?ls \<and> pending (vl_items log) l \<longleftrightarrow>
      unsettled log (oh_dot (lk_header l)) l \<and> dot_device (oh_dot (lk_header l)) = x" for l
  proof
    assume "l \<in> set ?ls \<and> pending (vl_items log) l"
    then obtain sq where "(sq, l) \<in> set (bt_range_from (ch_frontier c) (ch_links c))" "pending (vl_items log) l" by auto
    with range_entry [OF base_okD(1) [OF ok] c this(1)] pending_iff [OF ok]
    show "unsettled log (oh_dot (lk_header l)) l \<and> dot_device (oh_dot (lk_header l)) = x" by auto
  next
    assume u: "unsettled log (oh_dot (lk_header l)) l \<and> dot_device (oh_dot (lk_header l)) = x"
    then have "(dot_seq (oh_dot (lk_header l)), l) \<in> set (bt_range_from (ch_frontier c) (ch_links c))"
      using unsettled_range [OF ok] c by simp
    then have "l \<in> set ?ls" by force
    then show "l \<in> set ?ls \<and> pending (vl_items log) l" using u pending_iff [OF ok] by (auto simp: unsettled_def)
  qed
  have own_dot: "oh_dot (lk_header l) = d" if "unsettled log d l" for d l
    using that base_okD(1) [OF ok] by (simp add: unsettled_def links_ok_def)
  have block: "blocker log d first \<longleftrightarrow> first = ?first l" if u: "unsettled log d l" "dot_device d = x" for d l first
  proof -
    have "l \<in> set ?ls" "pending (vl_items log) l" using mem [of l] u own_dot by auto
    then obtain f where f: "find (pending (vl_items log)) ?ls = Some f"
      by (cases "find (pending (vl_items log)) ?ls") (auto simp: find_None_iff)
    note p = first_pending [OF ok c f]
    have le: "dot_seq (oh_dot (lk_header f)) \<le> dot_seq d" using p(2,3) u by (auto simp: first_of_chain_def)
    have only: "g = oh_dot (lk_header f)" if "unsettled log g lg" "first_of_chain log g" "dot_device g = x" for g lg
    proof -
      have "dot_seq g \<le> dot_seq (oh_dot (lk_header f))" using that(2,3) p(1,3) by (simp add: first_of_chain_def) blast
      moreover have "dot_seq (oh_dot (lk_header f)) \<le> dot_seq g" using that(1,3) p(2,3) by (simp add: first_of_chain_def) blast
      ultimately show ?thesis using that(3) p(3) by (simp add: dot_eq_iff)
    qed
    have same: "f = l \<longleftrightarrow> oh_dot (lk_header f) = d" by (metis own_dot [OF u(1)] p(1) u(1) option.inject unsettled_def)
    show ?thesis
    proof (cases "f = l")
      case True
      then have d: "oh_dot (lk_header f) = d" using same by simp
      have "\<not> blocker log d (Some g)" for g using only [of g] d u(2) by (auto simp: blocker_def)
      moreover have "blocker log d None" using p(2) d by (simp add: blocker_def)
      ultimately show ?thesis using f True by (cases first) auto
    next
      case False
      then have lt: "dot_seq (oh_dot (lk_header f)) < dot_seq d"
        using same le p(3) u(2) by (simp add: dot_eq_iff order.order_iff_strict)
      then have "\<not> blocker log d None" using p(1,3) u(2) by (auto simp: blocker_def first_of_chain_def not_le)
      moreover have "blocker log d (Some g) \<longleftrightarrow> g = oh_dot (lk_header f)" for g
        using only [of g] lt p u(2) by (auto simp: blocker_def)
      ultimately show ?thesis using f False by (cases first) auto
    qed
  qed
  show ?thesis
  proof
    assume ?lhs
    then obtain l where "l \<in> set ?ls \<and> pending (vl_items log) l" "w \<in> set (wait_of (vl_items log) (?first l) l)"
      unfolding set by blast
    with mem [of l] block show ?rhs by blast
  next
    assume ?rhs
    then obtain d l first where u: "dot_device d = x" "unsettled log d l" and b: "blocker log d first"
      and w: "w \<in> set (wait_of (vl_items log) first l)" by blast
    then have "l \<in> set ?ls \<and> pending (vl_items log) l" using mem [of l] own_dot [OF u(2)] by simp
    moreover have "w \<in> set (wait_of (vl_items log) (?first l) l)" using block [OF u(2,1)] b w by simp
    ultimately show ?lhs unfolding set by blast
  qed
qed

lemma waiting_iff:
  assumes ok: "base_ok log"
  shows "w \<in> set (vl_waiting log) \<longleftrightarrow>
    (\<exists>d l first. unsettled log d l \<and> blocker log d first \<and> w \<in> set (wait_of (vl_items log) first l))"
proof -
  have "w \<in> set (vl_waiting log) \<longleftrightarrow> (\<exists>x c. bt_get (vl_chains log) x = Some c \<and>
      w \<in> set (waits_of (vl_items log) None (map snd (bt_range_from (ch_frontier c) (ch_links c)))))"
    by (simp add: vl_waiting_eq Bex_def bt_values_iff) blast
  also have "\<dots> \<longleftrightarrow> (\<exists>x c d l first. bt_get (vl_chains log) x = Some c \<and> dot_device d = x \<and> unsettled log d l \<and>
      blocker log d first \<and> w \<in> set (wait_of (vl_items log) first l))"
    using waiting_chain_iff [OF ok] by blast
  also have "\<dots> \<longleftrightarrow> (\<exists>d l first. unsettled log d l \<and> blocker log d first \<and> w \<in> set (wait_of (vl_items log) first l))"
  proof -
    have "\<exists>c. bt_get (vl_chains log) (dot_device d) = Some c" if "unsettled log d l" for d l
      using that by (auto simp: unsettled_def vl_link_def link_at_Some)
    then show ?thesis by blast
  qed
  finally show ?thesis .
qed

lemma blocker_exists:
  assumes ok: "base_ok log" and u: "unsettled log d l"
  shows "\<exists>first. blocker log d first"
proof (cases "first_of_chain log d")
  case True
  then have "blocker log d None" by (simp add: blocker_def)
  then show ?thesis ..
next
  case False
  define S where "S = {sq. \<exists>e l. unsettled log e l \<and> dot_device e = dot_device d \<and> dot_seq e = sq}"
  obtain e0 l0 where e0: "unsettled log e0 l0" "dot_device e0 = dot_device d" "dot_seq e0 < dot_seq d"
    using False by (auto simp: first_of_chain_def not_le)
  have "dot_seq e0 \<in> S" using e0 by (auto simp: S_def)
  have fin: "finite S" by (rule finite_subset [OF subset_UNIV finite])
  have least: "Min S \<in> S" "\<And>sq. sq \<in> S \<Longrightarrow> Min S \<le> sq"
    using Min_in [OF fin] Min_le [OF fin] \<open>dot_seq e0 \<in> S\<close> by blast+
  then obtain e l' where e: "unsettled log e l'" "dot_device e = dot_device d" "dot_seq e = Min S" by (auto simp: S_def)
  have "dot_seq e' \<in> S" if "unsettled log e' l'" "dot_device e' = dot_device d" for e' l' using that by (auto simp: S_def)
  then have "first_of_chain log e" using least(2) e(2,3) by (auto simp: first_of_chain_def)
  moreover have "dot_seq e < dot_seq d" unfolding e(3) by (rule order.strict_trans1 [OF least(2) [OF \<open>dot_seq e0 \<in> S\<close>] e0(3)])
  ultimately have "blocker log d (Some e)" using e by (auto simp: blocker_def)
  then show ?thesis ..
qed

lemma waiting_sound:
  assumes ok: "base_ok log" and w: "w \<in> set (vl_waiting log)"
  shows "\<exists>l. unsettled log (wt_dot w) l \<and> wt_item_id w = lk_item l \<and> waits_for log (wt_dot w) l (wt_reason w)"
proof -
  obtain d l first where u: "unsettled log d l" and b: "blocker log d first"
    and w: "w \<in> set (wait_of (vl_items log) first l)"
    using w waiting_iff [OF ok] by blast
  have d: "oh_dot (lk_header l) = d" using u base_okD(1) [OF ok] by (simp add: unsettled_def links_ok_def)
  obtain r where r: "wait_reason_of (vl_items log) l first = Some r" "w = \<lparr> wt_dot = d, wt_item_id = lk_item l, wt_reason = r \<rparr>"
    using w d by (cases "wait_reason_of (vl_items log) l first") (simp_all add: wait_of_def)
  have "waits_for log d l r"
  proof (cases "lk_state l = LsReady")
    case True
    show ?thesis
    proof (cases first)
      case None
      then obtain m where "r = WaitContext m" "missing_context (vl_items log) (lk_header l) = Some m"
        using r(1) True by (auto simp: wait_reason_of_def)
      moreover from this(2) have "m \<in> set (vv_entries (oh_causal_context (lk_header l)))" "\<not> vv_covers (item_vv (vl_items log) (lk_item l)) m"
        by (auto simp: missing_context_def find_Some_iff item_vv_def split: option.splits)
      ultimately show ?thesis using b None True by (simp add: blocker_def vl_settled_iff)
    next
      case (Some f)
      then show ?thesis using r(1) b True by (auto simp: wait_reason_of_def blocker_def)
    qed
  next
    case False
    then show ?thesis using r(1) unsettled_state [OF ok u] by (auto simp: wait_reason_of_def)
  qed
  then show ?thesis using u r(2) by auto
qed

lemma waiting_complete:
  assumes ok: "base_ok log" and quiet: "quiescent log" and past: "revoked_past log" and u: "unsettled log d l"
  shows "d \<in> wt_dot ` set (vl_waiting log)"
proof -
  obtain first where b: "blocker log d first" using blocker_exists [OF ok u] ..
  have d: "oh_dot (lk_header l) = d" using u base_okD(1) [OF ok] by (simp add: unsettled_def links_ok_def)
  have "wait_reason_of (vl_items log) l first \<noteq> None"
  proof
    assume none: "wait_reason_of (vl_items log) l first = None"
    then have st: "lk_state l = LsReady" "first = None" "missing_context (vl_items log) (lk_header l) = None"
      using unsettled_state [OF ok u] by (auto simp: wait_reason_of_def split: option.splits)
    have ctx: "vv_le (oh_causal_context (lk_header l)) (vl_settled log (lk_item l))"
      using st(3) by (simp add: missing_context_None vl_settled_iff)
    have free: "\<not> past_cutoff (vl_cutoff log (dot_device d)) (dot_seq d)"
      using cutoff_okD [OF base_okD(7) [OF ok], of d l] u st(1) by (auto simp: unsettled_def)
    have "vv_covers (vl_settled log (lk_item l')) e"
      if e: "dot_device e = dot_device d" "dot_seq e < dot_seq d" "vl_link log e = Some l'" for e l'
    proof (rule ccontr)
      assume "\<not> vv_covers (vl_settled log (lk_item l')) e"
      moreover have "lk_state l' \<noteq> LsRevoked"
      proof
        assume "lk_state l' = LsRevoked"
        then have "past_cutoff (vl_cutoff log (dot_device d)) (dot_seq e)"
          using past e(1,3) unfolding revoked_past_def by metis
        with free e(2) show False by (auto simp: past_cutoff_def split: option.splits)
      qed
      ultimately have "unsettled log e l'" using e(3) by (simp add: unsettled_def)
      then show False using b st(2) e(1,2) by (auto simp: blocker_def first_of_chain_def simp flip: not_less)
    qed
    then have "body_due log d l" using ctx by (auto simp: body_due_def)
    then show False using quiet u st(1) by (auto simp: quiescent_def unsettled_def)
  qed
  then obtain r where "wait_reason_of (vl_items log) l first = Some r" by auto
  then have "\<lparr> wt_dot = d, wt_item_id = lk_item l, wt_reason = r \<rparr> \<in> set (wait_of (vl_items log) first l)"
    by (simp add: wait_of_def d)
  then have "\<lparr> wt_dot = d, wt_item_id = lk_item l, wt_reason = r \<rparr> \<in> set (vl_waiting log)"
    using waiting_iff [OF ok] u b by blast
  then show ?thesis by force
qed

section \<open>The Fetch cursor\<close>

lemma vv_get_of_entries:
  assumes "distinct (map fst xs)"
  shows "vv_get (vv_from_iter (List.map_filter (\<lambda>(x, a). dot_new x (f a)) xs)) y =
    (case map_of xs y of None \<Rightarrow> 0 | Some a \<Rightarrow> f a)"
proof -
  have "vv_get (fold vv_add (List.map_filter (\<lambda>(x, a). dot_new x (f a)) xs) v) y =
      max (vv_get v y) (case map_of xs y of None \<Rightarrow> 0 | Some a \<Rightarrow> f a)" for v
    using assms
  proof (induction xs arbitrary: v)
    case (Cons e xs)
    obtain x a where e: "e = (x, a)" by fastforce
    have fresh: "y = x \<Longrightarrow> map_of xs y = None" using Cons.prems e by (force simp: map_of_eq_None_iff)
    show ?case
    proof (cases "dot_new x (f a)")
      case None
      then have "f a = 0" by (simp add: dot_new_def nz_new_def split: if_splits)
      then show ?thesis using None Cons e fresh by (auto simp: List.map_filter_simps)
    next
      case (Some d)
      then have d: "dot_device d = x" "dot_seq d = f a" by (simp_all add: dot_new_Some)
      show ?thesis using Some Cons e fresh d by (auto simp: List.map_filter_simps vv_get_add)
    qed
  qed (simp add: List.map_filter_simps)
  then show ?thesis by (simp add: vv_from_iter_def)
qed

lemma vl_heads_get: "vv_get (vl_heads log) x = vl_head log x"
proof -
  have "distinct (map fst (bt_entries (vl_chains log)))" using bt_keys_distinct [of "vl_chains log"] by (simp add: bt_keys_def)
  from vv_get_of_entries [OF this, of ch_head x] show ?thesis
    by (simp add: vl_heads_def vl_head_def bt_get_map_of)
qed

lemma vl_cursor_get:
  "vv_get (vl_cursor log) x = (case bt_get (vl_chains log) x of None \<Rightarrow> 0 | Some c \<Rightarrow> cursor_entry log c)"
proof -
  have "distinct (map fst (bt_entries (vl_chains log)))" using bt_keys_distinct [of "vl_chains log"] by (simp add: bt_keys_def)
  from vv_get_of_entries [OF this, of "cursor_entry log" x] show ?thesis
    by (simp add: vl_cursor_def bt_get_map_of)
qed

text \<open>A link whose body was rejected after it waited, with no snapshot over it.\<close>

definition refetch :: "vault_log \<Rightarrow> dot \<Rightarrow> link \<Rightarrow> bool" where
  "refetch log d l \<longleftrightarrow> vl_link log d = Some l \<and> lk_state l = LsRejected \<and> \<not> vv_covers (vl_settled log (lk_item l)) d"

lemma cursor_entry_cases:
  assumes ok: "base_ok log" and c: "bt_get (vl_chains log) x = Some c"
  obtains "cursor_entry log c = vl_head log x" "\<And>d l. refetch log d l \<Longrightarrow> dot_device d \<noteq> x"
  | d l where "dot_device d = x" "refetch log d l" "cursor_entry log c = lk_prev l"
      "\<And>e l'. refetch log e l' \<Longrightarrow> dot_device e = x \<Longrightarrow> dot_seq d \<le> dot_seq e"
proof -
  let ?P = "\<lambda>l. lk_state l = LsRejected \<and> \<not> covered (vl_items log) (lk_header l)"
  have in_range: "bt_get (ch_links c) (dot_seq d) = Some l" "ch_frontier c \<le> dot_seq d" "?P l"
    if "refetch log d l" "dot_device d = x" for d l
  proof -
    have l: "vl_link log d = Some l" "unsettled log d l" using that by (auto simp: refetch_def unsettled_def)
    show "bt_get (ch_links c) (dot_seq d) = Some l" "ch_frontier c \<le> dot_seq d"
      using unsettled_range [OF ok l(2)] that(2) c by (auto simp: bt_range_from_def bt_entries_iff)
    have "oh_dot (lk_header l) = d" using l(1) base_okD(1) [OF ok] by (simp add: links_ok_def)
    then show "?P l" using that by (auto simp: refetch_def covered_settled vl_settled_iff)
  qed
  show ?thesis
  proof (cases "find (\<lambda>e. ?P (snd e)) (bt_range_from (ch_frontier c) (ch_links c))")
    case None
    have "dot_device d \<noteq> x" if "refetch log d l" for d l
      using find_range_None [OF None] in_range [OF that] by fastforce
    moreover have "cursor_entry log c = vl_head log x"
      using None c by (simp add: cursor_entry_def find_map vl_head_def)
    ultimately show ?thesis using that(1) by blast
  next
    case (Some e)
    then obtain sq l where f: "find (\<lambda>e. ?P (snd e)) (bt_range_from (ch_frontier c) (ch_links c)) = Some (sq, l)"
      by (cases e) auto
    note r = find_range [OF f]
    note e = chain_entry [OF base_okD(1) [OF ok] c r(1)]
    have "refetch log (oh_dot (lk_header l)) l" using e(3) r(3) by (simp add: refetch_def covered_settled vl_settled_iff)
    moreover have "cursor_entry log c = lk_prev l" using f by (simp add: cursor_entry_def find_map)
    moreover have "dot_seq (oh_dot (lk_header l)) \<le> dot_seq d'" if "refetch log d' l'" "dot_device d' = x" for d' l'
    proof (rule ccontr)
      assume "\<not> ?thesis"
      then have "dot_seq d' < sq" using e(2) by simp
      from r(4) [OF in_range(1,2) [OF that] this] in_range(3) [OF that] show False by simp
    qed
    ultimately show ?thesis using that(2) e(1) by blast
  qed
qed

section \<open>The server behind\<close>

lemma vv_entry_device:
  assumes "vv_get v x \<noteq> 0"
  shows "x \<in> dot_device ` set (vv_entries v)"
proof -
  obtain d where "dot_device d = x" "dot_seq d = vv_get v x"
    using assms by (metis dot.sel(1) dot_seq_def dot.sel(2) nz_get_of)
  then show ?thesis by (force simp: vv_entries_iff)
qed

lemma cap_cutoff_max: "cap_cutoff log x (max a b) = max (cap_cutoff log x a) (cap_cutoff log x b)"
  by (auto simp: cap_cutoff_def max_def min_def split: option.splits)

lemma cap_cutoff_mono: "a \<le> b \<Longrightarrow> cap_cutoff log x a \<le> cap_cutoff log x b"
  by (simp add: cap_cutoff_def min.coboundedI1 split: option.splits)

lemma cap_cutoff_0 [simp]: "cap_cutoff log x 0 = 0"
  by (simp add: cap_cutoff_def split: option.splits)

lemma item_max_le:
  "cap_cutoff log x (case max_opt (map (\<lambda>vv. vv_get vv x) (bt_values (vl_items log))) of None \<Rightarrow> 0 | Some m \<Rightarrow> m) \<le> s \<longleftrightarrow>
     (\<forall>i. cap_cutoff log x (vv_get (vl_settled log i) x) \<le> s)" (is "cap_cutoff log x ?m \<le> s \<longleftrightarrow> _")
proof -
  let ?S = "(\<lambda>vv. vv_get vv x) ` set (bt_values (vl_items log))"
  have m: "?m = (if ?S = {} then 0 else Max ?S)" by (simp add: max_opt_Max)
  have settled: "vv_get (vl_settled log i) x \<in> insert 0 ?S" for i
  proof (cases "bt_get (vl_items log) i")
    case (Some vv)
    then have "vv \<in> set (bt_values (vl_items log))" by (auto simp: bt_values_iff)
    then show ?thesis using Some by (simp add: vl_settled_def)
  qed (simp add: vl_settled_def)
  have S: "\<exists>i. v = vv_get (vl_settled log i) x" if held: "v \<in> ?S" for v
  proof -
    obtain vv i where "bt_get (vl_items log) i = Some vv" "v = vv_get vv x" using held by (auto simp: bt_values_iff)
    then have "v = vv_get (vl_settled log i) x" by (simp add: vl_settled_def)
    then show ?thesis ..
  qed
  have le: "v \<le> ?m" if "v \<in> insert 0 ?S" for v using that by (auto simp: m)
  show ?thesis
  proof
    assume "cap_cutoff log x ?m \<le> s"
    then show "\<forall>i. cap_cutoff log x (vv_get (vl_settled log i) x) \<le> s"
      using cap_cutoff_mono [OF le [OF settled]] order_trans by blast
  next
    assume all: "\<forall>i. cap_cutoff log x (vv_get (vl_settled log i) x) \<le> s"
    show "cap_cutoff log x ?m \<le> s"
    proof (cases "?S = {}")
      case False
      then have "?m \<in> ?S" using Max_in [of ?S] by (simp add: m)
      with S all show ?thesis by metis
    qed (simp add: max_opt_def)
  qed
qed

lemma local_entry_le:
  "local_entry log x \<le> s \<longleftrightarrow>
     cap_cutoff log x (vl_head log x) \<le> s \<and> (\<forall>i. cap_cutoff log x (vv_get (vl_settled log i) x) \<le> s)"
  by (simp add: local_entry_def Let_def cap_cutoff_max item_max_le)

lemma known_devices_set:
  "set (bt_keys (known_devices log)) =
     {x. x \<noteq> vl_own log \<and> (bt_get (vl_chains log) x \<noteq> None \<or>
        (\<exists>vv \<in> set (bt_values (vl_items log)). x \<in> dot_device ` set (vv_entries vv)))}"
  unfolding known_devices_def bs_keys_collect by auto

lemma unknown_device:
  assumes "x \<notin> set (bt_keys (known_devices log))" "x \<noteq> vl_own log"
  shows "vl_head log x = 0" "vv_get (vl_settled log i) x = 0"
proof -
  have out: "bt_get (vl_chains log) x = None" "\<And>vv. vv \<in> set (bt_values (vl_items log)) \<Longrightarrow> x \<notin> dot_device ` set (vv_entries vv)"
    using assms unfolding known_devices_set by blast+
  then show "vl_head log x = 0" by (simp add: vl_head_def)
  show "vv_get (vl_settled log i) x = 0"
  proof (cases "bt_get (vl_items log) i")
    case (Some vv)
    then have "vv \<in> set (bt_values (vl_items log))" by (auto simp: bt_values_iff)
    with out(2) [OF this] vv_entry_device [of vv x] show ?thesis using Some by (auto simp: vl_settled_def)
  qed (simp add: vl_settled_def)
qed

lemma heads_behind:
  "concat (map (\<lambda>x. let server = vv_get hs x; local = local_entry log x
       in if server < local then [BehindHead x server local] else []) (bt_keys (known_devices log))) = [] \<longleftrightarrow>
   (\<forall>x. x = vl_own log \<or> local_entry log x \<le> vv_get hs x)"
proof -
  let ?K = "set (bt_keys (known_devices log))"
  have "local_entry log x \<le> vv_get hs x" if "x \<notin> ?K" "x \<noteq> vl_own log" for x
    using unknown_device [OF that] by (simp add: local_entry_le)
  moreover have "x \<noteq> vl_own log" if "x \<in> ?K" for x
    using that unfolding known_devices_set by blast
  ultimately have "(\<forall>x \<in> ?K. local_entry log x \<le> vv_get hs x) \<longleftrightarrow> (\<forall>x. x = vl_own log \<or> local_entry log x \<le> vv_get hs x)"
    by blast
  moreover have "concat (map (\<lambda>x. let server = vv_get hs x; local = local_entry log x
       in if server < local then [BehindHead x server local] else []) xs) = [] \<longleftrightarrow>
     (\<forall>x \<in> set xs. local_entry log x \<le> vv_get hs x)" for xs
    by (induction xs) (auto simp: Let_def)
  ultimately show ?thesis by blast
qed

section \<open>Properties\<close>

text \<open>
  C27: Every op that waits is listed, with the reason it waits for. After \<open>take_deliveries\<close> on a
  log that any run reached, the dots \<open>waiting\<close> lists are exactly the held links that are neither
  settled nor revoked. A listed body is not verifiable yet, or rejected, or verified: then it
  waits behind the first unsettled link of its chain, or it is that link and its causal context
  names an entry that is not settled. The reason \<open>Uncovered\<close>, which the source keeps for a cover
  that no longer counts, never occurs.
\<close>

theorem waiting_exact:
  assumes "log_run (vault_log_new v own) h log" "take_deliveries log = (log', ds)"
  shows "wt_dot ` set (vl_waiting log') = {d. \<exists>l. unsettled log' d l} \<and>
    (\<forall>w \<in> set (vl_waiting log'). \<exists>l. unsettled log' (wt_dot w) l \<and> wt_item_id w = lk_item l \<and>
       waits_for log' (wt_dot w) l (wt_reason w))"
proof -
  have ok: "log_ok log" using log_run_ok [OF assms(1) log_new_ok] .
  note t = take_deliveries_run [OF ok assms(2)]
  have run: "log_run (vault_log_new v own) (h @ ds) log'" by (intro run_step [OF assms(1) taken [OF assms(2)]])
  have base: "base_ok log'" using t(2) by (simp add: log_ok_def)
  have past: "revoked_past log'" using log_run_revoked_past [OF run log_new_ok new_revoked_past] .
  show ?thesis using waiting_sound [OF base] waiting_complete [OF base t(3) past] by blast
qed

theorem waiting_exact_witness:
  "\<exists>log' ds. take_deliveries sample_log = (log', ds) \<and> wt_dot ` set (vl_waiting log') = {d. \<exists>l. unsettled log' d l}"
proof -
  have run: "log_run (vault_log_new 7 1) ([] @ []) sample_log"
    by (intro run_step [OF run_start committed [OF sample_commit]])
  obtain log' where t: "take_deliveries sample_log = (log', [sample_delivery])" using sample_take by blast
  from waiting_exact [OF run t] t show ?thesis by blast
qed

text \<open>
  The Fetch cursor. For every device the cursor is the head of its chain, unless the chain
  holds a link whose body was rejected and that no snapshot covers; then it is the link just
  before the first of them, so that the server serves it again. It is never above the head.
\<close>

theorem cursor_rule:
  assumes "log_run (vault_log_new v own) h log"
  shows "vv_get (vl_cursor log) x \<le> vl_head log x \<and>
    (vv_get (vl_cursor log) x = vl_head log x \<and> (\<nexists>d l. refetch log d l \<and> dot_device d = x) \<or>
     (\<exists>d l. refetch log d l \<and> dot_device d = x \<and> vv_get (vl_cursor log) x = lk_prev l \<and> lk_prev l < dot_seq d \<and>
        {e. \<exists>l'. refetch log e l' \<and> dot_device e = x \<and> dot_seq e < dot_seq d} = {}))"
proof (cases "bt_get (vl_chains log) x")
  case None
  then have none: "\<nexists>d l. refetch log d l \<and> dot_device d = x" by (auto simp: refetch_def vl_link_def link_at_def)
  have "vv_get (vl_cursor log) x = 0" "vl_head log x = 0" using None by (simp_all add: vl_cursor_get vl_head_def)
  then show ?thesis using none by simp
next
  case (Some c)
  have base: "base_ok log" using log_run_ok [OF assms log_new_ok] by (simp add: log_ok_def)
  show ?thesis
  proof (rule cursor_entry_cases [OF base Some])
    assume "cursor_entry log c = vl_head log x" "\<And>d l. refetch log d l \<Longrightarrow> dot_device d \<noteq> x"
    then show ?thesis using Some by (auto simp: vl_cursor_get)
  next
    fix d l assume d: "dot_device d = x" "refetch log d l" "cursor_entry log c = lk_prev l"
      and least: "\<And>e l'. refetch log e l' \<Longrightarrow> dot_device e = x \<Longrightarrow> dot_seq d \<le> dot_seq e"
    have l: "vl_link log d = Some l" using d(2) by (simp add: refetch_def)
    note cl = chain_linkedD(1,2) [OF base_okD(2) [OF base] l]
    have "\<not> dot_seq e < dot_seq d" if "refetch log e l'" "dot_device e = x" for e l' using least [OF that] by simp
    then have "{e. \<exists>l'. refetch log e l' \<and> dot_device e = x \<and> dot_seq e < dot_seq d} = {}" by blast
    then show ?thesis using cl d Some by (auto simp: vl_cursor_get)
  qed
qed

theorem cursor_rule_witness: "vv_get (vl_cursor sample_log) 2 \<le> vl_head sample_log 2"
proof -
  have run: "log_run (vault_log_new 7 1) ([] @ []) sample_log"
    by (intro run_step [OF run_start committed [OF sample_commit]])
  from cursor_rule [OF run] show ?thesis by blast
qed

text \<open>
  The server is behind exactly when the documented rule says so: the list of conditions is
  empty if and only if the server's state sequence number is not lower, every head is at least
  this device's chain head and every settled version vector's entry, both capped at the known
  cut-off, the own head is at least the highest acknowledged own op, capped likewise, and no
  wrap is missing.
\<close>

theorem server_behind_iff:
  "server_behind log accepted view = [] \<longleftrightarrow>
     accepted \<le> sv_state_seq view \<and> \<not> sv_lacks_wrap view \<and>
     cap_cutoff log (vl_own log) (acknowledged log) \<le> vv_get (sv_heads view) (vl_own log) \<and>
     (\<forall>x. x = vl_own log \<or> cap_cutoff log x (vl_head log x) \<le> vv_get (sv_heads view) x \<and>
        (\<forall>i. cap_cutoff log x (vv_get (vl_settled log i) x) \<le> vv_get (sv_heads view) x))"
  unfolding server_behind_def append_is_Nil_conv heads_behind local_entry_le
  by (auto simp: Let_def not_less)

end
