(* ===== verification/Vault_Uploads.thy ===== *)
theory Vault_Uploads
  imports Vault_Runs
begin

text \<open>
  The own chain along runs of a vault log: what may still change of an op this device wrote, and
  how a stale-epoch rejection splits its ops into those it re-issues and those it can only
  publish again.
\<close>

section \<open>What changes of a held header\<close>

text \<open>A re-issue changes the vault key epoch and nothing else, and only upwards.\<close>

definition reissue_of :: "op_header \<Rightarrow> op_header \<Rightarrow> bool" where
  "reissue_of h h' \<longleftrightarrow> (\<exists>e. h' = h \<lparr> oh_vault_key_epoch := e \<rparr> \<and> oh_vault_key_epoch h \<le> e)"

definition headers_evolve :: "vault_log \<Rightarrow> vault_log \<Rightarrow> bool" where
  "headers_evolve log log' \<longleftrightarrow>
     acknowledged log \<le> acknowledged log' \<and> vl_own log' = vl_own log \<and>
     (\<forall>d h. vl_header log d = Some h \<longrightarrow> (\<exists>h'. vl_header log' d = Some h' \<and> reissue_of h h' \<and>
        (h' = h \<or> dot_device d = vl_own log \<and> acknowledged log < dot_seq d)))"

lemma reissue_of_refl [simp]: "reissue_of h h"
  unfolding reissue_of_def by (rule exI [of _ "oh_vault_key_epoch h"]) simp

lemma reissue_of_trans: "reissue_of a b \<Longrightarrow> reissue_of b c \<Longrightarrow> reissue_of a c"
  by (auto simp: reissue_of_def)

lemma headers_evolve_trans:
  assumes "headers_evolve a b" "headers_evolve b c"
  shows "headers_evolve a c"
  unfolding headers_evolve_def
proof (intro conjI allI impI)
  show "acknowledged a \<le> acknowledged c" "vl_own c = vl_own a" using assms by (auto simp: headers_evolve_def)
  fix d h assume h: "vl_header a d = Some h"
  then obtain h1 where h1: "vl_header b d = Some h1" "reissue_of h h1"
      "h1 = h \<or> dot_device d = vl_own a \<and> acknowledged a < dot_seq d"
    using assms(1) by (auto simp: headers_evolve_def)
  then obtain h2 where h2: "vl_header c d = Some h2" "reissue_of h1 h2"
      "h2 = h1 \<or> dot_device d = vl_own b \<and> acknowledged b < dot_seq d"
    using assms(2) by (auto simp: headers_evolve_def)
  have "h2 = h \<or> dot_device d = vl_own a \<and> acknowledged a < dot_seq d"
    using h1(3) h2(3) assms(1) by (auto simp: headers_evolve_def)
  then show "\<exists>h'. vl_header c d = Some h' \<and> reissue_of h h' \<and> (h' = h \<or> dot_device d = vl_own a \<and> acknowledged a < dot_seq d)"
    using h2(1) reissue_of_trans [OF h1(2) h2(2)] by blast
qed

lemma headers_kept_evolve:
  assumes "\<And>d h. vl_header log d = Some h \<Longrightarrow> vl_header log' d = Some h"
    "vl_own log' = vl_own log" "acknowledged log \<le> acknowledged log'"
  shows "headers_evolve log log'"
  using assms by (simp add: headers_evolve_def)

lemma keeps_evolve: "keeps log log' \<Longrightarrow> headers_evolve log log'"
  by (rule headers_kept_evolve) (simp_all add: keeps_def acknowledged_def)

lemma uploads_evolve: "up_acked (vl_uploads log) \<le> up_acked u \<Longrightarrow> headers_evolve log (log \<lparr> vl_uploads := u \<rparr>)"
  by (rule headers_kept_evolve) (simp_all add: acknowledged_def)

lemma reissue_own_op_evolve:
  assumes "reissue_own_op log h = Inr log'"
  shows "headers_evolve log log'"
  using assms
proof (rule reissue_own_op_Inr)
  fix l u
  assume l: "vl_link log (oh_dot h) = Some l" "h = (lk_header l) \<lparr> oh_vault_key_epoch := oh_vault_key_epoch h \<rparr>"
      "oh_vault_key_epoch (lk_header l) < oh_vault_key_epoch h" "dot_device (oh_dot h) = vl_own log"
      "\<not> may_have_been_served log (dot_seq (oh_dot h))"
    and u: "u = (vl_uploads log) \<lparr> up_unanswered := bt_remove (dot_seq (oh_dot h)) (up_unanswered (vl_uploads log)) \<rparr>"
    and log': "log' = log \<lparr> vl_chains := set_link (oh_dot h) (l \<lparr> lk_header := h \<rparr>) (vl_chains log), vl_uploads := u \<rparr>"
  have hdr: "vl_header log' d = (if d = oh_dot h then Some h else vl_header log d)" for d
    using l(1) by (simp add: log' vl_header_def vl_link_def)
  have "reissue_of (lk_header l) h" unfolding reissue_of_def using l(2,3) by (intro exI [of _ "oh_vault_key_epoch h"]) simp
  moreover have "acknowledged log < dot_seq (oh_dot h)" using l(5) by (simp add: may_have_been_served_def acknowledged_def not_le)
  moreover have "acknowledged log' = acknowledged log" "vl_own log' = vl_own log" by (simp_all add: log' u acknowledged_def)
  moreover have "vl_header log (oh_dot h) = Some (lk_header l)" using l(1) by (simp add: vl_header_def)
  ultimately show ?thesis using l(4) by (auto simp: headers_evolve_def hdr)
qed

lemma log_step_evolve:
  assumes "log_step log ds log'" "log_ok log"
  shows "headers_evolve log log'"
  using assms
proof (induction rule: log_step.induct)
  case (absorbed log plan i taken log' recorded)
  then show ?case using record_absorbed_effect [OF absorbed(1)]
    by (intro headers_kept_evolve) (simp_all add: acknowledged_def vl_header_def)
next
  case (verified log d log')
  then show ?case by (auto simp: body_verified_Inr intro!: keeps_evolve move_body_keeps)
next
  case (rejected log d log')
  then show ?case by (auto simp: body_rejected_Inr intro!: keeps_evolve move_body_keeps)
next
  case (taken log log' ds)
  note b = take_deliveries_run(1) [OF taken(2,1)]
  show ?case by (rule headers_kept_evolve) (simp_all add: batch_header [OF b] acknowledged_def batch_okD [OF b])
next
  case (revoked log x lim log' rv)
  note eff = learn_revocation_effect [OF revoked(2,1) refl]
  show ?case
    by (rule headers_kept_evolve) (auto simp: vl_header_def eff acknowledged_def)
next
  case (wrote log h log')
  note r = wrote(1) [unfolded record_own_op_Inr]
  have "dot_seq d \<le> vl_head log (vl_own log)" if "vl_link log d = Some l" "dot_device d = vl_own log" for d l
    using chain_linkedD(2) [of log d l] that wrote(2) by (simp add: log_ok_def base_ok_def)
  then have "vl_link log (oh_dot h) = None"
    using r by (cases "vl_link log (oh_dot h)") (auto simp: not_le [symmetric])
  then show ?case
    using r by (intro headers_kept_evolve) (auto simp: accept_link_effect vl_header_def acknowledged_def)
next
  case (observed log g)
  then show ?case by (simp add: observe_generation_def uploads_evolve)
next
  case (sent log sq log')
  then show ?case
    by (auto simp: record_sent_def and_then_Inr Let_def uploads_evolve intro: headers_kept_evolve split: if_splits)
next
  case (acked log sq log')
  then show ?case by (auto simp: acknowledge_def Let_def intro!: uploads_evolve split: if_splits)
next
  case (answered log sq g log')
  then show ?case
    by (auto simp: record_answered_def Let_def intro!: uploads_evolve intro: headers_kept_evolve split: if_splits)
qed (auto intro: keeps_evolve vl_commit_spec(2) reissue_own_op_evolve)

lemma log_run_evolve:
  assumes "log_run log ds log'" "log_ok log"
  shows "headers_evolve log log'"
  using assms
proof (induction rule: log_run.induct)
  case (run_start log)
  then show ?case by (intro headers_kept_evolve) auto
next
  case (run_step log ds log1 new log2)
  then show ?case using log_step_evolve log_run_ok headers_evolve_trans by blast
qed

section \<open>The stale plan\<close>

lemma own_link_Some:
  assumes "links_ok log"
  shows "own_link log sq = Some h \<longleftrightarrow> (\<exists>d. dot_device d = vl_own log \<and> dot_seq d = sq \<and> vl_header log d = Some h)"
  by (auto simp: own_link_def bind_eq_Some_conv dot_new_Some)

lemma vl_chain_set:
  assumes "links_ok log"
  shows "h \<in> set (vl_chain log x) \<longleftrightarrow> dot_device (oh_dot h) = x \<and> vl_header log (oh_dot h) = Some h"
proof (cases "bt_get (vl_chains log) x")
  case None
  then show ?thesis by (auto simp: vl_chain_def vl_header_def vl_link_def link_at_def)
next
  case (Some c)
  show ?thesis
  proof
    assume "h \<in> set (vl_chain log x)"
    then obtain sq l where "bt_get (ch_links c) sq = Some l" "h = lk_header l"
      using Some by (auto simp: vl_chain_def bt_values_iff)
    with chain_entry [OF assms Some this(1)] show "dot_device (oh_dot h) = x \<and> vl_header log (oh_dot h) = Some h"
      by (simp add: vl_header_def)
  next
    assume h: "dot_device (oh_dot h) = x \<and> vl_header log (oh_dot h) = Some h"
    then obtain l where l: "vl_link log (oh_dot h) = Some l" "lk_header l = h" by (auto simp: vl_header_def)
    then have "bt_get (ch_links c) (dot_seq (oh_dot h)) = Some l" using link_in_chain [of log "oh_dot h" c] Some h by simp
    then have "l \<in> set (bt_values (ch_links c))" by (auto simp: bt_values_iff)
    then show "h \<in> set (vl_chain log x)" using Some l(2) by (force simp: vl_chain_def)
  qed
qed

lemma stale_fold:
  "fold (stale_plan_step log) hs plan =
     \<lparr> sp_reissue = sp_reissue plan @ map oh_dot (filter (\<lambda>h. \<not> may_have_been_served log (dot_seq (oh_dot h))) hs),
       sp_republish = sp_republish plan @ map oh_dot (filter (\<lambda>h. may_have_been_served log (dot_seq (oh_dot h))) hs) \<rparr>"
  by (induction hs arbitrary: plan) (simp_all add: stale_plan_step_def)

lemma reissue_accepted:
  assumes ok: "links_ok log" and h: "vl_header log d = Some h" "dot_device d = vl_own log"
    and free: "\<not> may_have_been_served log (dot_seq d)" and e: "oh_vault_key_epoch h < e"
  shows "\<exists>log'. reissue_own_op log (h \<lparr> oh_vault_key_epoch := e \<rparr>) = Inr log'"
proof -
  obtain l where "vl_link log d = Some l" "lk_header l = h" using h(1) by (auto simp: vl_header_def)
  then have d: "oh_dot h = d" "oh_vault_id h = vl_vault_id log" using ok by (auto simp: links_ok_def)
  have own: "own_link log (dot_seq d) = Some h" using own_link_Some [OF ok] h by blast
  have acked: "\<not> dot_seq d \<le> up_acked (vl_uploads log)" using free by (simp add: may_have_been_served_def)
  show ?thesis
    using d own acked free e h(2) by (simp add: reissue_own_op_def check_own_def ok_or_def Let_def not_le)
qed

lemma reissue_refused:
  assumes "may_have_been_served log (dot_seq (oh_dot h))"
  shows "isl (reissue_own_op log h)"
  using assms
  by (auto simp: reissue_own_op_def check_own_def ok_or_def Let_def and_then_def split: sum.splits option.splits)

section \<open>Properties\<close>

text \<open>
  C28: What the server acknowledged is fixed. Along any run of calls, the highest acknowledged own
  op only moves up, no held header is dropped, and a header changes only by a re-issue: an own op
  above the highest acknowledged one, in its vault key epoch alone and upwards.
\<close>

theorem acknowledged_ops_fixed:
  assumes "log_run (vault_log_new v own) h log" "log_run log ds log'"
  shows "acknowledged log \<le> acknowledged log' \<and>
    (\<forall>d h. vl_header log d = Some h \<longrightarrow> (\<exists>h'. vl_header log' d = Some h' \<and> reissue_of h h' \<and>
       (h' = h \<or> dot_device d = own \<and> acknowledged log < dot_seq d)))"
proof -
  have "log_ok log" using log_run_ok [OF assms(1) log_new_ok] .
  moreover have "vl_own log = own" using log_run_final [OF assms(1) log_new_ok] by (simp add: final_kept_def vault_log_new_def)
  ultimately show ?thesis using log_run_evolve [OF assms(2)] by (auto simp: headers_evolve_def)
qed

theorem acknowledged_ops_fixed_witness:
  "\<exists>log'. log_run sample_log [sample_delivery] log' \<and> vl_header sample_log (Dot 2 (nz_of 1)) = Some served_header \<and>
     vl_header log' (Dot 2 (nz_of 1)) = Some served_header"
proof -
  have run: "log_run (vault_log_new 7 1) ([] @ []) sample_log"
    by (intro run_step [OF run_start committed [OF sample_commit]])
  obtain log' where "take_deliveries sample_log = (log', [sample_delivery])" using sample_take by blast
  then have run2: "log_run sample_log ([] @ [sample_delivery]) log'" by (intro run_step [OF run_start taken])
  have held: "vl_header sample_log (Dot 2 (nz_of 1)) = Some served_header" by (simp add: vl_header_def sample_links)
  from acknowledged_ops_fixed [OF run run2] held have "vl_header log' (Dot 2 (nz_of 1)) = Some served_header" by fastforce
  with run2 held show ?thesis by auto
qed

text \<open>
  C29: A stale-epoch rejection. The plan is refused exactly when the rejected op is not a held own
  op or is not below the current epoch. Otherwise it lists exactly the own ops from the rejected
  one on whose epoch is stale, each in one of two lists: an op to re-issue is one whose re-issue
  under the current epoch is then accepted; an op to publish again may have been served already,
  and every attempt to re-issue it is refused.
\<close>

theorem stale_plan_splits:
  assumes "log_run (vault_log_new v own) h log"
  shows "case plan_stale log rejected epoch of
      Inl e \<Rightarrow> e = UnknownOwnLink \<and> own_link log rejected = None \<or>
        e = NotStale \<and> (\<exists>h. own_link log rejected = Some h \<and> epoch \<le> oh_vault_key_epoch h)
    | Inr plan \<Rightarrow>
        set (sp_reissue plan) \<union> set (sp_republish plan) =
          {d. \<exists>h. vl_header log d = Some h \<and> dot_device d = vl_own log \<and> rejected \<le> dot_seq d \<and> oh_vault_key_epoch h < epoch} \<and>
        set (sp_reissue plan) \<inter> set (sp_republish plan) = {} \<and>
        (\<forall>d \<in> set (sp_reissue plan). \<exists>log'. reissue_own_op log ((the (vl_header log d)) \<lparr> oh_vault_key_epoch := epoch \<rparr>) = Inr log') \<and>
        (\<forall>h. oh_dot h \<in> set (sp_republish plan) \<longrightarrow> isl (reissue_own_op log h))"
proof (cases "plan_stale log rejected epoch")
  case (Inl e)
  then show ?thesis
    by (cases "own_link log rejected") (auto simp: plan_stale_def ok_or_def split: if_splits)
next
  case (Inr plan)
  have lok: "links_ok log" using log_run_ok [OF assms log_new_ok] by (simp add: log_ok_def base_ok_def)
  define S where "S = filter (\<lambda>h. rejected \<le> dot_seq (oh_dot h) \<and> oh_vault_key_epoch h < epoch) (vl_chain log (vl_own log))"
  have plan: "sp_reissue plan = map oh_dot (filter (\<lambda>h. \<not> may_have_been_served log (dot_seq (oh_dot h))) S)"
    "sp_republish plan = map oh_dot (filter (\<lambda>h. may_have_been_served log (dot_seq (oh_dot h))) S)"
    using Inr by (auto simp: plan_stale_def and_then_Inr ok_or_Inr stale_fold S_def split: if_splits)
  have S: "h \<in> set S \<longleftrightarrow> vl_header log (oh_dot h) = Some h \<and> dot_device (oh_dot h) = vl_own log \<and>
      rejected \<le> dot_seq (oh_dot h) \<and> oh_vault_key_epoch h < epoch" for h
    by (auto simp: S_def vl_chain_set [OF lok])
  have dot: "oh_dot h = d" if "vl_header log d = Some h" for d h
    using that lok by (auto simp: vl_header_def links_ok_def)
  have "set (sp_reissue plan) \<union> set (sp_republish plan) = oh_dot ` set S" by (auto simp: plan)
  also have "\<dots> = {d. \<exists>h. vl_header log d = Some h \<and> dot_device d = vl_own log \<and> rejected \<le> dot_seq d \<and> oh_vault_key_epoch h < epoch}"
    using dot by (force simp: S image_iff)
  finally have union: "set (sp_reissue plan) \<union> set (sp_republish plan) =
      {d. \<exists>h. vl_header log d = Some h \<and> dot_device d = vl_own log \<and> rejected \<le> dot_seq d \<and> oh_vault_key_epoch h < epoch}" .
  have "set (sp_reissue plan) \<inter> set (sp_republish plan) = {}" by (auto simp: plan)
  moreover have "\<exists>log'. reissue_own_op log ((the (vl_header log d)) \<lparr> oh_vault_key_epoch := epoch \<rparr>) = Inr log'"
    if "d \<in> set (sp_reissue plan)" for d
    using that reissue_accepted [OF lok] by (fastforce simp: plan S)
  moreover have "isl (reissue_own_op log h)" if "oh_dot h \<in> set (sp_republish plan)" for h
    using that by (intro reissue_refused) (auto simp: plan)
  ultimately show ?thesis using union Inr by simp
qed

text \<open>The owner of device 2 writes the sample op itself, under epoch 1, and the epoch moves to 2.\<close>

theorem stale_plan_splits_witness:
  "\<exists>log plan. record_own_op (vault_log_new 7 2) served_header = Inr log \<and> plan_stale log 1 2 = Inr plan \<and>
     set (sp_reissue plan) \<union> set (sp_republish plan) =
       {d. \<exists>h. vl_header log d = Some h \<and> dot_device d = vl_own log \<and> 1 \<le> dot_seq d \<and> oh_vault_key_epoch h < 2}"
proof -
  have "missing_context (vl_items (vault_log_new 7 2)) served_header = None" by (simp add: missing_context_None vv_le_def)
  then have "\<exists>log. record_own_op (vault_log_new 7 2) served_header = Inr log"
    by (simp add: record_own_op_def check_own_def own_vault_prev_seq_def vl_head_def vault_log_new_def Let_def)
  then obtain log where log: "record_own_op (vault_log_new 7 2) served_header = Inr log" ..
  have run: "log_run (vault_log_new 7 2) ([] @ []) log" by (intro run_step [OF run_start wrote [OF log]])
  have held: "vl_header log (Dot 2 (nz_of 1)) = Some served_header" "vl_own log = 2"
    using log by (auto simp: record_own_op_Inr accept_link_effect vl_header_def vault_log_new_def)
  have "links_ok log" using log_run_ok [OF run log_new_ok] by (simp add: log_ok_def base_ok_def)
  then have own: "own_link log 1 = Some served_header" using held by (auto simp: own_link_Some intro!: exI [of _ "Dot 2 (nz_of 1)"])
  moreover have "\<not> (2 :: u32) \<le> oh_vault_key_epoch served_header" by (simp add: served_header_def word_le_nat_alt)
  ultimately have "\<exists>plan. plan_stale log 1 2 = Inr plan" by (simp add: plan_stale_def ok_or_def)
  then obtain plan where plan: "plan_stale log 1 2 = Inr plan" ..
  from stale_plan_splits [OF run, of 1 2] log plan show ?thesis by auto
qed

end
