(* ===== verification/Vault_Passes.thy ===== *)
theory Vault_Passes
  imports Vault_Runs
begin

text \<open>
  The two passes of the chain check over one response: \<open>plan_covers\<close> names the covers to absorb
  and the headers that pass, \<open>commit\<close> accepts the headers after the absorptions. When the merge
  takes every planned cover, the second pass accepts exactly what the first one promised.
\<close>

section \<open>Absorbing a plan\<close>

text \<open>The merge accepts a planned cover and takes all of its covered vector.\<close>

definition absorb_cover :: "cover_plan \<Rightarrow> snapshot_header \<Rightarrow> vault_log \<Rightarrow> vault_log" where
  "absorb_cover plan c log = fst (record_absorbed log plan (sh_item_id c) (sh_covered c))"

definition absorb_plan :: "cover_plan \<Rightarrow> snapshot_header list \<Rightarrow> vault_log \<Rightarrow> vault_log" where
  "absorb_plan plan covers log = fold (\<lambda>k. absorb_cover plan (covers ! k)) (cp_absorb plan) log"

lemma absorb_fold:
  "\<exists>items dirty taken. fold (\<lambda>k. absorb_cover plan (covers ! k)) ks log =
     log \<lparr> vl_items := items, vl_dirty := dirty, vl_absorbed := taken \<rparr>"
proof (induction ks arbitrary: log)
  case Nil
  show ?case by (rule exI [of _ "vl_items log"], rule exI [of _ "vl_dirty log"], rule exI [of _ "vl_absorbed log"]) simp
next
  case (Cons k ks)
  obtain items dirty taken where one: "absorb_cover plan (covers ! k) log =
      log \<lparr> vl_items := items, vl_dirty := dirty, vl_absorbed := taken \<rparr>"
    by (auto simp: absorb_cover_def record_absorbed_def Let_def)
  from Cons.IH [of "absorb_cover plan (covers ! k) log"] show ?case by (auto simp: one)
qed

lemma covers_join [simp]: "vv_covers (vv_join a b) d \<longleftrightarrow> vv_covers a d \<or> vv_covers b d"
  by (simp add: vv_covers_def vv_get_join le_max_iff_disj)

lemma covers_meet [simp]: "vv_covers (vv_meet a b) d \<longleftrightarrow> vv_covers a d \<and> vv_covers b d"
  by (simp add: vv_covers_def vv_get_meet)

lemma absorb_fold_covers:
  "vv_covers (vl_settled (fold (\<lambda>k. absorb_cover plan (covers ! k)) ks log) i) d \<longleftrightarrow>
     vv_covers (vl_settled log i) d \<or>
     (\<exists>k \<in> set ks. sh_item_id (covers ! k) = i \<and> vv_covers (sh_covered (covers ! k)) d \<and> vv_covers (cp_cut plan) d)"
proof (induction ks arbitrary: log)
  case (Cons k ks)
  have "vv_covers (vl_settled (absorb_cover plan (covers ! k) log) i) d \<longleftrightarrow> vv_covers (vl_settled log i) d \<or>
      sh_item_id (covers ! k) = i \<and> vv_covers (sh_covered (covers ! k)) d \<and> vv_covers (cp_cut plan) d"
    by (auto simp: absorb_cover_def record_absorbed_def Let_def vl_settled_iff cut_of_def)
  then show ?case using Cons.IH by auto
qed simp

section \<open>What the walk reads\<close>

text \<open>The links a walk accepts, without its reports and the bodies it serves again.\<close>

fun accepts :: "u64 option \<Rightarrow> (op_header \<Rightarrow> bool) \<Rightarrow> u64 \<Rightarrow> served_op list \<Rightarrow> served_op list" where
  "accepts bnd counts prev [] = []"
| "accepts bnd counts prev (op # ops) =
     (if dot_seq (so_dot op) \<le> prev then accepts bnd counts prev ops
      else if past_cutoff bnd (dot_seq (so_dot op)) \<or> oh_vault_prev_seq (so_header op) \<noteq> prev \<or>
        needs_cover (so_body op) \<and> \<not> counts (so_header op) then []
      else op # accepts bnd counts (dot_seq (so_dot op)) ops)"

lemma walk_accepts:
  "wk_accepted (walk_from log x counts prev ops w) = wk_accepted w @ accepts (bt_get (vl_cutoffs log) x) counts prev ops"
proof (induction ops arbitrary: prev w)
  case (Cons op ops)
  then show ?case by (simp add: walk_from.simps(2) Let_def del: not_le)
qed simp

lemma accepts_served: "set (accepts bnd counts prev ops) \<subseteq> set ops"
  by (induction ops arbitrary: prev) auto

text \<open>The second pass counts no header the first one does not, and every header the first accepted.\<close>

lemma accepts_agree:
  assumes "\<And>h. counts' h \<Longrightarrow> counts h"
    "\<And>op. op \<in> set (accepts bnd counts prev ops) \<Longrightarrow> needs_cover (so_body op) \<Longrightarrow> counts' (so_header op)"
  shows "accepts bnd counts' prev ops = accepts bnd counts prev ops"
  using assms(2)
proof (induction ops arbitrary: prev)
  case (Cons op ops)
  show ?case
  proof (cases "dot_seq (so_dot op) \<le> prev")
    case True
    then show ?thesis using Cons.IH [of prev] Cons.prems by simp
  next
    case new: False
    show ?thesis
    proof (cases "past_cutoff bnd (dot_seq (so_dot op)) \<or> oh_vault_prev_seq (so_header op) \<noteq> prev \<or>
        needs_cover (so_body op) \<and> \<not> counts (so_header op)")
      case True
      then show ?thesis using new assms(1) [of "so_header op"] by auto
    next
      case False
      then have eq: "accepts bnd counts prev (op # ops) = op # accepts bnd counts (dot_seq (so_dot op)) ops"
        using new by simp
      then have "needs_cover (so_body op) \<Longrightarrow> counts' (so_header op)" using Cons.prems [of op] by simp
      moreover have "accepts bnd counts' (dot_seq (so_dot op)) ops = accepts bnd counts (dot_seq (so_dot op)) ops"
        by (rule Cons.IH, rule Cons.prems) (simp_all only: eq list.set insert_iff simp_thms)
      ultimately show ?thesis using False new eq by auto
    qed
  qed
qed simp

lemma walk_reserved_served: "set (wk_reserved (walk_from log x counts prev ops w)) \<subseteq> set (wk_reserved w) \<union> set ops"
proof (induction ops arbitrary: prev w)
  case (Cons op ops)
  have "set (wk_reserved (walk_from log x counts p ops w')) \<subseteq> set (wk_reserved w) \<union> set (op # ops)"
    if "set (wk_reserved w') \<subseteq> set (wk_reserved w) \<union> {op}" for p w'
    using Cons.IH [of p w'] that by auto
  then show ?case by (simp add: walk_from.simps(2) Let_def del: Un_insert_right)
qed simp

section \<open>A commit device by device\<close>

text \<open>What a commit of one device leaves alone: the other chains, the settled vectors, the cut-offs.\<close>

definition off_device :: "device_id \<Rightarrow> vault_log \<Rightarrow> vault_log \<Rightarrow> bool" where
  "off_device x log log' \<longleftrightarrow>
     (\<forall>y. y \<noteq> x \<longrightarrow> bt_get (vl_chains log') y = bt_get (vl_chains log) y) \<and>
     vl_items log' = vl_items log \<and> vl_cutoffs log' = vl_cutoffs log"

lemma off_device_refl [simp]: "off_device x log log"
  by (simp add: off_device_def)

lemma off_device_trans: "off_device x a b \<Longrightarrow> off_device x b c \<Longrightarrow> off_device x a c"
  by (simp add: off_device_def)

lemma serve_again_off: "dot_device (so_dot op) = x \<Longrightarrow> off_device x log (fst (serve_again op (log, r)))"
  by (auto simp: serve_again_def Let_def off_device_def set_link_def split: option.splits body_status.splits)

lemma fold_serve_again_off:
  "(\<And>op. op \<in> set ops \<Longrightarrow> dot_device (so_dot op) = x) \<Longrightarrow> off_device x log (fst (fold serve_again ops (log, r)))"
proof (induction ops arbitrary: log r)
  case (Cons op ops)
  obtain log1 r1 where step: "serve_again op (log, r) = (log1, r1)" by fastforce
  have "off_device x log log1" using serve_again_off [of op x log r] Cons.prems [of op] step by simp
  moreover have "off_device x log1 (fst (fold serve_again ops (log1, r1)))" using Cons.IH Cons.prems by simp
  ultimately show ?case using off_device_trans by (simp add: step)
qed simp

lemma fold_accept_off:
  "(\<And>op. op \<in> set ops \<Longrightarrow> dot_device (so_dot op) = x) \<Longrightarrow> off_device x log (fold accept_op ops log)"
proof (induction ops arbitrary: log)
  case (Cons op ops)
  have "off_device x log (accept_op op log)"
    using Cons.prems [of op] by (auto simp: off_device_def accept_link_def Let_def)
  then show ?case using Cons.IH [of "accept_op op log"] Cons.prems off_device_trans by simp
qed simp

abbreviation device_links :: "vault_log \<Rightarrow> (op_header \<Rightarrow> bool) \<Rightarrow> device_id \<times> served_op list \<Rightarrow> served_op list" where
  "device_links log counts g \<equiv>
     accepts (bt_get (vl_cutoffs log) (fst g)) counts (vl_head log (fst g)) (snd g)"

lemma vl_walk_accepts: "wk_accepted (vl_walk log x served counts) = device_links log counts (x, served)"
  by (simp add: vl_walk_def walk_accepts vl_head_def)

lemma commit_device_off:
  assumes step: "commit_device (x, served) (log, accepted, reports) = (log', accepted', reports')"
    and dev: "\<And>op. op \<in> set served \<Longrightarrow> dot_device (so_dot op) = x"
  shows "accepted' = accepted @ map so_dot (device_links log (covered (vl_items log)) (x, served))" "off_device x log log'"
proof -
  define w where "w = vl_walk log x served (covered (vl_items log))"
  obtain log1 r1 where again: "fold serve_again (wk_reserved w) (log, reports @ wk_reports w) = (log1, r1)" by fastforce
  have res: "accepted' = accepted @ map so_dot (wk_accepted w)" "log' = fold accept_op (wk_accepted w) log1"
    using step by (simp_all add: commit_device_def Let_def w_def [symmetric] again)
  have sub: "set (wk_reserved w) \<subseteq> set served"
    unfolding w_def vl_walk_def by (rule order_trans [OF walk_reserved_served]) simp
  have sub2: "set (wk_accepted w) \<subseteq> set served" using accepts_served by (simp add: w_def vl_walk_accepts)
  show "accepted' = accepted @ map so_dot (device_links log (covered (vl_items log)) (x, served))"
    by (simp add: res(1) w_def vl_walk_accepts)
  have "off_device x log log1" using fold_serve_again_off [of "wk_reserved w" x log "reports @ wk_reports w"] sub dev again by fastforce
  moreover have "off_device x log1 log'" unfolding res(2) by (rule fold_accept_off) (use sub2 dev in blast)
  ultimately show "off_device x log log'" by (rule off_device_trans)
qed

lemma fold_commit_accepted:
  assumes "fold commit_device gs (log, accepted, reports) = (log', accepted', reports')" "distinct (map fst gs)"
    "\<And>x served op. (x, served) \<in> set gs \<Longrightarrow> op \<in> set served \<Longrightarrow> dot_device (so_dot op) = x"
  shows "accepted' = accepted @ concat (map (\<lambda>g. map so_dot (device_links log (covered (vl_items log)) g)) gs)"
  using assms
proof (induction gs arbitrary: log accepted reports)
  case (Cons g gs)
  obtain x served where g: "g = (x, served)" by fastforce
  obtain log1 a1 r1 where step: "commit_device (x, served) (log, accepted, reports) = (log1, a1, r1)"
    by (metis prod_cases3)
  have dev: "op \<in> set served \<Longrightarrow> dot_device (so_dot op) = x" for op using Cons.prems(3) [of x served] g by simp
  note c = commit_device_off [OF step dev]
  have "accepted' = a1 @ concat (map (\<lambda>g. map so_dot (device_links log1 (covered (vl_items log1)) g)) gs)"
    by (rule Cons.IH) (use Cons.prems step g in \<open>auto\<close>)
  moreover have "device_links log1 (covered (vl_items log1)) g' = device_links log (covered (vl_items log)) g'" if "g' \<in> set gs" for g'
  proof -
    have "fst g' \<noteq> x" using Cons.prems(2) that g by auto
    then show ?thesis using c(2) by (simp add: off_device_def vl_head_def)
  qed
  ultimately show ?case using c(1) g by (simp cong: map_cong)
qed simp

section \<open>The first pass\<close>

lemma fold_add_covers: "vv_covers (fold (\<lambda>op. vv_add (so_dot op)) ops v) d \<longleftrightarrow> vv_covers v d \<or> (\<exists>op \<in> set ops. dot_device (so_dot op) = dot_device d \<and> dot_seq d \<le> dot_seq (so_dot op))"
  by (induction ops arbitrary: v) (auto simp: vv_covers_add)

lemma fold_plan:
  assumes "fold (plan_device log counts) gs (bodiless, links, bound) = (bodiless', links', bound')"
  shows "links' = links @ concat (map (\<lambda>g. map so_dot (device_links log counts g)) gs)"
    "set bodiless \<subseteq> set bodiless'" "vv_covers bound d \<Longrightarrow> vv_covers bound' d"
    "g \<in> set gs \<Longrightarrow> op \<in> set (device_links log counts g) \<Longrightarrow> vv_covers bound' (so_dot op)"
    "g \<in> set gs \<Longrightarrow> op \<in> set (device_links log counts g) \<Longrightarrow> needs_cover (so_body op) \<Longrightarrow> so_header op \<in> set bodiless'"
proof -
  have "links' = links @ concat (map (\<lambda>g. map so_dot (device_links log counts g)) gs) \<and> set bodiless \<subseteq> set bodiless' \<and>
      (\<forall>d. vv_covers bound d \<longrightarrow> vv_covers bound' d) \<and>
      (\<forall>g \<in> set gs. \<forall>op \<in> set (device_links log counts g). vv_covers bound' (so_dot op) \<and>
         (needs_cover (so_body op) \<longrightarrow> so_header op \<in> set bodiless'))"
    using assms
  proof (induction gs arbitrary: bodiless links bound)
    case (Cons g gs)
    obtain x served where g: "g = (x, served)" by fastforce
    obtain b1 l1 c1 where step: "plan_device log counts g (bodiless, links, bound) = (b1, l1, c1)" by (metis prod_cases3)
    let ?new = "device_links log counts g"
    have one: "l1 = links @ map so_dot ?new" "c1 = fold (\<lambda>op. vv_add (so_dot op)) ?new bound" "set bodiless \<subseteq> set b1"
      "\<And>op. op \<in> set ?new \<Longrightarrow> needs_cover (so_body op) \<Longrightarrow> so_header op \<in> set b1"
      using step by (auto simp: plan_device_def g Let_def vl_walk_accepts)
    have new: "vv_covers c1 (so_dot op)" if "op \<in> set ?new" for op using that by (auto simp: one(2) fold_add_covers)
    have grows: "vv_covers bound d \<Longrightarrow> vv_covers c1 d" for d by (simp add: one(2) fold_add_covers)
    have rest: "fold (plan_device log counts) gs (b1, l1, c1) = (bodiless', links', bound')" using Cons.prems step by simp
    show ?case using Cons.IH [OF rest] one(1,3,4) new grows by auto
  qed simp
  then show "links' = links @ concat (map (\<lambda>g. map so_dot (device_links log counts g)) gs)"
    "set bodiless \<subseteq> set bodiless'" "vv_covers bound d \<Longrightarrow> vv_covers bound' d"
    "g \<in> set gs \<Longrightarrow> op \<in> set (device_links log counts g) \<Longrightarrow> vv_covers bound' (so_dot op)"
    "g \<in> set gs \<Longrightarrow> op \<in> set (device_links log counts g) \<Longrightarrow> needs_cover (so_body op) \<Longrightarrow> so_header op \<in> set bodiless'"
    by blast+
qed

lemma indices_set: "k \<in> set (indices keep xs) \<longleftrightarrow> k < length xs \<and> keep (xs ! k)"
  by (auto simp: indices_def in_set_enumerate_eq) (force simp: in_set_enumerate_eq)

lemma vl_group_absorbed:
  "vl_group (log \<lparr> vl_items := items, vl_dirty := dirty, vl_absorbed := taken \<rparr>) ops r = vl_group log ops r"
proof -
  have "group_op (log \<lparr> vl_items := items, vl_dirty := dirty, vl_absorbed := taken \<rparr>) = group_op log"
    by (simp add: group_op_def fun_eq_iff Let_def)
  then show ?thesis by (simp add: vl_group_def)
qed

section \<open>Properties\<close>

text \<open>
  C24: The two passes agree. For any log, response and covers, when the merge takes every cover the
  plan names, the commit of the response accepts exactly the links the plan announced, in the same
  order: no bodiless header that a cover was absorbed for turns into a gap, and none is accepted
  that the plan did not foresee.
\<close>

theorem commit_accepts_plan:
  "cm_accepted (snd (vl_commit (absorb_plan (plan_covers log ops covers) covers log) ops)) = cp_links (plan_covers log ops covers)"
proof -
  define plan where "plan = plan_covers log ops covers"
  define log1 where "log1 = absorb_plan plan covers log"
  obtain items dirty taken where log1: "log1 = log \<lparr> vl_items := items, vl_dirty := dirty, vl_absorbed := taken \<rparr>"
    using absorb_fold unfolding log1_def absorb_plan_def by blast
  obtain groups r where grp: "vl_group log ops [] = (groups, r)" by fastforce
  let ?gs = "bt_entries groups" and ?counts = "counts_in_plan log covers"
  obtain bodiless links bound where fp: "fold (plan_device log ?counts) ?gs ([], [], vl_heads log) = (bodiless, links, bound)"
    by (metis prod_cases3)
  have plan: "cp_links plan = links" "cp_cut plan = bound"
    "cp_absorb plan = indices (\<lambda>c. counts_cover log c \<and> list_ex (\<lambda>h. oh_item_id h = sh_item_id c \<and> vv_covers (sh_covered c) (oh_dot h)) bodiless) covers"
    by (simp_all add: plan_def plan_covers_def grp fp Let_def)
  note f = fold_plan [OF fp]
  have covered1: "covered (vl_items log1) h \<longleftrightarrow> covered (vl_items log) h \<or> (\<exists>k \<in> set (cp_absorb plan).
      sh_item_id (covers ! k) = oh_item_id h \<and> vv_covers (sh_covered (covers ! k)) (oh_dot h) \<and> vv_covers bound (oh_dot h))" for h
    using absorb_fold_covers [of plan covers "cp_absorb plan" log "oh_item_id h" "oh_dot h"]
    by (simp add: log1_def absorb_plan_def covered_settled vl_settled_iff plan(2))
  have sub: "?counts h" if "covered (vl_items log1) h" for h
    using that unfolding covered1 plan(3) by (auto simp: indices_set counts_in_plan_def served_cover_def list_ex_iff)
  have met: "covered (vl_items log1) (so_header op)"
    if op: "g \<in> set ?gs" "op \<in> set (device_links log ?counts g)" "needs_cover (so_body op)" "?counts (so_header op)" for g op
  proof (cases "covered (vl_items log) (so_header op)")
    case False
    then obtain k where k: "k < length covers" "counts_cover log (covers ! k)" "sh_item_id (covers ! k) = oh_item_id (so_header op)"
        "vv_covers (sh_covered (covers ! k)) (so_dot op)"
      using op(4) by (auto simp: counts_in_plan_def served_cover_def list_ex_iff in_set_conv_nth)
    have "so_header op \<in> set bodiless" using f(5) op(1-3) by blast
    then have "k \<in> set (cp_absorb plan)" using k by (auto simp: plan(3) indices_set list_ex_iff)
    then show ?thesis using k f(4) [OF op(1,2)] by (auto simp: covered1)
  qed (simp add: covered1)
  have counted: "?counts (so_header op)" if "op \<in> set (accepts bnd ?counts prev served)" "needs_cover (so_body op)" for bnd prev served op
    using that by (induction served arbitrary: prev) (auto split: if_splits)
  have same: "device_links log1 (covered (vl_items log1)) g = device_links log ?counts g" if "g \<in> set ?gs" for g
    unfolding log1 by (simp, rule accepts_agree) (use sub met [OF that] counted in \<open>auto simp: log1\<close>)
  obtain log2 accepted reports where com: "fold commit_device ?gs (log1, [], r) = (log2, accepted, reports)" by (metis prod_cases3)
  have "dot_device (so_dot op) = x" if "(x, served) \<in> set ?gs" "op \<in> set served" for x served op
    using that vl_group_spec(1,3) [OF grp] by (auto simp: in_group_def)
  moreover have "distinct (map fst ?gs)" using bt_keys_distinct [of groups] by (simp add: bt_keys_def)
  ultimately have "accepted = concat (map (\<lambda>g. map so_dot (device_links log1 (covered (vl_items log1)) g)) ?gs)"
    using fold_commit_accepted [OF com] by simp
  also have "\<dots> = links" using same f(1) by (simp cong: map_cong)
  finally have "accepted = links" .
  moreover have "cm_accepted (snd (vl_commit log1 ops)) = accepted"
    using com grp vl_group_absorbed [where log = log and ops = ops and r = "[]"]
    by (simp add: vl_commit_def log1 check_absorbed_def Let_def)
  ultimately show ?thesis by (simp add: plan(1) flip: plan_def log1_def)
qed

end
