(* ===== verification/Signed_Statements.thy ===== *)
theory Signed_Statements
  imports Causal_Authors
begin

text \<open>
  Signed statements, \<open>rizzy-core/src/sign/mod.rs\<close> and \<open>sign/statements.rs\<close>: the signature
  container, the message framing and the wire form every statement shares, the generic signing
  and verifying paths, and the bodies of the op, snapshot, device-certificate and
  device-revocation statements.

  SHA-256 and Ed25519 are the crates \<open>sha2\<close> and \<open>ed25519-dalek\<close>; they are the fields of the
  record \<open>crypto\<close>, an argument of every definition that uses them. \<open>crypto_laws\<close> names what the
  code relies on: a digest has 32 bytes and a signature 64, and a signature verifies under the
  public key of the seed that made it.

  The trait \<open>Statement\<close> is a record of its items (label, bound, encoder, decoder). The locale
  \<open>statement_form\<close> states the contract the trait documents, that the two directions agree; the
  verifier's specification is proved once from it and interpreted for every statement.
\<close>

section \<open>Primitives and labels\<close>

record crypto =
  cr_sha256 :: "bytes \<Rightarrow> bytes"
  cr_public_key :: "bytes \<Rightarrow> bytes"
  cr_sign :: "bytes \<Rightarrow> bytes \<Rightarrow> bytes"
  cr_verify_strict :: "bytes \<Rightarrow> bytes \<Rightarrow> bytes \<Rightarrow> bool"
  cr_valid_point :: "bytes \<Rightarrow> bool"

definition crypto_laws :: "crypto \<Rightarrow> bool" where
  "crypto_laws cr \<longleftrightarrow>
     (\<forall>m. length (cr_sha256 cr m) = 32) \<and>
     (\<forall>seed m. length (cr_sign cr seed m) = 64) \<and>
     (\<forall>seed m. cr_verify_strict cr (cr_public_key cr seed) m (cr_sign cr seed m))"

text \<open>\<open>LABEL(x)\<close> of \<open>labels.rs\<close>: the ASCII bytes of the prefix and the name.\<close>

definition LABEL :: "string \<Rightarrow> bytes" where
  "LABEL x = map of_char (''rizzy-vault/v1/'' @ x)"

definition label_info :: "bytes \<Rightarrow> bytes \<Rightarrow> bytes" where
  "label_info label ctx = label @ [0] @ ctx"

definition KEY_ID :: bytes where "KEY_ID = LABEL ''key-id''"

datatype key_type = IdentityEd25519 | IdentityX25519 | MailX25519 | DeviceEd25519 | DeviceX25519

fun key_type_to_u8 :: "key_type \<Rightarrow> u8" where
  "key_type_to_u8 IdentityEd25519 = 1"
| "key_type_to_u8 IdentityX25519 = 2"
| "key_type_to_u8 MailX25519 = 3"
| "key_type_to_u8 DeviceEd25519 = 4"
| "key_type_to_u8 DeviceX25519 = 5"

definition public_key_id :: "crypto \<Rightarrow> key_type \<Rightarrow> bytes \<Rightarrow> id16" where
  "public_key_id cr kt pk =
     word_of_nat (be_val (take 16 (cr_sha256 cr (KEY_ID @ [0, key_type_to_u8 kt] @ pk))))"

section \<open>The signature container\<close>

definition STATEMENT_VERSION :: u16 where "STATEMENT_VERSION = 1"
definition SIG_FORMAT_VERSION :: u8 where "SIG_FORMAT_VERSION = 1"
definition SIG_ALG_ED25519 :: u8 where "SIG_ALG_ED25519 = 1"
definition SIGNATURE_LEN :: usize where "SIGNATURE_LEN = 64"
definition CONTAINER_LEN :: usize where "CONTAINER_LEN = 2 + 16 + SIGNATURE_LEN"
definition HASH_LEN :: usize where "HASH_LEN = 32"
definition PUBLIC_KEY_LEN :: usize where "PUBLIC_KEY_LEN = 32"

datatype verify_error =
  Malformed parse_error | UnsupportedVersion | WrongSigner | BadSignature | Mismatch

record signature_container =
  sc_signer :: id16
  sc_signature :: bytes

definition container_read :: "(reader, verify_error, signature_container) reads" where
  "container_read =
     then_read (read_err Malformed reader_u8) (\<lambda>version.
     then_read (read_err Malformed reader_u8) (\<lambda>alg.
     if version \<noteq> SIG_FORMAT_VERSION \<or> alg \<noteq> SIG_ALG_ED25519 then fails UnsupportedVersion
     else
       then_read (read_err Malformed reader_id) (\<lambda>signer.
       then_read (read_err Malformed (reader_array SIGNATURE_LEN)) (\<lambda>signature.
       yields \<lparr> sc_signer = signer, sc_signature = signature \<rparr>))))"

definition container_from_bytes :: "bytes \<Rightarrow> verify_error + signature_container" where
  "container_from_bytes bs =
     (if length bs < CONTAINER_LEN then Inl (Malformed PTruncated)
      else if CONTAINER_LEN < length bs then Inl (Malformed PTrailingBytes)
      else and_then (container_read (reader_new bs)) (\<lambda>(c, r).
             and_then (map_err Malformed (reader_finish r)) (\<lambda>_. Inr c)))"

definition container_to_bytes :: "signature_container \<Rightarrow> bytes" where
  "container_to_bytes c =
     [SIG_FORMAT_VERSION, SIG_ALG_ED25519] @ id_bytes (sc_signer c) @ sc_signature c"

section \<open>Keys\<close>

text \<open>A \<open>VerifyingKey<R>\<close> is its 32-byte encoding and its role's key type; the id is derived.\<close>

record verifying_key =
  vk_role :: key_type
  vk_bytes :: bytes

definition vk_key_id :: "crypto \<Rightarrow> verifying_key \<Rightarrow> id16" where
  "vk_key_id cr key = public_key_id cr (vk_role key) (vk_bytes key)"

definition vk_from_bytes :: "crypto \<Rightarrow> key_type \<Rightarrow> bytes \<Rightarrow> parse_error + verifying_key" where
  "vk_from_bytes cr role bs =
     (if cr_valid_point cr bs then Inr \<lparr> vk_role = role, vk_bytes = bs \<rparr> else Inl PInvalidValue)"

text \<open>A \<open>SigningKey<R>\<close> is its seed; its public key is the one derived from the seed.\<close>

record signing_key =
  sk_role :: key_type
  sk_seed :: bytes

definition sk_verifying_key :: "crypto \<Rightarrow> signing_key \<Rightarrow> verifying_key" where
  "sk_verifying_key cr key = \<lparr> vk_role = sk_role key, vk_bytes = cr_public_key cr (sk_seed key) \<rparr>"

definition sign_message :: "crypto \<Rightarrow> signing_key \<Rightarrow> bytes \<Rightarrow> signature_container" where
  "sign_message cr key message =
     \<lparr> sc_signer = vk_key_id cr (sk_verifying_key cr key),
       sc_signature = cr_sign cr (sk_seed key) message \<rparr>"

definition verify_container ::
  "crypto \<Rightarrow> verifying_key \<Rightarrow> bytes \<Rightarrow> signature_container \<Rightarrow> verify_error + unit" where
  "verify_container cr key message c =
     (if sc_signer c \<noteq> vk_key_id cr key then Inl WrongSigner
      else if cr_verify_strict cr (vk_bytes key) message (sc_signature c) then Inr ()
      else Inl BadSignature)"

section \<open>Framing\<close>

definition signed_message :: "bytes \<Rightarrow> bytes \<Rightarrow> bytes" where
  "signed_message label body = label @ [0] @ u16_bytes STATEMENT_VERSION @ body"

definition encode_wire :: "bytes \<Rightarrow> signature_container list \<Rightarrow> core_encode_error + bytes" where
  "encode_wire body containers =
     and_then (ok_or TooLong (checked_add (length body) 2)) (\<lambda>versioned_len.
     and_then (bytes_encoded_len versioned_len) (\<lambda>n.
     and_then (ok_or TooLong (checked_mul (length containers) CONTAINER_LEN)) (\<lambda>cs.
     and_then (ok_or TooLong (checked_add n cs)) (\<lambda>_.
     and_then (put_bytes [] (u16_bytes STATEMENT_VERSION @ body)) (\<lambda>out.
     Inr (out @ concat (map container_to_bytes containers)))))))"

definition split_wire :: "bytes \<Rightarrow> usize \<Rightarrow> verify_error + (bytes \<times> bytes)" where
  "split_wire wire max_body_len =
     and_then (map_err Malformed (reader_bytes_max (saturating_add max_body_len 2) (reader_new wire)))
       (\<lambda>(versioned, r).
     let containers = fst (reader_rest r)
     in and_then (map_err Malformed (reader_u16 (reader_new versioned))) (\<lambda>(version, v).
        if version \<noteq> STATEMENT_VERSION then Inl UnsupportedVersion
        else Inr (fst (reader_rest v), containers)))"

section \<open>Statements\<close>

record 's statement_type =
  st_label :: bytes
  st_max_body_len :: usize
  st_encode_body :: "'s \<Rightarrow> core_encode_error + bytes"
  st_decode_body :: "bytes \<Rightarrow> parse_error + 's"

record 's verified =
  vf_statement :: 's
  vf_message_hash :: bytes

definition verified_new :: "crypto \<Rightarrow> 's \<Rightarrow> bytes \<Rightarrow> 's verified" where
  "verified_new cr s message = \<lparr> vf_statement = s, vf_message_hash = cr_sha256 cr message \<rparr>"

definition sign_single ::
  "crypto \<Rightarrow> 's statement_type \<Rightarrow> 's \<Rightarrow> signing_key \<Rightarrow> core_encode_error + bytes" where
  "sign_single cr S s key =
     and_then (st_encode_body S s) (\<lambda>body.
     if st_max_body_len S < length body then Inl TooLong
     else encode_wire body [sign_message cr key (signed_message (st_label S) body)])"

definition verify_single ::
  "crypto \<Rightarrow> 's statement_type \<Rightarrow> bytes \<Rightarrow> verifying_key \<Rightarrow> verify_error + 's verified" where
  "verify_single cr S wire key =
     and_then (split_wire wire (st_max_body_len S)) (\<lambda>(body, containers).
     and_then (container_from_bytes containers) (\<lambda>c.
     and_then (map_err Malformed (st_decode_body S body)) (\<lambda>s.
     let message = signed_message (st_label S) body
     in and_then (verify_container cr key message c) (\<lambda>_.
        Inr (verified_new cr s message)))))"

section \<open>Op and snapshot statements\<close>

definition OP_HEADER_MIN_LEN :: usize where "OP_HEADER_MIN_LEN = 1 + 4 * 16 + 8 + 8 + 8 + 2 + 4 + 2"
definition OP_HEADER_MAX_LEN :: usize where "OP_HEADER_MAX_LEN = OP_HEADER_MIN_LEN + 65535 * VV_ENTRY_LEN"
definition SNAPSHOT_HEADER_MIN_LEN :: usize where "SNAPSHOT_HEADER_MIN_LEN = 1 + 4 * 16 + 2 + 4 + 2"
definition SNAPSHOT_HEADER_MAX_LEN :: usize where
  "SNAPSHOT_HEADER_MAX_LEN = SNAPSHOT_HEADER_MIN_LEN + 65535 * VV_ENTRY_LEN"

text \<open>The macro \<open>record_statement!\<close> with its label and length bounds as arguments.\<close>

record record_statement =
  rs_header :: bytes
  rs_envelope_hash :: bytes
  rs_wrap_hash :: "bytes option"

definition NO_WRAP :: bytes where "NO_WRAP = replicate HASH_LEN 0"

definition record_statement_new ::
  "crypto \<Rightarrow> usize \<Rightarrow> usize \<Rightarrow> bytes \<Rightarrow> bytes \<Rightarrow> bytes option \<Rightarrow> core_encode_error + record_statement" where
  "record_statement_new cr mn mx canonical_header envelope item_key_wrap =
     (if length canonical_header < mn \<or> mx < length canonical_header then Inl InvalidField
      else Inr \<lparr> rs_header = canonical_header, rs_envelope_hash = cr_sha256 cr envelope,
                 rs_wrap_hash = map_option (cr_sha256 cr) item_key_wrap \<rparr>)"

definition matches_envelope :: "crypto \<Rightarrow> record_statement \<Rightarrow> bytes \<Rightarrow> bool" where
  "matches_envelope cr st envelope \<longleftrightarrow> cr_sha256 cr envelope = rs_envelope_hash st"

definition matches_wrap :: "crypto \<Rightarrow> record_statement \<Rightarrow> bytes \<Rightarrow> bool" where
  "matches_wrap cr st wrap \<longleftrightarrow> rs_wrap_hash st = Some (cr_sha256 cr wrap)"

definition wrap_hash_bytes :: "record_statement \<Rightarrow> bytes" where
  "wrap_hash_bytes st = (case rs_wrap_hash st of None \<Rightarrow> NO_WRAP | Some w \<Rightarrow> w)"

definition record_encode_body :: "record_statement \<Rightarrow> core_encode_error + bytes" where
  "record_encode_body st =
     and_then (put_bytes [] (rs_header st)) (\<lambda>out.
     Inr (out @ rs_envelope_hash st @ wrap_hash_bytes st))"

definition record_read_body :: "usize \<Rightarrow> usize \<Rightarrow> (reader, parse_error, record_statement) reads" where
  "record_read_body mn mx =
     then_read (reader_bytes_max mx) (\<lambda>header.
     if length header < mn then fails PInvalidLength
     else
       then_read (reader_array HASH_LEN) (\<lambda>envelope_hash.
       then_read (reader_array HASH_LEN) (\<lambda>wrap_hash.
       yields \<lparr> rs_header = header, rs_envelope_hash = envelope_hash,
                rs_wrap_hash = (if wrap_hash \<noteq> NO_WRAP then Some wrap_hash else None) \<rparr>)))"

definition record_decode_body :: "usize \<Rightarrow> usize \<Rightarrow> bytes \<Rightarrow> parse_error + record_statement" where
  "record_decode_body mn mx body =
     and_then (record_read_body mn mx (reader_new body)) (\<lambda>(st, r).
     and_then (reader_finish r) (\<lambda>_. Inr st))"

definition record_statement_type :: "bytes \<Rightarrow> usize \<Rightarrow> usize \<Rightarrow> record_statement statement_type" where
  "record_statement_type label mn mx =
     \<lparr> st_label = label, st_max_body_len = 4 + mx + 2 * HASH_LEN,
       st_encode_body = record_encode_body, st_decode_body = record_decode_body mn mx \<rparr>"

definition op_statement :: "record_statement statement_type" where
  "op_statement = record_statement_type (LABEL ''sig/op'') OP_HEADER_MIN_LEN OP_HEADER_MAX_LEN"

definition snapshot_statement :: "record_statement statement_type" where
  "snapshot_statement =
     record_statement_type (LABEL ''sig/snapshot'') SNAPSHOT_HEADER_MIN_LEN SNAPSHOT_HEADER_MAX_LEN"

section \<open>Device certificates and revocations\<close>

definition WEB_CERT_MAX_LIFETIME_MS :: u64 where "WEB_CERT_MAX_LIFETIME_MS = 12 * 60 * 60 * 1000"
definition CERTIFICATE_BODY_LEN :: usize where "CERTIFICATE_BODY_LEN = 2 * 16 + 4 + 2 * PUBLIC_KEY_LEN + 1 + 8 + 8"
definition REVOCATION_BODY_LEN :: usize where "REVOCATION_BODY_LEN = 2 * 16 + 8 + 8"

fun device_kind_to_u8 :: "device_kind \<Rightarrow> u8" where
  "device_kind_to_u8 DesktopCli = 1"
| "device_kind_to_u8 Extension = 2"
| "device_kind_to_u8 Mobile = 3"
| "device_kind_to_u8 WebEphemeral = 4"

definition device_kind_from_u8 :: "u8 \<Rightarrow> parse_error + device_kind" where
  "device_kind_from_u8 v =
     (if v = 1 then Inr DesktopCli else if v = 2 then Inr Extension else if v = 3 then Inr Mobile
      else if v = 4 then Inr WebEphemeral else Inl PInvalidValue)"

definition is_durable :: "device_kind \<Rightarrow> bool" where
  "is_durable k \<longleftrightarrow> k \<noteq> WebEphemeral"

definition in_device_set :: "device_certificate \<Rightarrow> bool" where
  "in_device_set cert \<longleftrightarrow> is_durable (dc_device_kind cert)"

definition certificate_validate :: "device_certificate \<Rightarrow> parse_error + unit" where
  "certificate_validate c =
     (if dc_expires_at_ms c \<noteq> 0 \<and> dc_expires_at_ms c \<le> dc_created_at_ms c then Inl PInvalidValue
      else if dc_device_kind c = WebEphemeral then
        and_then (ok_or PInvalidValue (u64_checked_add (dc_created_at_ms c) WEB_CERT_MAX_LIFETIME_MS)) (\<lambda>latest.
          if dc_expires_at_ms c = 0 \<or> latest < dc_expires_at_ms c then Inl PInvalidValue else Inr ())
      else Inr ())"

definition certificate_encode_body :: "device_certificate \<Rightarrow> core_encode_error + bytes" where
  "certificate_encode_body c =
     and_then (map_err (\<lambda>_. InvalidField) (certificate_validate c)) (\<lambda>_.
     Inr (id_bytes (dc_account_id c) @ id_bytes (dc_device_id c) @ u32_bytes (dc_identity_epoch c) @
       dc_device_ed25519 c @ dc_device_x25519 c @ [device_kind_to_u8 (dc_device_kind c)] @
       u64_bytes (dc_created_at_ms c) @ u64_bytes (dc_expires_at_ms c)))"

text \<open>A value that is refused after it was read: \<open>f(r.read()?)?\<close>.\<close>

definition read_try :: "('a \<Rightarrow> 'e + 'b) \<Rightarrow> ('s, 'e, 'a) reads \<Rightarrow> ('s, 'e, 'b) reads" where
  "read_try f p = then_read p (\<lambda>x. case f x of Inl e \<Rightarrow> fails e | Inr y \<Rightarrow> yields y)"

definition certificate_read :: "crypto \<Rightarrow> (reader, parse_error, device_certificate) reads" where
  "certificate_read cr =
     then_read reader_id (\<lambda>account_id.
     then_read reader_id (\<lambda>device_id.
     then_read reader_u32 (\<lambda>identity_epoch.
     then_read (read_try (vk_from_bytes cr DeviceEd25519) (reader_array PUBLIC_KEY_LEN)) (\<lambda>ed25519.
     then_read (reader_array PUBLIC_KEY_LEN) (\<lambda>x25519.
     then_read (read_try device_kind_from_u8 reader_u8) (\<lambda>kind.
     then_read reader_u64 (\<lambda>created_at_ms.
     then_read reader_u64 (\<lambda>expires_at_ms.
     yields \<lparr> dc_account_id = account_id, dc_device_id = device_id, dc_identity_epoch = identity_epoch,
       dc_device_ed25519 = vk_bytes ed25519, dc_device_x25519 = x25519, dc_device_kind = kind,
       dc_created_at_ms = created_at_ms, dc_expires_at_ms = expires_at_ms \<rparr>))))))))"

definition certificate_decode_body :: "crypto \<Rightarrow> bytes \<Rightarrow> parse_error + device_certificate" where
  "certificate_decode_body cr body =
     and_then (certificate_read cr (reader_new body)) (\<lambda>(cert, r).
     and_then (reader_finish r) (\<lambda>_.
     and_then (certificate_validate cert) (\<lambda>_. Inr cert)))"

definition certificate_statement :: "crypto \<Rightarrow> device_certificate statement_type" where
  "certificate_statement cr =
     \<lparr> st_label = LABEL ''sig/device-certificate'', st_max_body_len = CERTIFICATE_BODY_LEN,
       st_encode_body = certificate_encode_body, st_decode_body = certificate_decode_body cr \<rparr>"

definition certificate_verify ::
  "crypto \<Rightarrow> bytes \<Rightarrow> verifying_key \<Rightarrow> u32 \<Rightarrow> verify_error + device_certificate verified" where
  "certificate_verify cr wire identity identity_epoch =
     and_then (verify_single cr (certificate_statement cr) wire identity) (\<lambda>v.
     if dc_identity_epoch (vf_statement v) \<noteq> identity_epoch then Inl Mismatch else Inr v)"

definition revocation_encode_body :: "device_revocation \<Rightarrow> core_encode_error + bytes" where
  "revocation_encode_body r =
     Inr (id_bytes (dr_account_id r) @ id_bytes (dr_device_id r) @
       u64_bytes (dr_last_accepted_device_seq r) @ u64_bytes (dr_revoked_at_ms r))"

definition revocation_read :: "(reader, parse_error, device_revocation) reads" where
  "revocation_read =
     then_read reader_id (\<lambda>account_id.
     then_read reader_id (\<lambda>device_id.
     then_read reader_u64 (\<lambda>last_accepted.
     then_read reader_u64 (\<lambda>revoked_at_ms.
     yields \<lparr> dr_account_id = account_id, dr_device_id = device_id,
       dr_last_accepted_device_seq = last_accepted, dr_revoked_at_ms = revoked_at_ms \<rparr>))))"

definition revocation_decode_body :: "bytes \<Rightarrow> parse_error + device_revocation" where
  "revocation_decode_body body =
     and_then (revocation_read (reader_new body)) (\<lambda>(rv, r).
     and_then (reader_finish r) (\<lambda>_. Inr rv))"

definition revocation_statement :: "device_revocation statement_type" where
  "revocation_statement =
     \<lparr> st_label = LABEL ''sig/device-revocation'', st_max_body_len = REVOCATION_BODY_LEN,
       st_encode_body = revocation_encode_body, st_decode_body = revocation_decode_body \<rparr>"

section \<open>Reading fields\<close>

interpretation array_codec: codec rd_input set_input "\<lambda>bs. length bs = n" "\<lambda>bs. bs" "reader_array n" for n
  by unfold_locales (auto simp: reader_array_Inr)

interpretation bytes_max_codec:
  codec rd_input set_input "\<lambda>x. length x \<le> mx \<and> length x < 2 ^ 32" bytes_enc "reader_bytes_max mx" for mx
proof
  fix bs :: bytes and s :: reader
  show "rd_input (set_input bs s) = bs" by simp
next
  fix x and s :: reader and rest
  assume x: "length (x :: bytes) \<le> mx \<and> length x < 2 ^ 32" and s: "rd_input s = bytes_enc x @ rest"
  have "unat (word_of_nat (length x) :: u32) = length x" using x by (simp add: unat_of_nat)
  moreover have "reader_u32 s = Inr (word_of_nat (length x), set_input (x @ rest) s)"
    by (rule u32_codec.dec_enc) (simp_all add: s bytes_enc_def)
  ultimately show "reader_bytes_max mx s = Inr (x, set_input rest s)"
    using x by (simp add: reader_bytes_max_def then_read_ok reader_take_def)
next
  fix s :: reader and x s'
  assume "reader_bytes_max mx s = Inr (x, s')"
  then obtain w s1 where w: "reader_u32 s = Inr (w, s1)" and le: "unat w \<le> mx"
    and t: "reader_take (unat w) s1 = Inr (x, s')"
    by (auto simp: reader_bytes_max_def then_read_Inr split: if_splits)
  from t have t': "length x = unat w" "rd_input s1 = x @ rd_input s'" "s' = set_input (rd_input s') s1"
    by (auto simp: reader_take_eq_array reader_array_Inr)
  with u32_codec.enc_dec [OF w] unat_word_less [of w] le
  show "(length x \<le> mx \<and> length x < 2 ^ 32) \<and> rd_input s = bytes_enc x @ rd_input s' \<and>
      s' = set_input (rd_input s') s"
    by (auto simp: bytes_enc_def)
qed

lemma reader_finish_Inr [simp]: "reader_finish r = Inr u \<longleftrightarrow> rd_input r = []"
  by (simp add: reader_finish_def)

lemma rd_input_new [simp]: "rd_input (reader_new bs) = bs"
  by (simp add: reader_new_def)

lemma reader_codecI:
  assumes "\<And>s x s'. dec s = Inr (x, s') \<longleftrightarrow> ok x \<and> (\<exists>rest. rd_input s = enc x @ rest \<and> s' = set_input rest s)"
  shows "codec rd_input set_input ok enc dec"
  by unfold_locales (auto simp: assms)

text \<open>A parser that must consume its whole input.\<close>

lemma whole_read:
  assumes p: "codec rd_input set_input P e p"
    and fin: "\<And>r. fin r = Inr () \<longleftrightarrow> rd_input r = []"
  shows "and_then (p (reader_new bs)) (\<lambda>(x, r). and_then (fin r) (\<lambda>_. k x)) = Inr y \<longleftrightarrow>
    (\<exists>x. P x \<and> bs = e x \<and> k x = Inr y)" (is "?l \<longleftrightarrow> ?r")
proof
  assume ?l
  then obtain x r where xr: "p (reader_new bs) = Inr (x, r)" "fin r = Inr ()" "k x = Inr y"
    by (auto simp: and_then_Inr)
  then have "P x \<and> bs = e x" using fin by (auto simp: codec.dec_iff [OF p])
  then show ?r using xr by blast
next
  assume ?r
  then obtain x where x: "P x" "bs = e x" "k x = Inr y" by blast
  then have "p (reader_new bs) = Inr (x, set_input [] (reader_new bs))" by (simp add: codec.dec_iff [OF p])
  moreover have "fin (set_input [] (reader_new bs)) = Inr ()" by (simp add: fin)
  ultimately show ?l using x by simp
qed

lemmas reader_fields = u8_codec.then_dec_iff u16_codec.then_dec_iff u32_codec.then_dec_iff
  u64_codec.then_dec_iff id_codec.then_dec_iff array_codec.then_dec_iff bytes_max_codec.then_dec_iff

text \<open>Running a parser on the encoding of its next field.\<close>

lemma then_enc:
  "codec rd_input set_input ok enc p \<Longrightarrow> ok x \<Longrightarrow> then_read p f (set_input (enc x @ rest) s) = f x (set_input rest s)"
  using codec.dec_enc [of rd_input set_input ok enc p x "set_input (enc x @ rest) s" rest] by (simp add: then_read_ok)

lemmas run_fields = then_enc [OF id_codec.codec_axioms TrueI] then_enc [OF u32_codec.codec_axioms TrueI]
  then_enc [OF u64_codec.codec_axioms TrueI] then_enc [OF array_codec.codec_axioms]
  then_enc [OF bytes_max_codec.codec_axioms]

section \<open>Containers and framing\<close>

interpretation container_codec:
  codec rd_input set_input "\<lambda>c. length (sc_signature c) = 64" container_to_bytes container_read
proof (rule reader_codecI)
  fix s c s'
  have "container_read s = Inr (c, s') \<longleftrightarrow>
      (\<exists>signer sg rest. length sg = 64 \<and> c = \<lparr> sc_signer = signer, sc_signature = sg \<rparr> \<and>
         rd_input s = container_to_bytes c @ rest \<and> s' = set_input rest s)"
    unfolding container_read_def
    by (auto simp: then_read_Inr u8_codec.dec_iff id_codec.dec_iff array_codec.dec_iff container_to_bytes_def
        SIGNATURE_LEN_def split: if_splits)
  then show "container_read s = Inr (c, s') \<longleftrightarrow>
      length (sc_signature c) = 64 \<and> (\<exists>rest. rd_input s = container_to_bytes c @ rest \<and> s' = set_input rest s)"
    by (cases c) auto
qed

lemma length_container: "length (container_to_bytes c) = 18 + length (sc_signature c)"
  by (simp add: container_to_bytes_def)

lemma container_one_encoding:
  "container_from_bytes bs = Inr c \<longleftrightarrow> length (sc_signature c) = 64 \<and> bs = container_to_bytes c"
proof -
  have len: "length (sc_signature c) = 64 \<Longrightarrow> length (container_to_bytes c) = CONTAINER_LEN" for c
    by (simp add: length_container CONTAINER_LEN_def SIGNATURE_LEN_def)
  have "and_then (container_read (reader_new bs)) (\<lambda>(c, r).
      and_then (map_err Malformed (reader_finish r)) (\<lambda>_. Inr c)) = Inr c \<longleftrightarrow>
    (\<exists>x. length (sc_signature x) = 64 \<and> bs = container_to_bytes x \<and> (Inr x :: verify_error + _) = Inr c)"
    by (rule whole_read [OF container_codec.codec_axioms]) simp
  then show ?thesis
    using len by (auto simp: container_from_bytes_def)
qed

lemma split_wire_Inr:
  assumes "mx + 2 < 2 ^ 32"
  shows "split_wire wire mx = Inr (body, cs) \<longleftrightarrow>
    length body \<le> mx \<and> wire = bytes_enc (u16_bytes STATEMENT_VERSION @ body) @ cs"
proof -
  have "saturating_add mx 2 = mx + 2" using assms by (simp add: saturating_add_def usize_max_def)
  note sat = this
  show ?thesis (is "?l \<longleftrightarrow> ?r")
  proof
    assume ?l
    then show ?r
      using assms unfolding split_wire_def sat
      by (auto simp: and_then_Inr bytes_max_codec.dec_iff u16_codec.dec_iff reader_rest_def Let_def split: if_splits)
  next
    assume r: ?r
    let ?v = "u16_bytes STATEMENT_VERSION @ body"
    have "reader_bytes_max (mx + 2) (reader_new wire) = Inr (?v, set_input cs (reader_new wire))"
      using r assms by (intro bytes_max_codec.dec_enc) auto
    moreover have "reader_u16 (reader_new ?v) = Inr (STATEMENT_VERSION, set_input body (reader_new ?v))"
      by (rule u16_codec.dec_enc) simp_all
    ultimately show ?l
      unfolding split_wire_def sat by (simp add: reader_rest_def)
  qed
qed

lemma encode_wire_one:
  assumes "length body + 2 < 2 ^ 32"
  shows "encode_wire body [c] = Inr (bytes_enc (u16_bytes STATEMENT_VERSION @ body) @ container_to_bytes c)"
  using assms
  by (simp add: encode_wire_def checked_add_def checked_mul_def bytes_encoded_len_def put_bytes_Inr
      CONTAINER_LEN_def SIGNATURE_LEN_def usize_max_def ok_or_def u32_try_from_def put_bytes_def bytes_enc_def
      put_u32_def)

lemma vf_statement_new [simp]: "vf_statement (verified_new cr s m) = s"
  by (simp add: verified_new_def)

text \<open>The framing is prefix-free: labels have no zero byte, so a message has one label and one body.\<close>

lemma separator_unique:
  "l @ z # x = l' @ z # y \<Longrightarrow> z \<notin> set l \<Longrightarrow> z \<notin> set l' \<Longrightarrow> l = l' \<and> x = y"
proof (induction l arbitrary: l')
  case Nil
  then show ?case by (cases l') auto
next
  case (Cons a l)
  then show ?case by (cases l') auto
qed

lemma signed_message_inj:
  assumes "signed_message l b = signed_message l' b'" "0 \<notin> set l" "0 \<notin> set l'"
  shows "l = l' \<and> b = b'"
  using separator_unique [of l 0 _ l'] assms by (auto simp: signed_message_def)

section \<open>What a verifier accepts\<close>

locale statement_form =
  fixes S :: "'s statement_type" and ok :: "'s \<Rightarrow> bool"
  assumes max_fits: "st_max_body_len S + 2 < 2 ^ 32"
    and decode_iff: "st_decode_body S body = Inr s \<longleftrightarrow> ok s \<and> st_encode_body S s = Inr body"
    and body_fits: "ok s \<Longrightarrow> st_encode_body S s = Inr body \<Longrightarrow> length body \<le> st_max_body_len S"
begin

lemma verify_iff:
  "verify_single cr S wire key = Inr v \<longleftrightarrow>
     (\<exists>s body c. ok s \<and> st_encode_body S s = Inr body \<and> length (sc_signature c) = 64 \<and>
        wire = bytes_enc (u16_bytes STATEMENT_VERSION @ body) @ container_to_bytes c \<and>
        sc_signer c = vk_key_id cr key \<and>
        cr_verify_strict cr (vk_bytes key) (signed_message (st_label S) body) (sc_signature c) \<and>
        v = verified_new cr s (signed_message (st_label S) body))"
  (is "?l \<longleftrightarrow> ?r")
proof
  assume ?l
  then obtain body cs c s where
    "split_wire wire (st_max_body_len S) = Inr (body, cs)" "container_from_bytes cs = Inr c"
    "st_decode_body S body = Inr s"
    "verify_container cr key (signed_message (st_label S) body) c = Inr ()"
    "v = verified_new cr s (signed_message (st_label S) body)"
    by (auto simp: verify_single_def and_then_Inr Let_def)
  then show ?r
    by (auto simp: split_wire_Inr [OF max_fits] container_one_encoding decode_iff verify_container_def split: if_splits)
next
  assume ?r
  then obtain s body c where r: "ok s" "st_encode_body S s = Inr body" "length (sc_signature c) = 64"
    "wire = bytes_enc (u16_bytes STATEMENT_VERSION @ body) @ container_to_bytes c"
    "sc_signer c = vk_key_id cr key"
    "cr_verify_strict cr (vk_bytes key) (signed_message (st_label S) body) (sc_signature c)"
    "v = verified_new cr s (signed_message (st_label S) body)" by blast
  have "split_wire wire (st_max_body_len S) = Inr (body, container_to_bytes c)"
    unfolding split_wire_Inr [OF max_fits] using body_fits r by blast
  moreover have "container_from_bytes (container_to_bytes c) = Inr c"
    using r by (simp add: container_one_encoding)
  moreover have "st_decode_body S body = Inr s" using r by (simp add: decode_iff)
  ultimately show ?l
    using r by (simp add: verify_single_def verify_container_def Let_def)
qed

text \<open>The wire form of a verified statement ends with its one container.\<close>

lemma verified_tail:
  assumes v: "verify_single cr S (pre @ container_to_bytes c) key = Inr v" and c: "length (sc_signature c) = 64"
  shows "\<exists>body. st_encode_body S (vf_statement v) = Inr body \<and> ok (vf_statement v) \<and>
    sc_signer c = vk_key_id cr key \<and> pre = bytes_enc (u16_bytes STATEMENT_VERSION @ body)"
proof -
  obtain s body c' where s: "ok s" "st_encode_body S s = Inr body" "length (sc_signature c') = 64"
    "pre @ container_to_bytes c = bytes_enc (u16_bytes STATEMENT_VERSION @ body) @ container_to_bytes c'"
    "sc_signer c' = vk_key_id cr key" "vf_statement v = s"
    using v unfolding verify_iff by auto
  have "length (container_to_bytes c) = length (container_to_bytes c')"
    using c s(3) by (simp add: length_container)
  then have "pre = bytes_enc (u16_bytes STATEMENT_VERSION @ body)" "container_to_bytes c = container_to_bytes c'"
    using s(4) by auto
  moreover from this(2) have "c = c'"
    using container_codec.enc_inj c s(3) by blast
  ultimately show ?thesis using s by auto
qed

lemma sign_verify:
  assumes "crypto_laws cr" "ok s" "st_encode_body S s = Inr body"
  shows "\<exists>wire. sign_single cr S s key = Inr wire \<and>
    verify_single cr S wire (sk_verifying_key cr key) =
      Inr (verified_new cr s (signed_message (st_label S) body))"
proof -
  let ?c = "sign_message cr key (signed_message (st_label S) body)"
  let ?wire = "bytes_enc (u16_bytes STATEMENT_VERSION @ body) @ container_to_bytes ?c"
  have "length body \<le> st_max_body_len S" using assms body_fits by blast
  with max_fits have "sign_single cr S s key = Inr ?wire"
    by (simp add: sign_single_def assms(3) encode_wire_one)
  moreover have "verify_single cr S ?wire (sk_verifying_key cr key) =
      Inr (verified_new cr s (signed_message (st_label S) body))"
    unfolding verify_iff using assms
    by (intro exI [of _ s] exI [of _ body] exI [of _ ?c])
       (simp add: sign_message_def crypto_laws_def sk_verifying_key_def)
  ultimately show ?thesis by blast
qed

end

section \<open>The statements\<close>

definition record_ok :: "usize \<Rightarrow> usize \<Rightarrow> record_statement \<Rightarrow> bool" where
  "record_ok mn mx st \<longleftrightarrow>
     mn \<le> length (rs_header st) \<and> length (rs_header st) \<le> mx \<and> length (rs_envelope_hash st) = 32 \<and>
     length (wrap_hash_bytes st) = 32 \<and> rs_wrap_hash st \<noteq> Some NO_WRAP"

lemma record_encode_Inr:
  "record_encode_body st = Inr body \<longleftrightarrow>
     length (rs_header st) < 2 ^ 32 \<and> body = bytes_enc (rs_header st) @ rs_envelope_hash st @ wrap_hash_bytes st"
  by (auto simp: record_encode_body_def and_then_Inr put_bytes_Inr)

lemma record_body_codec:
  "codec rd_input set_input (\<lambda>st. record_ok mn mx st \<and> length (rs_header st) < 2 ^ 32)
     (\<lambda>st. bytes_enc (rs_header st) @ rs_envelope_hash st @ wrap_hash_bytes st) (record_read_body mn mx)"
proof (rule reader_codecI)
  fix s st s'
  have wrap: "rs_wrap_hash st = (if wrap_hash_bytes st \<noteq> NO_WRAP then Some (wrap_hash_bytes st) else None)"
    if "record_ok mn mx st" using that by (auto simp: record_ok_def wrap_hash_bytes_def split: option.splits)
  show "record_read_body mn mx s = Inr (st, s') \<longleftrightarrow>
      (record_ok mn mx st \<and> length (rs_header st) < 2 ^ 32) \<and>
      (\<exists>rest. rd_input s = (bytes_enc (rs_header st) @ rs_envelope_hash st @ wrap_hash_bytes st) @ rest \<and>
         s' = set_input rest s)" (is "?l \<longleftrightarrow> ?r")
  proof
    assume ?l
    then show ?r
      unfolding record_read_body_def
      by (auto simp: reader_fields record_ok_def wrap_hash_bytes_def HASH_LEN_def NO_WRAP_def split: if_splits)
  next
    assume r: ?r
    then obtain rest where rest: "rd_input s = bytes_enc (rs_header st) @ (rs_envelope_hash st @ (wrap_hash_bytes st @ rest))"
      "s' = set_input rest s" by auto
    have "record_read_body mn mx (set_input (rd_input s) s) = Inr (st, s')"
      using r wrap unfolding rest record_read_body_def
      by (simp add: run_fields record_ok_def HASH_LEN_def yields_def)
    then show ?l by simp
  qed
qed

lemma record_form:
  assumes "mx + 100 < 2 ^ 32"
  shows "statement_form (record_statement_type label mn mx) (record_ok mn mx)"
proof
  show "st_max_body_len (record_statement_type label mn mx) + 2 < 2 ^ 32"
    using assms by (simp add: record_statement_type_def HASH_LEN_def)
next
  fix body st
  have hl: "record_ok mn mx st \<Longrightarrow> length (rs_header st) < 2 ^ 32" for st
    using assms by (simp add: record_ok_def)
  show "st_decode_body (record_statement_type label mn mx) body = Inr st \<longleftrightarrow>
      record_ok mn mx st \<and> st_encode_body (record_statement_type label mn mx) st = Inr body"
    unfolding record_statement_type_def record_decode_body_def statement_type.simps
    using hl by (auto simp: whole_read [OF record_body_codec] record_encode_Inr)
next
  fix st body
  assume "record_ok mn mx st" "st_encode_body (record_statement_type label mn mx) st = Inr body"
  then show "length body \<le> st_max_body_len (record_statement_type label mn mx)"
    by (simp add: record_statement_type_def record_encode_Inr record_ok_def bytes_enc_def HASH_LEN_def)
qed

interpretation op_form: statement_form op_statement "record_ok OP_HEADER_MIN_LEN OP_HEADER_MAX_LEN"
  unfolding op_statement_def
  by (rule record_form) (simp add: OP_HEADER_MAX_LEN_def OP_HEADER_MIN_LEN_def VV_ENTRY_LEN_def DOT_ENCODED_LEN_def)

interpretation snapshot_form: statement_form snapshot_statement "record_ok SNAPSHOT_HEADER_MIN_LEN SNAPSHOT_HEADER_MAX_LEN"
  unfolding snapshot_statement_def
  by (rule record_form) (simp add: SNAPSHOT_HEADER_MAX_LEN_def SNAPSHOT_HEADER_MIN_LEN_def VV_ENTRY_LEN_def DOT_ENCODED_LEN_def)

definition certificate_ok :: "crypto \<Rightarrow> device_certificate \<Rightarrow> bool" where
  "certificate_ok cr c \<longleftrightarrow>
     length (dc_device_ed25519 c) = 32 \<and> length (dc_device_x25519 c) = 32 \<and>
     cr_valid_point cr (dc_device_ed25519 c) \<and> certificate_validate c = Inr ()"

lemma device_kind_codes: "device_kind_from_u8 v = Inr k \<longleftrightarrow> v = device_kind_to_u8 k"
  by (cases k) (auto simp: device_kind_from_u8_def split: if_splits)

definition certificate_bytes :: "device_certificate \<Rightarrow> bytes" where
  "certificate_bytes c =
     id_bytes (dc_account_id c) @ id_bytes (dc_device_id c) @ u32_bytes (dc_identity_epoch c) @
     dc_device_ed25519 c @ dc_device_x25519 c @ [device_kind_to_u8 (dc_device_kind c)] @
     u64_bytes (dc_created_at_ms c) @ u64_bytes (dc_expires_at_ms c)"

lemma read_try_codec:
  assumes p: "codec rd_input set_input ok enc p" and f: "\<And>x y. f x = Inr y \<longleftrightarrow> P y \<and> x = g y"
    and ok: "\<And>y. P y \<Longrightarrow> ok (g y) \<longleftrightarrow> Q y"
  shows "codec rd_input set_input (\<lambda>y. P y \<and> Q y) (\<lambda>y. enc (g y)) (read_try f p)"
proof (rule reader_codecI)
  fix s y s'
  have "read_try f p s = Inr (y, s') \<longleftrightarrow> (\<exists>x. p s = Inr (x, s') \<and> f x = Inr y)"
    by (cases "p s") (auto simp: read_try_def then_read_def yields_def fails_def split: sum.splits prod.splits)
  then show "read_try f p s = Inr (y, s') \<longleftrightarrow>
      (P y \<and> Q y) \<and> (\<exists>rest. rd_input s = enc (g y) @ rest \<and> s' = set_input rest s)"
    using ok by (auto simp: f codec.dec_iff [OF p])
qed

lemma key_field: "codec rd_input set_input (\<lambda>k. (cr_valid_point cr (vk_bytes k) \<and> vk_role k = role) \<and> length (vk_bytes k) = n)
    vk_bytes (read_try (vk_from_bytes cr role) (reader_array n))"
  by (rule read_try_codec [OF array_codec.codec_axioms]) (auto simp: vk_from_bytes_def split: if_splits)

lemma kind_field: "codec rd_input set_input (\<lambda>k. True \<and> True) (\<lambda>k. [device_kind_to_u8 k])
    (read_try device_kind_from_u8 reader_u8)"
  by (rule read_try_codec [OF u8_codec.codec_axioms]) (auto simp: device_kind_codes)

lemma certificate_codec:
  "codec rd_input set_input (\<lambda>c. length (dc_device_ed25519 c) = 32 \<and> length (dc_device_x25519 c) = 32 \<and>
       cr_valid_point cr (dc_device_ed25519 c)) certificate_bytes (certificate_read cr)"
proof (rule reader_codecI, rule iffI)
  fix s c s'
  assume "certificate_read cr s = Inr (c, s')"
  then show "(length (dc_device_ed25519 c) = 32 \<and> length (dc_device_x25519 c) = 32 \<and> cr_valid_point cr (dc_device_ed25519 c)) \<and>
      (\<exists>rest. rd_input s = certificate_bytes c @ rest \<and> s' = set_input rest s)"
    unfolding certificate_read_def reader_fields codec.then_dec_iff [OF key_field] codec.then_dec_iff [OF kind_field]
    by (auto simp: PUBLIC_KEY_LEN_def certificate_bytes_def)
next
  fix s c s'
  assume c: "(length (dc_device_ed25519 c) = 32 \<and> length (dc_device_x25519 c) = 32 \<and> cr_valid_point cr (dc_device_ed25519 c)) \<and>
      (\<exists>rest. rd_input s = certificate_bytes c @ rest \<and> s' = set_input rest s)"
  then obtain rest where rest: "rd_input s = certificate_bytes c @ rest" "s' = set_input rest s" by blast
  let ?e = "\<lparr> vk_role = DeviceEd25519, vk_bytes = dc_device_ed25519 c \<rparr>"
  have key: "then_read (read_try (vk_from_bytes cr DeviceEd25519) (reader_array 32)) f
      (set_input (dc_device_ed25519 c @ more) s) = f ?e (set_input more s)" for f more
    using then_enc [OF key_field [of cr DeviceEd25519 32], where x = ?e and f = f and rest = more and s = s] c by simp
  have kind: "then_read (read_try device_kind_from_u8 reader_u8) f
      (set_input (device_kind_to_u8 (dc_device_kind c) # more) s) = f (dc_device_kind c) (set_input more s)" for f more
    using then_enc [OF kind_field, where x = "dc_device_kind c" and f = f and rest = more and s = s] by simp
  have "certificate_read cr (set_input (rd_input s) s) = Inr (c, s')"
    using c rest(2) unfolding rest(1) certificate_read_def certificate_bytes_def
    by (simp add: run_fields key kind yields_def PUBLIC_KEY_LEN_def)
  then show "certificate_read cr s = Inr (c, s')" by simp
qed

interpretation certificate_form: statement_form "certificate_statement cr" "certificate_ok cr" for cr
proof
  show "st_max_body_len (certificate_statement cr) + 2 < 2 ^ 32"
    by (simp add: certificate_statement_def CERTIFICATE_BODY_LEN_def PUBLIC_KEY_LEN_def)
next
  fix body c
  show "st_decode_body (certificate_statement cr) body = Inr c \<longleftrightarrow>
      certificate_ok cr c \<and> st_encode_body (certificate_statement cr) c = Inr body"
    unfolding certificate_statement_def certificate_decode_body_def statement_type.simps
    by (subst whole_read [OF certificate_codec])
       (auto simp: certificate_encode_body_def certificate_bytes_def and_then_Inr certificate_ok_def)
next
  fix c body
  assume "certificate_ok cr c" "st_encode_body (certificate_statement cr) c = Inr body"
  then show "length body \<le> st_max_body_len (certificate_statement cr)"
    by (auto simp: certificate_statement_def certificate_encode_body_def and_then_Inr certificate_ok_def
        CERTIFICATE_BODY_LEN_def PUBLIC_KEY_LEN_def)
qed

lemma revocation_codec:
  "codec rd_input set_input (\<lambda>_. True) (\<lambda>rv. id_bytes (dr_account_id rv) @ id_bytes (dr_device_id rv) @
       u64_bytes (dr_last_accepted_device_seq rv) @ u64_bytes (dr_revoked_at_ms rv)) revocation_read"
  by (rule reader_codecI, unfold revocation_read_def reader_fields, rename_tac s rv s', case_tac rv) auto

interpretation revocation_form: statement_form revocation_statement "\<lambda>_. True"
proof
  fix body rv
  show "st_decode_body revocation_statement body = Inr rv \<longleftrightarrow>
      True \<and> st_encode_body revocation_statement rv = Inr body"
    unfolding revocation_statement_def revocation_decode_body_def statement_type.simps
    by (auto simp: whole_read [OF revocation_codec] revocation_encode_body_def)
qed (auto simp: revocation_statement_def revocation_encode_body_def REVOCATION_BODY_LEN_def)

section \<open>Properties\<close>

text \<open>C15: what a certificate verifier accepts: exactly the wire form of one container and of a
  certificate that satisfies every rule (a valid device key, an expiry after the creation, a
  web-vault expiry of at most twelve hours), under the expected identity epoch, whose container
  names the expected key and whose signature covers the body framed with the certificate label.\<close>
theorem certificate_verify_iff:
  "certificate_verify cr wire identity epoch = Inr v \<longleftrightarrow>
     (\<exists>c body sg. certificate_ok cr c \<and> certificate_encode_body c = Inr body \<and> dc_identity_epoch c = epoch \<and>
        length (sc_signature sg) = 64 \<and>
        wire = bytes_enc (u16_bytes STATEMENT_VERSION @ body) @ container_to_bytes sg \<and>
        sc_signer sg = vk_key_id cr identity \<and>
        cr_verify_strict cr (vk_bytes identity)
          (signed_message (LABEL ''sig/device-certificate'') body) (sc_signature sg) \<and>
        v = verified_new cr c (signed_message (LABEL ''sig/device-certificate'') body))"
proof -
  have "certificate_verify cr wire identity epoch = Inr v \<longleftrightarrow>
      verify_single cr (certificate_statement cr) wire identity = Inr v \<and> dc_identity_epoch (vf_statement v) = epoch"
    by (auto simp: certificate_verify_def and_then_Inr split: if_splits)
  moreover have "st_label (certificate_statement cr) = LABEL ''sig/device-certificate''"
    "st_encode_body (certificate_statement cr) = certificate_encode_body"
    by (simp_all add: certificate_statement_def)
  ultimately show ?thesis
    unfolding certificate_form.verify_iff by (metis vf_statement_new)
qed

text \<open>A label never contains the separator, and different statement types have different labels.\<close>

lemma labels_separated:
  "0 \<notin> set (LABEL ''sig/op'')" "0 \<notin> set (LABEL ''sig/snapshot'')"
  "0 \<notin> set (LABEL ''sig/device-certificate'')" "0 \<notin> set (LABEL ''sig/device-revocation'')"
  "distinct [LABEL ''sig/op'', LABEL ''sig/snapshot'', LABEL ''sig/device-certificate'', LABEL ''sig/device-revocation'']"
  by (code_simp)+

text \<open>C16: signing and verifying are inverse, and types cannot be confused. A statement a
  device signs verifies under that device's public key and comes back unchanged, as an op and as
  a snapshot statement; and no signed message of one of the two types is a signed message of the other.\<close>
theorem record_statements_sign_verify:
  assumes "crypto_laws cr"
    and "record_ok OP_HEADER_MIN_LEN OP_HEADER_MAX_LEN st" "record_ok SNAPSHOT_HEADER_MIN_LEN SNAPSHOT_HEADER_MAX_LEN st'"
  shows "(\<exists>wire. sign_single cr op_statement st key = Inr wire \<and>
      verify_single cr op_statement wire (sk_verifying_key cr key) =
        Inr (verified_new cr st (signed_message (LABEL ''sig/op'')
          (bytes_enc (rs_header st) @ rs_envelope_hash st @ wrap_hash_bytes st)))) \<and>
    (\<exists>wire. sign_single cr snapshot_statement st' key = Inr wire \<and>
      verify_single cr snapshot_statement wire (sk_verifying_key cr key) =
        Inr (verified_new cr st' (signed_message (LABEL ''sig/snapshot'')
          (bytes_enc (rs_header st') @ rs_envelope_hash st' @ wrap_hash_bytes st')))) \<and>
    signed_message (LABEL ''sig/op'') b \<noteq> signed_message (LABEL ''sig/snapshot'') b'"
proof -
  have "st_encode_body op_statement st = Inr (bytes_enc (rs_header st) @ rs_envelope_hash st @ wrap_hash_bytes st)"
    using assms(2) by (simp add: op_statement_def record_statement_type_def record_encode_Inr record_ok_def
        OP_HEADER_MAX_LEN_def OP_HEADER_MIN_LEN_def VV_ENTRY_LEN_def DOT_ENCODED_LEN_def)
  note op = op_form.sign_verify [OF assms(1,2) this, of key]
  have "st_encode_body snapshot_statement st' = Inr (bytes_enc (rs_header st') @ rs_envelope_hash st' @ wrap_hash_bytes st')"
    using assms(3) by (simp add: snapshot_statement_def record_statement_type_def record_encode_Inr record_ok_def
        SNAPSHOT_HEADER_MAX_LEN_def SNAPSHOT_HEADER_MIN_LEN_def VV_ENTRY_LEN_def DOT_ENCODED_LEN_def)
  note snap = snapshot_form.sign_verify [OF assms(1,3) this, of key]
  have "signed_message (LABEL ''sig/op'') b \<noteq> signed_message (LABEL ''sig/snapshot'') b'"
    using signed_message_inj [OF _ labels_separated(1,2), of b b'] labels_separated(5) by auto
  then show ?thesis
    using op snap
    by (auto simp: op_statement_def snapshot_statement_def record_statement_type_def)
qed

definition sample_crypto :: crypto where
  "sample_crypto =
     \<lparr> cr_sha256 = (\<lambda>m. replicate 31 0 @ [1]), cr_public_key = (\<lambda>seed. seed),
       cr_sign = (\<lambda>seed m. replicate 64 7), cr_verify_strict = (\<lambda>pk m sg. sg = replicate 64 7),
       cr_valid_point = (\<lambda>pk. True) \<rparr>"

definition sample_statement :: record_statement where
  "sample_statement = \<lparr> rs_header = replicate 97 1, rs_envelope_hash = replicate 32 5, rs_wrap_hash = None \<rparr>"

lemma sample_crypto_laws: "crypto_laws sample_crypto"
  by (simp add: crypto_laws_def sample_crypto_def)

lemma sample_statement_ok:
  "record_ok OP_HEADER_MIN_LEN OP_HEADER_MAX_LEN sample_statement"
  "record_ok SNAPSHOT_HEADER_MIN_LEN SNAPSHOT_HEADER_MAX_LEN sample_statement"
  by (simp_all add: record_ok_def sample_statement_def wrap_hash_bytes_def NO_WRAP_def HASH_LEN_def OP_HEADER_MIN_LEN_def
      OP_HEADER_MAX_LEN_def SNAPSHOT_HEADER_MIN_LEN_def SNAPSHOT_HEADER_MAX_LEN_def VV_ENTRY_LEN_def DOT_ENCODED_LEN_def)

theorem record_statements_sign_verify_witness:
  "\<exists>wire v. sign_single sample_crypto op_statement sample_statement \<lparr> sk_role = DeviceEd25519, sk_seed = [] \<rparr> = Inr wire \<and>
     vf_statement v = sample_statement \<and>
     verify_single sample_crypto op_statement wire
       (sk_verifying_key sample_crypto \<lparr> sk_role = DeviceEd25519, sk_seed = [] \<rparr>) = Inr v"
  using record_statements_sign_verify [OF sample_crypto_laws sample_statement_ok,
      of "\<lparr> sk_role = DeviceEd25519, sk_seed = [] \<rparr>" "[]" "[]"]
  by (meson vf_statement_new)

end
