(* ===== verification/Server_Intake.thy ===== *)
theory Server_Intake
  imports Signed_Statements Compaction
begin

text \<open>
  Verifying one uploaded record, \<open>rizzy-domain-vault/src/authors.rs\<close> and \<open>intake.rs\<close>: the
  certificates of an account, the signed parts the server stores, and the checks an op or
  snapshot record passes before any database rule runs. Records arrive as the wire types of
  \<open>rizzy-proto/src/vault.rs\<close>. Shown: what a verified record is, that the statement rebuilt from
  the stored parts is always the uploaded one, and that the record served later verifies again.
\<close>

section \<open>Authors\<close>

datatype author_state = Active | Suspended | Revoked u64

record author_certificate =
  ac_device_id :: device_id
  ac_verifying_key :: verifying_key
  ac_device_kind :: device_kind
  ac_expires_at_ms :: u64
  ac_status :: author_state

definition ac_expired_at :: "author_certificate \<Rightarrow> u64 \<Rightarrow> bool" where
  "ac_expired_at a now_ms \<longleftrightarrow> ac_expires_at_ms a \<noteq> 0 \<and> ac_expires_at_ms a < now_ms"

definition ac_permits_hlc :: "author_certificate \<Rightarrow> u64 \<Rightarrow> bool" where
  "ac_permits_hlc a h \<longleftrightarrow> ac_expires_at_ms a = 0 \<or> drop_bit 16 h \<le> ac_expires_at_ms a"

record authors =
  au_by_device :: "(device_id, author_certificate) btree_map"
  au_by_key :: "(id16, device_id) btree_map"

datatype duplicate_device = DuplicateDevice

definition authors_default :: authors where
  "authors_default = \<lparr> au_by_device = bt_empty, au_by_key = bt_empty \<rparr>"

fun authors_index ::
  "crypto \<Rightarrow> author_certificate list \<Rightarrow> authors \<Rightarrow> duplicate_device + authors" where
  "authors_index cr [] a = Inr a"
| "authors_index cr (cert # certs) a =
     (let key_id = vk_key_id cr (ac_verifying_key cert);
          taken_key = bt_get (au_by_key a) key_id;
          a = a \<lparr> au_by_key := bt_insert key_id (ac_device_id cert) (au_by_key a) \<rparr>
      in if taken_key \<noteq> None then Inl DuplicateDevice
         else
           let taken = bt_get (au_by_device a) (ac_device_id cert);
               a = a \<lparr> au_by_device := bt_insert (ac_device_id cert) cert (au_by_device a) \<rparr>
           in if taken \<noteq> None then Inl DuplicateDevice else authors_index cr certs a)"

definition authors_new :: "crypto \<Rightarrow> author_certificate list \<Rightarrow> duplicate_device + authors" where
  "authors_new cr certs = authors_index cr certs authors_default"

definition authors_get :: "authors \<Rightarrow> device_id \<Rightarrow> author_certificate option" where
  "authors_get a x = bt_get (au_by_device a) x"

definition authors_by_key_id :: "authors \<Rightarrow> id16 \<Rightarrow> author_certificate option" where
  "authors_by_key_id a key_id = Option.bind (bt_get (au_by_key a) key_id) (bt_get (au_by_device a))"

definition author_cutoff :: "author_certificate \<Rightarrow> (device_id \<times> u64) option" where
  "author_cutoff c =
     (case ac_status c of Revoked bnd \<Rightarrow> Some (ac_device_id c, bnd) | _ \<Rightarrow> None)"

definition authors_cutoffs :: "authors \<Rightarrow> (device_id, u64) btree_map" where
  "authors_cutoffs a = bt_collect (List.map_filter author_cutoff (bt_values (au_by_device a)))"

section \<open>Records on the wire\<close>

record record_key_wrap =
  rk_item_key_id :: id16
  rk_envelope :: bytes

record op_record =
  pr_statement :: bytes
  pr_body :: "bytes option"
  pr_key_wrap :: "record_key_wrap option"

record snapshot_record =
  ps_statement :: bytes
  ps_envelope :: bytes
  ps_key_wrap :: "record_key_wrap option"

datatype wire_record = ROp op_record | RSnapshot snapshot_record

section \<open>The signed parts\<close>

record signed_parts =
  sg_header :: bytes
  sg_envelope_hash :: bytes
  sg_wrap_hash :: bytes
  sg_container :: bytes

definition signed_wire :: "signed_parts \<Rightarrow> core_encode_error + bytes" where
  "signed_wire sg =
     and_then (put_bytes (put_u16 [] STATEMENT_VERSION) (sg_header sg)) (\<lambda>versioned.
     let versioned = versioned @ sg_envelope_hash sg @ sg_wrap_hash sg
     in and_then (put_bytes [] versioned) (\<lambda>out. Inr (out @ sg_container sg)))"

datatype intake_error = UnknownSigner | BadStatement | WrongOwner | BadAttachment | OutOfRange

record carried_wrap =
  cw_item_key_id :: id16
  cw_envelope :: bytes

record verified_op =
  vo_header :: op_header
  vo_signed :: signed_parts
  vo_body :: "bytes option"
  vo_key_wrap :: "carried_wrap option"
  vo_author :: author_certificate

record verified_snapshot =
  vs_header :: snapshot_header
  vs_signed :: signed_parts
  vs_envelope :: bytes
  vs_key_wrap :: "carried_wrap option"
  vs_author :: author_certificate

datatype wrap_rule = WrapRequired | WrapOptional

definition find_signer ::
  "bytes \<Rightarrow> authors \<Rightarrow> intake_error + (author_certificate \<times> bytes)" where
  "find_signer wire a =
     (if length wire < CONTAINER_LEN then Inl UnknownSigner
      else
        and_then (map_err (\<lambda>_. UnknownSigner) (container_from_bytes (drop (length wire - CONTAINER_LEN) wire)))
          (\<lambda>c.
        and_then (ok_or UnknownSigner (authors_by_key_id a (sc_signer c))) (\<lambda>cert.
        Inr (cert, container_to_bytes c))))"

definition carry_wrap ::
  "record_key_wrap option \<Rightarrow> bool \<Rightarrow> (bytes \<Rightarrow> bool) \<Rightarrow> wrap_rule \<Rightarrow> intake_error + carried_wrap option" where
  "carry_wrap wrap signed_wrap matches rule =
     (case wrap of
        Some w \<Rightarrow>
          if matches (rk_envelope w)
          then Inr (Some \<lparr> cw_item_key_id = rk_item_key_id w, cw_envelope = rk_envelope w \<rparr>)
          else Inl BadAttachment
      | None \<Rightarrow> if signed_wrap \<and> rule = WrapRequired then Inl BadAttachment else Inr None)"

text \<open>\<open>i64::try_from(v).is_ok()\<close>: what an SQL integer column holds.\<close>

definition sql_fits :: "u64 \<Rightarrow> bool" where
  "sql_fits v \<longleftrightarrow> unat v < 2 ^ 63"

definition fits_sql :: "u64 list \<Rightarrow> intake_error + unit" where
  "fits_sql values' = (if list_all sql_fits values' then Inr () else Inl OutOfRange)"

definition parts_of :: "record_statement \<Rightarrow> bytes \<Rightarrow> signed_parts" where
  "parts_of st container =
     \<lparr> sg_header = rs_header st, sg_envelope_hash = rs_envelope_hash st,
       sg_wrap_hash = wrap_hash_bytes st, sg_container = container \<rparr>"

definition same_wire :: "signed_parts \<Rightarrow> bytes \<Rightarrow> intake_error + unit" where
  "same_wire sg wire =
     and_then (map_err (\<lambda>_. BadStatement) (signed_wire sg)) (\<lambda>w.
     if w \<noteq> wire then Inl BadStatement else Inr ())"

definition carried_body ::
  "crypto \<Rightarrow> record_statement \<Rightarrow> bytes option \<Rightarrow> bool \<Rightarrow> intake_error + bytes option" where
  "carried_body cr st body body_required =
     (case body of
        Some b \<Rightarrow> if matches_envelope cr st b then Inr (Some b) else Inl BadAttachment
      | None \<Rightarrow> if body_required then Inl BadAttachment else Inr None)"

definition verify_op ::
  "crypto \<Rightarrow> op_record \<Rightarrow> id16 \<Rightarrow> authors \<Rightarrow> bool \<Rightarrow> wrap_rule \<Rightarrow> intake_error + verified_op" where
  "verify_op cr record vault_id a body_required rule =
     (let wire = pr_statement record in
      and_then (find_signer wire a) (\<lambda>(author, container).
      and_then (map_err (\<lambda>_. BadStatement) (verify_single cr op_statement wire (ac_verifying_key author))) (\<lambda>v.
      let st = vf_statement v in
      and_then (map_err (\<lambda>_. BadStatement) (op_header_parse (rs_header st))) (\<lambda>header.
      if dot_device (oh_dot header) \<noteq> ac_device_id author then Inl WrongOwner
      else if oh_vault_id header \<noteq> vault_id then Inl WrongOwner
      else
        and_then (fits_sql [dot_seq (oh_dot header), oh_vault_prev_seq header, oh_hlc header]) (\<lambda>_.
        and_then (carried_body cr st (pr_body record) body_required) (\<lambda>body.
        and_then (carry_wrap (pr_key_wrap record) (rs_wrap_hash st \<noteq> None) (matches_wrap cr st) rule) (\<lambda>key_wrap.
        and_then (same_wire (parts_of st container) wire) (\<lambda>_.
        Inr \<lparr> vo_header = header, vo_signed = parts_of st container, vo_body = body, vo_key_wrap = key_wrap,
              vo_author = author \<rparr>))))))))"

definition verify_snapshot ::
  "crypto \<Rightarrow> snapshot_record \<Rightarrow> id16 \<Rightarrow> authors \<Rightarrow> wrap_rule \<Rightarrow> intake_error + verified_snapshot" where
  "verify_snapshot cr record vault_id a rule =
     (let wire = ps_statement record in
      and_then (find_signer wire a) (\<lambda>(author, container).
      and_then (map_err (\<lambda>_. BadStatement) (verify_single cr snapshot_statement wire (ac_verifying_key author))) (\<lambda>v.
      let st = vf_statement v in
      and_then (map_err (\<lambda>_. BadStatement) (snapshot_header_parse (rs_header st))) (\<lambda>header.
      if sh_author header \<noteq> ac_device_id author then Inl WrongOwner
      else if sh_vault_id header \<noteq> vault_id then Inl WrongOwner
      else if \<not> matches_envelope cr st (ps_envelope record) then Inl BadAttachment
      else
        and_then (carry_wrap (ps_key_wrap record) (rs_wrap_hash st \<noteq> None) (matches_wrap cr st) rule) (\<lambda>key_wrap.
        and_then (same_wire (parts_of st container) wire) (\<lambda>_.
        Inr \<lparr> vs_header = header, vs_signed = parts_of st container, vs_envelope = ps_envelope record,
              vs_key_wrap = key_wrap, vs_author = author \<rparr>))))))"

definition snapshot_envelope_hash :: "crypto \<Rightarrow> bytes \<Rightarrow> bytes \<Rightarrow> core_encode_error + bytes" where
  "snapshot_envelope_hash cr header envelope =
     and_then (record_statement_new cr SNAPSHOT_HEADER_MIN_LEN SNAPSHOT_HEADER_MAX_LEN header envelope None)
       (\<lambda>st. Inr (rs_envelope_hash st))"

section \<open>What verification establishes\<close>

lemma signed_wire_Inr:
  "signed_wire sg = Inr w \<longleftrightarrow> length (sg_header sg) < 2 ^ 32 \<and>
     length (u16_bytes STATEMENT_VERSION @ bytes_enc (sg_header sg) @ sg_envelope_hash sg @ sg_wrap_hash sg) < 2 ^ 32 \<and>
     w = bytes_enc (u16_bytes STATEMENT_VERSION @ bytes_enc (sg_header sg) @ sg_envelope_hash sg @ sg_wrap_hash sg) @
       sg_container sg"
  by (auto simp: signed_wire_def and_then_Inr put_bytes_Inr put_u16_def Let_def)

lemma find_signer_Inr:
  assumes "find_signer wire a = Inr (cert, cont)"
  obtains c pre where "length (sc_signature c) = 64" "wire = pre @ container_to_bytes c" "cont = container_to_bytes c"
    "authors_by_key_id a (sc_signer c) = Some cert"
  using assms
  by (auto simp: find_signer_def and_then_Inr ok_or_Inr container_one_encoding split: if_splits)
     (metis append_take_drop_id)

lemma same_wire_Inr [simp]: "same_wire sg wire = Inr u \<longleftrightarrow> signed_wire sg = Inr wire"
  by (auto simp: same_wire_def and_then_Inr)

text \<open>The signed parts of a verified record: the server stores these and rebuilds the statement
  from them.\<close>

definition parts_ok :: "crypto \<Rightarrow> record_statement statement_type \<Rightarrow> usize \<Rightarrow> usize \<Rightarrow> verifying_key \<Rightarrow> signed_parts \<Rightarrow> bool" where
  "parts_ok cr S mn mx key sg \<longleftrightarrow>
     mn \<le> length (sg_header sg) \<and> length (sg_header sg) \<le> mx \<and> length (sg_envelope_hash sg) = 32 \<and>
     length (sg_wrap_hash sg) = 32 \<and> length (sg_container sg) = 82 \<and>
     (\<exists>wire v. signed_wire sg = Inr wire \<and> verify_single cr S wire key = Inr v \<and>
        sg = parts_of (vf_statement v) (sg_container sg))"

lemma rebuilt_statement:
  assumes f: "find_signer wire a = Inr (au, cont)"
    and v: "verify_single cr (record_statement_type l mn mx) wire key = Inr v" and mx: "mx + 100 < 2 ^ 32"
  shows "signed_wire (parts_of (vf_statement v) cont) = Inr wire"
    and "parts_ok cr (record_statement_type l mn mx) mn mx key (parts_of (vf_statement v) cont)"
proof -
  obtain c pre where c: "length (sc_signature c) = 64" "wire = pre @ container_to_bytes c" "cont = container_to_bytes c"
    using find_signer_Inr [OF f] by metis
  obtain body where b: "record_encode_body (vf_statement v) = Inr body" "record_ok mn mx (vf_statement v)"
    "pre = bytes_enc (u16_bytes STATEMENT_VERSION @ body)"
    using statement_form.verified_tail [OF record_form [OF mx], of cr l mn pre c key v] v c(1,2)
    by (auto simp: record_statement_type_def)
  note ok = b(2) [unfolded record_ok_def]
  show w: "signed_wire (parts_of (vf_statement v) cont) = Inr wire"
    using b(1,3) ok c mx unfolding signed_wire_Inr record_encode_Inr
    by (simp add: parts_of_def bytes_enc_def)
  show "parts_ok cr (record_statement_type l mn mx) mn mx key (parts_of (vf_statement v) cont)"
    unfolding parts_ok_def using w v ok c by (auto simp: parts_of_def length_container)
qed

lemma op_bound: "OP_HEADER_MAX_LEN + 100 < 2 ^ 32"
  by (simp add: OP_HEADER_MAX_LEN_def OP_HEADER_MIN_LEN_def VV_ENTRY_LEN_def DOT_ENCODED_LEN_def)

lemma snapshot_bound: "SNAPSHOT_HEADER_MAX_LEN + 100 < 2 ^ 32"
  by (simp add: SNAPSHOT_HEADER_MAX_LEN_def SNAPSHOT_HEADER_MIN_LEN_def VV_ENTRY_LEN_def DOT_ENCODED_LEN_def)

abbreviation op_parts_ok :: "crypto \<Rightarrow> verifying_key \<Rightarrow> signed_parts \<Rightarrow> bool" where
  "op_parts_ok cr \<equiv> parts_ok cr op_statement OP_HEADER_MIN_LEN OP_HEADER_MAX_LEN"

abbreviation snapshot_parts_ok :: "crypto \<Rightarrow> verifying_key \<Rightarrow> signed_parts \<Rightarrow> bool" where
  "snapshot_parts_ok cr \<equiv> parts_ok cr snapshot_statement SNAPSHOT_HEADER_MIN_LEN SNAPSHOT_HEADER_MAX_LEN"

lemma carry_wrap_Inr:
  "carry_wrap w sw m rule = Inr cw \<longleftrightarrow>
     (case w of None \<Rightarrow> cw = None \<and> \<not> (sw \<and> rule = WrapRequired)
      | Some w \<Rightarrow> m (rk_envelope w) \<and> cw = Some \<lparr> cw_item_key_id = rk_item_key_id w, cw_envelope = rk_envelope w \<rparr>)"
  by (auto simp: carry_wrap_def split: option.splits)

lemma carried_body_Inr:
  "carried_body cr st b req = Inr b' \<longleftrightarrow> b' = b \<and> (b = None \<longrightarrow> \<not> req) \<and> (\<forall>x. b = Some x \<longrightarrow> matches_envelope cr st x)"
  by (auto simp: carried_body_def split: option.splits)

lemma fits_sql_Inr [simp]: "fits_sql xs = Inr u \<longleftrightarrow> list_all sql_fits xs"
  by (simp add: fits_sql_def)

lemma verify_op_iff:
  "verify_op cr r v a req rule = Inr vo \<longleftrightarrow>
     (\<exists>cont ver. find_signer (pr_statement r) a = Inr (vo_author vo, cont) \<and>
        verify_single cr op_statement (pr_statement r) (ac_verifying_key (vo_author vo)) = Inr ver \<and>
        op_header_parse (rs_header (vf_statement ver)) = Inr (vo_header vo) \<and>
        dot_device (oh_dot (vo_header vo)) = ac_device_id (vo_author vo) \<and> oh_vault_id (vo_header vo) = v \<and>
        list_all sql_fits [dot_seq (oh_dot (vo_header vo)), oh_vault_prev_seq (vo_header vo), oh_hlc (vo_header vo)] \<and>
        carried_body cr (vf_statement ver) (pr_body r) req = Inr (vo_body vo) \<and>
        carry_wrap (pr_key_wrap r) (rs_wrap_hash (vf_statement ver) \<noteq> None) (matches_wrap cr (vf_statement ver)) rule =
          Inr (vo_key_wrap vo) \<and>
        signed_wire (vo_signed vo) = Inr (pr_statement r) \<and> vo_signed vo = parts_of (vf_statement ver) cont)"
  (is "?l \<longleftrightarrow> ?r")
proof
  assume ?l
  then show ?r by (auto simp: verify_op_def Let_def and_then_Inr split: if_splits)
next
  assume ?r
  then show ?l by (cases vo) (auto simp: verify_op_def Let_def fits_sql_def same_wire_def)
qed

lemma verify_op_facts:
  assumes "verify_op cr r v a req rule = Inr vo"
  shows "signed_wire (vo_signed vo) = Inr (pr_statement r)"
    "op_parts_ok cr (ac_verifying_key (vo_author vo)) (vo_signed vo)"
    "op_header_parse (sg_header (vo_signed vo)) = Inr (vo_header vo)"
    "dot_device (oh_dot (vo_header vo)) = ac_device_id (vo_author vo)" "oh_vault_id (vo_header vo) = v"
    "sql_fits (dot_seq (oh_dot (vo_header vo)))" "sql_fits (oh_vault_prev_seq (vo_header vo))"
    "sql_fits (oh_hlc (vo_header vo))"
    "vo_body vo = pr_body r" "vo_body vo = None \<Longrightarrow> \<not> req"
    "vo_body vo = Some b \<Longrightarrow> cr_sha256 cr b = sg_envelope_hash (vo_signed vo)"
    "vo_key_wrap vo = Some w \<Longrightarrow> cr_sha256 cr (cw_envelope w) = sg_wrap_hash (vo_signed vo)"
    "\<exists>k. authors_by_key_id a k = Some (vo_author vo)"
proof -
  obtain cont ver where s:
    "find_signer (pr_statement r) a = Inr (vo_author vo, cont)"
    "verify_single cr op_statement (pr_statement r) (ac_verifying_key (vo_author vo)) = Inr ver"
    "op_header_parse (rs_header (vf_statement ver)) = Inr (vo_header vo)"
    "dot_device (oh_dot (vo_header vo)) = ac_device_id (vo_author vo)" "oh_vault_id (vo_header vo) = v"
    "list_all sql_fits [dot_seq (oh_dot (vo_header vo)), oh_vault_prev_seq (vo_header vo), oh_hlc (vo_header vo)]"
    "carried_body cr (vf_statement ver) (pr_body r) req = Inr (vo_body vo)"
    "carry_wrap (pr_key_wrap r) (rs_wrap_hash (vf_statement ver) \<noteq> None) (matches_wrap cr (vf_statement ver)) rule =
       Inr (vo_key_wrap vo)"
    "signed_wire (vo_signed vo) = Inr (pr_statement r)" "vo_signed vo = parts_of (vf_statement ver) cont"
    using assms unfolding verify_op_iff by blast
  note parts = rebuilt_statement(2) [OF s(1) s(2)[unfolded op_statement_def] op_bound, folded op_statement_def]
  show "signed_wire (vo_signed vo) = Inr (pr_statement r)" using s by simp
  show "op_parts_ok cr (ac_verifying_key (vo_author vo)) (vo_signed vo)" using s(10) parts by simp
  show "op_header_parse (sg_header (vo_signed vo)) = Inr (vo_header vo)"
    "dot_device (oh_dot (vo_header vo)) = ac_device_id (vo_author vo)" "oh_vault_id (vo_header vo) = v"
    "sql_fits (dot_seq (oh_dot (vo_header vo)))" "sql_fits (oh_vault_prev_seq (vo_header vo))"
    "sql_fits (oh_hlc (vo_header vo))"
    using s by (simp_all add: parts_of_def)
  show "vo_body vo = pr_body r" "vo_body vo = None \<Longrightarrow> \<not> req"
    using s(7,10) by (auto simp: carried_body_Inr)
  show "vo_body vo = Some b \<Longrightarrow> cr_sha256 cr b = sg_envelope_hash (vo_signed vo)"
    using s(7,10) by (auto simp: carried_body_Inr matches_envelope_def parts_of_def)
  show "vo_key_wrap vo = Some w \<Longrightarrow> cr_sha256 cr (cw_envelope w) = sg_wrap_hash (vo_signed vo)"
    using s(8,10) by (auto simp: carry_wrap_Inr matches_wrap_def parts_of_def wrap_hash_bytes_def split: option.splits)
  show "\<exists>k. authors_by_key_id a k = Some (vo_author vo)" using find_signer_Inr [OF s(1)] by metis
qed

lemma verify_snapshot_facts:
  assumes "verify_snapshot cr r v a rule = Inr vs"
  shows "signed_wire (vs_signed vs) = Inr (ps_statement r)"
    "snapshot_parts_ok cr (ac_verifying_key (vs_author vs)) (vs_signed vs)"
    "snapshot_header_parse (sg_header (vs_signed vs)) = Inr (vs_header vs)"
    "sh_author (vs_header vs) = ac_device_id (vs_author vs)" "sh_vault_id (vs_header vs) = v"
    "vs_envelope vs = ps_envelope r" "cr_sha256 cr (vs_envelope vs) = sg_envelope_hash (vs_signed vs)"
    "vs_key_wrap vs = Some w \<Longrightarrow> cr_sha256 cr (cw_envelope w) = sg_wrap_hash (vs_signed vs)"
    "\<exists>k. authors_by_key_id a k = Some (vs_author vs)"
proof -
  obtain au cont ver h kw where s:
    "find_signer (ps_statement r) a = Inr (au, cont)"
    "verify_single cr snapshot_statement (ps_statement r) (ac_verifying_key au) = Inr ver"
    "snapshot_header_parse (rs_header (vf_statement ver)) = Inr h"
    "sh_author h = ac_device_id au" "sh_vault_id h = v"
    "matches_envelope cr (vf_statement ver) (ps_envelope r)"
    "carry_wrap (ps_key_wrap r) (rs_wrap_hash (vf_statement ver) \<noteq> None) (matches_wrap cr (vf_statement ver)) rule = Inr kw"
    "signed_wire (parts_of (vf_statement ver) cont) = Inr (ps_statement r)"
    "vs = \<lparr> vs_header = h, vs_signed = parts_of (vf_statement ver) cont, vs_envelope = ps_envelope r,
       vs_key_wrap = kw, vs_author = au \<rparr>"
    using assms by (auto simp: verify_snapshot_def Let_def and_then_Inr split: if_splits)
  note parts = rebuilt_statement(2) [OF s(1) s(2)[unfolded snapshot_statement_def] snapshot_bound, folded snapshot_statement_def]
  show "signed_wire (vs_signed vs) = Inr (ps_statement r)" using s by simp
  show "snapshot_parts_ok cr (ac_verifying_key (vs_author vs)) (vs_signed vs)" using s(9) parts by simp
  show "snapshot_header_parse (sg_header (vs_signed vs)) = Inr (vs_header vs)"
    "sh_author (vs_header vs) = ac_device_id (vs_author vs)" "sh_vault_id (vs_header vs) = v"
    "vs_envelope vs = ps_envelope r" "cr_sha256 cr (vs_envelope vs) = sg_envelope_hash (vs_signed vs)"
    using s by (simp_all add: parts_of_def matches_envelope_def)
  show "vs_key_wrap vs = Some w \<Longrightarrow> cr_sha256 cr (cw_envelope w) = sg_wrap_hash (vs_signed vs)"
    using s(7,9) by (auto simp: carry_wrap_Inr matches_wrap_def parts_of_def wrap_hash_bytes_def split: option.splits)
  show "\<exists>k. authors_by_key_id a k = Some (vs_author vs)" using find_signer_Inr [OF s(1)] s(9) by (metis verified_snapshot.select_convs(5))
qed

text \<open>A record the server accepted verifies again, byte for byte. The statement
  rebuilt from the stored parts of a verified op is the uploaded statement, and served without
  its body or its wrap, as compaction and rotation leave it, it still verifies to the same
  header and parts under the same certificates.\<close>
lemma served_op_verifies:
  assumes "verify_op cr r v a req rule = Inr vo" "signed_wire (vo_signed vo) = Inr wire"
  shows "wire = pr_statement r \<and>
    verify_op cr \<lparr> pr_statement = wire, pr_body = (if keep_body then pr_body r else None),
        pr_key_wrap = (if keep_wrap then pr_key_wrap r else None) \<rparr> v a False WrapOptional =
      Inr (vo \<lparr> vo_body := (if keep_body then vo_body vo else None),
                vo_key_wrap := (if keep_wrap then vo_key_wrap vo else None) \<rparr>)"
proof -
  have w: "wire = pr_statement r" using verify_op_facts(1) [OF assms(1)] assms(2) by simp
  show ?thesis
    using assms(1) unfolding w verify_op_iff
    by (auto simp: carried_body_Inr carry_wrap_Inr split: option.splits)
qed

end
