(* ===== verification/Server_Tables.thy ===== *)
theory Server_Tables
  imports Server_Intake "HOL-Library.Product_Lexorder"
begin

text \<open>
  The vault domain's tables and queries: \<open>rizzy-domain-vault/src/repo.rs\<close>, the \<open>.sql\<close> texts
  under \<open>queries/\<close> and the schema of \<open>rizzy-storage/migrations/*/0002_vault_initial.sql\<close>.

  A table is an ordered map from its primary key to the remaining columns. The schema's \<open>CHECK\<close>
  constraints (16-byte ids, non-negative integers) are the types of the columns; byte columns
  without a length constraint are byte strings, and reading one back checks its shape as the
  code does. An \<open>INSERT\<close> that breaks a primary key or a uniqueness constraint is the error
  \<open>Storage\<close>. A query returns its rows in the order of its \<open>ORDER BY\<close>, and otherwise in key order.
  Failures of the database itself (I/O, lost connections) are not modelled; a transaction that
  fails leaves the database unchanged because its caller drops the new value.
\<close>

section \<open>Rows\<close>

datatype vault_error =
    NotFound
  | VaultInvalid
  | StateConflict
  | Storage
  | Directory
  | NoRestoreGeneration
  | Corrupt
  | WrapSetTooLarge

record vault_row =
  vr_account_id :: id16
  vr_vault_key_epoch :: u32
  vr_next_store_seq :: u64
  vr_created_at_ms :: u64

record op_row =
  or_item_id :: id16
  or_op_id :: id16
  or_vault_prev_seq :: u64
  or_hlc :: u64
  or_item_schema_version :: u16
  or_vault_key_epoch :: u32
  or_header :: bytes
  or_body_hash :: bytes
  or_wrap_hash :: bytes
  or_signature :: bytes
  or_body :: "bytes option"
  or_key_wrap :: "bytes option"
  or_stored_at_ms :: u64

record snapshot_row =
  sr_item_id :: id16
  sr_author_device_id :: device_id
  sr_item_schema_version :: u16
  sr_vault_key_epoch :: u32
  sr_header :: bytes
  sr_envelope :: bytes
  sr_wrap_hash :: bytes
  sr_signature :: bytes
  sr_key_wrap :: "bytes option"
  sr_clamped_vv :: bytes
  sr_store_seq :: u64
  sr_stored_at_ms :: u64

record wrap_columns =
  wc_vault_key_epoch :: u32
  wc_envelope :: bytes
  wc_updated_at_ms :: u64

record self_grant_columns =
  gc_account_key_epoch :: u32
  gc_vault_key_epoch :: u32
  gc_envelope :: bytes
  gc_updated_at_ms :: u64

record vault_db =
  db_vaults :: "(id16, vault_row) btree_map"
  db_self_grants :: "(id16, self_grant_columns) btree_map"
  db_wraps :: "(id16 \<times> id16 \<times> id16, wrap_columns) btree_map"
  db_ops :: "(id16 \<times> dot, op_row) btree_map"
  db_snapshots :: "(id16 \<times> id16, snapshot_row) btree_map"
  db_queue :: "(id16 \<times> id16, u64) btree_map"
  db_restore_generation :: "bytes option"

text \<open>The rows of a map whose key satisfies a condition, in key order: a \<open>WHERE\<close> on the key.\<close>

definition rows_where :: "('k \<Rightarrow> bool) \<Rightarrow> ('k :: linorder, 'v) btree_map \<Rightarrow> ('k \<times> 'v) list" where
  "rows_where P m = filter (\<lambda>(k, _). P k) (bt_entries m)"

text \<open>\<open>collect::<Result<Vec<_>, _>>\<close>: the first error ends the collection.\<close>

fun try_map :: "('a \<Rightarrow> 'e + 'b) \<Rightarrow> 'a list \<Rightarrow> 'e + 'b list" where
  "try_map f [] = Inr []"
| "try_map f (x # xs) = and_then (f x) (\<lambda>y. and_then (try_map f xs) (\<lambda>ys. Inr (y # ys)))"

definition u64_to_sql :: "u64 \<Rightarrow> vault_error + u64" where
  "u64_to_sql v = (if sql_fits v then Inr v else Inl Storage)"

definition hash32 :: "bytes \<Rightarrow> vault_error + bytes" where
  "hash32 bs = (if length bs = HASH_LEN then Inr bs else Inl Corrupt)"

definition container_column :: "bytes \<Rightarrow> vault_error + bytes" where
  "container_column bs = (if length bs = CONTAINER_LEN then Inr bs else Inl Corrupt)"

section \<open>Vaults\<close>

definition repo_vault :: "vault_db \<Rightarrow> id16 \<Rightarrow> vault_row option" where
  "repo_vault db v = bt_get (db_vaults db) v"

definition insert_vault :: "vault_db \<Rightarrow> id16 \<Rightarrow> id16 \<Rightarrow> u32 \<Rightarrow> u64 \<Rightarrow> vault_error + vault_db" where
  "insert_vault db v account epoch now_ms =
     (if bt_get (db_vaults db) v \<noteq> None then Inl Storage
      else Inr (db \<lparr> db_vaults := bt_insert v
        \<lparr> vr_account_id = account, vr_vault_key_epoch = epoch, vr_next_store_seq = 1, vr_created_at_ms = now_ms \<rparr>
        (db_vaults db) \<rparr>))"

definition list_vaults :: "vault_db \<Rightarrow> id16 \<Rightarrow> id16 list" where
  "list_vaults db account =
     map fst (filter (\<lambda>(_, r). vr_account_id r = account) (bt_entries (db_vaults db)))"

definition ops_of :: "vault_db \<Rightarrow> id16 \<Rightarrow> (dot \<times> op_row) list" where
  "ops_of db v = map (\<lambda>((_, d), r). (d, r)) (rows_where (\<lambda>(v', _). v' = v) (db_ops db))"

definition snapshots_of :: "vault_db \<Rightarrow> id16 \<Rightarrow> (id16 \<times> snapshot_row) list" where
  "snapshots_of db v = map (\<lambda>((_, s), r). (s, r)) (rows_where (\<lambda>(v', _). v' = v) (db_snapshots db))"

definition max_record_epoch :: "vault_db \<Rightarrow> id16 \<Rightarrow> u32 option" where
  "max_record_epoch db v =
     max_opt (map (or_vault_key_epoch \<circ> snd) (ops_of db v) @ map (sr_vault_key_epoch \<circ> snd) (snapshots_of db v))"

text \<open>An \<open>UPDATE\<close> of one vault row; no row, no change.\<close>

definition update_vault :: "id16 \<Rightarrow> (vault_row \<Rightarrow> vault_row) \<Rightarrow> vault_db \<Rightarrow> vault_db" where
  "update_vault v f db =
     (case bt_get (db_vaults db) v of
        None \<Rightarrow> db
      | Some r \<Rightarrow> db \<lparr> db_vaults := bt_insert v (f r) (db_vaults db) \<rparr>)"

text \<open>\<open>next_store_seq + 1\<close> is SQL arithmetic on a signed column; past its range the statement fails.\<close>

definition advance_store_seq :: "vault_db \<Rightarrow> id16 \<Rightarrow> vault_error + vault_db" where
  "advance_store_seq db v =
     (case bt_get (db_vaults db) v of
        None \<Rightarrow> Inr db
      | Some r \<Rightarrow>
          if sql_fits (vr_next_store_seq r + 1)
          then Inr (update_vault v (\<lambda>r. r \<lparr> vr_next_store_seq := vr_next_store_seq r + 1 \<rparr>) db)
          else Inl Storage)"

definition set_vault_epoch :: "vault_db \<Rightarrow> id16 \<Rightarrow> u32 \<Rightarrow> vault_db" where
  "set_vault_epoch db v epoch = update_vault v (\<lambda>r. r \<lparr> vr_vault_key_epoch := epoch \<rparr>) db"

text \<open>\<open>SELECT device_id, MAX(device_seq) \<dots> GROUP BY device_id\<close>, one dot per device.\<close>

definition heads_rows :: "vault_db \<Rightarrow> id16 \<Rightarrow> dot list" where
  "heads_rows db v =
     (let dots = map fst (ops_of db v)
      in List.map_filter (\<lambda>x. max_opt (filter (\<lambda>d. dot_device d = x) dots)) (remdups (map dot_device dots)))"

definition repo_heads :: "vault_db \<Rightarrow> id16 \<Rightarrow> version_vector" where
  "repo_heads db v = vv_from_iter (heads_rows db v)"

section \<open>Ops\<close>

record stored_record =
  sd_signed :: signed_parts
  sd_body :: "bytes option"
  sd_key_wrap :: "bytes option"

definition stored_op :: "op_row \<Rightarrow> vault_error + stored_record" where
  "stored_op r =
     and_then (hash32 (or_body_hash r)) (\<lambda>bh.
     and_then (hash32 (or_wrap_hash r)) (\<lambda>wh.
     and_then (container_column (or_signature r)) (\<lambda>c.
     Inr \<lparr> sd_signed = \<lparr> sg_header = or_header r, sg_envelope_hash = bh, sg_wrap_hash = wh, sg_container = c \<rparr>,
           sd_body = or_body r, sd_key_wrap = or_key_wrap r \<rparr>)))"

definition get_op :: "vault_db \<Rightarrow> id16 \<Rightarrow> dot \<Rightarrow> vault_error + stored_record option" where
  "get_op db v d =
     and_then (u64_to_sql (dot_seq d)) (\<lambda>_.
     case bt_get (db_ops db) (v, d) of
       None \<Rightarrow> Inr None
     | Some r \<Rightarrow> and_then (stored_op r) (\<lambda>s. Inr (Some s)))"

definition insert_op :: "vault_db \<Rightarrow> id16 \<Rightarrow> verified_op \<Rightarrow> u64 \<Rightarrow> vault_error + vault_db" where
  "insert_op db v vo now_ms =
     (let h = vo_header vo in
      and_then (u64_to_sql (dot_seq (oh_dot h))) (\<lambda>_.
      and_then (u64_to_sql (oh_vault_prev_seq h)) (\<lambda>prev.
      and_then (u64_to_sql (oh_hlc h)) (\<lambda>hlc'.
      if bt_get (db_ops db) (v, oh_dot h) \<noteq> None then Inl Storage
      else Inr (db \<lparr> db_ops := bt_insert (v, oh_dot h)
        \<lparr> or_item_id = oh_item_id h, or_op_id = oh_op_id h, or_vault_prev_seq = prev, or_hlc = hlc',
          or_item_schema_version = isv_get (oh_item_schema_version h), or_vault_key_epoch = oh_vault_key_epoch h,
          or_header = sg_header (vo_signed vo), or_body_hash = sg_envelope_hash (vo_signed vo),
          or_wrap_hash = sg_wrap_hash (vo_signed vo), or_signature = sg_container (vo_signed vo),
          or_body = vo_body vo, or_key_wrap = map_option cw_envelope (vo_key_wrap vo), or_stored_at_ms = now_ms \<rparr>
        (db_ops db) \<rparr>)))))"

record fetched_op =
  fo_dot :: dot
  fo_item_id :: id16
  fo_record :: stored_record

definition fetched_row :: "dot \<times> op_row \<Rightarrow> vault_error + fetched_op" where
  "fetched_row = (\<lambda>(d, r). and_then (stored_op r) (\<lambda>s.
     Inr \<lparr> fo_dot = d, fo_item_id = or_item_id r, fo_record = s \<rparr>))"

text \<open>Keys are ordered by device and sequence number, so the rows of one device come in chain order.\<close>

definition ops_after :: "vault_db \<Rightarrow> id16 \<Rightarrow> device_id \<Rightarrow> u64 \<Rightarrow> usize \<Rightarrow> vault_error + fetched_op list" where
  "ops_after db v x after limit =
     try_map fetched_row
       (take limit (filter (\<lambda>(d, _). dot_device d = x \<and> after < dot_seq d) (ops_of db v)))"

definition item_op_dots :: "vault_db \<Rightarrow> id16 \<Rightarrow> id16 \<Rightarrow> op_dot list" where
  "item_op_dots db v i =
     map (\<lambda>(d, r). \<lparr> op_dot_dot = d, op_dot_body = (if or_body r = None then Absent else Held) \<rparr>)
       (filter (\<lambda>(_, r). or_item_id r = i) (ops_of db v))"

text \<open>\<open>UPDATE vault_ops \<dots> WHERE\<close> the whole key and the item match.\<close>

definition delete_body :: "vault_db \<Rightarrow> id16 \<Rightarrow> id16 \<Rightarrow> dot \<Rightarrow> vault_error + vault_db" where
  "delete_body db v i d =
     and_then (u64_to_sql (dot_seq d)) (\<lambda>_.
     Inr (db \<lparr> db_ops := bt_retain_map (\<lambda>k r. Some (if k = (v, d) \<and> or_item_id r = i
       then r \<lparr> or_body := None \<rparr> else r)) (db_ops db) \<rparr>))"

section \<open>Snapshots\<close>

definition stored_snapshot :: "crypto \<Rightarrow> snapshot_row \<Rightarrow> vault_error + stored_record" where
  "stored_snapshot cr r =
     and_then (map_err (\<lambda>_. Corrupt) (snapshot_envelope_hash cr (sr_header r) (sr_envelope r))) (\<lambda>eh.
     and_then (hash32 (sr_wrap_hash r)) (\<lambda>wh.
     and_then (container_column (sr_signature r)) (\<lambda>c.
     Inr \<lparr> sd_signed = \<lparr> sg_header = sr_header r, sg_envelope_hash = eh, sg_wrap_hash = wh, sg_container = c \<rparr>,
           sd_body = Some (sr_envelope r), sd_key_wrap = sr_key_wrap r \<rparr>)))"

definition get_snapshot :: "crypto \<Rightarrow> vault_db \<Rightarrow> id16 \<Rightarrow> id16 \<Rightarrow> vault_error + stored_record option" where
  "get_snapshot cr db v s =
     (case bt_get (db_snapshots db) (v, s) of
        None \<Rightarrow> Inr None
      | Some r \<Rightarrow> and_then (stored_snapshot cr r) (\<lambda>x. Inr (Some x)))"

definition insert_snapshot ::
  "vault_db \<Rightarrow> id16 \<Rightarrow> verified_snapshot \<Rightarrow> bytes \<Rightarrow> u64 \<Rightarrow> u64 \<Rightarrow> vault_error + vault_db" where
  "insert_snapshot db v vs clamped' store_seq' now_ms =
     (let h = vs_header vs in
      and_then (u64_to_sql store_seq') (\<lambda>sq.
      if bt_get (db_snapshots db) (v, sh_snapshot_id h) \<noteq> None \<or>
         list_ex (\<lambda>(_, r). sr_store_seq r = sq) (snapshots_of db v)
      then Inl Storage
      else Inr (db \<lparr> db_snapshots := bt_insert (v, sh_snapshot_id h)
        \<lparr> sr_item_id = sh_item_id h, sr_author_device_id = sh_author h,
          sr_item_schema_version = isv_get (sh_item_schema_version h), sr_vault_key_epoch = sh_vault_key_epoch h,
          sr_header = sg_header (vs_signed vs), sr_envelope = vs_envelope vs,
          sr_wrap_hash = sg_wrap_hash (vs_signed vs), sr_signature = sg_container (vs_signed vs),
          sr_key_wrap = map_option cw_envelope (vs_key_wrap vs), sr_clamped_vv = clamped', sr_store_seq = sq,
          sr_stored_at_ms = now_ms \<rparr> (db_snapshots db) \<rparr>)))"

text \<open>One item's rows, \<open>ORDER BY store_seq\<close>.\<close>

definition item_rows :: "vault_db \<Rightarrow> id16 \<Rightarrow> id16 \<Rightarrow> snapshot_row list" where
  "item_rows db v i =
     sort_key sr_store_seq (filter (\<lambda>r. sr_item_id r = i) (map snd (snapshots_of db v)))"

definition retained_row :: "snapshot_row \<Rightarrow> vault_error + retained_snapshot" where
  "retained_row r =
     and_then (map_err (\<lambda>_. Corrupt) (vv_parse (sr_clamped_vv r))) (\<lambda>vv.
     Inr \<lparr> store_seq = sr_store_seq r, clamped = vv, author = sr_author_device_id r \<rparr>)"

definition item_snapshots :: "vault_db \<Rightarrow> id16 \<Rightarrow> id16 \<Rightarrow> vault_error + retained_snapshot list" where
  "item_snapshots db v i = try_map retained_row (item_rows db v i)"

definition snapshot_by_store_seq ::
  "crypto \<Rightarrow> vault_db \<Rightarrow> id16 \<Rightarrow> id16 \<Rightarrow> u64 \<Rightarrow> vault_error + stored_record option" where
  "snapshot_by_store_seq cr db v i sq =
     and_then (u64_to_sql sq) (\<lambda>sq.
     case find (\<lambda>r. sr_store_seq r = sq) (item_rows db v i) of
       None \<Rightarrow> Inr None
     | Some r \<Rightarrow> and_then (stored_snapshot cr r) (\<lambda>x. Inr (Some x)))"

definition delete_snapshot :: "vault_db \<Rightarrow> id16 \<Rightarrow> id16 \<Rightarrow> u64 \<Rightarrow> vault_error + vault_db" where
  "delete_snapshot db v i sq =
     and_then (u64_to_sql sq) (\<lambda>sq.
     Inr (db \<lparr> db_snapshots := bt_retain (\<lambda>(v', _) r. \<not> (v' = v \<and> sr_item_id r = i \<and> sr_store_seq r = sq))
       (db_snapshots db) \<rparr>))"

definition snapshot_row_size :: "snapshot_row \<Rightarrow> usize" where
  "snapshot_row_size r =
     length (sr_header r) + length (sr_envelope r) + length (sr_signature r) +
     (case sr_key_wrap r of None \<Rightarrow> 0 | Some w \<Rightarrow> length w)"

definition item_snapshot_sizes :: "vault_db \<Rightarrow> id16 \<Rightarrow> id16 \<Rightarrow> (u64, usize) btree_map" where
  "item_snapshot_sizes db v i = bt_collect (map (\<lambda>r. (sr_store_seq r, snapshot_row_size r)) (item_rows db v i))"

definition clamped_vvs :: "vault_db \<Rightarrow> id16 \<Rightarrow> vault_error + version_vector list" where
  "clamped_vvs db v =
     try_map (\<lambda>(_, r). map_err (\<lambda>_. Corrupt) (vv_parse (sr_clamped_vv r))) (snapshots_of db v)"

section \<open>The compaction queue\<close>

definition enqueue :: "vault_db \<Rightarrow> id16 \<Rightarrow> id16 \<Rightarrow> u64 \<Rightarrow> vault_db" where
  "enqueue db v i now_ms =
     (if bt_get (db_queue db) (v, i) \<noteq> None then db
      else db \<lparr> db_queue := bt_insert (v, i) now_ms (db_queue db) \<rparr>)"

definition dequeue :: "vault_db \<Rightarrow> id16 \<Rightarrow> id16 \<Rightarrow> vault_db" where
  "dequeue db v i = db \<lparr> db_queue := bt_remove (v, i) (db_queue db) \<rparr>"

definition defer_item :: "vault_db \<Rightarrow> id16 \<Rightarrow> id16 \<Rightarrow> vault_error + vault_db" where
  "defer_item db v i =
     (case (bt_get (db_queue db) (v, i), max_opt (bt_values (db_queue db))) of
        (Some _, Some newest) \<Rightarrow>
          if sql_fits (newest + 1)
          then Inr (db \<lparr> db_queue := bt_insert (v, i) (newest + 1) (db_queue db) \<rparr>)
          else Inl Storage
      | _ \<Rightarrow> Inr db)"

definition queued_items :: "vault_db \<Rightarrow> usize \<Rightarrow> (id16 \<times> id16) list" where
  "queued_items db limit = take limit (map fst (sort_key snd (bt_entries (db_queue db))))"

section \<open>The wrap set and self-grants\<close>

record wrap_row =
  wr_item_id :: id16
  wr_item_key_id :: id16
  wr_vault_key_epoch :: u32
  wr_envelope :: bytes

definition wrap_columns_of :: "wrap_row \<Rightarrow> u64 \<Rightarrow> wrap_columns" where
  "wrap_columns_of w now_ms =
     \<lparr> wc_vault_key_epoch = wr_vault_key_epoch w, wc_envelope = wr_envelope w, wc_updated_at_ms = now_ms \<rparr>"

datatype wrap_put = Inserted | Replaced | Kept

definition put_wrap :: "vault_db \<Rightarrow> id16 \<Rightarrow> wrap_row \<Rightarrow> u64 \<Rightarrow> wrap_put \<times> vault_db" where
  "put_wrap db v w now_ms =
     (let k = (v, wr_item_id w, wr_item_key_id w);
          written = db \<lparr> db_wraps := bt_insert k (wrap_columns_of w now_ms) (db_wraps db) \<rparr>
      in case bt_get (db_wraps db) k of
           None \<Rightarrow> (Inserted, written)
         | Some stored \<Rightarrow>
             if wc_vault_key_epoch stored < wr_vault_key_epoch w then (Replaced, written) else (Kept, db))"

definition wrap_by_envelope :: "vault_db \<Rightarrow> id16 \<Rightarrow> id16 \<Rightarrow> bytes \<Rightarrow> id16 option" where
  "wrap_by_envelope db v i envelope =
     map_option (\<lambda>((_, _, key), _). key)
       (find (\<lambda>((v', i', _), c). v' = v \<and> i' = i \<and> wc_envelope c = envelope) (bt_entries (db_wraps db)))"

definition wraps_after :: "vault_db \<Rightarrow> id16 \<Rightarrow> u32 option \<Rightarrow> usize \<Rightarrow> wrap_row list" where
  "wraps_after db v after limit =
     take limit (map (\<lambda>((_, i, key), c). \<lparr> wr_item_id = i, wr_item_key_id = key,
         wr_vault_key_epoch = wc_vault_key_epoch c, wr_envelope = wc_envelope c \<rparr>)
       (filter (\<lambda>((v', _, _), c). v' = v \<and> (case after of None \<Rightarrow> True | Some e \<Rightarrow> e < wc_vault_key_epoch c))
         (bt_entries (db_wraps db))))"

definition overwrite_wrap :: "vault_db \<Rightarrow> id16 \<Rightarrow> wrap_row \<Rightarrow> u64 \<Rightarrow> nat \<times> vault_db" where
  "overwrite_wrap db v w now_ms =
     (let k = (v, wr_item_id w, wr_item_key_id w)
      in case bt_get (db_wraps db) k of
           None \<Rightarrow> (0, db)
         | Some _ \<Rightarrow> (1, db \<lparr> db_wraps := bt_insert k (wrap_columns_of w now_ms) (db_wraps db) \<rparr>))"

definition delete_wrap :: "vault_db \<Rightarrow> id16 \<Rightarrow> id16 \<Rightarrow> id16 \<Rightarrow> nat \<times> vault_db" where
  "delete_wrap db v i key =
     (case bt_get (db_wraps db) (v, i, key) of
        None \<Rightarrow> (0, db)
      | Some _ \<Rightarrow> (1, db \<lparr> db_wraps := bt_remove (v, i, key) (db_wraps db) \<rparr>))"

definition clear_wraps_where ::
  "(id16 \<Rightarrow> u32 \<Rightarrow> bool) \<Rightarrow> vault_db \<Rightarrow> vault_db" where
  "clear_wraps_where P db =
     db \<lparr> db_ops := bt_retain_map (\<lambda>(v, _) r. Some (if P v (or_vault_key_epoch r) then r \<lparr> or_key_wrap := None \<rparr> else r))
            (db_ops db),
          db_snapshots := bt_retain_map (\<lambda>(v, _) r. Some (if P v (sr_vault_key_epoch r) then r \<lparr> sr_key_wrap := None \<rparr> else r))
            (db_snapshots db) \<rparr>"

definition clear_record_wraps :: "vault_db \<Rightarrow> id16 \<Rightarrow> vault_db" where
  "clear_record_wraps db v = clear_wraps_where (\<lambda>v' _. v' = v) db"

definition clear_record_wraps_below :: "vault_db \<Rightarrow> id16 \<Rightarrow> u32 \<Rightarrow> vault_db" where
  "clear_record_wraps_below db v epoch = clear_wraps_where (\<lambda>v' e. v' = v \<and> e < epoch) db"

record self_grant_row =
  gr_account_key_epoch :: u32
  gr_vault_key_epoch :: u32
  gr_envelope :: bytes

definition repo_self_grant :: "vault_db \<Rightarrow> id16 \<Rightarrow> self_grant_row option" where
  "repo_self_grant db v =
     map_option (\<lambda>c. \<lparr> gr_account_key_epoch = gc_account_key_epoch c, gr_vault_key_epoch = gc_vault_key_epoch c,
         gr_envelope = gc_envelope c \<rparr>) (bt_get (db_self_grants db) v)"

definition write_self_grant ::
  "vault_db \<Rightarrow> id16 \<Rightarrow> self_grant_row \<Rightarrow> bool \<Rightarrow> u64 \<Rightarrow> vault_error + vault_db" where
  "write_self_grant db v g replace now_ms =
     (let held = bt_get (db_self_grants db) v;
          written = db \<lparr> db_self_grants := bt_insert v
            \<lparr> gc_account_key_epoch = gr_account_key_epoch g, gc_vault_key_epoch = gr_vault_key_epoch g,
              gc_envelope = gr_envelope g, gc_updated_at_ms = now_ms \<rparr> (db_self_grants db) \<rparr>
      in if replace then Inr (if held = None then db else written)
         else if held \<noteq> None then Inl Storage else Inr written)"

definition restore_generation :: "vault_db \<Rightarrow> vault_error + bytes" where
  "restore_generation db = ok_or NoRestoreGeneration (db_restore_generation db)"

end
