(* ===== verification/Server_Store.thy ===== *)
theory Server_Store
  imports Server_Tables
begin

text \<open>
  The store transaction's rules, \<open>rizzy-domain-vault/src/store.rs\<close>, and the two halves of a normal
  upload of \<open>upload.rs\<close>. A write transaction is the database it has written so far; the
  session beside it holds the vault row, the heads and the certificates read at its start.
\<close>

section \<open>Session\<close>

datatype store_refusal = RefInvalid | RefConflict | RefPrevSeq | RefStale | RefUnauthorized

datatype error_code = InvalidRequest | RecordConflict | PrevSeqMismatch | StaleEpoch | Unauthorized

fun refusal_code :: "store_refusal \<Rightarrow> error_code" where
  "refusal_code RefInvalid = InvalidRequest"
| "refusal_code RefConflict = RecordConflict"
| "refusal_code RefPrevSeq = PrevSeqMismatch"
| "refusal_code RefStale = StaleEpoch"
| "refusal_code RefUnauthorized = Unauthorized"

record session =
  ss_vault_id :: id16
  ss_vault :: vault_row
  ss_heads :: version_vector
  ss_authors :: authors
  ss_now_ms :: u64
  ss_now_sql :: u64
  ss_queued :: "id16 btree_set"

datatype existing = New | Same | Different

definition agree :: "bytes option \<Rightarrow> bytes option \<Rightarrow> bool" where
  "agree a b \<longleftrightarrow> (case (a, b) of (Some x, Some y) \<Rightarrow> x = y | _ \<Rightarrow> True)"

definition same_record :: "stored_record \<Rightarrow> signed_parts \<Rightarrow> bytes option \<Rightarrow> bytes option \<Rightarrow> bool" where
  "same_record stored sg body wrap \<longleftrightarrow>
     sd_signed stored = sg \<and> agree (sd_body stored) body \<and> agree (sd_key_wrap stored) wrap"

definition existing_op :: "vault_db \<Rightarrow> session \<Rightarrow> verified_op \<Rightarrow> vault_error + existing" where
  "existing_op db ss vo =
     and_then (get_op db (ss_vault_id ss) (oh_dot (vo_header vo))) (\<lambda>stored.
     Inr (case stored of
            None \<Rightarrow> New
          | Some s \<Rightarrow>
              if same_record s (vo_signed vo) (vo_body vo) (map_option cw_envelope (vo_key_wrap vo))
              then Same else Different))"

definition existing_snapshot ::
  "crypto \<Rightarrow> vault_db \<Rightarrow> session \<Rightarrow> verified_snapshot \<Rightarrow> vault_error + existing" where
  "existing_snapshot cr db ss vs =
     and_then (get_snapshot cr db (ss_vault_id ss) (sh_snapshot_id (vs_header vs))) (\<lambda>stored.
     Inr (case stored of
            None \<Rightarrow> New
          | Some s \<Rightarrow>
              if same_record s (vs_signed vs) (Some (vs_envelope vs)) (map_option cw_envelope (vs_key_wrap vs))
              then Same else Different))"

section \<open>Rules\<close>

definition op_author_allows :: "verified_op \<Rightarrow> bool" where
  "op_author_allows vo \<longleftrightarrow>
     (let sq = dot_seq (oh_dot (vo_header vo));
          status_allows = (case ac_status (vo_author vo) of
             Active \<Rightarrow> True | Suspended \<Rightarrow> False | Revoked last_accepted \<Rightarrow> sq \<le> last_accepted)
      in status_allows \<and> ac_permits_hlc (vo_author vo) (oh_hlc (vo_header vo)))"

definition op_stale_exempt :: "verified_op \<Rightarrow> bool" where
  "op_stale_exempt vo \<longleftrightarrow>
     (case ac_status (vo_author vo) of
        Revoked last_accepted \<Rightarrow> dot_seq (oh_dot (vo_header vo)) \<le> last_accepted | _ \<Rightarrow> False)"

definition chain_check :: "session \<Rightarrow> verified_op \<Rightarrow> store_refusal + unit" where
  "chain_check ss vo =
     (let h = vo_header vo in
      if dot_seq (oh_dot h) \<le> oh_vault_prev_seq h then Inl RefInvalid
      else if oh_vault_prev_seq h \<noteq> vv_get (ss_heads ss) (dot_device (oh_dot h)) then Inl RefPrevSeq
      else Inr ())"

definition snapshot_allowed :: "session \<Rightarrow> verified_snapshot \<Rightarrow> bool" where
  "snapshot_allowed ss vs \<longleftrightarrow>
     (if ac_status (vs_author vs) = Suspended then False
      else
        check_snapshot (sh_author (vs_header vs)) (sh_covered (vs_header vs))
          \<lparr> heads = ss_heads ss, cutoffs = authors_cutoffs (ss_authors ss) \<rparr>
          (if ac_expired_at (vs_author vs) (ss_now_ms ss) then Expired else Unexpired) = Inr ())"

section \<open>Writes\<close>

definition fill_wrap :: "vault_db \<Rightarrow> session \<Rightarrow> id16 \<Rightarrow> u32 \<Rightarrow> carried_wrap option \<Rightarrow> vault_db" where
  "fill_wrap db ss item epoch wrap =
     (case wrap of
        None \<Rightarrow> db
      | Some w \<Rightarrow> snd (put_wrap db (ss_vault_id ss)
          \<lparr> wr_item_id = item, wr_item_key_id = cw_item_key_id w, wr_vault_key_epoch = epoch,
            wr_envelope = cw_envelope w \<rparr> (ss_now_sql ss)))"

definition current_wrap :: "session \<Rightarrow> u32 \<Rightarrow> bool" where
  "current_wrap ss epoch \<longleftrightarrow> vr_vault_key_epoch (ss_vault ss) \<le> epoch"

definition store_op ::
  "vault_db \<Rightarrow> session \<Rightarrow> verified_op \<Rightarrow> vault_error + (vault_db \<times> session)" where
  "store_op db ss vo =
     (let h = vo_header vo;
          vo = (if vo_key_wrap vo \<noteq> None \<and> \<not> current_wrap ss (oh_vault_key_epoch h)
                then vo \<lparr> vo_key_wrap := None \<rparr> else vo)
      in and_then (insert_op db (ss_vault_id ss) vo (ss_now_sql ss)) (\<lambda>db.
         let ss = ss \<lparr> ss_heads := vv_add (oh_dot h) (ss_heads ss) \<rparr>
         in Inr (fill_wrap db ss (oh_item_id h) (oh_vault_key_epoch h) (vo_key_wrap vo), ss)))"

definition store_snapshot ::
  "vault_db \<Rightarrow> session \<Rightarrow> verified_snapshot \<Rightarrow> vault_error + (vault_db \<times> session)" where
  "store_snapshot db ss vs =
     (let h = vs_header vs;
          vs = (if vs_key_wrap vs \<noteq> None \<and> \<not> current_wrap ss (sh_vault_key_epoch h)
                then vs \<lparr> vs_key_wrap := None \<rparr> else vs)
      in and_then (map_err (\<lambda>_. Corrupt) (vv_to_vec (clamp (sh_covered h) (ss_heads ss)))) (\<lambda>clamped'.
         let sq = vr_next_store_seq (ss_vault ss) in
         and_then (insert_snapshot db (ss_vault_id ss) vs clamped' sq (ss_now_sql ss)) (\<lambda>db.
         and_then (advance_store_seq db (ss_vault_id ss)) (\<lambda>db.
         and_then (ok_or Corrupt (u64_checked_add sq 1)) (\<lambda>next_sq.
         let ss = ss \<lparr> ss_vault := (ss_vault ss) \<lparr> vr_next_store_seq := next_sq \<rparr> \<rparr>;
             db = enqueue db (ss_vault_id ss) (sh_item_id h) (ss_now_sql ss);
             ss = ss \<lparr> ss_queued := bs_insert (sh_item_id h) (ss_queued ss) \<rparr>
         in Inr (fill_wrap db ss (sh_item_id h) (sh_vault_key_epoch h) (vs_key_wrap vs), ss))))))"

section \<open>One record of a normal upload\<close>

datatype upload_result = Stored | AlreadyStored | Rejected error_code | NotProcessed

text \<open>A record's answer beside the database and the session after it; a refusal changes neither.\<close>

type_synonym store_step = "vault_error + ((store_refusal + upload_result) \<times> vault_db \<times> session)"

definition upload_op :: "crypto \<Rightarrow> vault_db \<Rightarrow> session \<Rightarrow> op_record \<Rightarrow> store_step" where
  "upload_op cr db ss r =
     (case verify_op cr r (ss_vault_id ss) (ss_authors ss) True WrapRequired of
        Inl _ \<Rightarrow> Inr (Inl RefInvalid, db, ss)
      | Inr vo \<Rightarrow>
          and_then (existing_op db ss vo) (\<lambda>ex.
          case ex of
            Same \<Rightarrow> Inr (Inr AlreadyStored, db, ss)
          | Different \<Rightarrow> Inr (Inl RefConflict, db, ss)
          | New \<Rightarrow>
              if \<not> op_author_allows vo then Inr (Inl RefInvalid, db, ss)
              else
                (case chain_check ss vo of
                   Inl e \<Rightarrow> Inr (Inl e, db, ss)
                 | Inr _ \<Rightarrow>
                     if oh_vault_key_epoch (vo_header vo) < vr_vault_key_epoch (ss_vault ss) \<and> \<not> op_stale_exempt vo
                     then Inr (Inl RefStale, db, ss)
                     else and_then (store_op db ss vo) (\<lambda>(db, ss). Inr (Inr Stored, db, ss)))))"

definition upload_snapshot :: "crypto \<Rightarrow> vault_db \<Rightarrow> session \<Rightarrow> snapshot_record \<Rightarrow> store_step" where
  "upload_snapshot cr db ss r =
     (case verify_snapshot cr r (ss_vault_id ss) (ss_authors ss) WrapRequired of
        Inl _ \<Rightarrow> Inr (Inl RefInvalid, db, ss)
      | Inr vs \<Rightarrow>
          and_then (existing_snapshot cr db ss vs) (\<lambda>ex.
          case ex of
            Same \<Rightarrow> Inr (Inr AlreadyStored, db, ss)
          | Different \<Rightarrow> Inr (Inl RefConflict, db, ss)
          | New \<Rightarrow>
              if \<not> snapshot_allowed ss vs then Inr (Inl RefInvalid, db, ss)
              else if sh_vault_key_epoch (vs_header vs) < vr_vault_key_epoch (ss_vault ss)
              then Inr (Inl RefStale, db, ss)
              else and_then (store_snapshot db ss vs) (\<lambda>(db, ss). Inr (Inr Stored, db, ss))))"

end
