(* ===== verification/Envelopes.thy ===== *)
theory Envelopes
  imports Signed_Statements
begin

text \<open>
  Envelopes, \<open>rizzy-core/src/envelope\<close>: the algorithm registry of \<open>mod.rs\<close>, the purpose registry
  of \<open>purpose.rs\<close> and the parser of \<open>parse.rs\<close>. Sealing and opening are AEAD and HPKE calls and
  are not modelled. A borrowed envelope is the byte strings of its fields.
\<close>

section \<open>Algorithms\<close>

definition FORMAT_VERSION :: u8 where "FORMAT_VERSION = 1"
definition HEADER_LEN :: usize where "HEADER_LEN = 18"
definition NONCE_LEN :: usize where "NONCE_LEN = 24"
definition COMMITMENT_LEN :: usize where "COMMITMENT_LEN = 32"
definition TAG_LEN :: usize where "TAG_LEN = 16"
definition ENC_LEN :: usize where "ENC_LEN = 32"
definition OVERHEAD :: usize where "OVERHEAD = HEADER_LEN + NONCE_LEN + COMMITMENT_LEN + TAG_LEN"
definition HPKE_OVERHEAD :: usize where "HPKE_OVERHEAD = HEADER_LEN + ENC_LEN + TAG_LEN"
definition MAX_PLAINTEXT_LEN :: usize where "MAX_PLAINTEXT_LEN = 16 * 1024 * 1024"
definition MAX_SYMMETRIC_ENVELOPE_LEN :: usize where
  "MAX_SYMMETRIC_ENVELOPE_LEN = MAX_PLAINTEXT_LEN + OVERHEAD"

lemmas envelope_lens = HEADER_LEN_def NONCE_LEN_def COMMITMENT_LEN_def TAG_LEN_def ENC_LEN_def OVERHEAD_def
  HPKE_OVERHEAD_def MAX_PLAINTEXT_LEN_def MAX_SYMMETRIC_ENVELOPE_LEN_def

datatype alg_id =
    XChaCha20Poly1305Committed
  | Aes256GcmSivCommitted
  | ChunkedXChaCha20Poly1305
  | HpkeBaseX25519
  | HpkeBaseXWing
  | HpkePskX25519
  | HpkePskXWing

datatype alg_family = FamSymmetric | FamChunked | FamHpkeBase | FamHpkePsk

fun alg_to_u8 :: "alg_id \<Rightarrow> u8" where
  "alg_to_u8 XChaCha20Poly1305Committed = 0x01"
| "alg_to_u8 Aes256GcmSivCommitted = 0x02"
| "alg_to_u8 ChunkedXChaCha20Poly1305 = 0x03"
| "alg_to_u8 HpkeBaseX25519 = 0x10"
| "alg_to_u8 HpkeBaseXWing = 0x11"
| "alg_to_u8 HpkePskX25519 = 0x12"
| "alg_to_u8 HpkePskXWing = 0x13"

definition alg_from_u8 :: "u8 \<Rightarrow> alg_id option" where
  "alg_from_u8 b =
     (if b = 0x01 then Some XChaCha20Poly1305Committed
      else if b = 0x02 then Some Aes256GcmSivCommitted
      else if b = 0x03 then Some ChunkedXChaCha20Poly1305
      else if b = 0x10 then Some HpkeBaseX25519
      else if b = 0x11 then Some HpkeBaseXWing
      else if b = 0x12 then Some HpkePskX25519
      else if b = 0x13 then Some HpkePskXWing
      else None)"

fun alg_fam :: "alg_id \<Rightarrow> alg_family" where
  "alg_fam XChaCha20Poly1305Committed = FamSymmetric"
| "alg_fam Aes256GcmSivCommitted = FamSymmetric"
| "alg_fam ChunkedXChaCha20Poly1305 = FamChunked"
| "alg_fam HpkeBaseX25519 = FamHpkeBase"
| "alg_fam HpkeBaseXWing = FamHpkeBase"
| "alg_fam HpkePskX25519 = FamHpkePsk"
| "alg_fam HpkePskXWing = FamHpkePsk"

definition is_implemented :: "alg_id \<Rightarrow> bool" where
  "is_implemented a \<longleftrightarrow> a \<in> {XChaCha20Poly1305Committed, HpkeBaseX25519, HpkePskX25519}"

definition alg_overhead :: "alg_id \<Rightarrow> usize option" where
  "alg_overhead a =
     (case a of
        XChaCha20Poly1305Committed \<Rightarrow> Some OVERHEAD
      | HpkeBaseX25519 \<Rightarrow> Some HPKE_OVERHEAD
      | HpkePskX25519 \<Rightarrow> Some HPKE_OVERHEAD
      | _ \<Rightarrow> None)"

section \<open>Purposes\<close>

datatype plaintext_rule = Fixed usize | Padded | Unpadded | Unspecified

datatype side = ClientSide | ServerSide

datatype purpose =
    AccountKeyServerWrap
  | AccountKeyLocalWrap
  | AccountKeyRecoveryWrap
  | AccountKeyDeviceGrant
  | PasswordVerifierGrant
  | AccountKeyKeystoreWrap
  | AccountKeyForward
  | IdentitySecretKeys
  | DeviceSecretKeys
  | MailSecretKey
  | RetiredSecretKey
  | AccountSettings
  | VaultKeySelfGrant
  | VaultKeyMemberGrant
  | ItemKeyWrap
  | ItemOp
  | ItemSnapshot
  | AttachmentChunk
  | AttachmentKeyWrap
  | RelayBatch
  | PairingTransfer
  | PairingTransferSealed
  | ResyncTransfer
  | ShareSnapshot
  | MailMessage
  | ExportFile
  | BackupFile
  | LocalCacheIndex
  | ServerTotpSecret
  | ServerLoginState
  | ServerSecretsBackup

definition ALL_PURPOSES :: "purpose list" where
  "ALL_PURPOSES =
     [AccountKeyServerWrap, AccountKeyLocalWrap, AccountKeyRecoveryWrap,
      AccountKeyDeviceGrant, PasswordVerifierGrant, AccountKeyKeystoreWrap,
      AccountKeyForward, IdentitySecretKeys, DeviceSecretKeys,
      MailSecretKey, RetiredSecretKey, AccountSettings,
      VaultKeySelfGrant, VaultKeyMemberGrant, ItemKeyWrap,
      ItemOp, ItemSnapshot, AttachmentChunk,
      AttachmentKeyWrap, RelayBatch, PairingTransfer,
      PairingTransferSealed, ResyncTransfer, ShareSnapshot,
      MailMessage, ExportFile, BackupFile,
      LocalCacheIndex, ServerTotpSecret, ServerLoginState,
      ServerSecretsBackup]"

fun purpose_id :: "purpose \<Rightarrow> u16" where
  "purpose_id AccountKeyServerWrap = 0x0001"
| "purpose_id AccountKeyLocalWrap = 0x0002"
| "purpose_id AccountKeyRecoveryWrap = 0x0003"
| "purpose_id AccountKeyDeviceGrant = 0x0004"
| "purpose_id PasswordVerifierGrant = 0x0005"
| "purpose_id AccountKeyKeystoreWrap = 0x0006"
| "purpose_id AccountKeyForward = 0x0007"
| "purpose_id IdentitySecretKeys = 0x0010"
| "purpose_id DeviceSecretKeys = 0x0011"
| "purpose_id MailSecretKey = 0x0012"
| "purpose_id RetiredSecretKey = 0x0013"
| "purpose_id AccountSettings = 0x0014"
| "purpose_id VaultKeySelfGrant = 0x0020"
| "purpose_id VaultKeyMemberGrant = 0x0021"
| "purpose_id ItemKeyWrap = 0x0030"
| "purpose_id ItemOp = 0x0031"
| "purpose_id ItemSnapshot = 0x0032"
| "purpose_id AttachmentChunk = 0x0033"
| "purpose_id AttachmentKeyWrap = 0x0034"
| "purpose_id RelayBatch = 0x0040"
| "purpose_id PairingTransfer = 0x0041"
| "purpose_id PairingTransferSealed = 0x0042"
| "purpose_id ResyncTransfer = 0x0043"
| "purpose_id ShareSnapshot = 0x0050"
| "purpose_id MailMessage = 0x0060"
| "purpose_id ExportFile = 0x0070"
| "purpose_id BackupFile = 0x0071"
| "purpose_id LocalCacheIndex = 0x0090"
| "purpose_id ServerTotpSecret = 0x0100"
| "purpose_id ServerLoginState = 0x0101"
| "purpose_id ServerSecretsBackup = 0x0102"

fun purpose_plaintext :: "purpose \<Rightarrow> plaintext_rule" where
  "purpose_plaintext AccountKeyServerWrap = (Fixed 32)"
| "purpose_plaintext AccountKeyLocalWrap = (Fixed 32)"
| "purpose_plaintext AccountKeyRecoveryWrap = (Fixed 32)"
| "purpose_plaintext AccountKeyDeviceGrant = (Fixed 32)"
| "purpose_plaintext PasswordVerifierGrant = Unpadded"
| "purpose_plaintext AccountKeyKeystoreWrap = (Fixed 32)"
| "purpose_plaintext AccountKeyForward = (Fixed 32)"
| "purpose_plaintext IdentitySecretKeys = (Fixed 64)"
| "purpose_plaintext DeviceSecretKeys = (Fixed 65)"
| "purpose_plaintext MailSecretKey = (Fixed 32)"
| "purpose_plaintext RetiredSecretKey = (Fixed 33)"
| "purpose_plaintext AccountSettings = Unpadded"
| "purpose_plaintext VaultKeySelfGrant = (Fixed 32)"
| "purpose_plaintext VaultKeyMemberGrant = (Fixed 32)"
| "purpose_plaintext ItemKeyWrap = (Fixed 37)"
| "purpose_plaintext ItemOp = Padded"
| "purpose_plaintext ItemSnapshot = Padded"
| "purpose_plaintext AttachmentChunk = Unspecified"
| "purpose_plaintext AttachmentKeyWrap = (Fixed 32)"
| "purpose_plaintext RelayBatch = Padded"
| "purpose_plaintext PairingTransfer = Unpadded"
| "purpose_plaintext PairingTransferSealed = Padded"
| "purpose_plaintext ResyncTransfer = Padded"
| "purpose_plaintext ShareSnapshot = Padded"
| "purpose_plaintext MailMessage = Padded"
| "purpose_plaintext ExportFile = Unpadded"
| "purpose_plaintext BackupFile = Unspecified"
| "purpose_plaintext LocalCacheIndex = Unpadded"
| "purpose_plaintext ServerTotpSecret = Unpadded"
| "purpose_plaintext ServerLoginState = Unpadded"
| "purpose_plaintext ServerSecretsBackup = Unpadded"

fun purpose_encrypt :: "purpose \<Rightarrow> alg_id" where
  "purpose_encrypt AccountKeyServerWrap = XChaCha20Poly1305Committed"
| "purpose_encrypt AccountKeyLocalWrap = XChaCha20Poly1305Committed"
| "purpose_encrypt AccountKeyRecoveryWrap = XChaCha20Poly1305Committed"
| "purpose_encrypt AccountKeyDeviceGrant = HpkePskX25519"
| "purpose_encrypt PasswordVerifierGrant = HpkePskX25519"
| "purpose_encrypt AccountKeyKeystoreWrap = XChaCha20Poly1305Committed"
| "purpose_encrypt AccountKeyForward = XChaCha20Poly1305Committed"
| "purpose_encrypt IdentitySecretKeys = XChaCha20Poly1305Committed"
| "purpose_encrypt DeviceSecretKeys = XChaCha20Poly1305Committed"
| "purpose_encrypt MailSecretKey = XChaCha20Poly1305Committed"
| "purpose_encrypt RetiredSecretKey = XChaCha20Poly1305Committed"
| "purpose_encrypt AccountSettings = XChaCha20Poly1305Committed"
| "purpose_encrypt VaultKeySelfGrant = XChaCha20Poly1305Committed"
| "purpose_encrypt VaultKeyMemberGrant = HpkeBaseX25519"
| "purpose_encrypt ItemKeyWrap = XChaCha20Poly1305Committed"
| "purpose_encrypt ItemOp = XChaCha20Poly1305Committed"
| "purpose_encrypt ItemSnapshot = XChaCha20Poly1305Committed"
| "purpose_encrypt AttachmentChunk = ChunkedXChaCha20Poly1305"
| "purpose_encrypt AttachmentKeyWrap = XChaCha20Poly1305Committed"
| "purpose_encrypt RelayBatch = XChaCha20Poly1305Committed"
| "purpose_encrypt PairingTransfer = XChaCha20Poly1305Committed"
| "purpose_encrypt PairingTransferSealed = HpkePskX25519"
| "purpose_encrypt ResyncTransfer = HpkePskX25519"
| "purpose_encrypt ShareSnapshot = XChaCha20Poly1305Committed"
| "purpose_encrypt MailMessage = HpkeBaseX25519"
| "purpose_encrypt ExportFile = XChaCha20Poly1305Committed"
| "purpose_encrypt BackupFile = XChaCha20Poly1305Committed"
| "purpose_encrypt LocalCacheIndex = XChaCha20Poly1305Committed"
| "purpose_encrypt ServerTotpSecret = XChaCha20Poly1305Committed"
| "purpose_encrypt ServerLoginState = XChaCha20Poly1305Committed"
| "purpose_encrypt ServerSecretsBackup = XChaCha20Poly1305Committed"

fun purpose_decrypt :: "purpose \<Rightarrow> alg_id list" where
  "purpose_decrypt AccountKeyServerWrap = [XChaCha20Poly1305Committed]"
| "purpose_decrypt AccountKeyLocalWrap = [XChaCha20Poly1305Committed]"
| "purpose_decrypt AccountKeyRecoveryWrap = [XChaCha20Poly1305Committed]"
| "purpose_decrypt AccountKeyDeviceGrant = [HpkePskX25519]"
| "purpose_decrypt PasswordVerifierGrant = [HpkePskX25519]"
| "purpose_decrypt AccountKeyKeystoreWrap = [XChaCha20Poly1305Committed]"
| "purpose_decrypt AccountKeyForward = [XChaCha20Poly1305Committed]"
| "purpose_decrypt IdentitySecretKeys = [XChaCha20Poly1305Committed]"
| "purpose_decrypt DeviceSecretKeys = [XChaCha20Poly1305Committed]"
| "purpose_decrypt MailSecretKey = [XChaCha20Poly1305Committed]"
| "purpose_decrypt RetiredSecretKey = [XChaCha20Poly1305Committed]"
| "purpose_decrypt AccountSettings = [XChaCha20Poly1305Committed]"
| "purpose_decrypt VaultKeySelfGrant = [XChaCha20Poly1305Committed]"
| "purpose_decrypt VaultKeyMemberGrant = [HpkeBaseX25519]"
| "purpose_decrypt ItemKeyWrap = [XChaCha20Poly1305Committed]"
| "purpose_decrypt ItemOp = [XChaCha20Poly1305Committed]"
| "purpose_decrypt ItemSnapshot = [XChaCha20Poly1305Committed]"
| "purpose_decrypt AttachmentChunk = [ChunkedXChaCha20Poly1305]"
| "purpose_decrypt AttachmentKeyWrap = [XChaCha20Poly1305Committed]"
| "purpose_decrypt RelayBatch = [XChaCha20Poly1305Committed]"
| "purpose_decrypt PairingTransfer = [XChaCha20Poly1305Committed]"
| "purpose_decrypt PairingTransferSealed = [HpkePskX25519]"
| "purpose_decrypt ResyncTransfer = [HpkePskX25519]"
| "purpose_decrypt ShareSnapshot = [XChaCha20Poly1305Committed]"
| "purpose_decrypt MailMessage = [HpkeBaseX25519]"
| "purpose_decrypt ExportFile = [XChaCha20Poly1305Committed]"
| "purpose_decrypt BackupFile = [XChaCha20Poly1305Committed]"
| "purpose_decrypt LocalCacheIndex = [XChaCha20Poly1305Committed]"
| "purpose_decrypt ServerTotpSecret = [XChaCha20Poly1305Committed]"
| "purpose_decrypt ServerLoginState = [XChaCha20Poly1305Committed]"
| "purpose_decrypt ServerSecretsBackup = [XChaCha20Poly1305Committed]"

definition SERVER_ONLY_FIRST :: u16 where "SERVER_ONLY_FIRST = 0x0100"
definition SERVER_ONLY_LAST :: u16 where "SERVER_ONLY_LAST = 0x01FF"

definition purpose_from_id :: "u16 \<Rightarrow> purpose option" where
  "purpose_from_id i = find (\<lambda>p. purpose_id p = i) ALL_PURPOSES"

definition purpose_side :: "purpose \<Rightarrow> side" where
  "purpose_side p =
     (if SERVER_ONLY_FIRST \<le> purpose_id p \<and> purpose_id p \<le> SERVER_ONLY_LAST then ServerSide else ClientSide)"

definition client_decrypt_allow_list :: "purpose \<Rightarrow> alg_id list" where
  "client_decrypt_allow_list p = (case purpose_side p of ClientSide \<Rightarrow> purpose_decrypt p | ServerSide \<Rightarrow> [])"

definition server_decrypt_allow_list :: "purpose \<Rightarrow> alg_id list" where
  "server_decrypt_allow_list p = (case purpose_side p of ServerSide \<Rightarrow> purpose_decrypt p | ClientSide \<Rightarrow> [])"

definition hpke_recipient_key_type :: "purpose \<Rightarrow> key_type option" where
  "hpke_recipient_key_type p =
     (case p of
        AccountKeyDeviceGrant \<Rightarrow> Some DeviceX25519
      | PasswordVerifierGrant \<Rightarrow> Some DeviceX25519
      | PairingTransferSealed \<Rightarrow> Some DeviceX25519
      | ResyncTransfer \<Rightarrow> Some DeviceX25519
      | VaultKeyMemberGrant \<Rightarrow> Some IdentityX25519
      | MailMessage \<Rightarrow> Some MailX25519
      | _ \<Rightarrow> None)"

section \<open>The parser\<close>

record symmetric_envelope =
  se_header :: bytes
  se_key_id :: bytes
  se_nonce :: bytes
  se_commitment :: bytes
  se_ciphertext :: bytes
  se_tag :: bytes

record hpke_envelope =
  he_alg :: alg_id
  he_header :: bytes
  he_key_id :: bytes
  he_enc :: bytes
  he_ciphertext :: bytes
  he_tag :: bytes

datatype envelope_ref = EnvSymmetric symmetric_envelope | EnvHpke hpke_envelope

fun envelope_alg_id :: "envelope_ref \<Rightarrow> alg_id" where
  "envelope_alg_id (EnvSymmetric e) = XChaCha20Poly1305Committed"
| "envelope_alg_id (EnvHpke e) = he_alg e"

fun envelope_key_id :: "envelope_ref \<Rightarrow> bytes" where
  "envelope_key_id (EnvSymmetric e) = se_key_id e"
| "envelope_key_id (EnvHpke e) = he_key_id e"

fun envelope_encoded_len :: "envelope_ref \<Rightarrow> usize" where
  "envelope_encoded_len (EnvSymmetric e) = OVERHEAD + length (se_ciphertext e)"
| "envelope_encoded_len (EnvHpke e) = HPKE_OVERHEAD + length (he_ciphertext e)"

fun envelope_to_vec :: "envelope_ref \<Rightarrow> bytes" where
  "envelope_to_vec (EnvSymmetric e) = se_header e @ se_nonce e @ se_commitment e @ se_ciphertext e @ se_tag e"
| "envelope_to_vec (EnvHpke e) = he_header e @ he_enc e @ he_ciphertext e @ he_tag e"

record env_header =
  eh_bytes :: bytes
  eh_version :: u8
  eh_alg :: u8
  eh_key_id :: bytes
  eh_rest :: bytes

definition split_header :: "bytes \<Rightarrow> parse_error + env_header" where
  "split_header input =
     and_then (reader_array HEADER_LEN (reader_new input)) (\<lambda>(bs, r).
     let rest = fst (reader_rest r) in
     and_then (reader_u8 (reader_new bs)) (\<lambda>(version, h).
     and_then (reader_u8 h) (\<lambda>(alg, h).
     and_then (reader_array 16 h) (\<lambda>(key_id, h).
     and_then (reader_finish h) (\<lambda>_.
     Inr \<lparr> eh_bytes = bs, eh_version = version, eh_alg = alg, eh_key_id = key_id, eh_rest = rest \<rparr>)))))"

text \<open>\<open>split_last_chunk\<close>.\<close>

definition split_tag :: "bytes \<Rightarrow> parse_error + (bytes \<times> bytes)" where
  "split_tag body =
     (if length body < TAG_LEN then Inl PTruncated
      else Inr (take (length body - TAG_LEN) body, drop (length body - TAG_LEN) body))"

definition parse_symmetric :: "bytes \<Rightarrow> parse_error + envelope_ref" where
  "parse_symmetric input =
     (if length input < OVERHEAD then Inl PTruncated
      else if MAX_SYMMETRIC_ENVELOPE_LEN < length input then Inl PTooLong
      else
        and_then (split_header input) (\<lambda>header.
        and_then (reader_array NONCE_LEN (reader_new (eh_rest header))) (\<lambda>(nonce, r).
        and_then (reader_array COMMITMENT_LEN r) (\<lambda>(commitment, r).
        and_then (split_tag (fst (reader_rest r))) (\<lambda>(ciphertext, tag).
        Inr (EnvSymmetric \<lparr> se_header = eh_bytes header, se_key_id = eh_key_id header, se_nonce = nonce,
          se_commitment = commitment, se_ciphertext = ciphertext, se_tag = tag \<rparr>))))))"

definition parse_hpke :: "alg_id \<Rightarrow> bytes \<Rightarrow> parse_error + envelope_ref" where
  "parse_hpke alg input =
     (if length input < HPKE_OVERHEAD then Inl PTruncated
      else
        and_then (split_header input) (\<lambda>header.
        and_then (reader_array ENC_LEN (reader_new (eh_rest header))) (\<lambda>(enc, r).
        and_then (split_tag (fst (reader_rest r))) (\<lambda>(ciphertext, tag).
        Inr (EnvHpke \<lparr> he_alg = alg, he_header = eh_bytes header, he_key_id = eh_key_id header, he_enc = enc,
          he_ciphertext = ciphertext, he_tag = tag \<rparr>)))))"

definition parse_layout :: "alg_id \<Rightarrow> bytes \<Rightarrow> parse_error + envelope_ref" where
  "parse_layout alg input =
     (case alg of
        XChaCha20Poly1305Committed \<Rightarrow> parse_symmetric input
      | HpkeBaseX25519 \<Rightarrow> parse_hpke alg input
      | HpkePskX25519 \<Rightarrow> parse_hpke alg input
      | _ \<Rightarrow> Inl PInvalidValue)"

definition parse_envelope :: "bytes \<Rightarrow> parse_error + envelope_ref" where
  "parse_envelope input =
     and_then (split_header input) (\<lambda>header.
     if eh_version header \<noteq> FORMAT_VERSION then Inl PInvalidValue
     else
       (case alg_from_u8 (eh_alg header) of
          None \<Rightarrow> Inl PInvalidValue
        | Some alg \<Rightarrow> if is_implemented alg then parse_layout alg input else Inl PInvalidValue))"

datatype decrypt_error = DecryptError

definition parse_for_purpose :: "bytes \<Rightarrow> alg_id list \<Rightarrow> decrypt_error + envelope_ref" where
  "parse_for_purpose input allow_list =
     and_then (ok_or DecryptError (min_opt (List.map_filter alg_overhead allow_list))) (\<lambda>min_len.
     if length input < min_len then Inl DecryptError
     else if list_all (\<lambda>alg. alg_fam alg = FamSymmetric) allow_list \<and> MAX_SYMMETRIC_ENVELOPE_LEN < length input
     then Inl DecryptError
     else
       and_then (map_err (\<lambda>_. DecryptError) (split_header input)) (\<lambda>header.
       if eh_version header \<noteq> FORMAT_VERSION then Inl DecryptError
       else
         (case alg_from_u8 (eh_alg header) of
            None \<Rightarrow> Inl DecryptError
          | Some alg \<Rightarrow>
              if alg \<in> set allow_list then map_err (\<lambda>_. DecryptError) (parse_layout alg input)
              else Inl DecryptError)))"

section \<open>What the parser accepts\<close>

lemma alg_codes: "alg_from_u8 b = Some a \<longleftrightarrow> b = alg_to_u8 a"
  by (cases a) (auto simp: alg_from_u8_def split: if_splits)

lemma array_new_Inr:
  "reader_array n r = Inr (x, r') \<longleftrightarrow> length x = n \<and> (\<exists>rest. rd_input r = x @ rest \<and> r' = set_input rest r)"
  by (rule array_codec.dec_iff)

lemma split_header_Inr:
  "split_header input = Inr h \<longleftrightarrow>
     length (eh_key_id h) = 16 \<and> eh_bytes h = [eh_version h, eh_alg h] @ eh_key_id h \<and>
     input = eh_bytes h @ eh_rest h" (is "?l \<longleftrightarrow> ?r")
proof
  assume ?l
  then show ?r
    by (auto simp: split_header_def and_then_Inr array_new_Inr u8_codec.dec_iff reader_rest_def Let_def)
next
  assume r: ?r
  have "reader_array HEADER_LEN (reader_new input) = Inr (eh_bytes h, set_input (eh_rest h) (reader_new input))"
    using r by (simp add: array_new_Inr HEADER_LEN_def)
  moreover have "reader_u8 (reader_new (eh_bytes h)) = Inr (eh_version h, set_input (eh_alg h # eh_key_id h) (reader_new (eh_bytes h)))"
    using r by (simp add: u8_codec.dec_iff)
  moreover have "reader_u8 (set_input (eh_alg h # eh_key_id h) q) = Inr (eh_alg h, set_input (eh_key_id h) q)" for q
    by (simp add: u8_codec.dec_iff)
  moreover have "reader_array 16 (set_input (eh_key_id h) q) = Inr (eh_key_id h, set_input [] q)" for q
    using r by (simp add: array_new_Inr)
  ultimately show ?l by (simp add: split_header_def reader_rest_def reader_finish_def)
qed

lemma split_tag_Inr: "split_tag body = Inr (c, t) \<longleftrightarrow> length t = 16 \<and> body = c @ t"
  by (auto simp: split_tag_def TAG_LEN_def)

definition envelope_ok :: "envelope_ref \<Rightarrow> bool" where
  "envelope_ok env \<longleftrightarrow>
     (case env of
        EnvSymmetric e \<Rightarrow> length (se_key_id e) = 16 \<and> se_header e = [FORMAT_VERSION, 0x01] @ se_key_id e \<and>
          length (se_nonce e) = 24 \<and> length (se_commitment e) = 32 \<and> length (se_tag e) = 16 \<and>
          length (se_ciphertext e) \<le> MAX_PLAINTEXT_LEN
      | EnvHpke e \<Rightarrow> he_alg e \<in> {HpkeBaseX25519, HpkePskX25519} \<and> length (he_key_id e) = 16 \<and>
          he_header e = [FORMAT_VERSION, alg_to_u8 (he_alg e)] @ he_key_id e \<and>
          length (he_enc e) = 32 \<and> length (he_tag e) = 16)"

lemma parse_symmetric_Inr:
  assumes h: "split_header input = Inr h" "eh_version h = FORMAT_VERSION" "eh_alg h = 0x01"
  shows "parse_symmetric input = Inr env \<longleftrightarrow> (\<exists>e. env = EnvSymmetric e) \<and> envelope_ok env \<and> input = envelope_to_vec env"
    (is "?l \<longleftrightarrow> ?r")
proof
  note hs = h(1) [unfolded split_header_Inr]
  assume l: ?l
  then have len: "length input \<le> MAX_SYMMETRIC_ENVELOPE_LEN"
    by (simp add: parse_symmetric_def split: if_splits)
  from l h(1) obtain nonce r1 commitment r2 c t where
    s: "reader_array NONCE_LEN (reader_new (eh_rest h)) = Inr (nonce, r1)"
      "reader_array COMMITMENT_LEN r1 = Inr (commitment, r2)" "split_tag (fst (reader_rest r2)) = Inr (c, t)"
    and env: "env = EnvSymmetric \<lparr> se_header = eh_bytes h, se_key_id = eh_key_id h, se_nonce = nonce,
      se_commitment = commitment, se_ciphertext = c, se_tag = t \<rparr>"
    by (auto simp: parse_symmetric_def and_then_Inr split: if_splits)
  from s(1) obtain rest1 where n: "length nonce = 24" "eh_rest h = nonce @ rest1" "rd_input r1 = rest1"
    by (auto simp: array_new_Inr NONCE_LEN_def)
  from s(2) n(3) obtain rest2 where cm: "length commitment = 32" "rest1 = commitment @ rest2" "rd_input r2 = rest2"
    by (auto simp: array_new_Inr COMMITMENT_LEN_def)
  have t: "length t = 16" "rest2 = c @ t" using s(3) cm(3) by (simp_all add: split_tag_Inr reader_rest_def)
  have input: "input = eh_bytes h @ nonce @ commitment @ c @ t" using hs n cm t by simp
  have "length input = 90 + length c" using hs n cm t by simp
  then have "length c \<le> MAX_PLAINTEXT_LEN" using len by (simp add: envelope_lens)
  then show ?r using input env hs h n(1) cm(1) t(1) by (simp add: envelope_ok_def)
next
  note hs = h(1) [unfolded split_header_Inr]
  assume ?r
  then obtain e where e: "env = EnvSymmetric e" "envelope_ok env" "input = envelope_to_vec env" by blast
  let ?rest = "se_nonce e @ se_commitment e @ se_ciphertext e @ se_tag e"
  have ok: "length (se_key_id e) = 16" "se_header e = [FORMAT_VERSION, 0x01] @ se_key_id e"
    "length (se_nonce e) = 24" "length (se_commitment e) = 32" "length (se_tag e) = 16"
    "length (se_ciphertext e) \<le> MAX_PLAINTEXT_LEN"
    using e(1,2) by (simp_all add: envelope_ok_def)
  have "eh_bytes h @ eh_rest h = se_header e @ ?rest" using hs e(1,3) by simp
  moreover have "length (eh_bytes h) = length (se_header e)" using hs ok by simp
  ultimately have eq: "eh_bytes h = se_header e" "eh_rest h = ?rest" by (simp_all add: append_eq_append_conv)
  have "eh_key_id h = se_key_id e" using hs ok(2) eq(1) by simp
  moreover have "length input = 90 + length (se_ciphertext e)" using e(1,3) ok by simp
  moreover have "split_tag (se_ciphertext e @ se_tag e) = Inr (se_ciphertext e, se_tag e)"
    using ok(5) by (simp add: split_tag_Inr)
  moreover have "reader_array NONCE_LEN (reader_new ?rest) =
      Inr (se_nonce e, set_input (se_commitment e @ se_ciphertext e @ se_tag e) (reader_new ?rest))"
    using ok(3) by (simp add: array_new_Inr NONCE_LEN_def)
  moreover have "reader_array COMMITMENT_LEN (set_input (se_commitment e @ q) r) = Inr (se_commitment e, set_input q r)" for q r
    using ok(4) by (simp add: array_new_Inr COMMITMENT_LEN_def)
  ultimately show ?l
    using e(1) h(1) eq ok(6) by (simp add: parse_symmetric_def envelope_lens reader_rest_def)
qed

lemma parse_hpke_Inr:
  assumes h: "split_header input = Inr h" "eh_version h = FORMAT_VERSION" "eh_alg h = alg_to_u8 a"
    and a: "a \<in> {HpkeBaseX25519, HpkePskX25519}"
  shows "parse_hpke a input = Inr env \<longleftrightarrow>
    (\<exists>e. env = EnvHpke e \<and> he_alg e = a) \<and> envelope_ok env \<and> input = envelope_to_vec env" (is "?l \<longleftrightarrow> ?r")
proof
  note hs = h(1) [unfolded split_header_Inr]
  assume l: ?l
  from l h(1) obtain enc r1 c t where
    s: "reader_array ENC_LEN (reader_new (eh_rest h)) = Inr (enc, r1)" "split_tag (fst (reader_rest r1)) = Inr (c, t)"
    and env: "env = EnvHpke \<lparr> he_alg = a, he_header = eh_bytes h, he_key_id = eh_key_id h, he_enc = enc,
      he_ciphertext = c, he_tag = t \<rparr>"
    by (auto simp: parse_hpke_def and_then_Inr split: if_splits)
  from s(1) obtain rest1 where n: "length enc = 32" "eh_rest h = enc @ rest1" "rd_input r1 = rest1"
    by (auto simp: array_new_Inr ENC_LEN_def)
  have t: "length t = 16" "rest1 = c @ t" using s(2) n(3) by (simp_all add: split_tag_Inr reader_rest_def)
  have input: "input = eh_bytes h @ enc @ c @ t" using hs n t by simp
  then show ?r using env hs h a n(1) t(1) by (simp add: envelope_ok_def)
next
  note hs = h(1) [unfolded split_header_Inr]
  assume ?r
  then obtain e where e: "env = EnvHpke e" "he_alg e = a" "envelope_ok env" "input = envelope_to_vec env" by blast
  let ?rest = "he_enc e @ he_ciphertext e @ he_tag e"
  have ok: "length (he_key_id e) = 16" "he_header e = [FORMAT_VERSION, alg_to_u8 a] @ he_key_id e"
    "length (he_enc e) = 32" "length (he_tag e) = 16"
    using e(1,2,3) by (simp_all add: envelope_ok_def)
  have "eh_bytes h @ eh_rest h = he_header e @ ?rest" using hs e(1,4) by simp
  moreover have "length (eh_bytes h) = length (he_header e)" using hs ok by simp
  ultimately have eq: "eh_bytes h = he_header e" "eh_rest h = ?rest" by (simp_all add: append_eq_append_conv)
  have "eh_key_id h = he_key_id e" using hs ok(2) eq(1) by simp
  moreover have "length input = 66 + length (he_ciphertext e)" using e(1,4) ok by simp
  moreover have "split_tag (he_ciphertext e @ he_tag e) = Inr (he_ciphertext e, he_tag e)"
    using ok(4) by (simp add: split_tag_Inr)
  moreover have "reader_array ENC_LEN (reader_new ?rest) =
      Inr (he_enc e, set_input (he_ciphertext e @ he_tag e) (reader_new ?rest))"
    using ok(3) by (simp add: array_new_Inr ENC_LEN_def)
  ultimately show ?l
    using e(1,2) h(1) eq by (simp add: parse_hpke_def envelope_lens reader_rest_def)
qed

lemma parse_envelope_iff: "parse_envelope input = Inr env \<longleftrightarrow> envelope_ok env \<and> input = envelope_to_vec env"
proof
  assume l: "parse_envelope input = Inr env"
  then obtain h a where h: "split_header input = Inr h" "eh_version h = FORMAT_VERSION" "eh_alg h = alg_to_u8 a"
    and a: "is_implemented a" "parse_layout a input = Inr env"
    by (auto simp: parse_envelope_def and_then_Inr alg_codes split: if_splits option.splits)
  then show "envelope_ok env \<and> input = envelope_to_vec env"
    using parse_symmetric_Inr [OF h(1,2), of env] parse_hpke_Inr [OF h, of env]
    by (auto simp: is_implemented_def parse_layout_def)
next
  assume r: "envelope_ok env \<and> input = envelope_to_vec env"
  show "parse_envelope input = Inr env"
  proof (cases env)
    case (EnvSymmetric e)
    let ?h = "\<lparr> eh_bytes = se_header e, eh_version = FORMAT_VERSION, eh_alg = 0x01, eh_key_id = se_key_id e,
        eh_rest = se_nonce e @ se_commitment e @ se_ciphertext e @ se_tag e \<rparr>"
    have h: "split_header input = Inr ?h" using r EnvSymmetric by (simp add: split_header_Inr envelope_ok_def)
    have "parse_symmetric input = Inr env" using parse_symmetric_Inr [OF h] r EnvSymmetric by auto
    then show ?thesis using h by (simp add: parse_envelope_def alg_from_u8_def is_implemented_def parse_layout_def)
  next
    case (EnvHpke e)
    let ?h = "\<lparr> eh_bytes = he_header e, eh_version = FORMAT_VERSION, eh_alg = alg_to_u8 (he_alg e),
        eh_key_id = he_key_id e, eh_rest = he_enc e @ he_ciphertext e @ he_tag e \<rparr>"
    have h: "split_header input = Inr ?h" using r EnvHpke by (simp add: split_header_Inr envelope_ok_def)
    have a: "he_alg e \<in> {HpkeBaseX25519, HpkePskX25519}" using r EnvHpke by (simp add: envelope_ok_def)
    have "parse_hpke (he_alg e) input = Inr env" using parse_hpke_Inr [OF h _ _ a] r EnvHpke by auto
    then show ?thesis using h a by (auto simp: parse_envelope_def alg_from_u8_def is_implemented_def parse_layout_def)
  qed
qed

lemma length_envelope:
  "envelope_ok env \<Longrightarrow> length (envelope_to_vec env) = envelope_encoded_len env"
  by (cases env) (auto simp: envelope_ok_def envelope_lens)

lemma parse_for_one:
  "parse_for_purpose input [a] = Inr env \<longleftrightarrow> parse_envelope input = Inr env \<and> envelope_alg_id env = a"
proof
  assume l: "parse_for_purpose input [a] = Inr env"
  then obtain h where h: "split_header input = Inr h" "eh_version h = FORMAT_VERSION" "eh_alg h = alg_to_u8 a"
    and a: "alg_overhead a \<noteq> None" "parse_layout a input = Inr env"
    by (auto simp: parse_for_purpose_def and_then_Inr ok_or_Inr alg_codes min_opt_def List.map_filter_def
        split: if_splits option.splits)
  have impl: "is_implemented a" using a(1) by (cases a) (auto simp: alg_overhead_def is_implemented_def)
  have "alg_from_u8 (alg_to_u8 a) = Some a" by (simp add: alg_codes)
  then have "parse_envelope input = Inr env" using h a impl by (simp add: parse_envelope_def)
  moreover have "envelope_alg_id env = a"
    using a(2) impl parse_symmetric_Inr [OF h(1,2), of env] parse_hpke_Inr [OF h, of env] h(3)
    by (auto simp: is_implemented_def parse_layout_def)
  ultimately show "parse_envelope input = Inr env \<and> envelope_alg_id env = a" ..
next
  assume r: "parse_envelope input = Inr env \<and> envelope_alg_id env = a"
  then have ok: "envelope_ok env" "input = envelope_to_vec env" by (simp_all add: parse_envelope_iff)
  from r obtain h where h: "split_header input = Inr h" "eh_version h = FORMAT_VERSION"
    and b: "\<exists>b. eh_alg h = alg_to_u8 b \<and> is_implemented b \<and> parse_layout b input = Inr env"
    by (auto simp: parse_envelope_def and_then_Inr alg_codes split: if_splits option.splits)
  then obtain b where b: "eh_alg h = alg_to_u8 b" "is_implemented b" "parse_layout b input = Inr env" by blast
  have ab: "b = a"
    using b(2,3) parse_symmetric_Inr [OF h(1,2), of env] parse_hpke_Inr [OF h(1,2) b(1), of env] b(1) r
    by (auto simp: is_implemented_def parse_layout_def)
  have len: "length input = envelope_encoded_len env" using ok length_envelope by simp
  have "\<exists>n. alg_overhead a = Some n \<and> n \<le> length input"
    using r b(2) ab ok(1) unfolding len by (cases env) (auto simp: alg_overhead_def is_implemented_def envelope_ok_def)
  moreover have "alg_fam a = FamSymmetric \<longrightarrow> length input \<le> MAX_SYMMETRIC_ENVELOPE_LEN"
    using r ok(1) unfolding len by (cases env) (auto simp: envelope_ok_def envelope_lens)
  moreover have "alg_from_u8 (alg_to_u8 a) = Some a" by (simp add: alg_codes)
  ultimately show "parse_for_purpose input [a] = Inr env"
    using h b ab by (auto simp: parse_for_purpose_def List.map_filter_def min_opt_def)
qed

lemma allow_list_cases: "client_decrypt_allow_list p = [] \<or> client_decrypt_allow_list p = [purpose_encrypt p]"
  by (cases p) (simp_all add: client_decrypt_allow_list_def split: side.splits)

text \<open>C17: one encoding per envelope, and one algorithm per purpose. The parser accepts a byte
  string and yields an envelope if and only if the envelope is well formed and the writer writes
  those bytes for it. The decryption path of a purpose yields exactly the envelopes that parse
  and whose algorithm is on the purpose's allow-list, which holds at most the one algorithm the
  purpose encrypts with.\<close>
theorem envelope_one_encoding:
  "(parse_envelope input = Inr env \<longleftrightarrow> envelope_ok env \<and> input = envelope_to_vec env) \<and>
   (parse_for_purpose input (client_decrypt_allow_list p) = Inr env \<longleftrightarrow>
      parse_envelope input = Inr env \<and> envelope_alg_id env \<in> set (client_decrypt_allow_list p)) \<and>
   set (client_decrypt_allow_list p) \<subseteq> {purpose_encrypt p}"
proof -
  have "parse_for_purpose input [] \<noteq> Inr env" by (simp add: parse_for_purpose_def List.map_filter_def min_opt_def)
  then show ?thesis
    using allow_list_cases [of p] by (auto simp: parse_envelope_iff parse_for_one)
qed

end
