(* ===== verification/Server_Keys.thy ===== *)
theory Server_Keys
  imports Server_Store Envelopes
begin

text \<open>
  Vault keys on the server: creating a vault and repairing a lagging self-grant
  (\<open>rizzy-domain-vault/src/keys.rs\<close>), and the vault half of an account-key rotation
  (\<open>rotation.rs\<close>). The request types are those of \<open>rizzy-proto/src/\<close> (\<open>objects.rs\<close>, \<open>vault.rs\<close>,
  \<open>change.rs\<close>). The certificates and the account key come from the \<open>auth\<close> domain, through the
  operations of the trait \<open>DeviceDirectory\<close>; they are arguments here.
\<close>

section \<open>Requests\<close>

definition MAX_ITEM_KEY_WRAPS :: usize where
  "MAX_ITEM_KEY_WRAPS = 65536"

record vault_self_grant =
  sf_vault_id :: id16
  sf_account_key_epoch :: u32
  sf_vault_key_epoch :: u32
  sf_envelope :: bytes

record healing_request =
  hq_vault_id :: id16
  hq_item_key_wraps :: "wrap_row list"
  hq_records :: "wire_record list"
  hq_self_grant :: "vault_self_grant option"

type_synonym locator = "id16 \<times> id16"

record vault_rotation =
  vt_self_grant :: vault_self_grant
  vt_cursor :: version_vector
  vt_item_key_wraps :: "wrap_row list"
  vt_dropped :: "locator list"

record account_key_state =
  ak_account_key_epoch :: u32
  ak_account_key_id :: bytes

record device_directory =
  dd_authors :: "id16 \<Rightarrow> vault_error + authors"
  dd_account_key :: "id16 \<Rightarrow> vault_error + account_key_state option"

definition to_sql_time :: "u64 \<Rightarrow> vault_error + u64" where
  "to_sql_time now_ms = u64_to_sql now_ms"

section \<open>Creating a vault\<close>

definition create_vault :: "vault_db \<Rightarrow> id16 \<Rightarrow> vault_self_grant \<Rightarrow> u64 \<Rightarrow> vault_error + vault_db" where
  "create_vault db account grant now_ms =
     (if sf_vault_key_epoch grant \<noteq> 0 then Inl VaultInvalid
      else
        and_then (to_sql_time now_ms) (\<lambda>now.
        and_then (insert_vault db (sf_vault_id grant) account 0 now) (\<lambda>db.
        write_self_grant db (sf_vault_id grant)
          \<lparr> gr_account_key_epoch = sf_account_key_epoch grant, gr_vault_key_epoch = 0, gr_envelope = sf_envelope grant \<rparr>
          False now)))"

definition vault_of_account :: "vault_db \<Rightarrow> id16 \<Rightarrow> id16 \<Rightarrow> vault_row option" where
  "vault_of_account db account v =
     (case repo_vault db v of
        Some r \<Rightarrow> if vr_account_id r = account then Some r else None
      | None \<Rightarrow> None)"

definition self_grant :: "vault_db \<Rightarrow> id16 \<Rightarrow> id16 \<Rightarrow> vault_error + vault_self_grant" where
  "self_grant db account v =
     and_then (ok_or NotFound (vault_of_account db account v)) (\<lambda>_.
     and_then (ok_or NotFound (repo_self_grant db v)) (\<lambda>row.
     if gr_envelope row = [] \<or> 256 < length (gr_envelope row) then Inl Corrupt
     else Inr \<lparr> sf_vault_id = v, sf_account_key_epoch = gr_account_key_epoch row,
                sf_vault_key_epoch = gr_vault_key_epoch row, sf_envelope = gr_envelope row \<rparr>))"

section \<open>Repairing a self-grant\<close>

definition ITEM_KEY_WRAP_ENVELOPE_LEN :: usize where
  "ITEM_KEY_WRAP_ENVELOPE_LEN = OVERHEAD + 1 + 4 + 32"

definition symmetric_under :: "bytes \<Rightarrow> purpose \<Rightarrow> bytes \<Rightarrow> bool" where
  "symmetric_under envelope p key_id =
     (case parse_for_purpose envelope (client_decrypt_allow_list p) of
        Inr (EnvSymmetric parsed) \<Rightarrow>
          (case purpose_plaintext p of Fixed len \<Rightarrow> length (se_ciphertext parsed) = len | _ \<Rightarrow> True) \<and>
          se_key_id parsed = key_id
      | _ \<Rightarrow> False)"

definition key_id_of :: "bytes \<Rightarrow> bytes option" where
  "key_id_of envelope =
     (case parse_envelope envelope of Inr (EnvSymmetric e) \<Rightarrow> Some (se_key_id e) | _ \<Rightarrow> None)"

definition at :: "wrap_row \<Rightarrow> locator" where
  "at w = (wr_item_id w, wr_item_key_id w)"

text \<open>The loop of \<open>check_heal_wraps\<close>: the shared key id so far, the locators seen, the rows to
  overwrite.\<close>

fun heal_wraps ::
  "wrap_row list \<Rightarrow> u32 \<Rightarrow> wrap_row list \<Rightarrow> bytes option \<Rightarrow> locator btree_set \<Rightarrow> wrap_row list \<Rightarrow>
   unit + (bytes option \<times> wrap_row list)" where
  "heal_wraps rows new_epoch [] key seen replaced = Inr (key, replaced)"
| "heal_wraps rows new_epoch (wrap # wraps) key seen replaced =
     (if wr_vault_key_epoch wrap \<noteq> new_epoch \<or> length (wr_envelope wrap) \<noteq> ITEM_KEY_WRAP_ENVELOPE_LEN then Inl ()
      else
        and_then (ok_or () (key_id_of (wr_envelope wrap))) (\<lambda>wrap_key.
        let held = (case key of None \<Rightarrow> wrap_key | Some k \<Rightarrow> k) in
        if held \<noteq> wrap_key then Inl ()
        else if bs_contains seen (at wrap) then Inl ()
        else heal_wraps rows new_epoch wraps (Some held) (bs_insert (at wrap) seen)
               (if at wrap \<in> at ` set rows
                then replaced @ [\<lparr> wr_item_id = wr_item_id wrap, wr_item_key_id = wr_item_key_id wrap,
                                   wr_vault_key_epoch = new_epoch, wr_envelope = wr_envelope wrap \<rparr>]
                else replaced)))"

definition check_heal_wraps :: "wrap_row list \<Rightarrow> healing_request \<Rightarrow> u32 \<Rightarrow> unit + wrap_row list" where
  "check_heal_wraps rows request new_epoch =
     and_then (heal_wraps rows new_epoch (hq_item_key_wraps request) None bt_empty []) (\<lambda>(key, replaced).
     case key of
       None \<Rightarrow> Inr replaced
     | Some key \<Rightarrow>
         if list_all (\<lambda>row. if wr_vault_key_epoch row < new_epoch then key_id_of (wr_envelope row) \<noteq> Some key
                            else key_id_of (wr_envelope row) = Some key) rows
         then Inr replaced else Inl ())"

text \<open>Overwrites every row of a list; a row that is not there is corruption.\<close>

fun overwrite_all :: "vault_db \<Rightarrow> id16 \<Rightarrow> wrap_row list \<Rightarrow> u64 \<Rightarrow> vault_error + vault_db" where
  "overwrite_all db v [] now = Inr db"
| "overwrite_all db v (w # ws) now =
     (let (changed, db) = overwrite_wrap db v w now
      in if changed \<noteq> 1 then Inl Corrupt else overwrite_all db v ws now)"

definition lags :: "self_grant_row option \<Rightarrow> account_key_state \<Rightarrow> bool" where
  "lags stored key = (case stored of None \<Rightarrow> True | Some s \<Rightarrow> gr_account_key_epoch s < ak_account_key_epoch key)"

definition may_repair :: "session \<Rightarrow> device_id option \<Rightarrow> bool" where
  "may_repair ss healer =
     (case Option.bind healer (authors_get (ss_authors ss)) of
        None \<Rightarrow> False
      | Some a \<Rightarrow> is_durable (ac_device_kind a) \<and> ac_status a = Active \<and> \<not> ac_expired_at a (ss_now_ms ss))"

text \<open>The writes of a repair, once every check has passed.\<close>

definition repair_writes ::
  "vault_db \<Rightarrow> id16 \<Rightarrow> vault_self_grant \<Rightarrow> self_grant_row option \<Rightarrow> wrap_row list \<Rightarrow> wrap_row list \<Rightarrow> u64 \<Rightarrow>
   vault_error + vault_db" where
  "repair_writes db v grant stored rows replaced now =
     (let new_epoch = sf_vault_key_epoch grant;
          db = set_vault_epoch db v new_epoch
      in and_then (write_self_grant db v
            \<lparr> gr_account_key_epoch = sf_account_key_epoch grant, gr_vault_key_epoch = new_epoch,
              gr_envelope = sf_envelope grant \<rparr> (stored \<noteq> None) now) (\<lambda>db.
         and_then (overwrite_all db v replaced now) (\<lambda>db.
         let kept = bs_collect (map at replaced);
             stale = filter (\<lambda>r. wr_vault_key_epoch r < new_epoch \<and> \<not> bs_contains kept (at r)) rows;
             db = fold (\<lambda>r db. snd (delete_wrap db v (wr_item_id r) (wr_item_key_id r))) stale db
         in Inr (clear_record_wraps_below db v new_epoch))))"

definition heal_self_grant ::
  "vault_db \<Rightarrow> session \<Rightarrow> device_id option \<Rightarrow> account_key_state option \<Rightarrow> vault_self_grant \<Rightarrow>
   healing_request \<Rightarrow> vault_error + ((store_refusal + unit) \<times> vault_db)" where
  "heal_self_grant db ss healer account_key grant request =
     (let v = ss_vault_id ss in
      case account_key of
        None \<Rightarrow> Inr (Inl RefInvalid, db)
      | Some key \<Rightarrow>
          if \<not> (hq_records request = [] \<and> sf_vault_id grant = v \<and>
                sf_account_key_epoch grant = ak_account_key_epoch key \<and>
                symmetric_under (sf_envelope grant) VaultKeySelfGrant (ak_account_key_id key))
          then Inr (Inl RefInvalid, db)
          else
            let stored = repo_self_grant db v in
            if \<not> lags stored key then
              Inr (if (case stored of None \<Rightarrow> False
                       | Some s \<Rightarrow> gr_account_key_epoch s = sf_account_key_epoch grant \<and>
                           gr_vault_key_epoch s = sf_vault_key_epoch grant)
                   then Inr () else Inl RefInvalid, db)
            else if \<not> may_repair ss healer then Inr (Inl RefUnauthorized, db)
            else
              let new_epoch = sf_vault_key_epoch grant in
              if new_epoch \<le> vr_vault_key_epoch (ss_vault ss) then Inr (Inl RefInvalid, db)
              else if (case max_record_epoch db v of None \<Rightarrow> False | Some e \<Rightarrow> new_epoch < e)
              then Inr (Inl RefInvalid, db)
              else
                let rows = wraps_after db v None (saturating_add MAX_ITEM_KEY_WRAPS 1) in
                if MAX_ITEM_KEY_WRAPS < length rows \<or> list_ex (\<lambda>r. new_epoch < wr_vault_key_epoch r) rows
                then Inr (Inl RefInvalid, db)
                else
                  (case check_heal_wraps rows request new_epoch of
                     Inl _ \<Rightarrow> Inr (Inl RefInvalid, db)
                   | Inr replaced \<Rightarrow>
                       and_then (repair_writes db v grant stored rows replaced (ss_now_sql ss)) (\<lambda>db.
                       Inr (Inr (), db))))"

section \<open>Rotation\<close>

record vault_plan =
  pl_vault_id :: id16
  pl_has_grant :: bool
  pl_grant :: self_grant_row
  pl_rewrapped :: "wrap_row list"
  pl_dropped :: "locator list"

text \<open>The loop over the re-wrapped rows: the shared key id, the locators re-wrapped, the rows.\<close>

fun rewrap_rows ::
  "bytes btree_set \<Rightarrow> locator btree_set \<Rightarrow> u32 \<Rightarrow> wrap_row list \<Rightarrow> bytes option \<Rightarrow> locator btree_set \<Rightarrow>
   wrap_row list \<Rightarrow> vault_error + (locator btree_set \<times> wrap_row list)" where
  "rewrap_rows stored_key_ids stored_rows new_epoch [] wrap_key_id rewrapped_at rewrapped =
     Inr (rewrapped_at, rewrapped)"
| "rewrap_rows stored_key_ids stored_rows new_epoch (wrap # wraps) wrap_key_id rewrapped_at rewrapped =
     (if wr_vault_key_epoch wrap \<noteq> new_epoch \<or> length (wr_envelope wrap) \<noteq> ITEM_KEY_WRAP_ENVELOPE_LEN
      then Inl VaultInvalid
      else
        and_then (ok_or VaultInvalid (key_id_of (wr_envelope wrap))) (\<lambda>key_id.
        let held = (case wrap_key_id of None \<Rightarrow> key_id | Some k \<Rightarrow> k) in
        if held \<noteq> key_id \<or> bs_contains stored_key_ids key_id then Inl VaultInvalid
        else if \<not> bs_contains stored_rows (at wrap) \<or> bs_contains rewrapped_at (at wrap) then Inl VaultInvalid
        else rewrap_rows stored_key_ids stored_rows new_epoch wraps (Some held) (bs_insert (at wrap) rewrapped_at)
               (rewrapped @ [\<lparr> wr_item_id = wr_item_id wrap, wr_item_key_id = wr_item_key_id wrap,
                               wr_vault_key_epoch = new_epoch, wr_envelope = wr_envelope wrap \<rparr>])))"

fun drop_rows ::
  "locator btree_set \<Rightarrow> locator btree_set \<Rightarrow> locator list \<Rightarrow> locator btree_set \<Rightarrow> vault_error + locator btree_set" where
  "drop_rows stored_rows rewrapped_at [] dropped_at = Inr dropped_at"
| "drop_rows stored_rows rewrapped_at (l # ls) dropped_at =
     (if \<not> bs_contains stored_rows l \<or> bs_contains rewrapped_at l \<or> bs_contains dropped_at l then Inl VaultInvalid
      else drop_rows stored_rows rewrapped_at ls (bs_insert l dropped_at))"

definition check_wraps ::
  "wrap_row list \<Rightarrow> vault_rotation \<Rightarrow> u32 \<Rightarrow> vault_error + (wrap_row list \<times> locator list)" where
  "check_wraps stored rotation new_epoch =
     (if MAX_ITEM_KEY_WRAPS < length stored then Inl VaultInvalid
      else
        let stored_key_ids = bs_collect (List.map_filter (\<lambda>row.
                case parse_envelope (wr_envelope row) of Inl _ \<Rightarrow> None | Inr e \<Rightarrow> Some (envelope_key_id e)) stored);
            stored_rows = bs_collect (map at stored)
        in and_then (rewrap_rows stored_key_ids stored_rows new_epoch (vt_item_key_wraps rotation) None bt_empty [])
             (\<lambda>(rewrapped_at, rewrapped).
           and_then (drop_rows stored_rows rewrapped_at (vt_dropped rotation) bt_empty) (\<lambda>dropped_at.
           if list_ex (\<lambda>l. \<not> bs_contains rewrapped_at l \<and> \<not> bs_contains dropped_at l) (bt_keys stored_rows)
           then Inl StateConflict
           else Inr (rewrapped, bt_keys dropped_at))))"

definition check_cutoff :: "vault_db \<Rightarrow> id16 \<Rightarrow> vault_rotation \<Rightarrow> vault_error + unit" where
  "check_cutoff db v rotation =
     (let hs = repo_heads db v;
          cursor = vt_cursor rotation;
          exact = list_all (\<lambda>h. vv_get cursor (dot_device h) = dot_seq h) (vv_entries hs) \<and>
                  list_all (\<lambda>e. vv_get hs (dot_device e) = dot_seq e) (vv_entries cursor)
      in if \<not> exact then Inl StateConflict
         else
           and_then (clamped_vvs db v) (\<lambda>all.
           if list_ex (\<lambda>c. list_ex (\<lambda>d. vv_get cursor (dot_device d) < dot_seq d) (vv_entries c)) all
           then Inl StateConflict else Inr ()))"

definition check_vault ::
  "vault_db \<Rightarrow> id16 \<Rightarrow> id16 \<Rightarrow> u32 \<Rightarrow> bytes \<Rightarrow> vault_rotation \<Rightarrow> vault_error + vault_plan" where
  "check_vault db account v new_account_key_epoch new_account_key_id rotation =
     and_then (ok_or Corrupt (vault_of_account db account v)) (\<lambda>vault.
     let grant = vt_self_grant rotation;
         new_epoch = sf_vault_key_epoch grant
     in if sf_account_key_epoch grant \<noteq> new_account_key_epoch \<or> new_epoch \<le> vr_vault_key_epoch vault
        then Inl VaultInvalid
        else if key_id_of (sf_envelope grant) \<noteq> Some new_account_key_id then Inl VaultInvalid
        else
          let stored = wraps_after db v None (saturating_add MAX_ITEM_KEY_WRAPS 1) in
          and_then (check_wraps stored rotation new_epoch) (\<lambda>(rewrapped, dropped).
          and_then (check_cutoff db v rotation) (\<lambda>_.
          Inr \<lparr> pl_vault_id = v, pl_has_grant = (repo_self_grant db v \<noteq> None),
                pl_grant = \<lparr> gr_account_key_epoch = new_account_key_epoch, gr_vault_key_epoch = new_epoch,
                             gr_envelope = sf_envelope grant \<rparr>,
                pl_rewrapped = rewrapped, pl_dropped = dropped \<rparr>)))"

fun delete_all :: "vault_db \<Rightarrow> id16 \<Rightarrow> locator list \<Rightarrow> vault_error + vault_db" where
  "delete_all db v [] = Inr db"
| "delete_all db v ((i, key) # ls) =
     (let (changed, db) = delete_wrap db v i key
      in if changed \<noteq> 1 then Inl Corrupt else delete_all db v ls)"

definition write_vault :: "vault_db \<Rightarrow> vault_plan \<Rightarrow> u64 \<Rightarrow> vault_error + vault_db" where
  "write_vault db plan now =
     (let v = pl_vault_id plan;
          db = set_vault_epoch db v (gr_vault_key_epoch (pl_grant plan))
      in and_then (write_self_grant db v (pl_grant plan) (pl_has_grant plan) now) (\<lambda>db.
         and_then (overwrite_all db v (pl_rewrapped plan) now) (\<lambda>db.
         and_then (delete_all db v (pl_dropped plan)) (\<lambda>db.
         Inr (clear_record_wraps db v)))))"

fun write_vaults :: "vault_db \<Rightarrow> vault_plan list \<Rightarrow> u64 \<Rightarrow> vault_error + vault_db" where
  "write_vaults db [] now = Inr db"
| "write_vaults db (p # ps) now = and_then (write_vault db p now) (\<lambda>db. write_vaults db ps now)"

definition apply_rotation ::
  "vault_db \<Rightarrow> id16 \<Rightarrow> u32 \<Rightarrow> bytes \<Rightarrow> vault_rotation list \<Rightarrow> u64 \<Rightarrow> vault_error + vault_db" where
  "apply_rotation db account new_account_key_epoch new_account_key_id entries now_ms =
     and_then (to_sql_time now_ms) (\<lambda>now.
     let vaults = list_vaults db account in
     if vaults \<noteq> map (\<lambda>e. sf_vault_id (vt_self_grant e)) entries then Inl VaultInvalid
     else
       and_then (try_map (\<lambda>(v, rotation).
           check_vault db account v new_account_key_epoch new_account_key_id rotation) (zip vaults entries)) (\<lambda>plans.
       write_vaults db plans now))"

end
