(* ===== verification/Server_Upload.thy ===== *)
theory Server_Upload
  imports Server_Keys
begin

text \<open>
  Upload and the restore-healing request, \<open>rizzy-domain-vault/src/upload.rs\<close>: opening the store
  session, the loop over an upload's records, the four steps of a healing request, and the two
  calls of the domain. A call takes the database and returns the database it commits; on an
  error or a refusal the transaction is dropped and the caller keeps the old database. The events
  published after a commit are returned as the items of \<open>ss_queued\<close>.
\<close>

section \<open>The session\<close>

definition open_session ::
  "vault_db \<Rightarrow> device_directory \<Rightarrow> id16 \<Rightarrow> id16 \<Rightarrow> u64 \<Rightarrow> vault_error + session" where
  "open_session db dir account v now_ms =
     and_then (ok_or NotFound (vault_of_account db account v)) (\<lambda>vault.
     and_then (dd_authors dir account) (\<lambda>certs.
     and_then (to_sql_time now_ms) (\<lambda>now_sql.
     Inr \<lparr> ss_vault_id = v, ss_vault = vault, ss_heads = repo_heads db v, ss_authors = certs,
           ss_now_ms = now_ms, ss_now_sql = now_sql, ss_queued = bt_empty \<rparr>)))"

section \<open>Upload\<close>

fun upload_record :: "crypto \<Rightarrow> vault_db \<Rightarrow> session \<Rightarrow> wire_record \<Rightarrow> store_step" where
  "upload_record cr db ss (ROp r) = upload_op cr db ss r"
| "upload_record cr db ss (RSnapshot r) = upload_snapshot cr db ss r"

text \<open>The loop: the results, and the database and session after the last record.\<close>

fun upload_records ::
  "crypto \<Rightarrow> vault_db \<Rightarrow> session \<Rightarrow> bool \<Rightarrow> wire_record list \<Rightarrow>
   vault_error + (upload_result list \<times> vault_db \<times> session)" where
  "upload_records cr db ss rejected [] = Inr ([], db, ss)"
| "upload_records cr db ss rejected (r # rs) =
     (if rejected then
        and_then (upload_records cr db ss rejected rs) (\<lambda>(results, db, ss). Inr (NotProcessed # results, db, ss))
      else
        and_then (upload_record cr db ss r) (\<lambda>(outcome, db, ss).
        let (result, rejected) = (case outcome of
               Inr result \<Rightarrow> (result, rejected)
             | Inl refusal \<Rightarrow> (Rejected (refusal_code refusal), True))
        in and_then (upload_records cr db ss rejected rs) (\<lambda>(results, db, ss). Inr (result # results, db, ss))))"

record upload_request =
  ur_vault_id :: id16
  ur_records :: "wire_record list"

record upload_response =
  ua_restore_generation :: bytes
  ua_results :: "upload_result list"

definition MAX_RECORDS :: usize where
  "MAX_RECORDS = 4096"

text \<open>The commit comes before the check of the response's length, so the database is returned
  beside the answer.\<close>

definition upload ::
  "crypto \<Rightarrow> device_directory \<Rightarrow> vault_db \<Rightarrow> id16 \<Rightarrow> upload_request \<Rightarrow> u64 \<Rightarrow>
   (vault_error + (upload_response \<times> id16 btree_set)) \<times> vault_db" where
  "upload cr dir db account request now_ms =
     (case and_then (open_session db dir account (ur_vault_id request) now_ms) (\<lambda>ss.
           and_then (restore_generation db) (\<lambda>generation.
           and_then (upload_records cr db ss False (ur_records request)) (\<lambda>out. Inr (generation, out)))) of
        Inl e \<Rightarrow> (Inl e, db)
      | Inr (generation, results, db', ss) \<Rightarrow>
          (if MAX_RECORDS < length results then Inl Corrupt
           else Inr (\<lparr> ua_restore_generation = generation, ua_results = results \<rparr>, ss_queued ss), db'))"

section \<open>The healing request\<close>

definition heal_wrap_rows :: "vault_db \<Rightarrow> session \<Rightarrow> wrap_row list \<Rightarrow> vault_db" where
  "heal_wrap_rows db ss =
     (\<lambda>wraps. fold (\<lambda>wrap db.
         if wr_vault_key_epoch wrap < vr_vault_key_epoch (ss_vault ss) then db
         else snd (put_wrap db (ss_vault_id ss) wrap (ss_now_sql ss))) wraps db)"

type_synonym bodiless_headers = "(id16, dot list) btree_map"

definition push_bodiless :: "verified_op \<Rightarrow> bodiless_headers \<Rightarrow> bodiless_headers" where
  "push_bodiless vo bodiless =
     (if vo_body vo = None then
        let i = oh_item_id (vo_header vo);
            dots = (case bt_get bodiless i of None \<Rightarrow> [] | Some dots \<Rightarrow> dots)
        in bt_insert i (dots @ [oh_dot (vo_header vo)]) bodiless
      else bodiless)"

text \<open>The second step, one op after the other.\<close>

fun heal_ops ::
  "crypto \<Rightarrow> vault_db \<Rightarrow> session \<Rightarrow> wire_record list \<Rightarrow> bodiless_headers \<Rightarrow>
   vault_error + (store_refusal + (vault_db \<times> session \<times> bodiless_headers))" where
  "heal_ops cr db ss [] bodiless = Inr (Inr (db, ss, bodiless))"
| "heal_ops cr db ss (RSnapshot _ # rs) bodiless = heal_ops cr db ss rs bodiless"
| "heal_ops cr db ss (ROp r # rs) bodiless =
     (case verify_op cr r (ss_vault_id ss) (ss_authors ss) False WrapOptional of
        Inl _ \<Rightarrow> Inr (Inl RefInvalid)
      | Inr vo \<Rightarrow>
          and_then (existing_op db ss vo) (\<lambda>ex.
          case ex of
            Same \<Rightarrow> heal_ops cr db ss rs bodiless
          | Different \<Rightarrow> Inr (Inl RefConflict)
          | New \<Rightarrow>
              if \<not> op_author_allows vo then Inr (Inl RefInvalid)
              else
                (case chain_check ss vo of
                   Inl e \<Rightarrow> Inr (Inl e)
                 | Inr _ \<Rightarrow>
                     and_then (store_op db ss vo) (\<lambda>(db, ss).
                     heal_ops cr db ss rs (push_bodiless vo bodiless)))))"

fun heal_snapshots ::
  "crypto \<Rightarrow> vault_db \<Rightarrow> session \<Rightarrow> wire_record list \<Rightarrow> vault_error + (store_refusal + (vault_db \<times> session))" where
  "heal_snapshots cr db ss [] = Inr (Inr (db, ss))"
| "heal_snapshots cr db ss (ROp _ # rs) = heal_snapshots cr db ss rs"
| "heal_snapshots cr db ss (RSnapshot r # rs) =
     (case verify_snapshot cr r (ss_vault_id ss) (ss_authors ss) WrapOptional of
        Inl _ \<Rightarrow> Inr (Inl RefInvalid)
      | Inr vs \<Rightarrow>
          and_then (existing_snapshot cr db ss vs) (\<lambda>ex.
          case ex of
            Same \<Rightarrow> heal_snapshots cr db ss rs
          | Different \<Rightarrow> Inr (Inl RefConflict)
          | New \<Rightarrow>
              if \<not> snapshot_allowed ss vs then Inr (Inl RefInvalid)
              else and_then (store_snapshot db ss vs) (\<lambda>(db, ss). heal_snapshots cr db ss rs)))"

fun heal_covers :: "vault_db \<Rightarrow> id16 \<Rightarrow> (id16 \<times> dot list) list \<Rightarrow> vault_error + (store_refusal + unit)" where
  "heal_covers db v [] = Inr (Inr ())"
| "heal_covers db v ((i, dots) # rest) =
     and_then (item_snapshots db v i) (\<lambda>retained.
     case check_healing_request retained dots of
       Inl _ \<Rightarrow> Inr (Inl RefInvalid)
     | Inr _ \<Rightarrow> heal_covers db v rest)"

definition heal_in ::
  "crypto \<Rightarrow> vault_db \<Rightarrow> session \<Rightarrow> healing_request \<Rightarrow> vault_error + (store_refusal + (vault_db \<times> session))" where
  "heal_in cr db ss request =
     (let db = heal_wrap_rows db ss (hq_item_key_wraps request) in
      and_then (heal_ops cr db ss (hq_records request) bt_empty) (\<lambda>after_ops.
      case after_ops of
        Inl e \<Rightarrow> Inr (Inl e)
      | Inr (db, ss, bodiless) \<Rightarrow>
          and_then (heal_snapshots cr db ss (hq_records request)) (\<lambda>after_snapshots.
          case after_snapshots of
            Inl e \<Rightarrow> Inr (Inl e)
          | Inr (db, ss) \<Rightarrow>
              and_then (heal_covers db (ss_vault_id ss) (bt_entries bodiless)) (\<lambda>covered'.
              case covered' of Inl e \<Rightarrow> Inr (Inl e) | Inr _ \<Rightarrow> Inr (Inr (db, ss))))))"

datatype healing_error = Refused error_code | Failed vault_error

text \<open>The two kinds of healing request inside the transaction.\<close>

definition heal_outcome ::
  "crypto \<Rightarrow> device_directory \<Rightarrow> vault_db \<Rightarrow> id16 \<Rightarrow> device_id option \<Rightarrow> healing_request \<Rightarrow> session \<Rightarrow>
   vault_error + (store_refusal + (vault_db \<times> session))" where
  "heal_outcome cr dir db account healer request ss =
     (case hq_self_grant request of
        Some grant \<Rightarrow>
          and_then (dd_account_key dir account) (\<lambda>key.
          and_then (heal_self_grant db ss healer key grant request) (\<lambda>(outcome, db).
          Inr (case outcome of Inl e \<Rightarrow> Inl e | Inr _ \<Rightarrow> Inr (db, ss))))
      | None \<Rightarrow> heal_in cr db ss request)"

definition heal ::
  "crypto \<Rightarrow> device_directory \<Rightarrow> vault_db \<Rightarrow> id16 \<Rightarrow> device_id option \<Rightarrow> healing_request \<Rightarrow> u64 \<Rightarrow>
   (healing_error + (bytes \<times> id16 btree_set)) \<times> vault_db" where
  "heal cr dir db account healer request now_ms =
     (case and_then (open_session db dir account (hq_vault_id request) now_ms) (\<lambda>ss.
           and_then (restore_generation db) (\<lambda>generation.
           and_then (heal_outcome cr dir db account healer request ss) (\<lambda>outcome. Inr (generation, outcome)))) of
        Inl e \<Rightarrow> (Inl (Failed e), db)
      | Inr (generation, Inl refusal) \<Rightarrow> (Inl (Refused (refusal_code refusal)), db)
      | Inr (generation, Inr (db', ss)) \<Rightarrow> (Inr (generation, ss_queued ss), db'))"

end
