(* ===== verification/Server_Fetch.thy ===== *)
theory Server_Fetch
  imports Server_Upload
begin

text \<open>
  Fetch from a cursor, \<open>rizzy-domain-vault/src/fetch.rs\<close>: one page of ops from the client's cursor,
  the covers of its bodiless headers and the wrap set, from one consistent read of the database.
  The wire types \<open>Bytes\<close> and \<open>List\<close> of \<open>rizzy-proto/src/wire.rs\<close> refuse a value outside their
  bounds; \<open>wire_bytes\<close> and \<open>wire_list\<close> are those checks, which \<open>fetch.rs\<close> reports as corruption.
\<close>

section \<open>Wire values\<close>

definition MAX_ENVELOPE_LEN :: usize where "MAX_ENVELOPE_LEN = 16 * 1024 * 1024 + 90"
definition MAX_KEY_ENVELOPE_LEN :: usize where "MAX_KEY_ENVELOPE_LEN = 256"
definition MAX_VV_ENTRIES :: usize where "MAX_VV_ENTRIES = 65535"
definition MAX_OP_STATEMENT_LEN :: usize where
  "MAX_OP_STATEMENT_LEN = 6 + 4 + 97 + 24 * 65535 + 32 + 32 + 82"
definition MAX_SNAPSHOT_STATEMENT_LEN :: usize where
  "MAX_SNAPSHOT_STATEMENT_LEN = 6 + 4 + 73 + 24 * 65535 + 32 + 32 + 82"
definition PAGE_MAX_OPS :: usize where "PAGE_MAX_OPS = MAX_RECORDS div 2"
definition PAGE_BYTES :: usize where "PAGE_BYTES = 32 * 1024 * 1024"
definition BATCH :: usize where "BATCH = 256"
definition STATEMENT_FRAME :: usize where "STATEMENT_FRAME = 4 + 2 + 4 + 64"

definition wire_bytes :: "usize \<Rightarrow> bytes \<Rightarrow> vault_error + bytes" where
  "wire_bytes mx bs = (if bs = [] \<or> mx < length bs then Inl Corrupt else Inr bs)"

definition wire_list :: "usize \<Rightarrow> 'a list \<Rightarrow> vault_error + 'a list" where
  "wire_list mx xs = (if mx < length xs then Inl Corrupt else Inr xs)"

section \<open>Records as served\<close>

definition served_wrap :: "vault_db \<Rightarrow> id16 \<Rightarrow> id16 \<Rightarrow> bytes option \<Rightarrow> vault_error + record_key_wrap option" where
  "served_wrap db v i stored =
     (case stored of
        None \<Rightarrow> Inr None
      | Some envelope \<Rightarrow>
          (case wrap_by_envelope db v i envelope of
             None \<Rightarrow> Inr None
           | Some key \<Rightarrow>
               and_then (wire_bytes MAX_KEY_ENVELOPE_LEN envelope) (\<lambda>envelope.
               Inr (Some \<lparr> rk_item_key_id = key, rk_envelope = envelope \<rparr>))))"

definition served_op :: "vault_db \<Rightarrow> id16 \<Rightarrow> fetched_op \<Rightarrow> vault_error + op_record" where
  "served_op db v fo =
     (let r = fo_record fo in
      and_then (map_err (\<lambda>_. Corrupt) (signed_wire (sd_signed r))) (\<lambda>wire.
      and_then (wire_bytes MAX_OP_STATEMENT_LEN wire) (\<lambda>statement.
      and_then (case sd_body r of
                  None \<Rightarrow> Inr None
                | Some b \<Rightarrow> and_then (wire_bytes MAX_ENVELOPE_LEN b) (\<lambda>b. Inr (Some b))) (\<lambda>body.
      and_then (served_wrap db v (fo_item_id fo) (sd_key_wrap r)) (\<lambda>key_wrap.
      Inr \<lparr> pr_statement = statement, pr_body = body, pr_key_wrap = key_wrap \<rparr>)))))"

definition served_snapshot :: "vault_db \<Rightarrow> id16 \<Rightarrow> id16 \<Rightarrow> stored_record \<Rightarrow> vault_error + snapshot_record" where
  "served_snapshot db v i r =
     and_then (map_err (\<lambda>_. Corrupt) (signed_wire (sd_signed r))) (\<lambda>wire.
     and_then (ok_or Corrupt (sd_body r)) (\<lambda>envelope.
     and_then (wire_bytes MAX_SNAPSHOT_STATEMENT_LEN wire) (\<lambda>statement.
     and_then (wire_bytes MAX_ENVELOPE_LEN envelope) (\<lambda>envelope.
     and_then (served_wrap db v i (sd_key_wrap r)) (\<lambda>key_wrap.
     Inr \<lparr> ps_statement = statement, ps_envelope = envelope, ps_key_wrap = key_wrap \<rparr>)))))"

definition opt_len :: "bytes option \<Rightarrow> usize" where
  "opt_len b = (case b of None \<Rightarrow> 0 | Some bs \<Rightarrow> length bs)"

definition op_size :: "fetched_op \<Rightarrow> usize" where
  "op_size fo =
     (let r = fo_record fo
      in saturating_add
           (saturating_add (STATEMENT_FRAME + length (sg_header (sd_signed r)) + length (sg_container (sd_signed r)))
             (opt_len (sd_body r)))
           (opt_len (sd_key_wrap r)))"

section \<open>Covers\<close>

record item_covers =
  ic_retained :: "retained_snapshot list"
  ic_sizes :: "(u64, usize) btree_map"
  ic_dots :: "dot list"
  ic_selection :: cover_selection
  ic_bytes :: usize

definition covers_load :: "vault_db \<Rightarrow> id16 \<Rightarrow> id16 \<Rightarrow> vault_error + item_covers" where
  "covers_load db v i =
     and_then (item_snapshots db v i) (\<lambda>retained.
     Inr \<lparr> ic_retained = retained, ic_sizes = item_snapshot_sizes db v i, ic_dots = [],
           ic_selection = \<lparr> covers = [], uncovered = [] \<rparr>, ic_bytes = 0 \<rparr>)"

fun cover_bytes :: "(u64, usize) btree_map \<Rightarrow> u64 list \<Rightarrow> usize \<Rightarrow> vault_error + usize" where
  "cover_bytes sizes [] tot = Inr tot"
| "cover_bytes sizes (sq # sqs) tot =
     and_then (ok_or Corrupt (bt_get sizes sq)) (\<lambda>size'.
     cover_bytes sizes sqs (saturating_add tot (saturating_add STATEMENT_FRAME size')))"

definition covers_with :: "item_covers \<Rightarrow> dot \<Rightarrow> vault_error + (dot list \<times> cover_selection \<times> usize)" where
  "covers_with item d =
     (let dots = ic_dots item @ [d] in
      and_then (map_err (\<lambda>_. Corrupt) (select_covers (ic_retained item) dots)) (\<lambda>selection.
      and_then (cover_bytes (ic_sizes item) (covers selection) 0) (\<lambda>tot.
      Inr (dots, selection, tot))))"

section \<open>A page\<close>

record page =
  pg_ops :: "fetched_op list"
  pg_complete :: bool
  pg_covers :: "(id16, item_covers) btree_map"

text \<open>What the page has read so far: the page and its bytes; and where the batch stopped.\<close>

datatype page_flow = PageFull page | PageGoes page usize u64

text \<open>One op: it joins the page with the covers it needs, or ends the page.\<close>

definition join_op :: "vault_db \<Rightarrow> id16 \<Rightarrow> usize \<Rightarrow> page \<Rightarrow> usize \<Rightarrow> fetched_op \<Rightarrow> vault_error + page_flow" where
  "join_op db v budget p total_bytes fo =
     (let tot = saturating_add total_bytes (op_size fo) in
      if sd_body (fo_record fo) = None then
        and_then (case bt_get (pg_covers p) (fo_item_id fo) of
                    Some item \<Rightarrow> Inr item
                  | None \<Rightarrow> covers_load db v (fo_item_id fo)) (\<lambda>item.
        let p = p \<lparr> pg_covers := bt_remove (fo_item_id fo) (pg_covers p) \<rparr> in
        and_then (covers_with item (fo_dot fo)) (\<lambda>(dots, selection, cover_total).
        let tot = saturating_add (tot - ic_bytes item) cover_total in
        if pg_ops p \<noteq> [] \<and> budget < tot then
          Inr (PageFull (if ic_dots item \<noteq> []
                         then p \<lparr> pg_covers := bt_insert (fo_item_id fo) item (pg_covers p) \<rparr> else p))
        else
          Inr (PageGoes (p \<lparr> pg_covers := bt_insert (fo_item_id fo)
                 (item \<lparr> ic_dots := dots, ic_selection := selection, ic_bytes := cover_total \<rparr>) (pg_covers p),
               pg_ops := pg_ops p @ [fo] \<rparr>) tot (dot_seq (fo_dot fo)))))
      else if pg_ops p \<noteq> [] \<and> budget < tot then Inr (PageFull p)
      else Inr (PageGoes (p \<lparr> pg_ops := pg_ops p @ [fo] \<rparr>) tot (dot_seq (fo_dot fo))))"

fun join_batch ::
  "vault_db \<Rightarrow> id16 \<Rightarrow> usize \<Rightarrow> page \<Rightarrow> usize \<Rightarrow> u64 \<Rightarrow> fetched_op list \<Rightarrow> vault_error + page_flow" where
  "join_batch db v budget p tot after [] = Inr (PageGoes p tot after)"
| "join_batch db v budget p tot after (fo # batch) =
     and_then (join_op db v budget p tot fo) (\<lambda>flow.
     case flow of
       PageFull p \<Rightarrow> Inr (PageFull p)
     | PageGoes p tot after \<Rightarrow> join_batch db v budget p tot after batch)"

lemma join_op_after:
  "join_op db v budget p tot fo = Inr (PageGoes p' tot' after') \<Longrightarrow> after' = dot_seq (fo_dot fo)"
  by (auto simp: join_op_def and_then_Inr Let_def split: if_splits)

lemma join_batch_after:
  "join_batch db v budget p tot after batch = Inr (PageGoes p' tot' after') \<Longrightarrow>
   after' = (if batch = [] then after else dot_seq (fo_dot (last batch)))"
proof (induction batch arbitrary: p tot after)
  case (Cons fo batch)
  from Cons.prems obtain flow where f: "join_op db v budget p tot fo = Inr flow"
    and r: "(case flow of PageFull p \<Rightarrow> Inr (PageFull p)
      | PageGoes p tot after \<Rightarrow> join_batch db v budget p tot after batch) = Inr (PageGoes p' tot' after')"
    by (auto simp: and_then_Inr)
  show ?case
    using f r Cons.IH join_op_after by (cases flow) fastforce+
qed simp

lemma try_map_Inr: "try_map f xs = Inr ys \<longleftrightarrow> list_all2 (\<lambda>x y. f x = Inr y) xs ys"
  by (induction xs arbitrary: ys) (auto simp: and_then_Inr list_all2_Cons1)

lemma try_map_mem: "try_map f xs = Inr ys \<Longrightarrow> y \<in> set ys \<Longrightarrow> \<exists>x \<in> set xs. f x = Inr y"
  by (induction xs arbitrary: ys) (auto simp: and_then_Inr)

lemma ops_after_mem:
  assumes "ops_after db v x after limit = Inr batch" "fo \<in> set batch"
  shows "after < dot_seq (fo_dot fo)" "dot_device (fo_dot fo) = x"
  using try_map_mem [OF assms(1) [unfolded ops_after_def] assms(2)]
  by (auto simp: fetched_row_def and_then_Inr dest!: in_set_takeD)

text \<open>The \<open>while\<close> loop over one device's chain: the position only moves forward, because a batch
  holds ops above it.\<close>

function page_device ::
  "vault_db \<Rightarrow> id16 \<Rightarrow> usize \<Rightarrow> dot \<Rightarrow> page \<Rightarrow> usize \<Rightarrow> u64 \<Rightarrow> vault_error + page_flow" where
  "page_device db v budget hd' p tot after =
     (if after < dot_seq hd' then
        let room = PAGE_MAX_OPS - length (pg_ops p) in
        if room = 0 then Inr (PageFull p)
        else
          (case ops_after db v (dot_device hd') after (min room BATCH) of
             Inl e \<Rightarrow> Inl e
           | Inr batch \<Rightarrow>
               if batch = [] then Inr (PageGoes p tot after)
               else
                 (case join_batch db v budget p tot after batch of
                    Inl e \<Rightarrow> Inl e
                  | Inr (PageFull p) \<Rightarrow> Inr (PageFull p)
                  | Inr (PageGoes p tot after) \<Rightarrow> page_device db v budget hd' p tot after))
      else Inr (PageGoes p tot after))"
  by pat_completeness auto
termination
proof (relation "measure (\<lambda>(db, v, budget, hd', p, tot, after). unat (dot_seq hd') - unat after)", goal_cases)
  case (2 db v budget hd' p tot after room batch flow p' tot' after')
  then have "after < after'" by (metis join_batch_after last_in_set ops_after_mem(1))
  then show ?case using 2(1) by (auto simp: word_less_nat_alt)
qed simp

declare page_device.simps [simp del]

fun page_devices ::
  "vault_db \<Rightarrow> id16 \<Rightarrow> usize \<Rightarrow> version_vector \<Rightarrow> dot list \<Rightarrow> page \<Rightarrow> usize \<Rightarrow> vault_error + page" where
  "page_devices db v budget cursor [] p tot = Inr (p \<lparr> pg_complete := True \<rparr>)"
| "page_devices db v budget cursor (h # hs) p tot =
     and_then (page_device db v budget h p tot (vv_get cursor (dot_device h))) (\<lambda>flow.
     case flow of
       PageFull p \<Rightarrow> Inr p
     | PageGoes p tot _ \<Rightarrow> page_devices db v budget cursor hs p tot)"

definition page_ops :: "vault_db \<Rightarrow> id16 \<Rightarrow> version_vector \<Rightarrow> version_vector \<Rightarrow> usize \<Rightarrow> vault_error + page" where
  "page_ops db v heads' cursor budget =
     page_devices db v budget cursor (vv_entries heads') \<lparr> pg_ops = [], pg_complete = False, pg_covers = bt_empty \<rparr> 0"

section \<open>Fetch\<close>

record fetch_request =
  fq_vault_id :: id16
  fq_cursor :: version_vector
  fq_wraps_after_epoch :: "u32 option"

record fetch_response =
  fa_restore_generation :: bytes
  fa_heads :: "dot list"
  fa_ops :: "op_record list"
  fa_covers :: "snapshot_record list"
  fa_item_key_wraps :: "wrap_row list"
  fa_complete :: bool

record integrity_error =
  ie_vault_id :: id16
  ie_item_id :: id16
  ie_dot :: dot

definition item_cover_records ::
  "crypto \<Rightarrow> vault_db \<Rightarrow> id16 \<Rightarrow> id16 \<times> item_covers \<Rightarrow> vault_error + snapshot_record list" where
  "item_cover_records cr db v = (\<lambda>(i, item).
     try_map (\<lambda>sq.
       and_then (snapshot_by_store_seq cr db v i sq) (\<lambda>found.
       and_then (ok_or Corrupt found) (\<lambda>stored. served_snapshot db v i stored))) (covers (ic_selection item)))"

definition item_integrity_errors :: "id16 \<Rightarrow> id16 \<times> item_covers \<Rightarrow> integrity_error list" where
  "item_integrity_errors v = (\<lambda>(i, item).
     map (\<lambda>d. \<lparr> ie_vault_id = v, ie_item_id = i, ie_dot = d \<rparr>) (uncovered (ic_selection item)))"

definition served_wrap_row :: "wrap_row \<Rightarrow> vault_error + wrap_row" where
  "served_wrap_row w =
     and_then (wire_bytes MAX_KEY_ENVELOPE_LEN (wr_envelope w)) (\<lambda>e. Inr (w \<lparr> wr_envelope := e \<rparr>))"

definition fetch ::
  "crypto \<Rightarrow> vault_db \<Rightarrow> usize \<Rightarrow> id16 \<Rightarrow> fetch_request \<Rightarrow> vault_error + (fetch_response \<times> integrity_error list)" where
  "fetch cr db page_bytes account request =
     (let v = fq_vault_id request in
      and_then (ok_or NotFound (vault_of_account db account v)) (\<lambda>_.
      and_then (restore_generation db) (\<lambda>generation.
      let heads' = repo_heads db v;
          wraps = wraps_after db v (fq_wraps_after_epoch request) (saturating_add MAX_ITEM_KEY_WRAPS 1)
      in if MAX_ITEM_KEY_WRAPS < length wraps then Inl WrapSetTooLarge
         else
           and_then (page_ops db v heads' (fq_cursor request) page_bytes) (\<lambda>p.
           and_then (try_map (served_op db v) (pg_ops p)) (\<lambda>records.
           and_then (try_map (item_cover_records cr db v) (bt_entries (pg_covers p))) (\<lambda>item_covers'.
           and_then (try_map served_wrap_row wraps) (\<lambda>item_key_wraps.
           and_then (wire_list MAX_VV_ENTRIES (vv_entries heads')) (\<lambda>hs.
           and_then (wire_list MAX_RECORDS records) (\<lambda>ops.
           and_then (wire_list MAX_RECORDS (concat item_covers')) (\<lambda>cs.
           and_then (wire_list MAX_ITEM_KEY_WRAPS item_key_wraps) (\<lambda>ws.
           Inr (\<lparr> fa_restore_generation = generation, fa_heads = hs, fa_ops = ops, fa_covers = cs,
                  fa_item_key_wraps = ws, fa_complete = pg_complete p \<rparr>,
                concat (map (item_integrity_errors v) (bt_entries (pg_covers p)))))))))))))))"

end
