(* ===== verification/Server_Worker.thy ===== *)
theory Server_Worker
  imports Server_Tables
begin

text \<open>
  The compaction job, \<open>rizzy-domain-vault/src/compact.rs\<close>: one item in one transaction, and the
  drain of the queue, which isolates a failing item.
\<close>

record compaction_report =
  bodies_deleted :: usize
  snapshots_dropped :: usize

definition report_default :: compaction_report where
  "report_default = \<lparr> bodies_deleted = 0, snapshots_dropped = 0 \<rparr>"

fun delete_bodies_of :: "vault_db \<Rightarrow> id16 \<Rightarrow> id16 \<Rightarrow> dot list \<Rightarrow> vault_error + vault_db" where
  "delete_bodies_of db v i [] = Inr db"
| "delete_bodies_of db v i (d # ds) = and_then (delete_body db v i d) (\<lambda>db. delete_bodies_of db v i ds)"

fun delete_snapshots_of :: "vault_db \<Rightarrow> id16 \<Rightarrow> id16 \<Rightarrow> u64 list \<Rightarrow> vault_error + vault_db" where
  "delete_snapshots_of db v i [] = Inr db"
| "delete_snapshots_of db v i (s # ss) = and_then (delete_snapshot db v i s) (\<lambda>db. delete_snapshots_of db v i ss)"

definition compact_item :: "vault_db \<Rightarrow> id16 \<Rightarrow> id16 \<Rightarrow> vault_error + (compaction_report \<times> vault_db)" where
  "compact_item db v i =
     (case repo_vault db v of
        None \<Rightarrow> Inr (report_default, dequeue db v i)
      | Some vault \<Rightarrow>
          and_then (item_snapshots db v i) (\<lambda>snapshots.
          and_then (map_err (\<lambda>_. Corrupt) (plan_worker snapshots (item_op_dots db v i))) (\<lambda>plan.
          and_then (delete_bodies_of db v i (delete_bodies plan)) (\<lambda>db.
          and_then (delete_snapshots_of db v i (drop_snapshots plan)) (\<lambda>db.
          Inr (\<lparr> bodies_deleted = length (delete_bodies plan), snapshots_dropped = length (drop_snapshots plan) \<rparr>,
               dequeue db v i))))))"

record compaction_run =
  cr_processed :: usize
  cr_report :: compaction_report
  cr_failures :: "(id16 \<times> id16 \<times> vault_error) list"

definition run_default :: compaction_run where
  "run_default = \<lparr> cr_processed = 0, cr_report = report_default, cr_failures = [] \<rparr>"

text \<open>The loop over the queued items; each item commits its own transaction, so an error that
  ends the run keeps the database reached.\<close>

fun compact_queued ::
  "vault_db \<Rightarrow> (id16 \<times> id16) list \<Rightarrow> compaction_run \<Rightarrow> (vault_error + compaction_run) \<times> vault_db" where
  "compact_queued db [] run = (Inr run, db)"
| "compact_queued db ((v, i) # queued) run =
     (case compact_item db v i of
        Inr (report, db) \<Rightarrow>
          compact_queued db queued
            \<lparr> cr_processed = saturating_add (cr_processed run) 1,
              cr_report = \<lparr> bodies_deleted = saturating_add (bodies_deleted (cr_report run)) (bodies_deleted report),
                            snapshots_dropped = saturating_add (snapshots_dropped (cr_report run)) (snapshots_dropped report) \<rparr>,
              cr_failures = cr_failures run \<rparr>
      | Inl e \<Rightarrow>
          (case defer_item db v i of
             Inl e' \<Rightarrow> (Inl e', db)
           | Inr db \<Rightarrow> compact_queued db queued (run \<lparr> cr_failures := cr_failures run @ [(v, i, e)] \<rparr>)))"

definition run_compaction :: "vault_db \<Rightarrow> usize \<Rightarrow> (vault_error + compaction_run) \<times> vault_db" where
  "run_compaction db max_items = compact_queued db (queued_items db max_items) run_default"

end
