(* ===== verification/Server_Invariant.thy ===== *)
theory Server_Invariant
  imports Server_Fetch Server_Worker
begin

text \<open>
  What the vault tables promise between transactions. Every device's ops form one chain, every
  retained snapshot's clamped version vector is at most the heads and its store sequence is fresh
  and unique, and every header whose body was deleted or never sent has a retained cover. Each
  operation of the server keeps this.
\<close>

section \<open>Reading the tables\<close>

lemma ops_of_iff: "(d, r) \<in> set (ops_of db v) \<longleftrightarrow> bt_get (db_ops db) (v, d) = Some r"
  by (force simp: ops_of_def rows_where_def bt_entries_iff)

lemma snapshots_of_iff: "(s, r) \<in> set (snapshots_of db v) \<longleftrightarrow> bt_get (db_snapshots db) (v, s) = Some r"
  by (force simp: snapshots_of_def rows_where_def bt_entries_iff)

definition has_op :: "vault_db \<Rightarrow> id16 \<Rightarrow> dot \<Rightarrow> bool" where
  "has_op db v d \<longleftrightarrow> bt_get (db_ops db) (v, d) \<noteq> None"

lemma fold_add_covers_iff:
  "vv_covers (fold vv_add ds v) e \<longleftrightarrow>
     vv_covers v e \<or> (\<exists>d \<in> set ds. dot_device d = dot_device e \<and> dot_seq e \<le> dot_seq d)"
  by (induction ds arbitrary: v) (auto simp: vv_covers_add)

lemma ops_of_dots: "fst ` set (ops_of db v) = {d. has_op db v d}"
proof -
  have "d \<in> fst ` set (ops_of db v) \<longleftrightarrow> (\<exists>r. (d, r) \<in> set (ops_of db v))" for d by force
  then show ?thesis by (auto simp: has_op_def ops_of_iff)
qed

lemma max_device_dot:
  assumes "m \<in> set (heads_rows db v)"
  shows "has_op db v m"
proof -
  from assms obtain x where "max_opt (filter (\<lambda>d. dot_device d = x) (map fst (ops_of db v))) = Some m"
    by (auto simp: heads_rows_def List.map_filter_def Let_def)
  then have "m \<in> set (filter (\<lambda>d. dot_device d = x) (map fst (ops_of db v)))"
    by (auto simp only: max_opt_Max split: if_splits) (metis Max_in List.finite_set set_empty)
  then show ?thesis by (auto simp: has_op_def ops_of_iff)
qed

lemma heads_rows_top:
  assumes "has_op db v d"
  shows "\<exists>m \<in> set (heads_rows db v). dot_device m = dot_device d \<and> dot_seq d \<le> dot_seq m"
proof -
  let ?ds = "map fst (ops_of db v)" and ?x = "dot_device d"
  let ?f = "filter (\<lambda>d. dot_device d = ?x) ?ds"
  have d: "d \<in> set ?f" using assms ops_of_dots [of db v] by auto
  then have "?f \<noteq> []" by (metis empty_iff empty_set)
  then have m: "max_opt ?f = Some (Max (set ?f))" by (simp only: max_opt_Max if_False)
  have "Max (set ?f) \<in> set ?f" "d \<le> Max (set ?f)" using d by (auto intro!: Max_in Max_ge simp del: set_filter set_map)
  then have "dot_device (Max (set ?f)) = ?x" "d < Max (set ?f) \<or> d = Max (set ?f)" by auto
  then have "dot_device (Max (set ?f)) = ?x" "dot_seq d \<le> dot_seq (Max (set ?f))"
    by (auto simp only: less_dot_iff)
  moreover have "Max (set ?f) \<in> set (heads_rows db v)"
    using d m by (force simp: heads_rows_def List.map_filter_def Let_def image_iff)
  ultimately show ?thesis by blast
qed

lemma repo_heads_covers:
  "vv_covers (repo_heads db v) e \<longleftrightarrow> (\<exists>d. has_op db v d \<and> dot_device d = dot_device e \<and> dot_seq e \<le> dot_seq d)"
proof -
  have "vv_covers (repo_heads db v) e \<longleftrightarrow>
      (\<exists>d \<in> set (heads_rows db v). dot_device d = dot_device e \<and> dot_seq e \<le> dot_seq d)"
    by (simp add: repo_heads_def vv_from_iter_def fold_add_covers_iff)
  then show ?thesis using max_device_dot heads_rows_top by (metis order_trans)
qed

lemma vv_le_add: "vv_le v (vv_add d v)"
  by (simp add: vv_le_covers_iff vv_covers_add)

lemma vv_ext_covers: "(\<And>d. vv_covers a d \<longleftrightarrow> vv_covers b d) \<Longrightarrow> a = b"
  using vv_le_covers_iff [of a b] vv_le_covers_iff [of b a]
  by (intro vv_ext) (auto simp: vv_le_def intro: antisym)

lemma heads_cong: "(\<And>d. has_op db v d \<longleftrightarrow> has_op db' v d) \<Longrightarrow> repo_heads db v = repo_heads db' v"
  by (rule vv_ext_covers) (simp add: repo_heads_covers)

lemma heads_add:
  "(\<And>e. has_op db' v e \<longleftrightarrow> has_op db v e \<or> e = d) \<Longrightarrow> repo_heads db' v = vv_add d (repo_heads db v)"
  by (rule vv_ext_covers) (auto simp: repo_heads_covers vv_covers_add)

lemma heads_get:
  assumes "has_op db v d"
  shows "dot_seq d \<le> vv_get (repo_heads db v) (dot_device d)"
proof -
  have "vv_covers (repo_heads db v) d" using assms by (auto simp: repo_heads_covers)
  then show ?thesis by (simp add: vv_covers_def)
qed

lemma heads_held:
  assumes "vv_get (repo_heads db v) x \<noteq> 0"
  shows "\<exists>d. has_op db v d \<and> dot_device d = x \<and> dot_seq d = vv_get (repo_heads db v) x"
proof -
  obtain n where n: "nz_get n = vv_get (repo_heads db v) x" using assms by (metis nz_get_of)
  then have "vv_covers (repo_heads db v) (Dot x n)" by (simp add: vv_covers_def dot_seq_def)
  then obtain d where "has_op db v d" "dot_device d = x" "dot_seq (Dot x n) \<le> dot_seq d" by (auto simp: repo_heads_covers)
  then show ?thesis using heads_get [of db v d] n by (auto simp: dot_seq_def intro!: exI [of _ d])
qed

section \<open>The invariant\<close>

text \<open>One row of the op table: its columns have their lengths, and it follows its device's
  previous op directly.\<close>

definition op_row_ok :: "vault_db \<Rightarrow> id16 \<Rightarrow> dot \<Rightarrow> op_row \<Rightarrow> bool" where
  "op_row_ok db v d r \<longleftrightarrow>
     sql_fits (dot_seq d) \<and> length (or_body_hash r) = HASH_LEN \<and> length (or_wrap_hash r) = HASH_LEN \<and>
     length (or_signature r) = CONTAINER_LEN \<and> or_vault_prev_seq r < dot_seq d \<and>
     (or_vault_prev_seq r = 0 \<or>
        (\<exists>e. has_op db v e \<and> dot_device e = dot_device d \<and> dot_seq e = or_vault_prev_seq r)) \<and>
     (\<forall>e. has_op db v e \<longrightarrow> dot_device e = dot_device d \<longrightarrow> dot_seq e < dot_seq d \<longrightarrow> dot_seq e \<le> or_vault_prev_seq r)"

text \<open>The version vector a snapshot row stores.\<close>

definition row_clamped :: "snapshot_row \<Rightarrow> version_vector option" where
  "row_clamped q = (case vv_parse (sr_clamped_vv q) of Inl _ \<Rightarrow> None | Inr c \<Rightarrow> Some c)"

definition snapshot_row_ok :: "vault_db \<Rightarrow> id16 \<Rightarrow> snapshot_row \<Rightarrow> bool" where
  "snapshot_row_ok db v q \<longleftrightarrow>
     (\<exists>c. row_clamped q = Some c \<and> vv_le c (repo_heads db v)) \<and> sql_fits (sr_store_seq q) \<and>
     (\<exists>vr. repo_vault db v = Some vr \<and> sr_store_seq q < vr_next_store_seq vr)"

definition row_covers :: "snapshot_row \<Rightarrow> id16 \<Rightarrow> dot \<Rightarrow> bool" where
  "row_covers q i d \<longleftrightarrow> sr_item_id q = i \<and> (\<exists>c. row_clamped q = Some c \<and> vv_covers c d)"

definition has_cover :: "vault_db \<Rightarrow> id16 \<Rightarrow> id16 \<Rightarrow> dot \<Rightarrow> bool" where
  "has_cover db v i d \<longleftrightarrow> (\<exists>s q. bt_get (db_snapshots db) (v, s) = Some q \<and> row_covers q i d)"

definition tables_ok :: "vault_db \<Rightarrow> bool" where
  "tables_ok db \<longleftrightarrow>
     (\<forall>v d r. bt_get (db_ops db) (v, d) = Some r \<longrightarrow> op_row_ok db v d r) \<and>
     (\<forall>v s q. bt_get (db_snapshots db) (v, s) = Some q \<longrightarrow> snapshot_row_ok db v q) \<and>
     (\<forall>v s s' q q'. bt_get (db_snapshots db) (v, s) = Some q \<longrightarrow> bt_get (db_snapshots db) (v, s') = Some q' \<longrightarrow>
        sr_store_seq q = sr_store_seq q' \<longrightarrow> s = s')"

text \<open>Every bodiless header outside \<open>B\<close> has a cover.\<close>

definition covered_but :: "(id16 \<times> id16 \<times> dot) set \<Rightarrow> vault_db \<Rightarrow> bool" where
  "covered_but B db \<longleftrightarrow>
     (\<forall>v d r. bt_get (db_ops db) (v, d) = Some r \<longrightarrow> or_body r = None \<longrightarrow>
        has_cover db v (or_item_id r) d \<or> (v, or_item_id r, d) \<in> B)"

definition server_ok :: "vault_db \<Rightarrow> bool" where
  "server_ok db \<longleftrightarrow> tables_ok db \<and> covered_but {} db"

text \<open>The session of a transaction: what it read is what the tables hold.\<close>

definition session_ok :: "vault_db \<Rightarrow> session \<Rightarrow> bool" where
  "session_ok db ss \<longleftrightarrow>
     ss_heads ss = repo_heads db (ss_vault_id ss) \<and> repo_vault db (ss_vault_id ss) = Some (ss_vault ss)"

lemma tables_okD:
  assumes "tables_ok db"
  shows "bt_get (db_ops db) (v, d) = Some r \<Longrightarrow> op_row_ok db v d r"
    and "bt_get (db_snapshots db) (v, s) = Some q \<Longrightarrow> snapshot_row_ok db v q"
    and "bt_get (db_snapshots db) (v, s) = Some q \<Longrightarrow> bt_get (db_snapshots db) (v, s') = Some q' \<Longrightarrow>
      sr_store_seq q = sr_store_seq q' \<Longrightarrow> s = s'"
  using assms unfolding tables_ok_def by blast+

subsection \<open>Changes the invariant does not see\<close>

text \<open>Two databases that hold the same ops up to wraps and to bodies that are covered, and the same
  snapshots up to wraps and to rows nothing needs.\<close>

definition same_op :: "op_row \<Rightarrow> op_row \<Rightarrow> bool" where
  "same_op r r' \<longleftrightarrow>
     or_item_id r' = or_item_id r \<and> or_body_hash r' = or_body_hash r \<and> or_wrap_hash r' = or_wrap_hash r \<and>
     or_signature r' = or_signature r \<and> or_vault_prev_seq r' = or_vault_prev_seq r \<and> or_header r' = or_header r \<and>
     (or_key_wrap r' = or_key_wrap r \<or> or_key_wrap r' = None)"

definition same_snapshot :: "snapshot_row \<Rightarrow> snapshot_row \<Rightarrow> bool" where
  "same_snapshot q q' \<longleftrightarrow>
     sr_item_id q' = sr_item_id q \<and> sr_clamped_vv q' = sr_clamped_vv q \<and> sr_store_seq q' = sr_store_seq q"

definition shrinks :: "vault_db \<Rightarrow> vault_db \<Rightarrow> bool" where
  "shrinks db db' \<longleftrightarrow>
     (\<forall>v d. has_op db' v d \<longleftrightarrow> has_op db v d) \<and>
     (\<forall>v d r'. bt_get (db_ops db') (v, d) = Some r' \<longrightarrow> (\<exists>r. bt_get (db_ops db) (v, d) = Some r \<and> same_op r r')) \<and>
     (\<forall>v s q'. bt_get (db_snapshots db') (v, s) = Some q' \<longrightarrow>
        (\<exists>q. bt_get (db_snapshots db) (v, s) = Some q \<and> same_snapshot q q')) \<and>
     (\<forall>v vr. repo_vault db v = Some vr \<longrightarrow>
        (\<exists>vr'. repo_vault db' v = Some vr' \<and> vr_next_store_seq vr \<le> vr_next_store_seq vr'))"

lemma shrinks_tables:
  assumes "shrinks db db'" "tables_ok db"
  shows "tables_ok db'"
proof -
  have h: "has_op db' v d \<longleftrightarrow> has_op db v d" for v d using assms(1) by (simp add: shrinks_def)
  then have heads: "repo_heads db' v = repo_heads db v" for v by (intro heads_cong)
  show ?thesis
    unfolding tables_ok_def
  proof (intro conjI allI impI)
    fix v d r' assume "bt_get (db_ops db') (v, d) = Some r'"
    then obtain r where r: "bt_get (db_ops db) (v, d) = Some r" "same_op r r'"
      using assms(1) unfolding shrinks_def by blast
    then show "op_row_ok db' v d r'"
      using tables_okD(1) [OF assms(2) r(1)] by (simp add: op_row_ok_def h same_op_def)
  next
    fix v s q' assume "bt_get (db_snapshots db') (v, s) = Some q'"
    then obtain q where q: "bt_get (db_snapshots db) (v, s) = Some q" "same_snapshot q q'"
      using assms(1) unfolding shrinks_def by blast
    obtain vr where vr: "repo_vault db v = Some vr" "sr_store_seq q < vr_next_store_seq vr"
      using tables_okD(2) [OF assms(2) q(1)] by (auto simp: snapshot_row_ok_def)
    obtain vr' where "repo_vault db' v = Some vr'" "vr_next_store_seq vr \<le> vr_next_store_seq vr'"
      using vr(1) assms(1) unfolding shrinks_def by blast
    then show "snapshot_row_ok db' v q'"
      using tables_okD(2) [OF assms(2) q(1)] q(2) vr
      by (auto simp: snapshot_row_ok_def heads same_snapshot_def row_clamped_def)
  next
    fix v s s' q q'
    assume "bt_get (db_snapshots db') (v, s) = Some q" "bt_get (db_snapshots db') (v, s') = Some q'"
      "sr_store_seq q = sr_store_seq q'"
    then show "s = s'"
      using assms(1) tables_okD(3) [OF assms(2)] unfolding shrinks_def same_snapshot_def by metis
  qed
qed

text \<open>The part of a database the invariant reads.\<close>

definition same_tables :: "vault_db \<Rightarrow> vault_db \<Rightarrow> bool" where
  "same_tables db db' \<longleftrightarrow> db_ops db' = db_ops db \<and> db_snapshots db' = db_snapshots db \<and> db_vaults db' = db_vaults db"

lemma same_tables_ok:
  assumes "same_tables db db'"
  shows "tables_ok db' \<longleftrightarrow> tables_ok db" "covered_but B db' \<longleftrightarrow> covered_but B db"
    "session_ok db' ss \<longleftrightarrow> session_ok db ss" "repo_heads db' v = repo_heads db v" "has_op db' = has_op db"
proof -
  have h: "has_op db' = has_op db" using assms by (simp add: has_op_def same_tables_def fun_eq_iff)
  then show "has_op db' = has_op db" .
  have hd: "repo_heads db' v = repo_heads db v" for v by (rule heads_cong) (simp add: h)
  then show "repo_heads db' v = repo_heads db v" .
  have rv: "repo_vault db' = repo_vault db" using assms by (simp add: repo_vault_def same_tables_def fun_eq_iff)
  show "tables_ok db' \<longleftrightarrow> tables_ok db" "covered_but B db' \<longleftrightarrow> covered_but B db" "session_ok db' ss \<longleftrightarrow> session_ok db ss"
    using assms h hd rv
    by (simp_all add: tables_ok_def covered_but_def session_ok_def op_row_ok_def snapshot_row_ok_def has_cover_def
        same_tables_def)
qed

section \<open>Storing one record\<close>

lemma fill_wrap_same: "same_tables db (fill_wrap db ss i epoch w)"
  by (auto simp: fill_wrap_def put_wrap_def same_tables_def Let_def split: option.splits)

text \<open>The columns a verified op brings.\<close>

definition op_columns_ok :: "verified_op \<Rightarrow> bool" where
  "op_columns_ok vo \<longleftrightarrow>
     sql_fits (dot_seq (oh_dot (vo_header vo))) \<and> length (sg_envelope_hash (vo_signed vo)) = HASH_LEN \<and>
     length (sg_wrap_hash (vo_signed vo)) = HASH_LEN \<and> length (sg_container (vo_signed vo)) = CONTAINER_LEN"

lemma verified_columns: "verify_op cr r v a req rule = Inr vo \<Longrightarrow> op_columns_ok vo"
  using verify_op_facts(2,6) [of cr r v a req rule vo]
  by (simp add: op_columns_ok_def parts_ok_def HASH_LEN_def CONTAINER_LEN_def SIGNATURE_LEN_def)

lemma chain_check_Inr:
  "chain_check ss vo = Inr u \<longleftrightarrow>
     oh_vault_prev_seq (vo_header vo) < dot_seq (oh_dot (vo_header vo)) \<and>
     oh_vault_prev_seq (vo_header vo) = vv_get (ss_heads ss) (dot_device (oh_dot (vo_header vo)))"
  by (auto simp: chain_check_def Let_def not_le)

lemma store_op_Inr:
  assumes "store_op db ss vo = Inr (db', ss')"
  obtains r where "bt_get (db_ops db) (ss_vault_id ss, oh_dot (vo_header vo)) = None"
    "db_ops db' = bt_insert (ss_vault_id ss, oh_dot (vo_header vo)) r (db_ops db)"
    "db_snapshots db' = db_snapshots db" "db_vaults db' = db_vaults db"
    "ss' = ss \<lparr> ss_heads := vv_add (oh_dot (vo_header vo)) (ss_heads ss) \<rparr>"
    "or_item_id r = oh_item_id (vo_header vo)" "or_vault_prev_seq r = oh_vault_prev_seq (vo_header vo)"
    "or_body_hash r = sg_envelope_hash (vo_signed vo)" "or_wrap_hash r = sg_wrap_hash (vo_signed vo)"
    "or_signature r = sg_container (vo_signed vo)" "or_body r = vo_body vo"
proof -
  define vo' where "vo' = (if vo_key_wrap vo \<noteq> None \<and> \<not> current_wrap ss (oh_vault_key_epoch (vo_header vo))
                then vo \<lparr> vo_key_wrap := None \<rparr> else vo)"
  have vo': "vo_header vo' = vo_header vo" "vo_signed vo' = vo_signed vo" "vo_body vo' = vo_body vo"
    by (simp_all add: vo'_def)
  obtain db1 where ins: "insert_op db (ss_vault_id ss) vo' (ss_now_sql ss) = Inr db1"
    and ss': "ss' = ss \<lparr> ss_heads := vv_add (oh_dot (vo_header vo)) (ss_heads ss) \<rparr>"
    and db': "db' = fill_wrap db1 ss' (oh_item_id (vo_header vo)) (oh_vault_key_epoch (vo_header vo)) (vo_key_wrap vo')"
    using assms unfolding store_op_def Let_def vo'_def [symmetric] by (auto simp: and_then_Inr)
  have same: "db_ops db' = db_ops db1 \<and> db_snapshots db' = db_snapshots db1 \<and> db_vaults db' = db_vaults db1"
    using fill_wrap_same [of db1] by (simp add: db' same_tables_def)
  from ins obtain r where "bt_get (db_ops db) (ss_vault_id ss, oh_dot (vo_header vo)) = None"
    "db1 = db \<lparr> db_ops := bt_insert (ss_vault_id ss, oh_dot (vo_header vo)) r (db_ops db) \<rparr>"
    "or_item_id r = oh_item_id (vo_header vo)" "or_vault_prev_seq r = oh_vault_prev_seq (vo_header vo)"
    "or_body_hash r = sg_envelope_hash (vo_signed vo)" "or_wrap_hash r = sg_wrap_hash (vo_signed vo)"
    "or_signature r = sg_container (vo_signed vo)" "or_body r = vo_body vo"
    by (auto simp: insert_op_def and_then_Inr Let_def vo' u64_to_sql_def split: if_splits)
  with same ss' show ?thesis by (intro that [of r]) simp_all
qed

lemma store_op_ok:
  assumes st: "store_op db ss vo = Inr (db', ss')" and chain: "chain_check ss vo = Inr u"
    and cols: "op_columns_ok vo" and ok: "tables_ok db" "session_ok db ss" "covered_but B db"
  shows "tables_ok db' \<and> session_ok db' ss' \<and> ss_vault_id ss' = ss_vault_id ss \<and>
    covered_but (B \<union> (if vo_body vo = None
      then {(ss_vault_id ss, oh_item_id (vo_header vo), oh_dot (vo_header vo))} else {})) db'"
proof -
  let ?v = "ss_vault_id ss" and ?d = "oh_dot (vo_header vo)"
  obtain r where r: "bt_get (db_ops db) (?v, ?d) = None" "db_ops db' = bt_insert (?v, ?d) r (db_ops db)"
    "db_snapshots db' = db_snapshots db" "db_vaults db' = db_vaults db"
    "ss' = ss \<lparr> ss_heads := vv_add ?d (ss_heads ss) \<rparr>"
    "or_item_id r = oh_item_id (vo_header vo)" "or_vault_prev_seq r = oh_vault_prev_seq (vo_header vo)"
    "or_body_hash r = sg_envelope_hash (vo_signed vo)" "or_wrap_hash r = sg_wrap_hash (vo_signed vo)"
    "or_signature r = sg_container (vo_signed vo)" "or_body r = vo_body vo"
    using store_op_Inr [OF st] by metis
  have has: "has_op db' v e \<longleftrightarrow> has_op db v e \<or> v = ?v \<and> e = ?d" for v e
    by (auto simp: has_op_def r(2))
  have heads: "repo_heads db' v = (if v = ?v then vv_add ?d (repo_heads db v) else repo_heads db v)" for v
    using has heads_add [of db' v db ?d] heads_cong [of db' v db] by auto
  have le: "vv_le (repo_heads db v) (repo_heads db' v)" for v
    by (simp add: heads vv_le_add)
  have vault: "repo_vault db' = repo_vault db" by (simp add: repo_vault_def r(4) fun_eq_iff)
  have hd: "ss_heads ss = repo_heads db ?v" using ok(2) by (simp add: session_ok_def)
  note c = chain [unfolded chain_check_Inr hd]
  have above: "has_op db ?v e \<Longrightarrow> dot_device e = dot_device ?d \<Longrightarrow> dot_seq e \<le> or_vault_prev_seq r" for e
    using heads_get [of db ?v e] c by (simp add: r(7))
  have new: "op_row_ok db' ?v ?d r"
    unfolding op_row_ok_def
    using cols c above heads_held [of db ?v "dot_device ?d"]
    by (auto simp: op_columns_ok_def r has)
  have old: "op_row_ok db' v d q" if "bt_get (db_ops db) (v, d) = Some q" for v d q
  proof -
    have o: "op_row_ok db v d q" using tables_okD(1) [OF ok(1) that] .
    have "dot_seq d \<le> or_vault_prev_seq r" if "v = ?v" "dot_device d = dot_device ?d"
      using above that \<open>bt_get (db_ops db) (v, d) = Some q\<close> by (simp add: has_op_def)
    then have "v = ?v \<Longrightarrow> dot_device ?d = dot_device d \<Longrightarrow> \<not> dot_seq ?d < dot_seq d"
      using c by (auto simp: r(7))
    with o show ?thesis unfolding op_row_ok_def has by blast
  qed
  have "tables_ok db'"
    unfolding tables_ok_def
  proof (intro conjI allI impI)
    fix v d q assume "bt_get (db_ops db') (v, d) = Some q"
    then show "op_row_ok db' v d q" using new old by (auto simp: r(2) split: if_splits)
  next
    fix v s q assume "bt_get (db_snapshots db') (v, s) = Some q"
    then have "snapshot_row_ok db v q" using tables_okD(2) [OF ok(1)] by (simp add: r(3))
    then show "snapshot_row_ok db' v q" using le [of v] vv_le_trans by (auto simp: snapshot_row_ok_def vault)
  next
    fix v s s' q q'
    assume "bt_get (db_snapshots db') (v, s) = Some q" "bt_get (db_snapshots db') (v, s') = Some q'"
      "sr_store_seq q = sr_store_seq q'"
    then show "s = s'" using tables_okD(3) [OF ok(1)] by (simp add: r(3))
  qed
  moreover have "session_ok db' ss'" using ok(2) by (simp add: session_ok_def r(5) heads vault)
  moreover have "covered_but (B \<union> (if vo_body vo = None then {(?v, oh_item_id (vo_header vo), ?d)} else {})) db'"
    using ok(3) by (auto simp: covered_but_def r has_cover_def split: if_splits)
  ultimately show ?thesis by (simp add: r(5))
qed

lemma store_snapshot_Inr:
  assumes st: "store_snapshot db ss vs = Inr (db', ss')" and ok: "session_ok db ss"
  obtains q sq where "sq = vr_next_store_seq (ss_vault ss)" "sql_fits sq" "sq < sq + 1"
    "bt_get (db_snapshots db) (ss_vault_id ss, sh_snapshot_id (vs_header vs)) = None"
    "\<And>s r. bt_get (db_snapshots db) (ss_vault_id ss, s) = Some r \<Longrightarrow> sr_store_seq r \<noteq> sq"
    "db_snapshots db' = bt_insert (ss_vault_id ss, sh_snapshot_id (vs_header vs)) q (db_snapshots db)"
    "db_ops db' = db_ops db"
    "db_vaults db' = bt_insert (ss_vault_id ss) ((ss_vault ss) \<lparr> vr_next_store_seq := sq + 1 \<rparr>) (db_vaults db)"
    "ss_vault_id ss' = ss_vault_id ss" "ss_heads ss' = ss_heads ss"
    "ss_vault ss' = (ss_vault ss) \<lparr> vr_next_store_seq := sq + 1 \<rparr>"
    "sr_store_seq q = sq" "sr_item_id q = sh_item_id (vs_header vs)"
    "row_clamped q = Some (clamp (sh_covered (vs_header vs)) (ss_heads ss))"
proof -
  let ?sq = "vr_next_store_seq (ss_vault ss)" and ?v = "ss_vault_id ss" and ?h = "vs_header vs"
  define vs' where "vs' = (if vs_key_wrap vs \<noteq> None \<and> \<not> current_wrap ss (sh_vault_key_epoch (vs_header vs))
                then vs \<lparr> vs_key_wrap := None \<rparr> else vs)"
  have vs': "vs_header vs' = ?h" "vs_signed vs' = vs_signed vs" "vs_envelope vs' = vs_envelope vs"
    by (simp_all add: vs'_def)
  obtain cl db1 db2 nsq i e w where cl: "vv_to_vec (clamp (sh_covered ?h) (ss_heads ss)) = Inr cl"
    and ins: "insert_snapshot db ?v vs' cl ?sq (ss_now_sql ss) = Inr db1"
    and adv: "advance_store_seq db1 ?v = Inr db2" and nsq: "u64_checked_add ?sq 1 = Some nsq"
    and ss'_eq: "ss' = ss \<lparr> ss_vault := (ss_vault ss) \<lparr> vr_next_store_seq := nsq \<rparr>, ss_queued := bs_insert i (ss_queued ss) \<rparr>"
    and db'_eq: "db' = fill_wrap (enqueue db2 ?v i (ss_now_sql ss)) ss' i e w"
    using st unfolding store_snapshot_def Let_def vs'_def [symmetric]
    by (auto simp: and_then_Inr ok_or_Inr)
  have ss': "ss_vault_id ss' = ?v" "ss_heads ss' = ss_heads ss"
      "ss_vault ss' = (ss_vault ss) \<lparr> vr_next_store_seq := nsq \<rparr>"
    by (simp_all add: ss'_eq)
  have "same_tables db2 (enqueue db2 ?v i (ss_now_sql ss))" by (simp add: enqueue_def same_tables_def)
  then have db': "db_snapshots db' = db_snapshots db2" "db_ops db' = db_ops db2" "db_vaults db' = db_vaults db2"
    using fill_wrap_same [of "enqueue db2 ?v i (ss_now_sql ss)"] by (simp_all add: db'_eq same_tables_def)
  from ins obtain q where q: "sql_fits ?sq" "bt_get (db_snapshots db) (?v, sh_snapshot_id ?h) = None"
    "\<not> list_ex (\<lambda>(_, r). sr_store_seq r = ?sq) (snapshots_of db ?v)"
    "db1 = db \<lparr> db_snapshots := bt_insert (?v, sh_snapshot_id ?h) q (db_snapshots db) \<rparr>"
    "sr_store_seq q = ?sq" "sr_item_id q = sh_item_id ?h" "sr_clamped_vv q = cl"
    by (auto simp: insert_snapshot_def and_then_Inr Let_def vs' u64_to_sql_def split: if_splits)
  have vault: "bt_get (db_vaults db1) ?v = Some (ss_vault ss)"
    using ok by (simp add: session_ok_def repo_vault_def q(4))
  have db2: "db2 = db1 \<lparr> db_vaults := bt_insert ?v ((ss_vault ss) \<lparr> vr_next_store_seq := ?sq + 1 \<rparr>) (db_vaults db1) \<rparr>"
    using adv vault by (simp add: advance_store_seq_def update_vault_def split: if_splits)
  have n: "nsq = ?sq + 1" "?sq < ?sq + 1"
    using nsq q(1) by (auto simp: u64_checked_add_def sql_fits_def word_less_nat_alt unat_word_ariths split: if_splits)
  have "row_clamped q = Some (clamp (sh_covered ?h) (ss_heads ss))"
    using cl by (simp add: row_clamped_def q(7) vv_parse_iff [symmetric])
  moreover have "bt_get (db_snapshots db) (?v, s) = Some r \<Longrightarrow> sr_store_seq r \<noteq> ?sq" for s r
    using q(3) snapshots_of_iff [of s r db ?v] by (auto simp: list_ex_iff)
  ultimately show ?thesis
    using q ss' n by (intro that [of ?sq q]) (simp_all add: db' db2)
qed

lemma store_snapshot_ok:
  assumes st: "store_snapshot db ss vs = Inr (db', ss')"
    and ok: "tables_ok db" "session_ok db ss" "covered_but B db"
  shows "tables_ok db' \<and> session_ok db' ss' \<and> ss_vault_id ss' = ss_vault_id ss \<and> covered_but B db'"
proof -
  let ?v = "ss_vault_id ss" and ?s = "sh_snapshot_id (vs_header vs)"
  obtain q sq where q: "sq = vr_next_store_seq (ss_vault ss)" "sql_fits sq" "sq < sq + 1"
    "bt_get (db_snapshots db) (?v, ?s) = None"
    "\<And>s r. bt_get (db_snapshots db) (?v, s) = Some r \<Longrightarrow> sr_store_seq r \<noteq> sq"
    "db_snapshots db' = bt_insert (?v, ?s) q (db_snapshots db)"
    "db_ops db' = db_ops db"
    "db_vaults db' = bt_insert ?v ((ss_vault ss) \<lparr> vr_next_store_seq := sq + 1 \<rparr>) (db_vaults db)"
    "ss_vault_id ss' = ?v" "ss_heads ss' = ss_heads ss"
    "ss_vault ss' = (ss_vault ss) \<lparr> vr_next_store_seq := sq + 1 \<rparr>"
    "sr_store_seq q = sq" "sr_item_id q = sh_item_id (vs_header vs)"
    "row_clamped q = Some (clamp (sh_covered (vs_header vs)) (ss_heads ss))"
    using store_snapshot_Inr [OF st ok(2)] by metis
  have has: "has_op db' v e \<longleftrightarrow> has_op db v e" for v e by (simp add: has_op_def q(7))
  then have heads: "repo_heads db' v = repo_heads db v" for v by (intro heads_cong)
  have hd: "ss_heads ss = repo_heads db ?v" "repo_vault db ?v = Some (ss_vault ss)"
    using ok(2) by (simp_all add: session_ok_def)
  have vault: "repo_vault db' v = (if v = ?v then Some ((ss_vault ss) \<lparr> vr_next_store_seq := sq + 1 \<rparr>) else repo_vault db v)" for v
    by (simp add: repo_vault_def q(8))
  have old: "snapshot_row_ok db' v r" if "bt_get (db_snapshots db) (v, s) = Some r" for v s r
  proof -
    note o = tables_okD(2) [OF ok(1) that]
    show ?thesis using o hd(2) q(1,3) by (auto simp: snapshot_row_ok_def heads vault)
  qed
  have new: "snapshot_row_ok db' ?v q"
    using q(2,3,12,14) by (simp add: snapshot_row_ok_def heads vault hd(1) clamp_def vv_le_covers_iff)
  have "tables_ok db'"
    unfolding tables_ok_def
  proof (intro conjI allI impI)
    fix v d r assume "bt_get (db_ops db') (v, d) = Some r"
    then show "op_row_ok db' v d r" using tables_okD(1) [OF ok(1)] by (simp add: q(7) op_row_ok_def has)
  next
    fix v s r assume "bt_get (db_snapshots db') (v, s) = Some r"
    then show "snapshot_row_ok db' v r" using old new by (auto simp: q(6) split: if_splits)
  next
    fix v s s' r r'
    assume "bt_get (db_snapshots db') (v, s) = Some r" "bt_get (db_snapshots db') (v, s') = Some r'"
      "sr_store_seq r = sr_store_seq r'"
    then show "s = s'"
      using tables_okD(3) [OF ok(1)] q(5,12) by (auto simp: q(6) split: if_splits)
  qed
  moreover have "session_ok db' ss'" using hd by (simp add: session_ok_def q(9,10,11) heads vault)
  moreover have "has_cover db' v i d" if c: "has_cover db v i d" for v i d
  proof -
    obtain s r where r: "bt_get (db_snapshots db) (v, s) = Some r" "row_covers r i d"
      using c by (auto simp: has_cover_def)
    moreover have "(v, s) \<noteq> (?v, ?s)" using q(4) r(1) by auto
    ultimately have "bt_get (db_snapshots db') (v, s) = Some r" by (simp only: q(6) bt_get_insert if_False)
    then show ?thesis using r(2) by (auto simp: has_cover_def)
  qed
  then have "covered_but B db'" using ok(3) unfolding covered_but_def q(7) by blast
  ultimately show ?thesis by (simp add: q(9))
qed

section \<open>Upload\<close>

lemma open_session_ok:
  "open_session db dir account v now_ms = Inr ss \<Longrightarrow> session_ok db ss \<and> ss_vault_id ss = v"
  by (auto simp: open_session_def and_then_Inr ok_or_Inr session_ok_def vault_of_account_def split: option.splits if_splits)

lemma existing_case_eq:
  "(case ex of New \<Rightarrow> a | Same \<Rightarrow> b | Different \<Rightarrow> c) = y \<longleftrightarrow>
     ex = New \<and> a = y \<or> ex = Same \<and> b = y \<or> ex = Different \<and> c = y"
  by (cases ex) auto

lemma upload_op_ok:
  assumes "upload_op cr db ss r = Inr (out, db', ss')" "server_ok db" "session_ok db ss"
  shows "server_ok db' \<and> session_ok db' ss'"
proof (cases "db' = db \<and> ss' = ss")
  case False
  with assms(1) obtain vo where vo: "verify_op cr r (ss_vault_id ss) (ss_authors ss) True WrapRequired = Inr vo"
    "chain_check ss vo = Inr ()" "store_op db ss vo = Inr (db', ss')"
    by (auto simp: upload_op_def and_then_Inr existing_case_eq split: sum.split_asm if_splits)
  then show ?thesis
    using store_op_ok [OF vo(3,2) verified_columns [OF vo(1)], of "{}"] verify_op_facts(10) [OF vo(1)] assms(2,3)
    by (auto simp: server_ok_def split: if_splits)
qed (use assms in simp)

lemma upload_snapshot_ok:
  assumes "upload_snapshot cr db ss r = Inr (out, db', ss')" "server_ok db" "session_ok db ss"
  shows "server_ok db' \<and> session_ok db' ss'"
proof (cases "db' = db \<and> ss' = ss")
  case False
  with assms(1) obtain vs where "store_snapshot db ss vs = Inr (db', ss')"
    by (auto simp: upload_snapshot_def and_then_Inr existing_case_eq split: sum.split_asm if_splits)
  then show ?thesis
    using store_snapshot_ok [of db ss vs db' ss' "{}"] assms(2,3) by (simp add: server_ok_def)
qed (use assms in simp)

lemma upload_record_ok:
  "upload_record cr db ss r = Inr (out, db', ss') \<Longrightarrow> server_ok db \<Longrightarrow> session_ok db ss \<Longrightarrow>
   server_ok db' \<and> session_ok db' ss'"
  using upload_op_ok upload_snapshot_ok by (cases r) auto

lemma upload_records_ok:
  "upload_records cr db ss rejected rs = Inr (results, db', ss') \<Longrightarrow> server_ok db \<Longrightarrow> session_ok db ss \<Longrightarrow>
   server_ok db' \<and> session_ok db' ss'"
proof (induction rs arbitrary: db ss rejected results)
  case (Cons r rs)
  show ?case
  proof (cases rejected)
    case True
    with Cons.prems(1) obtain res where "upload_records cr db ss True rs = Inr (res, db', ss')"
      by (auto simp: and_then_Inr)
    then show ?thesis using Cons.IH Cons.prems(2,3) by blast
  next
    case False
    with Cons.prems(1) obtain out db1 ss1 rej res where "upload_record cr db ss r = Inr (out, db1, ss1)"
      "upload_records cr db1 ss1 rej rs = Inr (res, db', ss')"
      by (cases "upload_record cr db ss r") (auto simp: Let_def and_then_Inr split: sum.split_asm)
    then show ?thesis using Cons.IH upload_record_ok Cons.prems(2,3) by blast
  qed
qed auto

lemma upload_ok:
  assumes "server_ok db"
  shows "server_ok (snd (upload cr dir db account request now_ms))"
proof (cases "snd (upload cr dir db account request now_ms) = db")
  case False
  then obtain ss results ss' where "open_session db dir account (ur_vault_id request) now_ms = Inr ss"
    "upload_records cr db ss False (ur_records request) = Inr (results, snd (upload cr dir db account request now_ms), ss')"
    by (auto simp: upload_def and_then_Inr split: sum.splits)
  then show ?thesis using upload_records_ok open_session_ok assms by blast
qed (use assms in simp)

section \<open>Healing\<close>

lemma item_rows_iff: "q \<in> set (item_rows db v i) \<longleftrightarrow> sr_item_id q = i \<and> (\<exists>s. bt_get (db_snapshots db) (v, s) = Some q)"
  using snapshots_of_iff [of _ q db v] by (force simp: item_rows_def)

lemma retained_row_Inr:
  "retained_row q = Inr s \<longleftrightarrow> row_clamped q = Some (clamped s) \<and> store_seq s = sr_store_seq q \<and> author s = sr_author_device_id q"
  by (cases s) (auto simp: retained_row_def and_then_Inr row_clamped_def split: sum.splits)

lemma try_map_total: "(\<And>x. x \<in> set xs \<Longrightarrow> \<exists>y. f x = Inr y) \<Longrightarrow> \<exists>ys. try_map f xs = Inr ys"
proof (induction xs)
  case (Cons x xs)
  obtain y where "f x = Inr y" using Cons.prems [of x] by auto
  moreover obtain ys where "try_map f xs = Inr ys" using Cons.IH Cons.prems by auto
  ultimately show ?case by simp
qed simp

lemma list_all2_mem:
  assumes "list_all2 P xs ys"
  shows "x \<in> set xs \<Longrightarrow> \<exists>y \<in> set ys. P x y" "y \<in> set ys \<Longrightarrow> \<exists>x \<in> set xs. P x y"
  using assms by (induction rule: list_all2_induct) auto

lemma retained_covers:
  assumes "item_snapshots db v i = Inr K"
  shows "(\<exists>s \<in> set K. snap_covers s d) \<longleftrightarrow> has_cover db v i d"
proof -
  have l: "list_all2 (\<lambda>q s. retained_row q = Inr s) (item_rows db v i) K"
    using assms by (simp add: item_snapshots_def try_map_Inr)
  have "(\<exists>s \<in> set K. snap_covers s d) \<longleftrightarrow> (\<exists>q \<in> set (item_rows db v i). row_covers q i d)"
  proof
    assume "\<exists>s \<in> set K. snap_covers s d"
    then obtain s where s: "s \<in> set K" "snap_covers s d" by blast
    obtain q where q: "q \<in> set (item_rows db v i)" "retained_row q = Inr s"
      using list_all2_mem(2) [OF l s(1)] by blast
    have "row_covers q i d"
      using s(2) q by (auto simp: row_covers_def retained_row_Inr item_rows_iff snap_covers_def)
    with q(1) show "\<exists>q \<in> set (item_rows db v i). row_covers q i d" ..
  next
    assume "\<exists>q \<in> set (item_rows db v i). row_covers q i d"
    then obtain q where q: "q \<in> set (item_rows db v i)" "row_covers q i d" by blast
    obtain s where "s \<in> set K" "retained_row q = Inr s" using list_all2_mem(1) [OF l q(1)] by blast
    then show "\<exists>s \<in> set K. snap_covers s d"
      using q(2) by (auto simp: row_covers_def retained_row_Inr snap_covers_def)
  qed
  also have "\<dots> \<longleftrightarrow> has_cover db v i d"
    unfolding has_cover_def using item_rows_iff row_covers_def by blast
  finally show ?thesis .
qed

lemma item_snapshots_total:
  assumes "tables_ok db"
  shows "\<exists>K. item_snapshots db v i = Inr K"
proof -
  have "\<exists>s. retained_row q = Inr s" if q: "q \<in> set (item_rows db v i)" for q
  proof -
    obtain s where "bt_get (db_snapshots db) (v, s) = Some q" using q by (auto simp: item_rows_iff)
    then obtain c where "row_clamped q = Some c"
      using tables_okD(2) [OF assms] unfolding snapshot_row_ok_def by blast
    then have "retained_row q = Inr \<lparr> store_seq = sr_store_seq q, clamped = c, author = sr_author_device_id q \<rparr>"
      by (simp add: retained_row_Inr)
    then show ?thesis ..
  qed
  then show ?thesis unfolding item_snapshots_def by (rule try_map_total)
qed

lemma check_healing_Inr:
  "check_healing_request K ds = Inr u \<longleftrightarrow> (\<forall>d \<in> set ds. \<exists>s \<in> set K. snap_covers s d)"
proof -
  have "iter_min xs = None \<longleftrightarrow> xs = []" for xs :: "dot list" by (cases xs) auto
  then have "check_healing_request K ds = Inr u \<longleftrightarrow> filter (\<lambda>d. \<not> list_ex (\<lambda>s. snap_covers s d) K) ds = []"
    by (auto simp: check_healing_request_def split: option.split)
  then show ?thesis by (auto simp: list_ex_iff filter_empty_conv)
qed

lemma heal_covers_ok:
  "heal_covers db v es = Inr (Inr u) \<Longrightarrow> (i, ds) \<in> set es \<Longrightarrow> d \<in> set ds \<Longrightarrow> has_cover db v i d"
proof (induction es)
  case (Cons e es)
  obtain j ds' where e: "e = (j, ds')" by (cases e)
  from Cons.prems(1) obtain K where K: "item_snapshots db v j = Inr K" "check_healing_request K ds' = Inr ()"
    "heal_covers db v es = Inr (Inr u)"
    by (cases "item_snapshots db v j"; cases "check_healing_request (projr (item_snapshots db v j)) ds'") (auto simp: e)
  show ?case
  proof (cases "(i, ds) = e")
    case True
    then show ?thesis using K Cons.prems(3) retained_covers [OF K(1)] e by (auto simp: check_healing_Inr)
  next
    case False
    then show ?thesis using Cons.IH K(3) Cons.prems(2,3) by auto
  qed
qed simp

text \<open>The bodiless headers a request has stored so far.\<close>

definition pending_covers :: "id16 \<Rightarrow> bodiless_headers \<Rightarrow> (id16 \<times> id16 \<times> dot) set" where
  "pending_covers v m = {(v, i, d) | i d ds. bt_get m i = Some ds \<and> d \<in> set ds}"

lemma pending_push:
  "pending_covers v (push_bodiless vo m) = pending_covers v m \<union>
     (if vo_body vo = None then {(v, oh_item_id (vo_header vo), oh_dot (vo_header vo))} else {})"
proof (cases "vo_body vo = None")
  case True
  have "x \<in> pending_covers v (push_bodiless vo m) \<longleftrightarrow> x \<in> pending_covers v m \<or>
      x = (v, oh_item_id (vo_header vo), oh_dot (vo_header vo))" for x
    using True
    by (cases x; cases "bt_get m (oh_item_id (vo_header vo))")
       (auto simp: pending_covers_def push_bodiless_def Let_def split: if_splits)
  then show ?thesis using True by auto
next
  case False
  then have "push_bodiless vo m = m" by (simp only: push_bodiless_def if_False)
  then show ?thesis using False by (simp only: if_False Un_empty_right)
qed

lemma heal_ops_ok:
  "heal_ops cr db ss rs m = Inr (Inr (db', ss', m')) \<Longrightarrow> tables_ok db \<Longrightarrow> session_ok db ss \<Longrightarrow>
   covered_but (pending_covers (ss_vault_id ss) m) db \<Longrightarrow>
   tables_ok db' \<and> session_ok db' ss' \<and> ss_vault_id ss' = ss_vault_id ss \<and>
   covered_but (pending_covers (ss_vault_id ss) m') db'"
proof (induction rs arbitrary: db ss m)
  case (Cons x rs)
  show ?case
  proof (cases x)
  case (ROp r)
  from Cons.prems(1) ROp obtain vo ex where vo: "verify_op cr r (ss_vault_id ss) (ss_authors ss) False WrapOptional = Inr vo"
    "existing_op db ss vo = Inr ex" "ex \<noteq> Different"
    by (auto simp: and_then_Inr existing_case_eq split: sum.split_asm)
  show ?thesis
  proof (cases ex)
    case Same
    with Cons.prems(1) ROp vo have "heal_ops cr db ss rs m = Inr (Inr (db', ss', m'))" by simp
    then show ?thesis using Cons.IH Cons.prems(2-4) by blast
  next
    case New
    with Cons.prems(1) ROp vo obtain db1 ss1 where st: "op_author_allows vo" "chain_check ss vo = Inr ()" "store_op db ss vo = Inr (db1, ss1)"
      "heal_ops cr db1 ss1 rs (push_bodiless vo m) = Inr (Inr (db', ss', m'))"
      by (auto simp: and_then_Inr split: sum.split_asm if_splits)
    have s: "tables_ok db1 \<and> session_ok db1 ss1 \<and> ss_vault_id ss1 = ss_vault_id ss \<and>
        covered_but (pending_covers (ss_vault_id ss) (push_bodiless vo m)) db1"
      using store_op_ok [OF st(3,2) verified_columns [OF vo(1)] Cons.prems(2-4)] by (simp only: pending_push)
    then show ?thesis using Cons.IH [OF st(4)] by simp
  qed (use vo in simp)
  qed (use Cons in simp)
qed simp

lemma heal_snapshots_ok:
  "heal_snapshots cr db ss rs = Inr (Inr (db', ss')) \<Longrightarrow> tables_ok db \<Longrightarrow> session_ok db ss \<Longrightarrow> covered_but B db \<Longrightarrow>
   tables_ok db' \<and> session_ok db' ss' \<and> ss_vault_id ss' = ss_vault_id ss \<and> covered_but B db'"
proof (induction rs arbitrary: db ss)
  case (Cons x rs)
  show ?case
  proof (cases x)
  case (RSnapshot r)
  from Cons.prems(1) RSnapshot obtain vs ex where vs: "verify_snapshot cr r (ss_vault_id ss) (ss_authors ss) WrapOptional = Inr vs"
    "existing_snapshot cr db ss vs = Inr ex" "ex \<noteq> Different"
    by (auto simp: and_then_Inr existing_case_eq split: sum.split_asm)
  show ?thesis
  proof (cases ex)
    case Same
    with Cons.prems(1) RSnapshot vs have "heal_snapshots cr db ss rs = Inr (Inr (db', ss'))" by simp
    then show ?thesis using Cons.IH Cons.prems(2-4) by blast
  next
    case New
    with Cons.prems(1) RSnapshot vs obtain db1 ss1 where st: "snapshot_allowed ss vs" "store_snapshot db ss vs = Inr (db1, ss1)"
      "heal_snapshots cr db1 ss1 rs = Inr (Inr (db', ss'))"
      by (auto simp: and_then_Inr split: if_splits)
    note s = store_snapshot_ok [OF st(2) Cons.prems(2-4)]
    then show ?thesis using Cons.IH [OF st(3)] by simp
  qed (use vs in simp)
  qed (use Cons in simp)
qed simp

subsection \<open>Keys and wraps\<close>

text \<open>A change of vault rows, self-grants and wraps: no op and no snapshot comes, goes or loses its
  body, and no store-sequence counter moves back.\<close>

definition rewrapped :: "vault_db \<Rightarrow> vault_db \<Rightarrow> bool" where
  "rewrapped db db' \<longleftrightarrow>
     (\<forall>k. rel_option (\<lambda>r r'. same_op r r' \<and> or_body r' = or_body r) (bt_get (db_ops db) k) (bt_get (db_ops db') k)) \<and>
     (\<forall>k. rel_option same_snapshot (bt_get (db_snapshots db) k) (bt_get (db_snapshots db') k)) \<and>
     (\<forall>v vr. repo_vault db v = Some vr \<longrightarrow>
        (\<exists>vr'. repo_vault db' v = Some vr' \<and> vr_next_store_seq vr \<le> vr_next_store_seq vr'))"

lemma same_rows [simp]: "rel_option (\<lambda>r r'. same_op r r' \<and> or_body r' = or_body r) x x" "rel_option same_snapshot y y"
  by (cases x; simp add: same_op_def) (cases y; simp add: same_snapshot_def)

lemma rewrapped_refl [simp]: "rewrapped db db"
  by (auto simp: rewrapped_def)

lemma rewrapped_trans:
  assumes "rewrapped a b" "rewrapped b c"
  shows "rewrapped a c"
proof -
  have "rel_option (\<lambda>r r'. same_op r r' \<and> or_body r' = or_body r) (bt_get (db_ops a) k) (bt_get (db_ops c) k)" for k
  proof -
    have "rel_option (\<lambda>r r'. same_op r r' \<and> or_body r' = or_body r) (bt_get (db_ops a) k) (bt_get (db_ops b) k)"
      "rel_option (\<lambda>r r'. same_op r r' \<and> or_body r' = or_body r) (bt_get (db_ops b) k) (bt_get (db_ops c) k)"
      using assms unfolding rewrapped_def by blast+
    then show ?thesis by (auto simp: rel_option_iff same_op_def split: option.splits)
  qed
  moreover have "rel_option same_snapshot (bt_get (db_snapshots a) k) (bt_get (db_snapshots c) k)" for k
  proof -
    have "rel_option same_snapshot (bt_get (db_snapshots a) k) (bt_get (db_snapshots b) k)"
      "rel_option same_snapshot (bt_get (db_snapshots b) k) (bt_get (db_snapshots c) k)"
      using assms unfolding rewrapped_def by blast+
    then show ?thesis by (auto simp: rel_option_iff same_snapshot_def split: option.splits)
  qed
  moreover have "\<exists>vr'. repo_vault c v = Some vr' \<and> vr_next_store_seq vr \<le> vr_next_store_seq vr'"
    if "repo_vault a v = Some vr" for v vr
    using assms that unfolding rewrapped_def by (metis order_trans)
  ultimately show ?thesis by (simp add: rewrapped_def)
qed

lemma rewrapped_ok:
  assumes r: "rewrapped db db'" and ok: "server_ok db"
  shows "server_ok db'"
proof -
  have ops: "rel_option (\<lambda>r r'. same_op r r' \<and> or_body r' = or_body r) (bt_get (db_ops db) k) (bt_get (db_ops db') k)"
    and snaps: "rel_option same_snapshot (bt_get (db_snapshots db) k') (bt_get (db_snapshots db') k')" for k k'
    using r unfolding rewrapped_def by blast+
  have has: "has_op db' v d \<longleftrightarrow> has_op db v d" for v d
    using ops [of "(v, d)"] by (auto simp: has_op_def rel_option_iff split: option.splits)
  have opback: "\<exists>r. bt_get (db_ops db) k = Some r \<and> same_op r r' \<and> or_body r' = or_body r"
    if "bt_get (db_ops db') k = Some r'" for k r'
    using ops [of k] that by (auto simp: rel_option_iff split: option.splits)
  have sback: "\<exists>q. bt_get (db_snapshots db) k = Some q \<and> same_snapshot q q'" if "bt_get (db_snapshots db') k = Some q'" for k q'
    using snaps [of k] that by (auto simp: rel_option_iff split: option.splits)
  have sforth: "\<exists>q'. bt_get (db_snapshots db') k = Some q' \<and> same_snapshot q q'" if "bt_get (db_snapshots db) k = Some q" for k q
    using snaps [of k] that by (auto simp: rel_option_iff split: option.splits)
  have "shrinks db db'"
    unfolding shrinks_def using has opback sback r [unfolded rewrapped_def] by blast
  then have "tables_ok db'" using shrinks_tables ok by (simp add: server_ok_def)
  moreover have "has_cover db' v i d" if "has_cover db v i d" for v i d
    using that sforth by (fastforce simp: has_cover_def row_covers_def row_clamped_def same_snapshot_def)
  then have "covered_but {} db'"
    using ok opback by (fastforce simp: server_ok_def covered_but_def same_op_def)
  ultimately show ?thesis by (simp add: server_ok_def)
qed

lemma rewrapped_same: "same_tables db db' \<Longrightarrow> rewrapped db db'"
  by (simp add: rewrapped_def same_tables_def repo_vault_def)

lemma rewrapped_epoch: "rewrapped db (set_vault_epoch db v epoch)"
proof -
  have "db_ops (set_vault_epoch db v epoch) = db_ops db" "db_snapshots (set_vault_epoch db v epoch) = db_snapshots db"
    by (simp_all add: set_vault_epoch_def update_vault_def split: option.splits)
  moreover have "\<exists>vr'. repo_vault (set_vault_epoch db v epoch) x = Some vr' \<and> vr_next_store_seq vr' = vr_next_store_seq vr"
    if "repo_vault db x = Some vr" for x vr
    using that by (auto simp: set_vault_epoch_def update_vault_def repo_vault_def split: option.splits)
  ultimately show ?thesis by (fastforce simp: rewrapped_def)
qed

lemma rewrapped_clear: "rewrapped db (clear_wraps_where P db)"
proof -
  have "rel_option (\<lambda>r r'. same_op r r' \<and> or_body r' = or_body r) (bt_get (db_ops db) k)
      (bt_get (db_ops (clear_wraps_where P db)) k)" for k
    by (cases k; cases "bt_get (db_ops db) k") (auto simp: clear_wraps_where_def same_op_def)
  moreover have "rel_option same_snapshot (bt_get (db_snapshots db) k) (bt_get (db_snapshots (clear_wraps_where P db)) k)" for k
    by (cases k; cases "bt_get (db_snapshots db) k") (auto simp: clear_wraps_where_def same_snapshot_def)
  ultimately show ?thesis by (auto simp: rewrapped_def repo_vault_def clear_wraps_where_def)
qed

lemma rewrapped_grant: "write_self_grant db v g rep now = Inr db' \<Longrightarrow> rewrapped db db'"
  by (rule rewrapped_same) (auto simp: write_self_grant_def same_tables_def Let_def split: if_splits)

lemma rewrapped_overwrite: "rewrapped db (snd (overwrite_wrap db v w now))"
  by (rule rewrapped_same) (auto simp: overwrite_wrap_def same_tables_def Let_def split: option.splits)

lemma rewrapped_delete: "rewrapped db (snd (delete_wrap db v i key))"
  by (rule rewrapped_same) (auto simp: delete_wrap_def same_tables_def split: option.splits)

lemma rewrapped_overwrite_all: "overwrite_all db v ws now = Inr db' \<Longrightarrow> rewrapped db db'"
proof (induction ws arbitrary: db)
  case (Cons w ws)
  then have "overwrite_all (snd (overwrite_wrap db v w now)) v ws now = Inr db'"
    by (simp add: split_def Let_def split: if_splits)
  then show ?case using Cons.IH rewrapped_overwrite rewrapped_trans by blast
qed simp

lemma rewrapped_delete_all: "delete_all db v ls = Inr db' \<Longrightarrow> rewrapped db db'"
proof (induction ls arbitrary: db)
  case (Cons l ls)
  obtain i key where l: "l = (i, key)" by (cases l)
  with Cons.prems have "delete_all (snd (delete_wrap db v i key)) v ls = Inr db'"
    by (simp add: split_def Let_def split: if_splits)
  then show ?case using Cons.IH rewrapped_delete rewrapped_trans by blast
qed simp

lemma rewrapped_fold_delete: "rewrapped db (fold (\<lambda>r db. snd (delete_wrap db v (f r) (g r))) rs db)"
  by (induction rs arbitrary: db) (auto intro: rewrapped_trans rewrapped_delete)

lemma rewrapped_repair:
  assumes "repair_writes db v grant stored rows replaced now = Inr db'"
  shows "rewrapped db db'"
proof -
  let ?stale = "filter (\<lambda>r. wr_vault_key_epoch r < sf_vault_key_epoch grant \<and> \<not> bs_contains (bs_collect (map at replaced)) (at r)) rows"
  from assms obtain g rep db2 db3 where
    w: "write_self_grant (set_vault_epoch db v (sf_vault_key_epoch grant)) v g rep now = Inr db2"
      "overwrite_all db2 v replaced now = Inr db3"
    and db': "db' = clear_record_wraps_below
        (fold (\<lambda>r db. snd (delete_wrap db v (wr_item_id r) (wr_item_key_id r))) ?stale db3) v (sf_vault_key_epoch grant)"
    unfolding repair_writes_def Let_def and_then_Inr by blast
  have "rewrapped db db2" using rewrapped_epoch rewrapped_grant [OF w(1)] rewrapped_trans by blast
  then have "rewrapped db db3" using rewrapped_overwrite_all [OF w(2)] rewrapped_trans by blast
  then show ?thesis
    unfolding db' clear_record_wraps_below_def
    using rewrapped_clear rewrapped_fold_delete rewrapped_trans by blast
qed

lemma rewrapped_heal_self_grant:
  assumes "heal_self_grant db ss healer key grant request = Inr (out, db')"
  shows "rewrapped db db'"
proof (cases "db' = db")
  case False
  with assms obtain stored rows replaced where
    "repair_writes db (ss_vault_id ss) grant stored rows replaced (ss_now_sql ss) = Inr db'"
    by (auto simp: heal_self_grant_def Let_def and_then_Inr split: option.split_asm sum.split_asm if_splits)
  then show ?thesis by (rule rewrapped_repair)
qed simp

lemma rewrapped_write_vault:
  assumes "write_vault db plan now = Inr db'"
  shows "rewrapped db db'"
proof -
  let ?v = "pl_vault_id plan"
  from assms obtain db1 db2 db3 where
    "write_self_grant (set_vault_epoch db ?v (gr_vault_key_epoch (pl_grant plan))) ?v (pl_grant plan) (pl_has_grant plan) now = Inr db1"
    "overwrite_all db1 ?v (pl_rewrapped plan) now = Inr db2" "delete_all db2 ?v (pl_dropped plan) = Inr db3"
    "db' = clear_record_wraps db3 ?v"
    by (auto simp: write_vault_def Let_def and_then_Inr)
  then show ?thesis
    unfolding clear_record_wraps_def
    using rewrapped_epoch rewrapped_grant rewrapped_overwrite_all rewrapped_delete_all rewrapped_clear rewrapped_trans
    by metis
qed

lemma rewrapped_write_vaults: "write_vaults db ps now = Inr db' \<Longrightarrow> rewrapped db db'"
  by (induction ps arbitrary: db) (auto simp: and_then_Inr intro: rewrapped_trans rewrapped_write_vault)

lemma rotation_ok: "apply_rotation db account e k entries now_ms = Inr db' \<Longrightarrow> server_ok db \<Longrightarrow> server_ok db'"
  by (auto simp: apply_rotation_def and_then_Inr Let_def intro: rewrapped_ok rewrapped_write_vaults split: if_splits)

lemma create_vault_ok:
  assumes "create_vault db account grant now_ms = Inr db'" "server_ok db"
  shows "server_ok db'"
proof -
  from assms(1) obtain now db1 g where c: "insert_vault db (sf_vault_id grant) account 0 now = Inr db1"
    "write_self_grant db1 (sf_vault_id grant) g False now = Inr db'"
    by (auto simp: create_vault_def and_then_Inr split: if_splits)
  have "rewrapped db db1"
    using c(1) by (auto simp: insert_vault_def rewrapped_def repo_vault_def split: if_splits)
  then show ?thesis using rewrapped_grant [OF c(2)] rewrapped_trans rewrapped_ok assms(2) by blast
qed

lemma heal_wrap_rows_same: "same_tables db (heal_wrap_rows db ss ws)"
proof -
  have "same_tables db (fold (\<lambda>wrap db. if wr_vault_key_epoch wrap < vr_vault_key_epoch (ss_vault ss) then db
         else snd (put_wrap db (ss_vault_id ss) wrap (ss_now_sql ss))) ws db)"
    by (induction ws arbitrary: db) (force simp: same_tables_def put_wrap_def Let_def split: option.splits)+
  then show ?thesis by (simp add: heal_wrap_rows_def)
qed

lemma refusal_case_eq: "(case x of Inl e \<Rightarrow> Inl e | Inr b \<Rightarrow> Inr (g b)) = Inr y \<longleftrightarrow> (\<exists>b. x = Inr b \<and> g b = y)"
  by (cases x) auto

lemma refusal_case_Inr:
  "(case x of Inl e \<Rightarrow> Inr (Inl e) | Inr b \<Rightarrow> g b) = Inr (Inr y) \<longleftrightarrow> (\<exists>b. x = Inr b \<and> g b = Inr (Inr y))"
  by (cases x) auto

lemma heal_in_ok:
  assumes h: "heal_in cr db ss request = Inr (Inr (db', ss'))" and ok: "server_ok db" "session_ok db ss"
  shows "server_ok db'"
proof -
  let ?db = "heal_wrap_rows db ss (hq_item_key_wraps request)"
  note same = same_tables_ok [OF heal_wrap_rows_same [of db ss "hq_item_key_wraps request"]]
  from h obtain db1 ss1 m where ops: "heal_ops cr ?db ss (hq_records request) bt_empty = Inr (Inr (db1, ss1, m))"
    and snaps: "heal_snapshots cr db1 ss1 (hq_records request) = Inr (Inr (db', ss'))"
    and cov: "heal_covers db' (ss_vault_id ss') (bt_entries m) = Inr (Inr ())"
    by (auto simp: heal_in_def Let_def and_then_Inr refusal_case_Inr)
  have "covered_but (pending_covers (ss_vault_id ss) bt_empty) ?db"
    using ok(1) by (simp add: server_ok_def same pending_covers_def)
  then have 1: "tables_ok db1 \<and> session_ok db1 ss1 \<and> ss_vault_id ss1 = ss_vault_id ss \<and>
      covered_but (pending_covers (ss_vault_id ss) m) db1"
    using heal_ops_ok [OF ops] ok by (simp add: server_ok_def same)
  then have 2: "tables_ok db' \<and> ss_vault_id ss' = ss_vault_id ss \<and> covered_but (pending_covers (ss_vault_id ss) m) db'"
    using heal_snapshots_ok [OF snaps] by auto
  have "has_cover db' v i d" if "(v, i, d) \<in> pending_covers (ss_vault_id ss) m" for v i d
    using that heal_covers_ok [OF cov, of i _ d] 2 by (auto simp: pending_covers_def bt_entries_iff)
  then have "covered_but {} db'" using 2 unfolding covered_but_def by blast
  then show ?thesis using 2 by (simp add: server_ok_def)
qed

lemma heal_ok:
  assumes "server_ok db"
  shows "server_ok (snd (heal cr dir db account healer request now_ms))" (is "server_ok ?db'")
proof (cases "?db' = db")
  case False
  then obtain ss ss' where o: "open_session db dir account (hq_vault_id request) now_ms = Inr ss"
    "heal_outcome cr dir db account healer request ss = Inr (Inr (?db', ss'))"
    by (auto simp: heal_def and_then_Inr split: sum.splits)
  show ?thesis
  proof (cases "hq_self_grant request")
    case None
    then show ?thesis using o heal_in_ok open_session_ok assms by (fastforce simp: heal_outcome_def)
  next
    case (Some grant)
    then obtain key out where "heal_self_grant db ss healer key grant request = Inr (out, ?db')"
      using o(2) by (auto simp: heal_outcome_def and_then_Inr refusal_case_eq)
    then show ?thesis using rewrapped_ok rewrapped_heal_self_grant assms by blast
  qed
qed (use assms in simp)

end
