(* ===== verification/Server_Steps.thy ===== *)
theory Server_Steps
  imports Server_Invariant
begin

text \<open>
  The compaction job keeps the server's invariant and never fails on it, and the step relation of
  the whole server: uploads, healing requests, compaction runs, rotations and new vaults in any
  order, under any certificates, keep the invariant from the empty database on.
\<close>

section \<open>Compaction\<close>

lemma delete_bodies_Inr:
  "delete_bodies_of db v i ds = Inr db' \<Longrightarrow>
   bt_get (db_ops db') k = map_option (\<lambda>r. if fst k = v \<and> snd k \<in> set ds \<and> or_item_id r = i
     then r \<lparr> or_body := None \<rparr> else r) (bt_get (db_ops db) k) \<and>
   db_snapshots db' = db_snapshots db \<and> db_vaults db' = db_vaults db \<and> db_queue db' = db_queue db"
proof (induction ds arbitrary: db)
  case Nil
  then show ?case by (cases "bt_get (db_ops db) k") auto
next
  case (Cons d ds)
  then obtain db1 where 1: "delete_body db v i d = Inr db1" "delete_bodies_of db1 v i ds = Inr db'"
    by (auto simp: and_then_Inr)
  have "bt_get (db_ops db1) k = map_option (\<lambda>r. if k = (v, d) \<and> or_item_id r = i then r \<lparr> or_body := None \<rparr> else r)
      (bt_get (db_ops db) k)"
    "db_snapshots db1 = db_snapshots db" "db_vaults db1 = db_vaults db" "db_queue db1 = db_queue db"
    using 1(1) by (cases "bt_get (db_ops db) k"; auto simp: delete_body_def and_then_Inr)+
  then show ?case using Cons.IH [OF 1(2)] by (cases "bt_get (db_ops db) k"; cases k) auto
qed

lemma delete_snapshots_Inr:
  "delete_snapshots_of db v i sqs = Inr db' \<Longrightarrow>
   bt_get (db_snapshots db') k = (case bt_get (db_snapshots db) k of None \<Rightarrow> None
     | Some q \<Rightarrow> if fst k = v \<and> sr_item_id q = i \<and> sr_store_seq q \<in> set sqs then None else Some q) \<and>
   db_ops db' = db_ops db \<and> db_vaults db' = db_vaults db \<and> db_queue db' = db_queue db"
proof (induction sqs arbitrary: db)
  case Nil
  then show ?case by (cases "bt_get (db_snapshots db) k") auto
next
  case (Cons sq sqs)
  then obtain db1 where 1: "delete_snapshot db v i sq = Inr db1" "delete_snapshots_of db1 v i sqs = Inr db'"
    by (auto simp: and_then_Inr)
  have "bt_get (db_snapshots db1) k = (case bt_get (db_snapshots db) k of None \<Rightarrow> None
      | Some q \<Rightarrow> if fst k = v \<and> sr_item_id q = i \<and> sr_store_seq q = sq then None else Some q)"
    "db_ops db1 = db_ops db" "db_vaults db1 = db_vaults db" "db_queue db1 = db_queue db"
    using 1(1) by (cases k; cases "bt_get (db_snapshots db) k"; auto simp: delete_snapshot_def and_then_Inr u64_to_sql_def split: if_splits)+
  then show ?case using Cons.IH [OF 1(2)] by (cases "bt_get (db_snapshots db) k") (auto split: if_splits)
qed

lemma delete_bodies_total: "(\<And>d. d \<in> set ds \<Longrightarrow> sql_fits (dot_seq d)) \<Longrightarrow> \<exists>db'. delete_bodies_of db v i ds = Inr db'"
  by (induction ds arbitrary: db) (auto simp: delete_body_def u64_to_sql_def)

lemma delete_snapshots_total: "(\<And>s. s \<in> set sqs \<Longrightarrow> sql_fits s) \<Longrightarrow> \<exists>db'. delete_snapshots_of db v i sqs = Inr db'"
  by (induction sqs arbitrary: db) (auto simp: delete_snapshot_def u64_to_sql_def)

subsection \<open>The rows of one item\<close>

lemma item_op_dots_iff:
  "\<lparr> op_dot_dot = d, op_dot_body = b \<rparr> \<in> set (item_op_dots db v i) \<longleftrightarrow>
     (\<exists>r. bt_get (db_ops db) (v, d) = Some r \<and> or_item_id r = i \<and> b = (if or_body r = None then Absent else Held))"
  by (force simp: item_op_dots_def ops_of_iff)

lemma rows_distinct: "distinct (map (snd \<circ> fst) (rows_where (\<lambda>(v', _). v' = v) m))"
proof -
  let ?es = "rows_where (\<lambda>(v', _). v' = v) m"
  have "distinct (map fst (bt_entries m))" by (rule ascending_distinct) simp
  then have d: "distinct (map fst ?es)" unfolding rows_where_def by (rule distinct_map_filter)
  have "inj_on snd (set (map fst ?es))" by (auto simp: inj_on_def rows_where_def)
  with d have "distinct (map snd (map fst ?es))" by (simp only: distinct_map)
  then show ?thesis by simp
qed

lemma ops_of_distinct: "distinct (map fst (ops_of db v))"
  using rows_distinct [of v "db_ops db"] by (simp add: ops_of_def comp_def split_def)

lemma snapshots_of_distinct: "distinct (map fst (snapshots_of db v))"
  using rows_distinct [of v "db_snapshots db"] by (simp add: snapshots_of_def comp_def split_def)

lemma item_dots_distinct: "distinct (map op_dot_dot (item_op_dots db v i))"
proof -
  have "map op_dot_dot (item_op_dots db v i) = map fst (filter (\<lambda>(_, r). or_item_id r = i) (ops_of db v))"
    by (simp add: item_op_dots_def comp_def split_def)
  then show ?thesis using ops_of_distinct [of db v] by (simp add: distinct_map_filter)
qed

lemma item_rows_distinct:
  assumes "tables_ok db"
  shows "distinct (map sr_store_seq (item_rows db v i))"
proof -
  have "distinct (map (sr_store_seq \<circ> snd) (snapshots_of db v))"
    unfolding distinct_map
  proof (intro conjI inj_onI)
    show "distinct (snapshots_of db v)" using snapshots_of_distinct [of db v] by (simp only: distinct_map)
    fix x y assume "x \<in> set (snapshots_of db v)" "y \<in> set (snapshots_of db v)" "(sr_store_seq \<circ> snd) x = (sr_store_seq \<circ> snd) y"
    moreover obtain s q s' q' where xy: "x = (s, q)" "y = (s', q')" by (cases x; cases y)
    ultimately have g: "bt_get (db_snapshots db) (v, s) = Some q" "bt_get (db_snapshots db) (v, s') = Some q'"
      "sr_store_seq q = sr_store_seq q'" by (simp_all add: snapshots_of_iff)
    then have "s = s'" by (rule tables_okD(3) [OF assms])
    then show "x = y" using g xy by simp
  qed
  then have "distinct (map sr_store_seq (filter (\<lambda>r. sr_item_id r = i) (map snd (snapshots_of db v))))"
    by (simp add: distinct_map_filter)
  then show ?thesis by (simp only: item_rows_def distinct_map distinct_sort set_sort)
qed

lemma retained_store_seqs:
  "item_snapshots db v i = Inr K \<Longrightarrow> map store_seq K = map sr_store_seq (item_rows db v i)"
proof -
  assume "item_snapshots db v i = Inr K"
  then have "list_all2 (\<lambda>q s. retained_row q = Inr s) (item_rows db v i) K"
    by (simp add: item_snapshots_def try_map_Inr)
  then show ?thesis by (induction rule: list_all2_induct) (auto simp: retained_row_Inr)
qed

lemma retained_few:
  assumes "tables_ok db" "item_snapshots db v i = Inr K"
  shows "distinct (map store_seq K)" "length K \<le> usize_max" "\<And>s. s \<in> set (map store_seq K) \<Longrightarrow> sql_fits s"
proof -
  note m = retained_store_seqs [OF assms(2)]
  show d: "distinct (map store_seq K)" using item_rows_distinct [OF assms(1)] m by simp
  show f: "sql_fits s" if "s \<in> set (map store_seq K)" for s
    using that tables_okD(2) [OF assms(1)] unfolding m by (fastforce simp: item_rows_iff snapshot_row_ok_def)
  have "set (map store_seq K) \<subseteq> of_nat ` {..< 2 ^ 63}"
  proof
    fix s assume "s \<in> set (map store_seq K)"
    then have "unat s < 2 ^ 63" using f by (simp add: sql_fits_def)
    moreover have "s = of_nat (unat s)" by simp
    ultimately show "s \<in> of_nat ` {..< 2 ^ 63}" by blast
  qed
  then have "card (set (map store_seq K)) \<le> card (of_nat ` {..< 2 ^ 63 :: nat} :: u64 set)"
    by (intro card_mono) auto
  also have "\<dots> \<le> 2 ^ 63" using card_image_le [of "{..< 2 ^ 63 :: nat}" "of_nat :: nat \<Rightarrow> u64"] by simp
  finally have "length K \<le> 2 ^ 63" using distinct_card [OF d] by simp
  then show "length K \<le> usize_max" by (simp add: usize_max_def)
qed

subsection \<open>One item\<close>

lemma compact_item_Inr:
  assumes ok: "server_ok db" and vault: "repo_vault db v = Some vr"
  obtains K plan db1 db2 where "item_snapshots db v i = Inr K" "plan_worker K (item_op_dots db v i) = Inr plan"
    "delete_bodies_of db v i (delete_bodies plan) = Inr db1"
    "delete_snapshots_of db1 v i (drop_snapshots plan) = Inr db2"
    "compact_item db v i = Inr (\<lparr> bodies_deleted = length (delete_bodies plan),
       snapshots_dropped = length (drop_snapshots plan) \<rparr>, dequeue db2 v i)"
proof -
  have t: "tables_ok db" using ok by (simp add: server_ok_def)
  obtain K where K: "item_snapshots db v i = Inr K" using item_snapshots_total [OF t] by blast
  note few = retained_few [OF t K]
  let ?ops = "item_op_dots db v i"
  have "index_ops ?ops = Inr (bt_collect (map (\<lambda>op. (op_dot_dot op, op_dot_body op)) ?ops))"
    by (simp only: index_ops_Inr item_dots_distinct simp_thms)
  moreover have "by_store_seq K = Inr (sort_key store_seq K)" by (simp add: by_store_seq_Inr few(1))
  ultimately obtain plan where plan: "plan_worker K ?ops = Inr plan" by (simp add: plan_worker_def Let_def)
  note p = plan_worker_Inr [OF plan few(2)]
  have "sql_fits (dot_seq d)" if "d \<in> set (delete_bodies plan)" for d
    using that tables_okD(1) [OF t] by (auto simp: p(3) item_op_dots_iff op_row_ok_def)
  then obtain db1 where db1: "delete_bodies_of db v i (delete_bodies plan) = Inr db1"
    using delete_bodies_total by blast
  have "sql_fits s" if "s \<in> set (drop_snapshots plan)" for s using that p(5) few(3) by auto
  then obtain db2 where db2: "delete_snapshots_of db1 v i (drop_snapshots plan) = Inr db2"
    using delete_snapshots_total by blast
  show ?thesis using K plan db1 db2 vault by (intro that) (simp_all add: compact_item_def)
qed

lemma compacted_shrinks:
  assumes "delete_bodies_of db v i ds = Inr db1" "delete_snapshots_of db1 v i sqs = Inr db2"
  shows "shrinks db (dequeue db2 v i)"
proof -
  note b = delete_bodies_Inr [OF assms(1)] and q = delete_snapshots_Inr [OF assms(2)]
  let ?db = "dequeue db2 v i"
  have ops: "bt_get (db_ops ?db) k = map_option (\<lambda>r. if fst k = v \<and> snd k \<in> set ds \<and> or_item_id r = i
     then r \<lparr> or_body := None \<rparr> else r) (bt_get (db_ops db) k)" for k
    using b [of k] q by (simp add: dequeue_def)
  have "\<exists>x. bt_get (db_snapshots db) (v', s) = Some x \<and> same_snapshot x q'"
    if "bt_get (db_snapshots ?db) (v', s) = Some q'" for v' s q'
    using that b q [of "(v', s)"] by (auto simp: dequeue_def same_snapshot_def split: option.splits if_splits)
  moreover have "\<exists>r. bt_get (db_ops db) (v', d) = Some r \<and> same_op r r'" if "bt_get (db_ops ?db) (v', d) = Some r'" for v' d r'
    using that unfolding ops by (auto simp: same_op_def split: if_splits)
  moreover have "repo_vault ?db = repo_vault db" using b q by (simp add: repo_vault_def dequeue_def fun_eq_iff)
  moreover have "has_op ?db v' d \<longleftrightarrow> has_op db v' d" for v' d by (simp add: has_op_def ops)
  ultimately show ?thesis unfolding shrinks_def by auto
qed

lemma compact_item_ok:
  assumes ok: "server_ok db"
  shows "\<exists>report db'. compact_item db v i = Inr (report, db') \<and> server_ok db' \<and> db_queue db' = bt_remove (v, i) (db_queue db)"
proof (cases "repo_vault db v")
  case None
  have "same_tables db (dequeue db v i)" by (simp add: dequeue_def same_tables_def)
  then have "server_ok (dequeue db v i)" using ok by (simp add: server_ok_def same_tables_ok)
  then show ?thesis using None by (simp add: compact_item_def dequeue_def)
next
  case (Some vr)
  obtain K plan db1 db2 where c: "item_snapshots db v i = Inr K" "plan_worker K (item_op_dots db v i) = Inr plan"
    "delete_bodies_of db v i (delete_bodies plan) = Inr db1"
    "delete_snapshots_of db1 v i (drop_snapshots plan) = Inr db2"
    "compact_item db v i = Inr (\<lparr> bodies_deleted = length (delete_bodies plan),
       snapshots_dropped = length (drop_snapshots plan) \<rparr>, dequeue db2 v i)"
    using compact_item_Inr [OF ok Some] by blast
  let ?db = "dequeue db2 v i" and ?ops = "item_op_dots db v i"
  have t: "tables_ok db" and cov: "covered_but {} db" using ok by (simp_all add: server_ok_def)
  note few = retained_few [OF t c(1)]
  note b = delete_bodies_Inr [OF c(3)] and q = delete_snapshots_Inr [OF c(4)]
  have kept: "bt_get (db_snapshots ?db) (v', s) = Some x"
    if "bt_get (db_snapshots db) (v', s) = Some x" "\<not> (v' = v \<and> sr_item_id x = i \<and> sr_store_seq x \<in> set (drop_snapshots plan))" for v' s x
    using that b q [of "(v', s)"] by (auto simp: dequeue_def)
  have "db_ops ?db = db_ops db1" using q by (simp add: dequeue_def)
  then have dops: "bt_get (db_ops ?db) (v', d) = map_option (\<lambda>r. if v' = v \<and> d \<in> set (delete_bodies plan) \<and> or_item_id r = i
      then r \<lparr> or_body := None \<rparr> else r) (bt_get (db_ops db) (v', d))" for v' d
    using b [of "(v', d)"] by simp
  have item: "has_cover ?db v i d" if d: "d \<in> bodiless_after ?ops plan" and h: "has_cover db v i d \<or> d \<in> set (delete_bodies plan)" for d
  proof -
    have "authors_of K d \<noteq> {}"
      using h
    proof
      assume "has_cover db v i d"
      then show ?thesis using retained_covers [OF c(1), of d] by (auto simp: authors_of_def)
    next
      assume "d \<in> set (delete_bodies plan)"
      then show ?thesis by (auto simp: plan_worker_Inr(3) [OF c(2) few(2)] r1_rule_def)
    qed
    then have "0 < card (authors_of K d)" by (simp add: card_gt_0_iff)
    then have "0 < card (authors_of (kept_snapshots K plan) d)"
      using kept_authors_card [OF c(2) few(2) d] by (simp add: min_def split: if_splits)
    then have "authors_of (kept_snapshots K plan) d \<noteq> {}" by (simp add: card_gt_0_iff)
    then obtain s where s: "s \<in> set K" "store_seq s \<notin> set (drop_snapshots plan)" "snap_covers s d"
      by (auto simp: authors_of_def kept_snapshots_def)
    have l: "list_all2 (\<lambda>q s. retained_row q = Inr s) (item_rows db v i) K"
      using c(1) by (simp add: item_snapshots_def try_map_Inr)
    obtain x where x: "x \<in> set (item_rows db v i)" "retained_row x = Inr s" using list_all2_mem(2) [OF l s(1)] by blast
    then obtain sid where "bt_get (db_snapshots db) (v, sid) = Some x" "sr_item_id x = i" by (auto simp: item_rows_iff)
    moreover have "row_covers x i d" using x s(3) calculation(2) by (auto simp: row_covers_def retained_row_Inr snap_covers_def)
    moreover have "sr_store_seq x \<notin> set (drop_snapshots plan)" using x(2) s(2) by (simp add: retained_row_Inr)
    ultimately show ?thesis using kept unfolding has_cover_def by blast
  qed
  have "covered_but {} ?db"
    unfolding covered_but_def
  proof (intro allI impI disjI1)
    fix v' d r' assume r': "bt_get (db_ops ?db) (v', d) = Some r'" "or_body r' = None"
    then obtain r where r: "bt_get (db_ops db) (v', d) = Some r" "or_item_id r' = or_item_id r"
      "or_body r = None \<or> v' = v \<and> or_item_id r = i \<and> d \<in> set (delete_bodies plan)"
      unfolding dops [of v' d] by (auto split: if_splits)
    have h: "has_cover db v' (or_item_id r) d \<or> v' = v \<and> or_item_id r = i \<and> d \<in> set (delete_bodies plan)"
      using r cov unfolding covered_but_def by blast
    show "has_cover ?db v' (or_item_id r') d"
    proof (cases "v' = v \<and> or_item_id r = i")
      case True
      have "\<exists>op \<in> set ?ops. op_dot_dot op = d \<and> op_dot_body op = Absent" if "or_body r = None"
        using r(1) True that by (auto simp: op_dot_mem [symmetric] item_op_dots_iff)
      then have "d \<in> bodiless_after ?ops plan" using r(3) by (auto simp: bodiless_after_def)
      then show ?thesis using item h True r(2) by auto
    next
      case False
      then obtain s x where "bt_get (db_snapshots db) (v', s) = Some x" "row_covers x (or_item_id r) d"
        using h by (auto simp: has_cover_def)
      then show ?thesis using kept [of v' s x] False r(2) by (auto simp: has_cover_def row_covers_def)
    qed
  qed
  moreover have "tables_ok ?db" using shrinks_tables [OF compacted_shrinks [OF c(3,4)] t] .
  ultimately show ?thesis using c(5) b q by (simp add: server_ok_def) (simp add: dequeue_def)
qed

subsection \<open>Draining the queue\<close>

lemma compact_queued_ok:
  "server_ok db \<Longrightarrow> \<exists>run' db'. compact_queued db qs run = (Inr run', db') \<and> server_ok db' \<and>
     cr_failures run' = cr_failures run \<and>
     (\<forall>k. bt_get (db_queue db') k = (if k \<in> set qs then None else bt_get (db_queue db) k))"
proof (induction qs arbitrary: db run)
  case (Cons q qs)
  obtain v i where q: "q = (v, i)" by (cases q)
  obtain report db1 where c: "compact_item db v i = Inr (report, db1)" "server_ok db1"
    "db_queue db1 = bt_remove (v, i) (db_queue db)"
    using compact_item_ok [OF Cons.prems] by blast
  define run1 where "run1 = \<lparr> cr_processed = saturating_add (cr_processed run) 1,
      cr_report = \<lparr> bodies_deleted = saturating_add (bodies_deleted (cr_report run)) (bodies_deleted report),
                    snapshots_dropped = saturating_add (snapshots_dropped (cr_report run)) (snapshots_dropped report) \<rparr>,
      cr_failures = cr_failures run \<rparr>"
  have step: "compact_queued db (q # qs) run = compact_queued db1 qs run1" using c(1) by (simp add: q run1_def)
  obtain run' db' where "compact_queued db1 qs run1 = (Inr run', db')" "server_ok db'" "cr_failures run' = cr_failures run1"
    "\<forall>k. bt_get (db_queue db') k = (if k \<in> set qs then None else bt_get (db_queue db1) k)"
    using Cons.IH [OF c(2)] by blast
  then show ?case unfolding step by (auto simp: c(3) q run1_def)
qed simp

lemma run_compaction_ok: "server_ok db \<Longrightarrow> server_ok (snd (run_compaction db n))"
  using compact_queued_ok [of db "queued_items db n" run_default] by (auto simp: run_compaction_def)

section \<open>The server as a step relation\<close>

definition empty_db :: "bytes option \<Rightarrow> vault_db" where
  "empty_db generation =
     \<lparr> db_vaults = bt_empty, db_self_grants = bt_empty, db_wraps = bt_empty, db_ops = bt_empty,
       db_snapshots = bt_empty, db_queue = bt_empty, db_restore_generation = generation \<rparr>"

text \<open>One committed call. The primitives, the certificates and the clock are free at every step.\<close>

inductive server_step :: "vault_db \<Rightarrow> vault_db \<Rightarrow> bool" where
  step_create: "create_vault db account grant now_ms = Inr db' \<Longrightarrow> server_step db db'"
| step_upload: "server_step db (snd (upload cr dir db account request now_ms))"
| step_heal: "server_step db (snd (heal cr dir db account healer healing now_ms))"
| step_rotate: "apply_rotation db account epoch key entries now_ms = Inr db' \<Longrightarrow> server_step db db'"
| step_compact: "server_step db (snd (run_compaction db max_items))"

inductive server_reachable :: "vault_db \<Rightarrow> bool" where
  reachable_empty: "server_reachable (empty_db generation)"
| reachable_step: "server_reachable db \<Longrightarrow> server_step db db' \<Longrightarrow> server_reachable db'"

lemma server_step_ok: "server_step db db' \<Longrightarrow> server_ok db \<Longrightarrow> server_ok db'"
  by (induction rule: server_step.induct)
     (auto intro: create_vault_ok upload_ok heal_ok rotation_ok run_compaction_ok)

lemma reachable_server_ok: "server_reachable db \<Longrightarrow> server_ok db"
proof (induction rule: server_reachable.induct)
  case (reachable_empty generation)
  then show ?case by (simp add: server_ok_def tables_ok_def covered_but_def empty_db_def)
qed (auto intro: server_step_ok)

subsection \<open>A vault in use\<close>

text \<open>A vault, as a signup leaves it.\<close>

definition sample_grant :: vault_self_grant where
  "sample_grant = \<lparr> sf_vault_id = 7, sf_account_key_epoch = 0, sf_vault_key_epoch = 0, sf_envelope = [1] \<rparr>"

definition sample_db :: vault_db where
  "sample_db = (empty_db (Some [9])) \<lparr>
     db_vaults := bt_insert 7 \<lparr> vr_account_id = 3, vr_vault_key_epoch = 0, vr_next_store_seq = 1, vr_created_at_ms = 5 \<rparr> bt_empty,
     db_self_grants := bt_insert 7 \<lparr> gc_account_key_epoch = 0, gc_vault_key_epoch = 0, gc_envelope = [1], gc_updated_at_ms = 5 \<rparr> bt_empty \<rparr>"

lemma sample_created: "create_vault (empty_db (Some [9])) 3 sample_grant 5 = Inr sample_db"
  by (simp add: create_vault_def sample_grant_def sample_db_def empty_db_def to_sql_time_def u64_to_sql_def sql_fits_def
      insert_vault_def write_self_grant_def Let_def)

lemma sample_reachable: "server_reachable sample_db"
  using reachable_step [OF reachable_empty step_create [OF sample_created]] .

section \<open>Properties\<close>

text \<open>C14: compaction never fails on a state the server reaches. A run over the queue reports no
  failed item, takes every item it was given off the queue and no other, and leaves a state in
  which every op without a body still has a cover.\<close>
theorem compaction_run_succeeds:
  assumes "server_reachable db"
  shows "\<exists>run db'. run_compaction db n = (Inr run, db') \<and> cr_failures run = [] \<and>
    (\<forall>k. bt_get (db_queue db') k = (if k \<in> set (queued_items db n) then None else bt_get (db_queue db) k)) \<and>
    (\<forall>v d r. bt_get (db_ops db') (v, d) = Some r \<and> or_body r = None \<longrightarrow> has_cover db' v (or_item_id r) d)"
proof -
  obtain run db' where "compact_queued db (queued_items db n) run_default = (Inr run, db')" "server_ok db'"
    "cr_failures run = cr_failures run_default"
    "\<forall>k. bt_get (db_queue db') k = (if k \<in> set (queued_items db n) then None else bt_get (db_queue db) k)"
    using compact_queued_ok [OF reachable_server_ok [OF assms], of "queued_items db n" run_default] by blast
  then show ?thesis by (auto simp: run_compaction_def run_default_def server_ok_def covered_but_def)
qed

theorem compaction_run_succeeds_witness:
  "\<exists>run db'. run_compaction sample_db 8 = (Inr run, db') \<and> cr_failures run = []"
  using compaction_run_succeeds [OF sample_reachable, of 8] by blast

end
