(* ===== verification/Server_Pages.thy ===== *)
theory Server_Pages
  imports Server_Steps
begin

text \<open>
  What a Fetch page holds on a server that keeps its invariant. Building the page never fails;
  its ops are a prefix of the ops the client lacks, in chain order; a page that is not complete
  makes progress; and every bodiless header in it comes with a cover.
\<close>

section \<open>The covers of one item\<close>

lemma select_from_sub: "select_from headers rest m = (chosen, final) \<Longrightarrow> set chosen \<subseteq> store_seq ` set rest"
  by (induction rest arbitrary: m chosen) (fastforce simp: Let_def split: if_splits prod.splits)+

lemma select_covers_total:
  assumes "distinct (map store_seq K)"
  shows "\<exists>sel. select_covers K ds = Inr sel \<and> set (covers sel) \<subseteq> store_seq ` set K"
proof -
  have "by_store_seq K = Inr (sort_key store_seq K)" by (simp add: by_store_seq_Inr assms)
  then obtain chosen final where s: "select_from (bt_keys (bs_collect ds)) (rev (sort_key store_seq K)) bt_empty = (chosen, final)"
    "select_covers K ds = Inr \<lparr> covers = chosen,
       uncovered = filter (\<lambda>d. \<not> bt_contains_key final d) (bt_keys (bs_collect ds)) \<rparr>"
    by (cases "select_from (bt_keys (bs_collect ds)) (rev (sort_key store_seq K)) bt_empty") (simp add: select_covers_def)
  then show ?thesis using select_from_sub [OF s(1)] by simp
qed

lemma cover_bytes_total: "(\<And>s. s \<in> set sqs \<Longrightarrow> bt_get sizes s \<noteq> None) \<Longrightarrow> \<exists>n. cover_bytes sizes sqs tot = Inr n"
proof (induction sqs arbitrary: tot)
  case (Cons a sqs)
  obtain y where "bt_get sizes a = Some y" using Cons.prems [of a] by auto
  moreover have "\<exists>n. cover_bytes sizes sqs tot = Inr n" for tot using Cons.IH Cons.prems by simp
  ultimately show ?case by (simp add: ok_or_def)
qed simp

lemma sizes_get:
  assumes "item_snapshots db v i = Inr K" "s \<in> set K"
  shows "bt_get (item_snapshot_sizes db v i) (store_seq s) \<noteq> None"
proof -
  let ?es = "map (\<lambda>r. (sr_store_seq r, snapshot_row_size r)) (item_rows db v i)"
  have "store_seq s \<in> set (map store_seq K)" using assms(2) by simp
  then have "store_seq s \<in> sr_store_seq ` set (item_rows db v i)"
    unfolding retained_store_seqs [OF assms(1)] by simp
  then have "store_seq s \<in> fst ` set (rev ?es)" by force
  then have "map_of (rev ?es) (store_seq s) \<noteq> None" by (simp only: map_of_eq_None_iff not_not)
  then show ?thesis by (simp add: item_snapshot_sizes_def bt_get_collect)
qed

text \<open>An entry of the page's covers: loaded from the item's rows, with a selection for its dots.\<close>

definition item_ok :: "vault_db \<Rightarrow> id16 \<Rightarrow> id16 \<Rightarrow> item_covers \<Rightarrow> bool" where
  "item_ok db v i item \<longleftrightarrow>
     item_snapshots db v i = Inr (ic_retained item) \<and> ic_sizes item = item_snapshot_sizes db v i \<and>
     (ic_dots item \<noteq> [] \<longrightarrow> select_covers (ic_retained item) (ic_dots item) = Inr (ic_selection item))"

lemma covers_load_ok:
  assumes "tables_ok db"
  shows "\<exists>item. covers_load db v i = Inr item \<and> item_ok db v i item \<and> ic_dots item = []"
  using item_snapshots_total [OF assms, of v i] by (auto simp: covers_load_def item_ok_def)

lemma covers_with_ok:
  assumes "tables_ok db" "item_ok db v i item"
  shows "\<exists>sel n. covers_with item d = Inr (ic_dots item @ [d], sel, n) \<and>
    select_covers (ic_retained item) (ic_dots item @ [d]) = Inr sel"
proof -
  have K: "item_snapshots db v i = Inr (ic_retained item)" "ic_sizes item = item_snapshot_sizes db v i"
    using assms(2) by (simp_all add: item_ok_def)
  obtain sel where sel: "select_covers (ic_retained item) (ic_dots item @ [d]) = Inr sel"
    "set (covers sel) \<subseteq> store_seq ` set (ic_retained item)"
    using select_covers_total [OF retained_few(1) [OF assms(1) K(1)]] by blast
  obtain n where "cover_bytes (ic_sizes item) (covers sel) 0 = Inr n"
    using cover_bytes_total [of "covers sel" "ic_sizes item" 0] sizes_get [OF K(1)] sel(2) K(2) by fastforce
  then show ?thesis using sel(1) by (simp add: covers_with_def)
qed

section \<open>Joining ops\<close>

abbreviation bodiless_op :: "fetched_op \<Rightarrow> bool" where
  "bodiless_op fo \<equiv> sd_body (fo_record fo) = None"

definition item_headers :: "id16 \<Rightarrow> fetched_op list \<Rightarrow> dot list" where
  "item_headers i ops = map fo_dot (filter (\<lambda>fo. bodiless_op fo \<and> fo_item_id fo = i) ops)"

lemma item_headers_snoc:
  "item_headers i (ops @ [fo]) = item_headers i ops @ (if bodiless_op fo \<and> fo_item_id fo = i then [fo_dot fo] else [])"
  by (simp add: item_headers_def)

text \<open>The page's covers are those of its bodiless headers.\<close>

definition page_ok :: "vault_db \<Rightarrow> id16 \<Rightarrow> page \<Rightarrow> bool" where
  "page_ok db v p \<longleftrightarrow>
     (\<forall>i. (bt_get (pg_covers p) i = None \<longrightarrow> item_headers i (pg_ops p) = []) \<and>
        (\<forall>item. bt_get (pg_covers p) i = Some item \<longrightarrow>
           item_ok db v i item \<and> ic_dots item \<noteq> [] \<and> ic_dots item = item_headers i (pg_ops p)))"

lemma page_okD:
  assumes "page_ok db v p"
  shows "bt_get (pg_covers p) i = None \<Longrightarrow> item_headers i (pg_ops p) = []"
    and "bt_get (pg_covers p) i = Some item \<Longrightarrow>
      item_ok db v i item \<and> ic_dots item \<noteq> [] \<and> ic_dots item = item_headers i (pg_ops p)"
  using assms unfolding page_ok_def by blast+

lemma page_same: "c = pg_covers p \<Longrightarrow> p \<lparr> pg_covers := c \<rparr> = p"
  by simp

lemma join_op_ok:
  assumes t: "tables_ok db" and p: "page_ok db v p"
  shows "\<exists>flow. join_op db v budget p tot fo = Inr flow \<and>
    (case flow of
       PageFull p' \<Rightarrow> p' = p \<and> pg_ops p \<noteq> []
     | PageGoes p' tot' after' \<Rightarrow> page_ok db v p' \<and> pg_ops p' = pg_ops p @ [fo] \<and> pg_complete p' = pg_complete p)"
proof (cases "bodiless_op fo")
  case False
  then obtain y where y: "sd_body (fo_record fo) = Some y" by blast
  have "page_ok db v (p \<lparr> pg_ops := pg_ops p @ [fo] \<rparr>)" 
    using p unfolding page_ok_def by (simp add: item_headers_snoc y) metis
  then show ?thesis by (auto simp: join_op_def Let_def y)
next
  case True
  let ?i = "fo_item_id fo"
  obtain item where item: "(case bt_get (pg_covers p) ?i of Some item \<Rightarrow> Inr item | None \<Rightarrow> covers_load db v ?i) = Inr item"
    "item_ok db v ?i item" "ic_dots item = item_headers ?i (pg_ops p)"
    "bt_get (pg_covers p) ?i = (if ic_dots item = [] then None else Some item)"
  proof (cases "bt_get (pg_covers p) ?i")
    case None
    then show ?thesis using that covers_load_ok [OF t, of v ?i] page_okD(1) [OF p None] by auto
  next
    case (Some item)
    note d = page_okD(2) [OF p Some]
    then have "item_headers ?i (pg_ops p) \<noteq> []" by metis
    then show ?thesis using that [of item] d Some by simp
  qed
  obtain sel n where sel: "covers_with item (fo_dot fo) = Inr (ic_dots item @ [fo_dot fo], sel, n)"
    "select_covers (ic_retained item) (ic_dots item @ [fo_dot fo]) = Inr sel"
    using covers_with_ok [OF t item(2)] by blast
  let ?item = "item \<lparr> ic_dots := ic_dots item @ [fo_dot fo], ic_selection := sel, ic_bytes := n \<rparr>"
  let ?p = "p \<lparr> pg_covers := bt_insert ?i ?item (bt_remove ?i (pg_covers p)), pg_ops := pg_ops p @ [fo] \<rparr>"
  have keep: "(if ic_dots item \<noteq> [] then p \<lparr> pg_covers := bt_insert ?i item (bt_remove ?i (pg_covers p)) \<rparr>
      else p \<lparr> pg_covers := bt_remove ?i (pg_covers p) \<rparr>) = p"
  proof -
    have "(if ic_dots item \<noteq> [] then bt_insert ?i item (bt_remove ?i (pg_covers p)) else bt_remove ?i (pg_covers p)) = pg_covers p"
      by (rule bt_ext) (auto simp: item(4) split: if_splits)
    then show ?thesis by (cases "ic_dots item = []") (simp_all add: page_same)
  qed
  have "item_ok db v ?i ?item" using item(2) sel(2) by (simp add: item_ok_def)
  then have "page_ok db v ?p"
    using p True item(3) unfolding page_ok_def by (simp add: item_headers_snoc) metis
  then show ?thesis
    using True item(1) sel(1) keep by (auto simp: join_op_def Let_def)
qed

section \<open>The ops of a page\<close>

text \<open>A row as the page holds it.\<close>

definition row_op :: "dot \<times> op_row \<Rightarrow> fetched_op" where
  "row_op = (\<lambda>(d, r). \<lparr> fo_dot = d, fo_item_id = or_item_id r, fo_record =
     \<lparr> sd_signed = \<lparr> sg_header = or_header r, sg_envelope_hash = or_body_hash r, sg_wrap_hash = or_wrap_hash r,
         sg_container = or_signature r \<rparr>, sd_body = or_body r, sd_key_wrap = or_key_wrap r \<rparr> \<rparr>)"

text \<open>The rest of one device's chain.\<close>

definition chain_after :: "vault_db \<Rightarrow> id16 \<Rightarrow> device_id \<Rightarrow> u64 \<Rightarrow> fetched_op list" where
  "chain_after db v x after =
     map row_op (filter (\<lambda>(d, _). dot_device d = x \<and> after < dot_seq d) (ops_of db v))"

lemma fetched_row_ok:
  assumes "tables_ok db" "e \<in> set (ops_of db v)"
  shows "fetched_row e = Inr (row_op e)"
proof -
  obtain d r where e: "e = (d, r)" by (cases e)
  have "op_row_ok db v d r" using assms by (simp add: e ops_of_iff tables_okD(1))
  then show ?thesis
    by (simp add: e fetched_row_def row_op_def stored_op_def hash32_def container_column_def op_row_ok_def)
qed

lemma try_map_fun: "(\<And>x. x \<in> set xs \<Longrightarrow> f x = Inr (g x)) \<Longrightarrow> try_map f xs = Inr (map g xs)"
  by (induction xs) auto

lemma ops_after_eq:
  assumes "tables_ok db"
  shows "ops_after db v x after limit = Inr (take limit (chain_after db v x after))"
proof -
  have "try_map fetched_row (take limit (filter (\<lambda>(d, _). dot_device d = x \<and> after < dot_seq d) (ops_of db v))) =
      Inr (map row_op (take limit (filter (\<lambda>(d, _). dot_device d = x \<and> after < dot_seq d) (ops_of db v))))"
    by (rule try_map_fun) (auto intro!: fetched_row_ok [OF assms] dest: in_set_takeD)
  then show ?thesis by (simp add: ops_after_def chain_after_def take_map)
qed

lemma ops_of_sorted: "sorted_wrt (<) (map fst (ops_of db v))"
proof -
  have "sorted_wrt (\<lambda>a b. fst a < fst b) (bt_entries (db_ops db))"
    using bt_entries_ascending [of "db_ops db"] by (simp add: sorted_wrt_map)
  then have "sorted_wrt (\<lambda>a b. fst a < fst b) (rows_where (\<lambda>(v', _). v' = v) (db_ops db))"
    unfolding rows_where_def by (rule sorted_wrt_filter)
  then have "sorted_wrt (\<lambda>a b. snd (fst a) < snd (fst b)) (rows_where (\<lambda>(v', _). v' = v) (db_ops db))"
    by (rule sorted_wrt_mono_rel [rotated]) (auto simp: rows_where_def less_prod_def)
  then show ?thesis by (simp add: ops_of_def sorted_wrt_map split_def)
qed

lemma dot_seq_not_zero [simp]: "dot_seq d \<noteq> 0"
  using dot_seq_pos [of d] by (metis less_irrefl)

lemma chain_after_sorted: "sorted_wrt (<) (map fo_dot (chain_after db v x after))"
proof -
  have "map fo_dot (chain_after db v x after) = map fst (filter (\<lambda>(d, _). dot_device d = x \<and> after < dot_seq d) (ops_of db v))"
    by (simp add: chain_after_def row_op_def split_def)
  then show ?thesis
    using ops_of_sorted [of db v] by (simp add: sorted_wrt_map sorted_wrt_filter)
qed

lemma chain_after_mem:
  "fo \<in> set (chain_after db v x after) \<longleftrightarrow>
     (\<exists>d r. bt_get (db_ops db) (v, d) = Some r \<and> dot_device d = x \<and> after < dot_seq d \<and> fo = row_op (d, r))"
proof -
  have "fo \<in> set (chain_after db v x after) \<longleftrightarrow>
      (\<exists>e \<in> set (ops_of db v). dot_device (fst e) = x \<and> after < dot_seq (fst e) \<and> fo = row_op e)"
    by (auto simp: chain_after_def split_def)
  then show ?thesis by (simp add: Bex_def split_paired_Ex ops_of_iff)
qed

lemma chain_after_split:
  assumes "n < length (chain_after db v x after)"
  shows "drop (Suc n) (chain_after db v x after) = chain_after db v x (dot_seq (fo_dot (chain_after db v x after ! n)))"
proof -
  let ?c = "chain_after db v x after" and ?s = "dot_seq (fo_dot (chain_after db v x after ! n))"
  have dev: "dot_device (fo_dot f) = x" "after < dot_seq (fo_dot f)" if "f \<in> set ?c" for f
    using that by (auto simp: chain_after_mem row_op_def)
  have "chain_after db v x ?s = filter (\<lambda>fo. ?s < dot_seq (fo_dot fo)) ?c"
  proof -
    have "after < ?s" using dev(2) assms nth_mem by blast
    then show ?thesis
      by (auto simp: chain_after_def filter_map row_op_def split_def comp_def intro!: arg_cong [where f = "map _"] filter_cong)
  qed
  also have "\<dots> = filter (\<lambda>fo. ?s < dot_seq (fo_dot fo)) (take (Suc n) ?c @ drop (Suc n) ?c)" by simp
  also have "\<dots> = filter (\<lambda>fo. ?s < dot_seq (fo_dot fo)) (take (Suc n) ?c) @ filter (\<lambda>fo. ?s < dot_seq (fo_dot fo)) (drop (Suc n) ?c)"
    by (simp only: filter_append)
  also have "filter (\<lambda>fo. ?s < dot_seq (fo_dot fo)) (take (Suc n) ?c) = []"
  proof -
    have "\<not> ?s < dot_seq (fo_dot (?c ! k))" if "k \<le> n" for k
    proof (cases "k = n")
      case False
      then have "fo_dot (?c ! k) < fo_dot (?c ! n)"
        using sorted_wrt_nth_less [OF chain_after_sorted [of db v x after], of k n] that assms by simp
      then show ?thesis using dev(1) assms that by (auto simp: less_dot_iff)
    qed simp
    then show ?thesis by (auto simp: filter_empty_conv in_set_conv_nth)
  qed
  also have "filter (\<lambda>fo. ?s < dot_seq (fo_dot fo)) (drop (Suc n) ?c) = drop (Suc n) ?c"
  proof -
    have "?s < dot_seq (fo_dot (?c ! k))" if "n < k" "k < length ?c" for k
    proof -
      have "fo_dot (?c ! n) < fo_dot (?c ! k)"
        using sorted_wrt_nth_less [OF chain_after_sorted [of db v x after], of n k] that by simp
      then show ?thesis using dev(1) [OF nth_mem [OF that(2)]] dev(1) [OF nth_mem [OF assms]] by (auto simp: less_dot_iff)
    qed
    then show ?thesis by (auto simp: filter_id_conv in_set_conv_nth)
  qed
  finally show ?thesis by simp
qed

lemma join_batch_ok:
  assumes t: "tables_ok db"
  shows "page_ok db v p \<Longrightarrow> \<exists>flow. join_batch db v budget p tot after batch = Inr flow \<and>
    (case flow of
       PageFull p' \<Rightarrow> page_ok db v p' \<and> pg_ops p' \<noteq> [] \<and> pg_complete p' = pg_complete p \<and>
         (\<exists>n < length batch. pg_ops p' = pg_ops p @ take n batch)
     | PageGoes p' tot' after' \<Rightarrow> page_ok db v p' \<and> pg_complete p' = pg_complete p \<and> pg_ops p' = pg_ops p @ batch)"
proof (induction batch arbitrary: p tot after)
  case (Cons fo batch)
  obtain flow where f: "join_op db v budget p tot fo = Inr flow"
    "case flow of PageFull p' \<Rightarrow> p' = p \<and> pg_ops p \<noteq> []
     | PageGoes p' tot' after' \<Rightarrow> page_ok db v p' \<and> pg_ops p' = pg_ops p @ [fo] \<and> pg_complete p' = pg_complete p"
    using join_op_ok [OF t Cons.prems] by blast
  show ?case
  proof (cases flow)
    case (PageFull p')
    then show ?thesis using f Cons.prems by (auto intro!: exI [of _ 0])
  next
    case (PageGoes p1 tot1 after1)
    then have p1: "page_ok db v p1" "pg_ops p1 = pg_ops p @ [fo]" "pg_complete p1 = pg_complete p" using f(2) by simp_all
    obtain fl where fl: "join_batch db v budget p1 tot1 after1 batch = Inr fl"
      "case fl of
       PageFull p' \<Rightarrow> page_ok db v p' \<and> pg_ops p' \<noteq> [] \<and> pg_complete p' = pg_complete p1 \<and>
         (\<exists>n < length batch. pg_ops p' = pg_ops p1 @ take n batch)
     | PageGoes p' tot' after' \<Rightarrow> page_ok db v p' \<and> pg_complete p' = pg_complete p1 \<and> pg_ops p' = pg_ops p1 @ batch"
      using Cons.IH [OF p1(1)] by blast
    have eq: "join_batch db v budget p tot after (fo # batch) = Inr fl" using f(1) PageGoes fl(1) by simp
    show ?thesis
    proof (cases fl)
      case (PageFull p2)
      then obtain n where "n < length batch" "pg_ops p2 = pg_ops p1 @ take n batch" using fl(2) by auto
      then have "Suc n < length (fo # batch) \<and> pg_ops p2 = pg_ops p @ take (Suc n) (fo # batch)" by (simp add: p1(2))
      then show ?thesis using eq fl(2) PageFull p1(3) by auto
    next
      case (PageGoes p2 tot2 after2)
      then show ?thesis using eq fl(2) p1 by auto
    qed
  qed
qed simp

lemma last_take_nth: "take m q \<noteq> [] \<Longrightarrow> last (take m q) = q ! (length (take m q) - 1)"
  by (cases "length q \<le> m") (auto simp: last_conv_nth)

lemma take_short: "n < length (take m q) \<Longrightarrow> n < length q \<and> take n (take m q) = take n q"
  by (simp add: min_def split: if_splits)

text \<open>The page after one device, by what is left of its chain.\<close>

definition flow_ok :: "vault_db \<Rightarrow> id16 \<Rightarrow> page \<Rightarrow> fetched_op list \<Rightarrow> page_flow \<Rightarrow> bool" where
  "flow_ok db v p q flow \<longleftrightarrow>
     (case flow of
        PageFull p' \<Rightarrow> page_ok db v p' \<and> pg_complete p' = pg_complete p \<and> length (pg_ops p') \<le> PAGE_MAX_OPS \<and>
          pg_ops p' \<noteq> [] \<and> (\<exists>n < length q. pg_ops p' = pg_ops p @ take n q)
      | PageGoes p' tot' after' \<Rightarrow> page_ok db v p' \<and> pg_complete p' = pg_complete p \<and>
          length (pg_ops p') \<le> PAGE_MAX_OPS \<and> pg_ops p' = pg_ops p @ q)"

lemma flow_ok_append:
  assumes "flow_ok db v p1 q flow" "pg_ops p1 = pg_ops p @ b" "pg_complete p1 = pg_complete p"
  shows "flow_ok db v p (b @ q) flow"
proof (cases flow)
  case (PageFull p')
  then obtain n where n: "n < length q" "pg_ops p' = pg_ops p1 @ take n q" using assms(1) by (auto simp: flow_ok_def)
  then have "length b + n < length (b @ q) \<and> pg_ops p' = pg_ops p @ take (length b + n) (b @ q)" by (simp add: assms(2))
  then have "\<exists>m < length (b @ q). pg_ops p' = pg_ops p @ take m (b @ q)" by blast
  then show ?thesis using assms(1,3) by (simp add: flow_ok_def PageFull del: take_append)
next
  case (PageGoes p' tot' after')
  then show ?thesis using assms by (auto simp: flow_ok_def)
qed

lemma page_device_step:
  assumes "after < dot_seq h" "PAGE_MAX_OPS - length (pg_ops p) \<noteq> 0"
    "ops_after db v (dot_device h) after (min (PAGE_MAX_OPS - length (pg_ops p)) BATCH) = Inr batch" "batch \<noteq> []"
  shows "page_device db v budget h p tot after =
    (case join_batch db v budget p tot after batch of
       Inl e \<Rightarrow> Inl e
     | Inr (PageFull p) \<Rightarrow> Inr (PageFull p)
     | Inr (PageGoes p tot after) \<Rightarrow> page_device db v budget h p tot after)"
  using assms by (subst page_device.simps) (simp add: Let_def)

lemma page_device_ok:
  assumes t: "tables_ok db" and h: "has_op db v h"
    and top': "\<And>d. has_op db v d \<Longrightarrow> dot_device d = dot_device h \<Longrightarrow> dot_seq d \<le> dot_seq h"
  shows "page_ok db v p \<Longrightarrow> length (pg_ops p) \<le> PAGE_MAX_OPS \<Longrightarrow>
    \<exists>flow. page_device db v budget h p tot after = Inr flow \<and> flow_ok db v p (chain_after db v (dot_device h) after) flow"
proof (induction "length (chain_after db v (dot_device h) after)" arbitrary: p tot after rule: less_induct)
  case less
  let ?x = "dot_device h"
  let ?q = "chain_after db v ?x after"
  show ?case
  proof (cases "after < dot_seq h")
    case False
    have "?q = []"
    proof (rule ccontr)
      assume "?q \<noteq> []"
      then obtain fo where "fo \<in> set ?q" using list.set_sel(1) by blast
      then obtain d where "has_op db v d" "dot_device d = ?x" "after < dot_seq d"
        by (auto simp: chain_after_mem has_op_def)
      then show False using top' False by (meson le_less_trans less_le_trans not_less)
    qed
    then show ?thesis using False less.prems by (simp add: page_device.simps flow_ok_def)
  next
    case True
    obtain r where "bt_get (db_ops db) (v, h) = Some r" using h by (auto simp: has_op_def)
    then have "row_op (h, r) \<in> set ?q" using True by (auto simp: chain_after_mem)
    then have ne: "?q \<noteq> []" by auto
    let ?room = "PAGE_MAX_OPS - length (pg_ops p)"
    show ?thesis
    proof (cases "?room = 0")
      case True': True
      then have "length (pg_ops p) = PAGE_MAX_OPS" using less.prems(2) by simp
      moreover have "0 < PAGE_MAX_OPS" by (simp add: PAGE_MAX_OPS_def MAX_RECORDS_def)
      ultimately have "pg_ops p \<noteq> []" by auto
      then show ?thesis using True True' less.prems ne by (simp add: page_device.simps [of db v budget h p] flow_ok_def)
    next
      case False
      let ?b = "take (min ?room BATCH) ?q"
      have b: "?b \<noteq> []" "length ?b \<le> ?room" using ne False by (simp_all add: BATCH_def)
      obtain flow where fl: "join_batch db v budget p tot after ?b = Inr flow"
        "case flow of
         PageFull p' \<Rightarrow> page_ok db v p' \<and> pg_ops p' \<noteq> [] \<and> pg_complete p' = pg_complete p \<and>
           (\<exists>n < length ?b. pg_ops p' = pg_ops p @ take n ?b)
       | PageGoes p' tot' after' \<Rightarrow> page_ok db v p' \<and> pg_complete p' = pg_complete p \<and> pg_ops p' = pg_ops p @ ?b"
        using join_batch_ok [OF t less.prems(1)] by blast
      show ?thesis
      proof (cases flow)
        case (PageFull p')
        then obtain n where n: "n < length ?b" "pg_ops p' = pg_ops p @ take n ?b" using fl(2) by auto
        then have "n < length ?q \<and> pg_ops p' = pg_ops p @ take n ?q" using take_short [OF n(1)] by simp
        moreover have "length (pg_ops p') \<le> PAGE_MAX_OPS" using n b(2) less.prems(2) by auto
        ultimately have "flow_ok db v p ?q (PageFull p')" using fl(2) PageFull by (auto simp: flow_ok_def)
        moreover have "page_device db v budget h p tot after = Inr (PageFull p')"
          using page_device_step [OF True False ops_after_eq [OF t] b(1)] fl(1) PageFull by simp
        ultimately show ?thesis by blast
      next
        case (PageGoes p1 tot1 after1)
        then have p1: "page_ok db v p1" "pg_complete p1 = pg_complete p" "pg_ops p1 = pg_ops p @ ?b" using fl(2) by simp_all
        define k where "k = length ?b - 1"
        have "0 < length ?b" using b(1) by (metis length_greater_0_conv)
        moreover have "length ?b \<le> length ?q" by simp
        ultimately have k: "k < length ?q" "Suc k = length ?b" unfolding k_def by linarith+
        have "last ?b = ?q ! k" using last_take_nth [OF b(1)] by (simp only: k_def)
        then have after1: "after1 = dot_seq (fo_dot (?q ! k))"
          using join_batch_after [OF fl(1) [unfolded PageGoes]] b(1) by (simp only: if_False)
        have rest: "chain_after db v ?x after1 = drop (length ?b) ?q"
          using chain_after_split [OF k(1)] k(2) after1 by simp
        have "length (chain_after db v ?x after1) < length ?q" unfolding rest using b(1) by simp
        moreover have "length (pg_ops p1) \<le> PAGE_MAX_OPS" using p1(3) b(2) less.prems(2) by simp
        ultimately obtain fl' where f': "page_device db v budget h p1 tot1 after1 = Inr fl'"
          "flow_ok db v p1 (drop (length ?b) ?q) fl'"
          using less.hyps [of after1 p1 tot1] p1(1) rest by auto
        have "flow_ok db v p (?b @ drop (length ?b) ?q) fl'" using flow_ok_append [OF f'(2) p1(3,2)] .
        moreover have "?b @ drop (length ?b) ?q = ?q" by (simp add: min_def)
        moreover have "page_device db v budget h p tot after = Inr fl'"
          using page_device_step [OF True False ops_after_eq [OF t] b(1)] fl(1) PageGoes f'(1) by simp
        ultimately show ?thesis by auto
      qed
    qed
  qed
qed

lemma page_ok_complete: "page_ok db v (p \<lparr> pg_complete := c \<rparr>) \<longleftrightarrow> page_ok db v p"
  by (simp add: page_ok_def)

lemma page_devices_ok:
  assumes t: "tables_ok db"
    and hs: "\<And>h. h \<in> set hs \<Longrightarrow> has_op db v h \<and>
      (\<forall>d. has_op db v d \<longrightarrow> dot_device d = dot_device h \<longrightarrow> dot_seq d \<le> dot_seq h)"
  shows "page_ok db v p \<Longrightarrow> length (pg_ops p) \<le> PAGE_MAX_OPS \<Longrightarrow> \<not> pg_complete p \<Longrightarrow>
    \<exists>p'. page_devices db v budget cursor hs p tot = Inr p' \<and> page_ok db v p' \<and> length (pg_ops p') \<le> PAGE_MAX_OPS \<and>
      (let q = concat (map (\<lambda>h. chain_after db v (dot_device h) (vv_get cursor (dot_device h))) hs)
       in if pg_complete p' then pg_ops p' = pg_ops p @ q
          else pg_ops p' \<noteq> [] \<and> (\<exists>n < length q. pg_ops p' = pg_ops p @ take n q))"
  using hs
proof (induction hs arbitrary: p tot)
  case Nil
  have "page_ok db v (p \<lparr> pg_complete := True \<rparr>)" using Nil.prems(1) by (simp only: page_ok_complete)
  then show ?case using Nil.prems by simp
next
  case (Cons h hs)
  let ?c = "chain_after db v (dot_device h) (vv_get cursor (dot_device h))"
  let ?q = "concat (map (\<lambda>h. chain_after db v (dot_device h) (vv_get cursor (dot_device h))) hs)"
  have h: "has_op db v h" "\<And>d. has_op db v d \<Longrightarrow> dot_device d = dot_device h \<Longrightarrow> dot_seq d \<le> dot_seq h"
    using Cons.prems(4) [of h] by auto
  obtain flow where f: "page_device db v budget h p tot (vv_get cursor (dot_device h)) = Inr flow" "flow_ok db v p ?c flow"
    using page_device_ok [OF t h Cons.prems(1,2)] by blast
  show ?case
  proof (cases flow)
    case (PageFull p')
    then obtain n where "n < length ?c" "pg_ops p' = pg_ops p @ take n ?c" using f(2) by (auto simp: flow_ok_def)
    then have "n < length (?c @ ?q) \<and> pg_ops p' = pg_ops p @ take n (?c @ ?q)" by simp
    then have "\<exists>n < length (?c @ ?q). pg_ops p' = pg_ops p @ take n (?c @ ?q)" by blast
    then show ?thesis using f PageFull Cons.prems(3) by (simp add: flow_ok_def Let_def del: take_append)
  next
    case (PageGoes p1 tot1 after1)
    then have p1: "page_ok db v p1" "length (pg_ops p1) \<le> PAGE_MAX_OPS" "\<not> pg_complete p1" "pg_ops p1 = pg_ops p @ ?c"
      using f(2) Cons.prems(3) by (auto simp: flow_ok_def)
    obtain p' where p': "page_devices db v budget cursor hs p1 tot1 = Inr p'" "page_ok db v p'" "length (pg_ops p') \<le> PAGE_MAX_OPS"
      "if pg_complete p' then pg_ops p' = pg_ops p1 @ ?q else pg_ops p' \<noteq> [] \<and> (\<exists>n < length ?q. pg_ops p' = pg_ops p1 @ take n ?q)"
      using Cons.IH [OF p1(1,2,3) Cons.prems(4) [OF list.set_intros(2)], of tot1] unfolding Let_def by blast
    have "if pg_complete p' then pg_ops p' = pg_ops p @ ?c @ ?q
      else pg_ops p' \<noteq> [] \<and> (\<exists>n < length (?c @ ?q). pg_ops p' = pg_ops p @ take n (?c @ ?q))"
    proof (cases "pg_complete p'")
      case False
      then obtain n where "n < length ?q" "pg_ops p' = pg_ops p1 @ take n ?q" using p'(4) by auto
      then have "length ?c + n < length (?c @ ?q) \<and> pg_ops p' = pg_ops p @ take (length ?c + n) (?c @ ?q)" by (simp add: p1(4))
      then have "\<exists>n < length (?c @ ?q). pg_ops p' = pg_ops p @ take n (?c @ ?q)" by blast
      then show ?thesis using False p'(4) by simp
    qed (use p'(4) p1(4) in simp)
    then show ?thesis using f(1) PageGoes p'(1-3) by (simp add: Let_def)
  qed
qed

section \<open>The page a client gets\<close>

text \<open>The ops the cursor does not cover, in the order of their dots.\<close>

definition missing_ops :: "vault_db \<Rightarrow> id16 \<Rightarrow> version_vector \<Rightarrow> fetched_op list" where
  "missing_ops db v cursor = map row_op (filter (\<lambda>(d, _). \<not> vv_covers cursor d) (ops_of db v))"

lemma sorted_dots_eq:
  assumes "sorted_wrt (<) (map fo_dot xs)" "sorted_wrt (<) (map fo_dot ys)" "set xs = set ys"
  shows "xs = ys"
proof -
  have "map fo_dot xs = map fo_dot ys"
    using assms by (intro strict_sorted_equal) (simp_all add: strict_sorted_iff)
  moreover have "inj_on fo_dot (set xs \<union> set ys)"
    using assms by (simp add: distinct_map [symmetric] strict_sorted_iff distinct_map)
  ultimately show ?thesis by (rule map_inj_on)
qed

lemma chains_missing:
  "concat (map (\<lambda>h. chain_after db v (dot_device h) (vv_get cursor (dot_device h))) (vv_entries (repo_heads db v))) =
   missing_ops db v cursor" (is "concat (map ?f ?hs) = _")
proof (rule sorted_dots_eq)
  have hs: "sorted_wrt (\<lambda>a b. dot_device a < dot_device b) ?hs"
    using bt_entries_ascending [of "repo_heads db v"] by (simp add: vv_entries_def sorted_wrt_map split_def)
  have dev: "dot_device (fo_dot x) = dot_device h" if "x \<in> set (?f h)" for x h
    using that by (auto simp: chain_after_mem row_op_def)
  have "sorted_wrt (<) (map fo_dot (concat (map ?f hs)))" if "sorted_wrt (\<lambda>a b. dot_device a < dot_device b) hs" for hs
    using that
  proof (induction hs)
    case (Cons h hs)
    have "fo_dot x < fo_dot y" if "x \<in> set (?f h)" "g \<in> set hs" "y \<in> set (?f g)" for x y g
      using dev [OF that(1)] dev [OF that(3)] that(2) Cons.prems by (auto simp: less_dot_iff)
    then show ?case using Cons chain_after_sorted by (auto simp: sorted_wrt_append)
  qed simp
  then show "sorted_wrt (<) (map fo_dot (concat (map ?f ?hs)))" using hs by blast
  show "sorted_wrt (<) (map fo_dot (missing_ops db v cursor))"
    using ops_of_sorted [of db v]
    by (simp add: missing_ops_def row_op_def split_def sorted_wrt_map sorted_wrt_filter)
  have entry: "\<exists>h \<in> set ?hs. dot_device h = dot_device d" if "has_op db v d" for d
  proof -
    have "vv_get (repo_heads db v) (dot_device d) \<noteq> 0"
      using heads_get [OF that] dot_seq_not_zero [of d] by auto
    then obtain h where "dot_device h = dot_device d" "dot_seq h = vv_get (repo_heads db v) (dot_device d)"
      using heads_held by blast
    then show ?thesis by (auto simp: vv_entries_iff intro!: bexI [of _ h])
  qed
  have "x \<in> set (concat (map ?f ?hs)) \<longleftrightarrow>
      (\<exists>d r. bt_get (db_ops db) (v, d) = Some r \<and> \<not> vv_covers cursor d \<and> x = row_op (d, r))" (is "_ \<longleftrightarrow> ?r") for x
  proof
    assume "x \<in> set (concat (map ?f ?hs))"
    then obtain d r where "bt_get (db_ops db) (v, d) = Some r" "vv_get cursor (dot_device d) < dot_seq d" "x = row_op (d, r)"
      by (auto simp: chain_after_mem)
    then show ?r by (metis vv_covers_def not_le)
  next
    assume ?r
    then obtain d r where d: "bt_get (db_ops db) (v, d) = Some r" "\<not> vv_covers cursor d" "x = row_op (d, r)" by blast
    then obtain h where h: "h \<in> set ?hs" "dot_device h = dot_device d" using entry [of d] by (auto simp: has_op_def)
    have "x \<in> set (?f h)" using d h(2) unfolding chain_after_mem by (auto simp: vv_covers_def not_le)
    then show "x \<in> set (concat (map ?f ?hs))" using h(1) by auto
  qed
  moreover have "x \<in> set (missing_ops db v cursor) \<longleftrightarrow>
      (\<exists>d r. bt_get (db_ops db) (v, d) = Some r \<and> \<not> vv_covers cursor d \<and> x = row_op (d, r))" for x
  proof -
    have "x \<in> set (missing_ops db v cursor) \<longleftrightarrow> (\<exists>e \<in> set (ops_of db v). \<not> vv_covers cursor (fst e) \<and> x = row_op e)"
      by (auto simp: missing_ops_def split_def)
    then show ?thesis by (simp add: Bex_def split_paired_Ex ops_of_iff)
  qed
  ultimately show "set (concat (map ?f ?hs)) = set (missing_ops db v cursor)" by blast
qed

lemma page_ops_ok:
  assumes t: "tables_ok db"
  shows "\<exists>p. page_ops db v (repo_heads db v) cursor budget = Inr p \<and> page_ok db v p \<and> length (pg_ops p) \<le> PAGE_MAX_OPS \<and>
    (if pg_complete p then pg_ops p = missing_ops db v cursor
     else pg_ops p \<noteq> [] \<and> (\<exists>n < length (missing_ops db v cursor). pg_ops p = take n (missing_ops db v cursor)))"
proof -
  let ?p = "\<lparr> pg_ops = [], pg_complete = False, pg_covers = bt_empty \<rparr>"
  have heads: "has_op db v h \<and> (\<forall>d. has_op db v d \<longrightarrow> dot_device d = dot_device h \<longrightarrow> dot_seq d \<le> dot_seq h)"
    if "h \<in> set (vv_entries (repo_heads db v))" for h
  proof -
    have h: "vv_get (repo_heads db v) (dot_device h) = dot_seq h" using that by (simp add: vv_entries_iff)
    then obtain d where "has_op db v d" "dot_device d = dot_device h" "dot_seq d = dot_seq h"
      using heads_held [of db v "dot_device h"] dot_seq_not_zero [of h] by auto
    then have "has_op db v h" by (metis dot_eq_iff)
    then show ?thesis using heads_get h by metis
  qed
  have p: "page_ok db v ?p" "length (pg_ops ?p) \<le> PAGE_MAX_OPS" "\<not> pg_complete ?p"
    by (simp_all add: page_ok_def item_headers_def)
  show ?thesis
    using page_devices_ok [OF t heads p, where budget = budget and cursor = cursor and tot = 0 and hs = "vv_entries (repo_heads db v)"]
    unfolding Let_def chains_missing page_ops_def page.select_convs append_Nil by blast
qed

lemma missing_mem:
  "fo \<in> set (missing_ops db v cursor) \<Longrightarrow> \<exists>r. bt_get (db_ops db) (v, fo_dot fo) = Some r \<and> fo = row_op (fo_dot fo, r)"
  by (auto simp: missing_ops_def ops_of_iff row_op_def)

lemma page_prefix:
  assumes "if pg_complete p then pg_ops p = xs else pg_ops p \<noteq> [] \<and> (\<exists>n < length xs. pg_ops p = take n xs)"
  shows "(pg_complete p \<longleftrightarrow> pg_ops p = xs) \<and> pg_ops p = take (length (pg_ops p)) xs \<and> (pg_ops p = [] \<longleftrightarrow> xs = [])"
proof (cases "pg_complete p")
  case False
  then obtain n where "pg_ops p \<noteq> []" "n < length xs" "pg_ops p = take n xs" using assms by auto
  then show ?thesis using False by auto
qed (use assms in simp)

text \<open>A bodiless header of the page is among its item's dots, and the item's selection leaves no
  dot uncovered.\<close>

lemma page_selection:
  assumes ok: "server_ok db" and p: "page_ok db v p" and sub: "set (pg_ops p) \<subseteq> set (missing_ops db v cursor)"
    and item: "bt_get (pg_covers p) i = Some item"
  shows "uncovered (ic_selection item) = []"
    and "d \<in> set (ic_dots item) \<Longrightarrow> \<exists>s \<in> set (ic_retained item). store_seq s \<in> set (covers (ic_selection item)) \<and> snap_covers s d"
proof -
  have io: "item_snapshots db v i = Inr (ic_retained item)"
    "select_covers (ic_retained item) (ic_dots item) = Inr (ic_selection item)"
    "ic_dots item = item_headers i (pg_ops p)"
    using page_okD(2) [OF p item] by (auto simp: item_ok_def)
  have cov: "authors_of (ic_retained item) d \<noteq> {}" if d: "d \<in> set (ic_dots item)" for d
  proof -
    obtain fo where fo: "fo \<in> set (pg_ops p)" "bodiless_op fo" "fo_item_id fo = i" "fo_dot fo = d"
      using d by (auto simp: io(3) item_headers_def)
    obtain r where r: "bt_get (db_ops db) (v, d) = Some r" "fo = row_op (d, r)"
      using missing_mem [of fo db v cursor] sub fo by auto
    then have "or_body r = None" "or_item_id r = i" using fo by (auto simp: row_op_def)
    then have "has_cover db v i d" using ok r(1) unfolding server_ok_def covered_but_def by blast
    then show ?thesis using retained_covers [OF io(1), of d] by (auto simp: authors_of_def)
  qed
  note sel = select_covers_two_authors [OF io(2)]
  have "set (uncovered (ic_selection item)) = {}" using sel cov by auto
  then show "uncovered (ic_selection item) = []" by simp
  assume d: "d \<in> set (ic_dots item)"
  have "0 < card (authors_of (ic_retained item) d)" using cov [OF d] by (simp add: card_gt_0_iff)
  then have "0 < card (authors_of (filter (\<lambda>s. store_seq s \<in> set (covers (ic_selection item))) (ic_retained item)) d)"
    using sel d by (auto simp: min_def split: if_splits)
  then have "authors_of (filter (\<lambda>s. store_seq s \<in> set (covers (ic_selection item))) (ic_retained item)) d \<noteq> {}"
    by (simp add: card_gt_0_iff)
  then show "\<exists>s \<in> set (ic_retained item). store_seq s \<in> set (covers (ic_selection item)) \<and> snap_covers s d"
    by (auto simp: authors_of_def)
qed

text \<open>C9: on every state the server reaches, building a Fetch page succeeds for any cursor and
  byte budget. The page's ops are the first ones, at most \<open>PAGE_MAX_OPS\<close>, of the ops the cursor
  does not cover, in dot order; the page is marked complete exactly when they are all of them,
  and it is empty only when nothing is missing, so a client that fetches again from its advanced
  cursor always progresses. Every op without a body in the page comes with a retained snapshot
  of its item that covers it, and no integrity error is reported.\<close>
theorem fetch_page_progress_and_covers:
  assumes "server_reachable db"
  shows "\<exists>p. page_ops db v (repo_heads db v) cursor budget = Inr p \<and> length (pg_ops p) \<le> PAGE_MAX_OPS \<and>
    pg_ops p = take (length (pg_ops p)) (missing_ops db v cursor) \<and>
    (pg_complete p \<longleftrightarrow> pg_ops p = missing_ops db v cursor) \<and>
    (pg_ops p = [] \<longleftrightarrow> missing_ops db v cursor = []) \<and>
    concat (map (item_integrity_errors v) (bt_entries (pg_covers p))) = [] \<and>
    (\<forall>fo \<in> set (pg_ops p). sd_body (fo_record fo) = None \<longrightarrow>
       (\<exists>item. bt_get (pg_covers p) (fo_item_id fo) = Some item \<and>
          item_snapshots db v (fo_item_id fo) = Inr (ic_retained item) \<and>
          (\<exists>s \<in> set (ic_retained item). store_seq s \<in> set (covers (ic_selection item)) \<and> snap_covers s (fo_dot fo))))"
proof -
  have ok: "server_ok db" using reachable_server_ok [OF assms] .
  then have t: "tables_ok db" by (simp add: server_ok_def)
  obtain p where p: "page_ops db v (repo_heads db v) cursor budget = Inr p" "page_ok db v p" "length (pg_ops p) \<le> PAGE_MAX_OPS"
    "if pg_complete p then pg_ops p = missing_ops db v cursor
     else pg_ops p \<noteq> [] \<and> (\<exists>n < length (missing_ops db v cursor). pg_ops p = take n (missing_ops db v cursor))"
    using page_ops_ok [OF t, of v cursor budget] by blast
  note pre = page_prefix [OF p(4)]
  then have sub: "set (pg_ops p) \<subseteq> set (missing_ops db v cursor)" by (metis set_take_subset)
  note sel = page_selection [OF ok p(2) sub]
  have "concat (map (item_integrity_errors v) (bt_entries (pg_covers p))) = []"
    using sel(1) by (auto simp: item_integrity_errors_def bt_entries_iff)
  moreover have "\<exists>item. bt_get (pg_covers p) (fo_item_id fo) = Some item \<and>
      item_snapshots db v (fo_item_id fo) = Inr (ic_retained item) \<and>
      (\<exists>s \<in> set (ic_retained item). store_seq s \<in> set (covers (ic_selection item)) \<and> snap_covers s (fo_dot fo))"
    if fo: "fo \<in> set (pg_ops p)" "bodiless_op fo" for fo
  proof -
    have d: "fo_dot fo \<in> set (item_headers (fo_item_id fo) (pg_ops p))" using fo by (auto simp: item_headers_def)
    then obtain item where item: "bt_get (pg_covers p) (fo_item_id fo) = Some item"
      using page_okD(1) [OF p(2), of "fo_item_id fo"] by fastforce
    then show ?thesis using page_okD(2) [OF p(2) item] sel(2) [OF item] d by (auto simp: item_ok_def)
  qed
  ultimately show ?thesis using p(1,3) pre by blast
qed

theorem fetch_page_progress_and_covers_witness:
  "\<exists>p. page_ops sample_db 7 (repo_heads sample_db 7) vv_new 1000 = Inr p \<and> length (pg_ops p) \<le> PAGE_MAX_OPS"
  using fetch_page_progress_and_covers [OF sample_reachable, of 7 vv_new 1000] by blast

end
