(* ===== verification/Server_Honest.thy ===== *)
theory Server_Honest
  imports Server_Pages
begin

text \<open>
  An honest device's upload. The op a device signs with its own key, in the order of its chain and
  at the vault's current epoch, is verified and stored: the checks of \<open>intake.rs\<close> and
  \<open>store.rs\<close> refuse nothing a correct client sends. A concrete vault and upload follow.
\<close>

section \<open>Verification\<close>

text \<open>An op record as its author makes it: the canonical header, the statement over it and the
  envelopes, signed with the device's key.\<close>

definition signed_op ::
  "crypto \<Rightarrow> signing_key \<Rightarrow> op_header \<Rightarrow> bytes \<Rightarrow> record_key_wrap option \<Rightarrow> op_record \<Rightarrow> bool" where
  "signed_op cr key h body wrap r \<longleftrightarrow>
     (\<exists>hb st. op_header_to_vec h = Inr hb \<and>
        record_statement_new cr OP_HEADER_MIN_LEN OP_HEADER_MAX_LEN hb body (map_option rk_envelope wrap) = Inr st \<and>
        sign_single cr op_statement st key = Inr (pr_statement r)) \<and>
     pr_body r = Some body \<and> pr_key_wrap r = wrap"

definition certified :: "crypto \<Rightarrow> authors \<Rightarrow> signing_key \<Rightarrow> device_id \<Rightarrow> author_certificate \<Rightarrow> bool" where
  "certified cr a key x cert \<longleftrightarrow>
     authors_by_key_id a (vk_key_id cr (sk_verifying_key cr key)) = Some cert \<and>
     ac_verifying_key cert = sk_verifying_key cr key \<and> ac_device_id cert = x"

lemma sign_single_op:
  assumes "record_ok OP_HEADER_MIN_LEN OP_HEADER_MAX_LEN st" "sign_single cr op_statement st key = Inr wire"
  obtains body where "st_encode_body op_statement st = Inr body"
    "wire = bytes_enc (u16_bytes STATEMENT_VERSION @ body) @
       container_to_bytes (sign_message cr key (signed_message (st_label op_statement) body))"
proof -
  from assms(2) obtain body where b: "st_encode_body op_statement st = Inr body"
    "encode_wire body [sign_message cr key (signed_message (st_label op_statement) body)] = Inr wire"
    by (auto simp: sign_single_def and_then_Inr split: if_splits)
  have "length body \<le> st_max_body_len op_statement" using op_form.body_fits [OF assms(1) b(1)] .
  then have "length body + 2 < 2 ^ 32" using op_form.max_fits by simp
  then show ?thesis using that b by (simp add: encode_wire_one)
qed

lemma signed_op_verifies:
  assumes cr: "crypto_laws cr" and r: "signed_op cr key h body wrap r"
    and cert: "certified cr a key (dot_device (oh_dot h)) cert" and v: "oh_vault_id h = v"
    and sql: "sql_fits (dot_seq (oh_dot h))" "sql_fits (oh_vault_prev_seq h)" "sql_fits (oh_hlc h)"
    and nz: "\<And>w. wrap = Some w \<Longrightarrow> cr_sha256 cr (rk_envelope w) \<noteq> NO_WRAP"
  shows "\<exists>vo. verify_op cr r v a True WrapRequired = Inr vo \<and> vo_header vo = h \<and> vo_author vo = cert"
proof -
  obtain hb st where st: "op_header_to_vec h = Inr hb"
    "record_statement_new cr OP_HEADER_MIN_LEN OP_HEADER_MAX_LEN hb body (map_option rk_envelope wrap) = Inr st"
    "sign_single cr op_statement st key = Inr (pr_statement r)" "pr_body r = Some body" "pr_key_wrap r = wrap"
    using r by (auto simp: signed_op_def)
  have hash: "length (cr_sha256 cr m) = 32" for m using cr by (simp add: crypto_laws_def)
  have stf: "rs_header st = hb" "rs_envelope_hash st = cr_sha256 cr body"
    "rs_wrap_hash st = map_option (cr_sha256 cr \<circ> rk_envelope) wrap"
    "OP_HEADER_MIN_LEN \<le> length hb" "length hb \<le> OP_HEADER_MAX_LEN"
    using st(2) by (auto simp: record_statement_new_def option.map_comp split: if_splits)
  have ok: "record_ok OP_HEADER_MIN_LEN OP_HEADER_MAX_LEN st"
    using stf nz hash by (auto simp: record_ok_def wrap_hash_bytes_def NO_WRAP_def HASH_LEN_def split: option.splits)
  obtain b where b: "st_encode_body op_statement st = Inr b"
    "pr_statement r = bytes_enc (u16_bytes STATEMENT_VERSION @ b) @
       container_to_bytes (sign_message cr key (signed_message (st_label op_statement) b))" (is "_ = ?pre @ container_to_bytes ?c")
    using sign_single_op [OF ok st(3)] by blast
  have c: "length (sc_signature ?c) = 64" "sc_signer ?c = vk_key_id cr (sk_verifying_key cr key)"
    using cr by (simp_all add: sign_message_def crypto_laws_def)
  have len: "length (container_to_bytes ?c) = CONTAINER_LEN"
    by (simp add: length_container c(1) CONTAINER_LEN_def SIGNATURE_LEN_def)
  have find: "find_signer (pr_statement r) a = Inr (cert, container_to_bytes ?c)"
  proof -
    have "drop (length (pr_statement r) - CONTAINER_LEN) (pr_statement r) = container_to_bytes ?c"
      by (simp add: b(2) len)
    moreover have "container_from_bytes (container_to_bytes ?c) = Inr ?c" by (simp add: container_one_encoding c(1))
    moreover have "\<not> length (pr_statement r) < CONTAINER_LEN" by (simp add: b(2) len)
    ultimately show ?thesis using cert c(2) by (simp add: find_signer_def certified_def ok_or_def)
  qed
  have key: "ac_verifying_key cert = sk_verifying_key cr key" "ac_device_id cert = dot_device (oh_dot h)"
    using cert by (simp_all add: certified_def)
  obtain wire where w: "sign_single cr op_statement st key = Inr wire"
    "verify_single cr op_statement wire (sk_verifying_key cr key) =
      Inr (verified_new cr st (signed_message (st_label op_statement) b))"
    using op_form.sign_verify [OF cr ok b(1)] by blast
  then have ver: "verify_single cr op_statement (pr_statement r) (ac_verifying_key cert) =
      Inr (verified_new cr st (signed_message (st_label op_statement) b))" using st(3) key by simp
  have parse: "op_header_parse hb = Inr h" using st(1)
    by (auto simp: op_header_parse_def and_then_Inr op_header_read_Inr op_header_to_vec_def op_header_encode_bytes split: if_splits)
  let ?kw = "map_option (\<lambda>w. \<lparr> cw_item_key_id = rk_item_key_id w, cw_envelope = rk_envelope w \<rparr>) wrap"
  let ?vo = "\<lparr> vo_header = h, vo_signed = parts_of st (container_to_bytes ?c), vo_body = Some body,
      vo_key_wrap = ?kw, vo_author = cert \<rparr>"
  have wire: "signed_wire (parts_of st (container_to_bytes ?c)) = Inr (pr_statement r)"
    using rebuilt_statement(1) [OF find ver [unfolded op_statement_def] op_bound] by simp
  have "carried_body cr st (pr_body r) True = Inr (Some body)"
    by (simp add: carried_body_def st(4) matches_envelope_def stf(2))
  moreover have "carry_wrap (pr_key_wrap r) (rs_wrap_hash st \<noteq> None) (matches_wrap cr st) WrapRequired = Inr ?kw"
    by (cases wrap) (simp_all add: carry_wrap_def st(5) matches_wrap_def stf(3))
  ultimately have "verify_op cr r v a True WrapRequired = Inr ?vo"
    unfolding verify_op_iff using find ver parse key v sql wire stf(1)
    by (intro exI [of _ "container_to_bytes ?c"] exI [of _ "verified_new cr st (signed_message (st_label op_statement) b)"]) simp
  then show ?thesis by auto
qed

section \<open>Storing\<close>

text \<open>What the store rules ask of a new op: an active author whose certificate covers the time of
  the op, the device's next link, a dot the table does not hold, and the current epoch.\<close>

definition next_op :: "vault_db \<Rightarrow> session \<Rightarrow> op_header \<Rightarrow> author_certificate \<Rightarrow> bool" where
  "next_op db ss h cert \<longleftrightarrow>
     ac_status cert = Active \<and> ac_permits_hlc cert (oh_hlc h) \<and>
     oh_vault_prev_seq h < dot_seq (oh_dot h) \<and>
     oh_vault_prev_seq h = vv_get (ss_heads ss) (dot_device (oh_dot h)) \<and>
     \<not> has_op db (ss_vault_id ss) (oh_dot h) \<and> vr_vault_key_epoch (ss_vault ss) \<le> oh_vault_key_epoch h"

lemma next_op_stored:
  assumes vo: "verify_op cr r (ss_vault_id ss) (ss_authors ss) True WrapRequired = Inr vo"
    and n: "next_op db ss (vo_header vo) (vo_author vo)"
  shows "\<exists>db' ss'. upload_op cr db ss r = Inr (Inr Stored, db', ss') \<and> store_op db ss vo = Inr (db', ss')"
proof -
  note f = verify_op_facts [OF vo]
  have none: "bt_get (db_ops db) (ss_vault_id ss, oh_dot (vo_header vo)) = None" using n by (simp add: next_op_def has_op_def)
  then have "existing_op db ss vo = Inr New" using f(6) by (simp add: existing_op_def get_op_def u64_to_sql_def)
  moreover have "op_author_allows vo" using n by (simp add: op_author_allows_def next_op_def)
  moreover have "chain_check ss vo = Inr ()" using n unfolding chain_check_Inr next_op_def by blast
  moreover have "\<exists>x. store_op db ss vo = Inr x"
    using none f(6-8) by (simp add: store_op_def insert_op_def u64_to_sql_def Let_def)
  ultimately show ?thesis using vo n by (auto simp: upload_op_def next_op_def)
qed

lemma stored_heads:
  assumes "store_op db ss vo = Inr (db', ss')"
  shows "ss_heads ss' = vv_add (oh_dot (vo_header vo)) (ss_heads ss)"
    "has_op db' (ss_vault_id ss) (oh_dot (vo_header vo))"
  using store_op_Inr [OF assms] by (metis session.select_convs(3) session.surjective session.update_convs(3),
    metis bt_get_insert has_op_def option.distinct(1))

section \<open>A vault and its first op\<close>

definition sample_key :: signing_key where
  "sample_key = \<lparr> sk_role = DeviceEd25519, sk_seed = [] \<rparr>"

definition sample_cert :: author_certificate where
  "sample_cert = \<lparr> ac_device_id = 5, ac_verifying_key = sk_verifying_key sample_crypto sample_key,
     ac_device_kind = DesktopCli, ac_expires_at_ms = 0, ac_status = Active \<rparr>"

definition sample_authors :: authors where
  "sample_authors = \<lparr> au_by_device = bt_insert 5 sample_cert bt_empty,
     au_by_key = bt_insert (vk_key_id sample_crypto (sk_verifying_key sample_crypto sample_key)) 5 bt_empty \<rparr>"

definition sample_directory :: device_directory where
  "sample_directory = \<lparr> dd_authors = (\<lambda>_. Inr sample_authors), dd_account_key = (\<lambda>_. Inr None) \<rparr>"

definition sample_header :: op_header where
  "sample_header = \<lparr> oh_vault_id = 7, oh_item_id = 11, oh_op_id = 12, oh_dot = Dot 5 (nz_of 1), oh_vault_prev_seq = 0,
     oh_hlc = 0, oh_item_schema_version = isv_v1, oh_vault_key_epoch = 0, oh_causal_context = vv_new \<rparr>"

definition sample_session :: session where
  "sample_session = \<lparr> ss_vault_id = 7,
     ss_vault = \<lparr> vr_account_id = 3, vr_vault_key_epoch = 0, vr_next_store_seq = 1, vr_created_at_ms = 5 \<rparr>,
     ss_heads = repo_heads sample_db 7, ss_authors = sample_authors, ss_now_ms = 6, ss_now_sql = 6, ss_queued = bt_empty \<rparr>"

lemma sample_certified: "certified sample_crypto sample_authors sample_key 5 sample_cert"
  by (simp add: certified_def authors_by_key_id_def sample_authors_def sample_cert_def)

lemma sample_dot_seq: "dot_seq (Dot 5 (nz_of 1)) = 1"
  by (simp add: dot_seq_def nz_of_inverse)

lemma sample_no_ops: "\<not> has_op sample_db v d"
  by (simp add: has_op_def sample_db_def empty_db_def)

lemma sample_heads: "repo_heads sample_db 7 = vv_new"
  by (rule vv_ext_covers) (simp add: repo_heads_covers sample_no_ops)

lemma sample_next: "next_op sample_db sample_session sample_header sample_cert"
  by (simp add: next_op_def sample_session_def sample_header_def sample_cert_def ac_permits_hlc_def sample_heads
      sample_dot_seq sample_no_ops)

lemma sample_signed: "\<exists>r. signed_op sample_crypto sample_key sample_header [1, 2] None r"
proof -
  let ?hb = "op_header_bytes sample_header"
  have vec: "op_header_to_vec sample_header = Inr ?hb"
    by (simp add: op_header_to_vec_def op_header_encode_bytes sample_header_def vv_len_def vv_new_def VV_MAX_ENTRIES_def
        bt_len_def bt_empty.rep_eq)
  have len: "length ?hb = 97"
    by (simp add: op_header_bytes_def sample_header_def length_vv_bytes vv_len_def vv_new_def bt_len_def bt_empty.rep_eq)
  let ?st = "\<lparr> rs_header = ?hb, rs_envelope_hash = cr_sha256 sample_crypto [1, 2], rs_wrap_hash = None \<rparr>"
  have st: "record_statement_new sample_crypto OP_HEADER_MIN_LEN OP_HEADER_MAX_LEN ?hb [1, 2] None = Inr ?st"
    by (simp add: record_statement_new_def len OP_HEADER_MIN_LEN_def OP_HEADER_MAX_LEN_def)
  have ok: "record_ok OP_HEADER_MIN_LEN OP_HEADER_MAX_LEN ?st"
    by (simp add: record_ok_def len wrap_hash_bytes_def NO_WRAP_def HASH_LEN_def OP_HEADER_MIN_LEN_def OP_HEADER_MAX_LEN_def
        sample_crypto_def)
  have "st_encode_body op_statement ?st = Inr (bytes_enc ?hb @ rs_envelope_hash ?st @ wrap_hash_bytes ?st)"
    by (simp add: op_statement_def record_statement_type_def record_encode_Inr len)
  then obtain wire where "sign_single sample_crypto op_statement ?st sample_key = Inr wire"
    using op_form.sign_verify [OF sample_crypto_laws ok] by blast
  then show ?thesis
    using vec st by (intro exI [of _ "\<lparr> pr_statement = wire, pr_body = Some [1, 2], pr_key_wrap = None \<rparr>"]) (auto simp: signed_op_def)
qed

lemma sample_verified:
  assumes "signed_op sample_crypto sample_key sample_header [1, 2] None r"
  shows "\<exists>vo. verify_op sample_crypto r 7 sample_authors True WrapRequired = Inr vo \<and> vo_header vo = sample_header \<and> vo_author vo = sample_cert"
  using sample_certified
  by (intro signed_op_verifies [OF sample_crypto_laws assms]) (auto simp: sample_header_def sample_dot_seq sql_fits_def)

lemma sample_opened: "open_session sample_db sample_directory 3 7 6 = Inr sample_session"
proof -
  have "vault_of_account sample_db 3 7 =
      Some \<lparr> vr_account_id = 3, vr_vault_key_epoch = 0, vr_next_store_seq = 1, vr_created_at_ms = 5 \<rparr>"
    by (simp add: vault_of_account_def repo_vault_def sample_db_def)
  then show ?thesis
    by (simp add: open_session_def sample_directory_def to_sql_time_def u64_to_sql_def sql_fits_def sample_session_def ok_or_def)
qed

section \<open>Property\<close>

text \<open>C12: the server refuses nothing an honest device sends. An op signed with the key of a
  certified, active device, in its vault, as the device's next link, at the vault's current epoch
  or above, with numbers an SQL column holds, is answered \<open>Stored\<close>; the table then holds it and
  the device's head is the op.\<close>
theorem honest_op_stored:
  assumes "crypto_laws cr" and "signed_op cr key h body wrap r"
    and "certified cr (ss_authors ss) key (dot_device (oh_dot h)) cert" and "oh_vault_id h = ss_vault_id ss"
    and "sql_fits (dot_seq (oh_dot h))" and "sql_fits (oh_vault_prev_seq h)" and "sql_fits (oh_hlc h)"
    and "\<And>w. wrap = Some w \<Longrightarrow> cr_sha256 cr (rk_envelope w) \<noteq> NO_WRAP"
    and "next_op db ss h cert"
  shows "\<exists>db' ss'. upload_op cr db ss r = Inr (Inr Stored, db', ss') \<and> has_op db' (ss_vault_id ss) (oh_dot h) \<and>
    ss_heads ss' = vv_add (oh_dot h) (ss_heads ss)"
proof -
  obtain vo where vo: "verify_op cr r (ss_vault_id ss) (ss_authors ss) True WrapRequired = Inr vo" "vo_header vo = h" "vo_author vo = cert"
    using signed_op_verifies [OF assms(1,2,3,4,5,6,7)] assms(8) by blast
  obtain db' ss' where "upload_op cr db ss r = Inr (Inr Stored, db', ss')" "store_op db ss vo = Inr (db', ss')"
    using next_op_stored [OF vo(1)] assms(9) vo(2,3) by blast
  then show ?thesis using stored_heads [of db ss vo db' ss'] vo(2) by auto
qed

theorem honest_op_stored_witness:
  "\<exists>r db' ss'. signed_op sample_crypto sample_key sample_header [1, 2] None r \<and>
     upload_op sample_crypto sample_db sample_session r = Inr (Inr Stored, db', ss') \<and>
     has_op db' 7 (Dot 5 (nz_of 1))"
proof -
  obtain r where r: "signed_op sample_crypto sample_key sample_header [1, 2] None r" using sample_signed by blast
  have "\<exists>db' ss'. upload_op sample_crypto sample_db sample_session r = Inr (Inr Stored, db', ss') \<and>
      has_op db' (ss_vault_id sample_session) (oh_dot sample_header) \<and>
      ss_heads ss' = vv_add (oh_dot sample_header) (ss_heads sample_session)"
    by (rule honest_op_stored [OF sample_crypto_laws r])
       (use sample_certified sample_next in \<open>auto simp: sample_session_def sample_header_def sample_dot_seq sql_fits_def\<close>)
  then show ?thesis using r by (auto simp: sample_session_def sample_header_def)
qed

end
