(* ===== verification/Server_Retries.thy ===== *)
theory Server_Retries
  imports Server_Honest
begin

text \<open>
  What an answer of the server is worth later. A stored op keeps its signed columns through every
  later call, an upload stores nothing after its first rejected record, and a record that was
  accepted once is answered \<open>AlreadyStored\<close> on every retry.
\<close>

section \<open>Stored ops stay\<close>

definition op_kept :: "op_row \<Rightarrow> op_row \<Rightarrow> bool" where
  "op_kept r r' \<longleftrightarrow> same_op r r' \<and> (or_body r' = or_body r \<or> or_body r' = None)"

definition keeps_ops :: "vault_db \<Rightarrow> vault_db \<Rightarrow> bool" where
  "keeps_ops db db' \<longleftrightarrow>
     (\<forall>k r. bt_get (db_ops db) k = Some r \<longrightarrow> (\<exists>r'. bt_get (db_ops db') k = Some r' \<and> op_kept r r'))"

lemma op_kept_refl [simp]: "op_kept r r"
  by (simp add: op_kept_def same_op_def)

lemma op_kept_trans: "op_kept a b \<Longrightarrow> op_kept b c \<Longrightarrow> op_kept a c"
  by (auto simp: op_kept_def same_op_def)

lemma keeps_same: "db_ops db' = db_ops db \<Longrightarrow> keeps_ops db db'"
  by (simp add: keeps_ops_def)

lemma keeps_ops_trans: "keeps_ops a b \<Longrightarrow> keeps_ops b c \<Longrightarrow> keeps_ops a c"
  unfolding keeps_ops_def using op_kept_trans by blast

lemma keeps_rewrapped:
  assumes "rewrapped db db'"
  shows "keeps_ops db db'"
  unfolding keeps_ops_def
proof (intro allI impI)
  fix k r assume r: "bt_get (db_ops db) k = Some r"
  have "rel_option (\<lambda>r r'. same_op r r' \<and> or_body r' = or_body r) (bt_get (db_ops db) k) (bt_get (db_ops db') k)"
    using assms unfolding rewrapped_def by blast
  then show "\<exists>r'. bt_get (db_ops db') k = Some r' \<and> op_kept r r'"
    using r by (auto simp: rel_option_iff op_kept_def split: option.splits)
qed

lemma keeps_store_op:
  assumes "store_op db ss vo = Inr (db', ss')"
  shows "keeps_ops db db'"
  using store_op_Inr [OF assms] unfolding keeps_ops_def by (metis bt_get_insert op_kept_refl option.distinct(1))

lemma keeps_store_snapshot:
  assumes "store_snapshot db ss vs = Inr (db', ss')" "session_ok db ss"
  shows "keeps_ops db db'"
  using store_snapshot_Inr [OF assms] keeps_same by metis

lemma keeps_compact:
  assumes "server_ok db" "compact_item db v i = Inr (report, db')"
  shows "keeps_ops db db'"
proof (cases "repo_vault db v")
  case None
  then show ?thesis using assms(2) by (auto simp: compact_item_def dequeue_def intro: keeps_same)
next
  case (Some vr)
  obtain ds sqs db1 db2 where c: "delete_bodies_of db v i ds = Inr db1" "delete_snapshots_of db1 v i sqs = Inr db2"
    "db' = dequeue db2 v i"
    using compact_item_Inr [OF assms(1) Some, of i] assms(2) by (metis Pair_inject sum.inject(2))
  have "db_ops db' = db_ops db1" using delete_snapshots_Inr [OF c(2)] by (simp add: c(3) dequeue_def)
  then show ?thesis
    unfolding keeps_ops_def using delete_bodies_Inr [OF c(1)]
    by (auto simp: op_kept_def same_op_def)
qed

lemma keeps_compact_queued: "server_ok db \<Longrightarrow> keeps_ops db (snd (compact_queued db qs run))"
proof (induction qs arbitrary: db run)
  case (Cons q qs)
  obtain v i where q: "q = (v, i)" by (cases q)
  obtain report db1 where c: "compact_item db v i = Inr (report, db1)" "server_ok db1"
    using compact_item_ok [OF Cons.prems] by blast
  show ?case using keeps_compact [OF Cons.prems c(1)] Cons.IH [OF c(2)] keeps_ops_trans c(1) by (simp add: q)
qed (simp add: keeps_same)

section \<open>Uploads\<close>

lemma keeps_upload_record:
  assumes "upload_record cr db ss r = Inr (out, db', ss')" "session_ok db ss"
  shows "keeps_ops db db' \<and> ss_vault_id ss' = ss_vault_id ss \<and> ss_authors ss' = ss_authors ss"
proof (cases "db' = db \<and> ss' = ss")
  case False
  show ?thesis
  proof (cases r)
    case (ROp r)
    then obtain vo where vo: "store_op db ss vo = Inr (db', ss')"
      using assms(1) False by (auto simp: upload_op_def and_then_Inr existing_case_eq split: sum.split_asm if_splits)
    then have "ss_vault_id ss' = ss_vault_id ss \<and> ss_authors ss' = ss_authors ss"
      by (auto simp: store_op_def and_then_Inr Let_def)
    then show ?thesis using keeps_store_op [OF vo] by simp
  next
    case (RSnapshot r)
    then obtain vs where vs: "store_snapshot db ss vs = Inr (db', ss')"
      using assms(1) False by (auto simp: upload_snapshot_def and_then_Inr existing_case_eq split: sum.split_asm if_splits)
    then have "ss_vault_id ss' = ss_vault_id ss \<and> ss_authors ss' = ss_authors ss"
      by (auto simp: store_snapshot_def and_then_Inr Let_def)
    then show ?thesis using keeps_store_snapshot [OF vs assms(2)] by simp
  qed
qed (simp add: keeps_same)

lemma keeps_upload_records:
  "upload_records cr db ss rejected rs = Inr (results, db', ss') \<Longrightarrow> server_ok db \<Longrightarrow> session_ok db ss \<Longrightarrow> keeps_ops db db'"
proof (induction rs arbitrary: db ss rejected results)
  case (Cons r rs)
  show ?case
  proof (cases rejected)
    case True
    with Cons.prems(1) obtain res where "upload_records cr db ss True rs = Inr (res, db', ss')"
      by (auto simp: and_then_Inr)
    then show ?thesis using Cons.IH Cons.prems(2,3) by blast
  next
    case False
    with Cons.prems(1) obtain out db1 ss1 rej res where u: "upload_record cr db ss r = Inr (out, db1, ss1)"
      "upload_records cr db1 ss1 rej rs = Inr (res, db', ss')"
      by (cases "upload_record cr db ss r") (auto simp: Let_def and_then_Inr split: sum.split_asm)
    then show ?thesis
      using Cons.IH [OF u(2)] upload_record_ok [OF u(1) Cons.prems(2,3)] keeps_upload_record [OF u(1) Cons.prems(3)]
        keeps_ops_trans by blast
  qed
qed (simp add: keeps_same)

lemma keeps_upload:
  assumes "server_ok db"
  shows "keeps_ops db (snd (upload cr dir db account request now_ms))"
proof (cases "snd (upload cr dir db account request now_ms) = db")
  case False
  then obtain ss results ss' where "open_session db dir account (ur_vault_id request) now_ms = Inr ss"
    "upload_records cr db ss False (ur_records request) = Inr (results, snd (upload cr dir db account request now_ms), ss')"
    by (auto simp: upload_def and_then_Inr split: sum.splits)
  then show ?thesis using keeps_upload_records open_session_ok assms by blast
qed (simp add: keeps_same)

section \<open>Healing and the rest\<close>

lemma keeps_heal_ops: "heal_ops cr db ss rs m = Inr (Inr (db', ss', m')) \<Longrightarrow> keeps_ops db db'"
proof (induction rs arbitrary: db ss m)
  case (Cons x rs)
  show ?case
  proof (cases x)
    case (ROp r)
    show ?thesis
    proof (cases "heal_ops cr db ss rs m = Inr (Inr (db', ss', m'))")
      case False
      then obtain vo db1 ss1 m1 where "store_op db ss vo = Inr (db1, ss1)" "heal_ops cr db1 ss1 rs m1 = Inr (Inr (db', ss', m'))"
        using Cons.prems ROp by (auto simp: and_then_Inr existing_case_eq split: sum.split_asm if_splits)
      then show ?thesis using Cons.IH keeps_store_op keeps_ops_trans by blast
    qed (use Cons.IH in blast)
  qed (use Cons in simp)
qed (simp add: keeps_same)

lemma keeps_heal_snapshots:
  "heal_snapshots cr db ss rs = Inr (Inr (db', ss')) \<Longrightarrow> tables_ok db \<Longrightarrow> session_ok db ss \<Longrightarrow> covered_but B db \<Longrightarrow> keeps_ops db db'"
proof (induction rs arbitrary: db ss)
  case (Cons x rs)
  show ?case
  proof (cases x)
    case (RSnapshot r)
    show ?thesis
    proof (cases "heal_snapshots cr db ss rs = Inr (Inr (db', ss'))")
      case False
      then obtain vs db1 ss1 where s: "store_snapshot db ss vs = Inr (db1, ss1)" "heal_snapshots cr db1 ss1 rs = Inr (Inr (db', ss'))"
        using Cons.prems(1) RSnapshot by (auto simp: and_then_Inr existing_case_eq split: sum.split_asm if_splits)
      note ok = store_snapshot_ok [OF s(1) Cons.prems(2-4)]
      then show ?thesis using Cons.IH [OF s(2)] keeps_store_snapshot [OF s(1) Cons.prems(3)] keeps_ops_trans by blast
    qed (use Cons in blast)
  qed (use Cons in simp)
qed (simp add: keeps_same)

lemma keeps_heal:
  assumes "server_ok db"
  shows "keeps_ops db (snd (heal cr dir db account healer request now_ms))" (is "keeps_ops db ?db'")
proof (cases "?db' = db")
  case False
  then obtain ss ss' where o: "open_session db dir account (hq_vault_id request) now_ms = Inr ss"
    "heal_outcome cr dir db account healer request ss = Inr (Inr (?db', ss'))"
    by (auto simp: heal_def and_then_Inr split: sum.splits)
  have so: "session_ok db ss" using open_session_ok [OF o(1)] by simp
  show ?thesis
  proof (cases "hq_self_grant request")
    case None
    let ?db = "heal_wrap_rows db ss (hq_item_key_wraps request)"
    note same = same_tables_ok [OF heal_wrap_rows_same [of db ss "hq_item_key_wraps request"]]
    obtain db1 ss1 m where h: "heal_ops cr ?db ss (hq_records request) bt_empty = Inr (Inr (db1, ss1, m))"
      "heal_snapshots cr db1 ss1 (hq_records request) = Inr (Inr (?db', ss'))"
      using o(2) None by (auto simp: heal_outcome_def heal_in_def Let_def and_then_Inr refusal_case_Inr)
    have "keeps_ops db ?db" using heal_wrap_rows_same by (auto simp: same_tables_def intro: keeps_same)
    moreover have "tables_ok db1 \<and> session_ok db1 ss1 \<and> covered_but (pending_covers (ss_vault_id ss) m) db1"
      using heal_ops_ok [OF h(1)] assms so by (simp add: server_ok_def same pending_covers_def)
    ultimately show ?thesis
      using keeps_heal_ops [OF h(1)] keeps_heal_snapshots [OF h(2)] keeps_ops_trans by blast
  next
    case (Some grant)
    then obtain key out where "heal_self_grant db ss healer key grant request = Inr (out, ?db')"
      using o(2) by (auto simp: heal_outcome_def and_then_Inr refusal_case_eq)
    then show ?thesis using keeps_rewrapped rewrapped_heal_self_grant by blast
  qed
qed (simp add: keeps_same)

lemma keeps_step: "server_step db db' \<Longrightarrow> server_ok db \<Longrightarrow> keeps_ops db db'"
proof (induction rule: server_step.induct)
  case (step_create db account grant now_ms db')
  then have "db_ops db' = db_ops db"
    by (auto simp: create_vault_def and_then_Inr insert_vault_def write_self_grant_def Let_def split: if_splits)
  then show ?case by (rule keeps_same)
next
  case (step_rotate db account epoch key entries now_ms db')
  then show ?case by (auto simp: apply_rotation_def and_then_Inr Let_def intro: keeps_rewrapped rewrapped_write_vaults split: if_splits)
next
  case (step_compact db n)
  then show ?case by (simp add: run_compaction_def keeps_compact_queued)
qed (simp_all add: keeps_upload keeps_heal)

lemma steps_ok: "server_step\<^sup>*\<^sup>* db db' \<Longrightarrow> server_ok db \<Longrightarrow> server_ok db' \<and> keeps_ops db db'"
  by (induction rule: rtranclp_induct) (auto simp: keeps_same intro: server_step_ok keeps_step keeps_ops_trans)

section \<open>Accepted records\<close>

text \<open>The row of an op that verifies: its signed columns, and its body and wrap unless they were
  deleted since.\<close>

definition row_matches :: "op_row \<Rightarrow> verified_op \<Rightarrow> bool" where
  "row_matches r vo \<longleftrightarrow>
     or_header r = sg_header (vo_signed vo) \<and> or_body_hash r = sg_envelope_hash (vo_signed vo) \<and>
     or_wrap_hash r = sg_wrap_hash (vo_signed vo) \<and> or_signature r = sg_container (vo_signed vo) \<and>
     agree (or_body r) (vo_body vo) \<and> agree (or_key_wrap r) (map_option cw_envelope (vo_key_wrap vo))"

definition accepted :: "crypto \<Rightarrow> id16 \<Rightarrow> authors \<Rightarrow> vault_db \<Rightarrow> op_record \<Rightarrow> bool" where
  "accepted cr v a db r \<longleftrightarrow>
     (\<exists>vo row. verify_op cr r v a True WrapRequired = Inr vo \<and>
        bt_get (db_ops db) (v, oh_dot (vo_header vo)) = Some row \<and> row_matches row vo)"

lemma agree_simps [simp]: "agree None y" "agree x None" "agree x x"
  by (auto simp: agree_def split: option.splits)

lemma accepted_kept:
  assumes "accepted cr v a db r" "keeps_ops db db'"
  shows "accepted cr v a db' r"
proof -
  obtain vo row where a: "verify_op cr r v a True WrapRequired = Inr vo"
    "bt_get (db_ops db) (v, oh_dot (vo_header vo)) = Some row" "row_matches row vo"
    using assms(1) by (auto simp: accepted_def)
  then obtain row' where "bt_get (db_ops db') (v, oh_dot (vo_header vo)) = Some row'" "op_kept row row'"
    using assms(2) unfolding keeps_ops_def by blast
  moreover from this(2) a(3) have "row_matches row' vo" by (auto simp: op_kept_def same_op_def row_matches_def)
  ultimately show ?thesis using a(1) by (auto simp: accepted_def)
qed

lemma existing_row:
  assumes "verify_op cr r v a req rule = Inr vo" "v = ss_vault_id ss"
  shows "existing_op db ss vo = Inr Same \<longleftrightarrow>
    (\<exists>row. bt_get (db_ops db) (v, oh_dot (vo_header vo)) = Some row \<and> row_matches row vo)"
proof -
  have c: "op_columns_ok vo" using verified_columns [OF assms(1)] .
  have "same_record \<lparr> sd_signed = \<lparr> sg_header = h, sg_envelope_hash = e, sg_wrap_hash = w, sg_container = k \<rparr>,
      sd_body = b, sd_key_wrap = kw \<rparr> (vo_signed vo) (vo_body vo) (map_option cw_envelope (vo_key_wrap vo)) \<longleftrightarrow>
    h = sg_header (vo_signed vo) \<and> e = sg_envelope_hash (vo_signed vo) \<and> w = sg_wrap_hash (vo_signed vo) \<and>
    k = sg_container (vo_signed vo) \<and> agree b (vo_body vo) \<and> agree kw (map_option cw_envelope (vo_key_wrap vo))" for h e w k b kw
    by (cases "vo_signed vo") (auto simp: same_record_def)
  then show ?thesis
    using c
    by (cases "bt_get (db_ops db) (v, oh_dot (vo_header vo))")
      (auto simp: existing_op_def get_op_def u64_to_sql_def stored_op_def hash32_def container_column_def and_then_Inr
        op_columns_ok_def row_matches_def assms(2) split: if_splits)
qed

lemma accepted_retry:
  assumes "accepted cr v a db r" "ss_vault_id ss = v" "ss_authors ss = a"
  shows "upload_op cr db ss r = Inr (Inr AlreadyStored, db, ss)"
proof -
  obtain vo row where vo: "verify_op cr r v a True WrapRequired = Inr vo"
    "bt_get (db_ops db) (v, oh_dot (vo_header vo)) = Some row" "row_matches row vo"
    using assms(1) by (auto simp: accepted_def)
  have "existing_op db ss vo = Inr Same" using existing_row [OF vo(1), of ss db] vo(2,3) assms(2) by blast
  then show ?thesis using vo(1) assms(2,3) by (simp add: upload_op_def)
qed

lemma upload_op_accepted:
  assumes "upload_op cr db ss r = Inr (Inr x, db', ss')"
  shows "accepted cr (ss_vault_id ss) (ss_authors ss) db' r"
proof -
  obtain vo ex where vo: "verify_op cr r (ss_vault_id ss) (ss_authors ss) True WrapRequired = Inr vo"
    "existing_op db ss vo = Inr ex" and c: "ex = Same \<and> db' = db \<or> ex = New \<and> store_op db ss vo = Inr (db', ss')"
    using assms by (auto simp: upload_op_def and_then_Inr existing_case_eq split: sum.split_asm if_splits)
  from c show ?thesis
  proof
    assume "ex = Same \<and> db' = db"
    then show ?thesis using vo existing_row [OF vo(1) refl, of db] by (auto simp: accepted_def)
  next
    assume n: "ex = New \<and> store_op db ss vo = Inr (db', ss')"
    define vo' where "vo' = (if vo_key_wrap vo \<noteq> None \<and> \<not> current_wrap ss (oh_vault_key_epoch (vo_header vo))
                then vo \<lparr> vo_key_wrap := None \<rparr> else vo)"
    have same: "vo_header vo' = vo_header vo" "vo_signed vo' = vo_signed vo" "vo_body vo' = vo_body vo"
      "vo_key_wrap vo' = vo_key_wrap vo \<or> vo_key_wrap vo' = None" by (simp_all add: vo'_def)
    obtain db1 where ins: "insert_op db (ss_vault_id ss) vo' (ss_now_sql ss) = Inr db1" "db_ops db' = db_ops db1"
      using n fill_wrap_same unfolding store_op_def Let_def vo'_def [symmetric]
      by (auto simp: and_then_Inr same_tables_def)
    then obtain row where row: "bt_get (db_ops db') (ss_vault_id ss, oh_dot (vo_header vo)) = Some row" "row_matches row vo'"
      "or_key_wrap row = map_option cw_envelope (vo_key_wrap vo')"
      by (auto simp: insert_op_def and_then_Inr Let_def same row_matches_def split: if_splits)
    have "row_matches row vo" using row(2,3) same by (auto simp: row_matches_def)
    then show ?thesis using vo(1) row(1) by (auto simp: accepted_def)
  qed
qed

lemma rejected_rest:
  "upload_records cr db ss True rs = Inr (results, db', ss') \<longleftrightarrow> results = replicate (length rs) NotProcessed \<and> db' = db \<and> ss' = ss"
  by (induction rs arbitrary: results) (auto simp: and_then_Inr)

text \<open>One step of the loop.\<close>

lemma upload_records_Cons:
  "upload_records cr db ss False (r # rs) = Inr (results, db', ss') \<longleftrightarrow>
     (\<exists>refusal. upload_record cr db ss r = Inr (Inl refusal, db', ss') \<and>
        results = Rejected (refusal_code refusal) # replicate (length rs) NotProcessed) \<or>
     (\<exists>x db1 ss1 res. upload_record cr db ss r = Inr (Inr x, db1, ss1) \<and>
        upload_records cr db1 ss1 False rs = Inr (res, db', ss') \<and> results = x # res)" (is "?l \<longleftrightarrow> ?r")
proof (cases "upload_record cr db ss r")
  case (Inr y)
  obtain out db1 ss1 where y: "y = (out, db1, ss1)" by (cases y)
  show ?thesis
  proof (cases out)
    case (Inl refusal)
    then show ?thesis using Inr y by (auto simp: and_then_Inr rejected_rest)
  next
    case (Inr x)
    then show ?thesis using \<open>upload_record cr db ss r = Inr y\<close> y by (auto simp: and_then_Inr)
  qed
qed simp

lemma upload_records_accepted:
  "upload_records cr db ss False rs = Inr (results, db', ss') \<Longrightarrow> server_ok db \<Longrightarrow> session_ok db ss \<Longrightarrow>
   k < length rs \<Longrightarrow> rs ! k = ROp r \<Longrightarrow> results ! k \<in> {Stored, AlreadyStored} \<Longrightarrow>
   accepted cr (ss_vault_id ss) (ss_authors ss) db' r"
proof (induction rs arbitrary: db ss results k)
  case (Cons x rs)
  from Cons.prems(1) consider
      (refused) refusal where "results = Rejected (refusal_code refusal) # replicate (length rs) NotProcessed"
    | (ok) y db1 ss1 res where "upload_record cr db ss x = Inr (Inr y, db1, ss1)"
        "upload_records cr db1 ss1 False rs = Inr (res, db', ss')" "results = y # res"
    unfolding upload_records_Cons by blast
  then show ?case
  proof cases
    case refused
    then show ?thesis using Cons.prems(4,6) by (cases k) auto
  next
    case ok
    note s = upload_record_ok [OF ok(1) Cons.prems(2,3)] and kp = keeps_upload_record [OF ok(1) Cons.prems(3)]
    show ?thesis
    proof (cases k)
      case 0
      then have "upload_op cr db ss r = Inr (Inr y, db1, ss1)" using ok(1) Cons.prems(5) by simp
      then show ?thesis
        using upload_op_accepted accepted_kept keeps_upload_records [OF ok(2)] s by blast
    next
      case (Suc j)
      then show ?thesis using Cons.IH [OF ok(2), of j] s kp Cons.prems(4-6) ok(3) by auto
    qed
  qed
qed simp

lemma upload_Inr:
  assumes "upload cr dir db account request now_ms = (Inr (response, queued), db1)"
  obtains ss0 ss1 where "open_session db dir account (ur_vault_id request) now_ms = Inr ss0"
    "upload_records cr db ss0 False (ur_records request) = Inr (ua_results response, db1, ss1)"
  using assms by (auto simp: upload_def and_then_Inr simp del: upload_records.simps split: sum.split_asm if_splits)

lemma refused_unchanged:
  assumes "upload_record cr db ss r = Inr (Inl refusal, db', ss')"
  shows "db' = db \<and> ss' = ss"
  using assms by (cases r)
    (auto simp: upload_op_def upload_snapshot_def and_then_Inr existing_case_eq split: sum.split_asm if_splits)

lemma accepted_answer:
  assumes "upload_record cr db ss r = Inr (Inr x, db', ss')"
  shows "x = Stored \<or> x = AlreadyStored"
  using assms by (cases r)
    (auto simp: upload_op_def upload_snapshot_def and_then_Inr existing_case_eq split: sum.split_asm if_splits)

section \<open>A stored upload\<close>

lemma sample_stored:
  assumes "signed_op sample_crypto sample_key sample_header [1, 2] None r"
  shows "\<exists>db' ss'. upload_op sample_crypto sample_db sample_session r = Inr (Inr Stored, db', ss')"
proof -
  obtain vo where "verify_op sample_crypto r 7 sample_authors True WrapRequired = Inr vo"
    "vo_header vo = sample_header" "vo_author vo = sample_cert"
    using sample_verified [OF assms] by blast
  then show ?thesis
    using next_op_stored [of sample_crypto r sample_session vo sample_db] sample_next by (auto simp: sample_session_def)
qed

lemma sample_uploaded:
  assumes "signed_op sample_crypto sample_key sample_header [1, 2] None r"
  shows "\<exists>db' queued. upload sample_crypto sample_directory sample_db 3 \<lparr> ur_vault_id = 7, ur_records = [ROp r] \<rparr> 6 =
    (Inr (\<lparr> ua_restore_generation = [9], ua_results = [Stored] \<rparr>, queued), db')"
proof -
  obtain db' ss' where u: "upload_op sample_crypto sample_db sample_session r = Inr (Inr Stored, db', ss')"
    using sample_stored [OF assms] by blast
  have "restore_generation sample_db = Inr [9]" by (simp add: restore_generation_def sample_db_def empty_db_def ok_or_def)
  then show ?thesis using u by (simp add: upload_def sample_opened MAX_RECORDS_def)
qed

lemma sample_row: "\<exists>db row. server_reachable db \<and> bt_get (db_ops db) (7, Dot 5 (nz_of 1)) = Some row"
proof -
  obtain r where r: "signed_op sample_crypto sample_key sample_header [1, 2] None r" using sample_signed by blast
  obtain db1 queued where u: "upload sample_crypto sample_directory sample_db 3 \<lparr> ur_vault_id = 7, ur_records = [ROp r] \<rparr> 6 =
    (Inr (\<lparr> ua_restore_generation = [9], ua_results = [Stored] \<rparr>, queued), db1)" using sample_uploaded [OF r] by blast
  have reach: "server_reachable db1"
    using reachable_step [OF sample_reachable step_upload] u by (metis snd_conv)
  obtain ss0 ss1 where s: "open_session sample_db sample_directory 3 7 6 = Inr ss0"
    "upload_records sample_crypto sample_db ss0 False [ROp r] = Inr ([Stored], db1, ss1)"
    using upload_Inr [OF u] by (auto simp del: upload_records.simps)
  have ss0: "ss0 = sample_session" using s(1) sample_opened by simp
  have "accepted sample_crypto 7 sample_authors db1 r"
    using upload_records_accepted [OF s(2) reachable_server_ok [OF sample_reachable], of 0 r] open_session_ok [OF s(1)]
    by (simp add: ss0 sample_session_def)
  then show ?thesis
    using sample_verified [OF r] reach by (auto simp: accepted_def sample_header_def)
qed

section \<open>Properties\<close>

text \<open>C13: nothing is stored after the first rejected record. An upload's records before the
  first refusal are answered \<open>Stored\<close> or \<open>AlreadyStored\<close>, the refused one with its code, every
  later one \<open>NotProcessed\<close>; and the committed database is the one that the accepted prefix
  alone, uploaded on its own, would have left.\<close>
theorem upload_stops_at_rejection:
  assumes "upload_records cr db ss False rs = Inr (results, db', ss')"
  shows "length results = length rs \<and>
    (\<exists>n \<le> length rs. set (take n results) \<subseteq> {Stored, AlreadyStored} \<and>
       upload_records cr db ss False (take n rs) = Inr (take n results, db', ss') \<and>
       (n = length rs \<or>
        (\<exists>refusal. drop n results = Rejected (refusal_code refusal) # replicate (length rs - Suc n) NotProcessed)))"
  using assms
proof (induction rs arbitrary: db ss results)
  case (Cons r rs)
  from Cons.prems consider
      (refused) refusal where "upload_record cr db ss r = Inr (Inl refusal, db', ss')"
        "results = Rejected (refusal_code refusal) # replicate (length rs) NotProcessed"
    | (ok) x db1 ss1 res where "upload_record cr db ss r = Inr (Inr x, db1, ss1)"
        "upload_records cr db1 ss1 False rs = Inr (res, db', ss')" "results = x # res"
    unfolding upload_records_Cons by blast
  then show ?case
  proof cases
    case refused
    then show ?thesis using refused_unchanged [OF refused(1)] by (intro conjI exI [of _ 0]) auto
  next
    case ok
    from Cons.IH [OF ok(2)] obtain n where n: "length res = length rs" "n \<le> length rs"
      "set (take n res) \<subseteq> {Stored, AlreadyStored}"
      "upload_records cr db1 ss1 False (take n rs) = Inr (take n res, db', ss')"
      "n = length rs \<or> (\<exists>refusal. drop n res = Rejected (refusal_code refusal) # replicate (length rs - Suc n) NotProcessed)"
      by blast
    have "upload_records cr db ss False (r # take n rs) = Inr (x # take n res, db', ss')"
      unfolding upload_records_Cons using ok(1) n(4) by blast
    then show ?thesis using n(1,2,3,5) accepted_answer [OF ok(1)] ok(3) by (intro conjI exI [of _ "Suc n"]) auto
  qed
qed simp

theorem upload_stops_at_rejection_witness:
  "\<exists>r bad db' ss'. signed_op sample_crypto sample_key sample_header [1, 2] None r \<and>
     upload_records sample_crypto sample_db sample_session False [ROp r, ROp bad, ROp r] =
       Inr ([Stored, Rejected InvalidRequest, NotProcessed], db', ss') \<and>
     upload_records sample_crypto sample_db sample_session False [ROp r] = Inr ([Stored], db', ss')"
proof -
  define bad where "bad = \<lparr> pr_statement = [], pr_body = None, pr_key_wrap = None \<rparr>"
  obtain r where r: "signed_op sample_crypto sample_key sample_header [1, 2] None r" using sample_signed by blast
  obtain db1 ss1 where u: "upload_op sample_crypto sample_db sample_session r = Inr (Inr Stored, db1, ss1)"
    using sample_stored [OF r] by blast
  have "upload_op sample_crypto db1 ss1 bad = Inr (Inl RefInvalid, db1, ss1)"
    by (simp add: upload_op_def verify_op_def find_signer_def bad_def CONTAINER_LEN_def)
  then have b: "upload_records sample_crypto sample_db sample_session False [ROp r, ROp bad, ROp r] =
      Inr ([Stored, Rejected InvalidRequest, NotProcessed], db1, ss1)" using u by simp
  from upload_stops_at_rejection [OF b] obtain n where
    n: "set (take n [Stored, Rejected InvalidRequest, NotProcessed]) \<subseteq> {Stored, AlreadyStored}"
    "upload_records sample_crypto sample_db sample_session False (take n [ROp r, ROp bad, ROp r]) =
       Inr (take n [Stored, Rejected InvalidRequest, NotProcessed], db1, ss1)"
    "n = 3 \<or> (\<exists>e ys. drop n [Stored, Rejected InvalidRequest, NotProcessed] = Rejected e # ys)"
    by (auto simp: numeral_3_eq_3)
  have "n = 1" using n(1,3) by (cases n; cases "n - 1") auto
  then show ?thesis using r b n(2) by auto
qed

text \<open>C10: a stored op is never lost and never changed. Whatever calls the server commits after
  it, in any order, an op row stays in the table under its dot with the same item, chain link,
  header, hashes and signature; its body and its wrap are the stored ones or have been deleted,
  never replaced.\<close>
theorem stored_ops_stay:
  assumes "server_reachable db" and "server_step\<^sup>*\<^sup>* db db'" and "bt_get (db_ops db) (v, d) = Some r"
  shows "\<exists>r'. bt_get (db_ops db') (v, d) = Some r' \<and>
    or_item_id r' = or_item_id r \<and> or_vault_prev_seq r' = or_vault_prev_seq r \<and> or_header r' = or_header r \<and>
    or_body_hash r' = or_body_hash r \<and> or_wrap_hash r' = or_wrap_hash r \<and> or_signature r' = or_signature r \<and>
    or_body r' \<in> {or_body r, None} \<and> or_key_wrap r' \<in> {or_key_wrap r, None}"
proof -
  have "keeps_ops db db'" using steps_ok [OF assms(2) reachable_server_ok [OF assms(1)]] by blast
  then show ?thesis using assms(3) unfolding keeps_ops_def op_kept_def same_op_def by blast
qed

text \<open>C11: an upload is safe to retry. An op that one upload answered \<open>Stored\<close> or
  \<open>AlreadyStored\<close> is answered \<open>AlreadyStored\<close>, with nothing written, by every later session of
  the vault under the same certificates, whatever the server committed in between: compaction
  may have deleted its body and a rotation its wrap.\<close>
theorem retried_op_already_stored:
  assumes "server_reachable db"
    and "upload cr dir db account request now_ms = (Inr (response, queued), db1)"
    and "k < length (ur_records request)" and "ur_records request ! k = ROp r"
    and "ua_results response ! k \<in> {Stored, AlreadyStored}"
    and "server_step\<^sup>*\<^sup>* db1 db2"
    and "ss_vault_id ss = ur_vault_id request" and "dd_authors dir account = Inr (ss_authors ss)"
  shows "upload_op cr db2 ss r = Inr (Inr AlreadyStored, db2, ss)"
proof -
  have ok: "server_ok db" using reachable_server_ok [OF assms(1)] .
  obtain ss0 ss1 where u: "open_session db dir account (ur_vault_id request) now_ms = Inr ss0"
    "upload_records cr db ss0 False (ur_records request) = Inr (ua_results response, db1, ss1)"
    using upload_Inr [OF assms(2)] by blast
  have so: "session_ok db ss0" "ss_vault_id ss0 = ur_vault_id request" using open_session_ok [OF u(1)] by simp_all
  have au: "ss_authors ss0 = ss_authors ss"
    using u(1) assms(8) by (auto simp: open_session_def and_then_Inr)
  have a: "accepted cr (ur_vault_id request) (ss_authors ss) db1 r"
    using upload_records_accepted [OF u(2) ok so(1) assms(3,4)] assms(5) so(2) au by simp
  have ok1: "server_ok db1" using upload_records_ok [OF u(2) ok so(1)] by simp
  then have "accepted cr (ur_vault_id request) (ss_authors ss) db2 r"
    using accepted_kept [OF a] steps_ok [OF assms(6)] by blast
  then show ?thesis by (rule accepted_retry) (simp_all add: assms(7))
qed

theorem retried_op_already_stored_witness:
  "\<exists>r db1. signed_op sample_crypto sample_key sample_header [1, 2] None r \<and>
     snd (upload sample_crypto sample_directory sample_db 3 \<lparr> ur_vault_id = 7, ur_records = [ROp r] \<rparr> 6) = db1 \<and>
     upload_op sample_crypto db1 sample_session r = Inr (Inr AlreadyStored, db1, sample_session)"
proof -
  obtain r where r: "signed_op sample_crypto sample_key sample_header [1, 2] None r" using sample_signed by blast
  obtain db1 queued where u: "upload sample_crypto sample_directory sample_db 3 \<lparr> ur_vault_id = 7, ur_records = [ROp r] \<rparr> 6 =
    (Inr (\<lparr> ua_restore_generation = [9], ua_results = [Stored] \<rparr>, queued), db1)" using sample_uploaded [OF r] by blast
  have "upload_op sample_crypto db1 sample_session r = Inr (Inr AlreadyStored, db1, sample_session)"
    by (rule retried_op_already_stored [OF sample_reachable u, of 0])
       (simp_all add: sample_session_def sample_directory_def)
  then show ?thesis using r u by auto
qed

theorem stored_ops_stay_witness:
  "\<exists>db1 db2 r r'. server_step\<^sup>*\<^sup>* db1 db2 \<and> bt_get (db_ops db1) (7, Dot 5 (nz_of 1)) = Some r \<and>
     bt_get (db_ops db2) (7, Dot 5 (nz_of 1)) = Some r' \<and> or_header r' = or_header r"
proof -
  obtain db1 row where r: "server_reachable db1" "bt_get (db_ops db1) (7, Dot 5 (nz_of 1)) = Some row"
    using sample_row by blast
  have step: "server_step\<^sup>*\<^sup>* db1 (snd (run_compaction db1 1))" using step_compact by blast
  show ?thesis using stored_ops_stay [OF r(1) step r(2)] step r(2) by blast
qed

text \<open>C8: every state the server reaches by any sequence of signups, uploads, healing
  requests, rotations and compaction runs, under any certificates and clock, keeps the vault
  invariant. Each device's ops form one chain, each row following its device's previous op
  directly; each retained snapshot's clamped version vector is at most the heads; store
  sequences are below the vault's counter and unique; and every op without a body has a retained
  snapshot of its item that covers it.\<close>
theorem reachable_keeps_chains_and_covers:
  assumes "server_reachable db"
  shows "(\<forall>v d r. bt_get (db_ops db) (v, d) = Some r \<longrightarrow>
        or_vault_prev_seq r < dot_seq d \<and>
        (or_vault_prev_seq r = 0 \<or>
           (\<exists>e. has_op db v e \<and> dot_device e = dot_device d \<and> dot_seq e = or_vault_prev_seq r)) \<and>
        (\<forall>e. has_op db v e \<and> dot_device e = dot_device d \<and> dot_seq e < dot_seq d \<longrightarrow> dot_seq e \<le> or_vault_prev_seq r) \<and>
        (or_body r = None \<longrightarrow> has_cover db v (or_item_id r) d)) \<and>
    (\<forall>v s q. bt_get (db_snapshots db) (v, s) = Some q \<longrightarrow>
        (\<exists>c. row_clamped q = Some c \<and> vv_le c (repo_heads db v)) \<and>
        (\<exists>vr. repo_vault db v = Some vr \<and> sr_store_seq q < vr_next_store_seq vr) \<and>
        (\<forall>s' q'. bt_get (db_snapshots db) (v, s') = Some q' \<and> sr_store_seq q' = sr_store_seq q \<longrightarrow> s' = s))"
proof -
  have ok: "tables_ok db" "covered_but {} db" using reachable_server_ok [OF assms] by (simp_all add: server_ok_def)
  show ?thesis
  proof (intro conjI allI impI; (elim conjE)?)
    fix v d r assume r: "bt_get (db_ops db) (v, d) = Some r"
    show "or_body r = None \<Longrightarrow> has_cover db v (or_item_id r) d" using ok(2) r by (simp add: covered_but_def)
  qed (use tables_okD [OF ok(1)] in \<open>auto simp: op_row_ok_def snapshot_row_ok_def\<close>)
qed

theorem reachable_keeps_chains_and_covers_witness:
  "\<exists>db r. server_reachable db \<and> bt_get (db_ops db) (7, Dot 5 (nz_of 1)) = Some r \<and> or_vault_prev_seq r < dot_seq (Dot 5 (nz_of 1))"
proof -
  obtain db1 row where r: "server_reachable db1" "bt_get (db_ops db1) (7, Dot 5 (nz_of 1)) = Some row"
    using sample_row by blast
  show ?thesis using reachable_keeps_chains_and_covers [OF r(1)] r by blast
qed

end
