(* ===== verification/Server_Port.thy ===== *)
theory Server_Port
  imports Server_Upload Server_Fetch
begin

text \<open>
  What the vault domain offers the \<open>auth\<close> domain (\<open>rizzy-domain-vault/src/port.rs\<close>): the personal
  vault of a signup, the self-grants of a login, a device's head for its revocation, and the vaults
  of an account recovery. Each runs on the caller's transaction.
\<close>

datatype personal_vault_outcome = VaultCreated | VaultIdentical | VaultConflict

definition create_personal_vault ::
  "vault_db \<Rightarrow> id16 \<Rightarrow> vault_self_grant \<Rightarrow> u64 \<Rightarrow> vault_error + (personal_vault_outcome \<times> vault_db)" where
  "create_personal_vault db account grant now_ms =
     (case repo_vault db (sf_vault_id grant) of
        None \<Rightarrow> and_then (create_vault db account grant now_ms) (\<lambda>db. Inr (VaultCreated, db))
      | Some vault \<Rightarrow>
          let identical =
                vr_account_id vault = account \<and> vr_vault_key_epoch vault = 0 \<and>
                (case repo_self_grant db (sf_vault_id grant) of
                   None \<Rightarrow> False
                 | Some s \<Rightarrow> gr_account_key_epoch s = sf_account_key_epoch grant \<and>
                     gr_vault_key_epoch s = sf_vault_key_epoch grant \<and> gr_envelope s = sf_envelope grant)
          in Inr (if identical then VaultIdentical else VaultConflict, db))"

fun grants_under :: "vault_db \<Rightarrow> u32 \<Rightarrow> id16 list \<Rightarrow> vault_error + vault_self_grant list" where
  "grants_under db account_key_epoch [] = Inr []"
| "grants_under db account_key_epoch (v # vs) =
     (case repo_self_grant db v of
        None \<Rightarrow> grants_under db account_key_epoch vs
      | Some row \<Rightarrow>
          if gr_account_key_epoch row \<noteq> account_key_epoch then grants_under db account_key_epoch vs
          else
            and_then (wire_bytes MAX_KEY_ENVELOPE_LEN (gr_envelope row)) (\<lambda>envelope.
            and_then (grants_under db account_key_epoch vs) (\<lambda>grants.
            Inr (\<lparr> sf_vault_id = v, sf_account_key_epoch = gr_account_key_epoch row,
                   sf_vault_key_epoch = gr_vault_key_epoch row, sf_envelope = envelope \<rparr> # grants))))"

definition self_grants :: "vault_db \<Rightarrow> id16 \<Rightarrow> u32 \<Rightarrow> vault_error + vault_self_grant list" where
  "self_grants db account account_key_epoch = grants_under db account_key_epoch (list_vaults db account)"

definition device_head :: "vault_db \<Rightarrow> id16 \<Rightarrow> device_id \<Rightarrow> u64" where
  "device_head db account x = fold (\<lambda>v head. max head (vv_get (repo_heads db v) x)) (list_vaults db account) 0"

record recovery_vault =
  rv_vault_id :: id16
  rv_self_grant :: vault_self_grant
  rv_heads :: "dot list"
  rv_item_key_wraps :: "wrap_row list"

definition recovery_of :: "vault_db \<Rightarrow> id16 \<Rightarrow> vault_error + recovery_vault" where
  "recovery_of db v =
     and_then (ok_or Corrupt (repo_self_grant db v)) (\<lambda>grant.
     let heads' = repo_heads db v;
         rows = wraps_after db v None (saturating_add MAX_ITEM_KEY_WRAPS 1)
     in if MAX_ITEM_KEY_WRAPS < length rows then Inl WrapSetTooLarge
        else
          and_then (try_map served_wrap_row rows) (\<lambda>wraps.
          and_then (wire_list MAX_VV_ENTRIES (vv_entries heads')) (\<lambda>hs.
          and_then (wire_bytes MAX_KEY_ENVELOPE_LEN (gr_envelope grant)) (\<lambda>envelope.
          and_then (wire_list MAX_ITEM_KEY_WRAPS wraps) (\<lambda>wraps.
          Inr \<lparr> rv_vault_id = v,
                rv_self_grant = \<lparr> sf_vault_id = v, sf_account_key_epoch = gr_account_key_epoch grant,
                  sf_vault_key_epoch = gr_vault_key_epoch grant, sf_envelope = envelope \<rparr>,
                rv_heads = hs, rv_item_key_wraps = wraps \<rparr>)))))"

definition recovery_vaults :: "vault_db \<Rightarrow> id16 \<Rightarrow> vault_error + recovery_vault list" where
  "recovery_vaults db account = try_map (recovery_of db) (list_vaults db account)"

text \<open>A signup that is repeated changes nothing and is told so.\<close>

lemma signup_repeats:
  assumes "create_personal_vault db account grant now_ms = Inr (VaultCreated, db')"
  shows "create_personal_vault db' account grant later_ms = Inr (VaultIdentical, db')"
  using assms
  by (auto simp: create_personal_vault_def create_vault_def and_then_Inr insert_vault_def write_self_grant_def
      repo_vault_def repo_self_grant_def Let_def split: option.splits if_splits)

lemma fold_max_init: "(m :: u64) \<le> fold (\<lambda>v m. max m (f v)) vs m"
proof (induction vs arbitrary: m)
  case (Cons v vs)
  show ?case using Cons.IH [of "max m (f v)"] by simp
qed simp

lemma fold_max_le: "v \<in> set vs \<Longrightarrow> (f v :: u64) \<le> fold (\<lambda>v m. max m (f v)) vs m"
proof (induction vs arbitrary: m)
  case (Cons w vs)
  show ?case using Cons.IH [of "max m (f w)"] Cons.prems fold_max_init [of "max m (f w)" f vs] by auto
qed simp

lemma fold_max_held:
  fixes m :: u64
  shows "fold (\<lambda>v m. max m (f v)) vs m = m \<or> (\<exists>v \<in> set vs. fold (\<lambda>v m. max m (f v)) vs m = f v)"
proof (induction vs arbitrary: m)
  case (Cons v vs)
  show ?case using Cons.IH [of "max m (f v)"] by (auto simp: max_def split: if_splits)
qed simp

text \<open>\<open>device_head\<close> is the highest sequence number of the device that any vault of the account holds.\<close>

lemma device_head_highest:
  "(\<forall>v \<in> set (list_vaults db account). vv_get (repo_heads db v) x \<le> device_head db account x) \<and>
   (device_head db account x = 0 \<or> (\<exists>v \<in> set (list_vaults db account). device_head db account x = vv_get (repo_heads db v) x))"
  unfolding device_head_def using fold_max_le fold_max_held by fast

end
