(* ===== verification/Server_Rotation.thy ===== *)
theory Server_Rotation
  imports Server_Retries Server_Port
begin

text \<open>
  What a key rotation does to the vaults of an account. Each vault is described by what the tables
  hold of it: its row, its self-grant, its wrap set and the wraps beside its records. The writes of
  one vault change that vault alone, so the effect of the whole rotation is that of each entry on
  the database the rotation began with. A client that answers a recovery as the protocol says is
  never refused.
\<close>

section \<open>Writes of one vault\<close>

definition wrap_at :: "vault_db \<Rightarrow> id16 \<Rightarrow> locator \<Rightarrow> wrap_columns option" where
  "wrap_at db v l = bt_get (db_wraps db) (v, fst l, snd l)"

definition other_tables :: "vault_db \<Rightarrow> vault_db \<Rightarrow> bool" where
  "other_tables db db' \<longleftrightarrow> db_vaults db' = db_vaults db \<and> db_self_grants db' = db_self_grants db \<and>
     db_ops db' = db_ops db \<and> db_snapshots db' = db_snapshots db"

declare split_paired_All [simp del] split_paired_Ex [simp del]

lemma overwrite_one:
  "overwrite_wrap db v w now = (n, db') \<Longrightarrow> other_tables db db' \<and>
     (n \<noteq> 1 \<longleftrightarrow> wrap_at db v (at w) = None) \<and>
     (n = 1 \<longrightarrow> (\<forall>v' l. wrap_at db' v' l = (if v' = v \<and> l = at w then Some (wrap_columns_of w now) else wrap_at db v' l)))"
  by (auto simp: overwrite_wrap_def other_tables_def wrap_at_def at_def Let_def split: option.splits if_splits)

lemma delete_one:
  "delete_wrap db v (fst l) (snd l) = (n, db') \<Longrightarrow> other_tables db db' \<and>
     (n \<noteq> 1 \<longleftrightarrow> wrap_at db v l = None) \<and>
     (n = 1 \<longrightarrow> (\<forall>v' l'. wrap_at db' v' l' = (if v' = v \<and> l' = l then None else wrap_at db v' l')))"
  by (auto simp: delete_wrap_def other_tables_def wrap_at_def split: option.splits)

text \<open>The rows a list of re-wraps leaves: the last one of each locator.\<close>

lemma overwrite_all_Inr:
  "overwrite_all db v ws now = Inr db' \<Longrightarrow> distinct (map at ws) \<Longrightarrow> other_tables db db' \<and>
     (\<forall>w \<in> set ws. wrap_at db' v (at w) = Some (wrap_columns_of w now)) \<and>
     (\<forall>v' l. v' \<noteq> v \<or> l \<notin> at ` set ws \<longrightarrow> wrap_at db' v' l = wrap_at db v' l)"
proof (induction ws arbitrary: db)
  case (Cons w ws)
  obtain n db1 where o: "overwrite_wrap db v w now = (n, db1)" by (cases "overwrite_wrap db v w now")
  with Cons.prems have n: "n = 1" "overwrite_all db1 v ws now = Inr db'" by (auto split: if_splits)
  note one = overwrite_one [OF o] and IH = Cons.IH [OF n(2)]
  have d: "distinct (map at ws)" "at w \<notin> at ` set ws" using Cons.prems(2) by auto
  have "wrap_at db' v (at w) = wrap_at db1 v (at w)" using IH d by blast
  then have "wrap_at db' v (at w) = Some (wrap_columns_of w now)" using one n(1) by simp
  then show ?case using IH [OF d(1)] one n(1) by (auto simp: other_tables_def)
qed (simp add: other_tables_def)

lemma delete_all_Inr:
  "delete_all db v ls = Inr db' \<Longrightarrow> other_tables db db' \<and>
     (\<forall>v' l. wrap_at db' v' l = (if v' = v \<and> l \<in> set ls then None else wrap_at db v' l))"
proof (induction ls arbitrary: db)
  case (Cons l ls)
  obtain n db1 where o: "delete_wrap db v (fst l) (snd l) = (n, db1)" by (cases "delete_wrap db v (fst l) (snd l)")
  with Cons.prems have n: "n = 1" "delete_all db1 v ls = Inr db'" by (cases l; auto split: if_splits)+
  show ?case using delete_one [OF o] Cons.IH [OF n(2)] n(1) by (auto simp: other_tables_def)
qed (simp add: other_tables_def)

text \<open>They succeed when every row is there.\<close>

lemma overwrite_all_total:
  "\<forall>w \<in> set ws. wrap_at db v (at w) \<noteq> None \<Longrightarrow> \<exists>db'. overwrite_all db v ws now = Inr db'"
proof (induction ws arbitrary: db)
  case (Cons w ws)
  obtain n db1 where o: "overwrite_wrap db v w now = (n, db1)" by (cases "overwrite_wrap db v w now")
  then have n: "n = 1" using overwrite_one [OF o] Cons.prems by auto
  then have "\<forall>w \<in> set ws. wrap_at db1 v (at w) \<noteq> None" using overwrite_one [OF o] Cons.prems by simp
  then show ?case using Cons.IH o n by simp
qed simp

section \<open>One vault\<close>

text \<open>A vault as it was before.\<close>

definition vault_kept :: "vault_db \<Rightarrow> vault_db \<Rightarrow> id16 \<Rightarrow> bool" where
  "vault_kept db db' v \<longleftrightarrow> repo_vault db' v = repo_vault db v \<and> repo_self_grant db' v = repo_self_grant db v \<and>
     wrap_at db' v = wrap_at db v \<and> (\<forall>d. bt_get (db_ops db') (v, d) = bt_get (db_ops db) (v, d)) \<and>
     (\<forall>s. bt_get (db_snapshots db') (v, s) = bt_get (db_snapshots db) (v, s))"

lemma kept_refl [simp]: "vault_kept db db v"
  by (simp add: vault_kept_def)

lemma kept_trans: "vault_kept a b v \<Longrightarrow> vault_kept b c v \<Longrightarrow> vault_kept a c v"
  by (simp add: vault_kept_def)

definition no_record_wraps :: "vault_db \<Rightarrow> id16 \<Rightarrow> bool" where
  "no_record_wraps db v \<longleftrightarrow> (\<forall>d r. bt_get (db_ops db) (v, d) = Some r \<longrightarrow> or_key_wrap r = None) \<and>
     (\<forall>s r. bt_get (db_snapshots db) (v, s) = Some r \<longrightarrow> sr_key_wrap r = None)"

lemma write_vault_effect:
  assumes w: "write_vault db plan now = Inr db'" and d: "distinct (map at (pl_rewrapped plan))"
    and g: "pl_has_grant plan \<longleftrightarrow> repo_self_grant db (pl_vault_id plan) \<noteq> None"
  shows "repo_vault db' (pl_vault_id plan) =
      map_option (\<lambda>r. r \<lparr> vr_vault_key_epoch := gr_vault_key_epoch (pl_grant plan) \<rparr>) (repo_vault db (pl_vault_id plan))"
    and "repo_self_grant db' (pl_vault_id plan) = Some (pl_grant plan)"
    and "\<And>x. x \<in> set (pl_rewrapped plan) \<Longrightarrow> at x \<notin> set (pl_dropped plan) \<Longrightarrow>
      wrap_at db' (pl_vault_id plan) (at x) = Some (wrap_columns_of x now)"
    and "\<And>l. l \<in> set (pl_dropped plan) \<Longrightarrow> wrap_at db' (pl_vault_id plan) l = None"
    and "\<And>l. l \<notin> at ` set (pl_rewrapped plan) \<Longrightarrow> l \<notin> set (pl_dropped plan) \<Longrightarrow>
      wrap_at db' (pl_vault_id plan) l = wrap_at db (pl_vault_id plan) l"
    and "no_record_wraps db' (pl_vault_id plan)"
    and "\<And>v'. v' \<noteq> pl_vault_id plan \<Longrightarrow> vault_kept db db' v'"
proof -
  let ?v = "pl_vault_id plan" and ?e = "gr_vault_key_epoch (pl_grant plan)"
  obtain db1 db2 db3 where s: "write_self_grant (set_vault_epoch db ?v ?e) ?v (pl_grant plan) (pl_has_grant plan) now = Inr db1"
    "overwrite_all db1 ?v (pl_rewrapped plan) now = Inr db2" "delete_all db2 ?v (pl_dropped plan) = Inr db3"
    "db' = clear_record_wraps db3 ?v"
    using w by (auto simp: write_vault_def Let_def and_then_Inr)
  have e: "db_self_grants (set_vault_epoch db ?v ?e) = db_self_grants db" "db_wraps (set_vault_epoch db ?v ?e) = db_wraps db"
    "db_ops (set_vault_epoch db ?v ?e) = db_ops db" "db_snapshots (set_vault_epoch db ?v ?e) = db_snapshots db"
    by (simp_all add: set_vault_epoch_def update_vault_def split: option.splits)
  have v: "repo_vault (set_vault_epoch db ?v ?e) x =
      (if x = ?v then map_option (\<lambda>r. r \<lparr> vr_vault_key_epoch := ?e \<rparr>) (repo_vault db x) else repo_vault db x)" for x
    by (auto simp: set_vault_epoch_def update_vault_def repo_vault_def split: option.splits)
  have g1: "db_vaults db1 = db_vaults (set_vault_epoch db ?v ?e)" "db_wraps db1 = db_wraps db" "db_ops db1 = db_ops db"
    "db_snapshots db1 = db_snapshots db" "repo_self_grant db1 x = (if x = ?v then Some (pl_grant plan) else repo_self_grant db x)" for x
    using s(1) g e by (auto simp: write_self_grant_def repo_self_grant_def Let_def split: if_splits)
  note o = overwrite_all_Inr [OF s(2) d] and dl = delete_all_Inr [OF s(3)]
  have dw: "wrap_at db3 v' l = (if v' = ?v \<and> l \<in> set (pl_dropped plan) then None else wrap_at db2 v' l)" for v' l
    using dl by blast
  have ow: "wrap_at db2 v' l = wrap_at db1 v' l" if "v' \<noteq> ?v \<or> l \<notin> at ` set (pl_rewrapped plan)" for v' l
    using o that by blast
  have tabs: "db_vaults db3 = db_vaults db1" "db_self_grants db3 = db_self_grants db1" "db_ops db3 = db_ops db" "db_snapshots db3 = db_snapshots db"
    using o dl g1 by (auto simp: other_tables_def)
  have fin: "db_vaults db' = db_vaults db3" "db_self_grants db' = db_self_grants db3" "wrap_at db' = wrap_at db3"
    by (simp_all add: s(4) clear_record_wraps_def clear_wraps_where_def wrap_at_def fun_eq_iff)
  have wr: "wrap_at db1 = wrap_at db" by (simp add: fun_eq_iff wrap_at_def g1(2))
  have rv: "repo_vault db' = repo_vault (set_vault_epoch db ?v ?e)" by (simp add: fun_eq_iff repo_vault_def fin tabs g1(1))
  have rg: "repo_self_grant db' = repo_self_grant db1" by (simp add: fun_eq_iff repo_self_grant_def fin tabs)
  show "repo_vault db' ?v = map_option (\<lambda>r. r \<lparr> vr_vault_key_epoch := ?e \<rparr>) (repo_vault db ?v)" by (simp add: rv v)
  show "repo_self_grant db' ?v = Some (pl_grant plan)" by (simp add: rg g1(5))
  show "wrap_at db' ?v (at x) = Some (wrap_columns_of x now)" if "x \<in> set (pl_rewrapped plan)" "at x \<notin> set (pl_dropped plan)" for x
    using o that by (simp add: fin dw)
  show "wrap_at db' ?v l = None" if "l \<in> set (pl_dropped plan)" for l using that by (simp add: fin dw)
  show "wrap_at db' ?v l = wrap_at db ?v l" if "l \<notin> at ` set (pl_rewrapped plan)" "l \<notin> set (pl_dropped plan)" for l
    using that by (simp add: fin dw ow wr)
  show "no_record_wraps db' ?v"
    by (auto simp: no_record_wraps_def s(4) clear_record_wraps_def clear_wraps_where_def bind_eq_Some_conv)
  show "vault_kept db db' v'" if "v' \<noteq> ?v" for v'
  proof -
    have "wrap_at db' v' l = wrap_at db v' l" for l using that by (simp add: fin dw ow wr)
    moreover have "bt_get (db_ops db') (v', d) = bt_get (db_ops db) (v', d)" "bt_get (db_snapshots db') (v', s') = bt_get (db_snapshots db) (v', s')" for d s'
      using that by (auto simp: s(4) clear_record_wraps_def clear_wraps_where_def tabs split: option.splits)
    ultimately show ?thesis using that by (auto simp: vault_kept_def rv v rg g1(5))
  qed
qed

section \<open>The checks of one vault\<close>

text \<open>What the loops of \<open>check_wraps\<close> accept.\<close>

definition rewraps_ok :: "bytes btree_set \<Rightarrow> locator btree_set \<Rightarrow> u32 \<Rightarrow> wrap_row list \<Rightarrow> bytes option \<Rightarrow> locator btree_set \<Rightarrow> bool" where
  "rewraps_ok keys rows e ws key seen \<longleftrightarrow> distinct (map at ws) \<and>
     (\<forall>w \<in> set ws. wr_vault_key_epoch w = e \<and> length (wr_envelope w) = ITEM_KEY_WRAP_ENVELOPE_LEN \<and>
        bs_contains rows (at w) \<and> \<not> bs_contains seen (at w)) \<and>
     (\<exists>k. key \<in> {None, Some k} \<and> (\<forall>w \<in> set ws. key_id_of (wr_envelope w) = Some k \<and> \<not> bs_contains keys k))"

lemma rewraps_Cons:
  "rewraps_ok keys rows e (w # ws) key seen \<longleftrightarrow>
     wr_vault_key_epoch w = e \<and> length (wr_envelope w) = ITEM_KEY_WRAP_ENVELOPE_LEN \<and> bs_contains rows (at w) \<and>
     \<not> bs_contains seen (at w) \<and>
     (\<exists>k. key_id_of (wr_envelope w) = Some k \<and> key \<in> {None, Some k} \<and> \<not> bs_contains keys k \<and>
        rewraps_ok keys rows e ws (Some k) (bs_insert (at w) seen))"
  (is "?l \<longleftrightarrow> ?r")
proof
  assume ?l
  then have d: "distinct (map at (w # ws))" and p: "\<And>x. x \<in> set (w # ws) \<Longrightarrow> wr_vault_key_epoch x = e \<and>
      length (wr_envelope x) = ITEM_KEY_WRAP_ENVELOPE_LEN \<and> bs_contains rows (at x) \<and> \<not> bs_contains seen (at x)"
    unfolding rewraps_ok_def by blast+
  from \<open>?l\<close> obtain k where k: "key \<in> {None, Some k}"
    "\<And>x. x \<in> set (w # ws) \<Longrightarrow> key_id_of (wr_envelope x) = Some k \<and> \<not> bs_contains keys k"
    unfolding rewraps_ok_def by blast
  have "at x \<noteq> at w" if "x \<in> set ws" for x
    using d that by (metis distinct.simps(2) image_eqI list.set_map list.simps(9))
  then have "rewraps_ok keys rows e ws (Some k) (bs_insert (at w) seen)"
    unfolding rewraps_ok_def using d p k(2) by (intro conjI ballI exI [of _ k]) (simp; blast)+
  then show ?r using p [of w] k(1) k(2) [of w] by (intro conjI exI [of _ k]) simp_all
next
  assume ?r
  then obtain k where k: "key_id_of (wr_envelope w) = Some k" "key \<in> {None, Some k}" "\<not> bs_contains keys k"
    and r: "rewraps_ok keys rows e ws (Some k) (bs_insert (at w) seen)" by blast
  then have d: "distinct (map at ws)" and p: "\<And>x. x \<in> set ws \<Longrightarrow> wr_vault_key_epoch x = e \<and>
      length (wr_envelope x) = ITEM_KEY_WRAP_ENVELOPE_LEN \<and> bs_contains rows (at x) \<and> \<not> bs_contains seen (at x) \<and> at x \<noteq> at w"
    and ks: "\<And>x. x \<in> set ws \<Longrightarrow> key_id_of (wr_envelope x) = Some k"
    unfolding rewraps_ok_def by auto
  have "at w \<notin> at ` set ws" using p by (metis imageE)
  then have "distinct (map at (w # ws))" using d by simp
  then show ?l
    unfolding rewraps_ok_def using \<open>?r\<close> p ks k by (intro conjI ballI exI [of _ k]) (simp; blast)+
qed

lemma rewrap_rows_Inr:
  "rewrap_rows keys rows e ws key seen acc = Inr (seen', out) \<longleftrightarrow>
     rewraps_ok keys rows e ws key seen \<and> out = acc @ ws \<and> seen' = fold (\<lambda>w. bs_insert (at w)) ws seen"
proof (induction ws arbitrary: key seen acc)
  case Nil
  then show ?case by (cases key) (auto simp: rewraps_ok_def)
next
  case (Cons w ws)
  have "\<lparr> wr_item_id = wr_item_id w, wr_item_key_id = wr_item_key_id w, wr_vault_key_epoch = wr_vault_key_epoch w,
      wr_envelope = wr_envelope w \<rparr> = w" by simp
  then show ?case
    unfolding rewraps_Cons
    by (cases key) (auto simp: Cons.IH and_then_Inr ok_or_Inr Let_def simp del: split_paired_Ex)
qed

lemma drop_rows_Inr:
  "drop_rows rows rew ls seen = Inr seen' \<longleftrightarrow>
     distinct ls \<and> (\<forall>l \<in> set ls. bs_contains rows l \<and> \<not> bs_contains rew l \<and> \<not> bs_contains seen l) \<and>
     seen' = fold bs_insert ls seen"
  by (induction ls arbitrary: seen) (auto simp: bs_contains_insert)

lemma fold_insert_contains:
  "bs_contains (fold (\<lambda>w. bs_insert (f w)) ws seen) l \<longleftrightarrow> bs_contains seen l \<or> l \<in> f ` set ws"
  by (induction ws arbitrary: seen) (auto simp: bs_contains_insert)

lemma key_id_parse: "key_id_of b = Some k \<Longrightarrow> \<exists>e. parse_envelope b = Inr e \<and> envelope_key_id e = k"
  by (auto simp: key_id_of_def split: sum.splits envelope_ref.splits)

lemma map_filter_mem: "f x = Some y \<Longrightarrow> x \<in> set xs \<Longrightarrow> y \<in> set (List.map_filter f xs)"
  by (force simp: List.map_filter_def)

lemma check_wraps_Inr:
  assumes "check_wraps stored rotation e = Inr (rewr, drps)"
  shows "length stored \<le> MAX_ITEM_KEY_WRAPS \<and> rewr = vt_item_key_wraps rotation \<and> set drps = set (vt_dropped rotation) \<and>
    distinct (map at rewr) \<and> at ` set rewr \<inter> set drps = {} \<and> at ` set stored = at ` set rewr \<union> set drps \<and>
    (\<forall>w \<in> set rewr. wr_vault_key_epoch w = e \<and> key_id_of (wr_envelope w) \<noteq> None \<and>
       (\<forall>r \<in> set stored. key_id_of (wr_envelope r) \<noteq> key_id_of (wr_envelope w)))"
proof -
  define keys rows where kr: "keys = bs_collect (List.map_filter (\<lambda>row.
      case parse_envelope (wr_envelope row) of Inl _ \<Rightarrow> None | Inr e \<Rightarrow> Some (envelope_key_id e)) stored)"
    "rows = bs_collect (map at stored)"
  obtain rew out drp where c: "length stored \<le> MAX_ITEM_KEY_WRAPS"
    "rewrap_rows keys rows e (vt_item_key_wraps rotation) None bt_empty [] = Inr (rew, out)"
    "drop_rows rows rew (vt_dropped rotation) bt_empty = Inr drp"
    "\<not> list_ex (\<lambda>l. \<not> bs_contains rew l \<and> \<not> bs_contains drp l) (bt_keys rows)" "rewr = out" "drps = bt_keys drp"
    using assms unfolding check_wraps_def Let_def kr [symmetric]
    by (auto simp: and_then_Inr simp del: rewrap_rows.simps drop_rows.simps split: if_splits)
  from c(2) have r: "rewraps_ok keys rows e (vt_item_key_wraps rotation) None bt_empty" "out = vt_item_key_wraps rotation"
    "\<And>l. bs_contains rew l \<longleftrightarrow> l \<in> at ` set out"
    by (auto simp: rewrap_rows_Inr fold_insert_contains)
  from c(3) have d: "distinct (vt_dropped rotation)" "\<And>l. bs_contains drp l \<longleftrightarrow> l \<in> set (vt_dropped rotation)"
    "\<And>l. l \<in> set (vt_dropped rotation) \<Longrightarrow> bs_contains rows l \<and> \<not> bs_contains rew l"
    using fold_insert_contains [of "\<lambda>l. l"] by (auto simp: drop_rows_Inr)
  have st: "bs_contains rows l \<longleftrightarrow> l \<in> at ` set stored" for l by (simp add: kr)
  have sub: "at ` set out \<subseteq> at ` set stored" using r(1,2) st unfolding rewraps_ok_def by auto
  have cov: "l \<in> at ` set out \<union> set (vt_dropped rotation)" if "l \<in> at ` set stored" for l
  proof -
    have "l \<in> set (bt_keys rows)" using that st by (simp only: bs_keys_iff)
    then show ?thesis using c(4) r(3) d(2) by (auto simp: list_ex_iff)
  qed
  have drs: "set drps = set (vt_dropped rotation)" by (rule set_eqI) (simp only: c(6) bs_keys_iff d(2))
  have fresh: "key_id_of (wr_envelope q) \<noteq> key_id_of (wr_envelope w)" if wq: "w \<in> set out" "q \<in> set stored" for w q
  proof
    assume eq: "key_id_of (wr_envelope q) = key_id_of (wr_envelope w)"
    have "\<exists>k. \<forall>w \<in> set (vt_item_key_wraps rotation). key_id_of (wr_envelope w) = Some k \<and> \<not> bs_contains keys k"
      using r(1) unfolding rewraps_ok_def by (elim conjE exE) (intro exI, assumption)
    then obtain k where k: "key_id_of (wr_envelope w) = Some k" "\<not> bs_contains keys k"
      using wq(1) r(2) by metis
    obtain x where x: "parse_envelope (wr_envelope q) = Inr x" "envelope_key_id x = k"
      using key_id_parse [of "wr_envelope q" k] eq k(1) by auto
    have "bs_contains keys k"
      unfolding kr bs_contains_collect by (rule map_filter_mem [OF _ wq(2)]) (simp add: x)
    then show False using k(2) by simp
  qed
  have "\<forall>w \<in> set out. wr_vault_key_epoch w = e \<and> key_id_of (wr_envelope w) \<noteq> None" "distinct (map at out)"
    using r(1,2) unfolding rewraps_ok_def by auto
  moreover have "at ` set out \<inter> set drps = {}" using d(3) r(3) drs by auto
  moreover have "at ` set stored = at ` set out \<union> set drps"
    unfolding drs
  proof (intro equalityI subsetI)
    fix l assume "l \<in> at ` set stored"
    then show "l \<in> at ` set out \<union> set (vt_dropped rotation)" by (rule cov)
  next
    fix l assume "l \<in> at ` set out \<union> set (vt_dropped rotation)"
    then show "l \<in> at ` set stored"
    proof
      assume "l \<in> set (vt_dropped rotation)"
      from conjunct1 [OF d(3) [OF this]] show ?thesis by (rule iffD1 [OF st])
    qed (rule subsetD [OF sub])
  qed
  ultimately show ?thesis using c(1,5) r(2) drs fresh by simp
qed

lemma stored_wraps:
  assumes "length (wraps_after db v None (saturating_add MAX_ITEM_KEY_WRAPS 1)) \<le> MAX_ITEM_KEY_WRAPS"
  shows "w \<in> set (wraps_after db v None (saturating_add MAX_ITEM_KEY_WRAPS 1)) \<longleftrightarrow>
    (\<exists>c. wrap_at db v (at w) = Some c \<and> wr_vault_key_epoch w = wc_vault_key_epoch c \<and> wr_envelope w = wc_envelope c)"
proof -
  have limit: "saturating_add MAX_ITEM_KEY_WRAPS 1 = Suc MAX_ITEM_KEY_WRAPS"
    by (simp add: saturating_add_def MAX_ITEM_KEY_WRAPS_def usize_max_def)
  define rows where "rows = map (\<lambda>((_, i, key), c). \<lparr> wr_item_id = i, wr_item_key_id = key,
         wr_vault_key_epoch = wc_vault_key_epoch c, wr_envelope = wc_envelope c \<rparr>)
       (filter (\<lambda>((v', _, _), c). v' = v) (bt_entries (db_wraps db)))"
  have "wraps_after db v None (saturating_add MAX_ITEM_KEY_WRAPS 1) = take (Suc MAX_ITEM_KEY_WRAPS) rows"
    unfolding wraps_after_def rows_def limit by simp
  then have all: "wraps_after db v None (saturating_add MAX_ITEM_KEY_WRAPS 1) = rows" using assms by simp
  have "w \<in> set rows \<longleftrightarrow> (\<exists>i key c. bt_get (db_wraps db) (v, i, key) = Some c \<and>
      w = \<lparr> wr_item_id = i, wr_item_key_id = key, wr_vault_key_epoch = wc_vault_key_epoch c, wr_envelope = wc_envelope c \<rparr>)"
    unfolding rows_def by (force simp: bt_entries_iff image_iff)
  then show ?thesis unfolding all by (cases w) (auto simp: wrap_at_def at_def)
qed

section \<open>The whole rotation\<close>

lemma check_vault_Inr:
  assumes "check_vault db account v ae kid t = Inr plan"
  obtains vr where "vault_of_account db account v = Some vr" "vr_vault_key_epoch vr < sf_vault_key_epoch (vt_self_grant t)"
    "key_id_of (sf_envelope (vt_self_grant t)) = Some kid" "pl_vault_id plan = v"
    "pl_has_grant plan \<longleftrightarrow> repo_self_grant db v \<noteq> None"
    "pl_grant plan = \<lparr> gr_account_key_epoch = ae, gr_vault_key_epoch = sf_vault_key_epoch (vt_self_grant t),
       gr_envelope = sf_envelope (vt_self_grant t) \<rparr>"
    "check_wraps (wraps_after db v None (saturating_add MAX_ITEM_KEY_WRAPS 1)) t (sf_vault_key_epoch (vt_self_grant t)) =
       Inr (pl_rewrapped plan, pl_dropped plan)"
    "check_cutoff db v t = Inr ()"
  using assms
  by (auto simp: check_vault_def and_then_Inr ok_or_Inr Let_def not_le split: if_splits)

lemma check_vault_facts:
  assumes "check_vault db account v ae kid t = Inr plan"
  shows "pl_vault_id plan = v \<and> (pl_has_grant plan \<longleftrightarrow> repo_self_grant db v \<noteq> None) \<and> distinct (map at (pl_rewrapped plan))"
  by (rule check_vault_Inr [OF assms]; drule check_wraps_Inr; elim conjE; intro conjI; assumption)

text \<open>The writes of several vaults: each vault is written once, between databases that show it as the
  first and the last one do.\<close>

lemma write_vaults_effect:
  "write_vaults db ps now = Inr db' \<Longrightarrow> distinct (map pl_vault_id ps) \<Longrightarrow>
   (\<forall>p \<in> set ps. distinct (map at (pl_rewrapped p)) \<and> (pl_has_grant p \<longleftrightarrow> repo_self_grant db (pl_vault_id p) \<noteq> None)) \<Longrightarrow>
   (\<forall>p \<in> set ps. \<exists>a b. vault_kept db a (pl_vault_id p) \<and> write_vault a p now = Inr b \<and> vault_kept b db' (pl_vault_id p)) \<and>
   (\<forall>v. v \<notin> pl_vault_id ` set ps \<longrightarrow> vault_kept db db' v)"
proof (induction ps arbitrary: db)
  case (Cons p ps)
  from Cons.prems(1) obtain db1 where w: "write_vault db p now = Inr db1" "write_vaults db1 ps now = Inr db'"
    by (auto simp: and_then_Inr)
  have d: "distinct (map pl_vault_id ps)" "pl_vault_id p \<notin> pl_vault_id ` set ps" using Cons.prems(2) by auto
  have kept: "vault_kept db db1 v" if "v \<noteq> pl_vault_id p" for v
    using write_vault_effect(7) [OF w(1)] Cons.prems(3) that by simp
  have ps: "distinct (map at (pl_rewrapped q)) \<and> (pl_has_grant q \<longleftrightarrow> repo_self_grant db1 (pl_vault_id q) \<noteq> None) \<and>
      vault_kept db db1 (pl_vault_id q)" if "q \<in> set ps" for q
  proof -
    have "pl_vault_id q \<noteq> pl_vault_id p" using d(2) that by (metis image_eqI)
    from kept [OF this] show ?thesis using Cons.prems(3) that by (simp add: vault_kept_def)
  qed
  note IH = Cons.IH [OF w(2) d(1)]
  show ?case
  proof (intro conjI ballI allI impI)
    fix q assume q: "q \<in> set (p # ps)"
    show "\<exists>a b. vault_kept db a (pl_vault_id q) \<and> write_vault a q now = Inr b \<and> vault_kept b db' (pl_vault_id q)"
    proof (cases "q = p")
      case True
      have "vault_kept db1 db' (pl_vault_id p)" using IH ps d(2) by blast
      then show ?thesis using w(1) True kept_refl by blast
    next
      case False
      then have "q \<in> set ps" using q by simp
      then show ?thesis using IH ps kept_trans by blast
    qed
  next
    fix v assume "v \<notin> pl_vault_id ` set (p # ps)"
    then show "vault_kept db db' v" using IH ps kept kept_trans by (metis (no_types, lifting) image_insert insertCI list.set(2))
  qed
qed simp

lemma vaults_distinct: "distinct (list_vaults db account)"
proof -
  have "distinct (map fst (bt_entries (db_vaults db)))" using bt_keys_distinct [of "db_vaults db"] by (simp add: bt_keys_def)
  then show ?thesis unfolding list_vaults_def by (simp add: distinct_map_filter)
qed

lemma rotation_plans:
  assumes "apply_rotation db account ae kid entries now_ms = Inr db'"
  obtains plans where "list_vaults db account = map (\<lambda>t. sf_vault_id (vt_self_grant t)) entries" "length plans = length entries"
    "\<And>i. i < length entries \<Longrightarrow>
      check_vault db account (sf_vault_id (vt_self_grant (entries ! i))) ae kid (entries ! i) = Inr (plans ! i)"
    "write_vaults db plans now_ms = Inr db'"
proof -
  from assms obtain plans where p: "list_vaults db account = map (\<lambda>t. sf_vault_id (vt_self_grant t)) entries"
    "try_map (\<lambda>(v, t). check_vault db account v ae kid t) (zip (list_vaults db account) entries) = Inr plans"
    "write_vaults db plans now_ms = Inr db'"
    by (auto simp: apply_rotation_def and_then_Inr Let_def to_sql_time_def u64_to_sql_def split: if_splits)
  then have "list_all2 (\<lambda>(v, t) plan. check_vault db account v ae kid t = Inr plan) (zip (list_vaults db account) entries) plans"
    by (auto simp: try_map_Inr split_def)
  then show ?thesis using that [OF p(1) _ _ p(3)] p(1) by (auto simp: list_all2_conv_all_nth)
qed

text \<open>What a rotation entry leaves of its vault.\<close>

definition final_wraps :: "wrap_row list \<Rightarrow> u32 \<Rightarrow> u64 \<Rightarrow> locator \<Rightarrow> wrap_columns \<Rightarrow> bool" where
  "final_wraps ws e now l c \<longleftrightarrow> (\<exists>w \<in> set ws. at w = l \<and> wr_vault_key_epoch w = e \<and> c = wrap_columns_of w now)"

definition vault_rotated :: "vault_db \<Rightarrow> vault_db \<Rightarrow> id16 \<Rightarrow> u32 \<Rightarrow> bytes \<Rightarrow> u64 \<Rightarrow> vault_rotation \<Rightarrow> bool" where
  "vault_rotated db db' account ae kid now t \<longleftrightarrow>
     (let grant = vt_self_grant t; v = sf_vault_id grant; e = sf_vault_key_epoch grant in
       (\<exists>r. vault_of_account db account v = Some r \<and> vr_vault_key_epoch r < e \<and>
            repo_vault db' v = Some (r \<lparr> vr_vault_key_epoch := e \<rparr>)) \<and>
       repo_self_grant db' v = Some \<lparr> gr_account_key_epoch = ae, gr_vault_key_epoch = e, gr_envelope = sf_envelope grant \<rparr> \<and>
       key_id_of (sf_envelope grant) = Some kid \<and>
       (\<forall>l c. wrap_at db' v l = Some c \<longleftrightarrow> final_wraps (vt_item_key_wraps t) e now l c) \<and>
       (\<forall>l c l' c'. wrap_at db v l = Some c \<and> wrap_at db' v l' = Some c' \<longrightarrow>
          key_id_of (wc_envelope c') \<noteq> key_id_of (wc_envelope c)) \<and>
       no_record_wraps db' v)"

lemma vault_of_account_row: "vault_of_account db account v = Some r \<Longrightarrow> repo_vault db v = Some r"
  by (auto simp: vault_of_account_def split: option.splits if_splits)

text \<open>The wraps of a vault that one plan of accepted checks has written.\<close>

lemma written_wraps:
  assumes c: "check_wraps (wraps_after db v None (saturating_add MAX_ITEM_KEY_WRAPS 1)) t e = Inr (pl_rewrapped q, pl_dropped q)"
    and w: "\<And>x. x \<in> set (pl_rewrapped q) \<Longrightarrow> at x \<notin> set (pl_dropped q) \<Longrightarrow> f (at x) = Some (wrap_columns_of x now)"
      "\<And>l. l \<in> set (pl_dropped q) \<Longrightarrow> f l = None"
      "\<And>l. l \<notin> at ` set (pl_rewrapped q) \<Longrightarrow> l \<notin> set (pl_dropped q) \<Longrightarrow> f l = wrap_at db v l"
  shows "f l = Some x \<longleftrightarrow> final_wraps (vt_item_key_wraps t) e now l x"
    and "wrap_at db v l = Some x \<Longrightarrow> f l' = Some y \<Longrightarrow> key_id_of (wc_envelope y) \<noteq> key_id_of (wc_envelope x)"
proof -
  note ws = check_wraps_Inr [OF c]
  note sw = stored_wraps [OF conjunct1 [OF ws]]
  have same: "pl_rewrapped q = vt_item_key_wraps t" using ws by (elim conjE)
  have dis: "at x \<notin> set (pl_dropped q)" if "x \<in> set (pl_rewrapped q)" for x using ws that by blast
  have row: "\<lparr> wr_item_id = fst l, wr_item_key_id = snd l, wr_vault_key_epoch = wc_vault_key_epoch x, wr_envelope = wc_envelope x \<rparr>
      \<in> set (wraps_after db v None (saturating_add MAX_ITEM_KEY_WRAPS 1))" if "wrap_at db v l = Some x" for l x
    unfolding sw using that by (simp add: at_def)
  have stored: "l \<in> at ` set (pl_rewrapped q) \<union> set (pl_dropped q)" if "wrap_at db v l = Some x" for l x
    using imageI [OF row [OF that], of at] ws by (simp add: at_def)
  have wr: "f l = Some x \<longleftrightarrow> final_wraps (vt_item_key_wraps t) e now l x" for l x
  proof
    assume x: "f l = Some x"
    have nd: "l \<notin> set (pl_dropped q)" using w(2) x by (metis option.distinct(1))
    have "l \<in> at ` set (pl_rewrapped q)"
    proof (rule ccontr)
      assume n: "l \<notin> at ` set (pl_rewrapped q)"
      then have "wrap_at db v l = Some x" using w(3) [OF n nd] x by simp
      then show False using stored n nd by blast
    qed
    then obtain y where y: "y \<in> set (pl_rewrapped q)" "at y = l" by blast
    then show "final_wraps (vt_item_key_wraps t) e now l x"
      using w(1) [OF y(1) dis [OF y(1)]] x ws by (auto simp: final_wraps_def)
  next
    assume "final_wraps (vt_item_key_wraps t) e now l x"
    then show "f l = Some x" using w(1) dis by (auto simp: final_wraps_def same)
  qed
  then show "f l = Some x \<longleftrightarrow> final_wraps (vt_item_key_wraps t) e now l x" .
  have new: "key_id_of (wr_envelope r) \<noteq> key_id_of (wr_envelope y)"
    if "y \<in> set (pl_rewrapped q)" "r \<in> set (wraps_after db v None (saturating_add MAX_ITEM_KEY_WRAPS 1))" for y r
    using ws that by simp
  show "key_id_of (wc_envelope y) \<noteq> key_id_of (wc_envelope x)" if "wrap_at db v l = Some x" "f l' = Some y"
    using new [OF _ row [OF that(1)]] iffD1 [OF wr that(2)]
    by (fastforce simp: final_wraps_def wrap_columns_of_def same)
qed

lemma checked_vault_rotated:
  assumes k: "check_vault db account v ae kid t = Inr q" "v = sf_vault_id (vt_self_grant t)"
    and ab: "vault_kept db a v" "write_vault a q now = Inr b" "vault_kept b db' v"
  shows "vault_rotated db db' account ae kid now t"
proof -
  let ?e = "sf_vault_key_epoch (vt_self_grant t)"
  obtain vr where c: "vault_of_account db account v = Some vr" "vr_vault_key_epoch vr < ?e"
    "key_id_of (sf_envelope (vt_self_grant t)) = Some kid" "pl_vault_id q = v"
    "pl_has_grant q \<longleftrightarrow> repo_self_grant db v \<noteq> None"
    "pl_grant q = \<lparr> gr_account_key_epoch = ae, gr_vault_key_epoch = ?e, gr_envelope = sf_envelope (vt_self_grant t) \<rparr>"
    "check_wraps (wraps_after db v None (saturating_add MAX_ITEM_KEY_WRAPS 1)) t ?e = Inr (pl_rewrapped q, pl_dropped q)"
    using check_vault_Inr [OF k(1)] by metis
  have g: "pl_has_grant q \<longleftrightarrow> repo_self_grant a (pl_vault_id q) \<noteq> None" using c(4,5) ab(1) by (simp add: vault_kept_def)
  have d: "distinct (map at (pl_rewrapped q))" using check_wraps_Inr [OF c(7)] by blast
  note w = write_vault_effect [OF ab(2) d g, unfolded c(4)]
  have same: "wrap_at db' v = wrap_at b v" "wrap_at a v = wrap_at db v" using ab(1,3) by (simp_all add: vault_kept_def)
  note wraps = written_wraps [OF c(7), of "wrap_at db' v" now, unfolded same(1), OF w(3) w(4) w(5) [unfolded same(2)]]
  have "repo_vault db' v = Some (vr \<lparr> vr_vault_key_epoch := ?e \<rparr>)" "repo_self_grant db' v = Some (pl_grant q)" "no_record_wraps db' v"
    using w(1,2,6) vault_of_account_row [OF c(1)] ab(1,3) c(6) by (simp_all add: vault_kept_def no_record_wraps_def)
  then show ?thesis
    unfolding vault_rotated_def Let_def k(2) [symmetric] using c(1-3) unfolding c(6)
    by (intro conjI allI impI exI [of _ vr]) (use wraps same in \<open>simp_all\<close>, metis+)
qed

text \<open>C99: what a key rotation leaves behind. When \<open>apply_rotation\<close> succeeds, its entries are exactly
  the account's vaults, in order. Each of them (\<open>vault_rotated\<close>) is at a higher vault-key epoch
  than before and holds the new self-grant, under the new account key. Its wrap set is exactly the
  entry's re-wraps, all at the new epoch and none under a key that any wrap of the vault was under
  before, and no wrap is left beside an op or a snapshot. Nothing of a vault of another account has
  changed.\<close>
theorem rotation_rewraps_every_vault:
  assumes "apply_rotation db account ae kid entries now = Inr db'"
  shows "list_vaults db account = map (\<lambda>t. sf_vault_id (vt_self_grant t)) entries \<and>
    (\<forall>t \<in> set entries. vault_rotated db db' account ae kid now t) \<and>
    (\<forall>v. v \<notin> set (list_vaults db account) \<longrightarrow> vault_kept db db' v)"
proof -
  obtain plans where p: "list_vaults db account = map (\<lambda>t. sf_vault_id (vt_self_grant t)) entries" "length plans = length entries"
    "\<And>i. i < length entries \<Longrightarrow>
      check_vault db account (sf_vault_id (vt_self_grant (entries ! i))) ae kid (entries ! i) = Inr (plans ! i)"
    "write_vaults db plans now = Inr db'"
    using rotation_plans [OF assms] by blast
  have ids: "map pl_vault_id plans = list_vaults db account"
  proof (rule nth_equalityI)
    fix i assume "i < length (map pl_vault_id plans)"
    then have i: "i < length entries" using p(2) by simp
    show "map pl_vault_id plans ! i = list_vaults db account ! i"
      using i p(1,2) check_vault_facts [OF p(3) [OF i]] by simp
  qed (simp add: p(1,2))
  have pre: "\<forall>q \<in> set plans. distinct (map at (pl_rewrapped q)) \<and> (pl_has_grant q \<longleftrightarrow> repo_self_grant db (pl_vault_id q) \<noteq> None)"
    using p(2) check_vault_facts [OF p(3)] by (auto simp: all_set_conv_all_nth)
  note eff = write_vaults_effect [OF p(4) _ pre, unfolded ids, OF vaults_distinct]
  have "vault_rotated db db' account ae kid now t" if t: "t \<in> set entries" for t
  proof -
    obtain i where i: "i < length entries" "entries ! i = t" using t by (metis in_set_conv_nth)
    have k: "check_vault db account (sf_vault_id (vt_self_grant t)) ae kid t = Inr (plans ! i)" using p(3) [OF i(1)] i(2) by simp
    have "pl_vault_id (plans ! i) = sf_vault_id (vt_self_grant t)" using check_vault_facts [OF k] by simp
    moreover have "plans ! i \<in> set plans" using i(1) p(2) by simp
    ultimately show ?thesis using eff checked_vault_rotated [OF k refl] by metis
  qed
  then have "\<forall>t \<in> set entries. vault_rotated db db' account ae kid now t" by (intro ballI)
  moreover have "pl_vault_id ` set plans = set (list_vaults db account)" using arg_cong [OF ids, of set] by simp
  ultimately show ?thesis using p(1) conjunct2 [OF eff] by (intro conjI) simp_all
qed

text \<open>One vault with one wrap, under the old epoch and key; the rotation re-wraps it.\<close>

definition sample_envelope :: "u8 \<Rightarrow> bytes" where
  "sample_envelope x = [1, 1] @ replicate 125 x"

definition sample_wrapped :: vault_db where
  "sample_wrapped = sample_db \<lparr> db_wraps := bt_insert (7, 8, 9)
     \<lparr> wc_vault_key_epoch = 0, wc_envelope = sample_envelope 5, wc_updated_at_ms = 5 \<rparr> bt_empty \<rparr>"

definition sample_rotation :: vault_rotation where
  "sample_rotation =
     \<lparr> vt_self_grant = \<lparr> sf_vault_id = 7, sf_account_key_epoch = 1, sf_vault_key_epoch = 1, sf_envelope = sample_envelope 4 \<rparr>,
       vt_cursor = vv_new,
       vt_item_key_wraps =
         [\<lparr> wr_item_id = 8, wr_item_key_id = 9, wr_vault_key_epoch = 1, wr_envelope = sample_envelope 6 \<rparr>],
       vt_dropped = [] \<rparr>"

lemma sample_key_id: "key_id_of (sample_envelope x) = Some (replicate 16 x)"
proof -
  let ?e = "EnvSymmetric \<lparr> se_header = [1, 1] @ replicate 16 x, se_key_id = replicate 16 x, se_nonce = replicate 24 x,
    se_commitment = replicate 32 x, se_ciphertext = replicate 37 x, se_tag = replicate 16 x \<rparr>"
  have "parse_envelope (sample_envelope x) = Inr ?e"
    by (simp add: parse_envelope_iff envelope_ok_def sample_envelope_def FORMAT_VERSION_def MAX_PLAINTEXT_LEN_def
        replicate_add [symmetric])
  then show ?thesis by (simp add: key_id_of_def)
qed

lemma sample_length: "length (sample_envelope x) = ITEM_KEY_WRAP_ENVELOPE_LEN"
  by (simp add: sample_envelope_def ITEM_KEY_WRAP_ENVELOPE_LEN_def envelope_lens)

lemma single_entries: "bt_entries (bt_insert k v bt_empty) = [(k, v)]"
  by (simp add: bt_insert.rep_eq bt_empty.rep_eq)

lemma sample_vaults: "list_vaults sample_wrapped 3 = [7]"
  by (simp add: list_vaults_def sample_wrapped_def sample_db_def empty_db_def single_entries)

lemma sample_rows: "wraps_after sample_wrapped 7 None (saturating_add MAX_ITEM_KEY_WRAPS 1) =
    [\<lparr> wr_item_id = 8, wr_item_key_id = 9, wr_vault_key_epoch = 0, wr_envelope = sample_envelope 5 \<rparr>]"
  by (simp add: wraps_after_def sample_wrapped_def saturating_add_def MAX_ITEM_KEY_WRAPS_def usize_max_def single_entries)

lemma sample_checked: "check_wraps [\<lparr> wr_item_id = 8, wr_item_key_id = 9, wr_vault_key_epoch = 0, wr_envelope = sample_envelope 5 \<rparr>]
    sample_rotation 1 = Inr (vt_item_key_wraps sample_rotation, [])"
proof -
  obtain e where e: "parse_envelope (sample_envelope 5) = Inr e" "envelope_key_id e = replicate 16 5"
    using key_id_parse [OF sample_key_id] by blast
  have "(6 :: u8) \<noteq> 5" by simp
  then have n: "replicate 16 (6 :: u8) \<noteq> replicate 16 5" by (metis in_set_replicate zero_neq_numeral)
  have k: "bt_keys (bs_collect [(8 :: id16, 9 :: id16)]) = [(8, 9)]" "bt_keys (bt_empty :: locator btree_set) = []"
    by (simp_all add: bt_keys_def single_entries bt_empty.rep_eq bs_collect_def bs_extend_def bs_insert_def)
  show ?thesis
    using n by (simp add: check_wraps_def sample_rotation_def MAX_ITEM_KEY_WRAPS_def sample_key_id sample_length
        List.map_filter_def e at_def ok_or_def k)
qed

lemma sample_cutoff: "check_cutoff sample_wrapped 7 sample_rotation = Inr ()"
proof -
  have "repo_heads sample_wrapped 7 = vv_new" "snapshots_of sample_wrapped 7 = []" "vv_entries vv_new = []"
    by (simp_all add: repo_heads_def heads_rows_def vv_from_iter_def sample_wrapped_def sample_db_def empty_db_def
        snapshots_of_def rows_where_def ops_of_def vv_entries_def vv_new_def bt_empty.rep_eq)
  then show ?thesis by (simp add: check_cutoff_def sample_rotation_def clamped_vvs_def Let_def)
qed

lemma sample_row_of: "bt_get (db_vaults sample_wrapped) 7 =
    Some \<lparr> vr_account_id = 3, vr_vault_key_epoch = 0, vr_next_store_seq = 1, vr_created_at_ms = 5 \<rparr>"
  by (simp add: sample_wrapped_def sample_db_def)

lemma sample_grant_of: "bt_get (db_self_grants sample_wrapped) 7 =
    Some \<lparr> gc_account_key_epoch = 0, gc_vault_key_epoch = 0, gc_envelope = [1], gc_updated_at_ms = 5 \<rparr>"
  by (simp add: sample_wrapped_def sample_db_def)

lemma sample_wrap_of: "bt_get (db_wraps sample_wrapped) (7, 8, 9) =
    Some \<lparr> wc_vault_key_epoch = 0, wc_envelope = sample_envelope 5, wc_updated_at_ms = 5 \<rparr>"
  by (simp add: sample_wrapped_def)

lemma sample_rotated: "\<exists>db'. apply_rotation sample_wrapped 3 1 (replicate 16 4) [sample_rotation] 6 = Inr db'"
proof -
  let ?p = "\<lparr> pl_vault_id = 7, pl_has_grant = True,
      pl_grant = \<lparr> gr_account_key_epoch = 1, gr_vault_key_epoch = 1, gr_envelope = sample_envelope 4 \<rparr>,
      pl_rewrapped = vt_item_key_wraps sample_rotation, pl_dropped = [] \<rparr>"
  have rot: "vt_self_grant sample_rotation =
      \<lparr> sf_vault_id = 7, sf_account_key_epoch = 1, sf_vault_key_epoch = 1, sf_envelope = sample_envelope 4 \<rparr>"
    by (simp add: sample_rotation_def)
  have c: "check_vault sample_wrapped 3 7 1 (replicate 16 4) sample_rotation = Inr ?p"
    unfolding check_vault_def sample_rows rot Let_def vault_of_account_def repo_vault_def sample_row_of
    by (simp add: sample_checked sample_cutoff sample_key_id repo_self_grant_def sample_grant_of ok_or_def)
  have "\<exists>db'. write_vault sample_wrapped ?p 6 = Inr db'"
    unfolding write_vault_def
    by (simp add: set_vault_epoch_def update_vault_def sample_row_of write_self_grant_def sample_grant_of Let_def
        sample_rotation_def overwrite_wrap_def sample_wrap_of)
  then show ?thesis
    using c by (auto simp: apply_rotation_def sample_vaults rot to_sql_time_def u64_to_sql_def sql_fits_def Let_def)
qed

theorem rotation_rewraps_every_vault_witness:
  "\<exists>db'. apply_rotation sample_wrapped 3 1 (replicate 16 4) [sample_rotation] 6 = Inr db' \<and>
     vault_rotated sample_wrapped db' 3 1 (replicate 16 4) 6 sample_rotation \<and>
     wrap_at db' 7 (8, 9) = Some \<lparr> wc_vault_key_epoch = 1, wc_envelope = sample_envelope 6, wc_updated_at_ms = 6 \<rparr>"
proof -
  obtain db' where r: "apply_rotation sample_wrapped 3 1 (replicate 16 4) [sample_rotation] 6 = Inr db'"
    using sample_rotated by blast
  from rotation_rewraps_every_vault [OF r]
  have v: "vault_rotated sample_wrapped db' 3 1 (replicate 16 4) 6 sample_rotation" by simp
  then have "wrap_at db' 7 (8, 9) = Some \<lparr> wc_vault_key_epoch = 1, wc_envelope = sample_envelope 6, wc_updated_at_ms = 6 \<rparr>"
    by (simp add: vault_rotated_def Let_def sample_rotation_def final_wraps_def at_def wrap_columns_of_def)
  then show ?thesis using r v by blast
qed

end
