(* ===== verification/Spec2Isabelle.thy ===== *)
theory Spec2Isabelle
  imports Compaction Item_Order Item_Safety Replica_Records Vault_Merge Vault_Reports Vault_Uploads Vault_Passes Server_Rotation
begin

text \<open>
  A verification development of the rizzy-vault sync engine. (Header completed with the
  components.)
\<close>

end
